(* ===== verification/Prelude.thy ===== *)
theory Prelude
  imports "HOL-Library.Word"
begin

text \<open>
  The development's shared vocabulary.

  \<^item> Pointers are 64-bit words and NULL is 0. The lock-free lists keep a delete flag in bit 0 of a
    link (\<open>(uintptr_t)p | 1\<close>, \<open>p & ~0x1\<close>): \<open>mark\<close>, \<open>unmark\<close> and \<open>aligned\<close> below.
  \<^item> A C function is a program of type \<open>('s, 'a) prog\<close>: a tree of atomic accesses to the shared
    state \<open>'s\<close> that ends by returning a value, by an invalid memory access (\<open>Fault\<close>: a NULL or
    freed object is dereferenced, or freed twice), or by using up the bound on its retries
    (\<open>Spin\<close>). Every interlocked operation and every plain read or write of a shared field is one
    \<open>atomic\<close> step, so the same definition has a sequential meaning (\<open>run\<close>, \<open>wp\<close>) and a meaning
    in which the steps of several threads interleave (theory \<open>Interleaving\<close>).
  \<^item> \<open>wp p Q s\<close>: run alone from \<open>s\<close>, the program returns (it neither faults nor spins for ever)
    with a value and a state that satisfy \<open>Q\<close>. It is total correctness.
  \<^item> \<open>heap_chain next p xs\<close>: following \<open>next\<close> from \<open>p\<close> meets exactly the nodes \<open>xs\<close> and then NULL.
\<close>

unbundle bit_operations_syntax

section \<open>Pointers and the delete flag\<close>

type_synonym ptr = "64 word"

abbreviation null :: ptr where
  "null \<equiv> 0"

definition mark :: "ptr \<Rightarrow> ptr" where
  "mark p = p OR 1"

definition unmark :: "ptr \<Rightarrow> ptr" where
  "unmark p = p AND NOT 1"

definition aligned :: "ptr \<Rightarrow> bool" where
  "aligned p \<longleftrightarrow> p AND 1 = 0"

lemma ptr_eq_bits: "p = q \<longleftrightarrow> (\<forall>n<64. bit p n = bit q n)" for p q :: ptr
  by (auto intro!: bit_word_eqI)

lemmas flag_bits = ptr_eq_bits bit_and_iff bit_or_iff bit_not_iff bit_1_iff

lemma aligned_unmark [simp]: "aligned (unmark p)"
  by (auto simp: aligned_def unmark_def flag_bits)

lemma aligned_null [simp]: "aligned null"
  by (simp add: aligned_def)

lemma aligned_bit: "aligned p \<longleftrightarrow> \<not> bit p 0"
  by (force simp: aligned_def flag_bits intro!: gr0I)

lemma unmark_aligned [simp]: "aligned p \<Longrightarrow> unmark p = p"
  by (auto simp: aligned_bit unmark_def flag_bits intro!: gr0I)

lemma unmark_mark [simp]: "aligned p \<Longrightarrow> unmark (mark p) = p"
  by (auto simp: aligned_bit unmark_def mark_def flag_bits intro!: gr0I)

lemma not_aligned_mark [simp]: "\<not> aligned (mark p)"
  by (simp add: aligned_bit mark_def bit_or_iff)

lemma mark_neq_aligned [simp]: "aligned q \<Longrightarrow> mark p \<noteq> q" "aligned q \<Longrightarrow> q \<noteq> mark p"
  using not_aligned_mark by metis+

lemma mark_neq_null [simp]: "mark p \<noteq> null"
  by (rule mark_neq_aligned) simp

section \<open>Programs\<close>

datatype ('s, 'a) prog =
  Done 'a
| Fault
| Spin
| Atomic "'s \<Rightarrow> 's \<times> ('s, 'a) prog"

text \<open>\<open>call p k\<close> performs \<open>p\<close> and goes on with \<open>k\<close> of what it returned.\<close>

primrec call :: "('s, 'a) prog \<Rightarrow> ('a \<Rightarrow> ('s, 'b) prog) \<Rightarrow> ('s, 'b) prog" where
  "call (Done a) k = k a"
| "call Fault k = Fault"
| "call Spin k = Spin"
| "call (Atomic f) k = Atomic (\<lambda>s. map_prod id (\<lambda>p. call p k) (f s))"

text \<open>One indivisible access: it reads and updates the state, or faults.\<close>

definition atomic :: "('s \<Rightarrow> ('a \<times> 's) option) \<Rightarrow> ('s, 'a) prog" where
  "atomic f = Atomic (\<lambda>s. case f s of None \<Rightarrow> (s, Fault) | Some (a, s') \<Rightarrow> (s', Done a))"

text \<open>A step that only reads, and a step that only writes.\<close>

definition reads :: "('s \<Rightarrow> 'a option) \<Rightarrow> ('s, 'a) prog" where
  "reads f = atomic (\<lambda>s. map_option (\<lambda>a. (a, s)) (f s))"

definition writes :: "('s \<Rightarrow> 's option) \<Rightarrow> ('s, unit) prog" where
  "writes f = atomic (\<lambda>s. map_option (Pair ()) (f s))"

text \<open>Induction over a program: an access is done when whatever follows it is.\<close>

lemma prog_induct [case_names Done Fault Spin Atomic]:
  assumes "\<And>a. P (Done a)" and "P Fault" and "P Spin"
    and "\<And>f. (\<And>s. P (snd (f s))) \<Longrightarrow> P (Atomic f)"
  shows "P p"
proof (induction p)
  case (Atomic f)
  have "P (snd (f s))" for s
    by (rule Atomic.IH) (auto intro: snds.intros)
  then show ?case by (rule assms(4))
qed (use assms in auto)

lemma call_Done_right [simp]: "call p Done = p"
  by (induction p rule: prog_induct) (auto simp: fun_eq_iff map_prod_def split_beta)

lemma call_assoc: "call (call p k) l = call p (\<lambda>a. call (k a) l)"
  by (induction p rule: prog_induct) (auto simp: fun_eq_iff map_prod_def split_beta)

section \<open>Sequential meaning\<close>

datatype ('s, 'a) outcome = Value 'a 's | Faulted | Spinning

primrec run :: "('s, 'a) prog \<Rightarrow> 's \<Rightarrow> ('s, 'a) outcome" where
  "run (Done a) s = Value a s"
| "run Fault s = Faulted"
| "run Spin s = Spinning"
| "run (Atomic f) s = (case map_prod id run (f s) of (s', r) \<Rightarrow> r s')"

definition wp :: "('s, 'a) prog \<Rightarrow> ('a \<Rightarrow> 's \<Rightarrow> bool) \<Rightarrow> 's \<Rightarrow> bool" where
  "wp p Q s = (case run p s of Value a s' \<Rightarrow> Q a s' | _ \<Rightarrow> False)"

named_theorems wp_simps "weakest preconditions of the program constructs"

lemma run_call: "run (call p k) s = (case run p s of Value a s' \<Rightarrow> run (k a) s' | Faulted \<Rightarrow> Faulted | Spinning \<Rightarrow> Spinning)"
proof (induction p arbitrary: s rule: prog_induct)
  case (Atomic f)
  then show ?case
    by (simp add: map_prod_def split_beta)
qed auto

lemma run_atomic [simp]:
  "run (atomic f) s = (case f s of None \<Rightarrow> Faulted | Some (a, s') \<Rightarrow> Value a s')"
  by (auto simp: atomic_def split: option.splits)

lemma wp_Done [wp_simps]: "wp (Done a) Q s = Q a s"
  and wp_Fault [wp_simps]: "wp Fault Q s = False"
  and wp_Spin [wp_simps]: "wp Spin Q s = False"
  by (simp_all add: wp_def)

lemma wp_call [wp_simps]: "wp (call p k) Q s = wp p (\<lambda>a. wp (k a) Q) s"
  by (simp add: wp_def run_call split: outcome.splits)

lemma wp_atomic [wp_simps]: "wp (atomic f) Q s = (case f s of None \<Rightarrow> False | Some (a, s') \<Rightarrow> Q a s')"
  by (simp add: wp_def split: option.splits)

lemma wp_reads [wp_simps]: "wp (reads f) Q s = (case f s of None \<Rightarrow> False | Some a \<Rightarrow> Q a s)"
  by (simp add: reads_def wp_atomic split: option.splits)

lemma wp_writes [wp_simps]: "wp (writes f) Q s = (case f s of None \<Rightarrow> False | Some s' \<Rightarrow> Q () s')"
  by (simp add: writes_def wp_atomic split: option.splits)

lemma wp_if [wp_simps]: "wp (if b then p else q) Q s = (if b then wp p Q s else wp q Q s)"
  by simp

text \<open>The same, for preconditions that are not applied to a state, as they occur inside postconditions.\<close>

lemma wp_Done_fun: "wp (Done a) Q = Q a"
  by (simp add: fun_eq_iff wp_Done)

lemma wp_call_fun: "wp (call p k) Q = wp p (\<lambda>a. wp (k a) Q)"
  by (simp add: fun_eq_iff wp_call)

lemma wp_if_fun: "wp (if b then p else q) Q = (if b then wp p Q else wp q Q)"
  by simp

lemmas wp_funs = wp_Done_fun wp_call_fun wp_if_fun

lemma wp_mono: "wp p Q s \<Longrightarrow> (\<And>a s'. Q a s' \<Longrightarrow> Q' a s') \<Longrightarrow> wp p Q' s"
  by (auto simp: wp_def split: outcome.splits)

lemma wp_seq: "wp p P s \<Longrightarrow> (\<And>a s'. P a s' \<Longrightarrow> wp (k a) Q s') \<Longrightarrow> wp (call p k) Q s"
  unfolding wp_call by (rule wp_mono)

lemma wp_run: "wp p Q s \<longleftrightarrow> (\<exists>a s'. run p s = Value a s' \<and> Q a s')"
  by (simp add: wp_def split: outcome.splits)

lemma run_wp: "run p s = Value a s' \<Longrightarrow> wp p Q s = Q a s'"
  by (simp add: wp_def)

lemma wp_runD: "wp p Q s \<Longrightarrow> run p s = Value a s' \<Longrightarrow> Q a s'"
  by (simp add: wp_def)

text \<open>The liberal version, for what is easier to show without asking that the program returns.\<close>

definition wlp :: "('s, 'a) prog \<Rightarrow> ('a \<Rightarrow> 's \<Rightarrow> bool) \<Rightarrow> 's \<Rightarrow> bool" where
  "wlp p Q s = (case run p s of Value a s' \<Rightarrow> Q a s' | _ \<Rightarrow> True)"

lemma wlp_simps [simp]:
  "wlp (Done a) Q s = Q a s" "wlp Fault Q s" "wlp Spin Q s"
  "wlp (call p k) Q s = wlp p (\<lambda>a. wlp (k a) Q) s"
  "wlp (atomic f) Q s = (case f s of None \<Rightarrow> True | Some (a, s') \<Rightarrow> Q a s')"
  by (simp_all add: wlp_def run_call split: outcome.splits option.splits prod.splits)

lemma wlp_mono: "wlp p Q s \<Longrightarrow> (\<And>a s'. Q a s' \<Longrightarrow> Q' a s') \<Longrightarrow> wlp p Q' s"
  by (auto simp: wlp_def split: outcome.splits)

lemma wp_wlp: "wp p Q s \<Longrightarrow> wlp p Q' s \<Longrightarrow> wp p (\<lambda>a s'. Q a s' \<and> Q' a s') s"
  by (auto simp: wp_def wlp_def split: outcome.splits)

section \<open>Allocation\<close>

text \<open>
  \<open>malloc\<close> either fails or returns an address that is not in use; which of the two, and which
  address, is not the program's choice. The state holds the list of the allocator's future
  answers: an answer that is NULL, unaligned or still allocated counts as a failure, and so does
  an exhausted list. A theorem over every state therefore covers every behaviour of the
  allocator, the reuse of freed addresses included. \<open>free\<close> of an address that is not allocated
  faults.
\<close>

record mem =
  live :: "ptr set"
  answers :: "ptr list"

definition malloc_step :: "'a mem_scheme \<Rightarrow> ptr \<times> 'a mem_scheme" where
  "malloc_step s =
     (case answers s of
        [] \<Rightarrow> (null, s)
      | p # ps \<Rightarrow>
          if p = null \<or> \<not> aligned p \<or> p \<in> live s then (null, s\<lparr>answers := ps\<rparr>)
          else (p, s\<lparr>answers := ps, live := insert p (live s)\<rparr>))"

definition free_step :: "ptr \<Rightarrow> 'a mem_scheme \<Rightarrow> 'a mem_scheme option" where
  "free_step p s =
     (if p = null then Some s
      else if p \<in> live s then Some (s\<lparr>live := live s - {p}\<rparr>)
      else None)"

lemma malloc_step_cases:
  obtains ps where "malloc_step s = (null, s\<lparr>answers := ps\<rparr>)"
  | p ps where "p \<noteq> null" "aligned p" "p \<notin> live s"
      "malloc_step s = (p, s\<lparr>answers := ps, live := insert p (live s)\<rparr>)"
proof (cases "answers s")
  case Nil
  then have "malloc_step s = (null, s\<lparr>answers := []\<rparr>)"
    by (simp add: malloc_step_def)
  then show thesis by (rule that(1))
next
  case (Cons p ps)
  then show thesis
    by (cases "p = null \<or> \<not> aligned p \<or> p \<in> live s")
      (auto simp: malloc_step_def intro: that)
qed

text \<open>\<open>plenty n s\<close>: the next \<open>n\<close> allocations will succeed.\<close>

definition plenty :: "nat \<Rightarrow> 'a mem_scheme \<Rightarrow> bool" where
  "plenty n s \<longleftrightarrow> n \<le> length (answers s) \<and> distinct (take n (answers s)) \<and>
     (\<forall>p \<in> set (take n (answers s)). p \<noteq> null \<and> aligned p \<and> p \<notin> live s)"

lemma plenty_cong: "answers s' = answers s \<Longrightarrow> live s' = live s \<Longrightarrow> plenty n s' = plenty n s"
  by (simp add: plenty_def)

lemma plenty_fewer:
  assumes "plenty n s" and "m \<le> n"
  shows "plenty m s"
proof -
  have "take m (answers s) = take m (take n (answers s))" using assms(2) by (simp add: min_def)
  moreover have "distinct (take m (take n (answers s)))" by (rule distinct_take) (use assms(1) in \<open>simp add: plenty_def\<close>)
  ultimately have "distinct (take m (answers s))" by metis
  moreover have "set (take m (answers s)) \<subseteq> set (take n (answers s))" using assms(2) by (rule set_take_subset_set_take)
  ultimately show ?thesis using assms by (auto simp: plenty_def)
qed

lemma plenty_malloc:
  assumes "plenty (Suc n) s" and "malloc_step s = (p, s')"
  shows "p \<noteq> null" and "plenty n s'"
  using assms by (auto simp: plenty_def malloc_step_def split: list.splits if_splits)

text \<open>
  A new object's fields hold the pattern that a checking C runtime fills fresh memory with; code
  that used one before writing it would meet an address that nothing is allocated at.
\<close>

abbreviation junk :: ptr where
  "junk \<equiv> 0xCDCDCDCDCDCDCDCD"

text \<open>The \<open>int\<close> results: 0, or \<open>MU_FAILURE\<close>, a macro of the build tools for some nonzero value.\<close>

datatype int_result = Result_0 | MU_FAILURE

text \<open>Bounds that come from the number of allocated objects.\<close>

lemma distinct_length_live: "distinct xs \<Longrightarrow> set xs \<subseteq> live s \<Longrightarrow> finite (live s) \<Longrightarrow> length xs \<le> card (live s)"
  by (metis card_mono distinct_card)

section \<open>Objects\<close>

text \<open>
  The objects of one C type are a field of the state: a map from addresses. \<open>get\<close> selects that
  field and \<open>put\<close> replaces it. One access to the object at \<open>p\<close> is a function of the object that
  gives a value and, unless the access only reads, the new object. The functions below are the
  accesses that the C code makes: plain and interlocked reads (\<open>rd\<close>), writes (\<open>wr\<close>), exchange,
  compare-exchange (it returns the old value) and addition (it returns the new value).
\<close>

definition access :: "('s \<Rightarrow> ptr \<Rightarrow> 'o option) \<Rightarrow> ((ptr \<Rightarrow> 'o option) \<Rightarrow> 's \<Rightarrow> 's) \<Rightarrow> ptr \<Rightarrow>
    ('o \<Rightarrow> 'a \<times> 'o option) \<Rightarrow> ('s, 'a) prog" where
  "access get put p g = atomic (\<lambda>s. case get s p of
     None \<Rightarrow> None
   | Some x \<Rightarrow> (case g x of
       (a, None) \<Rightarrow> Some (a, s)
     | (a, Some y) \<Rightarrow> Some (a, put ((get s)(p \<mapsto> y)) s)))"

definition rd :: "('o \<Rightarrow> 'v) \<Rightarrow> 'o \<Rightarrow> 'v \<times> 'o option" where
  "rd sel x = (sel x, None)"

definition wr :: "(('v \<Rightarrow> 'v) \<Rightarrow> 'o \<Rightarrow> 'o) \<Rightarrow> 'v \<Rightarrow> 'o \<Rightarrow> unit \<times> 'o option" where
  "wr upd v x = ((), Some (upd (\<lambda>_. v) x))"

definition exchange :: "('o \<Rightarrow> 'v) \<Rightarrow> (('v \<Rightarrow> 'v) \<Rightarrow> 'o \<Rightarrow> 'o) \<Rightarrow> 'v \<Rightarrow> 'o \<Rightarrow> 'v \<times> 'o option" where
  "exchange sel upd v x = (sel x, Some (upd (\<lambda>_. v) x))"

definition cas :: "('o \<Rightarrow> 'v) \<Rightarrow> (('v \<Rightarrow> 'v) \<Rightarrow> 'o \<Rightarrow> 'o) \<Rightarrow> 'v \<Rightarrow> 'v \<Rightarrow> 'o \<Rightarrow> 'v \<times> 'o option" where
  "cas sel upd new expected x = (sel x, if sel x = expected then Some (upd (\<lambda>_. new) x) else None)"

definition add_fetch :: "('o \<Rightarrow> 'v :: plus) \<Rightarrow> (('v \<Rightarrow> 'v) \<Rightarrow> 'o \<Rightarrow> 'o) \<Rightarrow> 'v \<Rightarrow> 'o \<Rightarrow> 'v \<times> 'o option" where
  "add_fetch sel upd d x = (sel x + d, Some (upd (\<lambda>_. sel x + d) x))"

definition new_obj :: "('s mem_scheme \<Rightarrow> ptr \<Rightarrow> 'o option) \<Rightarrow>
    ((ptr \<Rightarrow> 'o option) \<Rightarrow> 's mem_scheme \<Rightarrow> 's mem_scheme) \<Rightarrow> 'o \<Rightarrow> ('s mem_scheme, ptr) prog" where
  "new_obj get put x = atomic (\<lambda>s.
     let (p, s') = malloc_step s
     in Some (p, if p = null then s' else put ((get s')(p \<mapsto> x)) s'))"

definition free_obj :: "('s mem_scheme \<Rightarrow> ptr \<Rightarrow> 'o option) \<Rightarrow>
    ((ptr \<Rightarrow> 'o option) \<Rightarrow> 's mem_scheme \<Rightarrow> 's mem_scheme) \<Rightarrow> ptr \<Rightarrow> ('s mem_scheme, unit) prog" where
  "free_obj get put p = writes (\<lambda>s. map_option
     (\<lambda>s'. if p = null then s' else put ((get s')(p := None)) s') (free_step p s))"

lemmas access_kinds = rd_def wr_def exchange_def cas_def add_fetch_def

lemma wp_access [wp_simps]:
  "wp (access get put p g) Q s = (case get s p of None \<Rightarrow> False
     | Some x \<Rightarrow> (case g x of (a, None) \<Rightarrow> Q a s | (a, Some y) \<Rightarrow> Q a (put ((get s)(p \<mapsto> y)) s)))"
  by (simp add: access_def wp_atomic split: option.splits prod.splits)

lemma wp_free_obj [wp_simps]:
  "wp (free_obj get put p) Q s \<longleftrightarrow>
     (if p = null then Q () s
      else p \<in> live s \<and> Q () (let s' = s\<lparr>live := live s - {p}\<rparr> in put ((get s')(p := None)) s'))"
  by (simp add: free_obj_def wp_writes free_step_def Let_def)

lemma wp_new_obj:
  assumes "\<And>ps. Q null (s\<lparr>answers := ps\<rparr>)"
    and "\<And>p ps s'. p \<noteq> null \<Longrightarrow> aligned p \<Longrightarrow> p \<notin> live s \<Longrightarrow> s' = s\<lparr>answers := ps, live := insert p (live s)\<rparr> \<Longrightarrow>
      Q p (put ((get s')(p \<mapsto> x)) s')"
  shows "wp (new_obj get put x) Q s"
  by (cases s rule: malloc_step_cases) (use assms in \<open>simp_all add: new_obj_def wp_atomic\<close>)

lemma wlp_access [simp]:
  "wlp (access get put p g) Q s = (case get s p of None \<Rightarrow> True
     | Some x \<Rightarrow> (case g x of (a, None) \<Rightarrow> Q a s | (a, Some y) \<Rightarrow> Q a (put ((get s)(p \<mapsto> y)) s)))"
  by (simp add: access_def split: option.splits prod.splits)

lemma wlp_new_obj [simp]:
  "wlp (new_obj get put x) Q s = (case malloc_step s of (p, s') \<Rightarrow> Q p (if p = null then s' else put ((get s')(p \<mapsto> x)) s'))"
  by (simp add: new_obj_def split: prod.splits)

section \<open>Chains of heap nodes\<close>

text \<open>The heap of one kind of node is seen through its \<open>next\<close> field, \<open>None\<close> where nothing is allocated.\<close>

fun heap_chain :: "(ptr \<Rightarrow> ptr option) \<Rightarrow> ptr \<Rightarrow> ptr list \<Rightarrow> bool" where
  "heap_chain nxt p [] \<longleftrightarrow> p = null"
| "heap_chain nxt p (x # xs) \<longleftrightarrow> p = x \<and> x \<noteq> null \<and> (\<exists>q. nxt x = Some q \<and> heap_chain nxt q xs)"

text \<open>\<open>heap_path nxt p xs q\<close>: the nodes \<open>xs\<close> lead from \<open>p\<close> to \<open>q\<close>.\<close>

fun heap_path :: "(ptr \<Rightarrow> ptr option) \<Rightarrow> ptr \<Rightarrow> ptr list \<Rightarrow> ptr \<Rightarrow> bool" where
  "heap_path nxt p [] q \<longleftrightarrow> p = q"
| "heap_path nxt p (x # xs) q \<longleftrightarrow> p = x \<and> x \<noteq> null \<and> (\<exists>r. nxt x = Some r \<and> heap_path nxt r xs q)"

lemma heap_chain_null [simp]: "heap_chain nxt null xs \<longleftrightarrow> xs = []"
  by (cases xs) auto

lemma heap_chain_nonnull:
  "p \<noteq> null \<Longrightarrow> heap_chain nxt p xs \<longleftrightarrow> (\<exists>q ys. xs = p # ys \<and> nxt p = Some q \<and> heap_chain nxt q ys)"
  by (cases xs) auto

lemma heap_chain_frame [simp]: "x \<notin> set xs \<Longrightarrow> heap_chain (nxt(x := v)) p xs = heap_chain nxt p xs"
  by (induction xs arbitrary: p) auto

lemma heap_chain_frame_if [simp]:
  "x \<notin> set xs \<Longrightarrow> heap_chain (\<lambda>a. if a = x then v else nxt a) p xs = heap_chain nxt p xs"
  by (induction xs arbitrary: p) auto

lemma heap_chain_frame_field [simp]:
  "x \<notin> set xs \<Longrightarrow> heap_chain (\<lambda>a. map_option g (if a = x then v else m a)) p xs = heap_chain (\<lambda>a. map_option g (m a)) p xs"
  by (induction xs arbitrary: p) auto

lemma heap_chain_cong:
  "(\<And>x. x \<in> set xs \<Longrightarrow> nxt x = nxt' x) \<Longrightarrow> heap_chain nxt p xs = heap_chain nxt' p xs"
  by (induction xs arbitrary: p) auto

lemma heap_path_cong:
  "(\<And>x. x \<in> set xs \<Longrightarrow> nxt x = nxt' x) \<Longrightarrow> heap_path nxt p xs q = heap_path nxt' p xs q"
  by (induction xs arbitrary: p) auto

lemma heap_chain_unique: "heap_chain nxt p xs \<Longrightarrow> heap_chain nxt p ys \<Longrightarrow> xs = ys"
proof (induction xs arbitrary: p ys)
  case Nil
  then show ?case by simp
next
  case (Cons x xs)
  then show ?case by (cases ys) auto
qed

lemma heap_chain_append:
  "heap_chain nxt p (xs @ ys) \<longleftrightarrow> (\<exists>q. heap_path nxt p xs q \<and> heap_chain nxt q ys)"
  by (induction xs arbitrary: p) auto

lemma heap_path_append:
  "heap_path nxt p (xs @ ys) r \<longleftrightarrow> (\<exists>q. heap_path nxt p xs q \<and> heap_path nxt q ys r)"
  by (induction xs arbitrary: p) auto

lemma heap_chain_first: "heap_chain nxt p xs \<Longrightarrow> p = (case xs of [] \<Rightarrow> null | x # _ \<Rightarrow> x)"
  by (cases xs) auto

lemma heap_chain_not_null: "heap_chain nxt p xs \<Longrightarrow> null \<notin> set xs"
  by (induction xs arbitrary: p) auto

lemma heap_chain_dom: "heap_chain nxt p xs \<Longrightarrow> x \<in> set xs \<Longrightarrow> nxt x \<noteq> None"
  by (induction xs arbitrary: p) auto

lemma heap_chain_distinct: "heap_chain nxt p xs \<Longrightarrow> distinct xs"
proof (induction xs arbitrary: p)
  case Nil
  then show ?case by simp
next
  case (Cons x xs)
  then obtain q where q: "nxt x = Some q" "heap_chain nxt q xs" by auto
  have "x \<notin> set xs"
  proof
    assume "x \<in> set xs"
    then obtain us vs where xs: "xs = us @ x # vs" by (meson split_list)
    with q have "heap_chain nxt x (x # vs)"
      by (auto simp: heap_chain_append)
    then have "heap_chain nxt q vs" using q by auto
    with q(2) have "xs = vs" by (rule heap_chain_unique)
    with xs show False by simp
  qed
  with Cons.IH q show ?case by auto
qed

text \<open>Unlinking a node \<open>r\<close> that follows \<open>a\<close>.\<close>

lemma heap_path_frame [simp]: "x \<notin> set xs \<Longrightarrow> heap_path (nxt(x := v)) p xs q = heap_path nxt p xs q"
  by (induction xs arbitrary: p) auto

lemma heap_chain_unlink:
  assumes "heap_chain nxt p (us @ a # r # xs)" and "nxt r = Some q"
  shows "heap_chain (nxt(a \<mapsto> q)) p (us @ a # xs)"
proof -
  have d: "a \<notin> set us" "a \<notin> set xs" using heap_chain_distinct [OF assms(1)] by auto
  obtain p' where "heap_path nxt p us p'" "heap_chain nxt p' (a # r # xs)"
    using assms(1) by (auto simp: heap_chain_append)
  with assms(2) d show ?thesis
    by (auto simp: heap_chain_append)
qed

lemma heap_chain_suffix: "heap_chain nxt p (us @ x # xs) \<Longrightarrow> heap_chain nxt x (x # xs)"
  by (auto simp: heap_chain_append)

text \<open>Linking the last node \<open>a\<close> of a chain to another chain.\<close>

lemma heap_chain_link:
  assumes "heap_chain nxt p (us @ [a])" and "heap_chain nxt q ys" and "a \<notin> set ys"
  shows "heap_chain (nxt(a \<mapsto> q)) p (us @ a # ys)"
proof -
  have "a \<notin> set us" using heap_chain_distinct [OF assms(1)] by simp
  moreover obtain p' where "heap_path nxt p us p'" "heap_chain nxt p' [a]"
    using assms(1) by (auto simp: heap_chain_append)
  ultimately show ?thesis using assms(2,3) by (auto simp: heap_chain_append)
qed

end
