(* ===== verification/Interleaving.thy ===== *)
theory Interleaving
  imports Prelude
begin

text \<open>
  Several threads over one shared state. A pool is a list of programs; a step of the pool is one
  atomic access of one of them, and which one is not determined. \<open>run_schedule\<close> executes the pool
  under a given list of choices.

  \<open>rg R G Q p s\<close> is a rely-guarantee judgement by recursion over the program: from state \<open>s\<close>, if
  all that the other threads do between two accesses of \<open>p\<close> is a sequence of \<open>R\<close> steps, then every
  access of \<open>p\<close> is a \<open>G\<close> step, \<open>p\<close> never faults, and whatever it returns satisfies \<open>Q\<close> at that time
  and later. \<open>pool_sound\<close> puts threads together: when the guarantee of each is within the rely of
  every other, all of that holds in every interleaving.
\<close>

section \<open>Pools of threads\<close>

type_synonym ('s, 'a) pool = "'s \<times> ('s, 'a) prog list"

inductive pool_step :: "('s, 'a) pool \<Rightarrow> ('s, 'a) pool \<Rightarrow> bool" where
  access: "i < length ps \<Longrightarrow> ps ! i = Atomic f \<Longrightarrow> f s = (s', p') \<Longrightarrow>
    pool_step (s, ps) (s', ps[i := p'])"

inductive_cases pool_stepE: "pool_step (s, ps) c"

abbreviation pool_reach :: "('s, 'a) pool \<Rightarrow> ('s, 'a) pool \<Rightarrow> bool" where
  "pool_reach \<equiv> pool_step\<^sup>*\<^sup>*"

text \<open>One turn of thread \<open>i\<close>; a thread that has finished loses its turn.\<close>

definition turn :: "nat \<Rightarrow> ('s, 'a) pool \<Rightarrow> ('s, 'a) pool" where
  "turn i c =
     (if i < length (snd c) then
        (case snd c ! i of
           Atomic f \<Rightarrow> (fst (f (fst c)), (snd c)[i := snd (f (fst c))])
         | _ \<Rightarrow> c)
      else c)"

fun run_schedule :: "nat list \<Rightarrow> ('s, 'a) pool \<Rightarrow> ('s, 'a) pool" where
  "run_schedule [] c = c"
| "run_schedule (i # is) c = run_schedule is (turn i c)"

lemma turn_reach: "pool_reach c (turn i c)"
proof (cases "i < length (snd c)")
  case True
  show ?thesis
  proof (cases "snd c ! i")
    case (Atomic f)
    with True have "pool_step (fst c, snd c) (fst (f (fst c)), (snd c)[i := snd (f (fst c))])"
      by (intro pool_step.access) simp_all
    with True Atomic show ?thesis by (simp add: turn_def)
  qed (simp_all add: turn_def)
qed (simp add: turn_def)

lemma run_schedule_reach: "pool_reach c (run_schedule is c)"
proof (induction "is" arbitrary: c)
  case (Cons i "is")
  then show ?case
    using rtranclp_trans [OF turn_reach [of c i] Cons.IH [of "turn i c"]] by simp
qed simp

lemma pool_step_length: "pool_step (s, ps) (s', ps') \<Longrightarrow> length ps' = length ps"
  by (auto elim: pool_stepE)

section \<open>Rely-guarantee judgements\<close>

primrec rg :: "('s \<Rightarrow> 's \<Rightarrow> bool) \<Rightarrow> ('s \<Rightarrow> 's \<Rightarrow> bool) \<Rightarrow> ('a \<Rightarrow> 's \<Rightarrow> bool) \<Rightarrow>
    ('s, 'a) prog \<Rightarrow> 's \<Rightarrow> bool" where
  "rg R G Q (Done a) s \<longleftrightarrow> (\<forall>s'. R\<^sup>*\<^sup>* s s' \<longrightarrow> Q a s')"
| "rg R G Q Fault s \<longleftrightarrow> False"
| "rg R G Q Spin s \<longleftrightarrow> True"
| "rg R G Q (Atomic f) s \<longleftrightarrow>
     (\<forall>s1. R\<^sup>*\<^sup>* s s1 \<longrightarrow> (case map_prod id (rg R G Q) (f s1) of (s2, r) \<Rightarrow> G s1 s2 \<and> r s2))"

lemma rg_Atomic:
  "rg R G Q (Atomic f) s \<longleftrightarrow> (\<forall>s1. R\<^sup>*\<^sup>* s s1 \<longrightarrow> G s1 (fst (f s1)) \<and> rg R G Q (snd (f s1)) (fst (f s1)))"
  by (simp add: map_prod_def split_beta)

declare rg.simps(4) [simp del] rg_Atomic [simp]

lemma rg_AtomicD:
  assumes "rg R G Q (Atomic f) s" and "f s = (s', p')"
  shows "G s s'" and "rg R G Q p' s'"
proof -
  have "G s (fst (f s)) \<and> rg R G Q (snd (f s)) (fst (f s))"
    by (rule assms(1) [unfolded rg_Atomic, rule_format]) simp
  with assms(2) show "G s s'" and "rg R G Q p' s'" by simp_all
qed

text \<open>A judgement survives what the environment does.\<close>

lemma rg_stable: "rg R G Q p s \<Longrightarrow> R\<^sup>*\<^sup>* s s' \<Longrightarrow> rg R G Q p s'"
  by (cases p) (auto intro: rtranclp_trans)

lemma rg_mono:
  "rg R G Q p s \<Longrightarrow> (\<And>a s'. Q a s' \<Longrightarrow> Q' a s') \<Longrightarrow> rg R G Q' p s"
  by (induction p arbitrary: s rule: prog_induct) auto

lemma rg_weaken:
  assumes "rg R G Q p s" and RR: "\<And>s s'. R' s s' \<Longrightarrow> R s s'" and "\<And>s s'. G s s' \<Longrightarrow> G' s s'"
  shows "rg R' G' Q p s"
proof -
  have le: "R'\<^sup>*\<^sup>* s s' \<Longrightarrow> R\<^sup>*\<^sup>* s s'" for s s'
    by (rule mono_rtranclp [rule_format, of R' R]) (auto intro: RR)
  from assms(1) show ?thesis
    by (induction p arbitrary: s rule: prog_induct) (auto intro: le assms(3))
qed

lemma rg_call:
  "rg R G (\<lambda>a. rg R G Q (k a)) p s \<Longrightarrow> rg R G Q (call p k) s"
proof (induction p arbitrary: s rule: prog_induct)
  case (Done a)
  then show ?case by (auto dest: spec [of _ s])
next
  case (Atomic f)
  then show ?case by (auto simp: map_prod_def split_beta)
qed auto

lemma rg_atomic:
  assumes "\<And>s1. R\<^sup>*\<^sup>* s s1 \<Longrightarrow>
    (case f s1 of None \<Rightarrow> False | Some (a, s2) \<Rightarrow> G s1 s2 \<and> (\<forall>s3. R\<^sup>*\<^sup>* s2 s3 \<longrightarrow> Q a s3))"
  shows "rg R G Q (atomic f) s"
  unfolding atomic_def rg_Atomic
proof (intro allI impI)
  fix s1 assume "R\<^sup>*\<^sup>* s s1"
  with assms show "G s1 (fst (case f s1 of None \<Rightarrow> (s1, Fault) | Some (a, s') \<Rightarrow> (s', Done a))) \<and>
      rg R G Q (snd (case f s1 of None \<Rightarrow> (s1, Fault) | Some (a, s') \<Rightarrow> (s', Done a)))
        (fst (case f s1 of None \<Rightarrow> (s1, Fault) | Some (a, s') \<Rightarrow> (s', Done a)))"
    by (fastforce split: option.splits)
qed

text \<open>
  The form in which proofs use it: an assertion \<open>P\<close> that the environment keeps, before the access,
  and one that it keeps after it.
\<close>

definition stable :: "('s \<Rightarrow> 's \<Rightarrow> bool) \<Rightarrow> ('s \<Rightarrow> bool) \<Rightarrow> bool" where
  "stable R P \<longleftrightarrow> (\<forall>s s'. P s \<longrightarrow> R s s' \<longrightarrow> P s')"

lemma stable_rtranclp: "R\<^sup>*\<^sup>* s s' \<Longrightarrow> stable R P \<Longrightarrow> P s \<Longrightarrow> P s'"
  by (induction rule: rtranclp_induct) (auto simp: stable_def)

lemma stableI: "(\<And>s s'. P s \<Longrightarrow> R s s' \<Longrightarrow> P s') \<Longrightarrow> stable R P"
  by (auto simp: stable_def)

lemma rg_Done:
  "P s \<Longrightarrow> stable R P \<Longrightarrow> (\<And>s. P s \<Longrightarrow> Q a s) \<Longrightarrow> rg R G Q (Done a) s"
  by (auto dest: stable_rtranclp)

lemma rg_access:
  assumes "P s" and "stable R P"
    and step: "\<And>s1. P s1 \<Longrightarrow>
      (case f s1 of None \<Rightarrow> False | Some (a, s2) \<Rightarrow> G s1 s2 \<and> rg R G Q (k a) s2)"
  shows "rg R G Q (call (atomic f) k) s"
proof (rule rg_call, rule rg_atomic)
  fix s1 assume "R\<^sup>*\<^sup>* s s1"
  with assms have "P s1" by (blast intro: stable_rtranclp)
  with step [of s1] show "case f s1 of None \<Rightarrow> False
      | Some (a, s2) \<Rightarrow> G s1 s2 \<and> (\<forall>s3. R\<^sup>*\<^sup>* s2 s3 \<longrightarrow> rg R G Q (k a) s3)"
    by (auto split: option.splits intro: rg_stable)
qed

lemma rg_read:
  assumes "P s" and "stable R P" and "\<And>s1. G s1 s1"
    and "\<And>s1. P s1 \<Longrightarrow> (case f s1 of None \<Rightarrow> False | Some a \<Rightarrow> rg R G Q (k a) s1)"
  shows "rg R G Q (call (reads f) k) s"
  unfolding reads_def
proof (rule rg_access [OF assms(1,2)])
  fix s1 assume "P s1"
  with assms(4) [of s1] show "case map_option (\<lambda>a. (a, s1)) (f s1) of None \<Rightarrow> False
      | Some (a, s2) \<Rightarrow> G s1 s2 \<and> rg R G Q (k a) s2"
    by (auto simp: assms(3) split: option.splits)
qed

lemma rg_write:
  assumes "P s" and "stable R P"
    and "\<And>s1. P s1 \<Longrightarrow> (case f s1 of None \<Rightarrow> False | Some s2 \<Rightarrow> G s1 s2 \<and> rg R G Q (k ()) s2)"
  shows "rg R G Q (call (writes f) k) s"
  unfolding writes_def
proof (rule rg_access [OF assms(1,2)])
  fix s1 assume "P s1"
  with assms(3) [of s1] show "case map_option (Pair ()) (f s1) of None \<Rightarrow> False
      | Some (a, s2) \<Rightarrow> G s1 s2 \<and> rg R G Q (k a) s2"
    by (auto split: option.splits)
qed

section \<open>Soundness for pools\<close>

definition pool_ok ::
  "(nat \<Rightarrow> 's \<Rightarrow> 's \<Rightarrow> bool) \<Rightarrow> (nat \<Rightarrow> 's \<Rightarrow> 's \<Rightarrow> bool) \<Rightarrow> (nat \<Rightarrow> 'a \<Rightarrow> 's \<Rightarrow> bool) \<Rightarrow> ('s, 'a) pool \<Rightarrow> bool" where
  "pool_ok R G Q c \<longleftrightarrow> (\<forall>i < length (snd c). rg (R i) (G i) (Q i) (snd c ! i) (fst c))"

lemma pool_ok_step:
  assumes "pool_step c c'" and "pool_ok R G Q c"
    and compat: "\<And>i j s s'. i \<noteq> j \<Longrightarrow> G i s s' \<Longrightarrow> R j s s'"
  shows "pool_ok R G Q c'"
  using assms(1)
proof cases
  case (access i ps f s s' p')
  have i: "rg (R i) (G i) (Q i) (Atomic f) s"
    using assms(2) access(1,3,4) unfolding pool_ok_def by (metis fst_conv snd_conv)
  then have G: "G i s s'" and p': "rg (R i) (G i) (Q i) p' s'"
    using rg_AtomicD [OF i] access by simp_all
  have "rg (R j) (G j) (Q j) (ps[i := p'] ! j) s'" if "j < length ps" for j
  proof (cases "j = i")
    case False
    then have "i \<noteq> j" by simp
    from compat [OF this G] have env: "(R j)\<^sup>*\<^sup>* s s'" by (rule r_into_rtranclp)
    have "rg (R j) (G j) (Q j) (ps ! j) s"
      using that assms(2) access(1) unfolding pool_ok_def by (metis fst_conv snd_conv)
    from rg_stable [OF this env] False show ?thesis by simp
  qed (use p' that in simp)
  with access show ?thesis by (simp add: pool_ok_def)
qed

lemma pool_ok_reach:
  assumes "pool_reach c c'" and "pool_ok R G Q c"
    and "\<And>i j s s'. i \<noteq> j \<Longrightarrow> G i s s' \<Longrightarrow> R j s s'"
  shows "pool_ok R G Q c'"
  using assms(1)
proof (induction rule: rtranclp_induct)
  case base
  show ?case by (rule assms(2))
next
  case (step y z)
  show ?case by (rule pool_ok_step [OF step.hyps(2) step.IH assms(3)])
qed

lemma pool_reach_length: "pool_reach c c' \<Longrightarrow> length (snd c') = length (snd c)"
proof (induction rule: rtranclp_induct)
  case (step y z)
  then show ?case using pool_step_length [of "fst y" "snd y" "fst z" "snd z"] by simp
qed simp

lemma pool_sound:
  assumes "pool_reach (s, ps) (s', ps')"
    and "\<And>i. i < length ps \<Longrightarrow> rg (R i) (G i) (Q i) (ps ! i) s"
    and "\<And>i j s s'. i \<noteq> j \<Longrightarrow> G i s s' \<Longrightarrow> R j s s'"
    and "i < length ps"
  shows "rg (R i) (G i) (Q i) (ps' ! i) s'"
    and "ps' ! i \<noteq> Fault"
    and "ps' ! i = Done a \<Longrightarrow> Q i a s'"
proof -
  have "pool_ok R G Q (s', ps')"
    by (rule pool_ok_reach [OF assms(1)]) (use assms(2,3) in \<open>auto simp: pool_ok_def\<close>)
  moreover have "length ps' = length ps"
    using pool_reach_length [OF assms(1)] by simp
  ultimately show rg: "rg (R i) (G i) (Q i) (ps' ! i) s'"
    using assms(4) by (simp add: pool_ok_def)
  show "ps' ! i \<noteq> Fault" using rg by auto
  show "ps' ! i = Done a \<Longrightarrow> Q i a s'" using rg by auto
qed

text \<open>An invariant that every guarantee keeps holds in every reachable state of the pool.\<close>

lemma pool_invariant:
  assumes "pool_reach (s, ps) (s', ps')"
    and "\<And>i. i < length ps \<Longrightarrow> rg (R i) (G i) (Q i) (ps ! i) s"
    and "\<And>i j s s'. i \<noteq> j \<Longrightarrow> G i s s' \<Longrightarrow> R j s s'"
    and "\<And>i s s'. I s \<Longrightarrow> G i s s' \<Longrightarrow> I s'" and "I s"
  shows "I s'"
proof -
  have "I (fst c') \<and> pool_ok R G Q c'" if "pool_reach c c'" "I (fst c)" "pool_ok R G Q c" for c c'
    using that
  proof (induction rule: rtranclp_induct)
    case (step y z)
    from step.hyps(2) show ?case
    proof cases
      case (access i ps f s1 s2 p')
      have y: "I (fst y)" "pool_ok R G Q y" using step.IH step.prems by simp_all
      then have "rg (R i) (G i) (Q i) (Atomic f) s1"
        using access(1,3,4) unfolding pool_ok_def by (metis fst_conv snd_conv)
      then have "G i s1 s2" using access rg_AtomicD(1) by fast
      moreover have "pool_ok R G Q z"
        by (rule pool_ok_step [OF step.hyps(2) y(2) assms(3)])
      ultimately show ?thesis using y(1) access(1,2) assms(4) by (metis fst_conv)
    qed
  qed simp
  from this [OF assms(1)] assms(2,5) show ?thesis by (simp add: pool_ok_def)
qed

end
