(* ===== verification/Mpsc_Lock_Free_Queue.thy ===== *)
theory Mpsc_Lock_Free_Queue
  imports Interleaving
begin

text \<open>
  The multi-producer single-consumer queue of \<open>src/src/mpsc_lock_free_queue.c\<close>. Items are
  caller-owned nodes with a \<open>next\<close> link. Producers push onto \<open>enqueue_head\<close> with a compare-exchange;
  the consumer pops from \<open>dequeue_head\<close> and, when that is empty, takes the whole enqueue list and
  reverses it.

  The queue's struct and the items are maps from addresses. \<open>enqueued\<close> is an auxiliary variable:
  the history of the items linked into the queue, extended in the very step that links one. No
  operation reads it; theorems about several threads speak of it.
\<close>

record mpsc_lock_free_queue =
  dequeue_head :: ptr
  enqueue_head :: ptr

record mpsc_mem = mem +
  mpsc_queue :: "ptr \<Rightarrow> mpsc_lock_free_queue option"
  mpsc_item :: "ptr \<Rightarrow> ptr option"
  enqueued :: "ptr list"

section \<open>Accesses\<close>

definition mpsc_malloc :: "('a mpsc_mem_scheme, ptr) prog" where
  "mpsc_malloc = atomic (\<lambda>s.
     let (p, s') = malloc_step s
     in Some (p, if p = null then s'
                 else s'\<lparr>mpsc_queue := (mpsc_queue s')(p \<mapsto> \<lparr>dequeue_head = junk, enqueue_head = junk\<rparr>)\<rparr>))"

definition mpsc_free :: "ptr \<Rightarrow> ('a mpsc_mem_scheme, unit) prog" where
  "mpsc_free q = writes (\<lambda>s. map_option (mpsc_queue_update (\<lambda>m. m(q := None))) (free_step q s))"

definition get_dequeue_head :: "ptr \<Rightarrow> ('a mpsc_mem_scheme, ptr) prog" where
  "get_dequeue_head q = reads (\<lambda>s. map_option dequeue_head (mpsc_queue s q))"

definition get_enqueue_head :: "ptr \<Rightarrow> ('a mpsc_mem_scheme, ptr) prog" where
  "get_enqueue_head q = reads (\<lambda>s. map_option enqueue_head (mpsc_queue s q))"

definition set_dequeue_head :: "ptr \<Rightarrow> ptr \<Rightarrow> ('a mpsc_mem_scheme, unit) prog" where
  "set_dequeue_head q v = writes (\<lambda>s. map_option
     (\<lambda>o'. s\<lparr>mpsc_queue := (mpsc_queue s)(q \<mapsto> o'\<lparr>dequeue_head := v\<rparr>)\<rparr>) (mpsc_queue s q))"

definition set_enqueue_head :: "ptr \<Rightarrow> ptr \<Rightarrow> ('a mpsc_mem_scheme, unit) prog" where
  "set_enqueue_head q v = writes (\<lambda>s. map_option
     (\<lambda>o'. s\<lparr>mpsc_queue := (mpsc_queue s)(q \<mapsto> o'\<lparr>enqueue_head := v\<rparr>)\<rparr>) (mpsc_queue s q))"

definition exchange_enqueue_head :: "ptr \<Rightarrow> ptr \<Rightarrow> ('a mpsc_mem_scheme, ptr) prog" where
  "exchange_enqueue_head q v = atomic (\<lambda>s. map_option
     (\<lambda>o'. (enqueue_head o', s\<lparr>mpsc_queue := (mpsc_queue s)(q \<mapsto> o'\<lparr>enqueue_head := v\<rparr>)\<rparr>)) (mpsc_queue s q))"

text \<open>The compare-exchange that links an item, with the history extended when it succeeds.\<close>

definition cas_enqueue_head :: "ptr \<Rightarrow> ptr \<Rightarrow> ptr \<Rightarrow> ('a mpsc_mem_scheme, ptr) prog" where
  "cas_enqueue_head q item expected = atomic (\<lambda>s. map_option
     (\<lambda>o'. (enqueue_head o',
            if enqueue_head o' = expected
            then s\<lparr>mpsc_queue := (mpsc_queue s)(q \<mapsto> o'\<lparr>enqueue_head := item\<rparr>), enqueued := enqueued s @ [item]\<rparr>
            else s)) (mpsc_queue s q))"

definition get_item_next :: "ptr \<Rightarrow> ('a mpsc_mem_scheme, ptr) prog" where
  "get_item_next p = reads (\<lambda>s. mpsc_item s p)"

definition set_item_next :: "ptr \<Rightarrow> ptr \<Rightarrow> ('a mpsc_mem_scheme, unit) prog" where
  "set_item_next p v = writes (\<lambda>s. map_option (\<lambda>_. s\<lparr>mpsc_item := (mpsc_item s)(p \<mapsto> v)\<rparr>) (mpsc_item s p))"

lemmas mpsc_access_defs = mpsc_malloc_def mpsc_free_def get_dequeue_head_def get_enqueue_head_def
  set_dequeue_head_def set_enqueue_head_def exchange_enqueue_head_def cas_enqueue_head_def
  get_item_next_def set_item_next_def

section \<open>Operations\<close>

definition mpsc_lock_free_queue_create :: "('a mpsc_mem_scheme, ptr) prog" where
  "mpsc_lock_free_queue_create =
     call mpsc_malloc (\<lambda>q.
     if q = null then Done q
     else
       call (set_dequeue_head q null) (\<lambda>_.
       call (set_enqueue_head q null) (\<lambda>_.
       Done q)))"

definition mpsc_lock_free_queue_destroy :: "ptr \<Rightarrow> ('a mpsc_mem_scheme, unit) prog" where
  "mpsc_lock_free_queue_destroy q = (if q = null then Done () else mpsc_free q)"

text \<open>The retry loop, bounded by \<open>n\<close> attempts.\<close>

fun mpsc_enqueue_loop :: "nat \<Rightarrow> ptr \<Rightarrow> ptr \<Rightarrow> ('a mpsc_mem_scheme, int_result) prog" where
  "mpsc_enqueue_loop 0 q item = Spin"
| "mpsc_enqueue_loop (Suc n) q item =
     call (get_enqueue_head q) (\<lambda>current_head.
     call (set_item_next item current_head) (\<lambda>_.
     call (cas_enqueue_head q item current_head) (\<lambda>old.
     if old = current_head then Done Result_0
     else mpsc_enqueue_loop n q item)))"

definition mpsc_lock_free_queue_enqueue :: "nat \<Rightarrow> ptr \<Rightarrow> ptr \<Rightarrow> ('a mpsc_mem_scheme, int_result) prog" where
  "mpsc_lock_free_queue_enqueue n q item =
     (if q = null \<or> item = null then Done MU_FAILURE
      else mpsc_enqueue_loop n q item)"

text \<open>The loop that reverses the detached list; \<open>dequeue\<close> and \<open>peek\<close> contain it.\<close>

fun mpsc_reverse :: "nat \<Rightarrow> ptr \<Rightarrow> ptr \<Rightarrow> ('a mpsc_mem_scheme, ptr) prog" where
  "mpsc_reverse 0 current_item new_dequeue_head = Spin"
| "mpsc_reverse (Suc n) current_item new_dequeue_head =
     (if current_item = null then Done new_dequeue_head
      else
        call (get_item_next current_item) (\<lambda>next_item.
        call (set_item_next current_item new_dequeue_head) (\<lambda>_.
        mpsc_reverse n next_item current_item)))"

definition mpsc_lock_free_queue_dequeue :: "nat \<Rightarrow> ptr \<Rightarrow> ('a mpsc_mem_scheme, ptr) prog" where
  "mpsc_lock_free_queue_dequeue n q =
     (if q = null then Done null
      else
        call (get_dequeue_head q) (\<lambda>result.
        if result \<noteq> null then
          call (get_item_next result) (\<lambda>next.
          call (set_dequeue_head q next) (\<lambda>_.
          Done result))
        else
          call (exchange_enqueue_head q null) (\<lambda>temporary_list.
          if temporary_list \<noteq> null then
            call (mpsc_reverse n temporary_list null) (\<lambda>new_dequeue_head.
            if new_dequeue_head \<noteq> null then
              call (get_item_next new_dequeue_head) (\<lambda>next.
              call (set_dequeue_head q next) (\<lambda>_.
              Done new_dequeue_head))
            else Done result)
          else Done result)))"

definition mpsc_lock_free_queue_peek :: "nat \<Rightarrow> ptr \<Rightarrow> ('a mpsc_mem_scheme, ptr) prog" where
  "mpsc_lock_free_queue_peek n q =
     (if q = null then Done null
      else
        call (get_dequeue_head q) (\<lambda>result.
        if result = null then
          call (exchange_enqueue_head q null) (\<lambda>temporary_list.
          if temporary_list \<noteq> null then
            call (mpsc_reverse n temporary_list null) (\<lambda>new_dequeue_head.
            call (set_dequeue_head q new_dequeue_head) (\<lambda>_.
            Done new_dequeue_head))
          else Done result)
        else Done result))"

text \<open>The result and what is stored through the \<open>is_empty\<close> pointer, if anything is.\<close>

definition mpsc_lock_free_queue_is_empty :: "ptr \<Rightarrow> ptr \<Rightarrow> ('a mpsc_mem_scheme, int_result \<times> bool option) prog" where
  "mpsc_lock_free_queue_is_empty q is_empty =
     (if q = null \<or> is_empty = null then Done (MU_FAILURE, None)
      else
        call (get_dequeue_head q) (\<lambda>d.
        if d \<noteq> null then Done (Result_0, Some False)
        else
          call (get_enqueue_head q) (\<lambda>e.
          Done (Result_0, Some (e = null)))))"

section \<open>Clients of a queue\<close>

text \<open>A producer sends a list of items one after the other; a consumer receives a number of times.\<close>

primrec send_all :: "(ptr \<Rightarrow> ('s, int_result) prog) \<Rightarrow> ptr list \<Rightarrow> ('s, int_result list) prog" where
  "send_all enq [] = Done []"
| "send_all enq (x # xs) = call (enq x) (\<lambda>r. call (send_all enq xs) (\<lambda>rs. Done (r # rs)))"

primrec receive_n :: "('s, ptr) prog \<Rightarrow> nat \<Rightarrow> ('s, ptr list) prog" where
  "receive_n deq 0 = Done []"
| "receive_n deq (Suc k) = call deq (\<lambda>r. call (receive_n deq k) (\<lambda>rs. Done (r # rs)))"

text \<open>
  The contract of a FIFO queue of items, used by one thread: \<open>holds s xs\<close> says that the queue holds
  \<open>xs\<close>, oldest first; \<open>item_ok s x\<close> that \<open>x\<close> is an item that may be linked; \<open>room\<close> bounds the
  length up to which taking an item out is guaranteed to finish.
\<close>

locale fifo_queue =
  fixes holds :: "'s \<Rightarrow> ptr list \<Rightarrow> bool"
    and item_ok :: "'s \<Rightarrow> ptr \<Rightarrow> bool"
    and room :: nat
    and enq :: "ptr \<Rightarrow> ('s, int_result) prog"
    and deq :: "('s, ptr) prog"
    and peek :: "('s, ptr) prog"
  assumes enq: "holds s xs \<Longrightarrow> item_ok s x \<Longrightarrow> x \<notin> set xs \<Longrightarrow>
      wp (enq x) (\<lambda>r s'. r = Result_0 \<and> holds s' (xs @ [x]) \<and> item_ok s' = item_ok s) s"
    and deq: "holds s xs \<Longrightarrow> length xs < room \<Longrightarrow>
      wp deq (\<lambda>r s'. r = (case xs of [] \<Rightarrow> null | x # _ \<Rightarrow> x) \<and> holds s' (tl xs) \<and> item_ok s' = item_ok s) s"
    and peek: "holds s xs \<Longrightarrow> length xs < room \<Longrightarrow>
      wp peek (\<lambda>r s'. r = (case xs of [] \<Rightarrow> null | x # _ \<Rightarrow> x) \<and> holds s' xs \<and> item_ok s' = item_ok s) s"
begin

lemma send_all:
  assumes "holds s xs" and "distinct ys" and "set ys \<inter> set xs = {}" and "\<forall>y \<in> set ys. item_ok s y"
  shows "wp (send_all enq ys) (\<lambda>rs s'. rs = map (\<lambda>_. Result_0) ys \<and> holds s' (xs @ ys)) s"
  using assms
proof (induction ys arbitrary: s xs)
  case Nil
  then show ?case by (simp add: wp_simps)
next
  case (Cons y ys)
  show ?case
    unfolding send_all.simps
  proof (rule wp_seq [OF enq [OF Cons.prems(1)]], goal_cases)
    case (3 r s')
    have "wp (send_all enq ys) (\<lambda>rs s'. rs = map (\<lambda>_. Result_0) ys \<and> holds s' ((xs @ [y]) @ ys)) s'"
      by (rule Cons.IH) (use 3 Cons.prems in auto)
    then show ?case
      by (rule wp_seq) (use 3 in \<open>simp add: wp_simps\<close>)
  qed (use Cons.prems in auto)
qed

lemma receive_n:
  assumes "holds s (xs @ ys)" and "length (xs @ ys) < room"
  shows "wp (receive_n deq (length xs)) (\<lambda>rs s'. rs = xs \<and> holds s' ys) s"
  using assms
proof (induction xs arbitrary: s)
  case Nil
  then show ?case by (simp add: wp_simps)
next
  case (Cons x xs)
  show ?case
    unfolding receive_n.simps list.size add_0_right add_Suc_right
  proof (rule wp_seq [OF deq [OF Cons.prems]], goal_cases)
    case (1 r s')
    have "wp (receive_n deq (length xs)) (\<lambda>rs s'. rs = xs \<and> holds s' ys) s'"
      by (rule Cons.IH) (use 1 Cons.prems in auto)
    then show ?case
      by (rule wp_seq) (use 1 in \<open>simp add: wp_simps\<close>)
  qed
qed

text \<open>What is sent comes out in the order in which it was sent.\<close>

lemma send_receive:
  assumes "holds s []" and "distinct xs" and "\<forall>x \<in> set xs. item_ok s x" and "length xs < room"
  shows "wp (call (send_all enq xs) (\<lambda>_. receive_n deq (length xs))) (\<lambda>rs s'. rs = xs \<and> holds s' []) s"
proof -
  show ?thesis
  proof (rule wp_seq [OF send_all [OF assms(1,2)]], goal_cases)
    case (3 r s')
    then show ?case using receive_n [of s' xs "[]"] assms(4) by simp
  qed (use assms in auto)
qed

lemma peek_then_deq:
  assumes "holds s xs" and "length xs < room"
  shows "wp (call peek (\<lambda>a. call deq (\<lambda>b. Done (a, b))))
    (\<lambda>r s'. r = (case xs of [] \<Rightarrow> (null, null) | x # _ \<Rightarrow> (x, x)) \<and> holds s' (tl xs)) s"
proof (rule wp_seq [OF peek [OF assms]])
  fix a s1
  assume a: "a = (case xs of [] \<Rightarrow> null | x # _ \<Rightarrow> x) \<and> holds s1 xs \<and> item_ok s1 = item_ok s"
  then have "holds s1 xs" by simp
  from deq [OF this assms(2)]
  show "wp (call deq (\<lambda>b. Done (a, b))) (\<lambda>r s'. r = (case xs of [] \<Rightarrow> (null, null) | x # _ \<Rightarrow> (x, x)) \<and> holds s' (tl xs)) s1"
    by (rule wp_seq) (use a in \<open>auto simp: wp_simps split: list.splits\<close>)
qed

end

section \<open>The queue implements the contract\<close>

definition mpsc_holds :: "ptr \<Rightarrow> 'a mpsc_mem_scheme \<Rightarrow> ptr list \<Rightarrow> bool" where
  "mpsc_holds q s xs \<longleftrightarrow> q \<noteq> null \<and>
     (\<exists>u ds es. mpsc_queue s q = Some u \<and> heap_chain (mpsc_item s) (dequeue_head u) ds \<and>
        heap_chain (mpsc_item s) (enqueue_head u) es \<and> xs = ds @ rev es \<and> distinct xs)"

definition mpsc_item_ok :: "'a mpsc_mem_scheme \<Rightarrow> ptr \<Rightarrow> bool" where
  "mpsc_item_ok s x \<longleftrightarrow> x \<noteq> null \<and> mpsc_item s x \<noteq> None"

lemma mpsc_item_ok_queue [simp]: "mpsc_item_ok (s\<lparr>mpsc_queue := m\<rparr>) = mpsc_item_ok s"
  by (simp add: mpsc_item_ok_def fun_eq_iff)

lemma mpsc_holdsI:
  "q \<noteq> null \<Longrightarrow> mpsc_queue s q = Some u \<Longrightarrow> heap_chain (mpsc_item s) (dequeue_head u) ds \<Longrightarrow>
   heap_chain (mpsc_item s) (enqueue_head u) es \<Longrightarrow> xs = ds @ rev es \<Longrightarrow> distinct xs \<Longrightarrow> mpsc_holds q s xs"
  by (auto simp: mpsc_holds_def)

lemma mpsc_enqueue_holds:
  assumes "mpsc_holds q s xs" and "mpsc_item_ok s x" and "x \<notin> set xs"
  shows "wp (mpsc_lock_free_queue_enqueue (Suc n) q x)
    (\<lambda>r s'. r = Result_0 \<and> mpsc_holds q s' (xs @ [x]) \<and> mpsc_item_ok s' = mpsc_item_ok s) s"
proof -
  obtain u ds es where u: "q \<noteq> null" "mpsc_queue s q = Some u"
    "heap_chain (mpsc_item s) (dequeue_head u) ds" "heap_chain (mpsc_item s) (enqueue_head u) es"
    "xs = ds @ rev es" "distinct xs"
    using assms(1) by (auto simp: mpsc_holds_def)
  have x: "x \<noteq> null" "mpsc_item s x \<noteq> None" "x \<notin> set ds" "x \<notin> set es"
    using assms(2,3) u(5) by (auto simp: mpsc_item_ok_def)
  let ?s = "s\<lparr>mpsc_item := (mpsc_item s)(x \<mapsto> enqueue_head u),
    mpsc_queue := (mpsc_queue s)(q \<mapsto> u\<lparr>enqueue_head := x\<rparr>), enqueued := enqueued s @ [x]\<rparr>"
  have "mpsc_holds q ?s (xs @ [x])"
    unfolding mpsc_holds_def
    by (intro conjI exI [of _ "u\<lparr>enqueue_head := x\<rparr>"] exI [of _ ds] exI [of _ "x # es"])
      (use u x in auto)
  moreover have "mpsc_item_ok ?s = mpsc_item_ok s"
    using x by (auto simp: mpsc_item_ok_def fun_eq_iff)
  ultimately show ?thesis
    using u x by (auto simp: mpsc_lock_free_queue_enqueue_def mpsc_access_defs wp_simps)
qed

text \<open>The reversal, on a detached chain: it ends, and only the links of that chain change.\<close>

lemma wp_mpsc_reverse:
  assumes "heap_chain (mpsc_item s) p xs" and "heap_chain (mpsc_item s) acc ys"
    and "set xs \<inter> set ys = {}" and "length xs < n"
    and post: "\<And>f r. heap_chain f r (rev xs @ ys) \<Longrightarrow> (\<And>z. z \<notin> set xs \<Longrightarrow> f z = mpsc_item s z) \<Longrightarrow>
      (\<And>z. f z = None \<longleftrightarrow> mpsc_item s z = None) \<Longrightarrow> Q r (s\<lparr>mpsc_item := f\<rparr>)"
  shows "wp (mpsc_reverse n p acc) Q s"
  using assms
proof (induction xs arbitrary: n p acc ys s)
  case Nil
  then show ?case
    using Nil.prems(5) [of "mpsc_item s" acc] by (cases n) (simp_all add: wp_simps)
next
  case (Cons x xs)
  obtain m where n: "n = Suc m" using Cons.prems(4) by (cases n) auto
  obtain nx where nx: "mpsc_item s x = Some nx" "heap_chain (mpsc_item s) nx xs" and x: "p = x" "x \<noteq> null"
    using Cons.prems(1) by auto
  have dist: "x \<notin> set xs" "x \<notin> set ys"
    using heap_chain_distinct [OF Cons.prems(1)] Cons.prems(3) by auto
  let ?s = "s\<lparr>mpsc_item := (mpsc_item s)(x \<mapsto> acc)\<rparr>"
  have "wp (mpsc_reverse m nx x) Q ?s"
  proof (rule Cons.IH [where ys = "x # ys"])
    show "heap_chain (mpsc_item ?s) x (x # ys)" using dist x Cons.prems(2) by simp
    show "Q r (?s\<lparr>mpsc_item := f\<rparr>)"
      if "heap_chain f r (rev xs @ x # ys)" and "\<And>z. z \<notin> set xs \<Longrightarrow> f z = mpsc_item ?s z"
        and "\<And>z. f z = None \<longleftrightarrow> mpsc_item ?s z = None" for f r
      using Cons.prems(5) [of f r] that nx by (auto split: if_splits)
  qed (use Cons.prems dist nx n in auto)
  then show ?case using n nx x by (simp add: get_item_next_def set_item_next_def wp_simps)
qed

lemma mpsc_dequeue_holds:
  assumes "mpsc_holds q s xs" and "length xs < n"
  shows "wp (mpsc_lock_free_queue_dequeue n q)
    (\<lambda>r s'. r = (case xs of [] \<Rightarrow> null | x # _ \<Rightarrow> x) \<and> mpsc_holds q s' (tl xs) \<and> mpsc_item_ok s' = mpsc_item_ok s) s"
proof -
  obtain u ds es where u: "q \<noteq> null" "mpsc_queue s q = Some u"
    "heap_chain (mpsc_item s) (dequeue_head u) ds" "heap_chain (mpsc_item s) (enqueue_head u) es"
    "xs = ds @ rev es" "distinct xs"
    using assms(1) by (auto simp: mpsc_holds_def)
  show ?thesis
  proof (cases ds)
    case (Cons d ds')
    then obtain nx where d: "d = dequeue_head u" "d \<noteq> null" "mpsc_item s d = Some nx"
      "heap_chain (mpsc_item s) nx ds'" using u(3) by auto
    then have "mpsc_holds q (s\<lparr>mpsc_queue := (mpsc_queue s)(q \<mapsto> u\<lparr>dequeue_head := nx\<rparr>)\<rparr>) (tl xs)"
      using u Cons by (auto intro!: mpsc_holdsI [where ds = ds' and es = es])
    with u d Cons show ?thesis
      by (simp add: mpsc_lock_free_queue_dequeue_def mpsc_access_defs wp_simps mpsc_item_ok_def fun_eq_iff)
  next
    case Nil
    let ?s = "s\<lparr>mpsc_queue := (mpsc_queue s)(q \<mapsto> u\<lparr>enqueue_head := null\<rparr>)\<rparr>"
    have rev: "wp (mpsc_reverse n (enqueue_head u) null) Q ?s"
      if "\<And>f r. heap_chain f r xs \<Longrightarrow> (\<And>z. f z = None \<longleftrightarrow> mpsc_item s z = None) \<Longrightarrow> Q r (?s\<lparr>mpsc_item := f\<rparr>)" for Q
      by (rule wp_mpsc_reverse [where xs = es and ys = "[]"]) (use u assms(2) Nil that in auto)
    show ?thesis
    proof (cases es rule: rev_cases)
      case Nil
      with \<open>ds = []\<close> u show ?thesis
        by (auto simp: mpsc_lock_free_queue_dequeue_def mpsc_access_defs wp_simps mpsc_holds_def
            mpsc_item_ok_def fun_eq_iff)
    next
      case (snoc es' x)
      have R: "wp (mpsc_reverse n (enqueue_head u) null) (\<lambda>r s'. heap_chain (mpsc_item s') r xs \<and>
          mpsc_queue s' = mpsc_queue ?s \<and> mpsc_item_ok s' = mpsc_item_ok s) ?s"
        by (rule rev) (auto simp: mpsc_item_ok_def fun_eq_iff)
      have xs: "xs = x # rev es'" "distinct xs" "enqueue_head u \<noteq> null"
        using u snoc Nil by auto
      have "wp (call (mpsc_reverse n (enqueue_head u) null) (\<lambda>new_dequeue_head.
            if new_dequeue_head \<noteq> null then
              call (get_item_next new_dequeue_head) (\<lambda>next.
              call (set_dequeue_head q next) (\<lambda>_. Done new_dequeue_head))
            else Done null))
          (\<lambda>r s'. r = x \<and> mpsc_holds q s' (tl xs) \<and> mpsc_item_ok s' = mpsc_item_ok s) ?s"
      proof (rule wp_seq [OF R])
        fix r s'
        assume s': "heap_chain (mpsc_item s') r xs \<and> mpsc_queue s' = mpsc_queue ?s \<and> mpsc_item_ok s' = mpsc_item_ok s"
        then obtain nx where nx: "r = x" "x \<noteq> null" "mpsc_item s' x = Some nx" "heap_chain (mpsc_item s') nx (rev es')"
          using xs by auto
        have "mpsc_holds q (s'\<lparr>mpsc_queue := (mpsc_queue s')(q \<mapsto> u\<lparr>enqueue_head := null, dequeue_head := nx\<rparr>)\<rparr>) (tl xs)"
          by (rule mpsc_holdsI [where ds = "rev es'" and es = "[]"]) (use u(1,2) nx xs in auto)
        then show "wp (if r \<noteq> null then call (get_item_next r) (\<lambda>next. call (set_dequeue_head q next) (\<lambda>_. Done r)) else Done null)
            (\<lambda>r s'. r = x \<and> mpsc_holds q s' (tl xs) \<and> mpsc_item_ok s' = mpsc_item_ok s) s'"
          using nx s' by (simp add: mpsc_access_defs wp_simps)
      qed
      then show ?thesis
        using u(1-3) Nil xs by (simp add: mpsc_lock_free_queue_dequeue_def get_dequeue_head_def exchange_enqueue_head_def wp_simps)
    qed
  qed
qed

lemma mpsc_peek_holds:
  assumes "mpsc_holds q s xs" and "length xs < n"
  shows "wp (mpsc_lock_free_queue_peek n q)
    (\<lambda>r s'. r = (case xs of [] \<Rightarrow> null | x # _ \<Rightarrow> x) \<and> mpsc_holds q s' xs \<and> mpsc_item_ok s' = mpsc_item_ok s) s"
proof -
  obtain u ds es where u: "q \<noteq> null" "mpsc_queue s q = Some u"
    "heap_chain (mpsc_item s) (dequeue_head u) ds" "heap_chain (mpsc_item s) (enqueue_head u) es"
    "xs = ds @ rev es" "distinct xs"
    using assms(1) by (auto simp: mpsc_holds_def)
  show ?thesis
  proof (cases ds)
    case (Cons d ds')
    with u assms(1) show ?thesis
      by (auto simp: mpsc_lock_free_queue_peek_def mpsc_access_defs wp_simps)
  next
    case Nil
    let ?s = "s\<lparr>mpsc_queue := (mpsc_queue s)(q \<mapsto> u\<lparr>enqueue_head := null\<rparr>)\<rparr>"
    have rev: "wp (mpsc_reverse n (enqueue_head u) null) Q ?s"
      if "\<And>f r. heap_chain f r xs \<Longrightarrow> (\<And>z. f z = None \<longleftrightarrow> mpsc_item s z = None) \<Longrightarrow> Q r (?s\<lparr>mpsc_item := f\<rparr>)" for Q
      by (rule wp_mpsc_reverse [where xs = es and ys = "[]"]) (use u assms(2) Nil that in auto)
    show ?thesis
    proof (cases "es = []")
      case True
      with \<open>ds = []\<close> u show ?thesis
        by (auto simp: mpsc_lock_free_queue_peek_def mpsc_access_defs wp_simps mpsc_holds_def
            mpsc_item_ok_def fun_eq_iff)
    next
      case False
      with Nil u(5) have "xs \<noteq> []" by simp
      then obtain x xs' where xs: "xs = x # xs'" by (cases xs) auto
      have R: "wp (mpsc_reverse n (enqueue_head u) null) (\<lambda>r s'. heap_chain (mpsc_item s') r xs \<and>
          mpsc_queue s' = mpsc_queue ?s \<and> mpsc_item_ok s' = mpsc_item_ok s) ?s"
        by (rule rev) (auto simp: mpsc_item_ok_def fun_eq_iff)
      have "wp (call (mpsc_reverse n (enqueue_head u) null) (\<lambda>new_dequeue_head.
            call (set_dequeue_head q new_dequeue_head) (\<lambda>_. Done new_dequeue_head)))
          (\<lambda>r s'. r = x \<and> mpsc_holds q s' xs \<and> mpsc_item_ok s' = mpsc_item_ok s) ?s"
      proof (rule wp_seq [OF R])
        fix r s'
        assume s': "heap_chain (mpsc_item s') r xs \<and> mpsc_queue s' = mpsc_queue ?s \<and> mpsc_item_ok s' = mpsc_item_ok s"
        have "mpsc_holds q (s'\<lparr>mpsc_queue := (mpsc_queue s')(q \<mapsto> u\<lparr>enqueue_head := null, dequeue_head := r\<rparr>)\<rparr>) xs"
          by (rule mpsc_holdsI [where ds = xs and es = "[]"]) (use u s' in auto)
        then show "wp (call (set_dequeue_head q r) (\<lambda>_. Done r))
            (\<lambda>r s'. r = x \<and> mpsc_holds q s' xs \<and> mpsc_item_ok s' = mpsc_item_ok s) s'"
          using xs s' by (simp add: mpsc_access_defs wp_simps)
      qed
      moreover have "enqueue_head u \<noteq> null" using u False by (cases es) auto
      ultimately show ?thesis
        using u(1-3) Nil xs by (simp add: mpsc_lock_free_queue_peek_def get_dequeue_head_def exchange_enqueue_head_def wp_simps)
    qed
  qed
qed

interpretation mpsc: fifo_queue "mpsc_holds q" mpsc_item_ok room "mpsc_lock_free_queue_enqueue (Suc n) q"
    "mpsc_lock_free_queue_dequeue room q" "mpsc_lock_free_queue_peek room q"
  for q room n
  by unfold_locales (auto intro: mpsc_enqueue_holds mpsc_dequeue_holds mpsc_peek_holds)

text \<open>The empty queue that \<open>create\<close> makes.\<close>

lemma wp_mpsc_create:
  "wp mpsc_lock_free_queue_create (\<lambda>q s'. q = null \<and> live s' = live s \<and> mpsc_queue s' = mpsc_queue s \<or>
     q \<notin> live s \<and> live s' = insert q (live s) \<and> mpsc_holds q s' [] \<and>
     mpsc_queue s' = (mpsc_queue s)(q \<mapsto> \<lparr>dequeue_head = null, enqueue_head = null\<rparr>)) s"
  by (cases s rule: malloc_step_cases)
    (auto simp: mpsc_lock_free_queue_create_def mpsc_access_defs wp_simps mpsc_holds_def)

section \<open>Properties\<close>

text \<open>
  C37: one thread that enqueues any list of distinct items into an empty queue and then dequeues
  that many times gets every item, in the order in which it was enqueued; each enqueue succeeds
  at its first attempt, each dequeue ends, and the queue is empty again.
\<close>

theorem mpsc_send_receive:
  assumes "mpsc_holds q s []" and "distinct xs" and "\<forall>x \<in> set xs. mpsc_item_ok s x" and "length xs < n"
  shows "wp (call (send_all (mpsc_lock_free_queue_enqueue (Suc k) q) xs)
      (\<lambda>_. receive_n (mpsc_lock_free_queue_dequeue n q) (length xs)))
    (\<lambda>rs s'. rs = xs \<and> mpsc_holds q s' []) s"
  by (rule mpsc.send_receive [OF assms])

text \<open>
  C38: \<open>peek\<close> returns the oldest item without removing it (NULL when there is none): a following
  \<open>dequeue\<close> returns the same item and leaves the rest.
\<close>

theorem mpsc_peek_dequeue:
  assumes "mpsc_holds q s xs" and "length xs < n"
  shows "wp (call (mpsc_lock_free_queue_peek n q) (\<lambda>a. call (mpsc_lock_free_queue_dequeue n q) (\<lambda>b. Done (a, b))))
    (\<lambda>r s'. r = (case xs of [] \<Rightarrow> (null, null) | x # _ \<Rightarrow> (x, x)) \<and> mpsc_holds q s' (tl xs)) s"
  by (rule mpsc.peek_then_deq [OF assms])

text \<open>
  \<open>is_empty\<close> changes nothing and stores whether the queue holds no item, whether the items sit
  in the dequeue list, in the enqueue list or in both.
\<close>

theorem mpsc_is_empty_correct:
  assumes "mpsc_holds q s xs" and "e \<noteq> null"
  shows "wp (mpsc_lock_free_queue_is_empty q e) (\<lambda>r s'. r = (Result_0, Some (xs = [])) \<and> s' = s) s"
proof -
  obtain u ds es where u: "q \<noteq> null" "mpsc_queue s q = Some u"
    "heap_chain (mpsc_item s) (dequeue_head u) ds" "heap_chain (mpsc_item s) (enqueue_head u) es" "xs = ds @ rev es"
    using assms(1) by (auto simp: mpsc_holds_def)
  have "ds = [] \<longleftrightarrow> dequeue_head u = null" "es = [] \<longleftrightarrow> enqueue_head u = null"
    using u(3,4) by (cases ds; cases es; auto)+
  with u(1,2,5) assms(2) show ?thesis
    by (simp add: mpsc_lock_free_queue_is_empty_def mpsc_access_defs wp_simps)
qed

text \<open>
  A queue that is created and destroyed leaves the allocated memory as it was, and the queue
  in between is empty; when memory is short, \<open>create\<close> returns NULL, which \<open>destroy\<close> accepts.
\<close>

theorem mpsc_create_destroy:
  "wp (call mpsc_lock_free_queue_create (\<lambda>q. call (mpsc_lock_free_queue_is_empty q 8) (\<lambda>e.
       call (mpsc_lock_free_queue_destroy q) (\<lambda>_. Done (q, e)))))
    (\<lambda>(q, e) s'. live s' = live s \<and> e = (if q = null then (MU_FAILURE, None) else (Result_0, Some True))) s"
proof (rule wp_seq [OF wp_mpsc_create])
  fix q s1
  assume "q = null \<and> live s1 = live s \<and> mpsc_queue s1 = mpsc_queue s \<or>
    q \<notin> live s \<and> live s1 = insert q (live s) \<and> mpsc_holds q s1 [] \<and>
     mpsc_queue s1 = (mpsc_queue s)(q \<mapsto> \<lparr>dequeue_head = null, enqueue_head = null\<rparr>)"
  then show "wp (call (mpsc_lock_free_queue_is_empty q 8) (\<lambda>e. call (mpsc_lock_free_queue_destroy q) (\<lambda>_. Done (q, e))))
    (\<lambda>(q, e) s'. live s' = live s \<and> e = (if q = null then (MU_FAILURE, None) else (Result_0, Some True))) s1"
    by (auto simp: mpsc_lock_free_queue_is_empty_def mpsc_lock_free_queue_destroy_def mpsc_access_defs
        free_step_def wp_simps mpsc_holds_def)
qed

text \<open>A queue at 16 whose dequeue list is 32 and whose enqueue list is 48, with the item 64 outside.\<close>

definition mpsc_queue_example :: "ptr \<Rightarrow> ptr \<Rightarrow> mpsc_mem" where
  "mpsc_queue_example d e = \<lparr>live = {16}, answers = [],
     mpsc_queue = [16 \<mapsto> \<lparr>dequeue_head = d, enqueue_head = e\<rparr>],
     mpsc_item = [32 \<mapsto> null, 48 \<mapsto> null, 64 \<mapsto> junk], enqueued = []\<rparr>"

lemma mpsc_queue_example_holds:
  "mpsc_holds 16 (mpsc_queue_example null null) []"
  "mpsc_holds 16 (mpsc_queue_example 32 48) [32, 48]"
proof -
  show "mpsc_holds 16 (mpsc_queue_example null null) []"
    by (simp add: mpsc_holds_def mpsc_queue_example_def)
  show "mpsc_holds 16 (mpsc_queue_example 32 48) [32, 48]"
    by (rule mpsc_holdsI [where u = "\<lparr>dequeue_head = 32, enqueue_head = 48\<rparr>" and ds = "[32]" and es = "[48]"])
      (simp_all add: mpsc_queue_example_def)
qed

theorem mpsc_send_receive_witness:
  "wp (call (send_all (mpsc_lock_free_queue_enqueue (Suc 0) 16) [64, 32])
      (\<lambda>_. receive_n (mpsc_lock_free_queue_dequeue 3 16) (length [64, 32 :: ptr])))
    (\<lambda>rs s'. rs = [64, 32] \<and> mpsc_holds 16 s' []) (mpsc_queue_example null null)"
  by (rule mpsc_send_receive [OF mpsc_queue_example_holds(1)])
    (simp_all add: mpsc_item_ok_def mpsc_queue_example_def)

theorem mpsc_peek_dequeue_witness:
  "wp (call (mpsc_lock_free_queue_peek 3 16) (\<lambda>a. call (mpsc_lock_free_queue_dequeue 3 16) (\<lambda>b. Done (a, b))))
    (\<lambda>r s'. r = (32, 32) \<and> mpsc_holds 16 s' [48]) (mpsc_queue_example 32 48)"
  using mpsc_peek_dequeue [OF mpsc_queue_example_holds(2), of 3] by simp

theorem mpsc_is_empty_correct_witness:
  "wp (mpsc_lock_free_queue_is_empty 16 8) (\<lambda>r s'. r = (Result_0, Some False) \<and> s' = mpsc_queue_example 32 48)
    (mpsc_queue_example 32 48)"
  using mpsc_is_empty_correct [OF mpsc_queue_example_holds(2), of 8] by simp

end
