(* ===== verification/Mpsc_Concurrent.thy ===== *)
theory Mpsc_Concurrent
  imports Mpsc_Lock_Free_Queue
begin

text \<open>
  The queue under any interleaving of any number of producers with one consumer. Thread 0 receives,
  every other thread sends its own list of items. The history \<open>enqueued\<close> orders all items by the
  compare-exchange that linked them.

  What a producer does to the shared state (\<open>producer_guar\<close>): it writes the link of an item of its
  own that is not linked yet, or links such an item. What the consumer does (\<open>consumer_guar\<close>): it
  writes links of linked items only, and never the history. \<open>consumer_inv pre mid ds\<close> is the
  consumer's view: \<open>pre\<close> are the items received so far, \<open>mid\<close> those detached and being reversed,
  \<open>ds\<close> the dequeue list; together with the reversed enqueue list they are the whole history.
\<close>

definition producer_guar :: "ptr \<Rightarrow> ptr set \<Rightarrow> mpsc_mem \<Rightarrow> mpsc_mem \<Rightarrow> bool" where
  "producer_guar q X s s' \<longleftrightarrow> s' = s \<or>
     (\<exists>x \<in> X. x \<noteq> null \<and> x \<notin> set (enqueued s) \<and>
       ((\<forall>y. y \<noteq> x \<longrightarrow> mpsc_item s' y = mpsc_item s y) \<and> mpsc_queue s' = mpsc_queue s \<and>
          enqueued s' = enqueued s \<or>
        (\<exists>u. mpsc_queue s q = Some u \<and> mpsc_item s x = Some (enqueue_head u) \<and>
          mpsc_item s' = mpsc_item s \<and> mpsc_queue s' = (mpsc_queue s)(q \<mapsto> u\<lparr>enqueue_head := x\<rparr>) \<and>
          enqueued s' = enqueued s @ [x])))"

definition consumer_inv :: "ptr \<Rightarrow> ptr list \<Rightarrow> ptr list \<Rightarrow> ptr list \<Rightarrow> mpsc_mem \<Rightarrow> bool" where
  "consumer_inv q pre mid ds s \<longleftrightarrow>
     (\<exists>u es. mpsc_queue s q = Some u \<and> heap_chain (mpsc_item s) (dequeue_head u) ds \<and>
        heap_chain (mpsc_item s) (enqueue_head u) es \<and>
        enqueued s = pre @ mid @ ds @ rev es \<and> distinct (enqueued s))"

text \<open>The shape of the queue at any moment: \<open>past\<close> are the items received or being reversed.\<close>

definition queue_shape :: "ptr \<Rightarrow> mpsc_mem \<Rightarrow> bool" where
  "queue_shape q s \<longleftrightarrow> (\<exists>past ds. consumer_inv q past [] ds s)"

lemma consumer_inv_shape: "consumer_inv q pre mid ds s \<Longrightarrow> queue_shape q s"
  unfolding queue_shape_def by (intro exI [of _ "pre @ mid"] exI [of _ ds]) (simp add: consumer_inv_def)

definition consumer_guar :: "ptr \<Rightarrow> mpsc_mem \<Rightarrow> mpsc_mem \<Rightarrow> bool" where
  "consumer_guar q s s' \<longleftrightarrow>
     enqueued s' = enqueued s \<and> (\<forall>y. y \<notin> set (enqueued s) \<longrightarrow> mpsc_item s' y = mpsc_item s y) \<and>
     (mpsc_queue s q \<noteq> None \<longrightarrow> mpsc_queue s' q \<noteq> None) \<and> (queue_shape q s \<longrightarrow> queue_shape q s')"

definition producer_rely :: "ptr \<Rightarrow> ptr set \<Rightarrow> mpsc_mem \<Rightarrow> mpsc_mem \<Rightarrow> bool" where
  "producer_rely q X s s' \<longleftrightarrow>
     (\<forall>y \<in> X. y \<notin> set (enqueued s) \<longrightarrow> y \<notin> set (enqueued s') \<and> mpsc_item s' y = mpsc_item s y) \<and>
     filter (\<lambda>y. y \<in> X) (enqueued s') = filter (\<lambda>y. y \<in> X) (enqueued s) \<and>
     (mpsc_queue s q \<noteq> None \<longrightarrow> mpsc_queue s' q \<noteq> None)"

abbreviation consumer_rely :: "ptr \<Rightarrow> mpsc_mem \<Rightarrow> mpsc_mem \<Rightarrow> bool" where
  "consumer_rely q \<equiv> producer_guar q UNIV"

lemma producer_guar_refl [simp]: "producer_guar q X s s"
  and consumer_guar_refl [simp]: "consumer_guar q s s"
  by (simp_all add: producer_guar_def consumer_guar_def)

lemma producer_guar_mono: "producer_guar q X s s' \<Longrightarrow> X \<subseteq> Y \<Longrightarrow> producer_guar q Y s s'"
  by (auto simp: producer_guar_def)

lemma producer_guar_rely: "producer_guar q X s s' \<Longrightarrow> X \<inter> Y = {} \<Longrightarrow> producer_rely q Y s s'"
  by (auto simp: producer_guar_def producer_rely_def disjoint_iff) metis

lemma consumer_guar_rely: "consumer_guar q s s' \<Longrightarrow> producer_rely q X s s'"
  by (auto simp: consumer_guar_def producer_rely_def)

section \<open>A producer\<close>

text \<open>\<open>producer_inv q X done xs s\<close>: of the items \<open>X\<close>, \<open>done\<close> are linked, in this order, and \<open>xs\<close> are to come.\<close>

definition producer_inv :: "ptr \<Rightarrow> ptr set \<Rightarrow> ptr list \<Rightarrow> ptr list \<Rightarrow> mpsc_mem \<Rightarrow> bool" where
  "producer_inv q X sent xs s \<longleftrightarrow>
     mpsc_queue s q \<noteq> None \<and> set xs \<subseteq> X \<and> null \<notin> set xs \<and> distinct xs \<and>
     (\<forall>x \<in> set xs. x \<notin> set (enqueued s) \<and> mpsc_item s x \<noteq> None) \<and>
     filter (\<lambda>y. y \<in> X) (enqueued s) = sent"

lemma stable_producer_inv: "stable (producer_rely q X) (producer_inv q X sent xs)"
  by (rule stableI) (auto simp: producer_inv_def producer_rely_def subset_iff)

lemma stable_producer_linked:
  "x \<in> X \<Longrightarrow> stable (producer_rely q X) (\<lambda>s. producer_inv q X sent (x # xs) s \<and> mpsc_item s x = Some h)"
  by (rule stableI) (auto simp: producer_inv_def producer_rely_def subset_iff)

lemma rg_enqueue_loop:
  assumes "producer_inv q X sent (x # xs) s"
  shows "rg (producer_rely q X) (producer_guar q X)
    (\<lambda>r s. r = Result_0 \<and> producer_inv q X (sent @ [x]) xs s) (mpsc_enqueue_loop n q x) s"
  using assms
proof (induction n arbitrary: s)
  case 0
  then show ?case by simp
next
  case (Suc n)
  have x: "x \<in> X" "x \<noteq> null" using Suc.prems by (auto simp: producer_inv_def)
  let ?inv = "producer_inv q X sent (x # xs)"
  let ?Q = "\<lambda>r s. r = Result_0 \<and> producer_inv q X (sent @ [x]) xs s"
  have fin: "rg (producer_rely q X) (producer_guar q X) ?Q (Done Result_0) s'"
    if "producer_inv q X (sent @ [x]) xs s'" for s'
    by (rule rg_Done [OF that stable_producer_inv]) simp
  show ?case
    unfolding mpsc_enqueue_loop.simps get_enqueue_head_def
  proof (rule rg_read [OF Suc.prems stable_producer_inv], simp, goal_cases)
    case (1 s1)
    then obtain u where u: "mpsc_queue s1 q = Some u" by (auto simp: producer_inv_def)
    have "rg (producer_rely q X) (producer_guar q X) ?Q
        (call (set_item_next x h) (\<lambda>_. call (cas_enqueue_head q x h) (\<lambda>old.
           if old = h then Done Result_0 else mpsc_enqueue_loop n q x))) s1" for h
      unfolding set_item_next_def
    proof (rule rg_write [OF 1 stable_producer_inv], goal_cases)
      case (1 s2)
      let ?s2 = "s2\<lparr>mpsc_item := (mpsc_item s2)(x \<mapsto> h)\<rparr>"
      have inv2: "?inv ?s2 \<and> mpsc_item ?s2 x = Some h"
        using 1 by (auto simp: producer_inv_def)
      have "producer_guar q X s2 ?s2"
        using 1 x by (auto simp: producer_guar_def producer_inv_def)
      moreover have "rg (producer_rely q X) (producer_guar q X) ?Q
          (call (cas_enqueue_head q x h) (\<lambda>old. if old = h then Done Result_0 else mpsc_enqueue_loop n q x)) ?s2"
        unfolding cas_enqueue_head_def
      proof (rule rg_access [OF inv2 stable_producer_linked [OF x(1)]], goal_cases)
        case (1 s3)
        then obtain v where v: "mpsc_queue s3 q = Some v" by (auto simp: producer_inv_def)
        show ?case
        proof (cases "enqueue_head v = h")
          case True
          let ?s4 = "s3\<lparr>mpsc_queue := (mpsc_queue s3)(q \<mapsto> v\<lparr>enqueue_head := x\<rparr>), enqueued := enqueued s3 @ [x]\<rparr>"
          have "producer_guar q X s3 ?s4"
            using 1 x v True by (auto simp: producer_guar_def producer_inv_def)
          moreover have "producer_inv q X (sent @ [x]) xs ?s4"
            using 1 x by (auto simp: producer_inv_def)
          ultimately show ?thesis using v True by (simp add: fin del: rg.simps)
        next
          case False
          with v 1 show ?thesis by (simp add: Suc.IH)
        qed
      qed
      ultimately show ?case using 1 by (auto simp: producer_inv_def)
    qed
    with u show ?case by simp
  qed
qed

lemma rg_send_all:
  assumes "q \<noteq> null" and "producer_inv q X sent xs s"
  shows "rg (producer_rely q X) (producer_guar q X)
    (\<lambda>rs s. rs = map (\<lambda>_. Result_0) xs \<and> producer_inv q X (sent @ xs) [] s)
    (send_all (mpsc_lock_free_queue_enqueue n q) xs) s"
  using assms(2)
proof (induction xs arbitrary: sent s)
  case Nil
  show ?case
    unfolding send_all.simps
    by (rule rg_Done [OF Nil stable_producer_inv]) simp
next
  case (Cons x xs)
  have "x \<noteq> null" using Cons.prems by (auto simp: producer_inv_def)
  then have enq: "mpsc_lock_free_queue_enqueue n q x = mpsc_enqueue_loop n q x"
    using assms(1) by (simp add: mpsc_lock_free_queue_enqueue_def)
  show ?case
    unfolding send_all.simps enq
  proof (rule rg_call, rule rg_mono [OF rg_enqueue_loop [OF Cons.prems]], rule rg_call, goal_cases)
    case (1 r s')
    then have "producer_inv q X (sent @ [x]) xs s'" by simp
    from Cons.IH [OF this] show ?case
    proof (rule rg_mono, goal_cases)
      case (1 rs s'')
      then have "producer_inv q X (sent @ x # xs) [] s''" by simp
      then show ?case
        by (rule rg_Done [OF _ stable_producer_inv]) (use 1 \<open>r = Result_0 \<and> _\<close> in simp)
    qed
  qed
qed

section \<open>The consumer\<close>

text \<open>What is linked keeps its link, whatever the producers do.\<close>

lemma linked_stable:
  "producer_guar q UNIV s s' \<Longrightarrow> x \<in> set (enqueued s) \<Longrightarrow> mpsc_item s' x = mpsc_item s x \<and> x \<in> set (enqueued s')"
  by (auto simp: producer_guar_def) metis

lemma linked_chain_stable:
  assumes "producer_guar q UNIV s s'" and "set xs \<subseteq> set (enqueued s)"
  shows "heap_chain (mpsc_item s') p xs = heap_chain (mpsc_item s) p xs" and "set xs \<subseteq> set (enqueued s')"
proof -
  have "mpsc_item s' x = mpsc_item s x \<and> x \<in> set (enqueued s')" if "x \<in> set xs" for x
    using linked_stable [OF assms(1)] assms(2) that by blast
  then show "heap_chain (mpsc_item s') p xs = heap_chain (mpsc_item s) p xs" "set xs \<subseteq> set (enqueued s')"
    using heap_chain_cong [of xs "mpsc_item s'" "mpsc_item s"] by auto
qed

lemma stable_consumer_inv: "stable (consumer_rely q) (consumer_inv q pre mid ds)"
proof (rule stableI)
  fix s s' assume inv: "consumer_inv q pre mid ds s" and env: "consumer_rely q s s'"
  from inv obtain u es where u: "mpsc_queue s q = Some u" "heap_chain (mpsc_item s) (dequeue_head u) ds"
    "heap_chain (mpsc_item s) (enqueue_head u) es" "enqueued s = pre @ mid @ ds @ rev es" "distinct (enqueued s)"
    by (auto simp: consumer_inv_def)
  have chains: "heap_chain (mpsc_item s') p ds = heap_chain (mpsc_item s) p ds"
    "heap_chain (mpsc_item s') p es = heap_chain (mpsc_item s) p es" for p
    using linked_chain_stable(1) [OF env] u(4) by auto
  consider "s' = s" | x where "x \<notin> set (enqueued s)" "mpsc_queue s' = mpsc_queue s" "enqueued s' = enqueued s"
    | x v where "x \<noteq> null" "x \<notin> set (enqueued s)" "mpsc_queue s q = Some v" "mpsc_item s x = Some (enqueue_head v)"
      "mpsc_item s' = mpsc_item s" "mpsc_queue s' = (mpsc_queue s)(q \<mapsto> v\<lparr>enqueue_head := x\<rparr>)"
      "enqueued s' = enqueued s @ [x]"
    using env by (auto simp: producer_guar_def)
  then show "consumer_inv q pre mid ds s'"
  proof cases
    case 1
    with inv show ?thesis by simp
  next
    case 2
    with u chains show ?thesis by (auto simp: consumer_inv_def)
  next
    case (3 x v)
    with u chains show ?thesis
      unfolding consumer_inv_def
      by (intro exI [of _ "v\<lparr>enqueue_head := x\<rparr>"] exI [of _ "x # es"]) auto
  qed
qed

lemma producer_shape: "producer_guar q X s s' \<Longrightarrow> queue_shape q s \<Longrightarrow> queue_shape q s'"
  using stable_consumer_inv producer_guar_mono [of q X s s' UNIV] unfolding queue_shape_def stable_def by blast

text \<open>The consumer's view together with a chain of linked items that it owns.\<close>

definition consumer_owns :: "ptr \<Rightarrow> ptr list \<Rightarrow> ptr list \<Rightarrow> ptr list \<Rightarrow> ptr \<Rightarrow> ptr list \<Rightarrow> ptr \<Rightarrow> ptr list \<Rightarrow> mpsc_mem \<Rightarrow> bool" where
  "consumer_owns q pre mid ds p xs r ys s \<longleftrightarrow> consumer_inv q pre mid ds s \<and>
     heap_chain (mpsc_item s) p xs \<and> heap_chain (mpsc_item s) r ys \<and>
     set xs \<union> set ys \<subseteq> set (enqueued s) \<and> dequeue_head (the (mpsc_queue s q)) = (case ds of [] \<Rightarrow> null | d # _ \<Rightarrow> d)"

lemma stable_consumer_owns: "stable (consumer_rely q) (consumer_owns q pre mid ds p xs r ys)"
proof (rule stableI)
  fix s s' assume owns: "consumer_owns q pre mid ds p xs r ys s" and env: "consumer_rely q s s'"
  have inv: "consumer_inv q pre mid ds s'"
    using owns env stable_consumer_inv unfolding consumer_owns_def stable_def by blast
  then have "dequeue_head (the (mpsc_queue s' q)) = (case ds of [] \<Rightarrow> null | d # _ \<Rightarrow> d)"
    by (auto simp: consumer_inv_def dest: heap_chain_first)
  with inv owns linked_chain_stable [OF env, of xs] linked_chain_stable [OF env, of ys]
  show "consumer_owns q pre mid ds p xs r ys s'"
    by (simp add: consumer_owns_def)
qed

lemma stable_owned_link:
  assumes "x \<in> set xs \<union> set ys"
  shows "stable (consumer_rely q) (\<lambda>s. consumer_owns q pre mid ds p xs r ys s \<and> mpsc_item s x = Some nx)"
proof (rule stableI)
  fix s s' assume s: "consumer_owns q pre mid ds p xs r ys s \<and> mpsc_item s x = Some nx"
    and env: "consumer_rely q s s'"
  then have "consumer_owns q pre mid ds p xs r ys s'"
    using stable_consumer_owns unfolding stable_def by blast
  moreover have "mpsc_item s' x = Some nx"
    using linked_stable [OF env, of x] s assms by (auto simp: consumer_owns_def)
  ultimately show "consumer_owns q pre mid ds p xs r ys s' \<and> mpsc_item s' x = Some nx" by simp
qed

lemma rg_mpsc_reverse:
  assumes "consumer_owns q pre (rev xs @ ys) [] p xs r ys s"
  shows "rg (consumer_rely q) (consumer_guar q)
    (\<lambda>h. consumer_owns q pre (rev xs @ ys) [] null [] h (rev xs @ ys)) (mpsc_reverse n p r) s"
  using assms
proof (induction n arbitrary: xs ys p r s)
  case 0
  then show ?case by simp
next
  case (Suc n)
  let ?Q = "\<lambda>h. consumer_owns q pre (rev xs @ ys) [] null [] h (rev xs @ ys)"
  show ?case
  proof (cases xs)
    case Nil
    with Suc.prems have "p = null" by (simp add: consumer_owns_def)
    with Nil Suc.prems show ?thesis
      by (auto simp del: rg.simps intro: rg_Done [OF _ stable_consumer_owns])
  next
    case (Cons x xs')
    with Suc.prems have x: "p = x" "x \<noteq> null" by (auto simp: consumer_owns_def)
    let ?owns = "consumer_owns q pre (rev xs @ ys) [] p xs r ys"
    have "rg (consumer_rely q) (consumer_guar q) ?Q
        (call (get_item_next x) (\<lambda>next_item. call (set_item_next x r) (\<lambda>_. mpsc_reverse n next_item x))) s"
      unfolding get_item_next_def
    proof (rule rg_read [OF Suc.prems stable_consumer_owns], simp, goal_cases)
      case (1 s1)
      then obtain nx where nx: "mpsc_item s1 x = Some nx" "heap_chain (mpsc_item s1) nx xs'" "x \<in> set (enqueued s1)"
        using Cons x by (auto simp: consumer_owns_def)
      have own: "consumer_owns q pre (rev xs @ ys) [] p xs r ys s1 \<and> mpsc_item s1 x = Some nx"
        using 1 nx by simp
      have stable: "stable (consumer_rely q) (\<lambda>s. ?owns s \<and> mpsc_item s x = Some nx)"
        by (rule stable_owned_link) (use Cons in simp)
      have "rg (consumer_rely q) (consumer_guar q) ?Q (call (set_item_next x r) (\<lambda>_. mpsc_reverse n nx x)) s1"
        unfolding set_item_next_def
      proof (rule rg_write [OF own stable], goal_cases)
        case (1 s2)
        let ?s3 = "s2\<lparr>mpsc_item := (mpsc_item s2)(x \<mapsto> r)\<rparr>"
        have own2: "?owns s2" and nx2: "mpsc_item s2 x = Some nx" using 1 by simp_all
        from own2 obtain u es where u: "mpsc_queue s2 q = Some u" "dequeue_head u = null"
          "heap_chain (mpsc_item s2) (enqueue_head u) es" "enqueued s2 = pre @ (rev xs @ ys) @ rev es"
          "distinct (enqueued s2)" "heap_chain (mpsc_item s2) p xs" "heap_chain (mpsc_item s2) r ys"
          by (auto simp: consumer_owns_def consumer_inv_def)
        have fresh: "x \<notin> set es" "x \<notin> set ys" "x \<notin> set xs'" using u(4,5) Cons by auto
        have "heap_chain (mpsc_item s2) nx xs'" using u(6) Cons nx2 by auto
        then have owns3: "consumer_owns q pre (rev xs' @ x # ys) [] nx xs' x (x # ys) ?s3"
          using u fresh x Cons by (auto simp: consumer_owns_def consumer_inv_def)
        from Suc.IH [OF this] Cons
        have "rg (consumer_rely q) (consumer_guar q) ?Q (mpsc_reverse n nx x) ?s3" by simp
        moreover have "consumer_guar q s2 ?s3"
          using own2 Cons owns3 consumer_inv_shape [of q _ _ _ ?s3] by (auto simp: consumer_guar_def consumer_owns_def)
        ultimately show ?case using nx2 by simp
      qed
      with nx show ?case by simp
    qed
    with x show ?thesis by simp
  qed
qed

text \<open>Taking the first of the items the consumer owns, which ends both branches of a dequeue.\<close>

abbreviation received :: "ptr \<Rightarrow> ptr list \<Rightarrow> ptr \<Rightarrow> mpsc_mem \<Rightarrow> bool" where
  "received q pre r s \<equiv> \<exists>ds. consumer_inv q (if r = null then pre else pre @ [r]) [] ds s"

lemma rg_received:
  "consumer_inv q (if r = null then pre else pre @ [r]) [] ds s \<Longrightarrow>
   rg (consumer_rely q) (consumer_guar q) (received q pre) (Done r) s"
  by (rule rg_Done [OF _ stable_consumer_inv]) (assumption, blast)

lemma rg_pop:
  assumes "consumer_owns q pre mid ds null [] h (h # rest) s"
    and "mid = [] \<and> ds = h # rest \<or> mid = h # rest \<and> ds = []"
  shows "rg (consumer_rely q) (consumer_guar q) (received q pre)
    (call (get_item_next h) (\<lambda>next. call (set_dequeue_head q next) (\<lambda>_. Done h))) s"
  unfolding get_item_next_def
proof (rule rg_read [OF assms(1) stable_consumer_owns], simp, goal_cases)
  case (1 s1)
  then obtain nx where nx: "mpsc_item s1 h = Some nx" by (auto simp: consumer_owns_def)
  let ?P = "\<lambda>s. consumer_owns q pre mid ds null [] h (h # rest) s \<and> mpsc_item s h = Some nx"
  have "rg (consumer_rely q) (consumer_guar q) (received q pre)
      (call (set_dequeue_head q nx) (\<lambda>_. Done h)) s1"
    unfolding set_dequeue_head_def
  proof (rule rg_write [of ?P], goal_cases)
    case (3 s2)
    then obtain u es where u: "mpsc_queue s2 q = Some u" "heap_chain (mpsc_item s2) (enqueue_head u) es"
      "enqueued s2 = pre @ mid @ ds @ rev es" "distinct (enqueued s2)" "h \<noteq> null"
      "heap_chain (mpsc_item s2) nx rest"
      by (auto simp: consumer_owns_def consumer_inv_def)
    let ?s3 = "s2\<lparr>mpsc_queue := (mpsc_queue s2)(q \<mapsto> u\<lparr>dequeue_head := nx\<rparr>)\<rparr>"
    have inv3: "consumer_inv q (pre @ [h]) [] rest ?s3"
      using u assms(2) by (auto simp: consumer_inv_def)
    then have "rg (consumer_rely q) (consumer_guar q) (received q pre) (Done h) ?s3"
      by (intro rg_received [where ds = rest]) (use u in simp)
    with u consumer_inv_shape [OF inv3] show ?case by (simp add: consumer_guar_def)
  qed (use 1 nx in \<open>auto intro: stable_owned_link\<close>)
  with nx show ?case by simp
qed

lemma rg_dequeue:
  assumes "q \<noteq> null" and "consumer_inv q pre [] ds s"
  shows "rg (consumer_rely q) (consumer_guar q) (received q pre) (mpsc_lock_free_queue_dequeue n q) s"
  unfolding mpsc_lock_free_queue_dequeue_def if_not_P [OF assms(1)] get_dequeue_head_def
proof (rule rg_read [OF assms(2) stable_consumer_inv], simp, goal_cases)
  case (1 s1)
  then obtain u where u: "mpsc_queue s1 q = Some u" "heap_chain (mpsc_item s1) (dequeue_head u) ds"
    by (auto simp: consumer_inv_def)
  have "set ds \<subseteq> set (enqueued s1)" using 1 by (auto simp: consumer_inv_def)
  note u = u this
  show ?case
  proof (cases ds)
    case (Cons d ds')
    have "consumer_owns q pre [] ds null [] d (d # ds') s1"
      using 1 u Cons by (auto simp: consumer_owns_def)
    from rg_pop [OF this] Cons u show ?thesis by auto
  next
    case Nil
    have "rg (consumer_rely q) (consumer_guar q) (received q pre)
      (call (exchange_enqueue_head q null) (\<lambda>temporary_list.
          if temporary_list \<noteq> null then
            call (mpsc_reverse n temporary_list null) (\<lambda>new_dequeue_head.
            if new_dequeue_head \<noteq> null then
              call (get_item_next new_dequeue_head) (\<lambda>next.
              call (set_dequeue_head q next) (\<lambda>_.
              Done new_dequeue_head))
            else Done null)
          else Done null)) s1"
      unfolding exchange_enqueue_head_def
    proof (rule rg_access [OF 1 stable_consumer_inv], goal_cases)
      case (1 s2)
      then obtain v es where v: "mpsc_queue s2 q = Some v" "dequeue_head v = null"
        "heap_chain (mpsc_item s2) (enqueue_head v) es" "enqueued s2 = pre @ rev es" "distinct (enqueued s2)"
        using Nil by (auto simp: consumer_inv_def)
      let ?s3 = "s2\<lparr>mpsc_queue := (mpsc_queue s2)(q \<mapsto> v\<lparr>enqueue_head := null\<rparr>)\<rparr>"
      have owns: "consumer_owns q pre (rev es @ []) [] (enqueue_head v) es null [] ?s3"
        using v by (auto simp: consumer_owns_def consumer_inv_def)
      have "queue_shape q ?s3" using owns by (auto simp: consumer_owns_def intro: consumer_inv_shape)
      then have guar: "consumer_guar q s2 ?s3" using v by (simp add: consumer_guar_def)
      show ?case
      proof (cases "enqueue_head v = null")
        case True
        with v have "es = []" by (cases es) auto
        with owns have "consumer_inv q pre [] [] ?s3" by (simp add: consumer_owns_def)
        with rg_received [of q null pre "[]" ?s3] v True guar show ?thesis by simp
      next
        case False
        then have "es \<noteq> []" using v by auto
        then obtain h rest where es: "rev es = h # rest" by (cases "rev es") auto
        have "rg (consumer_rely q) (consumer_guar q) (received q pre)
            (call (mpsc_reverse n (enqueue_head v) null) (\<lambda>new_dequeue_head.
            if new_dequeue_head \<noteq> null then
              call (get_item_next new_dequeue_head) (\<lambda>next.
              call (set_dequeue_head q next) (\<lambda>_. Done new_dequeue_head))
            else Done null)) ?s3"
        proof (rule rg_call, rule rg_mono [OF rg_mpsc_reverse [OF owns]], goal_cases)
          case (1 r s4)
          then have "r = h" "h \<noteq> null" "consumer_owns q pre (h # rest) [] null [] h (h # rest) s4"
            using es by (auto simp: consumer_owns_def)
          with rg_pop [OF this(3)] show ?case by simp
        qed
        with v False guar show ?thesis by simp
      qed
    qed
    with Nil u show ?thesis by simp
  qed
qed

lemma rg_receive_n:
  assumes "q \<noteq> null" and "consumer_inv q pre [] ds s"
  shows "rg (consumer_rely q) (consumer_guar q)
    (\<lambda>rs s. \<exists>ds. consumer_inv q (pre @ filter (\<lambda>r. r \<noteq> null) rs) [] ds s)
    (receive_n (mpsc_lock_free_queue_dequeue n q) k) s"
  using assms(2)
proof (induction k arbitrary: pre ds s)
  case 0
  show ?case
    unfolding receive_n.simps by (rule rg_Done [OF 0 stable_consumer_inv]) auto
next
  case (Suc k)
  show ?case
    unfolding receive_n.simps
  proof (rule rg_call, rule rg_mono [OF rg_dequeue [OF assms(1) Suc.prems]], rule rg_call, goal_cases)
    case (1 r s1)
    then obtain ds1 where "consumer_inv q (if r = null then pre else pre @ [r]) [] ds1 s1" by blast
    from Suc.IH [OF this] show ?case
    proof (rule rg_mono, goal_cases)
      case (1 rs s2)
      then obtain ds2 where "consumer_inv q (pre @ filter (\<lambda>r. r \<noteq> null) (r # rs)) [] ds2 s2"
        by (auto split: if_splits)
      then show ?case by (rule rg_Done [OF _ stable_consumer_inv]) blast
    qed
  qed
qed

section \<open>The system\<close>

datatype mpsc_result = Received "ptr list" | Sent "int_result list"

definition consumer_thread :: "nat \<Rightarrow> ptr \<Rightarrow> nat \<Rightarrow> (mpsc_mem, mpsc_result) prog" where
  "consumer_thread n q k = call (receive_n (mpsc_lock_free_queue_dequeue n q) k) (\<lambda>rs. Done (Received rs))"

definition producer_thread :: "nat \<Rightarrow> ptr \<Rightarrow> ptr list \<Rightarrow> (mpsc_mem, mpsc_result) prog" where
  "producer_thread n q xs = call (send_all (mpsc_lock_free_queue_enqueue n q) xs) (\<lambda>rs. Done (Sent rs))"

definition mpsc_threads :: "nat \<Rightarrow> ptr \<Rightarrow> nat \<Rightarrow> ptr list list \<Rightarrow> (mpsc_mem, mpsc_result) prog list" where
  "mpsc_threads n q k xss = consumer_thread n q k # map (producer_thread n q) xss"

text \<open>A new queue, and items that exist, each in one producer's list and once.\<close>

definition mpsc_start :: "ptr \<Rightarrow> ptr list list \<Rightarrow> mpsc_mem \<Rightarrow> bool" where
  "mpsc_start q xss s \<longleftrightarrow> q \<noteq> null \<and>
     mpsc_queue s q = Some \<lparr>dequeue_head = null, enqueue_head = null\<rparr> \<and> enqueued s = [] \<and>
     distinct (concat xss) \<and> (\<forall>x \<in> set (concat xss). x \<noteq> null \<and> mpsc_item s x \<noteq> None)"

definition thread_items :: "ptr list list \<Rightarrow> nat \<Rightarrow> ptr set" where
  "thread_items xss i = (if 0 < i \<and> i \<le> length xss then set (xss ! (i - 1)) else {})"

definition thread_rely :: "ptr \<Rightarrow> ptr list list \<Rightarrow> nat \<Rightarrow> mpsc_mem \<Rightarrow> mpsc_mem \<Rightarrow> bool" where
  "thread_rely q xss i = (if i = 0 then consumer_rely q else producer_rely q (thread_items xss i))"

definition thread_guar :: "ptr \<Rightarrow> ptr list list \<Rightarrow> nat \<Rightarrow> mpsc_mem \<Rightarrow> mpsc_mem \<Rightarrow> bool" where
  "thread_guar q xss i = (if i = 0 then consumer_guar q else producer_guar q (thread_items xss i))"

definition thread_post :: "ptr \<Rightarrow> ptr list list \<Rightarrow> nat \<Rightarrow> mpsc_result \<Rightarrow> mpsc_mem \<Rightarrow> bool" where
  "thread_post q xss i r s =
     (if i = 0 then \<exists>rs ds. r = Received rs \<and> consumer_inv q (filter (\<lambda>r. r \<noteq> null) rs) [] ds s
      else r = Sent (map (\<lambda>_. Result_0) (xss ! (i - 1))) \<and>
           filter (\<lambda>y. y \<in> thread_items xss i) (enqueued s) = xss ! (i - 1))"

lemma distinct_concat_disjoint:
  assumes "distinct (concat xss)" and "i < length xss" and "j < length xss" and "i \<noteq> j"
  shows "set (xss ! i) \<inter> set (xss ! j) = {}"
  using assms
proof (induction xss arbitrary: i j)
  case Nil
  then show ?case by simp
next
  case (Cons x xss)
  have x: "set x \<inter> set (xss ! k) = {}" if "k < length xss" for k
    using Cons.prems(1) that by (auto simp: disjoint_iff)
  show ?case
  proof (cases i; cases j)
    fix i' j' assume "i = Suc i'" and "j = Suc j'"
    with Cons show ?thesis by simp
  qed (use Cons.prems x in auto)
qed

lemma thread_items_disjoint:
  "distinct (concat xss) \<Longrightarrow> i \<noteq> j \<Longrightarrow> thread_items xss i \<inter> thread_items xss j = {}"
  using distinct_concat_disjoint [of xss "i - 1" "j - 1"]
  by (cases i; cases j) (auto simp: thread_items_def)

lemma thread_compatible:
  "distinct (concat xss) \<Longrightarrow> i \<noteq> j \<Longrightarrow> thread_guar q xss i s s' \<Longrightarrow> thread_rely q xss j s s'"
  using thread_items_disjoint [of xss i j]
  by (auto simp: thread_guar_def thread_rely_def consumer_guar_rely producer_guar_rely
      intro: producer_guar_mono split: if_splits)

lemma thread_rg:
  assumes "mpsc_start q xss s" and "i < length (mpsc_threads n q k xss)"
  shows "rg (thread_rely q xss i) (thread_guar q xss i) (thread_post q xss i) (mpsc_threads n q k xss ! i) s"
proof (cases i)
  case 0
  have "consumer_inv q [] [] [] s" and q: "q \<noteq> null"
    using assms(1) by (auto simp: mpsc_start_def consumer_inv_def)
  from rg_receive_n [OF q this(1), of n k] show ?thesis
    unfolding mpsc_threads_def consumer_thread_def 0 nth_Cons_0 thread_rely_def thread_guar_def if_P [OF refl]
  proof (intro rg_call, elim rg_mono, goal_cases)
    case (1 rs s')
    then obtain ds where "consumer_inv q (filter (\<lambda>r. r \<noteq> null) rs) [] ds s'" by auto
    then show ?case
      by (rule rg_Done [OF _ stable_consumer_inv]) (auto simp: thread_post_def)
  qed
next
  case (Suc j)
  with assms(2) have j: "j < length xss" by (simp add: mpsc_threads_def)
  let ?X = "thread_items xss i"
  have X: "?X = set (xss ! j)" using Suc j by (simp add: thread_items_def)
  have q: "q \<noteq> null" using assms(1) by (simp add: mpsc_start_def)
  have "distinct (xss ! j)" using assms(1) j by (auto simp: mpsc_start_def distinct_concat_iff)
  then have "producer_inv q ?X [] (xss ! j) s"
    using assms(1) j X by (force simp: producer_inv_def mpsc_start_def)
  from rg_send_all [OF q this, of n]
  have "rg (producer_rely q ?X) (producer_guar q ?X) (thread_post q xss i) (producer_thread n q (xss ! j)) s"
    unfolding producer_thread_def
  proof (intro rg_call, elim rg_mono, goal_cases)
    case (1 rs s')
    then have inv: "producer_inv q ?X (xss ! j) [] s'" and rs: "rs = map (\<lambda>_. Result_0) (xss ! j)" by simp_all
    show ?case
      by (rule rg_Done [OF inv stable_producer_inv]) (simp add: thread_post_def producer_inv_def Suc rs)
  qed
  then show ?thesis using Suc j by (simp add: mpsc_threads_def thread_rely_def thread_guar_def)
qed

lemma mpsc_pool_sound:
  assumes "mpsc_start q xss s" and "pool_reach (s, mpsc_threads n q k xss) (s', ps)" and "i \<le> length xss"
  shows "ps ! i \<noteq> Fault" and "ps ! i = Done r \<Longrightarrow> thread_post q xss i r s'"
proof -
  have d: "distinct (concat xss)" using assms(1) by (simp add: mpsc_start_def)
  have i: "i < length (mpsc_threads n q k xss)" using assms(3) by (simp add: mpsc_threads_def)
  show "ps ! i \<noteq> Fault" and "ps ! i = Done r \<Longrightarrow> thread_post q xss i r s'"
    using pool_sound(2,3) [OF assms(2) thread_rg [OF assms(1)] thread_compatible [OF d] i] by auto
qed

lemma mpsc_pool_shape:
  assumes "mpsc_start q xss s" and "pool_reach (s, mpsc_threads n q k xss) (s', ps)"
  shows "queue_shape q s'"
proof (rule pool_invariant [OF assms(2) thread_rg [OF assms(1)] thread_compatible])
  show "distinct (concat xss)" using assms(1) by (simp add: mpsc_start_def)
  have "consumer_inv q [] [] [] s" using assms(1) by (auto simp: mpsc_start_def consumer_inv_def)
  then show "queue_shape q s" by (rule consumer_inv_shape)
  show "queue_shape q s2" if "queue_shape q s1" "thread_guar q xss i s1 s2" for i s1 s2
    using that producer_shape [of q "thread_items xss i" s1 s2] by (auto simp: thread_guar_def consumer_guar_def split: if_splits)
qed

section \<open>Properties\<close>

text \<open>
  C1: at every moment of every interleaving of any number of producers with one consumer no thread has
  touched memory that is not there, and the queue has its shape: from its two heads two chains lead to
  NULL, without a cycle and without a common item, and together they hold, in the order in which they
  were linked, the last part of all the items linked so far.
\<close>

theorem mpsc_queue_keeps_shape:
  assumes "mpsc_start q xss s" and "pool_reach (s, mpsc_threads n q k xss) (s', ps)" and "i \<le> length xss"
  shows "ps ! i \<noteq> Fault \<and> (\<exists>past rest. enqueued s' = past @ rest \<and> distinct (enqueued s') \<and> mpsc_holds q s' rest)"
proof
  show "ps ! i \<noteq> Fault" using assms by (rule mpsc_pool_sound)
  have "queue_shape q s'" by (rule mpsc_pool_shape [OF assms(1,2)])
  then obtain past ds u es where "mpsc_queue s' q = Some u" "heap_chain (mpsc_item s') (dequeue_head u) ds"
    "heap_chain (mpsc_item s') (enqueue_head u) es" "enqueued s' = past @ ds @ rev es" "distinct (enqueued s')"
    by (auto simp: queue_shape_def consumer_inv_def)
  then show "\<exists>past rest. enqueued s' = past @ rest \<and> distinct (enqueued s') \<and> mpsc_holds q s' rest"
    using assms(1) by (intro exI [of _ past] exI [of _ "ds @ rev es"]) (auto simp: mpsc_start_def intro: mpsc_holdsI)
qed

text \<open>
  C2: whatever the interleaving, a consumer that has finished has received, in the order in which
  they were linked, a first part of all the items linked so far, and the rest is in the queue, in
  that order: nothing is lost, duplicated, invented or overtaken.
\<close>

theorem mpsc_consumer_fifo:
  assumes "mpsc_start q xss s" and "pool_reach (s, mpsc_threads n q k xss) (s', ps)"
    and "ps ! 0 = Done (Received rs)"
  shows "\<exists>rest. enqueued s' = filter (\<lambda>r. r \<noteq> null) rs @ rest \<and> mpsc_holds q s' rest"
proof -
  have "thread_post q xss 0 (Received rs) s'"
    using mpsc_pool_sound(2) [OF assms(1,2), of 0] assms(3) by simp
  then obtain ds where ds: "consumer_inv q (filter (\<lambda>r. r \<noteq> null) rs) [] ds s'"
    by (auto simp: thread_post_def)
  then obtain u es where "mpsc_queue s' q = Some u" "heap_chain (mpsc_item s') (dequeue_head u) ds"
    "heap_chain (mpsc_item s') (enqueue_head u) es" "enqueued s' = filter (\<lambda>r. r \<noteq> null) rs @ ds @ rev es"
    "distinct (enqueued s')"
    by (auto simp: consumer_inv_def)
  then show ?thesis
    using assms(1) by (intro exI [of _ "ds @ rev es"]) (auto simp: mpsc_start_def intro: mpsc_holdsI)
qed

text \<open>
  C3: a producer that has finished has had every item accepted, and the queue's history shows its
  items once each and in the order in which it sent them.
\<close>

theorem mpsc_producer_order:
  assumes "mpsc_start q xss s" and "pool_reach (s, mpsc_threads n q k xss) (s', ps)"
    and "j < length xss" and "ps ! Suc j = Done (Sent rs)"
  shows "rs = map (\<lambda>_. Result_0) (xss ! j) \<and> filter (\<lambda>y. y \<in> set (xss ! j)) (enqueued s') = xss ! j"
  using mpsc_pool_sound(2) [OF assms(1,2), of "Suc j" "Sent rs"] assms(3,4)
  by (simp add: thread_post_def thread_items_def)

definition mpsc_example :: mpsc_mem where
  "mpsc_example = \<lparr>live = {16}, answers = [],
     mpsc_queue = [16 \<mapsto> \<lparr>dequeue_head = null, enqueue_head = null\<rparr>],
     mpsc_item = [32 \<mapsto> junk, 48 \<mapsto> junk, 64 \<mapsto> junk], enqueued = []\<rparr>"

lemma mpsc_example_start: "mpsc_start 16 [[32, 48], [64]] mpsc_example"
  by (simp add: mpsc_start_def mpsc_example_def)

text \<open>Two producers, of items 32 and 48 and of item 64, and a consumer that receives twice.\<close>

abbreviation mpsc_example_threads :: "(mpsc_mem, mpsc_result) prog list" where
  "mpsc_example_threads \<equiv> mpsc_threads 5 16 2 [[32, 48], [64]]"

text \<open>The first producer is overtaken between its read of the head and its compare-exchange.\<close>

definition mpsc_example_end :: "(mpsc_mem, mpsc_result) pool" where
  "mpsc_example_end = run_schedule ([1, 1, 2, 2, 2] @ replicate 12 1 @ replicate 20 0) (mpsc_example, mpsc_example_threads)"

lemma mpsc_example_reach:
  "pool_reach (mpsc_example, mpsc_example_threads) (fst mpsc_example_end, snd mpsc_example_end)"
  unfolding mpsc_example_end_def prod.collapse by (rule run_schedule_reach)

lemma mpsc_example_results:
  "snd mpsc_example_end ! 0 = Done (Received [64, 32])" (is "?p = _")
  "snd mpsc_example_end ! Suc 0 = Done (Sent [Result_0, Result_0])" (is "?q = _")
  "enqueued (fst mpsc_example_end) = [64, 32, 48]"
proof -
  have "case ?p of Done r \<Rightarrow> r = Received [64, 32] | _ \<Rightarrow> False" by code_simp
  then show "?p = Done (Received [64, 32])" by (simp split: prog.splits)
  have "case ?q of Done r \<Rightarrow> r = Sent [Result_0, Result_0] | _ \<Rightarrow> False" by code_simp
  then show "?q = Done (Sent [Result_0, Result_0])" by (simp split: prog.splits)
  show "enqueued (fst mpsc_example_end) = [64, 32, 48]" by code_simp
qed

theorem mpsc_queue_keeps_shape_witness:
  "snd mpsc_example_end ! 2 \<noteq> Fault \<and> (\<exists>past rest. enqueued (fst mpsc_example_end) = past @ rest \<and>
     distinct (enqueued (fst mpsc_example_end)) \<and> mpsc_holds 16 (fst mpsc_example_end) rest)"
  by (rule mpsc_queue_keeps_shape [OF mpsc_example_start mpsc_example_reach]) simp

theorem mpsc_consumer_fifo_witness:
  "[64, 32, 48] = [64, 32] @ [48 :: ptr] \<and> mpsc_holds 16 (fst mpsc_example_end) [48]"
  using mpsc_consumer_fifo [OF mpsc_example_start mpsc_example_reach mpsc_example_results(1)]
  by (auto simp: mpsc_example_results(3))

theorem mpsc_producer_order_witness:
  "filter (\<lambda>y. y \<in> {32, 48}) (enqueued (fst mpsc_example_end)) = [32, 48]"
  using mpsc_producer_order [OF mpsc_example_start mpsc_example_reach, of 0 "[Result_0, Result_0]"]
  by (simp add: mpsc_example_results(2) insert_commute)

end
