(* ===== verification/Write_Lock.thy ===== *)
theory Write_Lock
  imports Interleaving
begin

text \<open>
  The write lock that \<open>src/src/clds_sorted_list.c\<close> and \<open>src/src/clds_hash_table.c\<close> both contain, each
  on its own pair of counters: writers announce themselves in \<open>pending_write_operations\<close> and back
  off while \<open>locked_for_write\<close> is not zero; a locker raises \<open>locked_for_write\<close> and waits until no
  write operation is pending. The four functions are the same text in both files; here they are
  written once, over the accesses to the two counters.

  \<open>wake_by_address_all\<close> has no effect on memory and \<open>wait_on_address\<close> may return at any time (a
  spurious wake-up), so neither is a step: both loops simply try again.

  The second half puts writers and lockers in one pool and shows mutual exclusion between write
  operations and locked sections.
\<close>

record write_lock =
  locked_for_write :: "32 word"
  pending_write_operations :: "32 word"

text \<open>How a function reaches the two counters of the object it works on.\<close>

record 's lock_access =
  add_locked :: "32 word \<Rightarrow> 's \<Rightarrow> 's option"
  add_pending :: "32 word \<Rightarrow> 's \<Rightarrow> 's option"
  read_locked :: "'s \<Rightarrow> (32 word \<times> 's) option"
  read_pending :: "'s \<Rightarrow> (32 word \<times> 's) option"

section \<open>The functions\<close>

fun check_lock_and_begin_write_operation :: "nat \<Rightarrow> 's lock_access \<Rightarrow> ('s, unit) prog" where
  "check_lock_and_begin_write_operation 0 L = Spin"
| "check_lock_and_begin_write_operation (Suc n) L =
     call (writes (add_pending L 1)) (\<lambda>_.
     call (atomic (read_locked L)) (\<lambda>locked.
     if locked \<noteq> 0 then
       call (writes (add_pending L (- 1))) (\<lambda>_.
       check_lock_and_begin_write_operation n L)
     else Done ()))"

definition end_write_operation :: "'s lock_access \<Rightarrow> ('s, unit) prog" where
  "end_write_operation L = writes (add_pending L (- 1))"

text \<open>The wait for the pending writes, and the whole of \<open>internal_lock_writes\<close>.\<close>

fun wait_for_pending_writes :: "nat \<Rightarrow> 's lock_access \<Rightarrow> ('s, unit) prog" where
  "wait_for_pending_writes 0 L = Spin"
| "wait_for_pending_writes (Suc n) L =
     call (atomic (read_pending L)) (\<lambda>pending_writes.
     if pending_writes \<noteq> 0 then wait_for_pending_writes n L else Done ())"

definition internal_lock_writes :: "nat \<Rightarrow> 's lock_access \<Rightarrow> ('s, unit) prog" where
  "internal_lock_writes n L =
     call (writes (add_locked L 1)) (\<lambda>_. wait_for_pending_writes n L)"

definition internal_unlock_writes :: "'s lock_access \<Rightarrow> ('s, unit) prog" where
  "internal_unlock_writes L = writes (add_locked L (- 1))"

section \<open>Writers and lockers in one pool\<close>

text \<open>
  The shared state: the lock, the data it protects, and auxiliary flags per thread. A thread enters its
  section, \<open>writing\<close> or \<open>locking\<close>, when \<open>check_lock_and_begin_write_operation\<close> or \<open>internal_lock_writes\<close>
  has returned, whatever these functions have read, and leaves it before it ends the operation or
  unlocks; these two flags say where the thread is, and exclusion is stated of them.

  The other four flags are for the proof; the accesses of thread \<open>i\<close> keep them: whether its announcement
  is counted in \<open>pending_write_operations\<close>, whether its lock is counted in \<open>locked_for_write\<close>, whether it
  may write (it has announced itself and then read 0 from \<open>locked_for_write\<close>), and whether it holds the
  lock (it has raised \<open>locked_for_write\<close> and then read 0 from \<open>pending_write_operations\<close>).
\<close>

record 'd lock_sys =
  lock :: write_lock
  data :: 'd
  writing :: "nat set"
  locking :: "nat set"
  counted_pending :: "nat set"
  counted_locked :: "nat set"
  may_write :: "nat set"
  holds_lock :: "nat set"

definition thread_access :: "nat \<Rightarrow> 'd lock_sys lock_access" where
  "thread_access i = \<lparr>
     add_locked = (\<lambda>d s. Some (s\<lparr>lock := (lock s)\<lparr>locked_for_write := locked_for_write (lock s) + d\<rparr>,
        counted_locked := (if d = 1 then insert i (counted_locked s) else counted_locked s - {i}),
        holds_lock := holds_lock s - {i}\<rparr>)),
     add_pending = (\<lambda>d s. Some (s\<lparr>lock := (lock s)\<lparr>pending_write_operations := pending_write_operations (lock s) + d\<rparr>,
        counted_pending := (if d = 1 then insert i (counted_pending s) else counted_pending s - {i}),
        may_write := may_write s - {i}\<rparr>)),
     read_locked = (\<lambda>s. Some (locked_for_write (lock s),
        if locked_for_write (lock s) = 0 then s\<lparr>may_write := insert i (may_write s)\<rparr> else s)),
     read_pending = (\<lambda>s. Some (pending_write_operations (lock s),
        if pending_write_operations (lock s) = 0 then s\<lparr>holds_lock := insert i (holds_lock s)\<rparr> else s))\<rparr>"

text \<open>A writer performs its updates within a write operation; a locker looks at the data twice while it holds the lock.\<close>

primrec update_data :: "('d \<Rightarrow> 'd) list \<Rightarrow> ('d lock_sys, unit) prog" where
  "update_data [] = Done ()"
| "update_data (f # fs) = call (writes (\<lambda>s. Some (s\<lparr>data := f (data s)\<rparr>))) (\<lambda>_. update_data fs)"

definition enter :: "((nat set \<Rightarrow> nat set) \<Rightarrow> 'd lock_sys \<Rightarrow> 'd lock_sys) \<Rightarrow> nat \<Rightarrow> ('d lock_sys, unit) prog" where
  "enter section_update i = writes (\<lambda>s. Some (section_update (insert i) s))"

definition leave :: "((nat set \<Rightarrow> nat set) \<Rightarrow> 'd lock_sys \<Rightarrow> 'd lock_sys) \<Rightarrow> nat \<Rightarrow> ('d lock_sys, unit) prog" where
  "leave section_update i = writes (\<lambda>s. Some (section_update (\<lambda>A. A - {i}) s))"

datatype 'd lock_result = Written | Seen 'd 'd

definition writer_thread :: "nat \<Rightarrow> nat \<Rightarrow> ('d \<Rightarrow> 'd) list \<Rightarrow> ('d lock_sys, 'd lock_result) prog" where
  "writer_thread n i fs =
     call (check_lock_and_begin_write_operation n (thread_access i)) (\<lambda>_.
     call (enter writing_update i) (\<lambda>_.
     call (update_data fs) (\<lambda>_.
     call (leave writing_update i) (\<lambda>_.
     call (end_write_operation (thread_access i)) (\<lambda>_.
     Done Written)))))"

definition locker_thread :: "nat \<Rightarrow> nat \<Rightarrow> ('d lock_sys, 'd lock_result) prog" where
  "locker_thread n i =
     call (internal_lock_writes n (thread_access i)) (\<lambda>_.
     call (enter locking_update i) (\<lambda>_.
     call (reads (\<lambda>s. Some (data s))) (\<lambda>d1.
     call (reads (\<lambda>s. Some (data s))) (\<lambda>d2.
     call (leave locking_update i) (\<lambda>_.
     call (internal_unlock_writes (thread_access i)) (\<lambda>_.
     Done (Seen d1 d2)))))))"

section \<open>The invariant\<close>

text \<open>\<open>N\<close> bounds the threads; the counters hold at most \<open>N\<close>, so 32 bits do not wrap.\<close>

definition lock_inv :: "nat \<Rightarrow> 'd lock_sys \<Rightarrow> bool" where
  "lock_inv N s \<longleftrightarrow>
     counted_pending s \<subseteq> {..<N} \<and> counted_locked s \<subseteq> {..<N} \<and>
     pending_write_operations (lock s) = of_nat (card (counted_pending s)) \<and>
     locked_for_write (lock s) = of_nat (card (counted_locked s)) \<and>
     may_write s \<subseteq> counted_pending s \<and> holds_lock s \<subseteq> counted_locked s \<and>
     (may_write s = {} \<or> holds_lock s = {}) \<and>
     writing s \<subseteq> may_write s \<and> locking s \<subseteq> holds_lock s"

text \<open>A step of thread \<open>i\<close>: it keeps the invariant and the flags of the others, and touches the data only when it may write.\<close>

definition lock_step_of :: "nat \<Rightarrow> nat \<Rightarrow> 'd lock_sys \<Rightarrow> 'd lock_sys \<Rightarrow> bool" where
  "lock_step_of N i s s' \<longleftrightarrow>
     (lock_inv N s \<longrightarrow> lock_inv N s') \<and>
     counted_pending s' - {i} = counted_pending s - {i} \<and> counted_locked s' - {i} = counted_locked s - {i} \<and>
     may_write s' - {i} = may_write s - {i} \<and> holds_lock s' - {i} = holds_lock s - {i} \<and>
     writing s' - {i} = writing s - {i} \<and> locking s' - {i} = locking s - {i} \<and>
     (i \<in> may_write s \<or> data s' = data s)"

definition lock_step_others :: "nat \<Rightarrow> nat \<Rightarrow> 'd lock_sys \<Rightarrow> 'd lock_sys \<Rightarrow> bool" where
  "lock_step_others N i s s' \<longleftrightarrow> (\<exists>j. j \<noteq> i \<and> lock_step_of N j s s')"

text \<open>What thread \<open>i\<close> knows between its steps: in its section \<open>section_view\<close> with \<open>e\<close> or \<open>k\<close>, otherwise \<open>lock_view\<close>.\<close>

definition section_view :: "nat \<Rightarrow> nat \<Rightarrow> bool \<Rightarrow> bool \<Rightarrow> bool \<Rightarrow> bool \<Rightarrow> bool \<Rightarrow> bool \<Rightarrow> 'd lock_sys \<Rightarrow> bool" where
  "section_view N i p l w h e k s \<longleftrightarrow> lock_inv N s \<and>
     (i \<in> counted_pending s \<longleftrightarrow> p) \<and> (i \<in> counted_locked s \<longleftrightarrow> l) \<and> (i \<in> may_write s \<longleftrightarrow> w) \<and> (i \<in> holds_lock s \<longleftrightarrow> h) \<and>
     (i \<in> writing s \<longleftrightarrow> e) \<and> (i \<in> locking s \<longleftrightarrow> k)"

abbreviation lock_view :: "nat \<Rightarrow> nat \<Rightarrow> bool \<Rightarrow> bool \<Rightarrow> bool \<Rightarrow> bool \<Rightarrow> 'd lock_sys \<Rightarrow> bool" where
  "lock_view N i p l w h \<equiv> section_view N i p l w h False False"

lemma lock_step_of_refl [simp]: "lock_step_of N i s s"
  by (simp add: lock_step_of_def)

lemma others_keep: "A' - {j} = A - {j} \<Longrightarrow> i \<noteq> j \<Longrightarrow> i \<in> A' \<longleftrightarrow> i \<in> A"
  by blast

lemma stable_lock_view: "stable (lock_step_others N i) (section_view N i p l w h e k)"
proof (rule stableI)
  fix s s' assume s: "section_view N i p l w h e k s" and "lock_step_others N i s s'"
  then obtain j where j: "j \<noteq> i" "lock_step_of N j s s'" by (auto simp: lock_step_others_def)
  have keep: "lock_inv N s \<longrightarrow> lock_inv N s'" "counted_pending s' - {j} = counted_pending s - {j}" "counted_locked s' - {j} = counted_locked s - {j}"
    "may_write s' - {j} = may_write s - {j}" "holds_lock s' - {j} = holds_lock s - {j}"
    "writing s' - {j} = writing s - {j}" "locking s' - {j} = locking s - {j}"
    using j(2) by (simp_all add: lock_step_of_def)
  note same = keep(2-7) [THEN others_keep [OF _ j(1) [symmetric]]]
  show "section_view N i p l w h e k s'" using s keep(1) unfolding section_view_def same by blast
qed

lemma lock_inv_count_zero:
  assumes "lock_inv N s" and "N < 2 ^ 32"
  shows "pending_write_operations (lock s) = 0 \<longleftrightarrow> counted_pending s = {}"
    and "locked_for_write (lock s) = 0 \<longleftrightarrow> counted_locked s = {}"
proof -
  have "(of_nat (card A) :: 32 word) = 0 \<longleftrightarrow> A = {}" if "A \<subseteq> {..<N}" for A
  proof -
    have "finite A" using that by (rule finite_subset) simp
    have "card A \<le> N" using card_mono [OF _ that] by simp
    with assms(2) have "card A < 2 ^ 32" by simp
    then have "(of_nat (card A) :: 32 word) = 0 \<longleftrightarrow> card A = 0"
      by (cases "card A = 0") (auto simp: word_of_nat_eq_0_iff nat_dvd_not_less)
    with \<open>finite A\<close> show ?thesis by simp
  qed
  with assms(1) show "pending_write_operations (lock s) = 0 \<longleftrightarrow> counted_pending s = {}"
    and "locked_for_write (lock s) = 0 \<longleftrightarrow> counted_locked s = {}"
    by (auto simp: lock_inv_def)
qed

text \<open>The six accesses, as functions on the state, and each as a step of its thread.\<close>

definition announce :: "nat \<Rightarrow> 'd lock_sys \<Rightarrow> 'd lock_sys" where
  "announce i s = s\<lparr>lock := (lock s)\<lparr>pending_write_operations := pending_write_operations (lock s) + 1\<rparr>,
     counted_pending := insert i (counted_pending s), may_write := may_write s - {i}\<rparr>"

definition withdraw :: "nat \<Rightarrow> 'd lock_sys \<Rightarrow> 'd lock_sys" where
  "withdraw i s = s\<lparr>lock := (lock s)\<lparr>pending_write_operations := pending_write_operations (lock s) - 1\<rparr>,
     counted_pending := counted_pending s - {i}, may_write := may_write s - {i}\<rparr>"

definition raise_lock :: "nat \<Rightarrow> 'd lock_sys \<Rightarrow> 'd lock_sys" where
  "raise_lock i s = s\<lparr>lock := (lock s)\<lparr>locked_for_write := locked_for_write (lock s) + 1\<rparr>,
     counted_locked := insert i (counted_locked s), holds_lock := holds_lock s - {i}\<rparr>"

definition lower_lock :: "nat \<Rightarrow> 'd lock_sys \<Rightarrow> 'd lock_sys" where
  "lower_lock i s = s\<lparr>lock := (lock s)\<lparr>locked_for_write := locked_for_write (lock s) - 1\<rparr>,
     counted_locked := counted_locked s - {i}, holds_lock := holds_lock s - {i}\<rparr>"

definition admit :: "nat \<Rightarrow> 'd lock_sys \<Rightarrow> 'd lock_sys" where
  "admit i s = s\<lparr>may_write := insert i (may_write s)\<rparr>"

definition grant :: "nat \<Rightarrow> 'd lock_sys \<Rightarrow> 'd lock_sys" where
  "grant i s = s\<lparr>holds_lock := insert i (holds_lock s)\<rparr>"

lemma thread_access_simps [simp]:
  "add_pending (thread_access i) 1 s = Some (announce i s)"
  "add_pending (thread_access i) (- 1) s = Some (withdraw i s)"
  "add_locked (thread_access i) 1 s = Some (raise_lock i s)"
  "add_locked (thread_access i) (- 1) s = Some (lower_lock i s)"
  "read_locked (thread_access i) s =
     Some (locked_for_write (lock s), if locked_for_write (lock s) = 0 then admit i s else s)"
  "read_pending (thread_access i) s =
     Some (pending_write_operations (lock s), if pending_write_operations (lock s) = 0 then grant i s else s)"
  by (simp_all add: thread_access_def announce_def withdraw_def raise_lock_def lower_lock_def admit_def grant_def)

lemma lock_inv_finite: "lock_inv N s \<Longrightarrow> finite (counted_pending s) \<and> finite (counted_locked s)"
  by (auto simp: lock_inv_def intro: finite_subset)

lemma card_remove_word:
  assumes "finite A" and "i \<in> A"
  shows "(of_nat (card A - Suc 0) :: 32 word) = of_nat (card A) - 1"
proof -
  have "0 < card A" using assms by (auto simp: card_gt_0_iff)
  then obtain m where "card A = Suc m" by (cases "card A") auto
  then show ?thesis by simp
qed

lemma lock_step_ofI:
  assumes "section_view N i p l w h e k s" and "section_view N i p' l' w' h' e' k' s'"
    and "\<And>j. j \<noteq> i \<Longrightarrow> (j \<in> counted_pending s' \<longleftrightarrow> j \<in> counted_pending s) \<and> (j \<in> counted_locked s' \<longleftrightarrow> j \<in> counted_locked s) \<and>
      (j \<in> may_write s' \<longleftrightarrow> j \<in> may_write s) \<and> (j \<in> holds_lock s' \<longleftrightarrow> j \<in> holds_lock s) \<and>
      (j \<in> writing s' \<longleftrightarrow> j \<in> writing s) \<and> (j \<in> locking s' \<longleftrightarrow> j \<in> locking s)"
    and "data s' = data s"
  shows "lock_step_of N i s s' \<and> section_view N i p' l' w' h' e' k' s'"
proof -
  have "counted_pending s' - {i} = counted_pending s - {i}" "counted_locked s' - {i} = counted_locked s - {i}"
    "may_write s' - {i} = may_write s - {i}" "holds_lock s' - {i} = holds_lock s - {i}"
    "writing s' - {i} = writing s - {i}" "locking s' - {i} = locking s - {i}"
    using assms(3) by blast+
  with assms(2,4) show ?thesis by (simp add: lock_step_of_def section_view_def)
qed

lemma announce_step:
  assumes "lock_view N i False l False h s" and "i < N"
  shows "lock_step_of N i s (announce i s) \<and> lock_view N i True l False h (announce i s)"
proof (rule lock_step_ofI [OF assms(1)])
  have i: "i \<notin> counted_pending s" "i \<notin> may_write s" "lock_inv N s" "finite (counted_pending s)" "i \<notin> writing s" "i \<notin> locking s"
    using assms lock_inv_finite [of N s] by (simp_all add: section_view_def)
  then have "lock_inv N (announce i s)"
    using assms(2) by (auto simp: lock_inv_def announce_def)
  with assms(1) show "lock_view N i True l False h (announce i s)"
    by (simp add: section_view_def announce_def)
qed (simp_all add: announce_def)

lemma withdraw_step:
  assumes "lock_view N i True l w h s"
  shows "lock_step_of N i s (withdraw i s) \<and> lock_view N i False l False h (withdraw i s)"
proof (rule lock_step_ofI [OF assms])
  have i: "i \<in> counted_pending s" "lock_inv N s" "finite (counted_pending s)" "i \<notin> writing s" "i \<notin> locking s"
    using assms lock_inv_finite [of N s] by (simp_all add: section_view_def)
  then have "lock_inv N (withdraw i s)"
    using card_remove_word [OF i(3,1)] by (auto simp: lock_inv_def withdraw_def)
  with assms show "lock_view N i False l False h (withdraw i s)"
    by (simp add: section_view_def withdraw_def)
qed (simp_all add: withdraw_def)

lemma raise_step:
  assumes "lock_view N i p False w False s" and "i < N"
  shows "lock_step_of N i s (raise_lock i s) \<and> lock_view N i p True w False (raise_lock i s)"
proof (rule lock_step_ofI [OF assms(1)])
  have i: "i \<notin> counted_locked s" "i \<notin> holds_lock s" "lock_inv N s" "finite (counted_locked s)" "i \<notin> writing s" "i \<notin> locking s"
    using assms lock_inv_finite [of N s] by (simp_all add: section_view_def)
  then have "lock_inv N (raise_lock i s)"
    using assms(2) by (auto simp: lock_inv_def raise_lock_def)
  with assms(1) show "lock_view N i p True w False (raise_lock i s)"
    by (simp add: section_view_def raise_lock_def)
qed (simp_all add: raise_lock_def)

lemma lower_step:
  assumes "lock_view N i p True w h s"
  shows "lock_step_of N i s (lower_lock i s) \<and> lock_view N i p False w False (lower_lock i s)"
proof (rule lock_step_ofI [OF assms])
  have i: "i \<in> counted_locked s" "lock_inv N s" "finite (counted_locked s)" "i \<notin> writing s" "i \<notin> locking s"
    using assms lock_inv_finite [of N s] by (simp_all add: section_view_def)
  then have "lock_inv N (lower_lock i s)"
    using card_remove_word [OF i(3,1)] by (auto simp: lock_inv_def lower_lock_def)
  with assms show "lock_view N i p False w False (lower_lock i s)"
    by (simp add: section_view_def lower_lock_def)
qed (simp_all add: lower_lock_def)

lemma admit_step:
  assumes "lock_view N i True l w h s" and "N < 2 ^ 32" and "locked_for_write (lock s) = 0"
  shows "lock_step_of N i s (admit i s) \<and> lock_view N i True l True h (admit i s)"
proof (rule lock_step_ofI [OF assms(1)])
  have i: "i \<in> counted_pending s" "lock_inv N s" using assms by (simp_all add: section_view_def)
  with assms have "counted_locked s = {}" using lock_inv_count_zero(2) by blast
  with i have "lock_inv N (admit i s)" by (auto simp: lock_inv_def admit_def)
  with assms show "lock_view N i True l True h (admit i s)" by (simp add: section_view_def admit_def)
qed (simp_all add: admit_def)

lemma grant_step:
  assumes "lock_view N i p True w h s" and "N < 2 ^ 32" and "pending_write_operations (lock s) = 0"
  shows "lock_step_of N i s (grant i s) \<and> lock_view N i p True w True (grant i s)"
proof (rule lock_step_ofI [OF assms(1)])
  have i: "i \<in> counted_locked s" "lock_inv N s" using assms by (simp_all add: section_view_def)
  with assms have "counted_pending s = {}" using lock_inv_count_zero(1) by blast
  with i have "lock_inv N (grant i s)" by (auto simp: lock_inv_def grant_def)
  with assms show "lock_view N i p True w True (grant i s)" by (simp add: section_view_def grant_def)
qed (simp_all add: grant_def)

text \<open>Entering and leaving the sections.\<close>

lemma enter_writing_step:
  assumes "lock_view N i p l True h s"
  shows "lock_step_of N i s (writing_update (insert i) s) \<and> section_view N i p l True h True False (writing_update (insert i) s)"
  by (rule lock_step_ofI [OF assms]) (use assms in \<open>auto simp: section_view_def lock_inv_def\<close>)

lemma leave_writing_step:
  assumes "section_view N i p l w h True False s"
  shows "lock_step_of N i s (writing_update (\<lambda>A. A - {i}) s) \<and> lock_view N i p l w h (writing_update (\<lambda>A. A - {i}) s)"
  by (rule lock_step_ofI [OF assms]) (use assms in \<open>auto simp: section_view_def lock_inv_def\<close>)

lemma enter_locking_step:
  assumes "lock_view N i p l w True s"
  shows "lock_step_of N i s (locking_update (insert i) s) \<and> section_view N i p l w True False True (locking_update (insert i) s)"
  by (rule lock_step_ofI [OF assms]) (use assms in \<open>auto simp: section_view_def lock_inv_def\<close>)

lemma leave_locking_step:
  assumes "section_view N i p l w h False True s"
  shows "lock_step_of N i s (locking_update (\<lambda>A. A - {i}) s) \<and> lock_view N i p l w h (locking_update (\<lambda>A. A - {i}) s)"
  by (rule lock_step_ofI [OF assms]) (use assms in \<open>auto simp: section_view_def lock_inv_def\<close>)

section \<open>The threads keep it\<close>

abbreviation lock_rg :: "nat \<Rightarrow> nat \<Rightarrow> ('a \<Rightarrow> 'd lock_sys \<Rightarrow> bool) \<Rightarrow> ('d lock_sys, 'a) prog \<Rightarrow> 'd lock_sys \<Rightarrow> bool" where
  "lock_rg N i \<equiv> rg (lock_step_others N i) (lock_step_of N i)"

lemmas lock_view_write = rg_write [OF _ stable_lock_view]
lemmas lock_view_access = rg_access [OF _ stable_lock_view]

lemma rg_begin_write:
  fixes s :: "'d lock_sys"
  assumes "lock_view N i False False False False s" and "i < N" and "N < 2 ^ 32"
  shows "lock_rg N i (\<lambda>_. lock_view N i True False True False)
    (check_lock_and_begin_write_operation n (thread_access i)) s"
  using assms(1)
proof (induction n arbitrary: s)
  case 0
  then show ?case by simp
next
  case (Suc n)
  let ?Q = "\<lambda>_. lock_view N i True False True False :: 'd lock_sys \<Rightarrow> bool"
  show ?case
    unfolding check_lock_and_begin_write_operation.simps
  proof (rule lock_view_write [OF Suc.prems], goal_cases)
    case (1 s1)
    have "lock_rg N i ?Q (call (atomic (read_locked (thread_access i))) (\<lambda>locked.
        if locked \<noteq> 0 then
          call (writes (add_pending (thread_access i) (- 1))) (\<lambda>_.
          check_lock_and_begin_write_operation n (thread_access i))
        else Done ())) s2" if "lock_view N i True False False False s2" for s2
    proof (rule lock_view_access [OF that], goal_cases)
      case (1 s3)
      show ?case
      proof (cases "locked_for_write (lock s3) = 0")
        case True
        from admit_step [OF 1 assms(3) True] show ?thesis
          using True by (simp del: rg.simps) (rule rg_Done [OF _ stable_lock_view], auto)
      next
        case False
        have "lock_rg N i ?Q (call (writes (add_pending (thread_access i) (- 1))) (\<lambda>_.
            check_lock_and_begin_write_operation n (thread_access i))) s3"
        proof (rule lock_view_write [OF 1], goal_cases)
          case (1 s4)
          from withdraw_step [OF 1] show ?case using Suc.IH [of "withdraw i s4"] by simp
        qed
        with False show ?thesis by simp
      qed
    qed
    with announce_step [OF 1 assms(2)] show ?case by simp
  qed
qed

lemma rg_update_data:
  assumes "section_view N i True False True False True False s"
  shows "lock_rg N i (\<lambda>_. section_view N i True False True False True False) (update_data fs) s"
  using assms
proof (induction fs arbitrary: s)
  case Nil
  show ?case unfolding update_data.simps by (rule rg_Done [OF Nil stable_lock_view]) simp
next
  case (Cons f fs)
  show ?case
    unfolding update_data.simps
  proof (rule lock_view_write [OF Cons.prems], goal_cases)
    case (1 s1)
    then show ?case
      by (auto simp: section_view_def lock_step_of_def lock_inv_def intro!: Cons.IH)
  qed
qed

lemma rg_writer_thread:
  fixes s :: "'d lock_sys"
  assumes "lock_view N i False False False False s" and "i < N" and "N < 2 ^ 32"
  shows "lock_rg N i (\<lambda>r s. r = Written) (writer_thread n i fs) s"
  unfolding writer_thread_def
proof (rule rg_call, rule rg_mono [OF rg_begin_write [OF assms]], unfold enter_def, erule lock_view_write, goal_cases)
  case (1 _ _ s1)
  note enter = enter_writing_step [OF 1]
  have finish: "lock_rg N i (\<lambda>r s. r = Written) (call (leave writing_update i) (\<lambda>_.
      call (end_write_operation (thread_access i)) (\<lambda>_. Done (Written :: 'd lock_result)))) s2"
    if "section_view N i True False True False True False s2" for s2 :: "'d lock_sys"
    unfolding leave_def
  proof (rule lock_view_write [OF that], goal_cases)
    case (1 s3)
    have "lock_rg N i (\<lambda>r s. r = Written) (call (end_write_operation (thread_access i)) (\<lambda>_. Done (Written :: 'd lock_result))) s4"
      if "lock_view N i True False True False s4" for s4 :: "'d lock_sys"
      unfolding end_write_operation_def
    proof (rule lock_view_write [OF that], goal_cases)
      case (1 s5)
      from withdraw_step [OF 1] show ?case by simp
    qed
    with leave_writing_step [OF 1] show ?case by simp
  qed
  have "lock_rg N i (\<lambda>r s. r = Written) (call (update_data fs) (\<lambda>_. call (leave writing_update i) (\<lambda>_.
      call (end_write_operation (thread_access i)) (\<lambda>_. Done (Written :: 'd lock_result))))) (writing_update (insert i) s1)"
    by (rule rg_call, rule rg_mono [OF rg_update_data]) (use enter finish in simp_all)
  with enter show ?case by simp
qed

lemma rg_wait_for_pending_writes:
  assumes "lock_view N i False True False False s" and "N < 2 ^ 32"
  shows "lock_rg N i (\<lambda>_. lock_view N i False True False True) (wait_for_pending_writes n (thread_access i)) s"
  using assms(1)
proof (induction n arbitrary: s)
  case 0
  then show ?case by simp
next
  case (Suc n)
  show ?case
    unfolding wait_for_pending_writes.simps
  proof (rule lock_view_access [OF Suc.prems], goal_cases)
    case (1 s1)
    show ?case
    proof (cases "pending_write_operations (lock s1) = 0")
      case True
      from grant_step [OF 1 assms(2) True] show ?thesis
        using True by (simp del: rg.simps) (rule rg_Done [OF _ stable_lock_view], auto)
    next
      case False
      with 1 Suc.IH show ?thesis by simp
    qed
  qed
qed

text \<open>While a thread holds the lock the others leave the data alone.\<close>

lemma stable_locked_data:
  "stable (lock_step_others N i) (\<lambda>s. section_view N i False True False True False True s \<and> data s = d)"
proof (rule stableI)
  fix s s' assume s: "section_view N i False True False True False True s \<and> data s = d" and env: "lock_step_others N i s s'"
  from env obtain j where "lock_step_of N j s s'" by (auto simp: lock_step_others_def)
  moreover have "may_write s = {}" using s by (auto simp: section_view_def lock_inv_def)
  ultimately have "data s' = data s" by (simp add: lock_step_of_def)
  moreover have "section_view N i False True False True False True s'"
    using s env stable_lock_view unfolding stable_def by blast
  ultimately show "section_view N i False True False True False True s' \<and> data s' = d" using s by simp
qed

lemma rg_locker_thread:
  fixes s :: "'d lock_sys"
  assumes "lock_view N i False False False False s" and "i < N" and "N < 2 ^ 32"
  shows "lock_rg N i (\<lambda>r s. \<exists>d. r = Seen d d) (locker_thread n i) s"
  unfolding locker_thread_def internal_lock_writes_def call_assoc
proof (rule lock_view_write [OF assms(1)], goal_cases)
  case (1 s1)
  let ?unlock = "\<lambda>d1 d2. call (leave locking_update i) (\<lambda>_. call (internal_unlock_writes (thread_access i)) (\<lambda>_. Done (Seen d1 d2)))"
  let ?look = "call (reads (\<lambda>s. Some (data s))) (\<lambda>d1. call (reads (\<lambda>s. Some (data s))) (\<lambda>d2. ?unlock d1 d2))"
  let ?Q = "\<lambda>r s. \<exists>d :: 'd. r = Seen d d"
  have unlock: "lock_rg N i ?Q (?unlock d d) s2" if "section_view N i False True False True False True s2" for d :: 'd and s2 :: "'d lock_sys"
    unfolding leave_def
  proof (rule lock_view_write [OF that], goal_cases)
    case (1 s3)
    have "lock_rg N i ?Q (call (internal_unlock_writes (thread_access i)) (\<lambda>_. Done (Seen d d))) s4"
      if "lock_view N i False True False True s4" for s4 :: "'d lock_sys"
      unfolding internal_unlock_writes_def
    proof (rule lock_view_write [OF that], goal_cases)
      case (1 s5)
      from lower_step [OF 1] show ?case by simp
    qed
    with leave_locking_step [OF 1] show ?case by simp
  qed
  have look: "lock_rg N i ?Q ?look s2" if "section_view N i False True False True False True s2" for s2 :: "'d lock_sys"
  proof (rule rg_read [OF that stable_lock_view], simp, goal_cases)
    case (1 s3)
    then have 2: "section_view N i False True False True False True s3 \<and> data s3 = data s3" by simp
    show ?case
      unfolding option.case
      by (rule rg_read [OF 2 stable_locked_data]) (simp_all add: unlock)
  qed
  have "lock_rg N i ?Q (call (enter locking_update i) (\<lambda>_. ?look)) s2" if "lock_view N i False True False True s2" for s2 :: "'d lock_sys"
    unfolding enter_def
  proof (rule lock_view_write [OF that], goal_cases)
    case (1 s3)
    from enter_locking_step [OF 1] look show ?case by simp
  qed
  then have "lock_rg N i ?Q (call (wait_for_pending_writes n (thread_access i)) (\<lambda>_. call (enter locking_update i) (\<lambda>_. ?look))) (raise_lock i s1)"
    using raise_step [OF 1 assms(2)] by (intro rg_call [OF rg_mono [OF rg_wait_for_pending_writes [OF _ assms(3)]]]) simp_all
  with raise_step [OF 1 assms(2)] show ?case by simp
qed

section \<open>The system\<close>

text \<open>Thread \<open>i\<close> of the pool is a writer with a list of updates, or a locker.\<close>

datatype 'd lock_role = Writer "('d \<Rightarrow> 'd) list" | Locker

definition lock_threads :: "nat \<Rightarrow> 'd lock_role list \<Rightarrow> ('d lock_sys, 'd lock_result) prog list" where
  "lock_threads n roles = map (\<lambda>i. case roles ! i of Writer fs \<Rightarrow> writer_thread n i fs | Locker \<Rightarrow> locker_thread n i)
     [0..<length roles]"

definition unlocked_sys :: "'d \<Rightarrow> 'd lock_sys" where
  "unlocked_sys d = \<lparr>lock = \<lparr>locked_for_write = 0, pending_write_operations = 0\<rparr>, data = d, writing = {}, locking = {},
     counted_pending = {}, counted_locked = {}, may_write = {}, holds_lock = {}\<rparr>"

lemma lock_view_unlocked: "lock_view N i False False False False (unlocked_sys d)"
  by (simp add: section_view_def lock_inv_def unlocked_sys_def)

lemma lock_threads_rg:
  assumes "length roles < 2 ^ 32" and "i < length (lock_threads n roles)"
  shows "lock_rg (length roles) i (\<lambda>r s. roles ! i = Locker \<longrightarrow> (\<exists>d. r = Seen d d)) (lock_threads n roles ! i) (unlocked_sys d)"
proof -
  have i: "i < length roles" using assms(2) by (simp add: lock_threads_def)
  show ?thesis
  proof (cases "roles ! i")
    case (Writer fs)
    with i show ?thesis
      using rg_mono [OF rg_writer_thread [OF lock_view_unlocked i assms(1), of n fs]]
      by (simp add: lock_threads_def)
  next
    case Locker
    with i show ?thesis
      using rg_locker_thread [OF lock_view_unlocked i assms(1), of n]
      by (auto simp: lock_threads_def elim: rg_mono)
  qed
qed

lemma lock_step_compatible: "i \<noteq> j \<Longrightarrow> lock_step_of N i s s' \<Longrightarrow> lock_step_others N j s s'"
  by (auto simp: lock_step_others_def)

section \<open>Properties\<close>

text \<open>
  C4: at no point of any interleaving is a thread between the return of
  \<open>check_lock_and_begin_write_operation\<close> and its \<open>end_write_operation\<close> while a thread is between the return
  of \<open>internal_lock_writes\<close> and its \<open>internal_unlock_writes\<close>.
\<close>

theorem write_lock_exclusion:
  assumes "length roles < 2 ^ 32" and "pool_reach (unlocked_sys d, lock_threads n roles) (s, ps)"
  shows "writing s = {} \<or> locking s = {}"
proof -
  have "lock_inv (length roles) s"
    by (rule pool_invariant [OF assms(2) lock_threads_rg [OF assms(1)] lock_step_compatible])
      (use lock_view_unlocked [of "length roles" 0 d] in \<open>auto simp: lock_step_of_def section_view_def\<close>)
  then show ?thesis by (auto simp: lock_inv_def)
qed

text \<open>
  C5: a thread that looks twice at the protected data while it holds the write lock sees the same
  data twice, whatever the writers do meanwhile; and no thread faults.
\<close>

theorem write_lock_snapshot:
  assumes "length roles < 2 ^ 32" and "pool_reach (unlocked_sys d, lock_threads n roles) (s, ps)"
    and "i < length roles"
  shows "ps ! i \<noteq> Fault \<and> (roles ! i = Locker \<longrightarrow> ps ! i = Done (Seen d1 d2) \<longrightarrow> d1 = d2)"
proof -
  have i: "i < length (lock_threads n roles)" using assms(3) by (simp add: lock_threads_def)
  show ?thesis
    using pool_sound(2,3) [OF assms(2) lock_threads_rg [OF assms(1)] lock_step_compatible i] by fastforce
qed

text \<open>A writer that doubles, and a locker, over data 1; the locker waits for the writer.\<close>

definition lock_example_roles :: "nat lock_role list" where
  "lock_example_roles = [Writer [\<lambda>d. 2 * d], Locker]"

definition lock_example_end :: "(nat lock_sys, nat lock_result) pool" where
  "lock_example_end = run_schedule [0, 0, 1, 1, 0, 0, 0, 0, 1, 1, 1, 1, 1, 1] (unlocked_sys 1, lock_threads 3 lock_example_roles)"

lemma lock_example_reach:
  "pool_reach (unlocked_sys 1, lock_threads 3 lock_example_roles) (fst lock_example_end, snd lock_example_end)"
  unfolding lock_example_end_def prod.collapse by (rule run_schedule_reach)

lemma lock_example_result: "snd lock_example_end ! 1 = Done (Seen 2 2)" (is "?p = _")
proof -
  have "case ?p of Done r \<Rightarrow> r = Seen 2 2 | _ \<Rightarrow> False" by code_simp
  then show ?thesis by (simp split: prog.splits)
qed

theorem write_lock_exclusion_witness:
  "writing (fst lock_example_end) = {} \<or> locking (fst lock_example_end) = {}"
  by (rule write_lock_exclusion [OF _ lock_example_reach]) (simp add: lock_example_roles_def)

theorem write_lock_snapshot_witness:
  "snd lock_example_end ! 1 \<noteq> Fault \<and> snd lock_example_end ! 1 = Done (Seen 2 2)"
  using write_lock_snapshot [OF _ lock_example_reach, of 1 2 2] lock_example_result
  by (simp add: lock_example_roles_def)

end
