(* ===== verification/Clds_St_Hash_Set.thy ===== *)
theory Clds_St_Hash_Set
  imports Prelude
begin

text \<open>
  The single-threaded hash set of pointers of \<open>src/src/clds_st_hash_set.c\<close>, which a hazard pointer
  scan fills with the protected nodes: an array of bucket heads and singly linked bucket items.
  The struct, the bucket arrays and the items are three maps from addresses. The two callbacks
  are values of the struct; a NULL callback is \<open>None\<close>. Keys are compared by address, as the code
  does; the comparison callback is stored and not called.
\<close>

record hash_table_item =
  item_next :: ptr
  item_key :: ptr

record clds_st_hash_set =
  compute_hash_func :: "ptr \<Rightarrow> 64 word"
  key_compare_func :: "ptr \<Rightarrow> ptr \<Rightarrow> int"
  bucket_count :: "64 word"
  hash_set :: ptr

record st_mem = mem +
  st_sets :: "ptr \<Rightarrow> clds_st_hash_set option"
  st_arrays :: "ptr \<Rightarrow> ptr list option"
  st_items :: "ptr \<Rightarrow> hash_table_item option"

datatype st_insert_result = CLDS_ST_HASH_SET_INSERT_OK | CLDS_ST_HASH_SET_INSERT_ERROR
  | CLDS_ST_HASH_SET_INSERT_KEY_ALREADY_EXISTS

datatype st_find_result = CLDS_ST_HASH_SET_FIND_OK | CLDS_ST_HASH_SET_FIND_ERROR
  | CLDS_ST_HASH_SET_FIND_NOT_FOUND

section \<open>Accesses\<close>

definition malloc_set :: "('a st_mem_scheme, ptr) prog" where
  "malloc_set = atomic (\<lambda>s. let (p, s') = malloc_step s in
     Some (p, if p = null then s' else s'\<lparr>st_sets := (st_sets s')(p \<mapsto>
       \<lparr>compute_hash_func = (\<lambda>_. junk), key_compare_func = (\<lambda>_ _. 0), bucket_count = junk, hash_set = junk\<rparr>)\<rparr>))"

definition malloc_array :: "64 word \<Rightarrow> ('a st_mem_scheme, ptr) prog" where
  "malloc_array n = atomic (\<lambda>s. let (p, s') = malloc_step s in
     Some (p, if p = null then s' else s'\<lparr>st_arrays := (st_arrays s')(p \<mapsto> replicate (unat n) junk)\<rparr>))"

definition malloc_item :: "('a st_mem_scheme, ptr) prog" where
  "malloc_item = atomic (\<lambda>s. let (p, s') = malloc_step s in
     Some (p, if p = null then s' else s'\<lparr>st_items := (st_items s')(p \<mapsto> \<lparr>item_next = junk, item_key = junk\<rparr>)\<rparr>))"

definition free_set :: "ptr \<Rightarrow> ('a st_mem_scheme, unit) prog" where
  "free_set p = writes (\<lambda>s. map_option (st_sets_update (\<lambda>m. m(p := None))) (free_step p s))"

definition free_array :: "ptr \<Rightarrow> ('a st_mem_scheme, unit) prog" where
  "free_array p = writes (\<lambda>s. map_option (st_arrays_update (\<lambda>m. m(p := None))) (free_step p s))"

definition free_item :: "ptr \<Rightarrow> ('a st_mem_scheme, unit) prog" where
  "free_item p = writes (\<lambda>s. map_option (st_items_update (\<lambda>m. m(p := None))) (free_step p s))"

definition get_set :: "ptr \<Rightarrow> ('a st_mem_scheme, clds_st_hash_set) prog" where
  "get_set p = reads (\<lambda>s. st_sets s p)"

definition set_set :: "ptr \<Rightarrow> (clds_st_hash_set \<Rightarrow> clds_st_hash_set) \<Rightarrow> ('a st_mem_scheme, unit) prog" where
  "set_set p f = writes (\<lambda>s. map_option (\<lambda>h. s\<lparr>st_sets := (st_sets s)(p \<mapsto> f h)\<rparr>) (st_sets s p))"

text \<open>Array elements: an index out of range faults.\<close>

definition get_bucket :: "ptr \<Rightarrow> nat \<Rightarrow> ('a st_mem_scheme, ptr) prog" where
  "get_bucket a i = reads (\<lambda>s. case st_arrays s a of None \<Rightarrow> None
     | Some bs \<Rightarrow> if i < length bs then Some (bs ! i) else None)"

definition set_bucket :: "ptr \<Rightarrow> nat \<Rightarrow> ptr \<Rightarrow> ('a st_mem_scheme, unit) prog" where
  "set_bucket a i p = writes (\<lambda>s. case st_arrays s a of None \<Rightarrow> None
     | Some bs \<Rightarrow> if i < length bs then Some (s\<lparr>st_arrays := (st_arrays s)(a \<mapsto> bs[i := p])\<rparr>) else None)"

definition get_item :: "ptr \<Rightarrow> ('a st_mem_scheme, hash_table_item) prog" where
  "get_item p = reads (\<lambda>s. st_items s p)"

definition set_item :: "ptr \<Rightarrow> (hash_table_item \<Rightarrow> hash_table_item) \<Rightarrow> ('a st_mem_scheme, unit) prog" where
  "set_item p f = writes (\<lambda>s. map_option (\<lambda>h. s\<lparr>st_items := (st_items s)(p \<mapsto> f h)\<rparr>) (st_items s p))"

lemmas st_access_defs = malloc_set_def malloc_array_def malloc_item_def free_set_def free_array_def
  free_item_def get_set_def set_set_def get_bucket_def set_bucket_def get_item_def set_item_def

section \<open>Operations\<close>

text \<open>The loop \<open>for (i = 0; i < bucket_size; i++) hash_set[i] = NULL\<close>, with \<open>k\<close> iterations to go.\<close>

primrec clear_buckets :: "nat \<Rightarrow> ptr \<Rightarrow> nat \<Rightarrow> ('a st_mem_scheme, unit) prog" where
  "clear_buckets 0 a i = Done ()"
| "clear_buckets (Suc k) a i = call (set_bucket a i null) (\<lambda>_. clear_buckets k a (Suc i))"

definition clds_st_hash_set_create ::
  "(ptr \<Rightarrow> 64 word) option \<Rightarrow> (ptr \<Rightarrow> ptr \<Rightarrow> int) option \<Rightarrow> 64 word \<Rightarrow> ('a st_mem_scheme, ptr) prog" where
  "clds_st_hash_set_create compute_hash key_compare bucket_size =
     (case (compute_hash, key_compare) of
        (Some hash_fn, Some compare_fn) \<Rightarrow>
          if bucket_size = 0 then Done null
          else
            call malloc_set (\<lambda>p.
            if p = null then Done null
            else
              call (malloc_array bucket_size) (\<lambda>a.
              call (set_set p (\<lambda>h. h\<lparr>hash_set := a\<rparr>)) (\<lambda>_.
              if a = null then call (free_set p) (\<lambda>_. Done null)
              else
                call (set_set p (\<lambda>h. h\<lparr>compute_hash_func := hash_fn\<rparr>)) (\<lambda>_.
                call (set_set p (\<lambda>h. h\<lparr>key_compare_func := compare_fn\<rparr>)) (\<lambda>_.
                call (set_set p (\<lambda>h. h\<lparr>bucket_count := bucket_size\<rparr>)) (\<lambda>_.
                call (clear_buckets (unat bucket_size) a 0) (\<lambda>_.
                Done p)))))))
      | _ \<Rightarrow> Done null)"

text \<open>The inner loop of \<open>destroy\<close> frees one bucket, the outer one goes through the buckets.\<close>

fun free_bucket :: "nat \<Rightarrow> ptr \<Rightarrow> ('a st_mem_scheme, unit) prog" where
  "free_bucket 0 p = Spin"
| "free_bucket (Suc n) p =
     (if p = null then Done ()
      else
        call (get_item p) (\<lambda>it.
        call (free_item p) (\<lambda>_.
        free_bucket n (item_next it))))"

primrec free_buckets :: "nat \<Rightarrow> nat \<Rightarrow> ptr \<Rightarrow> nat \<Rightarrow> ('a st_mem_scheme, unit) prog" where
  "free_buckets n 0 a i = Done ()"
| "free_buckets n (Suc k) a i =
     call (get_bucket a i) (\<lambda>p.
     call (free_bucket n p) (\<lambda>_.
     free_buckets n k a (Suc i)))"

definition clds_st_hash_set_destroy :: "nat \<Rightarrow> ptr \<Rightarrow> ('a st_mem_scheme, unit) prog" where
  "clds_st_hash_set_destroy n p =
     (if p = null then Done ()
      else
        call (get_set p) (\<lambda>h.
        call (free_buckets n (unat (bucket_count h)) (hash_set h) 0) (\<lambda>_.
        call (free_array (hash_set h)) (\<lambda>_.
        free_set p))))"

definition bucket_index :: "clds_st_hash_set \<Rightarrow> ptr \<Rightarrow> nat" where
  "bucket_index h key = unat (compute_hash_func h key mod bucket_count h)"

definition clds_st_hash_set_insert :: "ptr \<Rightarrow> ptr \<Rightarrow> ('a st_mem_scheme, st_insert_result) prog" where
  "clds_st_hash_set_insert p key =
     (if p = null \<or> key = null then Done CLDS_ST_HASH_SET_INSERT_ERROR
      else
        call (get_set p) (\<lambda>h.
        call malloc_item (\<lambda>it.
        if it = null then Done CLDS_ST_HASH_SET_INSERT_ERROR
        else
          call (set_item it (\<lambda>i. i\<lparr>item_key := key\<rparr>)) (\<lambda>_.
          call (get_bucket (hash_set h) (bucket_index h key)) (\<lambda>head.
          call (set_item it (\<lambda>i. i\<lparr>item_next := head\<rparr>)) (\<lambda>_.
          call (set_bucket (hash_set h) (bucket_index h key) it) (\<lambda>_.
          Done CLDS_ST_HASH_SET_INSERT_OK)))))))"

fun find_in_bucket :: "nat \<Rightarrow> ptr \<Rightarrow> ptr \<Rightarrow> ('a st_mem_scheme, ptr) prog" where
  "find_in_bucket 0 p key = Spin"
| "find_in_bucket (Suc n) p key =
     (if p = null then Done p
      else
        call (get_item p) (\<lambda>it.
        if item_key it = key then Done p
        else find_in_bucket n (item_next it) key))"

definition clds_st_hash_set_find :: "nat \<Rightarrow> ptr \<Rightarrow> ptr \<Rightarrow> ('a st_mem_scheme, st_find_result) prog" where
  "clds_st_hash_set_find n p key =
     (if p = null \<or> key = null then Done CLDS_ST_HASH_SET_FIND_ERROR
      else
        call (get_set p) (\<lambda>h.
        call (get_bucket (hash_set h) (bucket_index h key)) (\<lambda>head.
        call (find_in_bucket n head key) (\<lambda>it.
        Done (if it = null then CLDS_ST_HASH_SET_FIND_NOT_FOUND else CLDS_ST_HASH_SET_FIND_OK)))))"

section \<open>The contract of a set of pointers\<close>

text \<open>A client of a set inserts a list of keys, giving up at the first failure.\<close>

primrec insert_all :: "(ptr \<Rightarrow> ptr \<Rightarrow> ('s, st_insert_result) prog) \<Rightarrow> ptr \<Rightarrow> ptr list \<Rightarrow> ('s, bool) prog" where
  "insert_all ins p [] = Done True"
| "insert_all ins p (k # ks) =
     call (ins p k) (\<lambda>r.
     if r = CLDS_ST_HASH_SET_INSERT_OK then insert_all ins p ks else Done False)"

text \<open>Another one asks whether \<open>k\<close> is among \<open>ks\<close>, through a set of its own; None when an allocation failed.\<close>

definition member_through_set ::
  "('s, ptr) prog \<Rightarrow> (ptr \<Rightarrow> ptr \<Rightarrow> ('s, st_insert_result) prog) \<Rightarrow> (ptr \<Rightarrow> ptr \<Rightarrow> ('s, st_find_result) prog) \<Rightarrow>
   (ptr \<Rightarrow> ('s, unit) prog) \<Rightarrow> ptr list \<Rightarrow> ptr \<Rightarrow> ('s, st_find_result option) prog" where
  "member_through_set create ins look destroy ks k =
     call create (\<lambda>p.
     if p = null then Done None
     else
       call (insert_all ins p ks) (\<lambda>ok.
       if \<not> ok then call (destroy p) (\<lambda>_. Done None)
       else
         call (look p k) (\<lambda>r.
         call (destroy p) (\<lambda>_. Done (Some r)))))"

text \<open>
  \<open>set_at s p K F\<close>: at \<open>p\<close> there is a set of the pointers \<open>K\<close>, kept in the allocated objects \<open>F\<close>.
  \<open>outside F s s'\<close>: the two states agree on everything but the objects \<open>F\<close>. Every operation leaves
  everything outside the set's own objects alone; \<open>destroy\<close> gives all of them back. The bound
  \<open>room\<close> is for the loops of \<open>find\<close> and \<open>destroy\<close>. \<open>memory k s\<close>: the next \<open>k\<close> allocations succeed; creation
  takes two, if it is possible at all (\<open>usable\<close>), an insertion one, and they fail in no other case.
\<close>

locale pointer_set =
  fixes set_at :: "'s \<Rightarrow> ptr \<Rightarrow> ptr set \<Rightarrow> ptr set \<Rightarrow> bool"
    and outside :: "ptr set \<Rightarrow> 's \<Rightarrow> 's \<Rightarrow> bool"
    and allocated :: "'s \<Rightarrow> ptr set"
    and room :: nat
    and memory :: "nat \<Rightarrow> 's \<Rightarrow> bool"
    and usable :: bool
    and create :: "('s, ptr) prog"
    and ins :: "ptr \<Rightarrow> ptr \<Rightarrow> ('s, st_insert_result) prog"
    and find :: "ptr \<Rightarrow> ptr \<Rightarrow> ('s, st_find_result) prog"
    and destroy :: "ptr \<Rightarrow> ('s, unit) prog"
  assumes create: "wp create (\<lambda>p s'. p = null \<and> outside {} s s' \<and> \<not> (usable \<and> memory 2 s) \<or>
        p \<noteq> null \<and> (\<exists>F. set_at s' p {} F \<and> F \<inter> allocated s = {} \<and> card F \<le> 2 \<and> outside F s s') \<and>
          (\<forall>m. memory (m + 2) s \<longrightarrow> memory m s')) s"
    and ins: "set_at s p K F \<Longrightarrow> k \<noteq> null \<Longrightarrow>
      wp (ins p k) (\<lambda>r s'. r = CLDS_ST_HASH_SET_INSERT_ERROR \<and> set_at s' p K F \<and> outside F s s' \<and> \<not> memory 1 s \<or>
        r = CLDS_ST_HASH_SET_INSERT_OK \<and>
          (\<exists>x. x \<notin> allocated s \<and> set_at s' p (insert k K) (insert x F) \<and> outside (insert x F) s s') \<and>
          memory 1 s \<and> (\<forall>m. memory (Suc m) s \<longrightarrow> memory m s')) s"
    and find: "set_at s p K F \<Longrightarrow> k \<noteq> null \<Longrightarrow> card F \<le> room \<Longrightarrow>
      wp (find p k) (\<lambda>r s'. s' = s \<and>
        r = (if k \<in> K then CLDS_ST_HASH_SET_FIND_OK else CLDS_ST_HASH_SET_FIND_NOT_FOUND)) s"
    and destroy: "set_at s p K F \<Longrightarrow> card F \<le> room \<Longrightarrow>
      wp (destroy p) (\<lambda>_ s'. outside F s s' \<and> allocated s' = allocated s - F) s"
    and memory_fewer: "memory m s \<Longrightarrow> l \<le> m \<Longrightarrow> memory l s"
    and finite: "set_at s p K F \<Longrightarrow> finite F"
    and owned: "set_at s p K F \<Longrightarrow> F \<subseteq> allocated s"
    and outside_allocated: "outside F s s' \<Longrightarrow> x \<notin> F \<Longrightarrow> x \<in> allocated s' \<longleftrightarrow> x \<in> allocated s"
    and outside_refl: "outside F s s"
    and outside_trans: "outside F s s' \<Longrightarrow> outside F s' s'' \<Longrightarrow> outside F s s''"
    and outside_mono: "outside F s s' \<Longrightarrow> F \<subseteq> F' \<Longrightarrow> outside F' s s'"
begin

lemma insert_all:
  assumes "set_at s p K F" and "null \<notin> set ks"
  shows "wp (insert_all ins p ks) (\<lambda>ok s'. \<exists>K' F'. set_at s' p K' F' \<and> (ok \<longrightarrow> K' = K \<union> set ks) \<and>
      F \<subseteq> F' \<and> (F' - F) \<inter> allocated s = {} \<and> card F' \<le> card F + length ks \<and> outside F' s s' \<and> (memory (length ks) s \<longrightarrow> ok)) s"
  using assms
proof (induction ks arbitrary: s K F)
  case Nil
  then show ?case by (auto simp: wp_simps outside_refl intro!: exI [of _ K] exI [of _ F])
next
  case (Cons k ks)
  have k: "k \<noteq> null" "null \<notin> set ks" using Cons.prems(2) by auto
  show ?case
    unfolding insert_all.simps
  proof (rule wp_seq [OF ins [OF Cons.prems(1) k(1)]])
    fix r s1
    assume "r = CLDS_ST_HASH_SET_INSERT_ERROR \<and> set_at s1 p K F \<and> outside F s s1 \<and> \<not> memory 1 s \<or>
        r = CLDS_ST_HASH_SET_INSERT_OK \<and>
          (\<exists>x. x \<notin> allocated s \<and> set_at s1 p (insert k K) (insert x F) \<and> outside (insert x F) s s1) \<and>
          memory 1 s \<and> (\<forall>m. memory (Suc m) s \<longrightarrow> memory m s1)"
    then show "wp (if r = CLDS_ST_HASH_SET_INSERT_OK then insert_all ins p ks else Done False)
        (\<lambda>ok s'. \<exists>K' F'. set_at s' p K' F' \<and> (ok \<longrightarrow> K' = K \<union> set (k # ks)) \<and>
          F \<subseteq> F' \<and> (F' - F) \<inter> allocated s = {} \<and> card F' \<le> card F + length (k # ks) \<and> outside F' s s' \<and>
          (memory (length (k # ks)) s \<longrightarrow> ok)) s1"
    proof (elim disjE conjE exE)
      assume "r = CLDS_ST_HASH_SET_INSERT_ERROR" "set_at s1 p K F" "outside F s s1" "\<not> memory 1 s"
      moreover from this have "\<not> memory (Suc (length ks)) s" using memory_fewer [of "Suc (length ks)" s 1] by auto
      ultimately show ?thesis
        by (simp add: wp_simps) (rule exI [of _ K], rule exI [of _ F], simp)
    next
      fix x
      assume r: "r = CLDS_ST_HASH_SET_INSERT_OK" and x: "x \<notin> allocated s" and mem: "\<forall>m. memory (Suc m) s \<longrightarrow> memory m s1"
        and s1: "set_at s1 p (insert k K) (insert x F)" "outside (insert x F) s s1"
      have card: "card (insert x F) \<le> Suc (card F)" by (rule card_insert_le_m1) simp_all
      have "wp (insert_all ins p ks) (\<lambda>ok s'. \<exists>K' F'. set_at s' p K' F' \<and> (ok \<longrightarrow> K' = insert k K \<union> set ks) \<and>
          insert x F \<subseteq> F' \<and> (F' - insert x F) \<inter> allocated s1 = {} \<and> card F' \<le> card (insert x F) + length ks \<and>
          outside F' s1 s' \<and> (memory (length ks) s1 \<longrightarrow> ok)) s1"
        by (rule Cons.IH [OF s1(1) k(2)])
      then show ?thesis
        unfolding r if_P [OF refl]
      proof (rule wp_mono, elim exE conjE)
        fix ok s' K' F'
        assume F': "set_at s' p K' F'" "ok \<longrightarrow> K' = insert k K \<union> set ks" "insert x F \<subseteq> F'"
          "(F' - insert x F) \<inter> allocated s1 = {}" "card F' \<le> card (insert x F) + length ks" "outside F' s1 s'"
          "memory (length ks) s1 \<longrightarrow> ok"
        have "y \<notin> allocated s" if y: "y \<in> F'" "y \<notin> F" for y
        proof
          assume "y \<in> allocated s"
          moreover from this have "y \<notin> insert x F" using x y by auto
          ultimately have "y \<in> allocated s1" using outside_allocated [OF s1(2)] by simp
          with F'(4) y \<open>y \<notin> insert x F\<close> show False by blast
        qed
        then have "(F' - F) \<inter> allocated s = {}" by blast
        moreover have "outside F' s s'"
          using outside_trans [OF outside_mono [OF s1(2) F'(3)] F'(6)] .
        moreover have "ok \<longrightarrow> K' = K \<union> set (k # ks)" "F \<subseteq> F'" "card F' \<le> card F + length (k # ks)"
          using F'(2,3,5) card by simp_all
        moreover have "memory (length (k # ks)) s \<longrightarrow> ok" using F'(7) mem by simp
        ultimately show "\<exists>K' F'. set_at s' p K' F' \<and> (ok \<longrightarrow> K' = K \<union> set (k # ks)) \<and> F \<subseteq> F' \<and>
            (F' - F) \<inter> allocated s = {} \<and> card F' \<le> card F + length (k # ks) \<and> outside F' s s' \<and>
            (memory (length (k # ks)) s \<longrightarrow> ok)"
          using F'(1) by (intro exI [of _ K'] exI [of _ F'] conjI)
      qed
    qed
  qed
qed

lemma member_through_set:
  assumes "null \<notin> set ks" and "k \<noteq> null" and "length ks + 2 \<le> room"
  shows "wp (member_through_set create ins find destroy ks k) (\<lambda>r s'.
      r \<in> {None, Some (if k \<in> set ks then CLDS_ST_HASH_SET_FIND_OK else CLDS_ST_HASH_SET_FIND_NOT_FOUND)} \<and>
      (usable \<and> memory (length ks + 2) s \<longrightarrow> r \<noteq> None) \<and>
      allocated s' = allocated s \<and> (\<exists>F. F \<inter> allocated s = {} \<and> outside F s s')) s"
    (is "wp _ ?Q s")
  unfolding member_through_set_def
proof (rule wp_seq [OF create])
  fix p s1
  assume "p = null \<and> outside {} s s1 \<and> \<not> (usable \<and> memory 2 s) \<or>
      p \<noteq> null \<and> (\<exists>F. set_at s1 p {} F \<and> F \<inter> allocated s = {} \<and> card F \<le> 2 \<and> outside F s s1) \<and>
        (\<forall>m. memory (m + 2) s \<longrightarrow> memory m s1)"
  then show "wp (if p = null then Done None else call (insert_all ins p ks) (\<lambda>ok.
      if \<not> ok then call (destroy p) (\<lambda>_. Done None)
      else call (find p k) (\<lambda>r. call (destroy p) (\<lambda>_. Done (Some r))))) ?Q s1"
  proof (elim disjE conjE exE)
    assume "p = null" "outside {} s s1" "\<not> (usable \<and> memory 2 s)"
    then show ?thesis using outside_allocated [of "{}" s s1] memory_fewer [of "length ks + 2" s 2] by (auto simp: wp_simps)
  next
    fix F
    assume p: "p \<noteq> null" and F: "set_at s1 p {} F" "F \<inter> allocated s = {}" "card F \<le> 2" "outside F s s1"
      and mem: "\<forall>m. memory (m + 2) s \<longrightarrow> memory m s1"
    have restored: "?Q r s3" if "r \<in> {None, Some (if k \<in> set ks then CLDS_ST_HASH_SET_FIND_OK else CLDS_ST_HASH_SET_FIND_NOT_FOUND)}"
      and "F \<subseteq> F'" "(F' - F) \<inter> allocated s1 = {}" "outside F' s1 s2" "outside F' s2 s3" "allocated s3 = allocated s2 - F'"
      and "memory (length ks) s1 \<longrightarrow> r \<noteq> None"
      for r F' s2 s3
    proof -
      have out: "outside F' s s3"
        using outside_trans [OF outside_trans [OF outside_mono [OF F(4) that(2)] that(4)] that(5)] .
      have "F' \<inter> allocated s = {}" using that(3) F(2) outside_allocated [OF F(4)] by blast
      moreover from this have "allocated s3 = allocated s"
        using that(6) outside_allocated [OF out] by blast
      ultimately show ?thesis using that(1,7) mem out by blast
    qed
    show ?thesis
      unfolding if_not_P [OF p]
    proof (rule wp_seq [OF insert_all [OF F(1) assms(1)]], elim exE conjE)
      fix ok s2 K' F'
      assume s2: "set_at s2 p K' F'" "ok \<longrightarrow> K' = {} \<union> set ks" "F \<subseteq> F'" "(F' - F) \<inter> allocated s1 = {}"
        "card F' \<le> card F + length ks" "outside F' s1 s2" "memory (length ks) s1 \<longrightarrow> ok"
      have room: "card F' \<le> room" using s2(5) F(3) assms(3) by simp
      note gone = destroy [OF s2(1) room]
      show "wp (if \<not> ok then call (destroy p) (\<lambda>_. Done None)
          else call (find p k) (\<lambda>r. call (destroy p) (\<lambda>_. Done (Some r)))) ?Q s2"
      proof (cases ok)
        case False
        have "wp (call (destroy p) (\<lambda>_. Done None)) ?Q s2"
          by (rule wp_seq [OF gone], unfold wp_Done) (use restored [of None, OF _ s2(3,4,6)] s2(7) False in blast)
        with False show ?thesis by simp
      next
        case True
        have "wp (call (find p k) (\<lambda>r. call (destroy p) (\<lambda>_. Done (Some r)))) ?Q s2"
        proof (rule wp_seq [OF find [OF s2(1) assms(2) room]])
          fix r s3
          assume r: "s3 = s2 \<and> r = (if k \<in> K' then CLDS_ST_HASH_SET_FIND_OK else CLDS_ST_HASH_SET_FIND_NOT_FOUND)"
          then have "r = (if k \<in> set ks then CLDS_ST_HASH_SET_FIND_OK else CLDS_ST_HASH_SET_FIND_NOT_FOUND)"
            using s2(2) True by simp
          then have "wp (call (destroy p) (\<lambda>_. Done (Some r))) ?Q s2"
            by (intro wp_seq [OF gone], unfold wp_Done) (use restored [of "Some r", OF _ s2(3,4,6)] in blast)
          with r show "wp (call (destroy p) (\<lambda>_. Done (Some r))) ?Q s3" by simp
        qed
        with True show ?thesis by simp
      qed
    qed
  qed
qed

end

section \<open>The hash set implements it\<close>

lemma malloc_plenty: "malloc_step s = (p, s') \<Longrightarrow> p \<noteq> null \<Longrightarrow> plenty 1 s"
  by (auto simp: malloc_step_def plenty_def split: list.splits if_splits)

abbreviation next_of :: "'a st_mem_scheme \<Rightarrow> ptr \<Rightarrow> ptr option" where
  "next_of s \<equiv> \<lambda>x. map_option item_next (st_items s x)"

abbreviation key_of :: "'a st_mem_scheme \<Rightarrow> ptr \<Rightarrow> ptr" where
  "key_of s \<equiv> \<lambda>x. item_key (the (st_items s x))"

text \<open>The buckets of the set at \<open>p\<close> are the chains \<open>bs\<close>, each item in the bucket of its key's hash.\<close>

definition st_buckets :: "'a st_mem_scheme \<Rightarrow> ptr \<Rightarrow> clds_st_hash_set \<Rightarrow> ptr list \<Rightarrow> ptr list list \<Rightarrow> bool" where
  "st_buckets s p h heads bs \<longleftrightarrow>
     p \<noteq> null \<and> hash_set h \<noteq> null \<and> st_sets s p = Some h \<and> st_arrays s (hash_set h) = Some heads \<and>
     bucket_count h \<noteq> 0 \<and> length bs = unat (bucket_count h) \<and> length heads = length bs \<and>
     (\<forall>i < length bs. heap_chain (next_of s) (heads ! i) (bs ! i)) \<and>
     (\<forall>i < length bs. \<forall>x \<in> set (bs ! i). bucket_index h (key_of s x) = i) \<and>
     distinct (p # hash_set h # concat bs) \<and> set (p # hash_set h # concat bs) \<subseteq> live s"

definition st_set_at :: "'a st_mem_scheme \<Rightarrow> ptr \<Rightarrow> ptr set \<Rightarrow> ptr set \<Rightarrow> bool" where
  "st_set_at s p K F \<longleftrightarrow> (\<exists>h heads bs. st_buckets s p h heads bs \<and>
     K = key_of s ` set (concat bs) \<and> F = set (p # hash_set h # concat bs))"

definition st_outside :: "ptr set \<Rightarrow> 'a st_mem_scheme \<Rightarrow> 'a st_mem_scheme \<Rightarrow> bool" where
  "st_outside F s s' \<longleftrightarrow> st_mem.more s' = st_mem.more s \<and>
     (\<forall>x. x \<notin> F \<longrightarrow> (x \<in> live s' \<longleftrightarrow> x \<in> live s)) \<and>
     (\<forall>x \<in> live s - F. st_sets s' x = st_sets s x \<and> st_arrays s' x = st_arrays s x \<and> st_items s' x = st_items s x)"

lemma bucket_index_less: "bucket_count h \<noteq> 0 \<Longrightarrow> bucket_index h k < unat (bucket_count h)"
  unfolding bucket_index_def unat_mod_distrib
  by (rule mod_less_divisor) (simp add: unat_gt_0)

lemma chain_keys: "heap_chain (next_of s) p xs \<Longrightarrow> x \<in> set xs \<Longrightarrow> st_items s x \<noteq> None"
  using heap_chain_dom by fastforce

text \<open>Looking for a key in a bucket: the result is NULL exactly when no item of the bucket has it.\<close>

lemma wp_find_in_bucket:
  assumes "heap_chain (next_of s) p xs" and "length xs < n"
    and "\<And>r. (r = null \<longleftrightarrow> key \<notin> key_of s ` set xs) \<Longrightarrow> Q r s"
  shows "wp (find_in_bucket n p key) Q s"
  using assms
proof (induction xs arbitrary: n p)
  case Nil
  then show ?case by (cases n) (auto simp: wp_simps)
next
  case (Cons x xs)
  then obtain m it where m: "n = Suc m" "p = x" "x \<noteq> null" "st_items s x = Some it"
    "heap_chain (next_of s) (item_next it) xs"
    by (cases n) auto
  show ?case
  proof (cases "item_key it = key")
    case True
    with m Cons.prems(3) [of x] show ?thesis by (auto simp: get_item_def wp_simps)
  next
    case False
    have "wp (find_in_bucket m (item_next it) key) Q s"
      by (rule Cons.IH [OF m(5)]) (use Cons.prems m False in auto)
    with m False show ?thesis by (simp add: get_item_def wp_simps)
  qed
qed

lemma st_find_law:
  assumes "st_set_at s p K F" and "k \<noteq> null" and "card F \<le> n"
  shows "wp (clds_st_hash_set_find n p k) (\<lambda>r s'. s' = s \<and>
    r = (if k \<in> K then CLDS_ST_HASH_SET_FIND_OK else CLDS_ST_HASH_SET_FIND_NOT_FOUND)) s"
proof -
  obtain h heads bs where b: "st_buckets s p h heads bs" "K = key_of s ` set (concat bs)"
    "F = set (p # hash_set h # concat bs)"
    using assms(1) by (auto simp: st_set_at_def)
  let ?i = "bucket_index h k"
  have i: "?i < length bs" "?i < length heads"
    using b(1) bucket_index_less [of h k] by (auto simp: st_buckets_def)
  have "length (concat bs) < n"
    using b assms(3) distinct_card [of "p # hash_set h # concat bs"] by (simp add: st_buckets_def del: set_concat)
  moreover have "length (bs ! ?i) \<le> length (concat bs)"
    using i(1) by (simp add: length_concat member_le_sum_list)
  ultimately have len: "length (bs ! ?i) < n" by simp
  have K: "k \<in> K \<longleftrightarrow> k \<in> key_of s ` set (bs ! ?i)"
  proof
    assume "k \<in> K"
    then obtain c x where "c \<in> set bs" "x \<in> set c" "key_of s x = k"
      using b(2) by auto
    then obtain j where "j < length bs" "x \<in> set (bs ! j)" "key_of s x = k"
      by (auto simp: in_set_conv_nth [of c])
    with b(1) have "?i = j" by (auto simp: st_buckets_def)
    with \<open>x \<in> set (bs ! j)\<close> \<open>key_of s x = k\<close> show "k \<in> key_of s ` set (bs ! ?i)" by auto
  qed (use b(2) nth_mem [OF i(1)] in auto)
  have "wp (find_in_bucket n (heads ! ?i) k) (\<lambda>it s'. s' = s \<and> (it = null \<longleftrightarrow> k \<notin> K)) s"
    by (rule wp_find_in_bucket [OF _ len]) (use b(1) i K in \<open>auto simp: st_buckets_def\<close>)
  then have "wp (call (find_in_bucket n (heads ! ?i) k) (\<lambda>it.
        Done (if it = null then CLDS_ST_HASH_SET_FIND_NOT_FOUND else CLDS_ST_HASH_SET_FIND_OK)))
      (\<lambda>r s'. s' = s \<and> r = (if k \<in> K then CLDS_ST_HASH_SET_FIND_OK else CLDS_ST_HASH_SET_FIND_NOT_FOUND)) s"
    by (rule wp_seq) (simp add: wp_simps)
  with b(1) i assms(2) show ?thesis
    by (simp add: clds_st_hash_set_find_def st_buckets_def get_set_def get_bucket_def wp_simps)
qed

lemma wp_clear_buckets:
  assumes "st_arrays s a = Some bs" and "i + k = length bs"
    and "Q () (s\<lparr>st_arrays := (st_arrays s)(a \<mapsto> take i bs @ replicate k null)\<rparr>)"
  shows "wp (clear_buckets k a i) Q s"
  using assms
proof (induction k arbitrary: i bs s)
  case 0
  then have "(st_arrays s)(a \<mapsto> take i bs @ replicate 0 null) = st_arrays s" by auto
  moreover have "s\<lparr>st_arrays := st_arrays s\<rparr> = s" by simp
  ultimately show ?case using 0(3) by (simp only: clear_buckets.simps wp_Done)
next
  case (Suc k)
  let ?s = "s\<lparr>st_arrays := (st_arrays s)(a \<mapsto> bs[i := null])\<rparr>"
  have i: "i < length bs" using Suc.prems by simp
  have "wp (clear_buckets k a (Suc i)) Q ?s"
    by (rule Suc.IH [of _ "bs[i := null]"])
      (use Suc.prems i in \<open>simp_all add: take_Suc_conv_app_nth fun_upd_def cong: if_cong\<close>)
  with Suc.prems i show ?case by (simp add: set_bucket_def wp_simps)
qed

lemma st_create_law:
  "wp (clds_st_hash_set_create (Some hash_fn) (Some compare_fn) m) (\<lambda>p s'. p = null \<and> st_outside {} s s' \<and> \<not> (m \<noteq> 0 \<and> plenty 2 s) \<or>
     p \<noteq> null \<and> (\<exists>F. st_set_at s' p {} F \<and> F \<inter> live s = {} \<and> card F \<le> 2 \<and> st_outside F s s') \<and>
       (\<forall>k. plenty (k + 2) s \<longrightarrow> plenty k s')) s"
    (is "wp _ ?Q s")
proof (cases "m = 0")
  case True
  then show ?thesis by (simp add: clds_st_hash_set_create_def wp_simps st_outside_def)
next
  case False
  show ?thesis
  proof (cases s rule: malloc_step_cases)
    case (1 ps)
    then have "\<not> plenty 2 s" using plenty_malloc(1) [of 1 s] by (auto simp: numeral_2_eq_2)
    with 1 False show ?thesis
      by (simp add: clds_st_hash_set_create_def malloc_set_def wp_simps st_outside_def)
  next
    case (2 p ps)
    let ?h = "\<lparr>compute_hash_func = (\<lambda>_. junk), key_compare_func = (\<lambda>_ _. 0), bucket_count = junk, hash_set = junk\<rparr>"
    define s1 where "s1 = s\<lparr>answers := ps, live := insert p (live s), st_sets := (st_sets s)(p \<mapsto> ?h)\<rparr>"
    have s1: "live s1 = insert p (live s)" "st_sets s1 = (st_sets s)(p \<mapsto> ?h)" by (simp_all add: s1_def)
    have mem: "plenty (Suc k) s1" if "plenty (k + 2) s" for k
    proof -
      have "plenty (Suc k) (s\<lparr>answers := ps, live := insert p (live s)\<rparr>)" by (rule plenty_malloc(2) [OF _ 2(4)]) (use that in simp)
      then show ?thesis by (simp add: s1_def plenty_def)
    qed
    show ?thesis
    proof (cases s1 rule: malloc_step_cases)
      case (1 qs)
      then have "\<not> plenty 2 s" using plenty_malloc(1) [of 0 s1] mem [of 0] by (auto simp: numeral_2_eq_2)
      with 2 False show ?thesis
        using 1
        by (auto simp: clds_st_hash_set_create_def malloc_set_def malloc_array_def free_set_def free_step_def
            set_set_def wp_simps st_outside_def s1_def)
    next
      case (2 a qs)
      define s2 where "s2 = s1\<lparr>answers := qs, live := insert a (live s1),
        st_arrays := (st_arrays s1)(a \<mapsto> replicate (unat m) junk),
        st_sets := (st_sets s)(p \<mapsto> \<lparr>compute_hash_func = hash_fn, key_compare_func = compare_fn, bucket_count = m, hash_set = a\<rparr>)\<rparr>"
      let ?s3 = "s2\<lparr>st_arrays := (st_arrays s2)(a \<mapsto> replicate (unat m) null)\<rparr>"
      have pa: "p \<noteq> null" "p \<notin> live s" "a \<noteq> null" "a \<notin> live s" "a \<noteq> p"
        using 2 \<open>p \<noteq> null\<close> \<open>p \<notin> live s\<close> s1 by auto
      have mem2: "plenty k s2" if "plenty (k + 2) s" for k
      proof -
        have "plenty k (s1\<lparr>answers := qs, live := insert a (live s1)\<rparr>)" by (rule plenty_malloc(2) [OF mem [OF that] 2(4)])
        then show ?thesis by (simp add: s2_def plenty_def)
      qed
      have m: "0 < unat m" using False by (simp add: unat_gt_0)
      have "st_set_at ?s3 p {} {p, a}"
        unfolding st_set_at_def st_buckets_def
        by (rule exI [of _ "\<lparr>compute_hash_func = hash_fn, key_compare_func = compare_fn, bucket_count = m, hash_set = a\<rparr>"],
            rule exI [of _ "replicate (unat m) null"], rule exI [of _ "replicate (unat m) []"])
          (use pa False m in \<open>auto simp: s2_def s1_def\<close>)
      moreover have "st_outside {p, a} s ?s3"
        by (auto simp: st_outside_def s2_def s1_def)
      moreover have "\<forall>k. plenty (k + 2) s \<longrightarrow> plenty k ?s3" using mem2 plenty_cong [of ?s3 s2] by simp
      moreover have "st_arrays s2 a = Some (replicate (unat m) junk)" "card {p, a} \<le> 2" "{p, a} \<inter> live s = {}" using pa by (simp_all add: s2_def)
      ultimately have "wp (clear_buckets (unat m) a 0) (\<lambda>_ s'. (\<exists>F. st_set_at s' p {} F \<and> F \<inter> live s = {} \<and> card F \<le> 2 \<and> st_outside F s s') \<and>
          (\<forall>k. plenty (k + 2) s \<longrightarrow> plenty k s')) s2"
        by (intro wp_clear_buckets [of _ _ "replicate (unat m) junk"]) (simp_all, blast)
      then have "wp (call (clear_buckets (unat m) a 0) (\<lambda>_. Done p)) ?Q s2"
        by (rule wp_seq) (use pa in \<open>simp add: wp_simps\<close>)
      moreover define Q where "Q = ?Q"
      ultimately have "wp (call (clear_buckets (unat m) a 0) (\<lambda>_. Done p)) Q s2" by simp
      with 2 \<open>malloc_step s = _\<close> pa False show ?thesis
        unfolding Q_def [symmetric]
        by (simp add: clds_st_hash_set_create_def malloc_set_def malloc_array_def set_set_def wp_simps
            s1_def [symmetric] s2_def s1)
    qed
  qed
qed

text \<open>Putting a new item in front of one bucket.\<close>

lemma concat_cons_bucket:
  assumes "i < length bs"
  shows "set (concat (bs[i := x # bs ! i])) = insert x (set (concat bs))"
    and "distinct (concat (bs[i := x # bs ! i])) \<longleftrightarrow> x \<notin> set (concat bs) \<and> distinct (concat bs)"
proof -
  let ?l = "take i bs" and ?r = "drop (Suc i) bs"
  have bs: "bs = ?l @ bs ! i # ?r" using assms by (simp add: id_take_nth_drop)
  have bs': "bs[i := x # bs ! i] = ?l @ (x # bs ! i) # ?r" using assms by (simp add: upd_conv_take_nth_drop)
  have c: "concat bs = concat ?l @ bs ! i @ concat ?r"
    by (subst bs) simp
  have c': "concat (bs[i := x # bs ! i]) = concat ?l @ (x # bs ! i) @ concat ?r"
    unfolding bs' by simp
  show "set (concat (bs[i := x # bs ! i])) = insert x (set (concat bs))"
    unfolding c c' by auto
  show "distinct (concat (bs[i := x # bs ! i])) \<longleftrightarrow> x \<notin> set (concat bs) \<and> distinct (concat bs)"
    unfolding c c' by auto
qed

lemma st_buckets_insert:
  fixes ps :: "ptr list"
  assumes b: "st_buckets s p h heads bs" and x: "x \<notin> live s" "x \<noteq> null" and i: "i = bucket_index h k"
  defines "s' \<equiv> s\<lparr>answers := ps, live := insert x (live s),
      st_items := (st_items s)(x \<mapsto> \<lparr>item_next = heads ! i, item_key = k\<rparr>),
      st_arrays := (st_arrays s)(hash_set h \<mapsto> heads[i := x])\<rparr>"
  shows "st_buckets s' p h (heads[i := x]) (bs[i := x # bs ! i])"
    and "key_of s' ` set (concat (bs[i := x # bs ! i])) = insert k (key_of s ` set (concat bs))"
proof -
  have len: "i < length bs" "length heads = length bs"
    using b bucket_index_less [of h k] i by (auto simp: st_buckets_def)
  have fresh: "x \<notin> set (concat bs)" "x \<noteq> p" "x \<noteq> hash_set h"
    using b x by (auto simp: st_buckets_def)
  then have fresh_j: "x \<notin> set (bs ! j)" if "j < length bs" for j
    using nth_mem [OF that] by auto
  have nxt: "next_of s' = (next_of s)(x \<mapsto> heads ! i)"
    by (auto simp: s'_def)
  have key: "key_of s' y = (if y = x then k else key_of s y)" for y
    by (simp add: s'_def)
  have chain: "heap_chain (next_of s') (heads[i := x] ! j) (bs[i := x # bs ! i] ! j)" if j: "j < length bs" for j
  proof -
    have "heap_chain (next_of s) (heads ! j) (bs ! j)" using b j by (simp add: st_buckets_def)
    then show ?thesis
      unfolding nxt using j len fresh_j [OF j] x(2) by (cases "j = i") simp_all
  qed
  have "bucket_index h (key_of s' y) = j" if "j < length bs" "y \<in> set (bs[i := x # bs ! i] ! j)" for j y
    using b that len fresh_j [OF that(1)] i by (cases "j = i") (auto simp: key st_buckets_def)
  then show "st_buckets s' p h (heads[i := x]) (bs[i := x # bs ! i])"
    using b chain fresh concat_cons_bucket [OF len(1), of x] len
    unfolding st_buckets_def by (auto simp: s'_def)
  show "key_of s' ` set (concat (bs[i := x # bs ! i])) = insert k (key_of s ` set (concat bs))"
    using fresh(1) unfolding concat_cons_bucket(1) [OF len(1)] by (auto simp: key image_iff)
qed

lemma st_insert_law:
  assumes "st_set_at s p K F" and "k \<noteq> null"
  shows "wp (clds_st_hash_set_insert p k) (\<lambda>r s'. r = CLDS_ST_HASH_SET_INSERT_ERROR \<and> st_set_at s' p K F \<and> st_outside F s s' \<and> \<not> plenty 1 s \<or>
      r = CLDS_ST_HASH_SET_INSERT_OK \<and>
        (\<exists>x. x \<notin> live s \<and> st_set_at s' p (insert k K) (insert x F) \<and> st_outside (insert x F) s s') \<and>
        plenty 1 s \<and> (\<forall>m. plenty (Suc m) s \<longrightarrow> plenty m s')) s"
proof -
  obtain h heads bs where b: "st_buckets s p h heads bs" "K = key_of s ` set (concat bs)"
    "F = set (p # hash_set h # concat bs)"
    using assms(1) by (auto simp: st_set_at_def)
  let ?i = "bucket_index h k"
  have p: "p \<noteq> null" "st_sets s p = Some h" "st_arrays s (hash_set h) = Some heads"
    and i: "?i < length bs" "length heads = length bs"
    using b(1) bucket_index_less [of h k] by (auto simp: st_buckets_def)
  show ?thesis
  proof (cases s rule: malloc_step_cases)
    case (1 ps)
    have "st_set_at (s\<lparr>answers := ps\<rparr>) p K F"
      unfolding st_set_at_def using b by (intro exI [of _ h] exI [of _ heads] exI [of _ bs]) (simp add: st_buckets_def)
    moreover have "\<not> plenty 1 s" using plenty_malloc(1) [of 0 s] 1 by auto
    ultimately show ?thesis
      using 1 p assms(2) by (simp add: clds_st_hash_set_insert_def get_set_def malloc_item_def wp_simps st_outside_def)
  next
    case (2 x ps)
    let ?s = "s\<lparr>answers := ps, live := insert x (live s),
      st_items := (st_items s)(x \<mapsto> \<lparr>item_next = heads ! ?i, item_key = k\<rparr>),
      st_arrays := (st_arrays s)(hash_set h \<mapsto> heads[?i := x])\<rparr>"
    have "st_set_at ?s p (insert k K) (insert x F)"
      unfolding st_set_at_def
      using st_buckets_insert [OF b(1) 2(3,1) refl, of k ps] concat_cons_bucket(1) [OF i(1), of x] b(2,3)
      by (intro exI [of _ h] exI [of _ "heads[?i := x]"] exI [of _ "bs[?i := x # bs ! ?i]"]) auto
    moreover have "st_outside (insert x F) s ?s"
      using b(3) by (auto simp: st_outside_def)
    moreover have "plenty 1 s" by (rule malloc_plenty [OF 2(4,1)])
    moreover have "plenty m ?s" if "plenty (Suc m) s" for m
      using plenty_malloc(2) [OF that 2(4)] by (simp add: plenty_def)
    ultimately show ?thesis
      using 2 p i assms(2)
      by (auto simp: clds_st_hash_set_insert_def get_set_def malloc_item_def set_item_def get_bucket_def set_bucket_def wp_simps)
  qed
qed

text \<open>Destroying frees the items, the array and the struct, each once.\<close>

definition without_items :: "ptr set \<Rightarrow> 'a st_mem_scheme \<Rightarrow> 'a st_mem_scheme" where
  "without_items X s = s\<lparr>live := live s - X, st_items := st_items s |` (- X)\<rparr>"

lemma without_items_simps [simp]:
  "live (without_items X s) = live s - X"
  "st_items (without_items X s) = st_items s |` (- X)"
  "st_sets (without_items X s) = st_sets s"
  "st_arrays (without_items X s) = st_arrays s"
  "st_mem.more (without_items X s) = st_mem.more s"
  by (simp_all add: without_items_def)

lemma without_items_Un: "without_items Y (without_items X s) = without_items (X \<union> Y) s"
proof -
  have "live s - X - Y = live s - (X \<union> Y)" by auto
  moreover have "st_items s |` (- X) |` (- Y) = st_items s |` (- (X \<union> Y))" by simp
  ultimately show ?thesis by (simp add: without_items_def)
qed

lemma without_items_empty [simp]: "without_items {} s = s"
  by (simp add: without_items_def restrict_map_def)

lemma chain_without_items:
  assumes "heap_chain (next_of s) p xs" and "set xs \<inter> X = {}"
  shows "heap_chain (next_of (without_items X s)) p xs"
proof -
  have "heap_chain (next_of (without_items X s)) p xs = heap_chain (next_of s) p xs"
    by (rule heap_chain_cong) (use assms(2) in \<open>auto simp: restrict_map_def\<close>)
  with assms(1) show ?thesis by simp
qed

lemma wp_free_bucket:
  assumes "heap_chain (next_of s) p xs" and "set xs \<subseteq> live s" and "length xs < n"
    and "Q () (without_items (set xs) s)"
  shows "wp (free_bucket n p) Q s"
  using assms
proof (induction xs arbitrary: n p s)
  case Nil
  then show ?case by (cases n) (simp_all add: wp_simps)
next
  case (Cons x xs)
  then obtain m it where m: "n = Suc m" "p = x" "x \<noteq> null" "st_items s x = Some it"
    "heap_chain (next_of s) (item_next it) xs"
    by (cases n) auto
  let ?s = "without_items {x} s"
  have x: "x \<notin> set xs" using heap_chain_distinct [OF Cons.prems(1)] by simp
  have "heap_chain (next_of ?s) (item_next it) xs"
    by (rule chain_without_items [OF m(5)]) (use x in simp)
  then have "wp (free_bucket m (item_next it)) Q ?s"
    by (rule Cons.IH) (use Cons.prems x m in \<open>auto simp: without_items_Un\<close>)
  moreover have "st_items_update (\<lambda>m. m(x := None)) (s\<lparr>live := live s - {x}\<rparr>) = ?s"
    by (cases s) (auto simp: without_items_def restrict_map_def)
  ultimately show ?case
    using Cons.prems(2) m by (simp add: get_item_def free_item_def free_step_def wp_simps)
qed

lemma wp_free_buckets:
  assumes "st_arrays s a = Some heads" and "length heads = length bs" and "i + k = length bs"
    and "\<And>j. i \<le> j \<Longrightarrow> j < length bs \<Longrightarrow> heap_chain (next_of s) (heads ! j) (bs ! j)"
    and "set (concat (drop i bs)) \<subseteq> live s" and "distinct (concat (drop i bs))"
    and "\<And>j. j < length bs \<Longrightarrow> length (bs ! j) < n"
    and "Q () (without_items (set (concat (drop i bs))) s)"
  shows "wp (free_buckets n k a i) Q s"
  using assms
proof (induction k arbitrary: i s)
  case 0
  then show ?case by (simp add: wp_simps)
next
  case (Suc k)
  have i: "i < length bs" using Suc.prems(3) by simp
  have drop: "drop i bs = bs ! i # drop (Suc i) bs" using i by (simp add: Cons_nth_drop_Suc)
  let ?s = "without_items (set (bs ! i)) s"
  have fresh: "set (bs ! i) \<inter> set (concat (drop (Suc i) bs)) = {}"
    using Suc.prems(6) unfolding drop by auto
  have "wp (free_bucket n (heads ! i)) (\<lambda>_. wp (free_buckets n k a (Suc i)) Q) s"
  proof (rule wp_free_bucket [of _ _ "bs ! i"])
    show "wp (free_buckets n k a (Suc i)) Q ?s"
    proof (rule Suc.IH)
      show "heap_chain (next_of ?s) (heads ! j) (bs ! j)" if j: "Suc i \<le> j" "j < length bs" for j
      proof -
        have "bs ! j \<in> set (drop (Suc i) bs)" using j by (auto simp: in_set_conv_nth intro!: exI [of _ "j - Suc i"])
        then have "set (bs ! j) \<inter> set (bs ! i) = {}" using fresh by auto
        then show ?thesis
          using Suc.prems(4) [of j] j by (intro chain_without_items) simp_all
      qed
      show "Q () (without_items (set (concat (drop (Suc i) bs))) ?s)"
        using Suc.prems(8) unfolding drop by (simp add: without_items_Un)
    qed (use Suc.prems fresh drop in \<open>auto simp: disjoint_iff\<close>)
  qed (use Suc.prems i drop in auto)
  then show ?case using Suc.prems(1,2) i by (simp add: get_bucket_def wp_simps)
qed

lemma st_destroy_law:
  assumes "st_set_at s p K F" and "card F \<le> n"
  shows "wp (clds_st_hash_set_destroy n p) (\<lambda>_ s'. st_outside F s s' \<and> live s' = live s - F) s"
proof -
  obtain h heads bs where b: "st_buckets s p h heads bs" "F = set (p # hash_set h # concat bs)"
    using assms(1) by (auto simp: st_set_at_def)
  have len: "length (bs ! j) < n" if "j < length bs" for j
  proof -
    have "length (concat bs) < n"
      using b assms(2) distinct_card [of "p # hash_set h # concat bs"] by (simp add: st_buckets_def del: set_concat)
    moreover have "length (bs ! j) \<le> length (concat bs)"
      using that by (simp add: length_concat member_le_sum_list)
    ultimately show ?thesis by simp
  qed
  let ?s = "without_items (set (concat bs)) s"
  let ?s' = "?s\<lparr>live := live ?s - {hash_set h} - {p}, st_arrays := (st_arrays s)(hash_set h := None),
    st_sets := (st_sets s)(p := None)\<rparr>"
  have "st_outside F s ?s' \<and> live ?s' = live s - F"
    using b(2) by (auto simp: st_outside_def without_items_def restrict_map_def)
  moreover have "?s\<lparr>live := live s - set (concat bs) - {hash_set h}, st_arrays := (st_arrays s)(hash_set h := None),
      live := live s - set (concat bs) - {hash_set h} - {p}, st_sets := (st_sets s)(p := None)\<rparr> = ?s'"
    by (simp add: without_items_def)
  ultimately have "wp (call (free_array (hash_set h)) (\<lambda>_. free_set p)) (\<lambda>_ s'. st_outside F s s' \<and> live s' = live s - F) ?s"
    using b by (auto simp: free_array_def free_set_def free_step_def wp_simps st_buckets_def st_outside_def restrict_map_def)
  then have "wp (free_buckets n (unat (bucket_count h)) (hash_set h) 0)
      (\<lambda>_. wp (call (free_array (hash_set h)) (\<lambda>_. free_set p)) (\<lambda>_ s'. st_outside F s s' \<and> live s' = live s - F)) s"
    using b len by (intro wp_free_buckets [where bs = bs and heads = heads]) (auto simp: st_buckets_def)
  then show ?thesis
    using b by (simp add: clds_st_hash_set_destroy_def get_set_def st_buckets_def wp_simps)
qed

lemma st_outside_trans: "st_outside F s s' \<Longrightarrow> st_outside F s' s'' \<Longrightarrow> st_outside F s s''"
  by (simp add: st_outside_def)

lemma st_outside_mono: "st_outside F s s' \<Longrightarrow> F \<subseteq> F' \<Longrightarrow> st_outside F' s s'"
  by (auto simp: st_outside_def)

interpretation st: pointer_set st_set_at st_outside live n plenty "m \<noteq> 0"
    "clds_st_hash_set_create (Some hash_fn) (Some compare_fn) m" clds_st_hash_set_insert
    "clds_st_hash_set_find n" "clds_st_hash_set_destroy n"
  for n hash_fn compare_fn m
proof (unfold_locales, goal_cases)
  case (1 s) show ?case by (rule st_create_law)
next
  case (2 s p K F k) then show ?case by (rule st_insert_law)
next
  case (3 s p K F k) then show ?case by (rule st_find_law)
next
  case (4 s p K F) then show ?case by (rule st_destroy_law)
next
  case (5 k s l) then show ?case by (rule plenty_fewer)
next
  case (6 s p K F) then show ?case by (auto simp: st_set_at_def)
next
  case (7 s p K F) then show ?case by (auto simp: st_set_at_def st_buckets_def)
next
  case (8 F s s' x) then show ?case by (simp add: st_outside_def)
next
  case (9 F s) show ?case by (simp add: st_outside_def)
next
  case (10 F s s' s'') then show ?case by (rule st_outside_trans)
next
  case (11 F s s' F') then show ?case by (rule st_outside_mono)
qed

section \<open>Properties\<close>

text \<open>
  C39: a set that is created, filled with any keys and asked for \<open>k\<close> answers exactly whether \<open>k\<close> is
  among them, whatever the hash function and the number of buckets (collisions included); there is no
  answer only when there are no buckets or an allocation failed; and it is destroyed without a leak: the allocated objects at the end are
  those at the start, and none of those was changed.
\<close>

theorem st_hash_set_membership:
  assumes "null \<notin> set ks" and "k \<noteq> null" and "length ks + 2 \<le> n"
  shows "wp (member_through_set (clds_st_hash_set_create (Some hash_fn) (Some compare_fn) m)
        clds_st_hash_set_insert (clds_st_hash_set_find n) (clds_st_hash_set_destroy n) ks k)
      (\<lambda>r s'. r \<in> {None, Some (if k \<in> set ks then CLDS_ST_HASH_SET_FIND_OK else CLDS_ST_HASH_SET_FIND_NOT_FOUND)} \<and>
        (m \<noteq> 0 \<and> plenty (length ks + 2) s \<longrightarrow> r \<noteq> None) \<and>
        live s' = live s \<and> (\<exists>F. F \<inter> live s = {} \<and> st_outside F s s')) s"
  by (rule st.member_through_set [OF assms])


definition st_example :: st_mem where
  "st_example = \<lparr>live = {}, answers = [8, 16, 24, 32, 40], st_sets = Map.empty, st_arrays = Map.empty, st_items = Map.empty\<rparr>"

text \<open>One bucket for two keys.\<close>

theorem st_hash_set_membership_witness:
  "wp (member_through_set (clds_st_hash_set_create (Some (\<lambda>_. 7)) (Some (\<lambda>_ _. 0)) 1)
        clds_st_hash_set_insert (clds_st_hash_set_find 4) (clds_st_hash_set_destroy 4) [64, 96] 64)
      (\<lambda>r s'. r = Some CLDS_ST_HASH_SET_FIND_OK \<and> live s' = {} \<and>
        (\<exists>F :: ptr set. F \<inter> {} = {} \<and> st_outside F st_example s')) st_example"
proof -
  have "plenty (length [64, 96 :: ptr] + 2) st_example" by (simp add: plenty_def st_example_def aligned_def)
  then show ?thesis
    by (intro wp_mono [OF st_hash_set_membership]) (simp, simp, simp, auto simp: st_example_def)
qed




end
