(* ===== verification/Clds_Hazard_Pointers.thy ===== *)
theory Clds_Hazard_Pointers
  imports Clds_St_Hash_Set "HOL-Library.Multiset"
begin

text \<open>
  Hazard pointers, \<open>src/src/clds_hazard_pointers.c\<close>. A registered thread publishes the nodes it is
  using in a list of hazard pointer records; a retired node is put on the thread's reclaim list
  and is given to its reclaim function only when a scan finds no record of an active thread that
  holds it.

  The structs are maps from addresses. The third-party components are parameters: \<open>X\<close> collects the
  operations of the inactive thread queue (c-util's TQUEUE) and of the worker thread, which act on
  a state of their own, the field \<open>outer\<close>; \<open>rf f n\<close> is the call of the function pointer \<open>f\<close> on \<open>n\<close>.
  The loops have a bound \<open>b\<close>; the length of every list that is walked is below it.
\<close>

record clds_hazard_pointer_record =
  hp_node :: ptr
  hp_next :: ptr

record clds_reclaim_list_entry =
  re_next :: ptr
  re_node :: ptr
  re_reclaim :: ptr

record clds_hazard_pointers_thread =
  th_next :: ptr
  th_hazard_pointers :: ptr
  free_pointers :: ptr
  pointers :: ptr
  reclaim_list :: ptr
  active :: "32 word"
  reclaim_list_entry_count :: "64 word"

record clds_hazard_pointers =
  hp_thread_cleanup_worker :: ptr
  reclaim_threshold :: "64 word"
  hp_head :: ptr
  epoch :: "64 word"
  pending_reclaim_calls :: "32 word"
  inactive_threads :: ptr
  pending_reclaim_list :: ptr

record inactive_thread =
  current_epoch_value :: "64 word"
  hp_thread_handle :: ptr

record 'q hp_mem = st_mem +
  hp_records :: "ptr \<Rightarrow> clds_hazard_pointer_record option"
  hp_entries :: "ptr \<Rightarrow> clds_reclaim_list_entry option"
  hp_threads :: "ptr \<Rightarrow> clds_hazard_pointers_thread option"
  hp_structs :: "ptr \<Rightarrow> clds_hazard_pointers option"
  outer :: 'q

text \<open>The third-party operations. \<open>tqueue_pop\<close> takes the condition under which the oldest element may be popped.\<close>

record 'q externals =
  tqueue_create :: "'q \<Rightarrow> ptr \<times> 'q"
  tqueue_push :: "ptr \<Rightarrow> inactive_thread \<Rightarrow> 'q \<Rightarrow> bool \<times> 'q"
  tqueue_pop :: "ptr \<Rightarrow> (inactive_thread \<Rightarrow> bool) \<Rightarrow> 'q \<Rightarrow> inactive_thread option \<times> 'q"
  tqueue_release :: "ptr \<Rightarrow> 'q \<Rightarrow> unit \<times> 'q"
  worker_thread_create :: "ptr \<Rightarrow> 'q \<Rightarrow> ptr \<times> 'q"
  worker_thread_open :: "ptr \<Rightarrow> 'q \<Rightarrow> int_result \<times> 'q"
  worker_thread_close :: "ptr \<Rightarrow> 'q \<Rightarrow> unit \<times> 'q"
  worker_thread_destroy :: "ptr \<Rightarrow> 'q \<Rightarrow> unit \<times> 'q"
  worker_thread_schedule_process :: "ptr \<Rightarrow> 'q \<Rightarrow> bool \<times> 'q"

definition external :: "('q \<Rightarrow> 'v \<times> 'q) \<Rightarrow> (('q, 'a) hp_mem_scheme, 'v) prog" where
  "external f = atomic (\<lambda>s. let (v, q) = f (outer s) in Some (v, s\<lparr>outer := q\<rparr>))"

abbreviation on_record :: "ptr \<Rightarrow> (clds_hazard_pointer_record \<Rightarrow> 'v \<times> clds_hazard_pointer_record option) \<Rightarrow> (('q, 'a) hp_mem_scheme, 'v) prog" where
  "on_record \<equiv> access hp_records (\<lambda>m. hp_records_update (\<lambda>_. m))"

abbreviation on_entry :: "ptr \<Rightarrow> (clds_reclaim_list_entry \<Rightarrow> 'v \<times> clds_reclaim_list_entry option) \<Rightarrow> (('q, 'a) hp_mem_scheme, 'v) prog" where
  "on_entry \<equiv> access hp_entries (\<lambda>m. hp_entries_update (\<lambda>_. m))"

abbreviation on_thread :: "ptr \<Rightarrow> (clds_hazard_pointers_thread \<Rightarrow> 'v \<times> clds_hazard_pointers_thread option) \<Rightarrow> (('q, 'a) hp_mem_scheme, 'v) prog" where
  "on_thread \<equiv> access hp_threads (\<lambda>m. hp_threads_update (\<lambda>_. m))"

abbreviation on_hps :: "ptr \<Rightarrow> (clds_hazard_pointers \<Rightarrow> 'v \<times> clds_hazard_pointers option) \<Rightarrow> (('q, 'a) hp_mem_scheme, 'v) prog" where
  "on_hps \<equiv> access hp_structs (\<lambda>m. hp_structs_update (\<lambda>_. m))"

definition malloc_record :: "(('q, 'a) hp_mem_scheme, ptr) prog" where
  "malloc_record = new_obj hp_records (\<lambda>m. hp_records_update (\<lambda>_. m)) \<lparr>hp_node = junk, hp_next = junk\<rparr>"

definition malloc_entry :: "(('q, 'a) hp_mem_scheme, ptr) prog" where
  "malloc_entry = new_obj hp_entries (\<lambda>m. hp_entries_update (\<lambda>_. m)) \<lparr>re_next = junk, re_node = junk, re_reclaim = junk\<rparr>"

definition malloc_thread :: "(('q, 'a) hp_mem_scheme, ptr) prog" where
  "malloc_thread = new_obj hp_threads (\<lambda>m. hp_threads_update (\<lambda>_. m))
     \<lparr>th_next = junk, th_hazard_pointers = junk, free_pointers = junk, pointers = junk, reclaim_list = junk,
       active = 0xCDCDCDCD, reclaim_list_entry_count = junk\<rparr>"

definition malloc_hps :: "(('q, 'a) hp_mem_scheme, ptr) prog" where
  "malloc_hps = new_obj hp_structs (\<lambda>m. hp_structs_update (\<lambda>_. m))
     \<lparr>hp_thread_cleanup_worker = junk, reclaim_threshold = junk, hp_head = junk, epoch = junk,
       pending_reclaim_calls = 0xCDCDCDCD, inactive_threads = junk, pending_reclaim_list = junk\<rparr>"

abbreviation free_record :: "ptr \<Rightarrow> (('q, 'a) hp_mem_scheme, unit) prog" where
  "free_record \<equiv> free_obj hp_records (\<lambda>m. hp_records_update (\<lambda>_. m))"

abbreviation free_entry :: "ptr \<Rightarrow> (('q, 'a) hp_mem_scheme, unit) prog" where
  "free_entry \<equiv> free_obj hp_entries (\<lambda>m. hp_entries_update (\<lambda>_. m))"

abbreviation free_thread :: "ptr \<Rightarrow> (('q, 'a) hp_mem_scheme, unit) prog" where
  "free_thread \<equiv> free_obj hp_threads (\<lambda>m. hp_threads_update (\<lambda>_. m))"

abbreviation free_hps :: "ptr \<Rightarrow> (('q, 'a) hp_mem_scheme, unit) prog" where
  "free_hps \<equiv> free_obj hp_structs (\<lambda>m. hp_structs_update (\<lambda>_. m))"

section \<open>Helper functions\<close>

definition hp_key_hash :: "ptr \<Rightarrow> 64 word" where
  "hp_key_hash key = key"

definition hp_key_compare :: "ptr \<Rightarrow> ptr \<Rightarrow> int" where
  "hp_key_compare key1 key2 = (if key1 < key2 then - 1 else if key1 > key2 then 1 else 0)"

definition add_to_inactive_threads :: "'q externals \<Rightarrow> ptr \<Rightarrow> ptr \<Rightarrow> (('q, 'a) hp_mem_scheme, int_result) prog" where
  "add_to_inactive_threads X h t =
     call (on_hps h (rd epoch)) (\<lambda>e.
     call (on_hps h (rd inactive_threads)) (\<lambda>q.
     call (external (tqueue_push X q \<lparr>current_epoch_value = e, hp_thread_handle = t\<rparr>)) (\<lambda>ok.
     Done (if ok then Result_0 else MU_FAILURE))))"

text \<open>One of the two loops of \<open>free_thread_data\<close>.\<close>

fun free_record_list :: "nat \<Rightarrow> ptr \<Rightarrow> (('q, 'a) hp_mem_scheme, unit) prog" where
  "free_record_list 0 hazard_ptr = Spin"
| "free_record_list (Suc n) hazard_ptr =
     (if hazard_ptr = null then Done ()
      else
        call (on_record hazard_ptr (rd hp_next)) (\<lambda>next_hazard_ptr.
        call (free_record hazard_ptr) (\<lambda>_.
        free_record_list n next_hazard_ptr)))"

definition free_thread_data :: "nat \<Rightarrow> ptr \<Rightarrow> (('q, 'a) hp_mem_scheme, unit) prog" where
  "free_thread_data b t =
     call (on_thread t (rd pointers)) (\<lambda>hazard_ptr.
     call (free_record_list b hazard_ptr) (\<lambda>_.
     call (on_thread t (rd free_pointers)) (\<lambda>hazard_ptr.
     call (free_record_list b hazard_ptr) (\<lambda>_.
     free_thread t))))"

definition is_epoch_lower :: "64 word \<Rightarrow> inactive_thread \<Rightarrow> bool" where
  "is_epoch_lower e t \<longleftrightarrow> sint (current_epoch_value t) < sint e"

fun free_inactive_loop :: "'q externals \<Rightarrow> nat \<Rightarrow> nat \<Rightarrow> ptr \<Rightarrow> 64 word \<Rightarrow> (('q, 'a) hp_mem_scheme, unit) prog" where
  "free_inactive_loop X b 0 h e = Spin"
| "free_inactive_loop X b (Suc n) h e =
     call (on_hps h (rd inactive_threads)) (\<lambda>q.
     call (external (tqueue_pop X q (is_epoch_lower e))) (\<lambda>r.
     case r of
       None \<Rightarrow> Done ()
     | Some t \<Rightarrow>
         call (free_thread_data b (hp_thread_handle t)) (\<lambda>_.
         free_inactive_loop X b n h e)))"

definition free_inactive_threads_in_previous_epochs ::
  "'q externals \<Rightarrow> nat \<Rightarrow> ptr \<Rightarrow> 64 word \<Rightarrow> (('q, 'a) hp_mem_scheme, unit) prog" where
  "free_inactive_threads_in_previous_epochs X b h e = free_inactive_loop X b b h e"

section \<open>The reclaim cycle\<close>

text \<open>The records of one thread; the result is the record at which an insertion failed, NULL if none did.\<close>

fun collect_pointers :: "nat \<Rightarrow> ptr \<Rightarrow> ptr \<Rightarrow> (('q, 'a) hp_mem_scheme, ptr) prog" where
  "collect_pointers 0 all_hps_set hp = Spin"
| "collect_pointers (Suc n) all_hps_set hp =
     (if hp = null then Done null
      else
        call (on_record hp (rd hp_next)) (\<lambda>next_hazard_pointer.
        call (on_record hp (rd hp_node)) (\<lambda>node.
        if node \<noteq> null then
          call (clds_st_hash_set_insert all_hps_set node) (\<lambda>insert_result.
          if insert_result = CLDS_ST_HASH_SET_INSERT_OK \<or> insert_result = CLDS_ST_HASH_SET_INSERT_KEY_ALREADY_EXISTS
          then collect_pointers n all_hps_set next_hazard_pointer
          else Done hp)
        else collect_pointers n all_hps_set next_hazard_pointer)))"

text \<open>All threads; the result is the thread at which the collection stopped, NULL if it went through.\<close>

fun collect_threads :: "nat \<Rightarrow> nat \<Rightarrow> ptr \<Rightarrow> ptr \<Rightarrow> (('q, 'a) hp_mem_scheme, ptr) prog" where
  "collect_threads b 0 all_hps_set current_thread = Spin"
| "collect_threads b (Suc n) all_hps_set current_thread =
     (if current_thread = null then Done null
      else
        call (on_thread current_thread (rd th_next)) (\<lambda>next_thread.
        call (on_thread current_thread (rd active)) (\<lambda>is_active.
        if is_active = 1 then
          call (on_thread current_thread (rd pointers)) (\<lambda>hp.
          call (collect_pointers b all_hps_set hp) (\<lambda>hp.
          if hp \<noteq> null then Done current_thread
          else collect_threads b n all_hps_set next_thread))
        else collect_threads b n all_hps_set next_thread)))"

text \<open>The loop through the thread's own reclaim list.\<close>

fun reclaim_retired :: "(ptr \<Rightarrow> ptr \<Rightarrow> (('q, 'a) hp_mem_scheme, unit) prog) \<Rightarrow> nat \<Rightarrow> nat \<Rightarrow> ptr \<Rightarrow> ptr \<Rightarrow> ptr \<Rightarrow> ptr \<Rightarrow>
    (('q, 'a) hp_mem_scheme, unit) prog" where
  "reclaim_retired rf b 0 all_hps_set t current prev = Spin"
| "reclaim_retired rf b (Suc n) all_hps_set t current prev =
     (if current = null then Done ()
      else
        call (on_entry current (rd re_node)) (\<lambda>node.
        call (clds_st_hash_set_find b all_hps_set node) (\<lambda>find_result.
        case find_result of
          CLDS_ST_HASH_SET_FIND_ERROR \<Rightarrow> Done ()
        | CLDS_ST_HASH_SET_FIND_NOT_FOUND \<Rightarrow>
            call (on_entry current (rd re_reclaim)) (\<lambda>f.
            call (on_entry current (rd re_node)) (\<lambda>node.
            call (rf f node) (\<lambda>_.
            call (on_entry current (rd re_next)) (\<lambda>nxt.
            call (if prev = null then on_thread t (wr reclaim_list_update nxt)
                  else on_entry prev (wr re_next_update nxt)) (\<lambda>_.
            call (free_entry current) (\<lambda>_.
            call (if prev = null then on_thread t (rd reclaim_list)
                  else on_entry prev (rd re_next)) (\<lambda>current.
            call (on_thread t (add_fetch reclaim_list_entry_count reclaim_list_entry_count_update (- 1))) (\<lambda>_.
            reclaim_retired rf b n all_hps_set t current prev))))))))
        | CLDS_ST_HASH_SET_FIND_OK \<Rightarrow>
            call (on_entry current (rd re_next)) (\<lambda>nxt.
            reclaim_retired rf b n all_hps_set t nxt current))))"

text \<open>The sweep of the detached pending list; it returns the first and last entry of what is still held.\<close>

fun sweep_pending :: "(ptr \<Rightarrow> ptr \<Rightarrow> (('q, 'a) hp_mem_scheme, unit) prog) \<Rightarrow> nat \<Rightarrow> nat \<Rightarrow> ptr \<Rightarrow> ptr \<Rightarrow> ptr \<Rightarrow> ptr \<Rightarrow>
    (('q, 'a) hp_mem_scheme, ptr \<times> ptr) prog" where
  "sweep_pending rf b 0 all_hps_set pending_entry still_held_first still_held_last = Spin"
| "sweep_pending rf b (Suc n) all_hps_set pending_entry still_held_first still_held_last =
     (if pending_entry = null then Done (still_held_first, still_held_last)
      else
        call (on_entry pending_entry (rd re_next)) (\<lambda>next_pending_entry.
        call (on_entry pending_entry (rd re_node)) (\<lambda>node.
        call (clds_st_hash_set_find b all_hps_set node) (\<lambda>pending_find_result.
        if pending_find_result = CLDS_ST_HASH_SET_FIND_NOT_FOUND then
          call (on_entry pending_entry (rd re_reclaim)) (\<lambda>f.
          call (on_entry pending_entry (rd re_node)) (\<lambda>node.
          call (rf f node) (\<lambda>_.
          call (free_entry pending_entry) (\<lambda>_.
          sweep_pending rf b n all_hps_set next_pending_entry still_held_first still_held_last))))
        else
          call (on_entry pending_entry (wr re_next_update still_held_first)) (\<lambda>_.
          sweep_pending rf b n all_hps_set next_pending_entry pending_entry
            (if still_held_last = null then pending_entry else still_held_last))))))"

text \<open>
  Pushing a chain of entries onto the pending list, bounded by \<open>n\<close> attempts; the reclaim cycle and
  the unregistration of a thread contain this loop.
\<close>

fun push_pending :: "nat \<Rightarrow> ptr \<Rightarrow> ptr \<Rightarrow> ptr \<Rightarrow> (('q, 'a) hp_mem_scheme, unit) prog" where
  "push_pending 0 h first_entry last_entry = Spin"
| "push_pending (Suc n) h first_entry last_entry =
     call (on_hps h (rd pending_reclaim_list)) (\<lambda>current_pending_head.
     call (on_entry last_entry (wr re_next_update current_pending_head)) (\<lambda>_.
     call (on_hps h (cas pending_reclaim_list pending_reclaim_list_update first_entry current_pending_head)) (\<lambda>old.
     if old \<noteq> current_pending_head then push_pending n h first_entry last_entry else Done ())))"

text \<open>The end of a cycle: the epoch advances, and inactive threads of earlier epochs are freed, when no other cycle is running.\<close>

definition finish_reclaim_call :: "'q externals \<Rightarrow> nat \<Rightarrow> ptr \<Rightarrow> (('q, 'a) hp_mem_scheme, unit) prog" where
  "finish_reclaim_call X b h =
     call (on_hps h (rd epoch)) (\<lambda>current_epoch.
     call (on_hps h (add_fetch pending_reclaim_calls pending_reclaim_calls_update (- 1))) (\<lambda>calls.
     if calls = 0 then
       call (on_hps h (cas epoch epoch_update (current_epoch + 1) current_epoch)) (\<lambda>old.
       if old \<noteq> current_epoch then Done ()
       else free_inactive_threads_in_previous_epochs X b h (current_epoch + 1))
     else Done ()))"

text \<open>What is done with the collected pointers.\<close>

definition reclaim_unprotected :: "(ptr \<Rightarrow> ptr \<Rightarrow> (('q, 'a) hp_mem_scheme, unit) prog) \<Rightarrow> nat \<Rightarrow> ptr \<Rightarrow> ptr \<Rightarrow> ptr \<Rightarrow>
    (('q, 'a) hp_mem_scheme, unit) prog" where
  "reclaim_unprotected rf b h t all_hps_set =
     call (on_thread t (rd reclaim_list)) (\<lambda>current_reclaim_entry.
     call (reclaim_retired rf b b all_hps_set t current_reclaim_entry null) (\<lambda>_.
     call (on_hps h (exchange pending_reclaim_list pending_reclaim_list_update null)) (\<lambda>pending_entry.
     call (sweep_pending rf b b all_hps_set pending_entry null null) (\<lambda>(still_held_first, still_held_last).
     if still_held_first \<noteq> null then push_pending b h still_held_first still_held_last
     else Done ()))))"

definition internal_reclaim :: "'q externals \<Rightarrow> (ptr \<Rightarrow> ptr \<Rightarrow> (('q, 'a) hp_mem_scheme, unit) prog) \<Rightarrow> nat \<Rightarrow> ptr \<Rightarrow>
    (('q, 'a) hp_mem_scheme, unit) prog" where
  "internal_reclaim X rf b t =
     call (on_thread t (rd th_hazard_pointers)) (\<lambda>h.
     call (on_hps h (add_fetch pending_reclaim_calls pending_reclaim_calls_update 1)) (\<lambda>_.
     call (on_thread t (rd th_hazard_pointers)) (\<lambda>h'.
     call (on_hps h' (rd reclaim_threshold)) (\<lambda>threshold.
     call (clds_st_hash_set_create (Some hp_key_hash) (Some hp_key_compare) threshold) (\<lambda>all_hps_set.
     call (if all_hps_set = null then Done ()
           else
             call (on_hps h (rd hp_head)) (\<lambda>current_thread.
             call (collect_threads b b all_hps_set current_thread) (\<lambda>current_thread.
             call (if current_thread \<noteq> null then Done ()
                   else reclaim_unprotected rf b h t all_hps_set) (\<lambda>_.
             clds_st_hash_set_destroy b all_hps_set)))) (\<lambda>_.
     finish_reclaim_call X b h))))))"

section \<open>The background clean-up of inactive threads\<close>

text \<open>\<open>current_thread_address\<close> is the address of the list head or of the \<open>next\<close> field of a thread.\<close>

datatype thread_location = Threads_Head | Thread_Next ptr

definition cas_thread_location :: "ptr \<Rightarrow> thread_location \<Rightarrow> ptr \<Rightarrow> ptr \<Rightarrow> (('q, 'a) hp_mem_scheme, ptr) prog" where
  "cas_thread_location h a new expected =
     (case a of
        Threads_Head \<Rightarrow> on_hps h (cas hp_head hp_head_update new expected)
      | Thread_Next t \<Rightarrow> on_thread t (cas th_next th_next_update new expected))"

text \<open>\<open>LogCriticalAndTerminate\<close> ends the process; it appears as \<open>Fault\<close>.\<close>

fun cleanup_threads :: "'q externals \<Rightarrow> nat \<Rightarrow> ptr \<Rightarrow> thread_location \<Rightarrow> ptr \<Rightarrow> (('q, 'a) hp_mem_scheme, unit) prog" where
  "cleanup_threads X 0 h a current_thread = Spin"
| "cleanup_threads X (Suc n) h a current_thread =
     (if current_thread = null then Done ()
      else
        call (on_thread current_thread (rd th_next)) (\<lambda>next_thread.
        call (on_thread current_thread (rd active)) (\<lambda>is_active.
        if is_active = 1 then cleanup_threads X n h (Thread_Next current_thread) next_thread
        else
          call (cas_thread_location h a next_thread current_thread) (\<lambda>old.
          if old = current_thread then
            call (add_to_inactive_threads X h current_thread) (\<lambda>r.
            if r \<noteq> Result_0 then Fault
            else cleanup_threads X n h a next_thread)
          else Done ()))))"

definition hp_thread_cleanup_func :: "'q externals \<Rightarrow> nat \<Rightarrow> ptr \<Rightarrow> (('q, 'a) hp_mem_scheme, unit) prog" where
  "hp_thread_cleanup_func X b h =
     call (on_hps h (add_fetch pending_reclaim_calls pending_reclaim_calls_update 1)) (\<lambda>_.
     call (finish_reclaim_call X b h) (\<lambda>_.
     call (on_hps h (rd hp_head)) (\<lambda>current_thread.
     cleanup_threads X b h Threads_Head current_thread)))"

section \<open>The interface\<close>

definition clds_hazard_pointers_create :: "'q externals \<Rightarrow> (('q, 'a) hp_mem_scheme, ptr) prog" where
  "clds_hazard_pointers_create X =
     call malloc_hps (\<lambda>result.
     if result = null then Done null
     else
       call (external (worker_thread_create X result)) (\<lambda>w.
       call (on_hps result (wr hp_thread_cleanup_worker_update w)) (\<lambda>_.
       if w = null then call (free_hps result) (\<lambda>_. Done null)
       else
         call (external (worker_thread_open X w)) (\<lambda>opened.
         if opened \<noteq> Result_0 then
           call (external (worker_thread_destroy X w)) (\<lambda>_.
           call (free_hps result) (\<lambda>_. Done null))
         else
           call (external (tqueue_create X)) (\<lambda>q.
           if q = null then
             call (external (worker_thread_close X w)) (\<lambda>_.
             call (external (worker_thread_destroy X w)) (\<lambda>_.
             call (free_hps result) (\<lambda>_. Done null)))
           else
             call (on_hps result (wr inactive_threads_update q)) (\<lambda>_.
             call (on_hps result (wr reclaim_threshold_update 1)) (\<lambda>_.
             call (on_hps result (wr hp_head_update null)) (\<lambda>_.
             call (on_hps result (wr pending_reclaim_list_update null)) (\<lambda>_.
             call (on_hps result (wr epoch_update 0)) (\<lambda>_.
             call (on_hps result (wr pending_reclaim_calls_update 0)) (\<lambda>_.
             Done result)))))))))))"

text \<open>The loops of \<open>destroy\<close>: a reclaim cycle for every thread, freeing every thread, draining the pending list.\<close>

fun reclaim_all_threads :: "'q externals \<Rightarrow> (ptr \<Rightarrow> ptr \<Rightarrow> (('q, 'a) hp_mem_scheme, unit) prog) \<Rightarrow> nat \<Rightarrow> nat \<Rightarrow> ptr \<Rightarrow>
    (('q, 'a) hp_mem_scheme, unit) prog" where
  "reclaim_all_threads X rf b 0 t = Spin"
| "reclaim_all_threads X rf b (Suc n) t =
     (if t = null then Done ()
      else
        call (internal_reclaim X rf b t) (\<lambda>_.
        call (on_thread t (rd th_next)) (\<lambda>nxt.
        reclaim_all_threads X rf b n nxt)))"

fun free_all_threads :: "nat \<Rightarrow> nat \<Rightarrow> ptr \<Rightarrow> (('q, 'a) hp_mem_scheme, unit) prog" where
  "free_all_threads b 0 t = Spin"
| "free_all_threads b (Suc n) t =
     (if t = null then Done ()
      else
        call (on_thread t (rd th_next)) (\<lambda>nxt.
        call (free_thread_data b t) (\<lambda>_.
        free_all_threads b n nxt)))"

fun drain_pending :: "(ptr \<Rightarrow> ptr \<Rightarrow> (('q, 'a) hp_mem_scheme, unit) prog) \<Rightarrow> nat \<Rightarrow> ptr \<Rightarrow> (('q, 'a) hp_mem_scheme, unit) prog" where
  "drain_pending rf 0 pending_entry = Spin"
| "drain_pending rf (Suc n) pending_entry =
     (if pending_entry = null then Done ()
      else
        call (on_entry pending_entry (rd re_next)) (\<lambda>next_pending_entry.
        call (on_entry pending_entry (rd re_reclaim)) (\<lambda>f.
        call (on_entry pending_entry (rd re_node)) (\<lambda>node.
        call (rf f node) (\<lambda>_.
        call (free_entry pending_entry) (\<lambda>_.
        drain_pending rf n next_pending_entry))))))"

text \<open>\<open>0x7FFFFFFFFFFFFFFF\<close> is \<open>INT64_MAX\<close>.\<close>

definition clds_hazard_pointers_destroy :: "'q externals \<Rightarrow> (ptr \<Rightarrow> ptr \<Rightarrow> (('q, 'a) hp_mem_scheme, unit) prog) \<Rightarrow> nat \<Rightarrow> ptr \<Rightarrow>
    (('q, 'a) hp_mem_scheme, unit) prog" where
  "clds_hazard_pointers_destroy X rf b h =
     (if h = null then Done ()
      else
        call (on_hps h (rd hp_thread_cleanup_worker)) (\<lambda>w.
        call (external (worker_thread_close X w)) (\<lambda>_.
        call (external (worker_thread_destroy X w)) (\<lambda>_.
        call (on_hps h (rd hp_head)) (\<lambda>t.
        call (reclaim_all_threads X rf b b t) (\<lambda>_.
        call (on_hps h (rd hp_head)) (\<lambda>t.
        call (free_all_threads b b t) (\<lambda>_.
        call (on_hps h (exchange pending_reclaim_list pending_reclaim_list_update null)) (\<lambda>pending_entry.
        call (drain_pending rf b pending_entry) (\<lambda>_.
        call (free_inactive_threads_in_previous_epochs X b h 0x7FFFFFFFFFFFFFFF) (\<lambda>_.
        call (on_hps h (rd inactive_threads)) (\<lambda>q.
        call (external (tqueue_release X q)) (\<lambda>_.
        call (on_hps h (wr inactive_threads_update null)) (\<lambda>_.
        free_hps h))))))))))))))"

fun register_loop :: "nat \<Rightarrow> ptr \<Rightarrow> ptr \<Rightarrow> (('q, 'a) hp_mem_scheme, unit) prog" where
  "register_loop 0 h t = Spin"
| "register_loop (Suc n) h t =
     call (on_hps h (rd hp_head)) (\<lambda>current_threads_head.
     call (on_thread t (wr th_next_update current_threads_head)) (\<lambda>_.
     call (on_thread t (wr reclaim_list_entry_count_update 0)) (\<lambda>_.
     call (on_thread t (wr pointers_update null)) (\<lambda>_.
     call (on_thread t (wr free_pointers_update null)) (\<lambda>_.
     call (on_thread t (wr reclaim_list_update null)) (\<lambda>_.
     call (on_thread t (wr active_update 1)) (\<lambda>_.
     call (on_hps h (cas hp_head hp_head_update t current_threads_head)) (\<lambda>old.
     if old \<noteq> current_threads_head then register_loop n h t else Done ()))))))))"

definition clds_hazard_pointers_register_thread :: "nat \<Rightarrow> ptr \<Rightarrow> (('q, 'a) hp_mem_scheme, ptr) prog" where
  "clds_hazard_pointers_register_thread b h =
     (if h = null then Done null
      else
        call malloc_thread (\<lambda>t.
        if t = null then Done null
        else
          call (on_thread t (wr th_hazard_pointers_update h)) (\<lambda>_.
          call (register_loop b h t) (\<lambda>_.
          Done t))))"

text \<open>The walk to the last entry of the reclaim list.\<close>

fun last_reclaim_entry :: "nat \<Rightarrow> ptr \<Rightarrow> (('q, 'a) hp_mem_scheme, ptr) prog" where
  "last_reclaim_entry 0 e = Spin"
| "last_reclaim_entry (Suc n) e =
     call (on_entry e (rd re_next)) (\<lambda>nxt.
     if nxt \<noteq> null then last_reclaim_entry n nxt else Done e)"

definition clds_hazard_pointers_unregister_thread :: "'q externals \<Rightarrow> nat \<Rightarrow> ptr \<Rightarrow> (('q, 'a) hp_mem_scheme, unit) prog" where
  "clds_hazard_pointers_unregister_thread X b t =
     (if t = null then Done ()
      else
        call (on_thread t (rd th_hazard_pointers)) (\<lambda>h.
        call (on_thread t (rd reclaim_list)) (\<lambda>first_reclaim_entry.
        call (if first_reclaim_entry \<noteq> null then
                call (last_reclaim_entry b first_reclaim_entry) (\<lambda>e.
                call (push_pending b h first_reclaim_entry e) (\<lambda>_.
                call (on_thread t (wr reclaim_list_update null)) (\<lambda>_.
                on_thread t (wr reclaim_list_entry_count_update 0))))
              else Done ()) (\<lambda>_.
        call (on_thread t (wr active_update 0)) (\<lambda>_.
        call (on_hps h (rd hp_thread_cleanup_worker)) (\<lambda>w.
        call (external (worker_thread_schedule_process X w)) (\<lambda>_.
        Done ())))))))"

text \<open>Taking a record from the free list; NULL when the list is empty.\<close>

fun take_free_record :: "nat \<Rightarrow> ptr \<Rightarrow> (('q, 'a) hp_mem_scheme, ptr) prog" where
  "take_free_record 0 t = Spin"
| "take_free_record (Suc n) t =
     call (on_thread t (rd free_pointers)) (\<lambda>hazard_ptr.
     if hazard_ptr \<noteq> null then
       call (on_record hazard_ptr (rd hp_next)) (\<lambda>nxt.
       call (on_thread t (cas free_pointers free_pointers_update nxt hazard_ptr)) (\<lambda>old.
       if old \<noteq> hazard_ptr then take_free_record n t else Done hazard_ptr))
     else Done null)"

text \<open>Publishing \<open>node\<close> in the record; both branches of \<open>acquire\<close> end with it.\<close>

definition publish_record :: "ptr \<Rightarrow> ptr \<Rightarrow> ptr \<Rightarrow> (('q, 'a) hp_mem_scheme, ptr) prog" where
  "publish_record t hazard_ptr node =
     call (on_thread t (rd pointers)) (\<lambda>current_list_head.
     call (on_record hazard_ptr (wr hp_node_update node)) (\<lambda>_.
     call (on_record hazard_ptr (wr hp_next_update current_list_head)) (\<lambda>_.
     call (on_thread t (wr pointers_update hazard_ptr)) (\<lambda>_.
     Done hazard_ptr))))"

definition clds_hazard_pointers_acquire :: "nat \<Rightarrow> ptr \<Rightarrow> ptr \<Rightarrow> (('q, 'a) hp_mem_scheme, ptr) prog" where
  "clds_hazard_pointers_acquire b t node =
     (if t = null then Done null
      else
        call (take_free_record b t) (\<lambda>hazard_ptr.
        if hazard_ptr = null then
          call malloc_record (\<lambda>hazard_ptr.
          if hazard_ptr = null then Done null
          else publish_record t hazard_ptr node)
        else publish_record t hazard_ptr node))"

text \<open>Unlinking the record from the thread's list of used records, if it is there.\<close>

fun unlink_record :: "nat \<Rightarrow> ptr \<Rightarrow> ptr \<Rightarrow> ptr \<Rightarrow> ptr \<Rightarrow> (('q, 'a) hp_mem_scheme, unit) prog" where
  "unlink_record 0 t r hp prev = Spin"
| "unlink_record (Suc n) t r hp prev =
     (if hp = null then Done ()
      else if hp = r then
        call (on_record hp (rd hp_next)) (\<lambda>nxt.
        if prev \<noteq> null then on_record prev (wr hp_next_update nxt)
        else on_thread t (wr pointers_update nxt))
      else
        call (on_record hp (rd hp_next)) (\<lambda>nxt.
        unlink_record n t r nxt hp))"

definition clds_hazard_pointers_release :: "nat \<Rightarrow> ptr \<Rightarrow> ptr \<Rightarrow> (('q, 'a) hp_mem_scheme, unit) prog" where
  "clds_hazard_pointers_release b t r =
     (if r = null then Done ()
      else
        call (on_thread t (rd pointers)) (\<lambda>hp.
        call (on_record r (wr hp_node_update null)) (\<lambda>_.
        call (unlink_record b t r hp null) (\<lambda>_.
        call (on_thread t (rd free_pointers)) (\<lambda>current_free_pointers.
        call (on_record r (wr hp_next_update current_free_pointers)) (\<lambda>_.
        on_thread t (wr free_pointers_update r)))))))"

definition clds_hazard_pointers_reclaim :: "'q externals \<Rightarrow> (ptr \<Rightarrow> ptr \<Rightarrow> (('q, 'a) hp_mem_scheme, unit) prog) \<Rightarrow> nat \<Rightarrow>
    ptr \<Rightarrow> ptr \<Rightarrow> ptr \<Rightarrow> (('q, 'a) hp_mem_scheme, unit) prog" where
  "clds_hazard_pointers_reclaim X rf b t node reclaim_func =
     (if t = null \<or> node = null then Done ()
      else
        call malloc_entry (\<lambda>e.
        if e = null then Done ()
        else
          call (on_thread t (rd reclaim_list)) (\<lambda>l.
          call (on_entry e (wr re_next_update l)) (\<lambda>_.
          call (on_entry e (wr re_node_update node)) (\<lambda>_.
          call (on_entry e (wr re_reclaim_update reclaim_func)) (\<lambda>_.
          call (on_thread t (wr reclaim_list_update e)) (\<lambda>_.
          call (on_thread t (add_fetch reclaim_list_entry_count reclaim_list_entry_count_update 1)) (\<lambda>count.
          call (on_thread t (rd th_hazard_pointers)) (\<lambda>h.
          call (on_hps h (rd reclaim_threshold)) (\<lambda>threshold.
          if count \<ge> threshold then internal_reclaim X rf b t
          else Done ()))))))))))"

definition clds_hazard_pointers_set_reclaim_threshold :: "ptr \<Rightarrow> 64 word \<Rightarrow> (('q, 'a) hp_mem_scheme, int_result) prog" where
  "clds_hazard_pointers_set_reclaim_threshold h threshold =
     (if h = null \<or> threshold = 0 then Done MU_FAILURE
      else
        call (on_hps h (wr reclaim_threshold_update threshold)) (\<lambda>_.
        Done Result_0))"

section \<open>Well-formed states\<close>

abbreviation rec_next :: "('q, 'a) hp_mem_scheme \<Rightarrow> ptr \<Rightarrow> ptr option" where
  "rec_next s \<equiv> \<lambda>x. map_option hp_next (hp_records s x)"

abbreviation ent_next :: "('q, 'a) hp_mem_scheme \<Rightarrow> ptr \<Rightarrow> ptr option" where
  "ent_next s \<equiv> \<lambda>x. map_option re_next (hp_entries s x)"

abbreviation thr_next :: "('q, 'a) hp_mem_scheme \<Rightarrow> ptr \<Rightarrow> ptr option" where
  "thr_next s \<equiv> \<lambda>x. map_option th_next (hp_threads s x)"

text \<open>The lists of a thread: its records in use, its free records, its reclaim list.\<close>

record thread_view =
  used :: "ptr list"
  unused :: "ptr list"
  retired :: "ptr list"

definition own :: "ptr \<Rightarrow> thread_view \<Rightarrow> ptr list" where
  "own t v = t # used v @ unused v @ retired v"

definition thread_at :: "('q, 'a) hp_mem_scheme \<Rightarrow> ptr \<Rightarrow> ptr \<Rightarrow> thread_view \<Rightarrow> bool" where
  "thread_at s h t v \<longleftrightarrow> t \<noteq> null \<and> distinct (own t v) \<and>
     (\<exists>T. hp_threads s t = Some T \<and> th_hazard_pointers T = h \<and>
        heap_chain (rec_next s) (pointers T) (used v) \<and>
        heap_chain (rec_next s) (free_pointers T) (unused v) \<and>
        heap_chain (ent_next s) (reclaim_list T) (retired v) \<and>
        reclaim_list_entry_count T = of_nat (length (retired v))) \<and>
     (\<forall>e \<in> set (retired v). re_node (the (hp_entries s e)) \<noteq> null)"

text \<open>What an address is used for.\<close>

datatype slot = Hps_Struct | Pending_Entry | Part_Of ptr | Client

text \<open>
  The instance \<open>h\<close> with its list of threads \<open>ts\<close>, the queue of inactive threads \<open>ins\<close>, the lists
  \<open>V t\<close> of each thread and the pending reclaim list \<open>pend\<close>. \<open>M\<close> is the allocated memory that does
  not belong to it, \<open>W\<close> tells the parts apart, and \<open>C\<close> is the content of the third-party queue.
\<close>

definition hps_at :: "('q \<Rightarrow> ptr \<Rightarrow> inactive_thread list) \<Rightarrow> ('q, 'a) hp_mem_scheme \<Rightarrow> ptr \<Rightarrow> ptr list \<Rightarrow> ptr list \<Rightarrow>
    (ptr \<Rightarrow> thread_view) \<Rightarrow> (ptr \<Rightarrow> slot) \<Rightarrow> ptr list \<Rightarrow> ptr set \<Rightarrow> bool" where
  "hps_at C s h ts ins V W pend M \<longleftrightarrow> h \<noteq> null \<and> finite (live s) \<and> distinct (ts @ ins) \<and>
     (\<exists>H. hp_structs s h = Some H \<and> reclaim_threshold H \<noteq> 0 \<and>
        heap_chain (thr_next s) (hp_head H) ts \<and>
        heap_chain (ent_next s) (pending_reclaim_list H) pend \<and>
        map hp_thread_handle (C (outer s) (inactive_threads H)) = ins) \<and>
     (\<forall>t \<in> set (ts @ ins). thread_at s h t (V t)) \<and> (\<forall>t \<in> set ins. retired (V t) = []) \<and>
     (\<forall>e \<in> set pend. re_node (the (hp_entries s e)) \<noteq> null) \<and>
     live s = insert h (set pend \<union> M \<union> (\<Union>t \<in> set (ts @ ins). set (own t (V t)))) \<and>
     W h = Hps_Struct \<and> (\<forall>x \<in> set pend. W x = Pending_Entry) \<and> (\<forall>x \<in> M. W x = Client) \<and>
     (\<forall>t \<in> set (ts @ ins). \<forall>x \<in> set (own t (V t)). W x = Part_Of t)"

text \<open>The node in a record, the reclaim function and node of an entry, and what a thread holds.\<close>

abbreviation node_in :: "('q, 'a) hp_mem_scheme \<Rightarrow> ptr \<Rightarrow> ptr" where
  "node_in s r \<equiv> hp_node (the (hp_records s r))"

abbreviation retired_in :: "('q, 'a) hp_mem_scheme \<Rightarrow> ptr \<Rightarrow> ptr \<times> ptr" where
  "retired_in s e \<equiv> (re_reclaim (the (hp_entries s e)), re_node (the (hp_entries s e)))"

definition held :: "('q, 'a) hp_mem_scheme \<Rightarrow> thread_view \<Rightarrow> ptr \<Rightarrow> ptr option" where
  "held s v = (\<lambda>r. if r \<in> set (used v) then Some (node_in s r) else None)"

definition all_retired :: "('q, 'a) hp_mem_scheme \<Rightarrow> ptr list \<Rightarrow> (ptr \<Rightarrow> thread_view) \<Rightarrow> ptr list \<Rightarrow> (ptr \<times> ptr) multiset" where
  "all_retired s ts V pend = mset (map (retired_in s) pend) + (\<Sum>t \<leftarrow> ts. mset (map (retired_in s) (retired (V t))))"

lemma own_simps [simp]: "set (own t v) = insert t (set (used v) \<union> set (unused v) \<union> set (retired v))"
  "distinct (own t v) \<longleftrightarrow> t \<notin> set (used v) \<and> t \<notin> set (unused v) \<and> t \<notin> set (retired v) \<and>
     distinct (used v) \<and> distinct (unused v) \<and> distinct (retired v) \<and> set (used v) \<inter> set (unused v) = {} \<and>
     (set (used v) \<union> set (unused v)) \<inter> set (retired v) = {}"
  by (auto simp: own_def)

lemma hps_atD:
  assumes "hps_at C s h ts ins V W pend M"
  shows "h \<noteq> null" "finite (live s)" "distinct (ts @ ins)"
    and "x \<in> set pend \<Longrightarrow> W x = Pending_Entry \<and> x \<in> live s" and "x \<in> M \<Longrightarrow> W x = Client \<and> x \<in> live s"
    and "W h = Hps_Struct \<and> h \<in> live s"
    and "t \<in> set ts \<Longrightarrow> thread_at s h t (V t)" and "t \<in> set ins \<Longrightarrow> thread_at s h t (V t) \<and> retired (V t) = []"
    and "t \<in> set ts \<Longrightarrow> x \<in> set (own t (V t)) \<Longrightarrow> W x = Part_Of t \<and> x \<in> live s"
    and "t \<in> set ins \<Longrightarrow> x \<in> set (own t (V t)) \<Longrightarrow> W x = Part_Of t \<and> x \<in> live s"
    and "live s = insert h (set pend \<union> M \<union> (\<Union>t \<in> set (ts @ ins). set (own t (V t))))"
    and "x \<in> set pend \<Longrightarrow> re_node (the (hp_entries s x)) \<noteq> null"
  using assms unfolding hps_at_def by (auto simp del: own_simps)

lemma hps_at_struct:
  assumes "hps_at C s h ts ins V W pend M"
  obtains H where "hp_structs s h = Some H" "reclaim_threshold H \<noteq> 0" "heap_chain (thr_next s) (hp_head H) ts"
    "heap_chain (ent_next s) (pending_reclaim_list H) pend"
    "map hp_thread_handle (C (outer s) (inactive_threads H)) = ins"
  using assms unfolding hps_at_def by blast

lemma thread_at_nodes: "thread_at s h t v \<Longrightarrow> e \<in> set (retired v) \<Longrightarrow> re_node (the (hp_entries s e)) \<noteq> null"
  unfolding thread_at_def by blast

lemma thread_atE:
  assumes "thread_at s h t v"
  obtains T where "t \<noteq> null" "distinct (own t v)" "hp_threads s t = Some T" "th_hazard_pointers T = h"
    "heap_chain (rec_next s) (pointers T) (used v)" "heap_chain (rec_next s) (free_pointers T) (unused v)"
    "heap_chain (ent_next s) (reclaim_list T) (retired v)" "reclaim_list_entry_count T = of_nat (length (retired v))"
  using assms unfolding thread_at_def by blast

lemma thread_at_frame:
  assumes "thread_at s h t v"
    and same: "\<And>x. x \<in> set (own t v) \<Longrightarrow>
      hp_threads s' x = hp_threads s x \<and> hp_records s' x = hp_records s x \<and> hp_entries s' x = hp_entries s x"
  shows "thread_at s' h t v"
proof -
  obtain T where T: "t \<noteq> null" "distinct (own t v)" "hp_threads s t = Some T" "th_hazard_pointers T = h"
    "heap_chain (rec_next s) (pointers T) (used v)" "heap_chain (rec_next s) (free_pointers T) (unused v)"
    "heap_chain (ent_next s) (reclaim_list T) (retired v)" "reclaim_list_entry_count T = of_nat (length (retired v))"
    using assms(1) by (auto simp: thread_at_def)
  have "heap_chain (rec_next s') (pointers T) (used v) = heap_chain (rec_next s) (pointers T) (used v)"
    "heap_chain (rec_next s') (free_pointers T) (unused v) = heap_chain (rec_next s) (free_pointers T) (unused v)"
    "heap_chain (ent_next s') (reclaim_list T) (retired v) = heap_chain (ent_next s) (reclaim_list T) (retired v)"
    by (rule heap_chain_cong; use same in simp)+
  moreover have "hp_entries s' e = hp_entries s e" if "e \<in> set (retired v)" for e
    using same [of e] that by simp
  ultimately show ?thesis
    using T same [of t] thread_at_nodes [OF assms(1)] unfolding thread_at_def by (intro conjI exI [of _ T]) simp_all
qed

text \<open>A change of one thread's own objects.\<close>

lemma hps_at_own_change:
  assumes at: "hps_at C s h ts ins V W pend M" and t: "t \<in> set (ts @ ins)"
    and v': "thread_at s' h t v'" "t \<in> set ins \<Longrightarrow> retired v' = []"
    and same: "hp_structs s' = hp_structs s" "outer s' = outer s" "thr_next s' = thr_next s"
    and other: "\<And>x. x \<in> live s \<Longrightarrow> W x \<noteq> Part_Of t \<Longrightarrow>
      hp_threads s' x = hp_threads s x \<and> hp_records s' x = hp_records s x \<and> hp_entries s' x = hp_entries s x"
    and live: "live s' = (live s - set (own t (V t))) \<union> set (own t v')"
    and fresh: "(set (own t v') - set (own t (V t))) \<inter> live s = {}"
  shows "hps_at C s' h ts ins (V(t := v')) (\<lambda>x. if x \<in> set (own t v') then Part_Of t else W x) pend M"
proof -
  obtain H where H: "hp_structs s h = Some H" "reclaim_threshold H \<noteq> 0" "heap_chain (thr_next s) (hp_head H) ts"
    "heap_chain (ent_next s) (pending_reclaim_list H) pend"
    "map hp_thread_handle (C (outer s) (inactive_threads H)) = ins"
    by (rule hps_at_struct [OF at])
  have V: "thread_at s h u (V u)" if "u \<in> set (ts @ ins)" for u
    using that hps_atD(7,8) [OF at, of u] by auto
  note lv = hps_atD(11) [OF at]
  have W: "W h = Hps_Struct" "\<And>x. x \<in> set pend \<Longrightarrow> W x = Pending_Entry" "\<And>x. x \<in> M \<Longrightarrow> W x = Client"
    using hps_atD(4-6) [OF at] by blast+
  have W4: "W x = Part_Of u" if "u \<in> set (ts @ ins)" "x \<in> set (own u (V u))" for u x
    using that hps_atD(9,10) [OF at, of u x] by (auto simp del: own_simps)
  have not_own: "x \<notin> set (own t v')" if "x \<in> live s" "W x \<noteq> Part_Of t" for x
    using that fresh W4 [OF t, of x] by blast
  have pe: "hp_entries s' x = hp_entries s x" if "x \<in> set pend" for x
    using other [of x] that W(2) [OF that] lv by simp
  then have "heap_chain (ent_next s') (pending_reclaim_list H) pend"
    using H(4) heap_chain_cong [of pend "ent_next s'" "ent_next s"] by simp
  moreover have "thread_at s' h u ((V(t := v')) u)" if u: "u \<in> set (ts @ ins)" for u
  proof (cases "u = t")
    case False
    have "hp_threads s' x = hp_threads s x \<and> hp_records s' x = hp_records s x \<and> hp_entries s' x = hp_entries s x"
      if "x \<in> set (own u (V u))" for x
    proof (rule other)
      show "x \<in> live s" using u that unfolding lv by blast
      show "W x \<noteq> Part_Of t" using W4 [OF u that] False by simp
    qed
    from thread_at_frame [OF V [OF u] this] False show ?thesis by simp
  qed (use v'(1) in simp)
  moreover have "live s' = insert h (set pend \<union> M \<union> (\<Union>u \<in> set (ts @ ins). set (own u ((V(t := v')) u))))"
  proof -
    define U where "U = insert h (set pend \<union> M \<union> (\<Union>u \<in> set (ts @ ins) - {t}. set (own u (V u))))"
    have "U \<inter> set (own t (V t)) = {}"
    proof -
      have "x \<notin> U" if "x \<in> set (own t (V t))" for x
        using W4 [OF t that] W(1) W(2-3) [of x] W4 [of _ x] unfolding U_def by fastforce
      then show ?thesis by blast
    qed
    moreover have "live s = U \<union> set (own t (V t))" unfolding lv U_def using t by blast
    moreover have "insert h (set pend \<union> M \<union> (\<Union>u \<in> set (ts @ ins). set (own u ((V(t := v')) u)))) = U \<union> set (own t v')"
      unfolding U_def using t by (simp del: own_simps set_append add: Un_commute insert_absorb flip: UN_insert)
        (auto simp del: own_simps split: if_splits)
    ultimately show ?thesis unfolding live by blast
  qed
  moreover have "finite (live s')" using hps_atD(2) [OF at] live by simp
  moreover have "(if x \<in> set (own t v') then Part_Of t else W x) = W x"
    if "x = h \<or> x \<in> set pend \<or> x \<in> M" for x
    using not_own [of x] that W(1) W(2-3) [of x] lv by auto
  moreover have "(if x \<in> set (own t v') then Part_Of t else W x) = Part_Of u"
    if "u \<in> set (ts @ ins)" "x \<in> set (own u ((V(t := v')) u))" for u x
    using that not_own [of x] W4 [of u x] lv by (auto simp del: own_simps split: if_splits)
  ultimately show ?thesis
    unfolding hps_at_def using H same hps_atD(1,3) [OF at] hps_atD(8) [OF at] v'(2) W hps_atD(12) [OF at] pe
    by (intro conjI exI [of _ H]) (simp_all del: own_simps)
qed

definition is_active :: "('q, 'a) hp_mem_scheme \<Rightarrow> ptr \<Rightarrow> bool" where
  "is_active s t \<longleftrightarrow> active (the (hp_threads s t)) = 1"

text \<open>What an operation on records leaves alone.\<close>

definition only_records :: "('q, 'a) hp_mem_scheme \<Rightarrow> ('q, 'a) hp_mem_scheme \<Rightarrow> bool" where
  "only_records s s' \<longleftrightarrow> hp_mem.more s' = hp_mem.more s \<and> outer s' = outer s \<and> hp_entries s' = hp_entries s \<and>
     is_active s' = is_active s"

section \<open>Acquire and release\<close>

lemma wp_publish_record:
  assumes "hp_threads s t = Some T" and "hp_records s f = Some R"
  shows "wp (publish_record t f node) Q s = Q f (s\<lparr>hp_records := (hp_records s)(f \<mapsto> \<lparr>hp_node = node, hp_next = pointers T\<rparr>),
    hp_threads := (hp_threads s)(t \<mapsto> T\<lparr>pointers := f\<rparr>)\<rparr>)"
  using assms by (cases R) (simp add: publish_record_def wp_simps access_kinds)

text \<open>The state after a record \<open>f\<close>, new or taken from the free list, is published.\<close>

lemma hps_at_publish:
  assumes at: "hps_at C s h ts ins V W pend M" and t: "t \<in> set ts" and T: "hp_threads s t = Some T"
    and f: "f \<noteq> null" "f \<notin> set fs" "unused (V t) = f # fs \<and> live s' = live s \<or>
      unused (V t) = fs \<and> f \<notin> live s \<and> live s' = insert f (live s)"
    and q: "heap_chain (rec_next s) q fs"
    and s': "hp_threads s' = (hp_threads s)(t \<mapsto> T\<lparr>free_pointers := q, pointers := f\<rparr>)"
      "hp_records s' = (hp_records s)(f \<mapsto> \<lparr>hp_node = node, hp_next = pointers T\<rparr>)"
      "hp_entries s' = hp_entries s" "hp_structs s' = hp_structs s" "outer s' = outer s" "hp_mem.more s' = hp_mem.more s"
    and v': "v' = (V t)\<lparr>used := f # used (V t), unused := fs\<rparr>"
  shows "\<exists>W'. hps_at C s' h ts ins (V(t := v')) W' pend M"
    and "held s (V t) f = None" and "held s' v' = (held s (V t))(f \<mapsto> node)"
    and "only_records s s'" and "u \<in> set ts \<Longrightarrow> u \<noteq> t \<Longrightarrow> held s' (V u) = held s (V u)"
proof -
  note ta = hps_atD(7) [OF at t]
  obtain T' where T': "t \<noteq> null" "distinct (own t (V t))" "hp_threads s t = Some T'" "th_hazard_pointers T' = h"
    "heap_chain (rec_next s) (pointers T') (used (V t))" "heap_chain (rec_next s) (free_pointers T') (unused (V t))"
    "heap_chain (ent_next s) (reclaim_list T') (retired (V t))" "reclaim_list_entry_count T' = of_nat (length (retired (V t)))"
    by (rule thread_atE [OF ta])
  with T have [simp]: "T' = T" by simp
  have own: "x \<in> set (own t (V t)) \<Longrightarrow> x \<in> live s \<and> W x = Part_Of t" for x
    using hps_atD(9) [OF at t] by blast
  have notin: "f \<notin> set (used (V t))" "f \<notin> set (retired (V t))" "f \<noteq> t"
    using f(3) T'(2) own [of f] by auto
  have fp: "W f = Part_Of t \<or> f \<notin> live s"
    using f(3) own [of f] by auto
  have own': "set (own t v') = insert f (set (own t (V t)))"
    using f(3) by (auto simp: v')
  have v1: "thread_at s' h t v'"
    unfolding thread_at_def
  proof (intro conjI exI [of _ "T\<lparr>free_pointers := q, pointers := f\<rparr>"])
    show "heap_chain (rec_next s') (pointers (T\<lparr>free_pointers := q, pointers := f\<rparr>)) (used v')"
      using T'(5) notin f(1) by (simp add: s' v')
    show "heap_chain (rec_next s') (free_pointers (T\<lparr>free_pointers := q, pointers := f\<rparr>)) (unused v')"
      using q f(2) by (simp add: s' v')
    show "distinct (own t v')"
      using T'(2) notin f(2,3) by (auto simp: v')
  qed (use T' thread_at_nodes [OF ta] in \<open>simp_all add: s' v'\<close>)
  have nx: "thr_next s' = thr_next s"
    using T by (auto simp: s')
  have lv: "live s' = (live s - set (own t (V t))) \<union> set (own t v')"
  proof -
    have "set (own t (V t)) \<subseteq> live s" using own by blast
    moreover have "f \<in> set (own t (V t)) \<and> live s' = live s \<or> live s' = insert f (live s)" using f(3) by auto
    ultimately show ?thesis unfolding own' by blast
  qed
  have fr: "(set (own t v') - set (own t (V t))) \<inter> live s = {}"
    using f(3) unfolding own' by (auto simp: v')
  have oth: "hp_threads s' x = hp_threads s x \<and> hp_records s' x = hp_records s x \<and> hp_entries s' x = hp_entries s x"
    if "x \<in> live s" "W x \<noteq> Part_Of t" for x
    using that fp own [of t] by (auto simp: s')
  have ins: "t \<notin> set ins" using hps_atD(3) [OF at] t by auto
  show "\<exists>W'. hps_at C s' h ts ins (V(t := v')) W' pend M"
    by (rule exI, rule hps_at_own_change [OF at _ v1 _ s'(4,5) nx oth lv fr]) (use t ins in auto)
  show "held s (V t) f = None" using notin by (simp add: held_def)
  show "held s' v' = (held s (V t))(f \<mapsto> node)" by (auto simp: held_def s' v')
  show "only_records s s'" using T by (simp add: only_records_def fun_eq_iff [of "is_active s'" "is_active s"] is_active_def s')
  show "held s' (V u) = held s (V u)" if "u \<in> set ts" "u \<noteq> t"
  proof -
    have "f \<notin> set (used (V u))" using hps_atD(9) [OF at that(1), of f] fp that(2) by auto
    then show ?thesis by (auto simp: held_def s')
  qed
qed

lemma card_live_insert: "live s' = live s \<or> live s' = insert f (live s) \<Longrightarrow> card (live s') \<le> Suc (card (live s))"
  by (auto simp: card_insert_le_m1 card.insert_remove intro: le_trans [OF card_Diff1_le])

theorem wp_acquire:
  assumes at: "hps_at C s h ts ins V W pend M" and t: "t \<in> set ts" and b: "0 < b"
  shows "wp (clds_hazard_pointers_acquire b t node) (\<lambda>r s'. \<exists>v' W'.
      hps_at C s' h ts ins (V(t := v')) W' pend M \<and> retired v' = retired (V t) \<and> only_records s s' \<and>
      (if r = null then held s' v' = held s (V t) else held s (V t) r = None \<and> held s' v' = (held s (V t))(r \<mapsto> node)) \<and>
      (\<forall>u \<in> set ts. u \<noteq> t \<longrightarrow> held s' (V u) = held s (V u)) \<and> card (live s') \<le> Suc (card (live s))) s"
    (is "wp _ ?Q s")
proof -
  obtain T where T: "t \<noteq> null" "distinct (own t (V t))" "hp_threads s t = Some T"
    "heap_chain (rec_next s) (free_pointers T) (unused (V t))"
    using hps_atD(7) [OF at t] unfolding thread_at_def by blast
  obtain n where n: "b = Suc n" using b by (cases b) auto
  show ?thesis
  proof (cases "unused (V t)")
    case (Cons f fs)
    then obtain R where R: "free_pointers T = f" "f \<noteq> null" "hp_records s f = Some R" "heap_chain (rec_next s) (hp_next R) fs"
      using T(4) by auto
    let ?s = "s\<lparr>hp_records := (hp_records s)(f \<mapsto> \<lparr>hp_node = node, hp_next = pointers T\<rparr>),
      hp_threads := (hp_threads s)(t \<mapsto> T\<lparr>free_pointers := hp_next R, pointers := f\<rparr>)\<rparr>"
    have fs: "f \<notin> set fs" using T(2) Cons by auto
    note P = hps_at_publish [OF at t T(3) R(2) fs _ R(4), of ?s node, OF _ _ _ _ _ _ _ refl]
    have "?Q f ?s"
      using P R(2) Cons by (auto intro!: exI [of _ "(V t)\<lparr>used := f # used (V t), unused := fs\<rparr>"])
    then show ?thesis
      using n T R by (simp add: clds_hazard_pointers_acquire_def wp_simps access_kinds wp_publish_record)
  next
    case Nil
    then have free: "free_pointers T = null" using T(4) by simp
    have fail: "?Q null (s\<lparr>answers := ps\<rparr>)" for ps
    proof -
      have "hps_at C (s\<lparr>answers := ps\<rparr>) h ts ins (V(t := V t)) W pend M"
        using at by (simp add: hps_at_def thread_at_def)
      then show ?thesis
        by (auto simp: held_def only_records_def is_active_def fun_eq_iff intro!: exI [of _ "V t"])
    qed
    have new: "?Q f (s'\<lparr>hp_records := (hp_records s')(f \<mapsto> \<lparr>hp_node = node, hp_next = pointers T\<rparr>),
        hp_threads := (hp_threads s')(t \<mapsto> T\<lparr>pointers := f\<rparr>)\<rparr>)"
      if "f \<noteq> null" "f \<notin> live s" "s' = s\<lparr>answers := ps, live := insert f (live s)\<rparr>" for f ps s'
    proof -
      have "T\<lparr>free_pointers := null, pointers := f\<rparr> = T\<lparr>pointers := f\<rparr>" using free by (cases T) simp
      moreover note hps_at_publish [OF at t T(3) that(1), of "[]" "s'\<lparr>hp_records := (hp_records s')(f \<mapsto> \<lparr>hp_node = node, hp_next = pointers T\<rparr>),
        hp_threads := (hp_threads s')(t \<mapsto> T\<lparr>pointers := f\<rparr>)\<rparr>" null node "(V t)\<lparr>used := f # used (V t), unused := []\<rparr>"]
      ultimately show ?thesis
        using that Nil card_live_insert [of s' s f]
        by (auto intro!: exI [of _ "(V t)\<lparr>used := f # used (V t), unused := []\<rparr>"])
    qed
    show ?thesis
      using n T free fail new
      by (auto simp: clds_hazard_pointers_acquire_def malloc_record_def wp_simps access_kinds wp_publish_record intro!: wp_new_obj)
  qed
qed

lemma rec_next_upd: "map_option hp_next (((hp_records s)(a \<mapsto> R)) x) = ((rec_next s)(a \<mapsto> hp_next R)) x"
  by simp

lemma wp_unlink_record:
  assumes "hp_threads s t = Some T" and "heap_chain (rec_next s) (pointers T) (us @ xs)" and "heap_chain (rec_next s) hp xs"
    and "r \<in> set xs" and "r \<notin> set us" and "prev = (if us = [] then null else last us)" and "length xs < n"
    and post: "\<And>f p. heap_chain (\<lambda>x. map_option hp_next (f x)) p (remove1 r (us @ xs)) \<Longrightarrow>
      (\<And>x. map_option hp_node (f x) = map_option hp_node (hp_records s x)) \<Longrightarrow>
      (\<And>x. x \<notin> set (us @ xs) \<or> x = r \<Longrightarrow> f x = hp_records s x) \<Longrightarrow>
      Q () (s\<lparr>hp_records := f, hp_threads := (hp_threads s)(t \<mapsto> T\<lparr>pointers := p\<rparr>)\<rparr>)"
  shows "wp (unlink_record n t r hp prev) Q s"
  using assms
proof (induction xs arbitrary: us hp prev n)
  case Nil
  then show ?case by simp
next
  case (Cons x xs)
  obtain m where n: "n = Suc m" using Cons.prems(7) by (cases n) auto
  obtain R where R: "hp = x" "x \<noteq> null" "hp_records s x = Some R" "heap_chain (rec_next s) (hp_next R) xs"
    using Cons.prems(3) by auto
  have dist: "distinct (us @ x # xs)" and nonnull: "null \<notin> set us"
    using heap_chain_distinct [OF Cons.prems(2)] heap_chain_not_null [OF Cons.prems(2)] by auto
  show ?case
  proof (cases "x = r")
    case True
    show ?thesis
    proof (cases us rule: rev_cases)
      case Nil
      have "Q () (s\<lparr>hp_records := hp_records s, hp_threads := (hp_threads s)(t \<mapsto> T\<lparr>pointers := hp_next R\<rparr>)\<rparr>)"
        by (rule Cons.prems(8)) (use R Nil True in auto)
      moreover have "s\<lparr>hp_records := hp_records s\<rparr> = s" by simp
      ultimately show ?thesis
        using n True R Nil Cons.prems(1,6) by (simp add: wp_simps access_kinds)
    next
      case (snoc vs a)
      have ch: "heap_chain (rec_next s) (pointers T) (vs @ a # r # xs)" using Cons.prems(2) snoc True by simp
      have "rec_next s r = Some (hp_next R)" using R True by simp
      from heap_chain_unlink [OF ch this]
      have c: "heap_chain ((rec_next s)(a \<mapsto> hp_next R)) (pointers T) (vs @ a # xs)" .
      obtain Ra where Ra: "hp_records s a = Some Ra" using heap_chain_dom [OF ch, of a] by auto
      let ?f = "(hp_records s)(a \<mapsto> Ra\<lparr>hp_next := hp_next R\<rparr>)"
      have "Q () (s\<lparr>hp_records := ?f, hp_threads := (hp_threads s)(t \<mapsto> T\<lparr>pointers := pointers T\<rparr>)\<rparr>)"
      proof (rule Cons.prems(8))
        show "heap_chain (\<lambda>x. map_option hp_next (?f x)) (pointers T) (remove1 r (us @ x # xs))"
          unfolding rec_next_upd using c dist snoc True by (simp add: remove1_append fun_upd_def)
      qed (use Ra snoc dist True in auto)
      moreover have "(hp_threads s)(t \<mapsto> T\<lparr>pointers := pointers T\<rparr>) = hp_threads s"
        using Cons.prems(1) by (simp add: fun_upd_idem)
      moreover have "s\<lparr>hp_records := ?f, hp_threads := hp_threads s\<rparr> = s\<lparr>hp_records := ?f\<rparr>" by simp
      ultimately show ?thesis
        using n True R snoc Ra Cons.prems(6) nonnull by (simp add: wp_simps access_kinds)
    qed
  next
    case False
    have "wp (unlink_record m t r (hp_next R) x) Q s"
      by (rule Cons.IH [where us = "us @ [x]"]) (use Cons.prems R False n in auto)
    then show ?thesis using n R False by (simp add: wp_simps access_kinds)
  qed
qed

text \<open>The state after record \<open>r\<close> went from the used to the free records.\<close>

lemma hps_at_release:
  assumes at: "hps_at C s h ts ins V W pend M" and t: "t \<in> set ts" and T: "hp_threads s t = Some T"
    and r: "r \<in> set (used (V t))"
    and f: "heap_chain (\<lambda>x. map_option hp_next (f x)) p (remove1 r (used (V t)))"
      "\<And>x. x \<noteq> r \<Longrightarrow> map_option hp_node (f x) = map_option hp_node (hp_records s x)"
      "\<And>x. x \<notin> set (used (V t)) \<Longrightarrow> f x = hp_records s x" "f r = Some R" "hp_next R = free_pointers T"
    and s': "s' = s\<lparr>hp_records := f, hp_threads := (hp_threads s)(t \<mapsto> T\<lparr>pointers := p, free_pointers := r\<rparr>)\<rparr>"
    and v': "v' = (V t)\<lparr>used := remove1 r (used (V t)), unused := r # unused (V t)\<rparr>"
  shows "\<exists>W'. hps_at C s' h ts ins (V(t := v')) W' pend M"
    and "held s' v' = (held s (V t))(r := None)"
    and "only_records s s'" and "u \<in> set ts \<Longrightarrow> u \<noteq> t \<Longrightarrow> held s' (V u) = held s (V u)"
proof -
  obtain T' where T': "t \<noteq> null" "distinct (own t (V t))" "hp_threads s t = Some T'" "th_hazard_pointers T' = h"
    "heap_chain (rec_next s) (pointers T') (used (V t))" "heap_chain (rec_next s) (free_pointers T') (unused (V t))"
    "heap_chain (ent_next s) (reclaim_list T') (retired (V t))" "reclaim_list_entry_count T' = of_nat (length (retired (V t)))"
    by (rule thread_atE [OF hps_atD(7) [OF at t]])
  with T have [simp]: "T' = T" by simp
  have own: "x \<in> set (own t (V t)) \<Longrightarrow> x \<in> live s \<and> W x = Part_Of t" for x
    using hps_atD(9) [OF at t] by blast
  have own': "set (own t v') = set (own t (V t))"
    using r T'(2) by (auto simp: v')
  have rnull: "r \<noteq> null" using heap_chain_not_null [OF T'(5)] r by auto
  have "x \<notin> set (used (V t))" if "x \<in> set (unused (V t))" for x using T'(2) that by auto
  then have "heap_chain (\<lambda>x. map_option hp_next (f x)) (free_pointers T) (unused (V t)) = heap_chain (rec_next s) (free_pointers T) (unused (V t))"
    by (intro heap_chain_cong) (simp add: f(3))
  then have v1: "thread_at s' h t v'"
    unfolding thread_at_def using T' f(1,4,5) r rnull thread_at_nodes [OF hps_atD(7) [OF at t]]
    by (intro conjI exI [of _ "T\<lparr>pointers := p, free_pointers := r\<rparr>"]) (auto simp: s' v')
  have nx: "thr_next s' = thr_next s" using T by (auto simp: s')
  have lv: "live s' = (live s - set (own t (V t))) \<union> set (own t v')"
    unfolding own' using own by (auto simp: s' simp del: own_simps)
  have fr: "(set (own t v') - set (own t (V t))) \<inter> live s = {}" unfolding own' by simp
  have oth: "hp_threads s' x = hp_threads s x \<and> hp_records s' x = hp_records s x \<and> hp_entries s' x = hp_entries s x"
    if "x \<in> live s" "W x \<noteq> Part_Of t" for x
    using that own [of x] own [of t] f(3) [of x] by (auto simp: s')
  have ins: "t \<notin> set ins" using hps_atD(3) [OF at] t by auto
  show "\<exists>W'. hps_at C s' h ts ins (V(t := v')) W' pend M"
    by (rule exI, rule hps_at_own_change [OF at _ v1 _ _ _ nx oth lv fr]) (use t ins in \<open>auto simp: s'\<close>)
  have nd: "map_option hp_node (f x) = map_option hp_node (hp_records s x)" if "x \<noteq> r" for x
    using f(2) [OF that] .
  have node: "node_in s' x = node_in s x" if x: "x \<noteq> r" "x \<in> set (used (V u))" "u \<in> set ts" for x u
  proof -
    obtain U :: clds_hazard_pointers_thread where "heap_chain (rec_next s) (pointers U) (used (V u))"
      using hps_atD(7) [OF at x(3)] unfolding thread_at_def by blast
    from heap_chain_dom [OF this x(2)] nd [OF x(1)] show ?thesis by (auto simp: s')
  qed
  have rem: "set (remove1 r (used (V t))) = set (used (V t)) - {r}" using T'(2) by simp
  show "held s' v' = (held s (V t))(r := None)"
    using node [OF _ _ t] by (auto simp: held_def v' rem fun_eq_iff)
  have "is_active s' x = is_active s x" for x
    using T by (simp add: is_active_def s')
  then show "only_records s s'"
    by (simp add: only_records_def s' fun_eq_iff)
  show "held s' (V u) = held s (V u)" if "u \<in> set ts" "u \<noteq> t"
  proof -
    have "r \<notin> set (used (V u))" using hps_atD(9) [OF at that(1), of r] own [of r] r that(2) by auto
    then have "node_in s' x = node_in s x" if "x \<in> set (used (V u))" for x
      using node [OF _ that \<open>u \<in> set ts\<close>] that by metis
    then show ?thesis by (simp add: held_def fun_eq_iff)
  qed
qed

theorem wp_release:
  assumes at: "hps_at C s h ts ins V W pend M" and t: "t \<in> set ts" and r: "r \<in> set (used (V t))" and b: "length (used (V t)) < b"
  shows "wp (clds_hazard_pointers_release b t r) (\<lambda>_ s'. \<exists>v' W'.
      hps_at C s' h ts ins (V(t := v')) W' pend M \<and> retired v' = retired (V t) \<and> only_records s s' \<and>
      held s' v' = (held s (V t))(r := None) \<and>
      (\<forall>u \<in> set ts. u \<noteq> t \<longrightarrow> held s' (V u) = held s (V u)) \<and> live s' = live s) s"
    (is "wp _ ?Q s")
proof -
  define Q where "Q = ?Q"
  obtain T where T: "hp_threads s t = Some T" "heap_chain (rec_next s) (pointers T) (used (V t))"
    using hps_atD(7) [OF at t] unfolding thread_at_def by blast
  obtain R where R: "hp_records s r = Some R" using heap_chain_dom [OF T(2) r] by auto
  have rnull: "r \<noteq> null" using heap_chain_not_null [OF T(2)] r by auto
  let ?s = "s\<lparr>hp_records := (hp_records s)(r \<mapsto> R\<lparr>hp_node := null\<rparr>)\<rparr>"
  let ?k = "\<lambda>_. call (on_thread t (rd free_pointers)) (\<lambda>current_free_pointers.
      call (on_record r (wr hp_next_update current_free_pointers)) (\<lambda>_. on_thread t (wr free_pointers_update r)))"
  have ch: "heap_chain (rec_next ?s) (pointers T) (used (V t))"
    using T(2) heap_chain_cong [of "used (V t)" "rec_next ?s" "rec_next s"] R by simp
  have "wp (call (unlink_record b t r (pointers T) null) ?k) Q ?s"
  proof (subst wp_call, rule wp_unlink_record [where us = "[]" and xs = "used (V t)"])
    fix f p
    assume f: "heap_chain (\<lambda>x. map_option hp_next (f x)) p (remove1 r ([] @ used (V t)))"
      "\<And>x. map_option hp_node (f x) = map_option hp_node (hp_records ?s x)"
      "\<And>x. x \<notin> set ([] @ used (V t)) \<or> x = r \<Longrightarrow> f x = hp_records ?s x"
    let ?f = "f(r \<mapsto> R\<lparr>hp_node := null, hp_next := free_pointers T\<rparr>)"
    let ?s' = "s\<lparr>hp_records := ?f, hp_threads := (hp_threads s)(t \<mapsto> T\<lparr>pointers := p, free_pointers := r\<rparr>)\<rparr>"
    have "distinct (used (V t))" using heap_chain_distinct [OF T(2)] .
    then have c: "heap_chain (\<lambda>x. map_option hp_next (?f x)) p (remove1 r (used (V t)))"
      using f(1) by simp
    have "map_option hp_node (?f x) = map_option hp_node (hp_records s x)" if "x \<noteq> r" for x
      using f(2) [of x] that by simp
    moreover have "?f x = hp_records s x" if "x \<notin> set (used (V t))" for x
      using f(3) [of x] that r by auto
    ultimately have "Q () ?s'"
      unfolding Q_def using hps_at_release [OF at t T(1) r c, of "R\<lparr>hp_node := null, hp_next := free_pointers T\<rparr>" ?s', OF _ _ _ _ refl refl]
      by (auto intro!: exI [of _ "(V t)\<lparr>used := remove1 r (used (V t)), unused := r # unused (V t)\<rparr>"])
    moreover have "f r = Some (R\<lparr>hp_node := null\<rparr>)" using f(3) [of r] by simp
    ultimately show "wp (?k ()) Q (?s\<lparr>hp_records := f, hp_threads := (hp_threads ?s)(t \<mapsto> T\<lparr>pointers := p\<rparr>)\<rparr>)"
      by (simp add: wp_simps access_kinds)
  qed (use T ch r b in simp_all)
  then show ?thesis
    unfolding Q_def [symmetric]
    using rnull T R by (simp add: clds_hazard_pointers_release_def wp_simps access_kinds)
qed

section \<open>Changes outside the instance\<close>

text \<open>The client's memory changes from \<open>M\<close> to \<open>M'\<close>, and with it at most what lies there.\<close>

lemma hps_at_client:
  assumes at: "hps_at C s h ts ins V W pend M"
    and same: "hp_structs s' = hp_structs s" "outer s' = outer s"
      "\<And>x. x \<in> live s - M \<Longrightarrow> hp_threads s' x = hp_threads s x \<and> hp_records s' x = hp_records s x \<and> hp_entries s' x = hp_entries s x"
    and live: "live s' - M' = live s - M" "M' \<subseteq> live s'" "finite (live s')"
  shows "hps_at C s' h ts ins V (\<lambda>x. if x \<in> M' then Client else W x) pend M'"
proof -
  obtain H where H: "hp_structs s h = Some H" "reclaim_threshold H \<noteq> 0" "heap_chain (thr_next s) (hp_head H) ts"
    "heap_chain (ent_next s) (pending_reclaim_list H) pend"
    "map hp_thread_handle (C (outer s) (inactive_threads H)) = ins"
    by (rule hps_at_struct [OF at])
  have out: "x \<in> live s - M" if "W x \<noteq> Client" "x \<in> live s" for x
    using that hps_atD(5) [OF at, of x] by auto
  have pe: "x \<in> live s - M" if "x \<in> set pend" for x
    using out hps_atD(4) [OF at that] by simp
  have ow: "x \<in> live s - M" if "t \<in> set (ts @ ins)" "x \<in> set (own t (V t))" for t x
    using out that hps_atD(9,10) [OF at, of t x] by (auto simp del: own_simps)
  have "thr_next s' x = thr_next s x" if "x \<in> set ts" for x
    using same(3) [OF ow [of x x]] that by simp
  then have "heap_chain (thr_next s') (hp_head H) ts"
    using H(3) heap_chain_cong [of ts "thr_next s'" "thr_next s"] by simp
  moreover have "heap_chain (ent_next s') (pending_reclaim_list H) pend"
    using H(4) heap_chain_cong [of pend "ent_next s'" "ent_next s"] same(3) pe by simp
  moreover have "thread_at s' h t (V t)" if t: "t \<in> set (ts @ ins)" for t
    by (rule thread_at_frame [of s]) (use hps_atD(7,8) [OF at, of t] t same(3) ow [OF t] in \<open>auto simp del: own_simps\<close>)
  moreover have "re_node (the (hp_entries s' x)) \<noteq> null" if "x \<in> set pend" for x
    using hps_atD(12) [OF at that] same(3) [OF pe [OF that]] by simp
  moreover have "x \<notin> M'" if "x \<in> live s - M" for x using that live(1) by blast
  moreover have "live s' = insert h (set pend \<union> M' \<union> (\<Union>t \<in> set (ts @ ins). set (own t (V t))))"
  proof -
    have "live s - M = insert h (set pend \<union> (\<Union>t \<in> set (ts @ ins). set (own t (V t))))"
    proof -
      have "insert h (set pend \<union> (\<Union>t \<in> set (ts @ ins). set (own t (V t)))) \<subseteq> live s - M"
        using out hps_atD(6) [OF at] pe ow by (auto simp del: own_simps)
      then show ?thesis using hps_atD(11) [OF at] by blast
    qed
    with live(1,2) show ?thesis by blast
  qed
  ultimately show ?thesis
    unfolding hps_at_def using H same(1,2) live(3) hps_atD(1,3,6) [OF at] hps_atD(4,8,9,10) [OF at] out pe ow
    by (intro conjI exI [of _ H]) (simp_all del: own_simps, (metis UnE)?)
qed

text \<open>Two states with the same hazard pointer objects.\<close>

definition same_hp :: "('q, 'a) hp_mem_scheme \<Rightarrow> ('q, 'a) hp_mem_scheme \<Rightarrow> bool" where
  "same_hp s s' \<longleftrightarrow> hp_records s' = hp_records s \<and> hp_entries s' = hp_entries s \<and> hp_threads s' = hp_threads s \<and>
     hp_structs s' = hp_structs s \<and> outer s' = outer s"

lemma same_hpD:
  assumes "same_hp s s'"
  shows "hp_records s' = hp_records s" "hp_entries s' = hp_entries s" "hp_threads s' = hp_threads s"
    "hp_structs s' = hp_structs s" "outer s' = outer s" "held s' = held s" "is_active s' = is_active s"
  using assms by (auto simp: same_hp_def held_def is_active_def fun_eq_iff)

lemma same_hp_refl [simp]: "same_hp s s"
  and same_hp_trans: "same_hp s s' \<Longrightarrow> same_hp s' s'' \<Longrightarrow> same_hp s s''"
  by (auto simp: same_hp_def)

lemma hps_at_same_hp:
  assumes "hps_at C s h ts ins V W pend M" and "same_hp s s'"
    and "live s' - M' = live s - M" "M' \<subseteq> live s'" "finite (live s')"
  shows "hps_at C s' h ts ins V (\<lambda>x. if x \<in> M' then Client else W x) pend M'"
  by (rule hps_at_client [OF assms(1)]) (use assms(2-5) in \<open>simp_all add: same_hp_def\<close>)

lemma st_outside_same_hp:
  assumes "st_outside F s s'"
  shows "same_hp s s'" and "hp_mem.more s' = hp_mem.more s"
  using assms by (cases s; cases s'; simp add: st_outside_def same_hp_def)+

text \<open>The scratch set stays as it is while its objects are not touched.\<close>

lemma st_set_at_cong:
  assumes "st_set_at s p K F" and "st_sets s' = st_sets s" "st_arrays s' = st_arrays s" "st_items s' = st_items s" "F \<subseteq> live s'"
  shows "st_set_at s' p K F"
proof -
  obtain h heads bs where b: "st_buckets s p h heads bs" "K = key_of s ` set (concat bs)" "F = set (p # hash_set h # concat bs)"
    using assms(1) unfolding st_set_at_def by blast
  have "st_buckets s' p h heads bs"
    using b(1) assms(2-5) unfolding b(3) st_buckets_def by simp
  with b(2,3) assms(4) show ?thesis
    unfolding st_set_at_def by (intro exI [of _ h] exI [of _ heads] exI [of _ bs]) simp
qed

section \<open>Collecting the protected nodes\<close>

text \<open>The set grew from \<open>F\<close> to \<open>F'\<close> by fresh objects, at most \<open>k\<close> of them, with as many allocations.\<close>

definition set_grew :: "nat \<Rightarrow> 'a st_mem_scheme \<Rightarrow> ptr set \<Rightarrow> 'a st_mem_scheme \<Rightarrow> ptr set \<Rightarrow> bool" where
  "set_grew k s F s' F' \<longleftrightarrow> F \<subseteq> F' \<and> (F' - F) \<inter> live s = {} \<and> card F' \<le> card F + k \<and> st_outside F' s s' \<and>
     (\<forall>m. plenty (k + m) s \<longrightarrow> plenty m s')"

lemma set_grew_refl: "set_grew k s F s F"
  by (auto simp: set_grew_def st_outside_def elim: plenty_fewer)

lemma set_grew_trans:
  assumes a: "set_grew k s F s' F'" and b: "set_grew l s' F' s'' F''"
  shows "set_grew (k + l) s F s'' F''"
proof -
  have "x \<notin> live s" if x: "x \<in> F''" "x \<notin> F" for x
  proof (cases "x \<in> F'")
    case True
    then show ?thesis using a x by (auto simp: set_grew_def)
  next
    case False
    then have "x \<notin> live s'" using b x by (auto simp: set_grew_def)
    then show ?thesis using a False by (auto simp: set_grew_def st_outside_def)
  qed
  moreover have "st_outside F'' s s''"
    using a b st_outside_trans [OF st_outside_mono [of F' s s' F'']] by (auto simp: set_grew_def)
  moreover have "plenty m s''" if "plenty (k + l + m) s" for m
    using a b that unfolding set_grew_def by (simp add: add.assoc)
  ultimately show ?thesis using a b by (auto simp: set_grew_def)
qed

lemma set_grew_mono:
  assumes "set_grew k s F s' F'" and "k \<le> l"
  shows "set_grew l s F s' F'"
proof -
  have "plenty m s'" if "plenty (l + m) s" for m
    using assms plenty_fewer [OF that, of "k + m"] by (simp add: set_grew_def)
  then show ?thesis using assms by (simp add: set_grew_def)
qed

lemma wp_insert_grew:
  assumes "st_set_at s p K F" and "k \<noteq> null"
  shows "wp (clds_st_hash_set_insert p k) (\<lambda>r s'. \<exists>K' F'. st_set_at s' p K' F' \<and> set_grew 1 s F s' F' \<and>
    (r = CLDS_ST_HASH_SET_INSERT_OK \<longrightarrow> K' = insert k K) \<and> (r = CLDS_ST_HASH_SET_INSERT_OK \<or> r = CLDS_ST_HASH_SET_INSERT_ERROR \<and> \<not> plenty 1 s)) s"
proof (rule wp_mono [OF st.ins [OF assms]])
  fix r s'
  have "finite F" by (rule st.finite [OF assms(1)])
  then have card: "card (insert x F) \<le> card F + 1" for x by (simp add: card_insert_if)
  assume "r = CLDS_ST_HASH_SET_INSERT_ERROR \<and> st_set_at s' p K F \<and> st_outside F s s' \<and> \<not> plenty 1 s \<or>
     r = CLDS_ST_HASH_SET_INSERT_OK \<and>
     (\<exists>x. x \<notin> live s \<and> st_set_at s' p (insert k K) (insert x F) \<and> st_outside (insert x F) s s') \<and>
     plenty 1 s \<and> (\<forall>m. plenty (Suc m) s \<longrightarrow> plenty m s')"
  then show "\<exists>K' F'. st_set_at s' p K' F' \<and> set_grew 1 s F s' F' \<and>
    (r = CLDS_ST_HASH_SET_INSERT_OK \<longrightarrow> K' = insert k K) \<and> (r = CLDS_ST_HASH_SET_INSERT_OK \<or> r = CLDS_ST_HASH_SET_INSERT_ERROR \<and> \<not> plenty 1 s)"
  proof (elim disjE conjE exE)
    assume "r = CLDS_ST_HASH_SET_INSERT_ERROR" "st_set_at s' p K F" "st_outside F s s'" "\<not> plenty 1 s"
    moreover have "\<not> plenty (Suc m) s" for m using plenty_fewer [of "Suc m" s 1] \<open>\<not> plenty 1 s\<close> by auto
    ultimately show ?thesis by (intro exI [of _ K] exI [of _ F]) (simp add: set_grew_def)
  next
    fix x assume "r = CLDS_ST_HASH_SET_INSERT_OK" "x \<notin> live s" "st_set_at s' p (insert k K) (insert x F)" "st_outside (insert x F) s s'"
      "\<forall>m. plenty (Suc m) s \<longrightarrow> plenty m s'"
    then show ?thesis
      using card [of x] by (intro exI [of _ "insert k K"] exI [of _ "insert x F"]) (auto simp: set_grew_def)
  qed
qed

lemma wp_collect_pointers:
  assumes "st_set_at s p K F" and "heap_chain (rec_next s) hp xs" and "length xs < n"
  shows "wp (collect_pointers n p hp) (\<lambda>r s'. \<exists>K' F'. st_set_at s' p K' F' \<and> set_grew (length xs) s F s' F' \<and>
    (r = null \<longrightarrow> K' = K \<union> (node_in s ` set xs - {null})) \<and> (r \<noteq> null \<longrightarrow> \<not> plenty (length xs) s)) s"
  using assms
proof (induction xs arbitrary: s K F hp n)
  case Nil
  then have "n \<noteq> 0" "hp = null" by auto
  with Nil.prems(1) show ?case
    by (cases n) (auto simp: wp_simps intro!: exI [of _ K] exI [of _ F] set_grew_refl)
next
  case (Cons x xs)
  obtain m R where n: "n = Suc m" "length xs < m" and R: "hp = x" "x \<noteq> null" "hp_records s x = Some R" "heap_chain (rec_next s) (hp_next R) xs"
    using Cons.prems(2,3) by (cases n) auto
  define Q where "Q = (\<lambda>r s'. \<exists>K' F'. st_set_at s' p K' F' \<and> set_grew (Suc (length xs)) s F s' F' \<and>
    (r = null \<longrightarrow> K' = K \<union> (insert (hp_node R) (node_in s ` set xs) - {null})) \<and> (r \<noteq> null \<longrightarrow> \<not> plenty (Suc (length xs)) s))"
  have fewer: "plenty (length xs) s" "plenty 1 s" if "plenty (Suc (length xs)) s" using plenty_fewer [OF that] by auto
  show ?case
  proof (cases "hp_node R = null")
    case True
    have "wp (collect_pointers m p (hp_next R)) Q s"
    proof (rule wp_mono [OF Cons.IH [OF Cons.prems(1) R(4) n(2)]], elim exE conjE)
      fix a s2 K2 F2
      assume s2: "st_set_at s2 p K2 F2" "set_grew (length xs) s F s2 F2" "a = null \<longrightarrow> K2 = K \<union> (node_in s ` set xs - {null})"
        "a \<noteq> null \<longrightarrow> \<not> plenty (length xs) s"
      show "Q a s2"
        unfolding Q_def using s2(1,3,4) True fewer set_grew_mono [OF s2(2), of "Suc (length xs)"]
        by - (rule exI [of _ K2], rule exI [of _ F2], auto)
    qed
    then show ?thesis
      using n R True by (simp add: wp_simps access_kinds Q_def)
  next
    case False
    have "wp (call (clds_st_hash_set_insert p (hp_node R)) (\<lambda>insert_result.
          if insert_result = CLDS_ST_HASH_SET_INSERT_OK \<or> insert_result = CLDS_ST_HASH_SET_INSERT_KEY_ALREADY_EXISTS
          then collect_pointers m p (hp_next R)
          else Done x)) Q s"
    proof (rule wp_seq [OF wp_insert_grew [OF Cons.prems(1) False]], elim exE conjE)
      fix r s1 K1 F1
      assume s1: "st_set_at s1 p K1 F1" "set_grew 1 s F s1 F1" "r = CLDS_ST_HASH_SET_INSERT_OK \<longrightarrow> K1 = insert (hp_node R) K"
        "r = CLDS_ST_HASH_SET_INSERT_OK \<or> r = CLDS_ST_HASH_SET_INSERT_ERROR \<and> \<not> plenty 1 s"
      have mem: "plenty (length xs) s1" if "plenty (Suc (length xs)) s" using s1(2) that by (simp add: set_grew_def)
      have same: "hp_records s1 = hp_records s"
        using s1(2) st_outside_same_hp(1) same_hpD(1) unfolding set_grew_def by blast
      have "wp (collect_pointers m p (hp_next R)) Q s1" if r: "r = CLDS_ST_HASH_SET_INSERT_OK"
      proof (rule wp_mono [OF Cons.IH [OF s1(1) _ n(2)]])
        show "heap_chain (rec_next s1) (hp_next R) xs" using R(4) same by simp
        fix a s2
        assume "\<exists>K' F'. st_set_at s2 p K' F' \<and> set_grew (length xs) s1 F1 s2 F' \<and> (a = null \<longrightarrow> K' = K1 \<union> (node_in s1 ` set xs - {null})) \<and>
          (a \<noteq> null \<longrightarrow> \<not> plenty (length xs) s1)"
        then obtain K2 F2 where s2: "st_set_at s2 p K2 F2" "set_grew (length xs) s1 F1 s2 F2"
          "a = null \<longrightarrow> K2 = K1 \<union> (node_in s1 ` set xs - {null})" "a \<noteq> null \<longrightarrow> \<not> plenty (length xs) s1" by blast
        then show "Q a s2"
          using set_grew_trans [OF s1(2) s2(2)] s1(3) r same False s2(4) mem
          unfolding Q_def by (intro exI [of _ K2] exI [of _ F2]) auto
      qed
      moreover have "Q x s1" if "r \<noteq> CLDS_ST_HASH_SET_INSERT_OK"
        unfolding Q_def using s1 R that fewer set_grew_mono [OF s1(2)] by - (rule exI [of _ K1], rule exI [of _ F1], auto)
      ultimately show "wp (if r = CLDS_ST_HASH_SET_INSERT_OK \<or> r = CLDS_ST_HASH_SET_INSERT_KEY_ALREADY_EXISTS
          then collect_pointers m p (hp_next R) else Done x) Q s1"
        using s1(4) by (auto simp: wp_simps)
    qed
    then show ?thesis
      using n R False by (simp add: wp_simps access_kinds Q_def)
  qed
qed

text \<open>The nodes that some active thread protects.\<close>

definition protected_nodes :: "('q, 'a) hp_mem_scheme \<Rightarrow> ptr list \<Rightarrow> (ptr \<Rightarrow> thread_view) \<Rightarrow> ptr set" where
  "protected_nodes s ts V = (\<Union>t \<in> {t \<in> set ts. is_active s t}. node_in s ` set (used (V t))) - {null}"

lemma protected_nodes_simps [simp]:
  "protected_nodes s [] V = {}"
  "protected_nodes s (t # ts) V =
     (if is_active s t then node_in s ` set (used (V t)) - {null} else {}) \<union> protected_nodes s ts V"
  by (auto simp: protected_nodes_def)

lemma same_hp_protected: "same_hp s s' \<Longrightarrow> protected_nodes s' ts V = protected_nodes s ts V"
  by (simp add: protected_nodes_def same_hpD)

lemma wp_collect_threads:
  assumes "st_set_at s p K F" and "heap_chain (thr_next s) cur ts" and "length ts < n"
    and "\<And>t. t \<in> set ts \<Longrightarrow> thread_at s h t (V t)" and "\<And>t. t \<in> set ts \<Longrightarrow> length (used (V t)) < b"
  shows "wp (collect_threads b n p cur) (\<lambda>r s'. \<exists>K' F'. st_set_at s' p K' F' \<and>
    set_grew (\<Sum>t \<leftarrow> ts. length (used (V t))) s F s' F' \<and> (r = null \<longrightarrow> K' = K \<union> protected_nodes s ts V) \<and>
    (r \<noteq> null \<longrightarrow> \<not> plenty (\<Sum>t \<leftarrow> ts. length (used (V t))) s)) s"
  using assms
proof (induction ts arbitrary: s K F cur n)
  case Nil
  then have "n \<noteq> 0" "cur = null" by auto
  with Nil.prems(1) show ?case
    by (cases n) (auto simp: wp_simps intro!: exI [of _ K] exI [of _ F] set_grew_refl)
next
  case (Cons x ts)
  obtain m T where n: "n = Suc m" "length ts < m" and T: "cur = x" "x \<noteq> null" "hp_threads s x = Some T" "heap_chain (thr_next s) (th_next T) ts"
    using Cons.prems(2,3) by (cases n) auto
  define k where "k = (\<Sum>t \<leftarrow> ts. length (used (V t)))"
  define Q where "Q = (\<lambda>r s'. \<exists>K' F'. st_set_at s' p K' F' \<and> set_grew (length (used (V x)) + k) s F s' F' \<and>
    (r = null \<longrightarrow> K' = K \<union> protected_nodes s (x # ts) V) \<and> (r \<noteq> null \<longrightarrow> \<not> plenty (length (used (V x)) + k) s))"
  have rest: "wp (collect_threads b m p (th_next T)) Q s1"
    if s1: "st_set_at s1 p K1 F1" "set_grew (length (used (V x))) s F s1 F1"
      and K1: "K1 \<union> protected_nodes s ts V = K \<union> protected_nodes s (x # ts) V" for s1 K1 F1
  proof -
    have same: "same_hp s s1" using s1(2) st_outside_same_hp(1) unfolding set_grew_def by blast
    have "wp (collect_threads b m p (th_next T)) (\<lambda>r s'. \<exists>K' F'. st_set_at s' p K' F' \<and>
        set_grew k s1 F1 s' F' \<and> (r = null \<longrightarrow> K' = K1 \<union> protected_nodes s1 ts V) \<and> (r \<noteq> null \<longrightarrow> \<not> plenty k s1)) s1"
      unfolding k_def
    proof (rule Cons.IH [OF s1(1) _ n(2)])
      show "heap_chain (thr_next s1) (th_next T) ts" using T(4) same by (simp add: same_hpD)
      show "thread_at s1 h t (V t)" if "t \<in> set ts" for t
        using Cons.prems(4) [of t] that same thread_at_frame [of s h t "V t" s1] by (simp add: same_hpD)
    qed (use Cons.prems(5) in simp)
    then show ?thesis
    proof (rule wp_mono, elim exE conjE)
      fix a s2 K2 F2
      assume s2: "st_set_at s2 p K2 F2" "set_grew k s1 F1 s2 F2" "a = null \<longrightarrow> K2 = K1 \<union> protected_nodes s1 ts V"
        "a \<noteq> null \<longrightarrow> \<not> plenty k s1"
      moreover have "plenty k s1" if "plenty (length (used (V x)) + k) s" using s1(2) that by (simp add: set_grew_def)
      ultimately show "Q a s2"
        using set_grew_trans [OF s1(2) s2(2)] K1 same_hp_protected [OF same]
        unfolding Q_def by - (rule exI [of _ K2], rule exI [of _ F2], auto)
    qed
  qed
  have "wp (call (if active T = 1 then
          call (collect_pointers b p (pointers T)) (\<lambda>hp. Done (hp \<noteq> null)) else Done False) (\<lambda>stopped.
          if stopped then Done x else collect_threads b m p (th_next T))) Q s"
  proof (cases "active T = 1")
    case True
    obtain T' :: clds_hazard_pointers_thread where "hp_threads s x = Some T'" "heap_chain (rec_next s) (pointers T') (used (V x))"
      using Cons.prems(4) [of x] unfolding thread_at_def by auto
    with T(3) have ch: "heap_chain (rec_next s) (pointers T) (used (V x))" by simp
    have "length (used (V x)) < b" using Cons.prems(5) by simp
    have "wp (call (collect_pointers b p (pointers T)) (\<lambda>hp. if hp \<noteq> null then Done x else collect_threads b m p (th_next T))) Q s"
    proof (rule wp_seq [OF wp_collect_pointers [OF Cons.prems(1) ch \<open>length (used (V x)) < b\<close>]], elim exE conjE)
      fix hp s1 K1 F1
      assume s1: "st_set_at s1 p K1 F1" "set_grew (length (used (V x))) s F s1 F1"
        "hp = null \<longrightarrow> K1 = K \<union> (node_in s ` set (used (V x)) - {null})" "hp \<noteq> null \<longrightarrow> \<not> plenty (length (used (V x))) s"
      have "is_active s x" using T(3) True by (simp add: is_active_def)
      then have "wp (collect_threads b m p (th_next T)) Q s1" if "hp = null"
        using s1(3) that by (intro rest [OF s1(1,2)]) auto
      moreover have "Q x s1" if "hp \<noteq> null"
        unfolding Q_def using s1 T that plenty_fewer [of "length (used (V x)) + k" s "length (used (V x))"] set_grew_mono [OF s1(2)] by - (rule exI [of _ K1], rule exI [of _ F1], auto)
      ultimately show "wp (if hp \<noteq> null then Done x else collect_threads b m p (th_next T)) Q s1"
        by (simp add: wp_simps)
    qed
    with True show ?thesis by (simp add: wp_funs)
  next
    case False
    then have "\<not> is_active s x" using T(3) by (simp add: is_active_def)
    then have "wp (collect_threads b m p (th_next T)) Q s"
      by (intro rest [OF Cons.prems(1) set_grew_refl]) simp
    with False show ?thesis by (simp add: wp_simps)
  qed
  then have "wp (collect_threads b n p cur) Q s"
    using n T by (auto simp: wp_funs wp_access access_kinds split: if_splits)
  then show ?case unfolding Q_def k_def by simp
qed

section \<open>Reclaiming the unprotected nodes\<close>

text \<open>
  What a reclaim function is relied upon to do. \<open>J R M s\<close> is the client's invariant: \<open>R\<close> are the
  reclaim calls still owed, \<open>M\<close> is the client's memory. A call takes a call off \<open>R\<close>, may free some
  of the client's memory and touches nothing of the hazard pointers; the invariant does not depend
  on the hazard pointers' own objects. \<open>drop_ok J\<close>: the invariant stays true when a call owed is dropped,
  which happens when there is no memory to note it.
\<close>

definition client_step :: "ptr set \<Rightarrow> ptr set \<Rightarrow> ('q, 'a) hp_mem_scheme \<Rightarrow> ('q, 'a) hp_mem_scheme \<Rightarrow> bool" where
  "client_step M M' s s' \<longleftrightarrow> same_hp s s' \<and> st_sets s' = st_sets s \<and> st_arrays s' = st_arrays s \<and> st_items s' = st_items s \<and>
     M' \<subseteq> M \<and> M' \<subseteq> live s' \<and> live s' - M' = live s - M"

definition reclaim_ok :: "(ptr \<Rightarrow> ptr \<Rightarrow> (('q, 'a) hp_mem_scheme, unit) prog) \<Rightarrow>
    ((ptr \<times> ptr) multiset \<Rightarrow> ptr set \<Rightarrow> ('q, 'a) hp_mem_scheme \<Rightarrow> bool) \<Rightarrow> bool" where
  "reclaim_ok rf J \<longleftrightarrow>
     (\<forall>R M s f n. (f, n) \<in># R \<longrightarrow> M \<subseteq> live s \<longrightarrow> J R M s \<longrightarrow>
        wp (rf f n) (\<lambda>_ s'. \<exists>M'. client_step M M' s s' \<and> J (R - {#(f, n)#}) M' s') s) \<and>
     (\<forall>R M s s'. J R M s \<longrightarrow> hp_mem.more s' = hp_mem.more s \<longrightarrow> J R M s')"

definition drop_ok :: "((ptr \<times> ptr) multiset \<Rightarrow> ptr set \<Rightarrow> 's \<Rightarrow> bool) \<Rightarrow> bool" where
  "drop_ok J \<longleftrightarrow> (\<forall>R R' M s. J R M s \<longrightarrow> R' \<subseteq># R \<longrightarrow> J R' M s)"

lemma reclaim_okD:
  assumes "reclaim_ok rf J"
  shows "(f, n) \<in># R \<Longrightarrow> M \<subseteq> live s \<Longrightarrow> J R M s \<Longrightarrow>
      wp (rf f n) (\<lambda>_ s'. \<exists>M'. client_step M M' s s' \<and> J (R - {#(f, n)#}) M' s') s"
    and "J R M s \<Longrightarrow> hp_mem.more s' = hp_mem.more s \<Longrightarrow> J R M s'"
  using assms unfolding reclaim_ok_def by blast+

text \<open>The payload of the entries outside \<open>D\<close> stays, and so do the records.\<close>

definition same_payload :: "ptr set \<Rightarrow> ('q, 'a) hp_mem_scheme \<Rightarrow> ('q, 'a) hp_mem_scheme \<Rightarrow> bool" where
  "same_payload D s s' \<longleftrightarrow> hp_records s' = hp_records s \<and> is_active s' = is_active s \<and>
     (\<forall>e. e \<notin> D \<longrightarrow> retired_in s' e = retired_in s e)"

lemma same_payload_trans: "same_payload D s s' \<Longrightarrow> same_payload D' s' s'' \<Longrightarrow> same_payload (D \<union> D') s s''"
  by (simp add: same_payload_def)

lemma same_payload_mono: "same_payload D s s' \<Longrightarrow> D \<subseteq> D' \<Longrightarrow> same_payload D' s s'"
  by (auto simp: same_payload_def)

lemma same_hp_payload: "same_hp s s' \<Longrightarrow> same_payload {} s s'"
  by (simp add: same_payload_def same_hpD)

lemma same_payload_map:
  "same_payload D s s' \<Longrightarrow> set es \<inter> D = {} \<Longrightarrow> map (retired_in s') es = map (retired_in s) es"
  by (auto simp: same_payload_def)

text \<open>Entry \<open>e\<close> is taken off the reclaim list of \<open>t\<close> and freed.\<close>

lemma hps_at_drop_entry:
  assumes at: "hps_at C s h ts ins V W pend M" and t: "t \<in> set ts" and T: "hp_threads s t = Some T"
    and ret: "retired (V t) = ks @ e # rest" and E: "hp_entries s e = Some E"
    and s': "hp_threads s' = (hp_threads s)(t \<mapsto> T\<lparr>reclaim_list := (if ks = [] then re_next E else reclaim_list T),
        reclaim_list_entry_count := reclaim_list_entry_count T - 1\<rparr>)"
      "hp_entries s' = (if ks = [] then hp_entries s else (hp_entries s)(last ks \<mapsto>
        (the (hp_entries s (last ks)))\<lparr>re_next := re_next E\<rparr>))(e := None)"
      "hp_records s' = hp_records s" "hp_structs s' = hp_structs s" "outer s' = outer s" "live s' = live s - {e}"
  shows "\<exists>W'. hps_at C s' h ts ins (V(t := (V t)\<lparr>retired := ks @ rest\<rparr>)) W' pend M" and "same_payload {e} s s'"
proof -
  let ?v = "(V t)\<lparr>retired := ks @ rest\<rparr>"
  note ta = hps_atD(7) [OF at t]
  obtain T' where T': "t \<noteq> null" "distinct (own t (V t))" "hp_threads s t = Some T'" "th_hazard_pointers T' = h"
    "heap_chain (rec_next s) (pointers T') (used (V t))" "heap_chain (rec_next s) (free_pointers T') (unused (V t))"
    "heap_chain (ent_next s) (reclaim_list T') (retired (V t))" "reclaim_list_entry_count T' = of_nat (length (retired (V t)))"
    by (rule thread_atE [OF ta])
  with T have [simp]: "T' = T" by simp
  have own: "x \<in> set (own t (V t)) \<Longrightarrow> x \<in> live s \<and> W x = Part_Of t" for x
    using hps_atD(9) [OF at t] by blast
  have dist: "distinct (ks @ e # rest)" using T'(2) ret by simp
  have chain: "heap_chain (ent_next s') (if ks = [] then re_next E else reclaim_list T) (ks @ rest)"
  proof (cases ks rule: rev_cases)
    case Nil
    have "heap_chain (ent_next s) (re_next E) rest" using T'(7) ret Nil E by auto
    then show ?thesis using Nil dist by (simp add: s')
  next
    case (snoc vs a)
    have ch: "heap_chain (ent_next s) (reclaim_list T) (vs @ a # e # rest)" using T'(7) ret snoc by simp
    have ne: "ent_next s e = Some (re_next E)" using E by simp
    obtain A where A: "hp_entries s a = Some A" using heap_chain_dom [OF ch, of a] by auto
    have "ent_next s' x = ((ent_next s)(a \<mapsto> re_next E)) x" if "x \<in> set (vs @ a # rest)" for x
      using that dist snoc A by (auto simp: s')
    with heap_chain_unlink [OF ch ne] heap_chain_cong [of "vs @ a # rest" "ent_next s'" "(ent_next s)(a \<mapsto> re_next E)"]
    show ?thesis using snoc by simp
  qed
  have payload: "re_node (the (hp_entries s' x)) = re_node (the (hp_entries s x)) \<and>
      re_reclaim (the (hp_entries s' x)) = re_reclaim (the (hp_entries s x))" if "x \<noteq> e" for x
    using that by (auto simp: s')
  have own': "set (own t ?v) = set (own t (V t)) - {e}"
    using dist T'(2) ret by auto
  have v1: "thread_at s' h t ?v"
    unfolding thread_at_def
  proof (intro conjI exI [of _ "T\<lparr>reclaim_list := (if ks = [] then re_next E else reclaim_list T),
        reclaim_list_entry_count := reclaim_list_entry_count T - 1\<rparr>"])
    show "\<forall>x \<in> set (retired ?v). re_node (the (hp_entries s' x)) \<noteq> null"
    proof
      fix x assume x: "x \<in> set (retired ?v)"
      then have "x \<noteq> e" using dist by auto
      with x payload thread_at_nodes [OF ta, of x] ret show "re_node (the (hp_entries s' x)) \<noteq> null" by auto
    qed
    show "distinct (own t ?v)" using T'(2) ret by auto
  qed (use T' chain ret in \<open>simp_all add: s'(1,3)\<close>)
  have nx: "thr_next s' = thr_next s" using T by (auto simp: s')
  have lv: "live s' = (live s - set (own t (V t))) \<union> set (own t ?v)"
  proof -
    have "set (own t (V t)) \<subseteq> live s" using own by blast
    moreover have "e \<in> set (own t (V t))" using ret by simp
    ultimately show ?thesis unfolding own' s' by blast
  qed
  have fr: "(set (own t ?v) - set (own t (V t))) \<inter> live s = {}" unfolding own' by blast
  have oth: "hp_threads s' x = hp_threads s x \<and> hp_records s' x = hp_records s x \<and> hp_entries s' x = hp_entries s x"
    if "x \<in> live s" "W x \<noteq> Part_Of t" for x
  proof -
    have "x \<notin> set (own t (V t))" using own [of x] that(2) by blast
    then have "x \<noteq> t" "x \<noteq> e" "ks \<noteq> [] \<Longrightarrow> x \<noteq> last ks" using ret by auto
    then show ?thesis by (auto simp: s')
  qed
  have ins: "t \<notin> set ins" using hps_atD(3) [OF at] t by auto
  show "\<exists>W'. hps_at C s' h ts ins (V(t := ?v)) W' pend M"
    by (rule exI, rule hps_at_own_change [OF at _ v1 _ s'(4,5) nx oth lv fr]) (use t ins in auto)
  have "is_active s' x = is_active s x" for x using T by (simp add: is_active_def s')
  then show "same_payload {e} s s'"
    using payload by (simp add: same_payload_def s'(3) fun_eq_iff)
qed

text \<open>A step of the client, while the scratch set with the objects \<open>F\<close> is in use.\<close>

lemma hps_at_client_step:
  assumes at: "hps_at C s h ts ins V W pend (M \<union> F)" and M: "M \<inter> F = {}" and step: "client_step M M' s s'"
    and set: "st_set_at s p K F"
  shows "\<exists>W'. hps_at C s' h ts ins V W' pend (M' \<union> F)" and "M' \<inter> F = {}" and "st_set_at s' p K F"
    and "M' \<subseteq> live s'"
proof -
  have F: "F \<subseteq> live s'"
  proof -
    have "F \<subseteq> live s - M" using st.owned [OF set] M by blast
    then show ?thesis using step by (auto simp: client_step_def)
  qed
  have "live s' - (M' \<union> F) = live s - (M \<union> F)"
    using step by (auto simp: client_step_def)
  moreover have "finite (live s')"
  proof -
    have "live s' \<subseteq> live s"
      using step hps_atD(5) [OF at] unfolding client_step_def by blast
    then show ?thesis using hps_atD(2) [OF at] by (rule finite_subset)
  qed
  ultimately show "\<exists>W'. hps_at C s' h ts ins V W' pend (M' \<union> F)"
    using hps_at_same_hp [OF at, of s' "M' \<union> F"] step F unfolding client_step_def by blast
  show "M' \<inter> F = {}" using step M by (auto simp: client_step_def)
  show "st_set_at s' p K F"
    by (rule st_set_at_cong [OF set]) (use step F in \<open>auto simp: client_step_def\<close>)
  show "M' \<subseteq> live s'" using step by (simp add: client_step_def)
qed

abbreviation protected_entry :: "('q, 'a) hp_mem_scheme \<Rightarrow> ptr set \<Rightarrow> ptr \<Rightarrow> bool" where
  "protected_entry s K \<equiv> \<lambda>e. snd (retired_in s e) \<in> K"

abbreviation owed_after :: "ptr set \<Rightarrow> (ptr \<times> ptr) list \<Rightarrow> (ptr \<times> ptr) multiset" where
  "owed_after K rs \<equiv> mset (filter (\<lambda>r. snd r \<in> K) rs)"

lemma wp_reclaim_retired:
  assumes J: "reclaim_ok rf J" and t: "t \<in> set ts"
  assumes "hps_at C s h ts ins V W pend (M \<union> F)" and "M \<inter> F = {}"
    and "retired (V t) = ks @ rest" and "cur = (case rest of [] \<Rightarrow> null | x # _ \<Rightarrow> x)"
    and "prev = (if ks = [] then null else last ks)"
    and "st_set_at s p K F" and "card F \<le> b" and "length rest < n"
    and "J (owed + mset (map (retired_in s) rest)) M s"
  shows "wp (reclaim_retired rf b n p t cur prev) (\<lambda>_ s'. \<exists>M' W'.
      hps_at C s' h ts ins (V(t := (V t)\<lparr>retired := ks @ filter (protected_entry s K) rest\<rparr>)) W' pend (M' \<union> F) \<and>
      M' \<subseteq> M \<and> M' \<inter> F = {} \<and> st_set_at s' p K F \<and>
      J (owed + owed_after K (map (retired_in s) rest)) M' s' \<and>
      same_payload (set (filter (\<lambda>e. \<not> protected_entry s K e) rest)) s s') s"
  using assms(3-)
proof (induction rest arbitrary: ks s V W M owed cur prev n)
  case Nil
  then have "n \<noteq> 0" "cur = null" by auto
  moreover have "V(t := (V t)\<lparr>retired := ks\<rparr>) = V" using Nil.prems(3) by auto
  ultimately show ?case
    using Nil.prems by (cases n) (auto simp: wp_simps same_payload_def intro!: exI [of _ M])
next
  case (Cons e rest)
  note at = Cons.prems(1) and M = Cons.prems(2) and ret = Cons.prems(3) and set = Cons.prems(6)
  obtain m where n: "n = Suc m" "length rest < m" using Cons.prems(8) by (cases n) auto
  obtain T :: clds_hazard_pointers_thread where T: "hp_threads s t = Some T" "heap_chain (ent_next s) (reclaim_list T) (ks @ e # rest)" "distinct (ks @ e # rest)"
    using hps_atD(7) [OF at t] ret unfolding thread_at_def by auto
  obtain E where E: "hp_entries s e = Some E" using heap_chain_dom [OF T(2), of e] by auto
  have nxt: "re_next E = (case rest of [] \<Rightarrow> null | x # _ \<Rightarrow> x)"
    using heap_chain_suffix [OF T(2)] E by (auto dest: heap_chain_first)
  have nonnull: "e \<noteq> null" "null \<notin> set ks" using heap_chain_not_null [OF T(2)] by auto
  have node: "re_node E \<noteq> null" using thread_at_nodes [OF hps_atD(7) [OF at t], of e] ret E by simp
  have cur: "cur = e" using Cons.prems(4) by simp
  define Q where "Q = (\<lambda>(_ :: unit) s'. \<exists>M' W'.
      hps_at C s' h ts ins (V(t := (V t)\<lparr>retired := ks @ filter (protected_entry s K) (e # rest)\<rparr>)) W' pend (M' \<union> F) \<and>
      M' \<subseteq> M \<and> M' \<inter> F = {} \<and> st_set_at s' p K F \<and>
      J (owed + owed_after K (map (retired_in s) (e # rest))) M' s' \<and>
      same_payload (set (filter (\<lambda>e. \<not> protected_entry s K e) (e # rest))) s s')"
  have found: "wp (clds_st_hash_set_find b p (re_node E)) P s"
    if "P (if re_node E \<in> K then CLDS_ST_HASH_SET_FIND_OK else CLDS_ST_HASH_SET_FIND_NOT_FOUND) s" for P
    by (rule wp_mono [OF st.find [OF set node Cons.prems(7)]]) (use that in auto)
  show ?case
  proof (cases "re_node E \<in> K")
    case True
    have 1: "retired (V t) = (ks @ [e]) @ rest" "e = (if ks @ [e] = [] then null else last (ks @ [e]))"
      "J ((owed + {#retired_in s e#}) + mset (map (retired_in s) rest)) M s"
      using ret Cons.prems(9) by simp_all
    have "wp (reclaim_retired rf b m p t (re_next E) e) Q s"
    proof (rule wp_mono [OF Cons.IH [OF at M 1(1) nxt 1(2) set Cons.prems(7) n(2) 1(3)]], elim exE conjE)
      fix s' M' W' and a :: unit
      assume "hps_at C s' h ts ins (V(t := (V t)\<lparr>retired := (ks @ [e]) @ filter (protected_entry s K) rest\<rparr>)) W' pend (M' \<union> F)"
        "M' \<subseteq> M" "M' \<inter> F = {}" "st_set_at s' p K F"
        "J (owed + {#retired_in s e#} + owed_after K (map (retired_in s) rest)) M' s'"
        "same_payload (set (filter (\<lambda>e. \<not> protected_entry s K e) rest)) s s'"
      then show "Q a s'"
        unfolding Q_def using E True by (intro exI [of _ M'] exI [of _ W']) simp
    qed
    then show ?thesis
      unfolding Q_def [symmetric] using n cur nonnull E True by (auto simp: wp_simps access_kinds intro!: found)
  next
    case False
    let ?r = "(re_reclaim E, re_node E)"
    have owed: "J (owed + mset (map (retired_in s) (e # rest))) M s" by (rule Cons.prems(9))
    have Mlive: "M \<subseteq> live s" using hps_atD(5) [OF at] by blast
    have "wp (rf (re_reclaim E) (re_node E)) (\<lambda>_ s'. \<exists>M'. client_step M M' s s' \<and> J (owed + mset (map (retired_in s) (e # rest)) - {#?r#}) M' s') s"
      by (rule reclaim_okD(1) [OF J _ Mlive owed]) (use E in simp)
    moreover have less: "owed + mset (map (retired_in s) (e # rest)) - {#?r#} = owed + mset (map (retired_in s) rest)"
      using E by simp
    ultimately have call: "wp (rf (re_reclaim E) (re_node E)) (\<lambda>_ s'. \<exists>M'. client_step M M' s s' \<and> J (owed + mset (map (retired_in s) rest)) M' s') s"
      by simp
    define k where "k = call (on_entry e (rd re_next)) (\<lambda>nxt.
            call (if prev = null then on_thread t (wr reclaim_list_update nxt)
                  else on_entry prev (wr re_next_update nxt)) (\<lambda>_.
            call (free_entry e) (\<lambda>_.
            call (if prev = null then on_thread t (rd reclaim_list)
                  else on_entry prev (rd re_next)) (\<lambda>current.
            call (on_thread t (add_fetch reclaim_list_entry_count reclaim_list_entry_count_update (- 1))) (\<lambda>_.
            reclaim_retired rf b m p t current prev)))))"
    have after: "wp k Q s1" if step: "client_step M M1 s s1" and J1: "J (owed + mset (map (retired_in s) rest)) M1 s1" for s1 M1
    proof -
      obtain W1 where at1: "hps_at C s1 h ts ins V W1 pend (M1 \<union> F)"
        using hps_at_client_step(1) [OF at M step set] by blast
      note c = hps_at_client_step(2-4) [OF at M step set]
      have same: "same_hp s s1" using step by (simp add: client_step_def)
      note eqs = same_hpD [OF same]
      let ?T = "T\<lparr>reclaim_list := (if ks = [] then re_next E else reclaim_list T), reclaim_list_entry_count := reclaim_list_entry_count T - 1\<rparr>"
      let ?E = "(if ks = [] then hp_entries s else (hp_entries s)(last ks \<mapsto>
        (the (hp_entries s (last ks)))\<lparr>re_next := re_next E\<rparr>))(e := None)"
      define s2 where "s2 = s1\<lparr>live := live s1 - {e}, hp_entries := ?E, hp_threads := (hp_threads s)(t \<mapsto> ?T)\<rparr>"
      have e: "e \<in> live s1" "e \<notin> F" "W1 e = Part_Of t" "\<not> e \<in> M1"
        using hps_atD(9) [OF at1 t, of e] hps_atD(5) [OF at1, of e] ret by auto
      have drop: "\<exists>W'. hps_at C s2 h ts ins (V(t := (V t)\<lparr>retired := ks @ rest\<rparr>)) W' pend (M1 \<union> F)" "same_payload {e} s1 s2"
        by (rule hps_at_drop_entry [OF at1 t _ ret, of T E]; use T E in \<open>simp add: eqs s2_def\<close>)+
      then obtain W2 where at2: "hps_at C s2 h ts ins (V(t := (V t)\<lparr>retired := ks @ rest\<rparr>)) W2 pend (M1 \<union> F)" by blast
      have set2: "st_set_at s2 p K F"
        by (rule st_set_at_cong [OF c(2)]) (use e st.owned [OF c(2)] in \<open>auto simp: s2_def\<close>)
      have pay: "same_payload {e} s s2"
        using same_payload_trans [OF same_hp_payload [OF same] drop(2)] by simp
      have rest: "map (retired_in s2) rest = map (retired_in s) rest"
        by (rule same_payload_map [OF pay]) (use T(3) in auto)
      have filt: "filter (protected_entry s2 K) rest = filter (protected_entry s K) rest"
        "filter (\<lambda>e. \<not> protected_entry s2 K e) rest = filter (\<lambda>e. \<not> protected_entry s K e) rest"
        using rest by (auto intro: filter_cong)
      have J2: "J (owed + mset (map (retired_in s2) rest)) M1 s2"
        unfolding rest by (rule reclaim_okD(2) [OF J J1]) (simp add: s2_def)
      have ret2: "retired ((V(t := (V t)\<lparr>retired := ks @ rest\<rparr>)) t) = ks @ rest" by simp
      have upd: "(V(t := (V t)\<lparr>retired := ks @ rest\<rparr>))(t := ((V(t := (V t)\<lparr>retired := ks @ rest\<rparr>)) t)\<lparr>retired := ys\<rparr>) =
        V(t := (V t)\<lparr>retired := ys\<rparr>)" for ys by simp
      note IH = Cons.IH [OF at2 c(1) ret2 nxt Cons.prems(5) set2 Cons.prems(7) n(2) J2, unfolded upd]
      have "wp (reclaim_retired rf b m p t (re_next E) prev) Q s2"
      proof (rule wp_mono [OF IH], elim exE conjE)
        fix s' M' W' and a :: unit
        assume a: "hps_at C s' h ts ins (V(t := (V t)\<lparr>retired := ks @ filter (protected_entry s2 K) rest\<rparr>)) W' pend (M' \<union> F)"
          "M' \<subseteq> M1" "M' \<inter> F = {}" "st_set_at s' p K F"
          "J (owed + owed_after K (map (retired_in s2) rest)) M' s'"
          "same_payload (set (filter (\<lambda>e. \<not> protected_entry s2 K e) rest)) s2 s'"
        have "M' \<subseteq> M" using step a(2) by (auto simp: client_step_def)
        moreover have "same_payload (set (filter (\<lambda>e. \<not> protected_entry s K e) (e # rest))) s s'"
          using same_payload_trans [OF pay a(6) [unfolded filt]] E False by simp
        ultimately show "Q a s'"
          unfolding Q_def using a(1,5) [unfolded filt rest] a(3,4) E False
          by (intro exI [of _ M'] exI [of _ W']) simp
      qed
      moreover have "last ks \<noteq> e" "last ks \<noteq> null" "hp_entries s (last ks) \<noteq> None" if "ks \<noteq> []"
        using last_in_set [OF that] T(3) nonnull heap_chain_dom [OF T(2), of "last ks"] by auto
      ultimately show ?thesis
        unfolding k_def using T E e nonnull Cons.prems(5)
        by (cases "ks = []") (auto simp: wp_simps access_kinds eqs s2_def fun_upd_twist)
    qed
    have "wp (call (rf (re_reclaim E) (re_node E)) (\<lambda>_. k)) Q s"
      by (rule wp_seq [OF call]) (use after in blast)
    then show ?thesis
      unfolding Q_def [symmetric] using n cur nonnull E False
      by (auto simp: wp_simps wp_funs access_kinds k_def intro!: found)
  qed
qed

text \<open>The sweep touches the detached entries \<open>X\<close>, frees those in \<open>Y\<close>, and the client's memory goes from \<open>M\<close> to \<open>M'\<close>.\<close>

definition sweep_step :: "ptr set \<Rightarrow> ptr set \<Rightarrow> ptr set \<Rightarrow> ptr set \<Rightarrow> ('q, 'a) hp_mem_scheme \<Rightarrow> ('q, 'a) hp_mem_scheme \<Rightarrow> bool" where
  "sweep_step X Y M M' s s' \<longleftrightarrow> hp_threads s' = hp_threads s \<and> hp_structs s' = hp_structs s \<and> outer s' = outer s \<and>
     (\<forall>x. x \<notin> X \<longrightarrow> hp_entries s' x = hp_entries s x) \<and> same_payload Y s s' \<and>
     M' \<subseteq> M \<and> M' \<subseteq> live s' \<and> live s' - M' = live s - M - Y"

lemma sweep_step_trans:
  "sweep_step X Y M M' s s' \<Longrightarrow> sweep_step X' Y' M' M'' s' s'' \<Longrightarrow> sweep_step (X \<union> X') (Y \<union> Y') M M'' s s''"
  unfolding sweep_step_def using same_payload_trans by (intro conjI) (blast | simp)+

lemma client_sweep_step: "client_step M M' s s' \<Longrightarrow> sweep_step {} {} M M' s s'"
  by (simp add: client_step_def sweep_step_def same_hp_payload) (simp add: same_hp_def)

lemma wp_sweep_pending:
  assumes J: "reclaim_ok rf J"
  assumes "heap_chain (ent_next s) cur xs" and "heap_chain (ent_next s) first_held hs"
    and "last_held = (if hs = [] then null else last hs)" and "set xs \<inter> set hs = {}"
    and "st_set_at s p K F" and "card F \<le> b" and "length xs < n"
    and "J (owed + mset (map (retired_in s) xs)) M s" and "M \<inter> F = {}" and "M \<subseteq> live s"
    and "set xs \<subseteq> live s - (M \<union> F)" and "\<And>e. e \<in> set xs \<Longrightarrow> re_node (the (hp_entries s e)) \<noteq> null"
  shows "wp (sweep_pending rf b n p cur first_held last_held) (\<lambda>(f, l) s'. \<exists>M'.
      heap_chain (ent_next s') f (rev (filter (protected_entry s K) xs) @ hs) \<and>
      l = (let hs' = rev (filter (protected_entry s K) xs) @ hs in if hs' = [] then null else last hs') \<and>
      M' \<inter> F = {} \<and> st_set_at s' p K F \<and> J (owed + owed_after K (map (retired_in s) xs)) M' s' \<and>
      sweep_step (set xs) (set (filter (\<lambda>e. \<not> protected_entry s K e) xs)) M M' s s') s"
  using assms(2-)
proof (induction xs arbitrary: s M owed cur first_held last_held hs n)
  case Nil
  then have "n \<noteq> 0" "cur = null" by auto
  with Nil.prems show ?case
    by (cases n) (auto simp: wp_simps sweep_step_def same_payload_def intro!: exI [of _ M])
next
  case (Cons e xs)
  note set = Cons.prems(5) and M = Cons.prems(9,10)
  obtain m E where n: "n = Suc m" "length xs < m" and E: "cur = e" "e \<noteq> null" "hp_entries s e = Some E" "heap_chain (ent_next s) (re_next E) xs"
    using Cons.prems(1,7) by (cases n) auto
  have dist: "e \<notin> set xs" "e \<notin> set hs" using heap_chain_distinct [OF Cons.prems(1)] Cons.prems(4) by auto
  have e: "e \<in> live s" "e \<notin> M" "e \<notin> F" and sub: "set xs \<subseteq> live s - (M \<union> F)" using Cons.prems(11) by auto
  have node: "re_node E \<noteq> null" using Cons.prems(12) [of e] E by simp
  have found: "wp (clds_st_hash_set_find b p (re_node E)) P s"
    if "P (if re_node E \<in> K then CLDS_ST_HASH_SET_FIND_OK else CLDS_ST_HASH_SET_FIND_NOT_FOUND) s" for P
    by (rule wp_mono [OF st.find [OF set node Cons.prems(6)]]) (use that in auto)
  define Q where "Q = (\<lambda>(f, l) s'. \<exists>M'.
      heap_chain (ent_next s') f (rev (filter (protected_entry s K) (e # xs)) @ hs) \<and>
      l = (let hs' = rev (filter (protected_entry s K) (e # xs)) @ hs in if hs' = [] then null else last hs') \<and>
      M' \<inter> F = {} \<and> st_set_at s' p K F \<and> J (owed + owed_after K (map (retired_in s) (e # xs))) M' s' \<and>
      sweep_step (set (e # xs)) (set (filter (\<lambda>e. \<not> protected_entry s K e) (e # xs))) M M' s s')"
  text \<open>The rest of the list, from a state \<open>sa\<close> in which \<open>e\<close> has been dealt with.\<close>
  have rest: "wp (sweep_pending rf b m p (re_next E) fa la) Q sa"
    if step: "sweep_step {e} Y M Ma s sa" and Y: "Y = (if re_node E \<in> K then {} else {e})"
      and hsa: "hsa = (if re_node E \<in> K then e # hs else hs)" "heap_chain (ent_next sa) fa hsa" "la = (if hsa = [] then null else last hsa)"
      and seta: "st_set_at sa p K F" "Ma \<inter> F = {}"
      and Ja: "J ((if re_node E \<in> K then owed + {#retired_in s e#} else owed) + mset (map (retired_in s) xs)) Ma sa" for sa Ma Y hsa fa la
  proof -
    have same: "hp_entries sa x = hp_entries s x" if "x \<noteq> e" for x
      using step that by (simp add: sweep_step_def)
    have xs: "hp_entries sa x = hp_entries s x" if "x \<in> set xs" for x
      using same [of x] that dist by auto
    have ch: "heap_chain (ent_next sa) (re_next E) xs"
      using E(4) heap_chain_cong [of xs "ent_next sa" "ent_next s"] xs by simp
    have eqs: "map (retired_in sa) xs = map (retired_in s) xs" using xs by simp
    have filt: "filter (protected_entry sa K) xs = filter (protected_entry s K) xs"
      "filter (\<lambda>e. \<not> protected_entry sa K e) xs = filter (\<lambda>e. \<not> protected_entry s K e) xs"
      using xs by (auto intro: filter_cong)
    have disj: "set xs \<inter> set hsa = {}" using Cons.prems(4) dist hsa(1) by auto
    have suba: "set xs \<subseteq> live sa - (Ma \<union> F)"
    proof -
      have "set xs \<subseteq> live s - M - Y" using sub Y dist by auto
      then have "set xs \<subseteq> live sa - Ma" using step by (simp add: sweep_step_def)
      then show ?thesis using sub by blast
    qed
    have Ma: "Ma \<subseteq> live sa" using step by (simp add: sweep_step_def)
    have nodes: "re_node (the (hp_entries sa x)) \<noteq> null" if "x \<in> set xs" for x
      using Cons.prems(12) [of x] xs [OF that] that by simp
    note IH = Cons.IH [OF ch hsa(2,3) disj seta(1) Cons.prems(6) n(2) Ja [folded eqs] seta(2) Ma suba, unfolded filt eqs]
    show ?thesis
    proof (rule wp_mono [OF IH], goal_cases)
      case (1 x)
      then show ?case by (rule nodes)
    next
      case (2 r s')
      then obtain f l M' where r: "r = (f, l)" and a: "heap_chain (ent_next s') f (rev (filter (protected_entry s K) xs) @ hsa)"
        "l = (let hs' = rev (filter (protected_entry s K) xs) @ hsa in if hs' = [] then null else last hs')"
        "M' \<inter> F = {}" "st_set_at s' p K F"
        "J ((if re_node E \<in> K then owed + {#retired_in s e#} else owed) + owed_after K (map (retired_in s) xs)) M' s'"
        "sweep_step (set xs) (set (filter (\<lambda>e. \<not> protected_entry s K e) xs)) Ma M' sa s'"
        by (cases r) (simp only: prod.case, blast)
      have "rev (filter (protected_entry s K) (e # xs)) @ hs = rev (filter (protected_entry s K) xs) @ hsa"
        using hsa(1) E(3) by simp
      moreover have "owed + owed_after K (map (retired_in s) (e # xs)) =
          (if re_node E \<in> K then owed + {#retired_in s e#} else owed) + owed_after K (map (retired_in s) xs)"
        using E(3) by simp
      moreover have "sweep_step (set (e # xs)) (set (filter (\<lambda>e. \<not> protected_entry s K e) (e # xs))) M M' s s'"
        using sweep_step_trans [OF step a(6)] E(3) Y by (cases "re_node E \<in> K") simp_all
      ultimately show "Q r s'"
        unfolding Q_def r split using a(1-5) by (intro exI [of _ M']) simp
    qed
  qed
  show ?case
  proof (cases "re_node E \<in> K")
    case True
    let ?s = "s\<lparr>hp_entries := (hp_entries s)(e \<mapsto> E\<lparr>re_next := first_held\<rparr>)\<rparr>"
    have lh: "hs \<noteq> [] \<Longrightarrow> last hs \<noteq> null"
      using heap_chain_not_null [OF Cons.prems(2)] by (metis last_in_set)
    have pay: "same_payload {} s ?s"
      using E(3) by (simp add: same_payload_def is_active_def fun_eq_iff)
    have "wp (sweep_pending rf b m p (re_next E) e (if last_held = null then e else last_held)) Q ?s"
    proof (rule rest [where Y = "{}" and hsa = "e # hs" and Ma = M])
      show "sweep_step {e} {} M M s ?s" using pay M by (simp add: sweep_step_def)
      show "heap_chain (ent_next ?s) e (e # hs)" using Cons.prems(2) dist E by simp
      show "st_set_at ?s p K F" by (rule st_set_at_cong [OF set]) (use st.owned [OF set] in simp_all)
      show "J ((if re_node E \<in> K then owed + {#retired_in s e#} else owed) + mset (map (retired_in s) xs)) M ?s"
        using reclaim_okD(2) [OF J Cons.prems(8)] True by simp
    qed (use True M Cons.prems(3) lh in auto)
    then show ?thesis
      unfolding Q_def [symmetric] using n E True by (auto simp: wp_simps wp_funs access_kinds intro!: found)
  next
    case False
    let ?r = "(re_reclaim E, re_node E)"
    have owed: "owed + mset (map (retired_in s) (e # xs)) - {#?r#} = owed + mset (map (retired_in s) xs)"
      using E(3) by simp
    have call: "wp (rf (re_reclaim E) (re_node E)) (\<lambda>_ s'. \<exists>M'. client_step M M' s s' \<and> J (owed + mset (map (retired_in s) xs)) M' s') s"
      using reclaim_okD(1) [OF J _ M(2) Cons.prems(8), of "re_reclaim E" "re_node E"] E(3) unfolding owed by simp
    have after: "wp (call (free_entry e) (\<lambda>_. sweep_pending rf b m p (re_next E) first_held last_held)) Q sa"
      if step: "client_step M Ma s sa" and Ja: "J (owed + mset (map (retired_in s) xs)) Ma sa" for sa Ma
    proof -
      let ?s = "sa\<lparr>live := live sa - {e}, hp_entries := (hp_entries sa)(e := None)\<rparr>"
      have same: "same_hp s sa" using step by (simp add: client_step_def)
      have pay: "same_payload {e} sa ?s" by (simp add: same_payload_def is_active_def fun_eq_iff)
      have "Ma \<subseteq> M" using step by (simp add: client_step_def)
      then have ea: "e \<in> live sa" "e \<notin> Ma" using e step by (auto simp: client_step_def)
      have F: "st_set_at sa p K F" "F \<subseteq> live sa"
      proof -
        have "F \<subseteq> live s - M" using st.owned [OF set] M by blast
        then show "F \<subseteq> live sa" using step by (auto simp: client_step_def)
        then show "st_set_at sa p K F" by (intro st_set_at_cong [OF set]) (use step in \<open>auto simp: client_step_def\<close>)
      qed
      have "sweep_step {e} {e} Ma Ma sa ?s" using pay ea step by (auto simp: sweep_step_def client_step_def)
      from sweep_step_trans [OF client_sweep_step [OF step] this]
      have st: "sweep_step {e} {e} M Ma s ?s" by simp
      have "heap_chain (ent_next ?s) first_held hs" using Cons.prems(2) dist by (simp add: same_hpD [OF same])
      moreover have "st_set_at ?s p K F" by (rule st_set_at_cong [OF F(1)]) (use F(2) e in auto)
      moreover have "J (owed + mset (map (retired_in s) xs)) Ma ?s" by (rule reclaim_okD(2) [OF J Ja]) simp
      moreover have "Ma \<inter> F = {}" using \<open>Ma \<subseteq> M\<close> M by blast
      ultimately have "wp (sweep_pending rf b m p (re_next E) first_held last_held) Q ?s"
        using rest [OF st, where hsa = hs and fa = first_held and la = last_held] False Cons.prems(3) by simp
      then show ?thesis
        using ea E(2) by (simp add: wp_call wp_free_obj)
    qed
    have "wp (call (rf (re_reclaim E) (re_node E)) (\<lambda>_.
        call (free_entry e) (\<lambda>_. sweep_pending rf b m p (re_next E) first_held last_held))) Q s"
      by (rule wp_seq [OF call]) (use after in blast)
    then show ?thesis
      unfolding Q_def [symmetric] using n E False by (auto simp: wp_simps wp_funs access_kinds intro!: found)
  qed
qed

text \<open>Entries move between the pending list and the client's memory.\<close>

lemma hps_at_pending_change:
  assumes at: "hps_at C s h ts ins V W pend M" and H: "hp_structs s h = Some H"
    and s': "hp_structs s' = (hp_structs s)(h \<mapsto> H\<lparr>pending_reclaim_list := q\<rparr>)" "outer s' = outer s"
      "hp_threads s' = hp_threads s" "hp_records s' = hp_records s" "live s' = live s"
    and entries: "\<And>x. x \<in> live s \<Longrightarrow> x \<notin> set pend \<union> M \<Longrightarrow> hp_entries s' x = hp_entries s x"
    and pend': "heap_chain (ent_next s') q pend'" "\<And>x. x \<in> set pend' \<Longrightarrow> re_node (the (hp_entries s' x)) \<noteq> null"
    and parts: "set pend' \<union> M' = set pend \<union> M" "set pend' \<inter> M' = {}"
  shows "hps_at C s' h ts ins V (\<lambda>x. if x \<in> set pend' then Pending_Entry else if x \<in> M' then Client else W x) pend' M'"
proof -
  have H': "reclaim_threshold H \<noteq> 0" "heap_chain (thr_next s) (hp_head H) ts"
    "map hp_thread_handle (C (outer s) (inactive_threads H)) = ins"
    using hps_at_struct [OF at] H by auto
  have part: "x \<notin> set pend \<union> M" if "W x = Hps_Struct \<or> W x = Part_Of t" for x t
    using that hps_atD(4,5) [OF at, of x] by auto
  then have part': "x \<notin> set pend'" "x \<notin> M'" if "W x = Hps_Struct \<or> W x = Part_Of t" for x t
    using that parts(1) by blast+
  have own: "W x = Part_Of t \<and> x \<in> live s" if "t \<in> set (ts @ ins)" "x \<in> set (own t (V t))" for t x
    using that hps_atD(9,10) [OF at, of t x] by (auto simp del: own_simps)
  have "thread_at s' h t (V t)" if t: "t \<in> set (ts @ ins)" for t
  proof (rule thread_at_frame [of s])
    show "thread_at s h t (V t)" using hps_atD(7,8) [OF at, of t] t by auto
    show "hp_threads s' x = hp_threads s x \<and> hp_records s' x = hp_records s x \<and> hp_entries s' x = hp_entries s x"
      if "x \<in> set (own t (V t))" for x
      using own [OF t that] part [of x t] entries [of x] s' by auto
  qed
  moreover have "live s' = insert h (set pend' \<union> M' \<union> (\<Union>t \<in> set (ts @ ins). set (own t (V t))))"
    unfolding s'(5) parts(1) by (rule hps_atD(11) [OF at])
  moreover have "(if x \<in> set pend' then Pending_Entry else if x \<in> M' then Client else W x) = Part_Of t"
    if "t \<in> set (ts @ ins)" "x \<in> set (own t (V t))" for t x
    using own [OF that] part' [of x t] by simp
  moreover have "(if h \<in> set pend' then Pending_Entry else if h \<in> M' then Client else W h) = Hps_Struct"
    using hps_atD(6) [OF at] part' [of h] by simp
  moreover have "(if x \<in> set pend' then Pending_Entry else if x \<in> M' then Client else W x) = Client" if "x \<in> M'" for x
    using that parts(2) by auto
  ultimately show ?thesis
    unfolding hps_at_def using H' s' pend' hps_atD(1-3) [OF at] hps_atD(8) [OF at]
    by (intro conjI exI [of _ "H\<lparr>pending_reclaim_list := q\<rparr>"]) (simp_all del: own_simps)
qed

lemma wp_push_pending:
  assumes at: "hps_at C s h ts ins V W pend M" and hs: "heap_chain (ent_next s) p hs" "hs \<noteq> []" "set hs \<subseteq> M"
    and nodes: "\<And>x. x \<in> set hs \<Longrightarrow> re_node (the (hp_entries s x)) \<noteq> null" and n: "0 < n"
  shows "wp (push_pending n h p (last hs)) (\<lambda>_ s'. (\<exists>W'. hps_at C s' h ts ins V W' (hs @ pend) (M - set hs)) \<and>
    same_payload {} s s' \<and> live s' = live s \<and> outer s' = outer s \<and> hp_mem.more s' = hp_mem.more s \<and>
    st_sets s' = st_sets s \<and> st_arrays s' = st_arrays s \<and> st_items s' = st_items s \<and>
    hp_threads s' = hp_threads s) s"
proof -
  obtain H where H: "hp_structs s h = Some H" "heap_chain (ent_next s) (pending_reclaim_list H) pend"
    using hps_at_struct [OF at] by metis
  obtain us a where us: "hs = us @ [a]" using hs(2) by (meson rev_exhaust)
  obtain A where A: "hp_entries s a = Some A" using heap_chain_dom [OF hs(1), of a] us by auto
  have p: "p = hd hs" using heap_chain_first [OF hs(1)] hs(2) by (cases hs) auto
  have "a \<notin> set pend" using hs(3) us hps_atD(4,5) [OF at, of a] by auto
  with heap_chain_link [OF hs(1) [unfolded us] H(2)]
  have ch: "heap_chain ((ent_next s)(a \<mapsto> pending_reclaim_list H)) p (hs @ pend)" using us by simp
  let ?s = "s\<lparr>hp_entries := (hp_entries s)(a \<mapsto> A\<lparr>re_next := pending_reclaim_list H\<rparr>),
    hp_structs := (hp_structs s)(h \<mapsto> H\<lparr>pending_reclaim_list := p\<rparr>)\<rparr>"
  have same: "re_node (the (hp_entries ?s x)) = re_node (the (hp_entries s x)) \<and>
      re_reclaim (the (hp_entries ?s x)) = re_reclaim (the (hp_entries s x))" for x
    using A by simp
  have "(ent_next s)(a \<mapsto> pending_reclaim_list H) = ent_next ?s" by auto
  with ch have "heap_chain (ent_next ?s) p (hs @ pend)" by simp
  moreover have "re_node (the (hp_entries ?s x)) \<noteq> null" if "x \<in> set (hs @ pend)" for x
    using that same nodes hps_atD(12) [OF at] by auto
  moreover have "hp_entries ?s x = hp_entries s x" if "x \<notin> set pend \<union> M" for x
    using that us hs(3) by auto
  moreover have "set (hs @ pend) \<inter> (M - set hs) = {}"
    using hps_atD(4,5) [OF at] by fastforce
  moreover have "set (hs @ pend) \<union> (M - set hs) = set pend \<union> M" using hs(3) by auto
  ultimately have "\<exists>W'. hps_at C ?s h ts ins V W' (hs @ pend) (M - set hs)"
    using hps_at_pending_change [OF at H(1), of ?s p "hs @ pend" "M - set hs"] by auto
  moreover have "same_payload {} s ?s" using same by (simp add: same_payload_def is_active_def fun_eq_iff)
  moreover have "last hs = a" using us by simp
  ultimately show ?thesis
    using n H(1) A by (cases n) (simp_all add: wp_simps access_kinds)
qed

section \<open>Freeing the inactive threads\<close>

text \<open>
  What is relied upon of the third-party queue, whose content is \<open>C\<close>: a pop gives the oldest
  element if the condition holds of it and nothing otherwise; a push appends, or fails and changes
  nothing; scheduling the worker does not change the queue; a new queue is empty.
\<close>

definition tqueue_ok :: "'q externals \<Rightarrow> ('q \<Rightarrow> ptr \<Rightarrow> inactive_thread list) \<Rightarrow> bool" where
  "tqueue_ok X C \<longleftrightarrow>
     (\<forall>q P st. case C st q of
        [] \<Rightarrow> fst (tqueue_pop X q P st) = None \<and> C (snd (tqueue_pop X q P st)) q = []
      | x # xs \<Rightarrow> fst (tqueue_pop X q P st) = (if P x then Some x else None) \<and>
                 C (snd (tqueue_pop X q P st)) q = (if P x then xs else x # xs)) \<and>
     (\<forall>q x st. C (snd (tqueue_push X q x st)) q = (if fst (tqueue_push X q x st) then C st q @ [x] else C st q)) \<and>
     (\<forall>q w st. C (snd (worker_thread_schedule_process X w st)) q = C st q) \<and>
     (\<forall>st. fst (tqueue_create X st) \<noteq> null \<longrightarrow> C (snd (tqueue_create X st)) (fst (tqueue_create X st)) = [])"

lemma tqueue_popE:
  assumes "tqueue_ok X C"
  obtains "fst (tqueue_pop X q P st) = None" "C (snd (tqueue_pop X q P st)) q = C st q"
  | x xs where "C st q = x # xs" "fst (tqueue_pop X q P st) = Some x" "C (snd (tqueue_pop X q P st)) q = xs"
proof -
  have pop: "case C st q of
        [] \<Rightarrow> fst (tqueue_pop X q P st) = None \<and> C (snd (tqueue_pop X q P st)) q = []
      | x # xs \<Rightarrow> fst (tqueue_pop X q P st) = (if P x then Some x else None) \<and>
                 C (snd (tqueue_pop X q P st)) q = (if P x then xs else x # xs)"
    using assms unfolding tqueue_ok_def by blast
  show thesis
  proof (cases "C st q")
    case Nil
    with pop that(1) show thesis by simp
  next
    case (Cons x xs)
    with pop that show thesis by (cases "P x") simp_all
  qed
qed

lemma wp_external [wp_simps]: "wp (external f) Q s = Q (fst (f (outer s))) (s\<lparr>outer := snd (f (outer s))\<rparr>)"
  by (simp add: external_def wp_atomic split_beta)

definition without_records :: "ptr set \<Rightarrow> ('q, 'a) hp_mem_scheme \<Rightarrow> ('q, 'a) hp_mem_scheme" where
  "without_records X s = s\<lparr>live := live s - X, hp_records := hp_records s |` (- X)\<rparr>"

lemma without_records_Un: "without_records Y (without_records X s) = without_records (X \<union> Y) s"
proof -
  have "live s - X - Y = live s - (X \<union> Y)" by auto
  moreover have "hp_records s |` (- X) |` (- Y) = hp_records s |` (- (X \<union> Y))" by simp
  ultimately show ?thesis by (simp add: without_records_def)
qed

lemma wp_free_record_list:
  assumes "heap_chain (rec_next s) p xs" and "set xs \<subseteq> live s" and "length xs < n"
    and "Q () (without_records (set xs) s)"
  shows "wp (free_record_list n p) Q s"
  using assms
proof (induction xs arbitrary: n p s)
  case Nil
  moreover have "without_records {} s = s" by (simp add: without_records_def restrict_map_def)
  ultimately show ?case by (cases n) (simp_all add: wp_simps)
next
  case (Cons x xs)
  then obtain m R where m: "n = Suc m" "p = x" "x \<noteq> null" "hp_records s x = Some R"
    "heap_chain (rec_next s) (hp_next R) xs"
    by (cases n) auto
  let ?s = "without_records {x} s"
  have x: "x \<notin> set xs" using heap_chain_distinct [OF Cons.prems(1)] by simp
  have "heap_chain (rec_next ?s) (hp_next R) xs = heap_chain (rec_next s) (hp_next R) xs"
    by (rule heap_chain_cong) (use x in \<open>auto simp: without_records_def restrict_map_def\<close>)
  then have "wp (free_record_list m (hp_next R)) Q ?s"
    by (intro Cons.IH) (use Cons.prems x m without_records_Un [of "set xs" "{x}" s] in \<open>auto simp: without_records_def\<close>)
  moreover have "s\<lparr>live := live s - {x}, hp_records := (hp_records s)(x := None)\<rparr> = ?s"
  proof -
    have "(hp_records s)(x := None) = hp_records s |` (- {x})" by (auto simp: restrict_map_def)
    then show ?thesis by (simp add: without_records_def)
  qed
  ultimately show ?case
    using Cons.prems(2) m by (simp add: wp_simps access_kinds)
qed

text \<open>The thread at the head of the queue of inactive threads is freed.\<close>

lemma hps_at_drop_inactive:
  assumes at: "hps_at C s h ts (t # ins) V W pend M" and H: "hp_structs s h = Some H"
    and same: "hp_structs s' = hp_structs s" "hp_entries s' = hp_entries s"
      "map hp_thread_handle (C (outer s') (inactive_threads H)) = ins"
      "\<And>x. x \<notin> set (own t (V t)) \<Longrightarrow> hp_threads s' x = hp_threads s x \<and> hp_records s' x = hp_records s x"
      "live s' = live s - set (own t (V t))"
  shows "hps_at C s' h ts ins V W pend M"
    and "u \<in> set ts \<Longrightarrow> hp_threads s' u = hp_threads s u \<and> held s' (V u) = held s (V u)"
proof -
  have H': "reclaim_threshold H \<noteq> 0" "heap_chain (thr_next s) (hp_head H) ts"
    "heap_chain (ent_next s) (pending_reclaim_list H) pend"
    using hps_at_struct [OF at] H by auto
  have t: "W x = Part_Of t \<and> x \<in> live s" if "x \<in> set (own t (V t))" for x
    using hps_atD(10) [OF at _ that] by simp
  have other: "x \<notin> set (own t (V t))" if "u \<in> set (ts @ ins)" "x \<in> set (own u (V u))" for u x
  proof -
    have "W x = Part_Of u" using hps_atD(9,10) [OF at, of u x] that by (auto simp del: own_simps)
    moreover have "u \<noteq> t" using hps_atD(3) [OF at] that(1) by auto
    ultimately show ?thesis using t [of x] by auto
  qed
  have ch: "heap_chain (thr_next s') (hp_head H) ts"
  proof -
    have "hp_threads s' x = hp_threads s x" if "x \<in> set ts" for x
      using same(4) other [of x x] that by simp
    then show ?thesis using H'(2) heap_chain_cong [of ts "thr_next s'" "thr_next s"] by simp
  qed
  have th: "thread_at s' h u (V u)" if u: "u \<in> set (ts @ ins)" for u
  proof (rule thread_at_frame [of s])
    show "thread_at s h u (V u)" using hps_atD(7,8) [OF at, of u] u by auto
  qed (use other [OF u] same in simp)
  have W: "W h = Hps_Struct" "\<And>x. x \<in> set pend \<Longrightarrow> W x = Pending_Entry" "\<And>x. x \<in> M \<Longrightarrow> W x = Client"
    using hps_atD(4-6) [OF at] by blast+
  have rest: "x \<notin> set (own t (V t))" if "x = h \<or> x \<in> set pend \<or> x \<in> M" for x
    using that W t [of x] by auto
  have live: "live s' = insert h (set pend \<union> M \<union> (\<Union>u \<in> set (ts @ ins). set (own u (V u))))"
  proof -
    have "live s = set (own t (V t)) \<union> insert h (set pend \<union> M \<union> (\<Union>u \<in> set (ts @ ins). set (own u (V u))))"
      unfolding hps_atD(11) [OF at] by auto
    moreover have "set (own t (V t)) \<inter> insert h (set pend \<union> M \<union> (\<Union>u \<in> set (ts @ ins). set (own u (V u)))) = {}"
      using other rest by blast
    ultimately show ?thesis unfolding same(5) by blast
  qed
  have "finite (live s')" using hps_atD(2) [OF at] same(5) by simp
  then show "hps_at C s' h ts ins V W pend M"
    unfolding hps_at_def using H H' same(1-3) ch th live W hps_atD(1,3) [OF at] hps_atD(8) [OF at] hps_atD(9,10) [OF at] hps_atD(12) [OF at]
    by (intro conjI exI [of _ H]) (auto simp del: own_simps)
  show "hp_threads s' u = hp_threads s u \<and> held s' (V u) = held s (V u)" if "u \<in> set ts"
  proof -
    have "hp_threads s' x = hp_threads s x \<and> hp_records s' x = hp_records s x" if "x \<in> set (own u (V u))" for x
      using same(4) other [of u x] that \<open>u \<in> set ts\<close> by simp
    then show ?thesis by (auto simp: held_def fun_eq_iff)
  qed
qed

text \<open>Every list is shorter than the number of allocated objects.\<close>

lemma hps_at_lengths:
  assumes at: "hps_at C s h ts ins V W pend M"
  shows "t \<in> set (ts @ ins) \<Longrightarrow> length (own t (V t)) \<le> card (live s)"
    and "length ts + length ins \<le> card (live s)" and "length pend \<le> card (live s)"
    and "(\<Sum>t \<leftarrow> ts. length (used (V t))) \<le> card (live s)"
proof -
  have own: "distinct (own t (V t)) \<and> (\<forall>x \<in> set (own t (V t)). W x = Part_Of t \<and> x \<in> live s)" if "t \<in> set (ts @ ins)" for t
    using that hps_atD(7,8) [OF at, of t] hps_atD(9,10) [OF at, of t] unfolding thread_at_def by (auto simp del: own_simps)
  note fin = hps_atD(2) [OF at]
  show "length (own t (V t)) \<le> card (live s)" if "t \<in> set (ts @ ins)"
    by (rule distinct_length_live) (use own [OF that] fin in blast)+
  have "set (ts @ ins) \<subseteq> live s"
    using own by fastforce
  then show "length ts + length ins \<le> card (live s)"
    using distinct_length_live [OF hps_atD(3) [OF at] _ fin] by simp
  obtain H where "hp_structs s h = Some H" "heap_chain (ent_next s) (pending_reclaim_list H) pend"
    using hps_at_struct [OF at] by metis
  then have "distinct pend" using heap_chain_distinct by metis
  then show "length pend \<le> card (live s)"
    by (rule distinct_length_live [OF _ _ fin]) (use hps_atD(4) [OF at] in blast)
  have "distinct (concat (map (\<lambda>t. used (V t)) us))" if "distinct us" "set us \<subseteq> set ts" for us
    using that
  proof (induction us)
    case (Cons u us)
    have "set (used (V u)) \<inter> set (used (V x)) = {}" if x: "x \<in> set us" for x
    proof -
      have ux: "u \<noteq> x" "u \<in> set (ts @ ins)" "x \<in> set (ts @ ins)" using Cons.prems x by auto
      have False if "y \<in> set (used (V u))" "y \<in> set (used (V x))" for y
      proof -
        have "y \<in> set (own u (V u))" "y \<in> set (own x (V x))" using that by simp_all
        then have "W y = Part_Of u" "W y = Part_Of x" using own [OF ux(2)] own [OF ux(3)] by blast+
        with ux(1) show False by simp
      qed
      then show ?thesis by blast
    qed
    then show ?case using Cons own [of u] by auto
  qed simp
  moreover have "distinct ts" using hps_atD(3) [OF at] by simp
  ultimately have "length (concat (map (\<lambda>t. used (V t)) ts)) \<le> card (live s)"
    by (intro distinct_length_live fin) (use own in fastforce)+
  then show "(\<Sum>t \<leftarrow> ts. length (used (V t))) \<le> card (live s)"
    by (simp add: length_concat comp_def)
qed

text \<open>What the end of a reclaim cycle leaves alone.\<close>

definition kept_threads :: "ptr list \<Rightarrow> (ptr \<Rightarrow> thread_view) \<Rightarrow> ('q, 'a) hp_mem_scheme \<Rightarrow> ('q, 'a) hp_mem_scheme \<Rightarrow> bool" where
  "kept_threads ts V s s' \<longleftrightarrow> hp_entries s' = hp_entries s \<and> hp_mem.more s' = hp_mem.more s \<and> live s' \<subseteq> live s \<and>
     (\<forall>u \<in> set ts. hp_threads s' u = hp_threads s u \<and> held s' (V u) = held s (V u))"

lemma kept_threads_trans: "kept_threads ts V s s' \<Longrightarrow> kept_threads ts V s' s'' \<Longrightarrow> kept_threads ts V s s''"
  by (auto simp: kept_threads_def)

lemma hps_at_outer:
  assumes "hps_at C s h ts ins V W pend M" and "hp_structs s h = Some H" and "C q (inactive_threads H) = C (outer s) (inactive_threads H)"
  shows "hps_at C (s\<lparr>outer := q\<rparr>) h ts ins V W pend M"
proof -
  have "thread_at (s\<lparr>outer := q\<rparr>) h t v = thread_at s h t v" for t v by (simp add: thread_at_def)
  then show ?thesis using assms unfolding hps_at_def by simp
qed

lemma wp_free_inactive_loop:
  assumes X: "tqueue_ok X C" and at: "hps_at C s h ts ins V W pend M" and n: "length ins < n"
    and b: "\<And>t. t \<in> set ins \<Longrightarrow> length (own t (V t)) \<le> b"
  shows "wp (free_inactive_loop X b n h e) (\<lambda>_ s'. \<exists>ins'. hps_at C s' h ts ins' V W pend M \<and> kept_threads ts V s s') s"
  using at n b
proof (induction ins arbitrary: s n)
  case Nil
  obtain H where H: "hp_structs s h = Some H" "map hp_thread_handle (C (outer s) (inactive_threads H)) = []"
    using hps_at_struct [OF Nil.prems(1)] by metis
  obtain m where n: "n = Suc m" using Nil.prems(2) by (cases n) auto
  obtain q where q: "tqueue_pop X (inactive_threads H) (is_epoch_lower e) (outer s) = (None, q)"
    "C q (inactive_threads H) = C (outer s) (inactive_threads H)"
    using H(2) by (cases rule: tqueue_popE [OF X, of "inactive_threads H" "is_epoch_lower e" "outer s"])
      (auto intro: prod.collapse [symmetric] simp: prod_eq_iff)
  show ?case
    using n H(1) q hps_at_outer [OF Nil.prems(1) H(1) q(2)]
    by (auto simp: wp_simps access_kinds kept_threads_def held_def intro!: exI [of _ "[]"])
next
  case (Cons t ins)
  note at = Cons.prems(1)
  obtain H where H: "hp_structs s h = Some H" "map hp_thread_handle (C (outer s) (inactive_threads H)) = t # ins"
    using hps_at_struct [OF at] by metis
  obtain m where n: "n = Suc m" "length ins < m" using Cons.prems(2) by (cases n) auto
  obtain r q where q: "tqueue_pop X (inactive_threads H) (is_epoch_lower e) (outer s) = (r, q)" by fastforce
  show ?case
  proof (cases rule: tqueue_popE [OF X, of "inactive_threads H" "is_epoch_lower e" "outer s"])
    case 1
    then show ?thesis
      using n H(1) q hps_at_outer [OF at H(1), of q]
      by (auto simp: wp_simps access_kinds kept_threads_def held_def intro!: exI [of _ "t # ins"])
  next
    case (2 x xs)
    then have x: "hp_thread_handle x = t" "map hp_thread_handle xs = ins" "r = Some x" "C q (inactive_threads H) = xs"
      using H(2) q by auto
    have own: "distinct (own t (V t))" "set (own t (V t)) \<subseteq> live s" "retired (V t) = []"
      using hps_atD(8) [OF at, of t] hps_atD(10) [OF at, of t] unfolding thread_at_def by (auto simp del: own_simps)
    obtain T :: clds_hazard_pointers_thread where T: "t \<noteq> null" "hp_threads s t = Some T" "heap_chain (rec_next s) (pointers T) (used (V t))"
      "heap_chain (rec_next s) (free_pointers T) (unused (V t))"
      using hps_atD(8) [OF at, of t] unfolding thread_at_def by auto
    have len: "length (used (V t)) < b" "length (unused (V t)) < b"
      using Cons.prems(3) [of t] own(3) by (auto simp: own_def)
    define sa where "sa = s\<lparr>outer := q\<rparr>"
    define sb where "sb = without_records (set (used (V t)) \<union> set (unused (V t))) sa"
    define sc where "sc = sb\<lparr>live := live sb - {t}, hp_threads := (hp_threads sb)(t := None)\<rparr>"
    have sc: "hp_structs sc = hp_structs s" "hp_entries sc = hp_entries s" "hp_mem.more sc = hp_mem.more s"
      "C (outer sc) (inactive_threads H) = xs" "live sc = live s - set (own t (V t))"
      "hp_threads sc = (hp_threads s)(t := None)" "hp_records sc = hp_records s |` (- (set (used (V t)) \<union> set (unused (V t))))"
      using x(4) own(3) by (auto simp: sc_def sb_def sa_def without_records_def)
    have drop: "hps_at C sc h ts ins V W pend M"
      "u \<in> set ts \<Longrightarrow> hp_threads sc u = hp_threads s u \<and> held sc (V u) = held s (V u)" for u
      by (rule hps_at_drop_inactive [OF at H(1)]; use sc x(2) in \<open>simp add: restrict_map_def\<close>)+
    have kept: "kept_threads ts V s sc"
      using drop(2) sc by (simp add: kept_threads_def)
    have loop: "wp (free_inactive_loop X b m h e) (\<lambda>_ s'. \<exists>ins'. hps_at C s' h ts ins' V W pend M \<and> kept_threads ts V s s') sc"
      by (rule wp_mono [OF Cons.IH [OF drop(1) n(2)]]) (use Cons.prems(3) kept_threads_trans [OF kept] in auto)
    have "wp (call (free_thread_data b t) (\<lambda>_. free_inactive_loop X b m h e))
        (\<lambda>_ s'. \<exists>ins'. hps_at C s' h ts ins' V W pend M \<and> kept_threads ts V s s') sa"
    proof -
      let ?sm = "without_records (set (used (V t))) sa"
      have 1: "heap_chain (rec_next sa) (pointers T) (used (V t))" using T(3) by (simp add: sa_def)
      have "heap_chain (rec_next ?sm) (free_pointers T) (unused (V t)) = heap_chain (rec_next s) (free_pointers T) (unused (V t))"
        by (rule heap_chain_cong) (use own(1) in \<open>auto simp: without_records_def sa_def restrict_map_def\<close>)
      with T(4) have 2: "heap_chain (rec_next ?sm) (free_pointers T) (unused (V t))" by simp
      have 3: "t \<in> live sb" "hp_threads sb t = Some T" "hp_threads ?sm t = Some T" "hp_threads sa t = Some T"
        using own T by (auto simp: sb_def sa_def without_records_def)
      have "wp (free_record_list b (free_pointers T)) (\<lambda>_. wp (call (free_thread t) (\<lambda>_. free_inactive_loop X b m h e))
          (\<lambda>_ s'. \<exists>ins'. hps_at C s' h ts ins' V W pend M \<and> kept_threads ts V s s')) ?sm"
        by (rule wp_free_record_list [OF 2 _ len(2)])
          (use own loop T(1) 3 without_records_Un [of "set (unused (V t))" "set (used (V t))" sa]
            in \<open>auto simp: sa_def wp_call wp_free_obj sc_def sb_def without_records_def disjoint_iff\<close>)
      then have "wp (free_record_list b (pointers T)) (\<lambda>_. wp (call (on_thread t (rd free_pointers)) (\<lambda>p. call (free_record_list b p) (\<lambda>_.
          call (free_thread t) (\<lambda>_. free_inactive_loop X b m h e))))
          (\<lambda>_ s'. \<exists>ins'. hps_at C s' h ts ins' V W pend M \<and> kept_threads ts V s s')) sa"
        by (intro wp_free_record_list [OF 1 _ len(1)]) (use own 3 in \<open>auto simp: sa_def wp_simps access_kinds\<close>)
      with 3 show ?thesis by (simp add: free_thread_data_def wp_simps wp_funs access_kinds)
    qed
    with n H(1) q x show ?thesis
      by (simp add: wp_simps access_kinds sa_def)
  qed
qed

lemma hps_at_counters:
  assumes at: "hps_at C s h ts ins V W pend M" and H: "hp_structs s h = Some H"
    and H': "hp_head H' = hp_head H" "pending_reclaim_list H' = pending_reclaim_list H" "inactive_threads H' = inactive_threads H"
      "reclaim_threshold H' \<noteq> 0"
  shows "hps_at C (s\<lparr>hp_structs := (hp_structs s)(h \<mapsto> H')\<rparr>) h ts ins V W pend M"
proof -
  have "thread_at (s\<lparr>hp_structs := m\<rparr>) h t v = thread_at s h t v" for m t v by (simp add: thread_at_def)
  then show ?thesis using at H H' unfolding hps_at_def by simp
qed

lemma held_structs [simp]: "held (s\<lparr>hp_structs := m\<rparr>) v = held s v"
  by (auto simp: held_def fun_eq_iff)

lemma kept_threads_structs [simp]: "kept_threads ts V (s\<lparr>hp_structs := m\<rparr>) s' = kept_threads ts V s s'"
  by (simp add: kept_threads_def)

lemma wp_finish_reclaim_call:
  assumes X: "tqueue_ok X C" and at: "hps_at C s h ts ins V W pend M" and b: "card (live s) < b"
  shows "wp (finish_reclaim_call X b h) (\<lambda>_ s'. \<exists>ins'. hps_at C s' h ts ins' V W pend M \<and> kept_threads ts V s s') s"
proof -
  obtain H where H: "hp_structs s h = Some H" "reclaim_threshold H \<noteq> 0" using hps_at_struct [OF at] by metis
  have stop: "\<exists>ins'. hps_at C (s\<lparr>hp_structs := (hp_structs s)(h \<mapsto> H\<lparr>pending_reclaim_calls := c\<rparr>)\<rparr>) h ts ins' V W pend M \<and>
      kept_threads ts V s (s\<lparr>hp_structs := (hp_structs s)(h \<mapsto> H\<lparr>pending_reclaim_calls := c\<rparr>)\<rparr>)" for c
    using hps_at_counters [OF at H(1)] H(2) by (intro exI [of _ ins]) (simp add: kept_threads_def)
  have loop: "wp (free_inactive_loop X b b h e) (\<lambda>_ s'. \<exists>ins'. hps_at C s' h ts ins' V W pend M \<and> kept_threads ts V s s')
      (s\<lparr>hp_structs := (hp_structs s)(h \<mapsto> H\<lparr>pending_reclaim_calls := d, epoch := c\<rparr>)\<rparr>)" for c d e
  proof -
    have at': "hps_at C (s\<lparr>hp_structs := (hp_structs s)(h \<mapsto> H\<lparr>pending_reclaim_calls := d, epoch := c\<rparr>)\<rparr>) h ts ins V W pend M"
      by (rule hps_at_counters [OF at H(1)]) (use H(2) in simp_all)
    have "length ins < b" using hps_at_lengths(2) [OF at] b by simp
    moreover have "length (own t (V t)) \<le> b" if "t \<in> set ins" for t
      using hps_at_lengths(1) [OF at, of t] that b by simp
    ultimately have "wp (free_inactive_loop X b b h e) (\<lambda>_ s'. \<exists>ins'. hps_at C s' h ts ins' V W pend M \<and>
        kept_threads ts V (s\<lparr>hp_structs := (hp_structs s)(h \<mapsto> H\<lparr>pending_reclaim_calls := d, epoch := c\<rparr>)\<rparr>) s')
      (s\<lparr>hp_structs := (hp_structs s)(h \<mapsto> H\<lparr>pending_reclaim_calls := d, epoch := c\<rparr>)\<rparr>)"
      by (rule wp_free_inactive_loop [OF X at'])
    then show ?thesis by (simp only: kept_threads_structs)
  qed
  show ?thesis
    using H(1) stop loop
    by (simp add: finish_reclaim_call_def free_inactive_threads_in_previous_epochs_def wp_simps access_kinds)
qed

text \<open>The part of the cycle between the collection and the destruction of the scratch set.\<close>

lemma wp_reclaim_unprotected:
  assumes J: "reclaim_ok rf J" and t: "t \<in> set ts"
    and at: "hps_at C s h ts ins V W pend (M \<union> F)" and M: "M \<inter> F = {}"
    and set: "st_set_at s p K F" and b: "card F \<le> b" "card (live s) < b"
    and owed: "J (owed + mset (map (retired_in s) (retired (V t))) + mset (map (retired_in s) pend)) M s"
  shows "wp (reclaim_unprotected rf b h t p) (\<lambda>_ s'. \<exists>pend' M' W'. mset pend' = mset (filter (protected_entry s K) pend) \<and>
      hps_at C s' h ts ins (V(t := (V t)\<lparr>retired := filter (protected_entry s K) (retired (V t))\<rparr>)) W' pend' (M' \<union> F) \<and>
      M' \<subseteq> M \<and> M' \<inter> F = {} \<and> st_set_at s' p K F \<and>
      J (owed + owed_after K (map (retired_in s) (retired (V t))) + owed_after K (map (retired_in s) pend)) M' s' \<and>
      same_payload (set (filter (\<lambda>e. \<not> protected_entry s K e) (retired (V t) @ pend))) s s') s"
    (is "wp _ ?Q s")
proof -
  define Q where "Q = ?Q"
  obtain T where T: "hp_threads s t = Some T" "heap_chain (ent_next s) (reclaim_list T) (retired (V t))"
    using hps_atD(7) [OF at t] unfolding thread_at_def by blast
  have len: "length (retired (V t)) < b" "length pend < b"
    using hps_at_lengths(1) [OF at, of t] hps_at_lengths(3) [OF at] t b(2) by (auto simp: own_def)
  have owed': "J (owed + mset (map (retired_in s) pend) + mset (map (retired_in s) (retired (V t)))) M s"
    using owed by (simp only: add.assoc add.commute [of "mset (map (retired_in s) pend)"])
  let ?v = "(V t)\<lparr>retired := filter (protected_entry s K) (retired (V t))\<rparr>"
  let ?Y = "set (filter (\<lambda>e. \<not> protected_entry s K e) (retired (V t)))"
  have disj: "set pend \<inter> set (retired (V t)) = {}"
    using hps_atD(4) [OF at] hps_atD(9) [OF at t] by fastforce
  note ret = wp_reclaim_retired [OF J t at M, where ks = "[]", simplified append_Nil if_P [OF refl],
      OF refl heap_chain_first [OF T(2)] refl set b(1) len(1) owed']
  have after: "wp (call (on_hps h (exchange pending_reclaim_list pending_reclaim_list_update null)) (\<lambda>pending_entry.
     call (sweep_pending rf b b p pending_entry null null) (\<lambda>(still_held_first, still_held_last).
     if still_held_first \<noteq> null then push_pending b h still_held_first still_held_last
     else Done ()))) Q s1"
    if at1: "hps_at C s1 h ts ins (V(t := ?v)) W1 pend (M1 \<union> F)" and M1: "M1 \<subseteq> M" "M1 \<inter> F = {}" and set1: "st_set_at s1 p K F"
      and J1: "J (owed + mset (map (retired_in s) pend) + owed_after K (map (retired_in s) (retired (V t)))) M1 s1"
      and pay1: "same_payload ?Y s s1" for s1 M1 W1
  proof -
    obtain H where H: "hp_structs s1 h = Some H" "heap_chain (ent_next s1) (pending_reclaim_list H) pend"
      using hps_at_struct [OF at1] by metis
    let ?s = "s1\<lparr>hp_structs := (hp_structs s1)(h \<mapsto> H\<lparr>pending_reclaim_list := null\<rparr>)\<rparr>"
    have pend1: "map (retired_in s1) pend = map (retired_in s) pend"
      by (rule same_payload_map [OF pay1]) (use disj in auto)
    have filt: "filter (protected_entry s1 K) pend = filter (protected_entry s K) pend"
      "filter (\<lambda>e. \<not> protected_entry s1 K e) pend = filter (\<lambda>e. \<not> protected_entry s K e) pend"
      using pend1 by (auto intro: filter_cong)
    have at2: "\<exists>W'. hps_at C ?s h ts ins (V(t := ?v)) W' [] (M1 \<union> F \<union> set pend)"
      by (rule exI, rule hps_at_pending_change [OF at1 H(1), where q = null]) auto
    then obtain W2 where at2: "hps_at C ?s h ts ins (V(t := ?v)) W2 [] (M1 \<union> F \<union> set pend)" by blast
    have chain: "heap_chain (ent_next ?s) (pending_reclaim_list H) pend" using H(2) by simp
    have set2: "st_set_at ?s p K F" by (rule st_set_at_cong [OF set1]) (use st.owned [OF set1] in simp_all)
    have "J (owed + mset (map (retired_in s) pend) + owed_after K (map (retired_in s) (retired (V t)))) M1 ?s"
      by (rule reclaim_okD(2) [OF J J1]) simp
    moreover have "map (retired_in ?s) pend = map (retired_in s) pend" using pend1 by simp
    ultimately have J2: "J ((owed + owed_after K (map (retired_in s) (retired (V t)))) + mset (map (retired_in ?s) pend)) M1 ?s"
      by (simp only: add.assoc add.commute [of "mset (map (retired_in s) pend)"])
    have M1live: "M1 \<subseteq> live ?s" using hps_atD(5) [OF at2] by blast
    have sub: "set pend \<subseteq> live ?s - (M1 \<union> F)" using hps_atD(4,5) [OF at1] by fastforce
    have filt2: "filter (protected_entry ?s K) pend = filter (protected_entry s K) pend"
      "filter (\<lambda>e. \<not> protected_entry ?s K e) pend = filter (\<lambda>e. \<not> protected_entry s K e) pend"
      "map (retired_in ?s) pend = map (retired_in s) pend"
      using filt pend1 by simp_all
    let ?hs = "rev (filter (protected_entry s K) pend)"
    have sweep: "wp (sweep_pending rf b b p (pending_reclaim_list H) null null) (\<lambda>(f, l) s'. \<exists>M'.
      heap_chain (ent_next s') f (?hs @ []) \<and> l = (let hs' = ?hs @ [] in if hs' = [] then null else last hs') \<and>
      M' \<inter> F = {} \<and> st_set_at s' p K F \<and>
      J (owed + owed_after K (map (retired_in s) (retired (V t))) + owed_after K (map (retired_in s) pend)) M' s' \<and>
      sweep_step (set pend) (set (filter (\<lambda>e. \<not> protected_entry s K e) pend)) M1 M' ?s s') ?s"
      by (rule wp_sweep_pending [OF J chain _ _ _ set2 b(1) len(2) J2 M1(2) M1live sub, unfolded filt2])
        (use hps_atD(12) [OF at1] in auto)
    have last: "wp (if f \<noteq> null then push_pending b h f l else Done ()) Q s3"
      if s3: "heap_chain (ent_next s3) f ?hs" "l = (if ?hs = [] then null else last ?hs)" "M3 \<inter> F = {}" "st_set_at s3 p K F"
        "J (owed + owed_after K (map (retired_in s) (retired (V t))) + owed_after K (map (retired_in s) pend)) M3 s3"
        "sweep_step (set pend) (set (filter (\<lambda>e. \<not> protected_entry s K e) pend)) M1 M3 ?s s3" for f l s3 M3
    proof -
      let ?Y' = "set (filter (\<lambda>e. \<not> protected_entry s K e) pend)"
      have part: "set pend = ?Y' \<union> set ?hs" "?Y' \<inter> set ?hs = {}" by auto
      have live3: "live s3 - M3 = live ?s - M1 - ?Y'" and pay3: "same_payload ?Y' ?s s3" and M3: "M3 \<subseteq> M1" "M3 \<subseteq> live s3"
        using s3(6) by (auto simp: sweep_step_def)
      have eq: "live s3 - (M3 \<union> F \<union> set ?hs) = live ?s - (M1 \<union> F \<union> set pend)"
        using live3 part(1) by blast
      have "set ?hs \<subseteq> live ?s - M1 - ?Y'" "set ?hs \<inter> F = {}" using sub by auto
      with live3 have hs: "set ?hs \<subseteq> live s3 - M3" "set ?hs \<inter> F = {}" by blast+
      have lv: "M3 \<union> F \<union> set ?hs \<subseteq> live s3" using hs M3 st.owned [OF s3(4)] by blast
      have fin: "finite (live s3)"
      proof -
        have "live s3 \<subseteq> live ?s"
          using live3 M3 M1live by blast
        then show ?thesis using hps_atD(2) [OF at2] by (rule finite_subset)
      qed
      have e3: "hp_structs s3 = hp_structs ?s" "outer s3 = outer ?s" "hp_threads s3 = hp_threads ?s" "hp_records s3 = hp_records ?s"
        "\<And>x. x \<notin> set pend \<Longrightarrow> hp_entries s3 x = hp_entries ?s x"
        using s3(6) unfolding sweep_step_def same_payload_def by blast+
      have "\<exists>W'. hps_at C s3 h ts ins (V(t := ?v)) W' [] (M3 \<union> F \<union> set ?hs)"
        by (rule exI, rule hps_at_client [OF at2 e3(1,2) _ eq lv fin]) (simp add: e3(3-5))
      then obtain W3 where at3: "hps_at C s3 h ts ins (V(t := ?v)) W3 [] (M3 \<union> F \<union> set ?hs)" by blast
      have pay: "same_payload (set (filter (\<lambda>e. \<not> protected_entry s K e) (retired (V t) @ pend))) s s3"
      proof -
        have "same_payload {} s1 ?s" by (simp add: same_payload_def is_active_def fun_eq_iff)
        from same_payload_trans [OF pay1 same_payload_trans [OF this pay3]] show ?thesis by simp
      qed
      show ?thesis
      proof (cases "?hs = []")
        case True
        then have "f = null" "set ?hs = {}" using s3(1) by simp_all
        then have "Q () s3"
          unfolding Q_def using at3 True M3 M1 s3(3-5) pay by (intro exI [of _ "[]"] exI [of _ M3] exI [of _ W3]) auto
        with \<open>f = null\<close> show ?thesis by (simp add: wp_simps)
      next
        case False
        then have f: "f \<noteq> null" "l = last ?hs" using s3(1,2) by (cases "?hs"; auto)+
        have nodes: "re_node (the (hp_entries s3 x)) \<noteq> null" if "x \<in> set ?hs" for x
        proof -
          have x: "x \<in> set pend" "x \<notin> ?Y'" "x \<notin> ?Y" using that disj by auto
          then have "re_node (the (hp_entries s3 x)) = re_node (the (hp_entries s x))"
            using pay by (auto simp: same_payload_def)
          then show ?thesis using hps_atD(12) [OF at x(1)] by simp
        qed
        have M3': "M3 \<union> F \<union> set ?hs - set ?hs = M3 \<union> F" using hs by blast
        have "wp (push_pending b h f (last ?hs)) Q s3"
        proof (rule wp_mono [OF wp_push_pending [OF at3 s3(1) False]], goal_cases)
          case (4 a s4)
          then obtain W4 where at4: "hps_at C s4 h ts ins (V(t := ?v)) W4 ?hs (M3 \<union> F)" unfolding M3' by auto
          have "st_set_at s4 p K F" by (rule st_set_at_cong [OF s3(4)]) (use 4 st.owned [OF s3(4)] in simp_all)
          moreover have "J (owed + owed_after K (map (retired_in s) (retired (V t))) + owed_after K (map (retired_in s) pend)) M3 s4"
            by (rule reclaim_okD(2) [OF J s3(5)]) (use 4 in simp)
          moreover have "same_payload (set (filter (\<lambda>e. \<not> protected_entry s K e) (retired (V t) @ pend))) s s4"
            using same_payload_trans [OF pay, of "{}" s4] 4 by simp
          moreover have "mset ?hs = mset (filter (protected_entry s K) pend)" by simp
          moreover have "M3 \<subseteq> M" using M3(1) M1(1) by blast
          ultimately show ?case
            unfolding Q_def using at4 s3(3) by (intro exI [of _ ?hs] exI [of _ M3] exI [of _ W4] conjI)
        qed (use nodes b(2) in auto)
        with f show ?thesis by simp
      qed
    qed
    have "wp (call (sweep_pending rf b b p (pending_reclaim_list H) null null) (\<lambda>(f, l).
        if f \<noteq> null then push_pending b h f l else Done ())) Q ?s"
    proof (rule wp_seq [OF sweep], goal_cases)
      case (1 r s3)
      then obtain f l M3 where "r = (f, l)" "heap_chain (ent_next s3) f ?hs" "l = (if ?hs = [] then null else last ?hs)"
        "M3 \<inter> F = {}" "st_set_at s3 p K F"
        "J (owed + owed_after K (map (retired_in s) (retired (V t))) + owed_after K (map (retired_in s) pend)) M3 s3"
        "sweep_step (set pend) (set (filter (\<lambda>e. \<not> protected_entry s K e) pend)) M1 M3 ?s s3"
        by (cases r) (simp only: prod.case append_Nil2 Let_def, blast)
      then show ?case using last by simp
    qed
    then show ?thesis using H(1) by (simp add: wp_simps access_kinds)
  qed
  have "wp (call (reclaim_retired rf b b p t (reclaim_list T) null) (\<lambda>_.
     call (on_hps h (exchange pending_reclaim_list pending_reclaim_list_update null)) (\<lambda>pending_entry.
     call (sweep_pending rf b b p pending_entry null null) (\<lambda>(still_held_first, still_held_last).
     if still_held_first \<noteq> null then push_pending b h still_held_first still_held_last
     else Done ())))) Q s"
    by (rule wp_seq [OF ret]) (use after in blast)
  then show ?thesis
    unfolding Q_def [symmetric] using T(1) by (simp add: reclaim_unprotected_def wp_simps access_kinds)
qed

section \<open>A whole reclaim cycle\<close>

text \<open>
  The state after a cycle of thread \<open>t\<close> in which the nodes \<open>K\<close> counted as protected: exactly the
  entries of protected nodes are left on the thread's reclaim list and on the pending list, nobody
  lost a hazard pointer, and the reclaim functions of exactly the other entries have been called.
\<close>

definition after_cycle :: "('q \<Rightarrow> ptr \<Rightarrow> inactive_thread list) \<Rightarrow>
    ((ptr \<times> ptr) multiset \<Rightarrow> ptr set \<Rightarrow> ('q, 'a) hp_mem_scheme \<Rightarrow> bool) \<Rightarrow> (ptr \<times> ptr) multiset \<Rightarrow> ptr \<Rightarrow> ptr list \<Rightarrow> ptr \<Rightarrow>
    (ptr \<Rightarrow> thread_view) \<Rightarrow> ptr list \<Rightarrow> ptr set \<Rightarrow> ptr set \<Rightarrow> ('q, 'a) hp_mem_scheme \<Rightarrow> ('q, 'a) hp_mem_scheme \<Rightarrow> bool" where
  "after_cycle C J owed h ts t V pend M K s s' \<longleftrightarrow> (\<exists>pend' M' W' ins'.
     mset pend' = mset (filter (protected_entry s K) pend) \<and>
     hps_at C s' h ts ins' (V(t := (V t)\<lparr>retired := filter (protected_entry s K) (retired (V t))\<rparr>)) W' pend' M' \<and>
     M' \<subseteq> M \<and> live s' \<subseteq> live s \<and>
     J (owed + owed_after K (map (retired_in s) (retired (V t))) + owed_after K (map (retired_in s) pend)) M' s' \<and>
     (\<forall>e. e \<notin> set (filter (\<lambda>e. \<not> protected_entry s K e) (retired (V t) @ pend)) \<longrightarrow> retired_in s' e = retired_in s e) \<and>
     (\<forall>u \<in> set ts. held s' (V u) = held s (V u) \<and> is_active s' u = is_active s u))"

lemma after_cycle_UNIV:
  assumes "hps_at C s' h ts ins' V W' pend M" and "live s' \<subseteq> live s"
    and "J (owed + mset (map (retired_in s) (retired (V t))) + mset (map (retired_in s) pend)) M s'"
    and "hp_entries s' = hp_entries s" and "\<And>u. u \<in> set ts \<Longrightarrow> held s' (V u) = held s (V u) \<and> is_active s' u = is_active s u"
  shows "after_cycle C J owed h ts t V pend M UNIV s s'"
  unfolding after_cycle_def
  by (rule exI [of _ pend], rule exI [of _ M], rule exI [of _ W'], rule exI [of _ ins']) (use assms in simp)

lemma wp_finish_after_cycle:
  assumes X: "tqueue_ok X C" and J: "reclaim_ok rf J" and b: "card (live sa) < b"
    and mid: "mset pend' = mset (filter (protected_entry s K) pend)"
      "hps_at C sa h ts ins (V(t := (V t)\<lparr>retired := filter (protected_entry s K) (retired (V t))\<rparr>)) W' pend' M'"
      "M' \<subseteq> M" "live sa \<subseteq> live s"
      "J (owed + owed_after K (map (retired_in s) (retired (V t))) + owed_after K (map (retired_in s) pend)) M' sa"
      "same_payload (set (filter (\<lambda>e. \<not> protected_entry s K e) (retired (V t) @ pend))) s sa"
  shows "wp (finish_reclaim_call X b h) (\<lambda>_ s'. after_cycle C J owed h ts t V pend M K s s') sa"
proof (rule wp_mono [OF wp_finish_reclaim_call [OF X mid(2) b]], elim exE conjE)
  fix s' ins'
  let ?V = "V(t := (V t)\<lparr>retired := filter (protected_entry s K) (retired (V t))\<rparr>)"
  assume at: "hps_at C s' h ts ins' ?V W' pend' M'" and kept: "kept_threads ts ?V sa s'"
  have V: "held s' (?V u) = held s' (V u)" "held sa (?V u) = held sa (V u)" for u by (simp_all add: held_def)
  have "held s' (V u) = held s (V u) \<and> is_active s' u = is_active s u" if u: "u \<in> set ts" for u
  proof -
    have "held s' (?V u) = held sa (?V u)" using kept u unfolding kept_threads_def by blast
    then have "held s' (V u) = held sa (V u)" by (simp only: V)
    moreover have "hp_records sa = hp_records s" using mid(6) by (simp add: same_payload_def)
    then have "held sa (V u) = held s (V u)" by (simp add: held_def cong: if_cong)
    moreover have "is_active s' u = is_active sa u" using kept u by (simp add: kept_threads_def is_active_def)
    moreover have "is_active sa u = is_active s u" using mid(6) by (simp add: same_payload_def)
    ultimately show ?thesis by simp
  qed
  then have A: "\<forall>u \<in> set ts. held s' (V u) = held s (V u) \<and> is_active s' u = is_active s u" by blast
  have "retired_in s' e = retired_in s e"
    if "e \<notin> set (filter (\<lambda>e. \<not> protected_entry s K e) (retired (V t) @ pend))" for e
    using kept mid(6) that by (simp add: kept_threads_def same_payload_def)
  then have B: "\<forall>e. e \<notin> set (filter (\<lambda>e. \<not> protected_entry s K e) (retired (V t) @ pend)) \<longrightarrow> retired_in s' e = retired_in s e"
    by blast
  have D: "J (owed + owed_after K (map (retired_in s) (retired (V t))) + owed_after K (map (retired_in s) pend)) M' s'"
    by (rule reclaim_okD(2) [OF J mid(5)]) (use kept in \<open>simp add: kept_threads_def\<close>)
  have E: "live s' \<subseteq> live s" using kept mid(4) by (auto simp: kept_threads_def)
  show "after_cycle C J owed h ts t V pend M K s s'"
    unfolding after_cycle_def
    by (rule exI [of _ pend'], rule exI [of _ M'], rule exI [of _ W'], rule exI [of _ ins'])
      (intro conjI mid(1,3) at A B D E)
qed

text \<open>The allocations of a collection: the set, its array, and an item for each hazard pointer.\<close>

definition collect_size :: "ptr list \<Rightarrow> (ptr \<Rightarrow> thread_view) \<Rightarrow> nat" where
  "collect_size ts V = (\<Sum>t \<leftarrow> ts. length (used (V t))) + 2"

lemma hps_at_scratch:
  assumes at: "hps_at C s h ts ins V W pend M" and out: "st_outside F s s'" and fresh: "F \<inter> live s = {}"
    and set: "st_set_at s' p K F"
  shows "\<exists>W'. hps_at C s' h ts ins V W' pend (M \<union> F)" and "M \<inter> F = {}" and "live s' = live s \<union> F"
proof -
  have F: "F \<subseteq> live s'" "finite F" using st.owned [OF set] st.finite [OF set] by auto
  show live: "live s' = live s \<union> F" using out F(1) by (auto simp: st_outside_def)
  have M: "M \<subseteq> live s" using hps_atD(5) [OF at] by blast
  then show "M \<inter> F = {}" using fresh by blast
  show "\<exists>W'. hps_at C s' h ts ins V W' pend (M \<union> F)"
    by (rule exI, rule hps_at_same_hp [OF at st_outside_same_hp(1) [OF out]])
      (use live M fresh F hps_atD(2) [OF at] in auto)
qed

theorem wp_internal_reclaim:
  assumes X: "tqueue_ok X C" and J: "reclaim_ok rf J" and at: "hps_at C s h ts ins V W pend M" and t: "t \<in> set ts"
    and b: "2 * card (live s) + 2 < b"
    and owed: "J (owed + mset (map (retired_in s) (retired (V t))) + mset (map (retired_in s) pend)) M s"
  shows "wp (internal_reclaim X rf b t)
    (\<lambda>_ s'. \<exists>K. (K = UNIV \<and> \<not> plenty (collect_size ts V) s \<or> K = protected_nodes s ts V) \<and> after_cycle C J owed h ts t V pend M K s s') s"
proof -
  obtain H where H: "hp_structs s h = Some H" "reclaim_threshold H \<noteq> 0" "heap_chain (thr_next s) (hp_head H) ts"
    using hps_at_struct [OF at] by metis
  obtain T where T: "hp_threads s t = Some T" "th_hazard_pointers T = h"
    using hps_atD(7) [OF at t] unfolding thread_at_def by blast
  define Ha where "Ha = H\<lparr>pending_reclaim_calls := pending_reclaim_calls H + 1\<rparr>"
  define sa where "sa = s\<lparr>hp_structs := (hp_structs s)(h \<mapsto> Ha)\<rparr>"
  have ata: "hps_at C sa h ts ins V W pend M"
    unfolding sa_def by (rule hps_at_counters [OF at H(1)]) (use H(2) in \<open>simp_all add: Ha_def\<close>)
  have pa: "same_payload {} s sa" by (simp add: same_payload_def sa_def is_active_def fun_eq_iff)
  have ea: "hp_entries sa = hp_entries s" "live sa = live s" "hp_structs sa h = Some Ha" "hp_head Ha = hp_head H"
    "hp_records sa = hp_records s" "hp_threads sa = hp_threads s"
    by (simp_all add: sa_def Ha_def)
  have prot: "protected_nodes sa ts V = protected_nodes s ts V"
    using pa by (simp add: protected_nodes_def same_payload_def)
  have Ja: "J R M sb" if "J R M s" "hp_mem.more sb = hp_mem.more sa" for R sb
    by (rule reclaim_okD(2) [OF J that(1)]) (use that(2) in \<open>simp add: sa_def\<close>)
  define Q where "Q = (\<lambda>(_ :: unit) s'. \<exists>K. (K = UNIV \<and> \<not> plenty (collect_size ts V) s \<or> K = protected_nodes s ts V) \<and> after_cycle C J owed h ts t V pend M K s s')"
  text \<open>The end of the cycle, once the scratch set is gone.\<close>
  have finish: "wp (finish_reclaim_call X b h) Q sb"
    if "mset pend' = mset (filter (protected_entry s K) pend)"
      "hps_at C sb h ts ins (V(t := (V t)\<lparr>retired := filter (protected_entry s K) (retired (V t))\<rparr>)) W' pend' M'"
      "M' \<subseteq> M" "live sb \<subseteq> live s"
      "J (owed + owed_after K (map (retired_in s) (retired (V t))) + owed_after K (map (retired_in s) pend)) M' sb"
      "same_payload (set (filter (\<lambda>e. \<not> protected_entry s K e) (retired (V t) @ pend))) s sb"
      "K = UNIV \<and> \<not> plenty (collect_size ts V) s \<or> K = protected_nodes s ts V" for sb K pend' W' M'
  proof (rule wp_mono [OF wp_finish_after_cycle [OF X J _ that(1-6)]])
    have "card (live sb) \<le> card (live s)" using that(4) hps_atD(2) [OF at] by (rule card_mono [rotated])
    then show "card (live sb) < b" using b by simp
  qed (use that(7) in \<open>auto simp: Q_def\<close>)
  have gave_up: "wp (finish_reclaim_call X b h) Q sb"
    if "hps_at C sb h ts ins V W' pend M" "live sb \<subseteq> live s" "same_hp sa sb" "hp_mem.more sb = hp_mem.more sa" "\<not> plenty (collect_size ts V) s" for sb W'
  proof (rule finish [of pend UNIV])
    have "V(t := (V t)\<lparr>retired := filter (protected_entry s UNIV) (retired (V t))\<rparr>) = V" by simp
    with that(1) show "hps_at C sb h ts ins (V(t := (V t)\<lparr>retired := filter (protected_entry s UNIV) (retired (V t))\<rparr>)) W' pend M" by simp
    show "same_payload (set (filter (\<lambda>e. \<not> protected_entry s UNIV e) (retired (V t) @ pend))) s sb"
      using same_payload_trans [OF pa same_hp_payload [OF that(3)]] by simp
  qed (use that Ja owed in auto)
  define body where "body = (\<lambda>p. if p = null then Done ()
      else call (on_hps h (rd hp_head)) (\<lambda>current_thread.
           call (collect_threads b b p current_thread) (\<lambda>current_thread.
           call (if current_thread \<noteq> null then Done () else reclaim_unprotected rf b h t p) (\<lambda>_.
           clds_st_hash_set_destroy b p))))"
  have body: "wp (body p) (\<lambda>_. wp (finish_reclaim_call X b h) Q) s1"
    if c: "p = null \<and> st_outside {} sa s1 \<and> \<not> (reclaim_threshold H \<noteq> 0 \<and> plenty 2 sa) \<or>
        p \<noteq> null \<and> (\<exists>F. st_set_at s1 p {} F \<and> F \<inter> live sa = {} \<and> card F \<le> 2 \<and> st_outside F sa s1) \<and>
          (\<forall>m. plenty (m + 2) sa \<longrightarrow> plenty m s1)" for p s1
    using c
  proof (elim disjE conjE exE)
    assume p: "p = null" and out: "st_outside {} sa s1" and "\<not> (reclaim_threshold H \<noteq> 0 \<and> plenty 2 sa)"
    then have short: "\<not> plenty (collect_size ts V) s"
      using H(2) plenty_fewer [of "collect_size ts V" s 2] plenty_cong [of sa s 2] by (auto simp: collect_size_def sa_def)
    from out have live1: "live s1 = live sa" by (auto simp: st_outside_def)
    note same = st_outside_same_hp [OF out]
    have "\<exists>W'. hps_at C s1 h ts ins V W' pend M"
      by (rule exI, rule hps_at_same_hp [OF ata same(1)]) (use hps_atD(2,5) [OF ata] live1 in auto)
    then show ?thesis
      using gave_up [of s1] live1 ea(2) same p short by (auto simp: body_def wp_simps)
  next
    fix F assume p: "p \<noteq> null" and F: "st_set_at s1 p {} F" "F \<inter> live sa = {}" "card F \<le> 2" "st_outside F sa s1"
      and mem: "\<forall>m. plenty (m + 2) sa \<longrightarrow> plenty m s1"
    have mem1: "plenty (\<Sum>t \<leftarrow> ts. length (used (V t))) s1" if "plenty (collect_size ts V) s"
      using mem that plenty_cong [of sa s "collect_size ts V"] by (simp add: collect_size_def sa_def)
    note same = st_outside_same_hp [OF F(4)]
    have live1: "live s1 = live sa \<union> F" by (rule hps_at_scratch(3) [OF ata F(4,2,1)])
    have chain: "heap_chain (thr_next s1) (hp_head H) ts" using H(3) ea(6) by (simp add: same_hpD [OF same(1)])
    have th: "thread_at s1 h u (V u)" if "u \<in> set ts" for u
      by (rule thread_at_frame [OF hps_atD(7) [OF at that]]) (simp add: same_hpD [OF same(1)] ea)
    have lens: "length (used (V u)) < b" if "u \<in> set ts" for u
      using hps_at_lengths(1) [OF at, of u] that b by (simp add: own_def)
    have "length ts < b" using hps_at_lengths(2) [OF at] b by simp
    note collect = wp_collect_threads [OF F(1) chain this th lens]
    have after: "wp (call (if r \<noteq> null then Done () else reclaim_unprotected rf b h t p) (\<lambda>_. clds_st_hash_set_destroy b p))
        (\<lambda>_. wp (finish_reclaim_call X b h) Q) s2"
      if s2: "st_set_at s2 p K2 F2" "set_grew (\<Sum>t \<leftarrow> ts. length (used (V t))) s1 F s2 F2"
        and K2: "r = null \<longrightarrow> K2 = {} \<union> protected_nodes s1 ts V" "r \<noteq> null \<longrightarrow> \<not> plenty (\<Sum>t \<leftarrow> ts. length (used (V t))) s1" for r s2 K2 F2
    proof -
      have g: "F \<subseteq> F2" "(F2 - F) \<inter> live s1 = {}" "card F2 \<le> card F + (\<Sum>t \<leftarrow> ts. length (used (V t)))" "st_outside F2 s1 s2"
        using s2(2) by (auto simp: set_grew_def)
      have F2: "F2 \<inter> live sa = {}" using g(2) F(2) live1 by blast
      have out: "st_outside F2 sa s2" by (rule st_outside_trans [OF st_outside_mono [OF F(4) g(1)] g(4)])
      note same2 = st_outside_same_hp [OF out]
      obtain W2 where at2: "hps_at C s2 h ts ins V W2 pend (M \<union> F2)"
        using hps_at_scratch(1) [OF ata out F2 s2(1)] by blast
      note M2 = hps_at_scratch(2,3) [OF ata out F2 s2(1)]
      have card2: "card F2 \<le> card (live s) + 2"
        using g(3) F(3) hps_at_lengths(4) [OF at] by simp
      have e2: "hp_entries s2 = hp_entries s" "hp_records s2 = hp_records s" using same_hpD [OF same2(1)] ea by simp_all
      have gone: "wp (clds_st_hash_set_destroy b p) (\<lambda>_. wp (finish_reclaim_call X b h) Q) s3"
        if s3: "st_set_at s3 p K3 F2" "hps_at C s3 h ts ins V3 W3 pend3 (M3 \<union> F2)" "M3 \<inter> F2 = {}" "live s3 - F2 \<subseteq> live s"
          and fin: "\<And>s4 W4. hps_at C s4 h ts ins V3 W4 pend3 M3 \<Longrightarrow> same_hp s3 s4 \<Longrightarrow> hp_mem.more s4 = hp_mem.more s3 \<Longrightarrow>
            live s4 \<subseteq> live s \<Longrightarrow> wp (finish_reclaim_call X b h) Q s4"
        for s3 K3 V3 W3 pend3 M3
      proof (rule wp_mono [OF st.destroy [OF s3(1)]], goal_cases)
        case 1
        then show ?case using card2 b by simp
      next
        case (2 a s4)
        then have 4: "st_outside F2 s3 s4" "live s4 = live s3 - F2" by auto
        have "\<exists>W4. hps_at C s4 h ts ins V3 W4 pend3 M3"
          by (rule exI, rule hps_at_same_hp [OF s3(2) st_outside_same_hp(1) [OF 4(1)]])
            (use 4(2) s3(3) hps_atD(2,5) [OF s3(2)] in auto)
        then show ?case
          using fin st_outside_same_hp [OF 4(1)] 4(2) s3(4) by auto
      qed
      show ?thesis
      proof (cases "r = null")
        case False
        have "wp (clds_st_hash_set_destroy b p) (\<lambda>_. wp (finish_reclaim_call X b h) Q) s2"
        proof (rule gone [OF s2(1) at2 M2(1)])
          show "live s2 - F2 \<subseteq> live s" using M2(2) ea(2) by blast
          fix s4 W4
          assume "hps_at C s4 h ts ins V W4 pend M" "same_hp s2 s4" "hp_mem.more s4 = hp_mem.more s2" "live s4 \<subseteq> live s"
          then show "wp (finish_reclaim_call X b h) Q s4"
            using gave_up same_hp_trans [OF same2(1)] same2(2) K2(2) False mem1 by auto
        qed
        with False show ?thesis by (simp add: wp_simps)
      next
        case True
        then have K2': "K2 = protected_nodes s ts V"
          using K2(1) same_hp_protected [OF same(1)] prot by simp
        have cb: "card F2 \<le> b" "card (live s2) < b"
        proof -
          have "card (live s2) \<le> card (live s) + card F2" unfolding M2(2) ea(2) by (rule card_Un_le)
          then show "card F2 \<le> b" "card (live s2) < b" using card2 b by simp_all
        qed
        have owed2: "J (owed + mset (map (retired_in s2) (retired (V t))) + mset (map (retired_in s2) pend)) M s2"
          using Ja [OF owed same2(2)] by (simp add: e2)
        have "wp (call (reclaim_unprotected rf b h t p) (\<lambda>_. clds_st_hash_set_destroy b p)) (\<lambda>_. wp (finish_reclaim_call X b h) Q) s2"
        proof (rule wp_seq [OF wp_reclaim_unprotected [OF J t at2 M2(1) s2(1) cb owed2]], elim exE conjE)
          fix a s3 pend3 M3 W3
          assume s3: "mset pend3 = mset (filter (protected_entry s2 K2) pend)"
            "hps_at C s3 h ts ins (V(t := (V t)\<lparr>retired := filter (protected_entry s2 K2) (retired (V t))\<rparr>)) W3 pend3 (M3 \<union> F2)"
            "M3 \<subseteq> M" "M3 \<inter> F2 = {}" "st_set_at s3 p K2 F2"
            "J (owed + owed_after K2 (map (retired_in s2) (retired (V t))) + owed_after K2 (map (retired_in s2) pend)) M3 s3"
            "same_payload (set (filter (\<lambda>e. \<not> protected_entry s2 K2 e) (retired (V t) @ pend))) s2 s3"
          show "wp (clds_st_hash_set_destroy b p) (\<lambda>_. wp (finish_reclaim_call X b h) Q) s3"
          proof (rule gone [OF s3(5,2,4)])
            let ?V = "V(t := (V t)\<lparr>retired := filter (protected_entry s2 K2) (retired (V t))\<rparr>)"
            have "set pend3 \<subseteq> set pend" using mset_eq_setD [OF s3(1)] by auto
            moreover have "set (own u (?V u)) \<subseteq> set (own u (V u))" for u by auto
            ultimately have "live s3 \<subseteq> live s \<union> F2"
              unfolding hps_atD(11) [OF s3(2)] hps_atD(11) [OF at] using s3(3) by blast
            then show "live s3 - F2 \<subseteq> live s" by blast
            fix s4 W4
            assume s4: "hps_at C s4 h ts ins (V(t := (V t)\<lparr>retired := filter (protected_entry s2 K2) (retired (V t))\<rparr>)) W4 pend3 M3"
              "same_hp s3 s4" "hp_mem.more s4 = hp_mem.more s3" "live s4 \<subseteq> live s"
            show "wp (finish_reclaim_call X b h) Q s4"
            proof (rule finish [of pend3 K2])
              show "J (owed + owed_after K2 (map (retired_in s) (retired (V t))) + owed_after K2 (map (retired_in s) pend)) M3 s4"
                using reclaim_okD(2) [OF J s3(6) s4(3)] by (simp add: e2)
              have "same_payload {} s s2" using same_payload_trans [OF pa same_hp_payload [OF same2(1)]] by simp
              from same_payload_trans [OF same_payload_trans [OF this s3(7)] same_hp_payload [OF s4(2)]]
              show "same_payload (set (filter (\<lambda>e. \<not> protected_entry s K2 e) (retired (V t) @ pend))) s s4"
                by (simp add: e2)
            qed (use s3(1,3) s4(1,4) K2' in \<open>simp_all add: e2\<close>)
          qed
        qed
        with True show ?thesis by simp
      qed
    qed
    have "wp (call (collect_threads b b p (hp_head H)) (\<lambda>current_thread.
        call (if current_thread \<noteq> null then Done () else reclaim_unprotected rf b h t p) (\<lambda>_.
        clds_st_hash_set_destroy b p))) (\<lambda>_. wp (finish_reclaim_call X b h) Q) s1"
    proof (rule wp_seq [OF collect], goal_cases)
      case (3 r s2)
      then obtain K2 F2 where "st_set_at s2 p K2 F2" "set_grew (\<Sum>t \<leftarrow> ts. length (used (V t))) s1 F s2 F2"
        "r = null \<longrightarrow> K2 = {} \<union> protected_nodes s1 ts V" "r \<noteq> null \<longrightarrow> \<not> plenty (\<Sum>t \<leftarrow> ts. length (used (V t))) s1" by blast
      then show ?case by (rule after)
    qed
    then show ?thesis
      using p ea(3,4) by (simp add: body_def wp_simps access_kinds same_hpD [OF same(1)])
  qed
  have "wp (call (clds_st_hash_set_create (Some hp_key_hash) (Some hp_key_compare) (reclaim_threshold H)) (\<lambda>p.
      call (body p) (\<lambda>_. finish_reclaim_call X b h))) Q sa"
    by (rule wp_seq [OF st.create], unfold wp_call_fun) (rule body)
  then show ?thesis
    unfolding Q_def [symmetric]
    using H(1) T by (simp add: internal_reclaim_def wp_simps access_kinds sa_def Ha_def body_def)
qed

end
