(* ===== verification/Hazard_Pointer_Contract.thy ===== *)
theory Hazard_Pointer_Contract
  imports Clds_Hazard_Pointers
begin

text \<open>
  What a client of the hazard pointers relies on, as a locale, and the proof that the model of
  \<open>src/src/clds_hazard_pointers.c\<close> provides it; then the hand-over of retired nodes when a thread
  unregisters, and the properties of the module.
\<close>

section \<open>Retiring a node\<close>

text \<open>What the threads other than \<open>t\<close> have retired.\<close>

definition other_retired :: "('q, 'a) hp_mem_scheme \<Rightarrow> ptr list \<Rightarrow> ptr \<Rightarrow> (ptr \<Rightarrow> thread_view) \<Rightarrow> (ptr \<times> ptr) multiset" where
  "other_retired s ts t V = (\<Sum>u \<leftarrow> remove1 t ts. mset (map (retired_in s) (retired (V u))))"

lemma all_retired_split:
  assumes "t \<in> set ts"
  shows "all_retired s ts V pend = other_retired s ts t V + mset (map (retired_in s) (retired (V t))) + mset (map (retired_in s) pend)"
  unfolding all_retired_def other_retired_def sum_list_map_remove1 [OF assms] by (simp only: ac_simps)

lemma other_retired_cong:
  assumes "\<And>u. u \<in> set ts \<Longrightarrow> u \<noteq> t \<Longrightarrow> map (retired_in s') (retired (V' u)) = map (retired_in s) (retired (V u))" and "distinct ts"
  shows "other_retired s' ts t V' = other_retired s ts t V"
proof -
  have "map (\<lambda>u. mset (map (retired_in s') (retired (V' u)))) (remove1 t ts) = map (\<lambda>u. mset (map (retired_in s) (retired (V u)))) (remove1 t ts)"
    using assms by (intro map_cong) auto
  then show ?thesis unfolding other_retired_def by (rule arg_cong)
qed

lemma filter_entries:
  "map (retired_in s) (filter (protected_entry s K) es) = filter (\<lambda>r. snd r \<in> K) (map (retired_in s) es)"
  by (simp add: filter_map comp_def)

lemma after_cycle_all_retired:
  assumes at: "hps_at C s h ts ins V W pend M" and t: "t \<in> set ts"
    and cyc: "after_cycle C J (other_retired s ts t V) h ts t V pend M K s s'"
  obtains pend' V' W' ins' M' where "hps_at C s' h ts ins' V' W' pend' M'" "M' \<subseteq> M" "live s' \<subseteq> live s"
    "J (all_retired s' ts V' pend') M' s'"
    "all_retired s' ts V' pend' = other_retired s ts t V +
      filter_mset (\<lambda>r. snd r \<in> K) (mset (map (retired_in s) (retired (V t))) + mset (map (retired_in s) pend))"
    "\<forall>u \<in> set ts. held s' (V' u) = held s (V u) \<and> is_active s' u = is_active s u"
proof -
  let ?D = "set (filter (\<lambda>e. \<not> protected_entry s K e) (retired (V t) @ pend))"
  let ?V = "V(t := (V t)\<lparr>retired := filter (protected_entry s K) (retired (V t))\<rparr>)"
  obtain pend' M' W' ins' where c: "mset pend' = mset (filter (protected_entry s K) pend)"
    "hps_at C s' h ts ins' ?V W' pend' M'" "M' \<subseteq> M" "live s' \<subseteq> live s"
    "J (other_retired s ts t V + owed_after K (map (retired_in s) (retired (V t))) + owed_after K (map (retired_in s) pend)) M' s'"
    "\<forall>e. e \<notin> ?D \<longrightarrow> retired_in s' e = retired_in s e"
    "\<forall>u \<in> set ts. held s' (V u) = held s (V u) \<and> is_active s' u = is_active s u"
    using cyc unfolding after_cycle_def by (elim exE conjE) blast
  have own: "map (retired_in s') (filter (protected_entry s K) es) = filter (\<lambda>r. snd r \<in> K) (map (retired_in s) es)" for es
  proof -
    have "map (retired_in s') (filter (protected_entry s K) es) = map (retired_in s) (filter (protected_entry s K) es)"
      by (rule map_cong [OF refl], rule c(6) [rule_format]) simp
    then show ?thesis unfolding filter_entries .
  qed
  have "mset (map (retired_in s') pend') = mset (map (retired_in s') (filter (protected_entry s K) pend))"
    unfolding mset_map c(1) ..
  then have pend': "mset (map (retired_in s') pend') = owed_after K (map (retired_in s) pend)"
    unfolding own .
  have "other_retired s' ts t ?V = other_retired s ts t V"
  proof (rule other_retired_cong)
    fix u assume u: "u \<in> set ts" "u \<noteq> t"
    have "retired_in s' e = retired_in s e" if e: "e \<in> set (retired (V u))" for e
    proof (rule c(6) [rule_format])
      have "W e = Part_Of u" using hps_atD(9) [OF at u(1), of e] e by simp
      moreover have "W e = Part_Of t" if "e \<in> set (retired (V t))" using hps_atD(9) [OF at t, of e] that by simp
      moreover have "W e = Pending_Entry" if "e \<in> set pend" using hps_atD(4) [OF at that] by simp
      ultimately show "e \<notin> ?D" using u(2) by auto
    qed
    then show "map (retired_in s') (retired (?V u)) = map (retired_in s) (retired (V u))" using u(2) by simp
  qed (use hps_atD(3) [OF at] in simp)
  then have all: "all_retired s' ts ?V pend' = other_retired s ts t V + owed_after K (map (retired_in s) (retired (V t))) + owed_after K (map (retired_in s) pend)"
  proof -
    have rt: "retired (?V t) = filter (protected_entry s K) (retired (V t))" by simp
    assume "other_retired s' ts t ?V = other_retired s ts t V"
    then show ?thesis unfolding all_retired_split [OF t] pend' rt own by simp
  qed
  have "held s' (?V u) = held s (V u) \<and> is_active s' u = is_active s u" if "u \<in> set ts" for u
  proof -
    have "held s' (?V u) = held s' (V u)" by (simp add: held_def)
    with c(7) that show ?thesis by auto
  qed
  moreover have "J (all_retired s' ts ?V pend') M' s'" unfolding all by (rule c(5))
  moreover have "all_retired s' ts ?V pend' = other_retired s ts t V +
      filter_mset (\<lambda>r. snd r \<in> K) (mset (map (retired_in s) (retired (V t))) + mset (map (retired_in s) pend))"
    unfolding all by (simp add: ac_simps)
  ultimately show thesis using that c(2-4) by blast
qed

text \<open>The state after a new entry \<open>e\<close> is put on the thread's reclaim list.\<close>

lemma hps_at_push_entry:
  assumes at: "hps_at C s h ts ins V W pend M" and t: "t \<in> set ts" and T: "hp_threads s t = Some T"
    and e: "e \<noteq> null" "e \<notin> live s" and n: "n \<noteq> null"
    and s': "s' = s\<lparr>answers := ps, live := insert e (live s),
        hp_entries := (hp_entries s)(e \<mapsto> \<lparr>re_next = reclaim_list T, re_node = n, re_reclaim = f\<rparr>),
        hp_threads := (hp_threads s)(t \<mapsto> T\<lparr>reclaim_list := e, reclaim_list_entry_count := reclaim_list_entry_count T + 1\<rparr>)\<rparr>"
    and v': "v' = (V t)\<lparr>retired := e # retired (V t)\<rparr>"
  shows "\<exists>W'. hps_at C s' h ts ins (V(t := v')) W' pend M"
    and "all_retired s' ts (V(t := v')) pend = add_mset (f, n) (all_retired s ts V pend)"
    and "held s' ((V(t := v')) u) = held s (V u)" and "is_active s' = is_active s"
proof -
  obtain T' where T': "t \<noteq> null" "distinct (own t (V t))" "hp_threads s t = Some T'" "th_hazard_pointers T' = h"
    "heap_chain (rec_next s) (pointers T') (used (V t))" "heap_chain (rec_next s) (free_pointers T') (unused (V t))"
    "heap_chain (ent_next s) (reclaim_list T') (retired (V t))" "reclaim_list_entry_count T' = of_nat (length (retired (V t)))"
    by (rule thread_atE [OF hps_atD(7) [OF at t]])
  with T have [simp]: "T' = T" by simp
  have own: "x \<in> set (own t (V t)) \<Longrightarrow> x \<in> live s \<and> W x = Part_Of t" for x
    using hps_atD(9) [OF at t] by blast
  have fresh: "e \<notin> set (own t (V t))" using own e(2) by blast
  have own': "set (own t v') = insert e (set (own t (V t)))" by (auto simp: v')
  have v1: "thread_at s' h t v'"
    unfolding thread_at_def
  proof (intro conjI exI [of _ "T\<lparr>reclaim_list := e, reclaim_list_entry_count := reclaim_list_entry_count T + 1\<rparr>"])
    show "\<forall>x \<in> set (retired v'). re_node (the (hp_entries s' x)) \<noteq> null"
      using thread_at_nodes [OF hps_atD(7) [OF at t]] n by (simp add: v' s')
    show "distinct (own t v')" using T'(2) fresh by (auto simp: v')
  qed (use T' fresh e in \<open>simp_all add: s' v'\<close>)
  have nx: "thr_next s' = thr_next s" using T by (auto simp: s')
  have lv: "live s' = (live s - set (own t (V t))) \<union> set (own t v')"
  proof -
    have "set (own t (V t)) \<subseteq> live s" using own by blast
    moreover have "live s' = insert e (live s)" by (simp add: s')
    ultimately show ?thesis unfolding own' by blast
  qed
  have fr: "(set (own t v') - set (own t (V t))) \<inter> live s = {}" unfolding own' using e(2) by blast
  have oth: "hp_threads s' x = hp_threads s x \<and> hp_records s' x = hp_records s x \<and> hp_entries s' x = hp_entries s x"
    if "x \<in> live s" "W x \<noteq> Part_Of t" for x
    using that own [of t] e(2) by (auto simp: s')
  have ins: "t \<notin> set ins" using hps_atD(3) [OF at] t by auto
  show "\<exists>W'. hps_at C s' h ts ins (V(t := v')) W' pend M"
    by (rule exI, rule hps_at_own_change [OF at _ v1 _ _ _ nx oth lv fr]) (use t ins in \<open>auto simp: s'\<close>)
  have same: "retired_in s' x = retired_in s x" if "x \<in> live s" for x using that e(2) by (auto simp: s')
  have a: "other_retired s' ts t (V(t := v')) = other_retired s ts t V"
  proof (rule other_retired_cong)
    fix u assume u: "u \<in> set ts" "u \<noteq> t"
    have "x \<in> live s" if "x \<in> set (retired (V u))" for x using hps_atD(9) [OF at u(1), of x] that by simp
    then show "map (retired_in s') (retired ((V(t := v')) u)) = map (retired_in s) (retired (V u))"
      using same u(2) by auto
  qed (use hps_atD(3) [OF at] in simp)
  have b: "map (retired_in s') (retired ((V(t := v')) t)) = (f, n) # map (retired_in s) (retired (V t))"
    using fresh by (auto simp: v' s')
  have c: "map (retired_in s') pend = map (retired_in s) pend"
    using same hps_atD(4) [OF at] by auto
  show "all_retired s' ts (V(t := v')) pend = add_mset (f, n) (all_retired s ts V pend)"
    unfolding all_retired_split [OF t] a b c by simp
  show "held s' ((V(t := v')) u) = held s (V u)" by (auto simp: held_def s' v' fun_eq_iff)
  show "is_active s' = is_active s" using T by (auto simp: is_active_def s' fun_eq_iff)
qed

lemma wp_malloc_obj:
  assumes "\<And>ps. \<not> plenty 1 s \<Longrightarrow> Q null (s\<lparr>answers := ps\<rparr>)"
    and "\<And>p ps s'. p \<noteq> null \<Longrightarrow> aligned p \<Longrightarrow> p \<notin> live s \<Longrightarrow> s' = s\<lparr>answers := ps, live := insert p (live s)\<rparr> \<Longrightarrow>
      Q p (put ((get s')(p \<mapsto> x)) s')"
  shows "wp (new_obj get put x) Q s"
proof (cases s rule: malloc_step_cases)
  case (1 ps)
  then have "\<not> plenty 1 s" using plenty_malloc(1) [of 0 s] by auto
  with 1 assms(1) show ?thesis by (simp add: new_obj_def wp_atomic)
qed (use assms(2) in \<open>simp add: new_obj_def wp_atomic\<close>)

theorem wp_reclaim:
  assumes X: "tqueue_ok X C" and J: "reclaim_ok rf J" and at: "hps_at C s h ts ins V W pend M" and t: "t \<in> set ts"
    and n: "n \<noteq> null" and b: "2 * card (live s) + 4 < b"
    and owed: "J (add_mset (f, n) (all_retired s ts V pend)) M s" and drop: "plenty 1 s \<or> drop_ok J"
  shows "wp (clds_hazard_pointers_reclaim X rf b t n f) (\<lambda>_ s'. \<exists>pend' V' W' ins' M'.
      hps_at C s' h ts ins' V' W' pend' M' \<and> M' \<subseteq> M \<and> card (live s') \<le> Suc (card (live s)) \<and>
      J (all_retired s' ts V' pend') M' s' \<and> all_retired s' ts V' pend' \<subseteq># add_mset (f, n) (all_retired s ts V pend) \<and>
      (\<forall>u \<in> set ts. held s' (V' u) = held s (V u) \<and> is_active s' u = is_active s u)) s"
    (is "wp _ ?Q s")
proof -
  define Q where "Q = ?Q"
  obtain T where T: "hp_threads s t = Some T" "th_hazard_pointers T = h" "t \<noteq> null"
    using hps_atD(7) [OF at t] unfolding thread_at_def by blast
  obtain H where H: "hp_structs s h = Some H" using hps_at_struct [OF at] by metis
  note fin = hps_atD(2) [OF at]
  have fail: "Q () (s\<lparr>answers := ps\<rparr>)" if "drop_ok J" for ps
  proof -
    let ?s = "s\<lparr>answers := ps\<rparr>"
    have "hps_at C ?s h ts ins V W pend M" using at by (simp add: hps_at_def thread_at_def)
    moreover have "all_retired ?s ts V pend = all_retired s ts V pend" by (simp add: all_retired_def)
    moreover have "J (all_retired s ts V pend) M ?s"
      by (rule reclaim_okD(2) [OF J]) (use that owed in \<open>auto simp: drop_ok_def\<close>)
    moreover have "held ?s v = held s v" "is_active ?s u = is_active s u" for v u by (simp_all add: held_def is_active_def fun_eq_iff)
    ultimately show ?thesis
      unfolding Q_def by (intro exI [of _ pend] exI [of _ V] exI [of _ W] exI [of _ ins] exI [of _ M]) simp
  qed
  have new: "wp (if reclaim_list_entry_count T + 1 \<ge> reclaim_threshold H then internal_reclaim X rf b t else Done ()) Q s1"
    if e: "e \<noteq> null" "e \<notin> live s" and s1: "s1 = s\<lparr>answers := ps, live := insert e (live s),
        hp_entries := (hp_entries s)(e \<mapsto> \<lparr>re_next = reclaim_list T, re_node = n, re_reclaim = f\<rparr>),
        hp_threads := (hp_threads s)(t \<mapsto> T\<lparr>reclaim_list := e, reclaim_list_entry_count := reclaim_list_entry_count T + 1\<rparr>)\<rparr>"
    for e ps s1
  proof -
    define V1 where "V1 = V(t := (V t)\<lparr>retired := e # retired (V t)\<rparr>)"
    note push = hps_at_push_entry [OF at t T(1) e n s1 refl, folded V1_def]
    obtain W1 where at1: "hps_at C s1 h ts ins V1 W1 pend M" using push(1) by blast
    have card1: "card (live s1) = Suc (card (live s))" using e fin by (simp add: s1)
    have J1: "J (all_retired s1 ts V1 pend) M s1"
      unfolding push(2) by (rule reclaim_okD(2) [OF J owed]) (simp add: s1)
    show ?thesis
    proof (cases "reclaim_list_entry_count T + 1 \<ge> reclaim_threshold H")
      case False
      moreover have "Q () s1"
        unfolding Q_def using at1 card1 J1 push(2-4)
        by (intro exI [of _ pend] exI [of _ V1] exI [of _ W1] exI [of _ ins] exI [of _ M]) simp
      ultimately show ?thesis by (simp add: wp_simps)
    next
      case True
      have b1: "2 * card (live s1) + 2 < b" using b card1 by simp
      have "wp (internal_reclaim X rf b t) Q s1"
      proof (rule wp_mono [OF wp_internal_reclaim [OF X J at1 t b1 J1 [unfolded all_retired_split [OF t]]]], elim exE conjE)
        fix s' K and a :: unit
        assume cyc: "after_cycle C J (other_retired s1 ts t V1) h ts t V1 pend M K s1 s'"
        obtain pend' V' W' ins' M' where c: "hps_at C s' h ts ins' V' W' pend' M'" "M' \<subseteq> M" "live s' \<subseteq> live s1"
          "J (all_retired s' ts V' pend') M' s'"
          "all_retired s' ts V' pend' = other_retired s1 ts t V1 +
            filter_mset (\<lambda>r. snd r \<in> K) (mset (map (retired_in s1) (retired (V1 t))) + mset (map (retired_in s1) pend))"
          "\<forall>u \<in> set ts. held s' (V' u) = held s1 (V1 u) \<and> is_active s' u = is_active s1 u"
          by (rule after_cycle_all_retired [OF at1 t cyc])
        have "all_retired s' ts V' pend' \<subseteq># all_retired s1 ts V1 pend"
          unfolding c(5) all_retired_split [OF t, of s1] add.assoc by (rule subset_mset.add_left_mono) (rule multiset_filter_subset)
        then have "all_retired s' ts V' pend' \<subseteq># add_mset (f, n) (all_retired s ts V pend)"
          unfolding push(2) .
        moreover have "card (live s') \<le> Suc (card (live s))"
          using card_mono [OF _ c(3)] card1 fin by (simp add: s1)
        ultimately show "Q a s'"
          unfolding Q_def using c(1,2,4,6) push(3,4)
          by (intro exI [of _ pend'] exI [of _ V'] exI [of _ W'] exI [of _ ins'] exI [of _ M']) simp
      qed
      with True show ?thesis by simp
    qed
  qed
  have "wp malloc_entry (\<lambda>e. wp (if e = null then Done ()
        else
          call (on_thread t (rd reclaim_list)) (\<lambda>l.
          call (on_entry e (wr re_next_update l)) (\<lambda>_.
          call (on_entry e (wr re_node_update n)) (\<lambda>_.
          call (on_entry e (wr re_reclaim_update f)) (\<lambda>_.
          call (on_thread t (wr reclaim_list_update e)) (\<lambda>_.
          call (on_thread t (add_fetch reclaim_list_entry_count reclaim_list_entry_count_update 1)) (\<lambda>count.
          call (on_thread t (rd th_hazard_pointers)) (\<lambda>h.
          call (on_hps h (rd reclaim_threshold)) (\<lambda>threshold.
          if count \<ge> threshold then internal_reclaim X rf b t
          else Done ()))))))))) Q) s"
    unfolding malloc_entry_def
  proof (rule wp_malloc_obj, goal_cases)
    case (1 ps)
    then show ?case using fail drop by (simp add: wp_simps)
  next
    case (2 e ps s0)
    then show ?case
      using new [OF 2(1,3), of _ ps] T H
      by (cases "reclaim_threshold H \<le> reclaim_list_entry_count T + 1") (simp_all add: wp_simps access_kinds)
  qed
  then show ?thesis
    unfolding Q_def [symmetric] using T(3) n by (simp add: clds_hazard_pointers_reclaim_def wp_funs)
qed

section \<open>The contract\<close>

text \<open>A client acquires a hazard pointer for each of a list of nodes, until one cannot be had, and releases a list of them.\<close>

primrec acquire_all :: "(ptr \<Rightarrow> ('s, ptr) prog) \<Rightarrow> ptr list \<Rightarrow> ('s, ptr list) prog" where
  "acquire_all acq [] = Done []"
| "acquire_all acq (n # ns) =
     call (acq n) (\<lambda>r.
     if r = null then Done []
     else call (acquire_all acq ns) (\<lambda>rs. Done (r # rs)))"

primrec release_all :: "(ptr \<Rightarrow> ('s, unit) prog) \<Rightarrow> ptr list \<Rightarrow> ('s, unit) prog" where
  "release_all rel [] = Done ()"
| "release_all rel (r # rs) = call (rel r) (\<lambda>_. release_all rel rs)"

text \<open>
  \<open>ok s t A R M\<close>: thread \<open>t\<close> is registered and active; its records in use hold \<open>A\<close>; \<open>R\<close> are all
  the reclaim calls owed; \<open>M\<close> is the allocated memory that is not the hazard pointers' own.
  \<open>client s\<close> is the client's part of the state, \<open>frame M M' s s'\<close> a step of the client on it. The
  bound \<open>room\<close> limits the number of allocated objects, and \<open>enough k s\<close> says that \<open>k\<close> more hazard
  pointers can be had. \<open>owed_ok J\<close> says that the reclaim functions
  discharge a call owed under the client's invariant \<open>J\<close>; no call owed is lost while there is memory.
\<close>

locale hazard_pointers =
  fixes ok :: "'s \<Rightarrow> ptr \<Rightarrow> (ptr \<Rightarrow> ptr option) \<Rightarrow> (ptr \<times> ptr) multiset \<Rightarrow> ptr set \<Rightarrow> bool"
    and client :: "'s \<Rightarrow> 'c"
    and allocated :: "'s \<Rightarrow> ptr set"
    and frame :: "ptr set \<Rightarrow> ptr set \<Rightarrow> 's \<Rightarrow> 's \<Rightarrow> bool"
    and owed_ok :: "((ptr \<times> ptr) multiset \<Rightarrow> ptr set \<Rightarrow> 's \<Rightarrow> bool) \<Rightarrow> bool"
    and room :: nat
    and enough :: "nat \<Rightarrow> 's \<Rightarrow> bool"
    and acquire :: "ptr \<Rightarrow> ptr \<Rightarrow> ('s, ptr) prog"
    and release :: "ptr \<Rightarrow> ptr \<Rightarrow> ('s, unit) prog"
    and reclaim :: "ptr \<Rightarrow> ptr \<Rightarrow> ptr \<Rightarrow> ('s, unit) prog"
  assumes acquire: "ok s t A R M \<Longrightarrow> 0 < room \<Longrightarrow>
      wp (acquire t n) (\<lambda>r s'. client s' = client s \<and> card (allocated s') \<le> Suc (card (allocated s)) \<and>
        (\<forall>k. enough (Suc k) s \<longrightarrow> r \<noteq> null \<and> enough k s') \<and>
        (if r = null then ok s' t A R M else A r = None \<and> ok s' t (A(r \<mapsto> n)) R M)) s"
    and release: "ok s t A R M \<Longrightarrow> r \<in> dom A \<Longrightarrow> card (allocated s) < room \<Longrightarrow>
      wp (release t r) (\<lambda>_ s'. client s' = client s \<and> allocated s' = allocated s \<and>
        (\<forall>k. enough k s \<longrightarrow> enough k s') \<and> ok s' t (A(r := None)) R M) s"
    and reclaim: "ok s t A R M \<Longrightarrow> n \<noteq> null \<Longrightarrow> 2 * card (allocated s) + 4 < room \<Longrightarrow> owed_ok J \<Longrightarrow>
      J (add_mset (f, n) R) M s \<Longrightarrow> enough 1 s \<or> drop_ok J \<Longrightarrow>
      wp (reclaim t n f) (\<lambda>_ s'. card (allocated s') \<le> Suc (card (allocated s)) \<and>
        (\<exists>R' M'. R' \<subseteq># add_mset (f, n) R \<and> M' \<subseteq> M \<and> ok s' t A R' M' \<and> J R' M' s')) s"
    and frame: "ok s t A R M \<Longrightarrow> frame M M' s s' \<Longrightarrow> ok s' t A R M'"
    and client_memory: "ok s t A R M \<Longrightarrow> M \<subseteq> allocated s \<and> finite (allocated s) \<and> t \<noteq> null"
begin

lemma acquire_all:
  assumes "ok s t A R M" and "0 < room"
  shows "wp (acquire_all (acquire t) ns) (\<lambda>rs s'. \<exists>A'. ok s' t A' R M \<and> client s' = client s \<and>
      distinct rs \<and> set rs \<inter> dom A = {} \<and> map A' rs = map Some (take (length rs) ns) \<and> length rs \<le> length ns \<and>
      A' |` (- set rs) = A \<and> card (allocated s') \<le> card (allocated s) + length ns) s"
  using assms
proof (induction ns arbitrary: s A)
  case Nil
  then show ?case by (auto simp: wp_simps restrict_map_def intro!: exI [of _ A])
next
  case (Cons n ns)
  show ?case
    unfolding acquire_all.simps
  proof (rule wp_seq [OF acquire [OF Cons.prems, of n]])
    fix r s1
    assume r: "client s1 = client s \<and> card (allocated s1) \<le> Suc (card (allocated s)) \<and>
      (\<forall>k. enough (Suc k) s \<longrightarrow> r \<noteq> null \<and> enough k s1) \<and>
      (if r = null then ok s1 t A R M else A r = None \<and> ok s1 t (A(r \<mapsto> n)) R M)"
    define Q where "Q = (\<lambda>rs s'. \<exists>A'. ok s' t A' R M \<and> client s' = client s \<and>
      distinct rs \<and> set rs \<inter> dom A = {} \<and> map A' rs = map Some (take (length rs) (n # ns)) \<and> length rs \<le> length (n # ns) \<and>
      A' |` (- set rs) = A \<and> card (allocated s') \<le> card (allocated s) + length (n # ns))"
    have "wp (if r = null then Done [] else call (acquire_all (acquire t) ns) (\<lambda>rs. Done (r # rs))) Q s1"
    proof (cases "r = null")
      case True
      then have "Q [] s1"
        unfolding Q_def using r by (intro exI [of _ A]) (auto simp: restrict_map_def)
      with True show ?thesis by (simp add: wp_simps)
    next
      case False
      then have s1: "A r = None" "ok s1 t (A(r \<mapsto> n)) R M" using r by auto
      have "wp (call (acquire_all (acquire t) ns) (\<lambda>rs. Done (r # rs))) Q s1"
      proof (rule wp_seq [OF Cons.IH [OF s1(2) Cons.prems(2)]], elim exE conjE)
        fix rs s2 A'
        assume a: "ok s2 t A' R M" "client s2 = client s1" "distinct rs" "set rs \<inter> dom (A(r \<mapsto> n)) = {}"
          "map A' rs = map Some (take (length rs) ns)" "length rs \<le> length ns" "A' |` (- set rs) = A(r \<mapsto> n)"
          "card (allocated s2) \<le> card (allocated s1) + length ns"
        have rr: "r \<notin> set rs" using a(4) by auto
        then have "A' r = Some n" using fun_cong [OF a(7), of r] by simp
        moreover have "A' |` (- set (r # rs)) = A"
        proof
          fix x show "(A' |` (- set (r # rs))) x = A x"
            using fun_cong [OF a(7), of x] s1(1) by (auto simp: restrict_map_def split: if_splits)
        qed
        ultimately have "Q (r # rs) s2"
          unfolding Q_def using a r rr s1(1) by (intro exI [of _ A']) auto
        then show "wp (Done (r # rs)) Q s2" by (simp add: wp_simps)
      qed
      with False show ?thesis by simp
    qed
    then show "wp (if r = null then Done [] else call (acquire_all (acquire t) ns) (\<lambda>rs. Done (r # rs)))
      (\<lambda>rs s'. \<exists>A'. ok s' t A' R M \<and> client s' = client s \<and>
      distinct rs \<and> set rs \<inter> dom A = {} \<and> map A' rs = map Some (take (length rs) (n # ns)) \<and> length rs \<le> length (n # ns) \<and>
      A' |` (- set rs) = A \<and> card (allocated s') \<le> card (allocated s) + length (n # ns)) s1"
      unfolding Q_def .
  qed
qed

lemma release_all:
  assumes "ok s t A R M" and "distinct rs" and "set rs \<subseteq> dom A" and "card (allocated s) < room"
  shows "wp (release_all (release t) rs) (\<lambda>_ s'. client s' = client s \<and> allocated s' = allocated s \<and> ok s' t (A |` (- set rs)) R M) s"
  using assms
proof (induction rs arbitrary: s A)
  case Nil
  then show ?case by (simp add: wp_simps restrict_map_def)
next
  case (Cons r rs)
  have r: "r \<in> dom A" using Cons.prems by auto
  show ?case
    unfolding release_all.simps
  proof (rule wp_seq [OF release [OF Cons.prems(1) r Cons.prems(4)]])
    fix a s1
    assume s1: "client s1 = client s \<and> allocated s1 = allocated s \<and> (\<forall>k. enough k s \<longrightarrow> enough k s1) \<and> ok s1 t (A(r := None)) R M"
    have "wp (release_all (release t) rs) (\<lambda>_ s'. client s' = client s1 \<and> allocated s' = allocated s1 \<and> ok s' t (A(r := None) |` (- set rs)) R M) s1"
    proof (rule Cons.IH)
      show "ok s1 t (A(r := None)) R M" "card (allocated s1) < room" using s1 Cons.prems(4) by simp_all
      show "distinct rs" "set rs \<subseteq> dom (A(r := None))" using Cons.prems(2,3) by auto
    qed
    moreover have "A(r := None) |` (- set rs) = A |` (- set (r # rs))" by (auto simp: restrict_map_def)
    ultimately show "wp (release_all (release t) rs) (\<lambda>_ s'. client s' = client s \<and> allocated s' = allocated s \<and> ok s' t (A |` (- set (r # rs))) R M) s1"
      using s1 by simp
  qed
qed

text \<open>Whatever is acquired can be released in any order, and then the thread holds what it held before.\<close>

lemma acquire_release:
  assumes "ok s t A R M" and "card (allocated s) + length ns < room" and "\<And>rs. mset (order rs) = mset rs"
  shows "wp (call (acquire_all (acquire t) ns) (\<lambda>rs. release_all (release t) (order rs)))
    (\<lambda>_ s'. ok s' t A R M \<and> client s' = client s) s"
proof -
  have "0 < room" using assms(2) by simp
  show ?thesis
  proof (rule wp_seq [OF acquire_all [OF assms(1) \<open>0 < room\<close>]], elim exE conjE)
    fix rs s1 A'
    assume a: "ok s1 t A' R M" "client s1 = client s" "distinct rs" "map A' rs = map Some (take (length rs) ns)"
      "length rs \<le> length ns" "A' |` (- set rs) = A" "card (allocated s1) \<le> card (allocated s) + length ns"
    have ord: "distinct (order rs)" "set (order rs) = set rs"
      using assms(3) [of rs] a(3) mset_eq_imp_distinct_iff mset_eq_setD by blast+
    have "A' r \<noteq> None" if r: "r \<in> set rs" for r
    proof -
      have "A' r \<in> set (map A' rs)" using r by simp
      then show ?thesis unfolding a(4) by auto
    qed
    then have "set (order rs) \<subseteq> dom A'" using ord by auto
    moreover have "card (allocated s1) < room" using a(7) assms(2) by simp
    ultimately have "wp (release_all (release t) (order rs)) (\<lambda>_ s'. client s' = client s1 \<and> allocated s' = allocated s1 \<and>
        ok s' t (A' |` (- set (order rs))) R M) s1"
      by (rule release_all [OF a(1) ord(1)])
    then show "wp (release_all (release t) (order rs)) (\<lambda>_ s'. ok s' t A R M \<and> client s' = client s) s1"
      by (rule wp_mono) (use a ord in simp)
  qed
qed

end

section \<open>The model provides it\<close>

definition hp_ok :: "'q externals \<Rightarrow> ('q \<Rightarrow> ptr \<Rightarrow> inactive_thread list) \<Rightarrow> ('q, 'a) hp_mem_scheme \<Rightarrow> ptr \<Rightarrow>
    (ptr \<Rightarrow> ptr option) \<Rightarrow> (ptr \<times> ptr) multiset \<Rightarrow> ptr set \<Rightarrow> bool" where
  "hp_ok X C s t A R M \<longleftrightarrow> tqueue_ok X C \<and> (\<exists>h ts ins V W pend. hps_at C s h ts ins V W pend M \<and> t \<in> set ts \<and>
     is_active s t \<and> A = held s (V t) \<and> R = all_retired s ts V pend)"

definition hp_frame :: "ptr set \<Rightarrow> ptr set \<Rightarrow> ('q, 'a) hp_mem_scheme \<Rightarrow> ('q, 'a) hp_mem_scheme \<Rightarrow> bool" where
  "hp_frame M M' s s' \<longleftrightarrow> same_hp s s' \<and> M' \<subseteq> live s' \<and> live s' - M' = live s - M \<and> finite (live s')"

lemma hp_okE:
  assumes "hp_ok X C s t A R M"
  obtains h ts ins V W pend where "tqueue_ok X C" "hps_at C s h ts ins V W pend M" "t \<in> set ts" "is_active s t"
    "A = held s (V t)" "R = all_retired s ts V pend"
  using assms unfolding hp_ok_def by blast

lemma hp_okI:
  "tqueue_ok X C \<Longrightarrow> hps_at C s h ts ins V W pend M \<Longrightarrow> t \<in> set ts \<Longrightarrow> is_active s t \<Longrightarrow> A = held s (V t) \<Longrightarrow>
   R = all_retired s ts V pend \<Longrightarrow> hp_ok X C s t A R M"
  unfolding hp_ok_def by blast

lemma only_records_retired: "only_records s s' \<Longrightarrow> retired v' = retired (V t) \<Longrightarrow> all_retired s' ts (V(t := v')) pend = all_retired s ts V pend"
proof -
  assume a: "only_records s s'" "retired v' = retired (V t)"
  have "retired ((V(t := v')) u) = retired (V u)" for u using a(2) by simp
  moreover have "retired_in s' = retired_in s" using a(1) by (simp add: only_records_def)
  ultimately show ?thesis unfolding all_retired_def by (simp only:)
qed

text \<open>With memory left, a hazard pointer can be had.\<close>

lemma take_free_record_plenty: "wlp (take_free_record n t) (\<lambda>_ s'. answers s' = answers s0 \<and> live s' = live s0) s"
  if "answers s = answers s0" "live s = live s0" for s :: "('q, 'a) hp_mem_scheme"
  using that
  by (induction n t arbitrary: s rule: take_free_record.induct) (auto simp: access_kinds split: option.splits)

lemma publish_record_plenty: "wlp (publish_record t r n) (\<lambda>r' s'. r' = r \<and> answers s' = answers s \<and> live s' = live s) s"
  by (auto simp: publish_record_def access_kinds split: option.splits)

lemma malloc_record_plenty: "wlp malloc_record (\<lambda>r s'. \<forall>k. plenty (Suc k) s \<longrightarrow> r \<noteq> null \<and> plenty k s') s"
proof -
  obtain p s1 where m: "malloc_step s = (p, s1)" by fastforce
  show ?thesis
    unfolding malloc_record_def wlp_new_obj m prod.case
  proof (intro allI impI)
    fix k assume "plenty (Suc k) s"
    from plenty_malloc [OF this m]
    show "p \<noteq> null \<and> plenty k (if p = null then s1 else s1\<lparr>hp_records := (hp_records s1)(p \<mapsto> \<lparr>hp_node = junk, hp_next = junk\<rparr>)\<rparr>)"
      by (simp add: plenty_def)
  qed
qed

lemma acquire_plenty:
  fixes s :: "('q, 'a) hp_mem_scheme"
  shows "wlp (clds_hazard_pointers_acquire b t n) (\<lambda>r s'. t \<noteq> null \<longrightarrow> (\<forall>k. plenty (Suc k) s \<longrightarrow> r \<noteq> null \<and> plenty k s')) s"
proof -
  define Q where "Q = (\<lambda>r s'. \<forall>k. plenty (Suc k) s \<longrightarrow> r \<noteq> null \<and> plenty k (s' :: ('q, 'a) hp_mem_scheme))"
  have pub: "wlp (publish_record t r n) Q s1" if "r \<noteq> null" "\<And>k. plenty (Suc k) s \<Longrightarrow> plenty k s1" for r s1
    unfolding Q_def by (rule wlp_mono [OF publish_record_plenty]) (use that plenty_cong in blast)
  have "wlp (call malloc_record (\<lambda>r. if r = null then Done null else publish_record t r n)) Q s1"
    if "answers s1 = answers s" "live s1 = live s" for s1
  proof -
    have "wlp (if r = null then Done null else publish_record t r n) Q s2"
      if "\<forall>k. plenty (Suc k) s1 \<longrightarrow> r \<noteq> null \<and> plenty k s2" for r s2
      using that plenty_cong [OF \<open>answers s1 = answers s\<close> \<open>live s1 = live s\<close>] by (cases "r = null") (auto simp: Q_def intro!: pub [unfolded Q_def])
    then show ?thesis by (auto intro!: wlp_mono [OF malloc_record_plenty])
  qed
  moreover have "wlp (publish_record t r n) Q s1" if "answers s1 = answers s" "live s1 = live s" "r \<noteq> null" for r s1
    by (rule pub) (use that plenty_fewer [of "Suc _" s] plenty_cong [of s1 s] in auto)
  ultimately have "wlp (clds_hazard_pointers_acquire b t n) (\<lambda>r s'. t \<noteq> null \<longrightarrow> Q r s') s"
    unfolding clds_hazard_pointers_acquire_def
    by (auto intro!: wlp_mono [OF take_free_record_plenty [OF refl refl]])
  then show ?thesis by (simp add: Q_def)
qed

lemma unlink_record_plenty: "wlp (unlink_record n t r hp prev) (\<lambda>_ s'. answers s' = answers s0 \<and> live s' = live s0) s"
  if "answers s = answers s0" "live s = live s0" for s :: "('q, 'a) hp_mem_scheme"
  using that
  by (induction n t r hp prev arbitrary: s rule: unlink_record.induct) (auto simp: access_kinds split: option.splits)

lemma release_plenty: "wlp (clds_hazard_pointers_release b t r) (\<lambda>_ s'. \<forall>k. plenty k s \<longrightarrow> plenty k s') s"
  unfolding clds_hazard_pointers_release_def
  by (auto simp: access_kinds plenty_def split: option.splits intro!: wlp_mono [OF unlink_record_plenty [of _ s]])

lemma hp_acquire_law:
  assumes "hp_ok X C s t A R M" and "0 < b"
  shows "wp (clds_hazard_pointers_acquire b t n) (\<lambda>r s'. hp_mem.more s' = hp_mem.more s \<and> card (live s') \<le> Suc (card (live s)) \<and>
    (if r = null then hp_ok X C s' t A R M else A r = None \<and> hp_ok X C s' t (A(r \<mapsto> n)) R M)) s"
proof -
  obtain h ts ins V W pend where o: "tqueue_ok X C" "hps_at C s h ts ins V W pend M" "t \<in> set ts" "is_active s t"
    "A = held s (V t)" "R = all_retired s ts V pend"
    by (rule hp_okE [OF assms(1)])
  show ?thesis
  proof (rule wp_mono [OF wp_acquire [OF o(2,3) assms(2)]], elim exE conjE)
    fix r s' v' W'
    assume a: "hps_at C s' h ts ins (V(t := v')) W' pend M" "retired v' = retired (V t)" "only_records s s'"
      "if r = null then held s' v' = held s (V t) else held s (V t) r = None \<and> held s' v' = (held s (V t))(r \<mapsto> n)"
      "card (live s') \<le> Suc (card (live s))"
    have act: "is_active s' t" using a(3) o(4) by (simp add: only_records_def)
    have "hp_ok X C s' t (held s' v') R M"
      by (rule hp_okI [OF o(1) a(1) o(3) act]) (use only_records_retired [where V = V and t = t, OF a(3,2)] o(6) in simp_all)
    then show "hp_mem.more s' = hp_mem.more s \<and> card (live s') \<le> Suc (card (live s)) \<and>
      (if r = null then hp_ok X C s' t A R M else A r = None \<and> hp_ok X C s' t (A(r \<mapsto> n)) R M)"
      using a(3-5) o(5) by (auto simp: only_records_def split: if_splits)
  qed
qed

lemma hp_release_law:
  assumes "hp_ok X C s t A R M" and "r \<in> dom A" and "card (live s) < b"
  shows "wp (clds_hazard_pointers_release b t r) (\<lambda>_ s'. hp_mem.more s' = hp_mem.more s \<and> live s' = live s \<and>
    hp_ok X C s' t (A(r := None)) R M) s"
proof -
  obtain h ts ins V W pend where o: "tqueue_ok X C" "hps_at C s h ts ins V W pend M" "t \<in> set ts" "is_active s t"
    "A = held s (V t)" "R = all_retired s ts V pend"
    by (rule hp_okE [OF assms(1)])
  have r: "r \<in> set (used (V t))" using assms(2) o(5) by (auto simp: held_def split: if_splits)
  have b: "length (used (V t)) < b" using hps_at_lengths(1) [OF o(2), of t] o(3) assms(3) by (simp add: own_def)
  show ?thesis
  proof (rule wp_mono [OF wp_release [OF o(2,3) r b]], elim exE conjE)
    fix a :: unit and s' v' W'
    assume a: "hps_at C s' h ts ins (V(t := v')) W' pend M" "retired v' = retired (V t)" "only_records s s'"
      "held s' v' = (held s (V t))(r := None)" "live s' = live s"
    have act: "is_active s' t" using a(3) o(4) by (simp add: only_records_def)
    have "hp_ok X C s' t (held s' v') R M"
      by (rule hp_okI [OF o(1) a(1) o(3) act]) (use only_records_retired [where V = V and t = t, OF a(3,2)] o(6) in simp_all)
    then show "hp_mem.more s' = hp_mem.more s \<and> live s' = live s \<and> hp_ok X C s' t (A(r := None)) R M"
      using a(3-5) o(5) by (simp add: only_records_def)
  qed
qed

lemma hp_reclaim_law:
  assumes "hp_ok X C s t A R M" and "n \<noteq> null" and "2 * card (live s) + 4 < b" and "reclaim_ok rf J"
    and "J (add_mset (f, n) R) M s" and "plenty 1 s \<or> drop_ok J"
  shows "wp (clds_hazard_pointers_reclaim X rf b t n f) (\<lambda>_ s'. card (live s') \<le> Suc (card (live s)) \<and>
    (\<exists>R' M'. R' \<subseteq># add_mset (f, n) R \<and> M' \<subseteq> M \<and> hp_ok X C s' t A R' M' \<and> J R' M' s')) s"
proof -
  obtain h ts ins V W pend where o: "tqueue_ok X C" "hps_at C s h ts ins V W pend M" "t \<in> set ts" "is_active s t"
    "A = held s (V t)" "R = all_retired s ts V pend"
    by (rule hp_okE [OF assms(1)])
  show ?thesis
  proof (rule wp_mono [OF wp_reclaim [OF o(1) assms(4) o(2,3) assms(2,3) assms(5) [unfolded o(6)] assms(6)]], elim exE conjE)
    fix a :: unit and s' pend' V' W' ins' M'
    assume a: "hps_at C s' h ts ins' V' W' pend' M'" "M' \<subseteq> M" "card (live s') \<le> Suc (card (live s))"
      "J (all_retired s' ts V' pend') M' s'" "all_retired s' ts V' pend' \<subseteq># add_mset (f, n) (all_retired s ts V pend)"
      "\<forall>u \<in> set ts. held s' (V' u) = held s (V u) \<and> is_active s' u = is_active s u"
    have "hp_ok X C s' t A (all_retired s' ts V' pend') M'"
      by (rule hp_okI [OF o(1) a(1) o(3)]) (use a(6) o(3-5) in auto)
    then show "card (live s') \<le> Suc (card (live s)) \<and>
      (\<exists>R' M'. R' \<subseteq># add_mset (f, n) R \<and> M' \<subseteq> M \<and> hp_ok X C s' t A R' M' \<and> J R' M' s')"
      using a(2-5) o(6) by blast
  qed
qed

lemma hp_frame_law:
  assumes "hp_ok X C s t A R M" and "hp_frame M M' s s'"
  shows "hp_ok X C s' t A R M'"
proof -
  obtain h ts ins V W pend where o: "tqueue_ok X C" "hps_at C s h ts ins V W pend M" "t \<in> set ts" "is_active s t"
    "A = held s (V t)" "R = all_retired s ts V pend"
    by (rule hp_okE [OF assms(1)])
  have f: "same_hp s s'" "M' \<subseteq> live s'" "live s' - M' = live s - M" "finite (live s')" using assms(2) by (auto simp: hp_frame_def)
  have "all_retired s' ts V pend = R" using o(6) by (simp add: all_retired_def same_hpD [OF f(1)])
  then show ?thesis
    using hp_okI [OF o(1) hps_at_same_hp [OF o(2) f(1,3,2,4)] o(3)] o(4,5) by (simp add: same_hpD [OF f(1)])
qed

lemma hp_ok_not_null:
  assumes "hp_ok X C s t A R M"
  shows "t \<noteq> null"
proof -
  obtain h ts ins V W pend where at: "hps_at C s h ts ins V W pend M" "t \<in> set ts" by (rule hp_okE [OF assms])
  then show ?thesis using hps_atD(7) [OF at] unfolding thread_at_def by blast
qed

interpretation hp: hazard_pointers "hp_ok X C" hp_mem.more live hp_frame "reclaim_ok rf" b
    plenty "clds_hazard_pointers_acquire b" "clds_hazard_pointers_release b" "clds_hazard_pointers_reclaim X rf b"
  for X C rf b
proof (unfold_locales, goal_cases)
  case (1 s t A R M n)
  show ?case
    by (rule wp_mono [OF wp_wlp [OF hp_acquire_law [OF 1] acquire_plenty]]) (use hp_ok_not_null [OF 1(1)] in simp)
next
  case (2 s t A R M r)
  show ?case by (rule wp_mono [OF wp_wlp [OF hp_release_law [OF 2] release_plenty]]) simp
next
  case (3 s t A R M n J f) then show ?case by (rule hp_reclaim_law)
next
  case (4 s t A R M M' s') then show ?case by (rule hp_frame_law)
next
  case (5 s t A R M)
  then obtain h ts ins V W pend where at: "hps_at C s h ts ins V W pend M" "t \<in> set ts" by (rule hp_okE)
  have "t \<noteq> null" by (rule hp_ok_not_null [OF 5])
  moreover have "M \<subseteq> live s" using hps_atD(5) [OF at(1)] by blast
  ultimately show ?case using hps_atD(2) [OF at(1)] by blast
qed

section \<open>Unregistering a thread\<close>

lemma wp_last_reclaim_entry:
  assumes "heap_chain (ent_next s) e es" and "es \<noteq> []" and "length es \<le> n" and "Q (last es) s"
  shows "wp (last_reclaim_entry n e) Q s"
  using assms
proof (induction es arbitrary: e n)
  case Nil
  then show ?case by simp
next
  case (Cons x es)
  then obtain m E where m: "n = Suc m" "e = x" "hp_entries s x = Some E" "heap_chain (ent_next s) (re_next E) es"
    by (cases n) auto
  show ?case
  proof (cases "es = []")
    case True
    with m Cons.prems(4) show ?thesis by (simp add: wp_simps access_kinds)
  next
    case False
    then have "re_next E \<noteq> null" using m(4) by (cases es) auto
    moreover have "wp (last_reclaim_entry m (re_next E)) Q s"
      by (rule Cons.IH [OF m(4) False]) (use Cons.prems m False in auto)
    ultimately show ?thesis using m by (simp add: wp_simps access_kinds)
  qed
qed

text \<open>The thread's reclaim list is cut off: its entries belong to nobody for the moment.\<close>

lemma hps_at_cut_retired:
  assumes at: "hps_at C s h ts ins V W pend M" and t: "t \<in> set ts" and T: "hp_threads s t = Some T"
    and s': "s' = s\<lparr>hp_threads := (hp_threads s)(t \<mapsto> T\<lparr>reclaim_list := null, reclaim_list_entry_count := 0, active := a\<rparr>)\<rparr>"
  shows "\<exists>W'. hps_at C s' h ts ins (V(t := (V t)\<lparr>retired := []\<rparr>)) W' pend (M \<union> set (retired (V t)))"
proof -
  let ?v = "(V t)\<lparr>retired := []\<rparr>"
  let ?es = "set (retired (V t))"
  obtain T' where T': "t \<noteq> null" "distinct (own t (V t))" "hp_threads s t = Some T'" "th_hazard_pointers T' = h"
    "heap_chain (rec_next s) (pointers T') (used (V t))" "heap_chain (rec_next s) (free_pointers T') (unused (V t))"
    "heap_chain (ent_next s) (reclaim_list T') (retired (V t))" "reclaim_list_entry_count T' = of_nat (length (retired (V t)))"
    by (rule thread_atE [OF hps_atD(7) [OF at t]])
  with T have [simp]: "T' = T" by simp
  have own: "x \<in> set (own t (V t)) \<Longrightarrow> x \<in> live s \<and> W x = Part_Of t" for x
    using hps_atD(9) [OF at t] by blast
  let ?s = "s'\<lparr>live := live s - ?es\<rparr>"
  have own': "set (own t ?v) = set (own t (V t)) - ?es" using T'(2) by auto
  have v1: "thread_at ?s h t ?v"
    unfolding thread_at_def
    by (intro conjI exI [of _ "T\<lparr>reclaim_list := null, reclaim_list_entry_count := 0, active := a\<rparr>"])
      (use T' in \<open>simp_all add: s'\<close>)
  have nx: "thr_next ?s = thr_next s" using T by (auto simp: s')
  have lv: "live ?s = (live s - set (own t (V t))) \<union> set (own t ?v)"
  proof -
    have "set (own t (V t)) \<subseteq> live s" "?es \<subseteq> set (own t (V t))" using own by auto
    then show ?thesis unfolding own' by auto
  qed
  have fr: "(set (own t ?v) - set (own t (V t))) \<inter> live s = {}" unfolding own' by blast
  have oth: "hp_threads ?s x = hp_threads s x \<and> hp_records ?s x = hp_records s x \<and> hp_entries ?s x = hp_entries s x"
    if "x \<in> live s" "W x \<noteq> Part_Of t" for x
    using that own [of t] by (auto simp: s')
  have "\<exists>W'. hps_at C ?s h ts ins (V(t := ?v)) W' pend M"
    by (rule exI, rule hps_at_own_change [OF at _ v1 _ _ _ nx oth lv fr]) (use t in \<open>auto simp: s'\<close>)
  then obtain W1 where at1: "hps_at C ?s h ts ins (V(t := ?v)) W1 pend M" by blast
  have es: "?es \<subseteq> live s" using own by auto
  have "M \<inter> ?es = {}" using hps_atD(5) [OF at] own by fastforce
  with es have 1: "live s' - (M \<union> ?es) = live ?s - M" "M \<union> ?es \<subseteq> live s'"
    using hps_atD(5) [OF at] by (auto simp: s')
  show ?thesis
    by (rule exI, rule hps_at_client [OF at1 _ _ _ 1]) (use hps_atD(2) [OF at] in \<open>simp_all add: s'\<close>)
qed

theorem wp_unregister:
  assumes X: "tqueue_ok X C" and at: "hps_at C s h ts ins V W pend M" and t: "t \<in> set ts" and b: "card (live s) < b"
  shows "wp (clds_hazard_pointers_unregister_thread X b t) (\<lambda>_ s'. \<exists>W'.
      hps_at C s' h ts ins (V(t := (V t)\<lparr>retired := []\<rparr>)) W' (retired (V t) @ pend) M \<and>
      map (retired_in s') (retired (V t) @ pend) = map (retired_in s) (retired (V t) @ pend) \<and>
      \<not> is_active s' t \<and> (\<forall>u. u \<noteq> t \<longrightarrow> is_active s' u = is_active s u) \<and>
      hp_records s' = hp_records s \<and> live s' = live s \<and> hp_mem.more s' = hp_mem.more s) s"
    (is "wp _ ?Q s")
proof -
  define Q where "Q = ?Q"
  obtain T where T: "t \<noteq> null" "hp_threads s t = Some T" "th_hazard_pointers T = h" "heap_chain (ent_next s) (reclaim_list T) (retired (V t))"
    using hps_atD(7) [OF at t] unfolding thread_at_def by blast
  obtain H where H: "hp_structs s h = Some H" using hps_at_struct [OF at] by metis
  let ?T = "T\<lparr>reclaim_list := null, reclaim_list_entry_count := 0, active := 0\<rparr>"
  define sa where "sa = s\<lparr>hp_threads := (hp_threads s)(t \<mapsto> ?T)\<rparr>"
  obtain Wa where ata: "hps_at C sa h ts ins (V(t := (V t)\<lparr>retired := []\<rparr>)) Wa pend (M \<union> set (retired (V t)))"
    using hps_at_cut_retired [OF at t T(2) sa_def] by blast
  have M: "M \<union> set (retired (V t)) - set (retired (V t)) = M"
    using hps_atD(5) [OF at] hps_atD(9) [OF at t] by fastforce
  have acta: "\<not> is_active sa t" "u \<noteq> t \<Longrightarrow> is_active sa u = is_active s u" for u
    by (simp_all add: is_active_def sa_def)
  text \<open>The worker is scheduled last; that changes only the outer state.\<close>
  have final: "Q () (s1\<lparr>outer := q\<rparr>)"
    if "hps_at C s1 h ts ins (V(t := (V t)\<lparr>retired := []\<rparr>)) W1 (retired (V t) @ pend) M"
      "map (retired_in s1) (retired (V t) @ pend) = map (retired_in s) (retired (V t) @ pend)"
      "hp_threads s1 = hp_threads sa" "hp_records s1 = hp_records s" "live s1 = live s" "hp_mem.more s1 = hp_mem.more s"
      "hp_structs s1 h = Some H1" "C q (inactive_threads H1) = C (outer s1) (inactive_threads H1)" for s1 W1 H1 q
  proof -
    have "is_active s1 u = is_active sa u" for u using that(3) by (simp add: is_active_def)
    moreover have "is_active (s1\<lparr>outer := q\<rparr>) u = is_active s1 u" for u by (simp add: is_active_def)
    ultimately show ?thesis
      unfolding Q_def using hps_at_outer [OF that(1,7,8)] that(2,4-6) acta by (intro exI [of _ W1]) simp
  qed
  have sched: "C (snd (worker_thread_schedule_process X w o')) q = C o' q" for w o' q
    using X unfolding tqueue_ok_def by blast
  show ?thesis
  proof (cases "retired (V t) = []")
    case True
    then have "reclaim_list T = null" "reclaim_list_entry_count T = 0"
      using T(4) hps_atD(7) [OF at t] T(2) unfolding thread_at_def by auto
    then have "T\<lparr>active := 0\<rparr> = ?T" by (cases T) simp
    then have sa: "s\<lparr>hp_threads := (hp_threads s)(t \<mapsto> T\<lparr>active := 0\<rparr>)\<rparr> = sa" by (simp add: sa_def)
    have "hps_at C sa h ts ins (V(t := (V t)\<lparr>retired := []\<rparr>)) Wa (retired (V t) @ pend) M" using ata True by simp
    then have "Q () (sa\<lparr>outer := snd (worker_thread_schedule_process X w (outer sa))\<rparr>)" for w
      by (rule final) (use H sched True in \<open>simp_all add: sa_def\<close>)
    then show ?thesis
      unfolding Q_def [symmetric] using T H \<open>reclaim_list T = null\<close> sa
      by (simp add: clds_hazard_pointers_unregister_thread_def wp_simps access_kinds sa_def)
  next
    case False
    let ?a = "last (retired (V t))"
    have rl: "reclaim_list T \<noteq> null" using T(4) False by (cases "retired (V t)") auto
    obtain A where A: "hp_entries s ?a = Some A" using heap_chain_dom [OF T(4), of ?a] False by auto
    have cha: "heap_chain (ent_next sa) (reclaim_list T) (retired (V t))" using T(4) by (simp add: sa_def)
    have nodes: "re_node (the (hp_entries sa x)) \<noteq> null" if "x \<in> set (retired (V t))" for x
      using thread_at_nodes [OF hps_atD(7) [OF at t] that] by (simp add: sa_def)
    define sb where "sb = s\<lparr>hp_entries := (hp_entries s)(?a \<mapsto> A\<lparr>re_next := pending_reclaim_list H\<rparr>),
      hp_structs := (hp_structs s)(h \<mapsto> H\<lparr>pending_reclaim_list := reclaim_list T\<rparr>),
      hp_threads := (hp_threads s)(t \<mapsto> ?T)\<rparr>"
    have sb: "sa\<lparr>hp_entries := (hp_entries s)(?a \<mapsto> A\<lparr>re_next := pending_reclaim_list H\<rparr>),
      hp_structs := (hp_structs s)(h \<mapsto> H\<lparr>pending_reclaim_list := reclaim_list T\<rparr>)\<rparr> = sb"
      by (cases s) (simp add: sa_def sb_def)
    have sa: "hp_entries sa = hp_entries s" "hp_structs sa = hp_structs s" by (simp_all add: sa_def)
    have "wp (push_pending (Suc 0) h (reclaim_list T) ?a) (\<lambda>_ s'. (\<exists>W'. hps_at C s' h ts ins (V(t := (V t)\<lparr>retired := []\<rparr>)) W' (retired (V t) @ pend) M) \<and>
        same_payload {} sa s') sa"
      by (rule wp_mono [OF wp_push_pending [OF ata cha False _ nodes, unfolded M]]) auto
    then have "(\<exists>W'. hps_at C sb h ts ins (V(t := (V t)\<lparr>retired := []\<rparr>)) W' (retired (V t) @ pend) M) \<and> same_payload {} sa sb"
      using H A by (simp add: wp_simps access_kinds sa sb)
    then obtain Wb where atb: "hps_at C sb h ts ins (V(t := (V t)\<lparr>retired := []\<rparr>)) Wb (retired (V t) @ pend) M"
      and pay: "same_payload {} sa sb" by blast
    have "map (retired_in sb) (retired (V t) @ pend) = map (retired_in sa) (retired (V t) @ pend)"
      by (rule same_payload_map [OF pay]) simp
    then have ret: "map (retired_in sb) (retired (V t) @ pend) = map (retired_in s) (retired (V t) @ pend)"
      by (simp add: sa_def)
    have "Q () (sb\<lparr>outer := snd (worker_thread_schedule_process X w (outer sb))\<rparr>)" for w
      by (rule final [OF atb ret]) (use H sched in \<open>simp_all add: sb_def sa_def\<close>)
    note fin = this
    have lst: "wp (last_reclaim_entry b (reclaim_list T)) P s" if "P ?a s" for P
    proof (rule wp_last_reclaim_entry [OF T(4) False, where Q = P])
      show "P ?a s" by (rule that)
      show "length (retired (V t)) \<le> b"
        using hps_at_lengths(1) [OF at, of t] t b by (simp add: own_def)
    qed
    have psh: "wp (push_pending b h (reclaim_list T) ?a) P s"
      if "P () (s\<lparr>hp_entries := (hp_entries s)(?a \<mapsto> A\<lparr>re_next := pending_reclaim_list H\<rparr>),
        hp_structs := (hp_structs s)(h \<mapsto> H\<lparr>pending_reclaim_list := reclaim_list T\<rparr>)\<rparr>)" for P
      using that H A b by (cases b) (simp_all add: wp_simps access_kinds)
    show ?thesis
      unfolding Q_def [symmetric] using T(1-3) H A rl
      by (simp add: clds_hazard_pointers_unregister_thread_def wp_simps access_kinds)
        (rule lst, simp add: wp_call, rule psh, use fin in \<open>simp add: wp_simps access_kinds sb_def\<close>)
  qed
qed

section \<open>Creating an instance and registering a thread\<close>

text \<open>The state after a fresh thread object \<open>t\<close> is linked in front of the thread list.\<close>

lemma hps_at_register:
  assumes at: "hps_at C s h ts ins V W pend M" and H: "hp_structs s h = Some H" and t: "t \<noteq> null" "t \<notin> live s"
    and T: "th_next T = hp_head H" "th_hazard_pointers T = h" "pointers T = null" "free_pointers T = null"
      "reclaim_list T = null" "reclaim_list_entry_count T = 0" "active T = 1"
    and s': "s' = s\<lparr>answers := ps, live := insert t (live s), hp_threads := (hp_threads s)(t \<mapsto> T),
      hp_structs := (hp_structs s)(h \<mapsto> H\<lparr>hp_head := t\<rparr>)\<rparr>"
    and v: "v = \<lparr>used = [], unused = [], retired = []\<rparr>"
  shows "hps_at C s' h (t # ts) ins (V(t := v)) (W(t := Part_Of t)) pend M"
    and "all_retired s' (t # ts) (V(t := v)) pend = all_retired s ts V pend" and "is_active s' t"
proof -
  have H': "reclaim_threshold H \<noteq> 0" "heap_chain (thr_next s) (hp_head H) ts" "heap_chain (ent_next s) (pending_reclaim_list H) pend"
    "map hp_thread_handle (C (outer s) (inactive_threads H)) = ins"
    using hps_at_struct [OF at] H by auto
  have own: "x \<in> live s" if "u \<in> set (ts @ ins)" "x \<in> set (own u (V u))" for u x
    using hps_atD(9,10) [OF at, of u x] that by (auto simp del: own_simps)
  have ne: "u \<noteq> t" if "u \<in> set (ts @ ins)" for u using own [OF that, of u] t(2) by auto
  have "heap_chain (thr_next s') t (t # ts)"
  proof -
    have "heap_chain (thr_next s') (hp_head H) ts = heap_chain (thr_next s) (hp_head H) ts"
      by (rule heap_chain_cong) (use ne in \<open>auto simp: s'\<close>)
    then show ?thesis using H'(2) t(1) T(1) by (simp add: s')
  qed
  moreover have "thread_at s' h u ((V(t := v)) u)" if "u \<in> set ((t # ts) @ ins)" for u
  proof (cases "u = t")
    case True
    then show ?thesis
      unfolding thread_at_def using t(1) T by (simp add: s' v)
  next
    case False
    then have u: "u \<in> set (ts @ ins)" using that by simp
    have "thread_at s h u (V u)" using hps_atD(7,8) [OF at, of u] u by auto
    then have "thread_at s' h u (V u)"
      by (rule thread_at_frame) (use own [OF u] t(2) in \<open>auto simp: s'\<close>)
    with False show ?thesis by simp
  qed
  moreover have "live s' = insert h (set pend \<union> M \<union> (\<Union>u \<in> set ((t # ts) @ ins). set (own u ((V(t := v)) u))))"
  proof -
    define f where "f u = set (own u ((V(t := v)) u))" for u
    define g where "g u = set (own u (V u))" for u
    have "f u = g u" if "u \<in> set (ts @ ins)" for u
      using ne [OF that] by (simp add: f_def g_def)
    moreover have "f t = {t}" by (simp add: f_def v)
    ultimately have "(\<Union>u \<in> set ((t # ts) @ ins). f u) = insert t (\<Union>u \<in> set (ts @ ins). g u)" by auto
    moreover have "live s' = insert t (live s)" by (simp add: s')
    ultimately show ?thesis unfolding hps_atD(11) [OF at] f_def g_def by blast
  qed
  moreover have "finite (live s')" using hps_atD(2) [OF at] by (simp add: s')
  moreover have "distinct ((t # ts) @ ins)" using hps_atD(3) [OF at] ne by auto
  moreover have "(W(t := Part_Of t)) x = W x" if "x \<in> live s" for x using that t(2) by auto
  moreover have "(W(t := Part_Of t)) x = Part_Of u" if "u \<in> set ((t # ts) @ ins)" "x \<in> set (own u ((V(t := v)) u))" for u x
  proof (cases "u = t")
    case False
    then have u: "u \<in> set (ts @ ins)" "x \<in> set (own u (V u))" using that by auto
    have "W x = Part_Of u" using hps_atD(9,10) [OF at, of u x] u by (auto simp del: own_simps)
    moreover have "x \<noteq> t" using own [OF u] t(2) by auto
    ultimately show ?thesis by simp
  qed (use that in \<open>simp add: v\<close>)
  ultimately show "hps_at C s' h (t # ts) ins (V(t := v)) (W(t := Part_Of t)) pend M"
    unfolding hps_at_def using H' hps_atD(1,4-6,8,12) [OF at] ne
    by (intro conjI exI [of _ "H\<lparr>hp_head := t\<rparr>"]) (simp_all add: s' del: own_simps)
  have "all_retired s' (t # ts) (V(t := v)) pend = mset (map (retired_in s) pend) + (\<Sum>u \<leftarrow> ts. mset (map (retired_in s) (retired ((V(t := v)) u))))"
    by (simp add: all_retired_def s' v)
  also have "map (\<lambda>u. mset (map (retired_in s) (retired ((V(t := v)) u)))) ts = map (\<lambda>u. mset (map (retired_in s) (retired (V u)))) ts"
    using ne by (intro map_cong) auto
  finally show "all_retired s' (t # ts) (V(t := v)) pend = all_retired s ts V pend"
    by (simp only: all_retired_def)
  show "is_active s' t" using T(7) by (simp add: is_active_def s')
qed

theorem wp_register:
  assumes X: "tqueue_ok X C" and at: "hps_at C s h ts ins V W pend M" and b: "0 < b"
  shows "wp (clds_hazard_pointers_register_thread b h) (\<lambda>t s'. hp_mem.more s' = hp_mem.more s \<and>
      (if t = null then live s' = live s \<and> hps_at C s' h ts ins V W pend M
       else t \<notin> live s \<and> live s' = insert t (live s) \<and> hp_ok X C s' t Map.empty (all_retired s ts V pend) M)) s"
    (is "wp _ ?Q s")
proof -
  define Q where "Q = ?Q"
  obtain H where H: "hp_structs s h = Some H" using hps_at_struct [OF at] by metis
  obtain n where n: "b = Suc n" using b by (cases b) auto
  have "Q null (s\<lparr>answers := ps\<rparr>)" for ps
    using at by (simp add: Q_def hps_at_def thread_at_def)
  moreover have "Q t (s\<lparr>answers := ps, live := insert t (live s), hp_threads := (hp_threads s)(t \<mapsto>
        \<lparr>th_next = hp_head H, th_hazard_pointers = h, free_pointers = null, pointers = null, reclaim_list = null,
          active = 1, reclaim_list_entry_count = 0\<rparr>), hp_structs := (hp_structs s)(h \<mapsto> H\<lparr>hp_head := t\<rparr>)\<rparr>)" (is "Q t ?s")
    if t: "t \<noteq> null" "t \<notin> live s" for t ps
  proof -
    let ?T = "\<lparr>th_next = hp_head H, th_hazard_pointers = h, free_pointers = null, pointers = null, reclaim_list = null,
          active = 1, reclaim_list_entry_count = 0\<rparr>"
    let ?V = "V(t := \<lparr>used = [], unused = [], retired = []\<rparr>)"
    have r: "hps_at C ?s h (t # ts) ins ?V (W(t := Part_Of t)) pend M"
      "all_retired ?s (t # ts) ?V pend = all_retired s ts V pend" "is_active ?s t"
      by (rule hps_at_register [OF at H t, of ?T]; simp)+
    have "hp_ok X C ?s t (held ?s (?V t)) (all_retired ?s (t # ts) ?V pend) M"
      by (rule hp_okI [OF X r(1) _ r(3) refl refl]) simp
    then have "hp_ok X C ?s t (held ?s \<lparr>used = [], unused = [], retired = []\<rparr>) (all_retired s ts V pend) M"
      unfolding r(2) by simp
    moreover have "held ?s \<lparr>used = [], unused = [], retired = []\<rparr> = Map.empty" by (simp add: held_def)
    ultimately show ?thesis using t by (simp add: Q_def)
  qed
  ultimately show ?thesis
    unfolding Q_def [symmetric] using H n hps_atD(1) [OF at]
    by (auto simp: clds_hazard_pointers_register_thread_def malloc_thread_def wp_simps access_kinds intro!: wp_new_obj)
qed

text \<open>What is taken of the worker threads and of the queues, and how their operations change it.\<close>

record worker_use =
  workers_created :: "ptr set"
  workers_opened :: "ptr set"
  queues_created :: "ptr set"
  services_refused :: nat

definition workers_ok :: "'q externals \<Rightarrow> ('q \<Rightarrow> worker_use) \<Rightarrow> bool" where
  "workers_ok X U \<longleftrightarrow>
     (\<forall>p q. let (w, q') = worker_thread_create X p q in
        if w = null then U q' = (U q)\<lparr>services_refused := Suc (services_refused (U q))\<rparr>
        else w \<notin> workers_created (U q) \<and> w \<notin> workers_opened (U q) \<and>
          U q' = (U q)\<lparr>workers_created := insert w (workers_created (U q))\<rparr>) \<and>
     (\<forall>w q. let (r, q') = worker_thread_open X w q in
        if r = Result_0 then U q' = (U q)\<lparr>workers_opened := insert w (workers_opened (U q))\<rparr>
        else U q' = (U q)\<lparr>services_refused := Suc (services_refused (U q))\<rparr>) \<and>
     (\<forall>w q. U (snd (worker_thread_close X w q)) = (U q)\<lparr>workers_opened := workers_opened (U q) - {w}\<rparr>) \<and>
     (\<forall>w q. U (snd (worker_thread_destroy X w q)) = (U q)\<lparr>workers_created := workers_created (U q) - {w}\<rparr>) \<and>
     (\<forall>q. let (x, q') = tqueue_create X q in
        if x = null then U q' = (U q)\<lparr>services_refused := Suc (services_refused (U q))\<rparr>
        else x \<notin> queues_created (U q) \<and> U q' = (U q)\<lparr>queues_created := insert x (queues_created (U q))\<rparr>)"

lemma workers_okD:
  assumes "workers_ok X U"
  shows "fst (worker_thread_create X p q) = null \<Longrightarrow>
      U (snd (worker_thread_create X p q)) = (U q)\<lparr>services_refused := Suc (services_refused (U q))\<rparr>"
    and "fst (worker_thread_create X p q) \<noteq> null \<Longrightarrow>
      U (snd (worker_thread_create X p q)) = (U q)\<lparr>workers_created := insert (fst (worker_thread_create X p q)) (workers_created (U q))\<rparr>"
    and "fst (worker_thread_create X p q) \<noteq> null \<Longrightarrow> fst (worker_thread_create X p q) \<notin> workers_created (U q)"
    and "fst (worker_thread_create X p q) \<noteq> null \<Longrightarrow> fst (worker_thread_create X p q) \<notin> workers_opened (U q)"
    and "fst (worker_thread_open X w q) = Result_0 \<Longrightarrow>
      U (snd (worker_thread_open X w q)) = (U q)\<lparr>workers_opened := insert w (workers_opened (U q))\<rparr>"
    and "fst (worker_thread_open X w q) \<noteq> Result_0 \<Longrightarrow>
      U (snd (worker_thread_open X w q)) = (U q)\<lparr>services_refused := Suc (services_refused (U q))\<rparr>"
    and "U (snd (worker_thread_close X w q)) = (U q)\<lparr>workers_opened := workers_opened (U q) - {w}\<rparr>"
    and "U (snd (worker_thread_destroy X w q)) = (U q)\<lparr>workers_created := workers_created (U q) - {w}\<rparr>"
    and "fst (tqueue_create X q) = null \<Longrightarrow>
      U (snd (tqueue_create X q)) = (U q)\<lparr>services_refused := Suc (services_refused (U q))\<rparr>"
    and "fst (tqueue_create X q) \<noteq> null \<Longrightarrow>
      U (snd (tqueue_create X q)) = (U q)\<lparr>queues_created := insert (fst (tqueue_create X q)) (queues_created (U q))\<rparr>"
    and "fst (tqueue_create X q) \<noteq> null \<Longrightarrow> fst (tqueue_create X q) \<notin> queues_created (U q)"
  using assms unfolding workers_ok_def by (simp_all add: split_beta Let_def)

text \<open>What a failed and what a successful \<open>create\<close> has done.\<close>

definition create_failed :: "('q \<Rightarrow> worker_use) \<Rightarrow> ('q, 'a) hp_mem_scheme \<Rightarrow> ('q, 'a) hp_mem_scheme \<Rightarrow> bool" where
  "create_failed U s s' \<longleftrightarrow> live s' = live s \<and>
     (U (outer s') = U (outer s) \<and> \<not> plenty 1 s \<or>
      U (outer s') = (U (outer s))\<lparr>services_refused := Suc (services_refused (U (outer s)))\<rparr>)"

definition created_with :: "('q \<Rightarrow> worker_use) \<Rightarrow> clds_hazard_pointers \<Rightarrow> ('q, 'a) hp_mem_scheme \<Rightarrow> ('q, 'a) hp_mem_scheme \<Rightarrow> bool" where
  "created_with U H s s' \<longleftrightarrow> hp_thread_cleanup_worker H \<notin> workers_created (U (outer s)) \<and>
     inactive_threads H \<notin> queues_created (U (outer s)) \<and>
     U (outer s') = (U (outer s))\<lparr>workers_created := insert (hp_thread_cleanup_worker H) (workers_created (U (outer s))),
       workers_opened := insert (hp_thread_cleanup_worker H) (workers_opened (U (outer s))),
       queues_created := insert (inactive_threads H) (queues_created (U (outer s)))\<rparr>"

theorem wp_create:
  assumes X: "tqueue_ok X C" and U: "workers_ok X U" and fin: "finite (live s)"
  shows "wp (clds_hazard_pointers_create X) (\<lambda>h s'. hp_mem.more s' = hp_mem.more s \<and>
      (if h = null then create_failed U s s'
       else h \<notin> live s \<and> (\<exists>V W. hps_at C s' h [] [] V W [] (live s)) \<and>
         (\<exists>H. hp_structs s' h = Some H \<and> epoch H = 0 \<and> pending_reclaim_calls H = 0 \<and> created_with U H s s'))) s"
    (is "wp _ ?Q s")
proof -
  define Q where "Q = ?Q"
  let ?V = "\<lambda>_ :: ptr. \<lparr>used = [], unused = [], retired = []\<rparr>"
  have fail: "Q null s'" if "create_failed U s s'" "hp_mem.more s' = hp_mem.more s" for s'
    using that by (simp add: Q_def)
  have good: "Q h s'" if "h \<noteq> null" "h \<notin> live s" "live s' = insert h (live s)" "hp_mem.more s' = hp_mem.more s"
    "hp_structs s' h = Some H" "hp_head H = null" "pending_reclaim_list H = null" "reclaim_threshold H \<noteq> 0"
    "epoch H = 0" "pending_reclaim_calls H = 0" "C (outer s') (inactive_threads H) = []" "created_with U H s s'" for h s' H
  proof -
    have "hps_at C s' h [] [] ?V (\<lambda>x. if x = h then Hps_Struct else Client) [] (live s)"
      unfolding hps_at_def using that fin by auto
    then show ?thesis using that by (auto simp: Q_def)
  qed
  have empty: "C (snd (tqueue_create X st)) (fst (tqueue_create X st)) = []" if "fst (tqueue_create X st) \<noteq> null" for st
    using X that unfolding tqueue_ok_def by blast
  have fresh_queue: False
    if "fst (worker_thread_create X p q) \<noteq> null" "fst (worker_thread_open X w (snd (worker_thread_create X p q))) = Result_0"
      "fst (tqueue_create X (snd (worker_thread_open X w (snd (worker_thread_create X p q))))) \<noteq> null"
      "fst (tqueue_create X (snd (worker_thread_open X w (snd (worker_thread_create X p q))))) \<in> queues_created (U q)" for p q w
    using workers_okD(11) [OF U that(3)] that by (simp add: workers_okD [OF U])
  show ?thesis
    unfolding Q_def [symmetric] clds_hazard_pointers_create_def wp_call malloc_hps_def
    by (rule wp_malloc_obj) (auto simp: wp_simps access_kinds create_failed_def created_with_def workers_okD [OF U] intro!: fail good empty dest: fresh_queue)
qed

section \<open>Properties\<close>


text \<open>
  C7: hazard pointers acquired for any list of nodes can be released in any order, and then the
  thread holds exactly what it held before; the client's memory is not touched.
\<close>

theorem hazard_pointer_balance:
  assumes "hp_ok X C s t A R M" and "card (live s) + length ns < b" and "\<forall>rs. mset (order rs) = mset rs"
  shows "wp (call (acquire_all (clds_hazard_pointers_acquire b t) ns) (\<lambda>rs. release_all (clds_hazard_pointers_release b t) (order rs)))
    (\<lambda>_ s'. hp_ok X C s' t A R M \<and> hp_mem.more s' = hp_mem.more s) s"
  by (rule hp.acquire_release [OF assms(1,2)]) (use assms(3) in blast)

text \<open>
  C8: unregistering a thread loses none of the nodes it has retired: its reclaim list moves, in
  order, to the front of the instance's pending list with every node and reclaim function intact,
  the thread keeps an empty one and is inactive, and nothing is allocated or freed.
\<close>

theorem unregister_hands_over:
  assumes "tqueue_ok X C" and "hps_at C s h ts ins V W pend M" and "t \<in> set ts" and "card (live s) < b"
  shows "wp (clds_hazard_pointers_unregister_thread X b t) (\<lambda>_ s'. \<exists>W'.
      hps_at C s' h ts ins (V(t := (V t)\<lparr>retired := []\<rparr>)) W' (retired (V t) @ pend) M \<and>
      map (retired_in s') (retired (V t) @ pend) = map (retired_in s) (retired (V t) @ pend) \<and>
      \<not> is_active s' t \<and> live s' = live s) s"
  by (rule wp_mono [OF wp_unregister [OF assms]]) blast

text \<open>
  C9: registering a thread gives NULL and changes nothing when there is no memory, and otherwise a
  fresh thread that is active, holds no hazard pointer and owes no reclaim call, in front of the
  threads of the instance, all of which keep theirs.
\<close>

theorem register_fresh_thread:
  assumes "tqueue_ok X C" and "hps_at C s h ts ins V W pend M" and "0 < b"
  shows "wp (clds_hazard_pointers_register_thread b h) (\<lambda>t s'. hp_mem.more s' = hp_mem.more s \<and>
      (if t = null then live s' = live s \<and> hps_at C s' h ts ins V W pend M
       else t \<notin> live s \<and> hp_ok X C s' t Map.empty (all_retired s ts V pend) M)) s"
  by (rule wp_mono [OF wp_register [OF assms]]) (auto split: if_splits)

text \<open>
  C10: creating an instance either fails, because there is no memory for it or because exactly one of
  the services it asks for (creating the worker thread, opening it, creating the queue) has refused,
  and then nothing is left of it: the memory is free again, no worker thread is left created or open
  and no queue is left. Or it gives a fresh instance without threads, inactive threads or pending
  entries, its epoch and its count of pending calls at 0, for which exactly one worker thread is
  created and open and one queue created, those the instance holds.
\<close>

theorem create_instance:
  assumes "tqueue_ok X C" and "workers_ok X U" and "finite (live s)"
  shows "wp (clds_hazard_pointers_create X) (\<lambda>h s'. hp_mem.more s' = hp_mem.more s \<and>
      (if h = null then create_failed U s s'
       else h \<notin> live s \<and> (\<exists>V W. hps_at C s' h [] [] V W [] (live s)) \<and>
         (\<exists>H. hp_structs s' h = Some H \<and> epoch H = 0 \<and> pending_reclaim_calls H = 0 \<and> created_with U H s s'))) s"
  by (rule wp_create [OF assms])

section \<open>Witnesses\<close>

text \<open>The third-party queue as a list, and a client whose reclaim function records its calls.\<close>

definition list_externals :: "inactive_thread list externals" where
  "list_externals = \<lparr>tqueue_create = (\<lambda>st. (8, [])),
     tqueue_push = (\<lambda>q x st. (True, st @ [x])),
     tqueue_pop = (\<lambda>q P st. case st of [] \<Rightarrow> (None, []) | x # xs \<Rightarrow> if P x then (Some x, xs) else (None, x # xs)),
     tqueue_release = (\<lambda>q st. ((), st)),
     worker_thread_create = (\<lambda>p st. (24, st)), worker_thread_open = (\<lambda>w st. (Result_0, st)),
     worker_thread_close = (\<lambda>w st. ((), st)), worker_thread_destroy = (\<lambda>w st. ((), st)),
     worker_thread_schedule_process = (\<lambda>w st. (True, st))\<rparr>"

definition list_contents :: "inactive_thread list \<Rightarrow> ptr \<Rightarrow> inactive_thread list" where
  "list_contents st q = st"

lemma list_externals_ok: "tqueue_ok list_externals list_contents"
  by (auto simp: tqueue_ok_def list_externals_def list_contents_def split: list.splits)

record 'q log_mem = "'q hp_mem" +
  calls :: "(ptr \<times> ptr) list"




text \<open>One thread at 32 that holds the node 112 and has retired 112 and 128.\<close>

definition hp_example :: "inactive_thread list log_mem" where
  "hp_example = \<lparr>live = {16, 32, 48, 64, 80, 112, 128}, answers = [144, 160, 176, 192], st_sets = Map.empty, st_arrays = Map.empty,
     st_items = Map.empty, hp_records = [48 \<mapsto> \<lparr>hp_node = 112, hp_next = null\<rparr>],
     hp_entries = [64 \<mapsto> \<lparr>re_next = 80, re_node = 112, re_reclaim = 1\<rparr>, 80 \<mapsto> \<lparr>re_next = null, re_node = 128, re_reclaim = 1\<rparr>],
     hp_threads = [32 \<mapsto> \<lparr>th_next = null, th_hazard_pointers = 16, free_pointers = null, pointers = 48, reclaim_list = 64,
        active = 1, reclaim_list_entry_count = 2\<rparr>],
     hp_structs = [16 \<mapsto> \<lparr>hp_thread_cleanup_worker = 24, reclaim_threshold = 2, hp_head = 32, epoch = 0,
        pending_reclaim_calls = 0, inactive_threads = 8, pending_reclaim_list = null\<rparr>], outer = [], calls = []\<rparr>"

definition hp_example_view :: "ptr \<Rightarrow> thread_view" where
  "hp_example_view t = \<lparr>used = [48], unused = [], retired = [64, 80]\<rparr>"

definition hp_example_slot :: "ptr \<Rightarrow> slot" where
  "hp_example_slot x = (if x = 16 then Hps_Struct else if x \<in> {112, 128} then Client else Part_Of 32)"

lemma hp_example_at: "hps_at list_contents hp_example 16 [32] [] hp_example_view hp_example_slot [] {112, 128}"
  unfolding hps_at_def thread_at_def
  by (simp add: hp_example_def hp_example_view_def hp_example_slot_def list_contents_def insert_commute)

lemma hp_example_retired: "all_retired hp_example [32] hp_example_view [] = {#(1, 112), (1, 128)#}"
  by (simp add: all_retired_def hp_example_def hp_example_view_def)

lemma hp_example_ok:
  "hp_ok list_externals list_contents hp_example 32 (held hp_example (hp_example_view 32)) {#(1, 112), (1, 128)#} {112, 128}"
  by (rule hp_okI [OF list_externals_ok hp_example_at _ _ refl hp_example_retired [symmetric]])
    (simp_all add: is_active_def hp_example_def)

lemma hp_example_card: "card (live hp_example) = 7"
  by (simp add: hp_example_def)


theorem hazard_pointer_balance_witness:
  "wp (call (acquire_all (clds_hazard_pointers_acquire 10 32) [112, 128]) (\<lambda>rs. release_all (clds_hazard_pointers_release 10 32) (rev rs)))
    (\<lambda>_ s'. hp_ok list_externals list_contents s' 32 (held hp_example (hp_example_view 32)) {#(1, 112), (1, 128)#} {112, 128} \<and>
      hp_mem.more s' = hp_mem.more hp_example) hp_example"
  by (rule hazard_pointer_balance [OF hp_example_ok]) (simp_all add: hp_example_card)

theorem unregister_hands_over_witness:
  "wp (clds_hazard_pointers_unregister_thread list_externals 8 32) (\<lambda>_ s'. \<exists>W'.
      hps_at list_contents s' 16 [32] [] (hp_example_view(32 := (hp_example_view 32)\<lparr>retired := []\<rparr>)) W' (retired (hp_example_view 32) @ []) {112, 128} \<and>
      map (retired_in s') (retired (hp_example_view 32) @ []) = map (retired_in hp_example) (retired (hp_example_view 32) @ []) \<and>
      \<not> is_active s' 32 \<and> live s' = live hp_example) hp_example"
  by (rule unregister_hands_over [OF list_externals_ok hp_example_at]) (simp_all add: hp_example_card)

theorem register_fresh_thread_witness:
  "wp (clds_hazard_pointers_register_thread 1 16) (\<lambda>t s'. hp_mem.more s' = hp_mem.more hp_example \<and>
      (if t = null then live s' = live hp_example \<and> hps_at list_contents s' 16 [32] [] hp_example_view hp_example_slot [] {112, 128}
       else t \<notin> live hp_example \<and> hp_ok list_externals list_contents s' t Map.empty (all_retired hp_example [32] hp_example_view []) {112, 128})) hp_example"
  by (rule register_fresh_thread [OF list_externals_ok hp_example_at]) simp

text \<open>Services that keep account of the workers and queues they have given out; with \<open>full\<close> no queue is to be had.\<close>

definition use_externals :: "bool \<Rightarrow> (worker_use \<times> inactive_thread list) externals" where
  "use_externals full = \<lparr>tqueue_create = (\<lambda>(u, xs). if full \<or> 8 \<in> queues_created u then (null, u\<lparr>services_refused := Suc (services_refused u)\<rparr>, xs)
       else (8, u\<lparr>queues_created := insert 8 (queues_created u)\<rparr>, [])),
     tqueue_push = (\<lambda>q x (u, xs). (True, u, xs @ [x])),
     tqueue_pop = (\<lambda>q P (u, xs). case xs of [] \<Rightarrow> (None, u, []) | x # ys \<Rightarrow> if P x then (Some x, u, ys) else (None, u, x # ys)),
     tqueue_release = (\<lambda>q st. ((), st)),
     worker_thread_create = (\<lambda>p (u, xs). if 24 \<in> workers_created u \<or> 24 \<in> workers_opened u
       then (null, u\<lparr>services_refused := Suc (services_refused u)\<rparr>, xs)
       else (24, u\<lparr>workers_created := insert 24 (workers_created u)\<rparr>, xs)),
     worker_thread_open = (\<lambda>w (u, xs). (Result_0, u\<lparr>workers_opened := insert w (workers_opened u)\<rparr>, xs)),
     worker_thread_close = (\<lambda>w (u, xs). ((), u\<lparr>workers_opened := workers_opened u - {w}\<rparr>, xs)),
     worker_thread_destroy = (\<lambda>w (u, xs). ((), u\<lparr>workers_created := workers_created u - {w}\<rparr>, xs)),
     worker_thread_schedule_process = (\<lambda>w st. (True, st))\<rparr>"

lemma use_externals_queue: "tqueue_ok (use_externals full) (\<lambda>st q. snd st)"
  by (auto simp: tqueue_ok_def use_externals_def split: list.splits)

lemma use_externals_workers: "workers_ok (use_externals full) fst"
  by (auto simp: workers_ok_def use_externals_def)

definition no_instance :: "(worker_use \<times> inactive_thread list) hp_mem" where
  "no_instance = \<lparr>live = {}, answers = [16, 32], st_sets = Map.empty, st_arrays = Map.empty, st_items = Map.empty,
     hp_records = Map.empty, hp_entries = Map.empty, hp_threads = Map.empty, hp_structs = Map.empty,
     outer = (\<lparr>workers_created = {}, workers_opened = {}, queues_created = {}, services_refused = 0\<rparr>, [])\<rparr>"

theorem create_instance_witness:
  "wp (clds_hazard_pointers_create (use_externals False)) (\<lambda>h s'. hp_mem.more s' = hp_mem.more no_instance \<and>
      (if h = null then create_failed fst no_instance s'
       else h \<notin> live no_instance \<and> (\<exists>V W. hps_at (\<lambda>st q. snd st) s' h [] [] V W [] (live no_instance)) \<and>
         (\<exists>H. hp_structs s' h = Some H \<and> epoch H = 0 \<and> pending_reclaim_calls H = 0 \<and> created_with fst H no_instance s'))) no_instance
   \<and> (case run (clds_hazard_pointers_create (use_externals True)) no_instance of
        Value h s' \<Rightarrow> h = null \<and> live s' = {} \<and> workers_created (fst (outer s')) = {} \<and> workers_opened (fst (outer s')) = {} | _ \<Rightarrow> False)
   \<and> (case run (clds_hazard_pointers_create (use_externals False)) no_instance of
        Value h s' \<Rightarrow> h = 16 \<and> live s' = {16} \<and> workers_opened (fst (outer s')) = {24} | _ \<Rightarrow> False)"
proof (intro conjI)
  show "case run (clds_hazard_pointers_create (use_externals True)) no_instance of
      Value h s' \<Rightarrow> h = null \<and> live s' = {} \<and> workers_created (fst (outer s')) = {} \<and> workers_opened (fst (outer s')) = {} | _ \<Rightarrow> False"
    by code_simp
  show "case run (clds_hazard_pointers_create (use_externals False)) no_instance of
      Value h s' \<Rightarrow> h = 16 \<and> live s' = {16} \<and> workers_opened (fst (outer s')) = {24} | _ \<Rightarrow> False"
    by code_simp
qed (rule create_instance [OF use_externals_queue use_externals_workers], simp add: no_instance_def)

end
