(* ===== verification/Hazard_Pointer_Client.thy ===== *)
theory Hazard_Pointer_Client
  imports Hazard_Pointer_Contract
begin

text \<open>
  What the lists that are protected by hazard pointers share: letting go of the node before the one
  that was reached, the hazard pointer that a walk holds on its way, and the contract of the hazard
  pointers in the form in which the walks use it.
\<close>

definition let_go :: "nat \<Rightarrow> ptr \<Rightarrow> ptr \<Rightarrow> (('q, 'a) hp_mem_scheme, unit) prog" where
  "let_go b t previous_hp =
     (if previous_hp \<noteq> null then clds_hazard_pointers_release b t previous_hp else Done ())"

lemma hp_ok_client: "same_hp s s' \<Longrightarrow> live s' = live s \<Longrightarrow> hp_ok X C s t A R M \<Longrightarrow> hp_ok X C s' t A R M"
  using hp.client_memory [of X C s t A R M] by (auto intro!: hp.frame [of X C s t A R M M] simp: hp_frame_def)

section \<open>Where a walk stands\<close>

text \<open>The nodes of the list, and where a walk stands that has passed the nodes \<open>us\<close>.\<close>

definition first_of :: "ptr list \<Rightarrow> ptr" where
  "first_of xs = (case xs of [] \<Rightarrow> null | x # _ \<Rightarrow> x)"

definition last_of :: "ptr list \<Rightarrow> ptr" where
  "last_of us = (if us = [] then null else last us)"

lemma first_of_simps [simp]: "first_of [] = null" "first_of (x # xs) = x"
  by (simp_all add: first_of_def)

lemma last_of_simps [simp]: "last_of [] = null" "last_of (us @ [x]) = x"
  by (simp_all add: last_of_def)

section \<open>Hazard pointers on the way\<close>

text \<open>
  Having passed \<open>us\<close>, the thread holds one hazard pointer \<open>hp\<close> more than the \<open>A\<close> it held at the
  start, on the last node passed, or none when it is still at the head.
\<close>

definition holding :: "(ptr \<Rightarrow> ptr option) \<Rightarrow> ptr list \<Rightarrow> ptr \<Rightarrow> (ptr \<Rightarrow> ptr option) \<Rightarrow> bool" where
  "holding A us hp A' \<longleftrightarrow> (if us = [] then hp = null \<and> A' = A else hp \<noteq> null \<and> A hp = None \<and> A' = A(hp \<mapsto> last us))"

lemma holding_simps [simp]:
  "holding A [] hp A' \<longleftrightarrow> hp = null \<and> A' = A"
  "holding A (us @ [x]) hp A' \<longleftrightarrow> hp \<noteq> null \<and> A hp = None \<and> A' = A(hp \<mapsto> x)"
  by (simp_all add: holding_def)

lemma holding_more: "holding A us hp A' \<Longrightarrow> A' h = None \<Longrightarrow> A h = None \<and> holding (A(h \<mapsto> x)) us hp (A'(h \<mapsto> x))"
  by (auto simp: holding_def fun_upd_twist split: if_splits)

lemma holding_null: "holding A us ph A'' \<Longrightarrow> null \<notin> set us \<Longrightarrow> last_of us = null \<longleftrightarrow> ph = null"
  by (auto simp: holding_def last_of_def dest: last_in_set)

lemma let_go_item: "holding A us ph A'' \<Longrightarrow> null \<notin> set us \<Longrightarrow>
    (if last_of us \<noteq> null then clds_hazard_pointers_release b t ph else Done ()) = let_go b t ph"
  by (simp add: let_go_def holding_null)

lemma wp_hp_release:
  assumes "hp_ok X C s t (A(r \<mapsto> x)) R M" and "A r = None" and "card (live s) < b"
  shows "wp (clds_hazard_pointers_release b t r)
    (\<lambda>_ s'. hp_mem.more s' = hp_mem.more s \<and> live s' = live s \<and> (\<forall>k. plenty k s \<longrightarrow> plenty k s') \<and> hp_ok X C s' t A R M) s"
  by (rule wp_mono [OF hp.release [OF assms(1) _ assms(3)]]) (use assms(2) in \<open>simp_all add: fun_upd_idem\<close>)

lemma wp_let_go:
  assumes "hp_ok X C s t A' R M" and "holding A us hp A'" and "card (live s) < b"
  shows "wp (let_go b t hp) (\<lambda>_ s'. hp_mem.more s' = hp_mem.more s \<and> live s' = live s \<and> (\<forall>k. plenty k s \<longrightarrow> plenty k s') \<and>
      hp_ok X C s' t A R M) s"
proof (cases "us = []")
  case True
  then show ?thesis using assms by (simp add: let_go_def wp_simps)
next
  case False
  then have "hp \<noteq> null" "A hp = None" "hp_ok X C s t (A(hp \<mapsto> last us)) R M" using assms by (simp_all add: holding_def)
  then show ?thesis using wp_hp_release [of X C s t A hp "last us" R M b] assms(3) by (simp add: let_go_def)
qed

text \<open>Letting go of the node that was reached and of the one before it.\<close>

lemma wp_let_go_both:
  assumes hp: "hp_ok X C s t (A''(ch \<mapsto> x)) R M" and A: "A'' ch = None" "holding A us ph A''" and room: "card (live s) < b"
    and k: "\<And>s'. hp_mem.more s' = hp_mem.more s \<Longrightarrow> live s' = live s \<Longrightarrow> hp_ok X C s' t A R M \<Longrightarrow>
      (\<And>n. plenty n s \<Longrightarrow> plenty n s') \<Longrightarrow> wp k Q s'"
  shows "wp (call (let_go b t ph) (\<lambda>_. call (clds_hazard_pointers_release b t ch) (\<lambda>_. k))) Q s"
proof -
  have hold: "A ch = None" "holding (A(ch \<mapsto> x)) us ph (A''(ch \<mapsto> x))" using holding_more [OF A(2,1)] by simp_all
  show ?thesis
  proof (rule wp_seq [OF wp_let_go [OF hp hold(2) room]])
    fix a s1
    assume s1: "hp_mem.more s1 = hp_mem.more s \<and> live s1 = live s \<and> (\<forall>k. plenty k s \<longrightarrow> plenty k s1) \<and> hp_ok X C s1 t (A(ch \<mapsto> x)) R M"
    then have "hp_ok X C s1 t (A(ch \<mapsto> x)) R M" "card (live s1) < b" using room by simp_all
    from wp_hp_release [OF this(1) hold(1) this(2)]
    show "wp (call (clds_hazard_pointers_release b t ch) (\<lambda>_. k)) Q s1"
      by (rule wp_seq) (use s1 in \<open>auto intro: k\<close>)
  qed
qed

end
