(* ===== verification/Clds_Sorted_List.thy ===== *)
theory Clds_Sorted_List
  imports Hazard_Pointer_Client Write_Lock
begin

text \<open>
  The sorted list, \<open>src/src/clds_sorted_list.c\<close>: a lock-free linked list in the order of the keys. A
  node is taken out by setting the delete mark in its \<open>next\<close> and then swinging the link that leads
  to it; it is then retired to the hazard pointers, and its reclaim function drops the list's
  reference to it. Every walk protects the node it stands on and the one before it.

  Functions given by the caller (key, compare, clean-up, skipped sequence number, condition) are
  parameters, collected in \<open>K\<close>; they are called with their function pointer and context and act on a
  part of the state of their own, \<open>user\<close>, where the payload of the items is. Out parameters and the
  caller's sequence counter are 64-bit cells in \<open>words\<close>. \<open>X\<close> and the bound \<open>b\<close> are those of the hazard
  pointers; \<open>b\<close> also bounds every loop here.
\<close>

section \<open>Data\<close>

record clds_sorted_list_item =
  ref_count :: "32 word"
  item_cleanup_callback :: ptr
  item_cleanup_callback_context :: ptr
  item_next :: ptr

text \<open>The struct of the list extends the two counters of the write lock.\<close>

record clds_sorted_list = write_lock +
  list_hazard_pointers :: ptr
  list_head :: ptr
  get_item_key_cb :: ptr
  get_item_key_cb_context :: ptr
  key_compare_cb :: ptr
  key_compare_cb_context :: ptr
  sequence_number :: ptr
  skipped_seq_no_cb :: ptr
  skipped_seq_no_cb_context :: ptr

record ('q, 'u) csl_mem = "'q hp_mem" +
  csl_items :: "ptr \<Rightarrow> clds_sorted_list_item option"
  csl_lists :: "ptr \<Rightarrow> clds_sorted_list option"
  words :: "ptr \<Rightarrow> 64 word option"
  user :: 'u

datatype condition_check_result = CLDS_CONDITION_CHECK_RESULT_INVALID | CLDS_CONDITION_CHECK_OK
  | CLDS_CONDITION_CHECK_ERROR | CLDS_CONDITION_CHECK_NOT_MET

text \<open>The caller's functions. The first argument is the function pointer, the second its context.\<close>

record 'u csl_callbacks =
  get_item_key :: "ptr \<Rightarrow> ptr \<Rightarrow> ptr \<Rightarrow> 'u \<Rightarrow> ptr"
  key_compare :: "ptr \<Rightarrow> ptr \<Rightarrow> ptr \<Rightarrow> ptr \<Rightarrow> 'u \<Rightarrow> int"
  skipped_seq_no :: "ptr \<Rightarrow> ptr \<Rightarrow> 64 word \<Rightarrow> 'u \<Rightarrow> 'u"
  item_cleanup :: "ptr \<Rightarrow> ptr \<Rightarrow> ptr \<Rightarrow> 'u \<Rightarrow> 'u"
  condition_check :: "ptr \<Rightarrow> ptr \<Rightarrow> ptr \<Rightarrow> ptr \<Rightarrow> 'u \<Rightarrow> condition_check_result \<times> 'u"
  reclaim_list_node_function :: ptr

datatype clds_sorted_list_insert_result = CLDS_SORTED_LIST_INSERT_OK | CLDS_SORTED_LIST_INSERT_ERROR
  | CLDS_SORTED_LIST_INSERT_KEY_ALREADY_EXISTS

datatype clds_sorted_list_delete_result = CLDS_SORTED_LIST_DELETE_OK | CLDS_SORTED_LIST_DELETE_ERROR
  | CLDS_SORTED_LIST_DELETE_NOT_FOUND

datatype clds_sorted_list_remove_result = CLDS_SORTED_LIST_REMOVE_OK | CLDS_SORTED_LIST_REMOVE_ERROR
  | CLDS_SORTED_LIST_REMOVE_NOT_FOUND

datatype clds_sorted_list_set_value_result = CLDS_SORTED_LIST_SET_VALUE_OK | CLDS_SORTED_LIST_SET_VALUE_ERROR
  | CLDS_SORTED_LIST_SET_VALUE_NOT_FOUND | CLDS_SORTED_LIST_SET_VALUE_CONDITION_NOT_MET

datatype clds_sorted_list_get_count_result = CLDS_SORTED_LIST_GET_COUNT_OK
  | CLDS_SORTED_LIST_GET_COUNT_NOT_LOCKED | CLDS_SORTED_LIST_GET_COUNT_ERROR

datatype clds_sorted_list_get_all_result = CLDS_SORTED_LIST_GET_ALL_OK
  | CLDS_SORTED_LIST_GET_ALL_NOT_LOCKED | CLDS_SORTED_LIST_GET_ALL_NOT_ENOUGH_SPACE
  | CLDS_SORTED_LIST_GET_ALL_ERROR

section \<open>Accesses\<close>

type_synonym ('q, 'u, 'a, 'r) csl_prog = "(('q, 'u, 'a) csl_mem_scheme, 'r) prog"

abbreviation on_node :: "ptr \<Rightarrow> (clds_sorted_list_item \<Rightarrow> 'v \<times> clds_sorted_list_item option) \<Rightarrow> ('q, 'u, 'a, 'v) csl_prog" where
  "on_node \<equiv> access csl_items (\<lambda>m. csl_items_update (\<lambda>_. m))"

abbreviation on_list :: "ptr \<Rightarrow> (clds_sorted_list \<Rightarrow> 'v \<times> clds_sorted_list option) \<Rightarrow> ('q, 'u, 'a, 'v) csl_prog" where
  "on_list \<equiv> access csl_lists (\<lambda>m. csl_lists_update (\<lambda>_. m))"

abbreviation on_word :: "ptr \<Rightarrow> (64 word \<Rightarrow> 'v \<times> 64 word option) \<Rightarrow> ('q, 'u, 'a, 'v) csl_prog" where
  "on_word \<equiv> access words (\<lambda>m. words_update (\<lambda>_. m))"

definition store :: "ptr \<Rightarrow> 64 word \<Rightarrow> ('q, 'u, 'a, unit) csl_prog" where
  "store p v = on_word p (\<lambda>_. ((), Some v))"

definition load :: "ptr \<Rightarrow> ('q, 'u, 'a, 64 word) csl_prog" where
  "load p = on_word p (\<lambda>v. (v, None))"

definition increment :: "ptr \<Rightarrow> ('q, 'u, 'a, 64 word) csl_prog" where
  "increment p = on_word p (\<lambda>v. (v + 1, Some (v + 1)))"

definition malloc_node :: "64 word \<Rightarrow> ('q, 'u, 'a, ptr) csl_prog" where
  "malloc_node node_size = new_obj csl_items (\<lambda>m. csl_items_update (\<lambda>_. m))
     \<lparr>ref_count = 0xCDCDCDCD, item_cleanup_callback = junk, item_cleanup_callback_context = junk, item_next = junk\<rparr>"

definition malloc_list :: "('q, 'u, 'a, ptr) csl_prog" where
  "malloc_list = new_obj csl_lists (\<lambda>m. csl_lists_update (\<lambda>_. m))
     \<lparr>locked_for_write = 0xCDCDCDCD, pending_write_operations = 0xCDCDCDCD, list_hazard_pointers = junk, list_head = junk,
      get_item_key_cb = junk, get_item_key_cb_context = junk, key_compare_cb = junk, key_compare_cb_context = junk,
      sequence_number = junk, skipped_seq_no_cb = junk, skipped_seq_no_cb_context = junk\<rparr>"

abbreviation free_node :: "ptr \<Rightarrow> ('q, 'u, 'a, unit) csl_prog" where
  "free_node \<equiv> free_obj csl_items (\<lambda>m. csl_items_update (\<lambda>_. m))"

abbreviation free_list :: "ptr \<Rightarrow> ('q, 'u, 'a, unit) csl_prog" where
  "free_list \<equiv> free_obj csl_lists (\<lambda>m. csl_lists_update (\<lambda>_. m))"

text \<open>A call of one of the caller's functions.\<close>

definition callback :: "('u \<Rightarrow> 'v \<times> 'u) \<Rightarrow> ('q, 'u, 'a, 'v) csl_prog" where
  "callback f = atomic (\<lambda>s. let (v, u) = f (user s) in Some (v, s\<lparr>user := u\<rparr>))"

definition ask :: "('u \<Rightarrow> 'v) \<Rightarrow> ('q, 'u, 'a, 'v) csl_prog" where
  "ask f = reads (\<lambda>s. Some (f (user s)))"

definition notify :: "('u \<Rightarrow> 'u) \<Rightarrow> ('q, 'u, 'a, unit) csl_prog" where
  "notify f = writes (\<lambda>s. Some (s\<lparr>user := f (user s)\<rparr>))"

text \<open>The address of a link: \<open>&clds_sorted_list->head\<close> or \<open>&item->next\<close>, and the compare-exchange on it.\<close>

datatype link = Head | Next ptr

fun cas_link :: "ptr \<Rightarrow> link \<Rightarrow> ptr \<Rightarrow> ptr \<Rightarrow> ('q, 'u, 'a, ptr) csl_prog" where
  "cas_link l Head new_value expected = on_list l (cas list_head list_head_update new_value expected)"
| "cas_link l (Next p) new_value expected = on_node p (cas item_next item_next_update new_value expected)"

text \<open>The write lock's counters of the list at \<open>l\<close>.\<close>

definition list_lock :: "ptr \<Rightarrow> ('q, 'u, 'a) csl_mem_scheme lock_access" where
  "list_lock l = \<lparr>
     add_locked = (\<lambda>d s. map_option (\<lambda>L. s\<lparr>csl_lists := (csl_lists s)(l \<mapsto> L\<lparr>locked_for_write := locked_for_write L + d\<rparr>)\<rparr>) (csl_lists s l)),
     add_pending = (\<lambda>d s. map_option (\<lambda>L. s\<lparr>csl_lists := (csl_lists s)(l \<mapsto> L\<lparr>pending_write_operations := pending_write_operations L + d\<rparr>)\<rparr>) (csl_lists s l)),
     read_locked = (\<lambda>s. map_option (\<lambda>L. (locked_for_write L, s)) (csl_lists s l)),
     read_pending = (\<lambda>s. map_option (\<lambda>L. (pending_write_operations L, s)) (csl_lists s l))\<rparr>"

section \<open>Nodes\<close>

definition internal_node_destroy :: "'u csl_callbacks \<Rightarrow> ptr \<Rightarrow> ('q, 'u, 'a, unit) csl_prog" where
  "internal_node_destroy K item =
     call (on_node item (add_fetch ref_count ref_count_update (- 1))) (\<lambda>count.
     if count = 0 then
       call (on_node item (rd item_cleanup_callback)) (\<lambda>f.
       call (if f \<noteq> null then
               call (on_node item (rd item_cleanup_callback_context)) (\<lambda>c.
               notify (item_cleanup K f c item))
             else Done ()) (\<lambda>_.
       free_node item))
     else Done ())"

definition reclaim_list_node :: "'u csl_callbacks \<Rightarrow> ptr \<Rightarrow> ('q, 'u, 'a, unit) csl_prog" where
  "reclaim_list_node K node = internal_node_destroy K node"

text \<open>The reclaim functions that the hazard pointers may be asked to call: only \<open>reclaim_list_node\<close>.\<close>

definition list_reclaim :: "'u csl_callbacks \<Rightarrow> ptr \<Rightarrow> ptr \<Rightarrow> ('q, 'u, 'a, unit) csl_prog" where
  "list_reclaim K f node = (if f = reclaim_list_node_function K then reclaim_list_node K node else Fault)"

definition clds_sorted_list_node_create :: "64 word \<Rightarrow> ptr \<Rightarrow> ptr \<Rightarrow> ('q, 'u, 'a, ptr) csl_prog" where
  "clds_sorted_list_node_create node_size cleanup_callback cleanup_callback_context =
     call (malloc_node node_size) (\<lambda>item.
     if item = null then Done null
     else
       call (on_node item (wr item_cleanup_callback_update cleanup_callback)) (\<lambda>_.
       call (on_node item (wr item_cleanup_callback_context_update cleanup_callback_context)) (\<lambda>_.
       call (on_node item (wr ref_count_update 1)) (\<lambda>_.
       call (on_node item (wr item_next_update null)) (\<lambda>_.
       Done item)))))"

definition clds_sorted_list_node_inc_ref :: "ptr \<Rightarrow> ('q, 'u, 'a, int_result) csl_prog" where
  "clds_sorted_list_node_inc_ref item =
     (if item = null then Done MU_FAILURE
      else call (on_node item (add_fetch ref_count ref_count_update 1)) (\<lambda>_. Done Result_0))"

definition clds_sorted_list_node_release :: "'u csl_callbacks \<Rightarrow> ptr \<Rightarrow> ('q, 'u, 'a, unit) csl_prog" where
  "clds_sorted_list_node_release K item =
     (if item = null then Done () else internal_node_destroy K item)"

section \<open>Creating and destroying a list\<close>

definition clds_sorted_list_create :: "ptr \<Rightarrow> ptr \<Rightarrow> ptr \<Rightarrow> ptr \<Rightarrow> ptr \<Rightarrow> ptr \<Rightarrow> ptr \<Rightarrow> ptr \<Rightarrow> ('q, 'u, 'a, ptr) csl_prog" where
  "clds_sorted_list_create h key_cb key_cb_context compare_cb compare_cb_context start_sequence_number skipped_cb skipped_cb_context =
     (if h = null \<or> key_cb = null \<or> compare_cb = null \<or> (start_sequence_number = null \<and> skipped_cb \<noteq> null) then Done null
      else
        call malloc_list (\<lambda>l.
        if l = null then Done null
        else
          call (on_list l (wr list_hazard_pointers_update h)) (\<lambda>_.
          call (on_list l (wr get_item_key_cb_update key_cb)) (\<lambda>_.
          call (on_list l (wr get_item_key_cb_context_update key_cb_context)) (\<lambda>_.
          call (on_list l (wr key_compare_cb_update compare_cb)) (\<lambda>_.
          call (on_list l (wr key_compare_cb_context_update compare_cb_context)) (\<lambda>_.
          call (on_list l (wr skipped_seq_no_cb_update skipped_cb)) (\<lambda>_.
          call (on_list l (wr skipped_seq_no_cb_context_update skipped_cb_context)) (\<lambda>_.
          call (on_list l (wr locked_for_write_update 0)) (\<lambda>_.
          call (on_list l (wr pending_write_operations_update 0)) (\<lambda>_.
          call (on_list l (wr sequence_number_update start_sequence_number)) (\<lambda>_.
          call (on_list l (wr list_head_update null)) (\<lambda>_.
          Done l)))))))))))))"

fun destroy_items :: "'u csl_callbacks \<Rightarrow> nat \<Rightarrow> ptr \<Rightarrow> ('q, 'u, 'a, unit) csl_prog" where
  "destroy_items K 0 current_item = Spin"
| "destroy_items K (Suc n) current_item =
     (if current_item = null then Done ()
      else
        call (on_node current_item (cas item_next item_next_update null null)) (\<lambda>next_item.
        call (internal_node_destroy K current_item) (\<lambda>_.
        destroy_items K n (unmark next_item))))"

definition clds_sorted_list_destroy :: "'u csl_callbacks \<Rightarrow> nat \<Rightarrow> ptr \<Rightarrow> ('q, 'u, 'a, unit) csl_prog" where
  "clds_sorted_list_destroy K b l =
     (if l = null then Done ()
      else
        call (cas_link l Head null null) (\<lambda>current_item.
        call (destroy_items K b current_item) (\<lambda>_.
        free_list l)))"

section \<open>Walking the list\<close>

text \<open>How one walk ends: the operation starts again (with a value that it carries over), or it is finished.\<close>

datatype ('v, 'r) walk_end = Restart 'v | Finished 'r

text \<open>What is done with a node: go on to the next node, or end the walk.\<close>

datatype ('v, 'r) visit = Advance | Leave "('v, 'r) walk_end"

text \<open>
  The inner loop of deletion, insertion, look-up and replacement. The link is read and its mark
  cleared; the node is protected and the link read again, so that a node that was unlinked in
  between (or a previous node that has been marked) is never touched. What differs between the
  operations is what happens at the end of the list (\<open>at_end\<close>), without a hazard pointer (\<open>no_hp\<close>),
  and at a protected node (\<open>at_item\<close>, which gets the hazard pointer of the previous node, the
  previous node, the node's hazard pointer and the node).
\<close>

fun walk :: "nat \<Rightarrow> ptr \<Rightarrow> ptr \<Rightarrow> (ptr \<Rightarrow> ptr \<Rightarrow> ('q, 'u, 'a, ('v, 'r) walk_end) csl_prog) \<Rightarrow> ('q, 'u, 'a, ('v, 'r) walk_end) csl_prog \<Rightarrow>
    (ptr \<Rightarrow> ptr \<Rightarrow> ptr \<Rightarrow> ptr \<Rightarrow> ('q, 'u, 'a, ('v, 'r) visit) csl_prog) \<Rightarrow> 'v \<Rightarrow> nat \<Rightarrow> ptr \<Rightarrow> ptr \<Rightarrow> link \<Rightarrow>
    ('q, 'u, 'a, ('v, 'r) walk_end) csl_prog" where
  "walk b l t at_end no_hp at_item v 0 previous_hp previous_item current_item_address = Spin"
| "walk b l t at_end no_hp at_item v (Suc n) previous_hp previous_item current_item_address =
     call (cas_link l current_item_address null null) (\<lambda>current.
     let current_item = unmark current in
     if current_item = null then at_end previous_hp previous_item
     else
       call (clds_hazard_pointers_acquire b t current_item) (\<lambda>current_item_hp.
       if current_item_hp = null then
         call (let_go b t previous_hp) (\<lambda>_. no_hp)
       else
         call (cas_link l current_item_address null null) (\<lambda>again.
         if again \<noteq> current_item then
           call (let_go b t previous_hp) (\<lambda>_.
           call (clds_hazard_pointers_release b t current_item_hp) (\<lambda>_.
           Done (Restart v)))
         else
           call (at_item previous_hp previous_item current_item_hp current_item) (\<lambda>r.
           case r of
             Leave w \<Rightarrow> Done w
           | Advance \<Rightarrow>
               call (let_go b t previous_hp) (\<lambda>_.
               walk b l t at_end no_hp at_item v n current_item_hp current_item (Next current_item))))))"

text \<open>The outer loop: \<open>do { ... } while (restart_needed)\<close>.\<close>

fun restarting :: "nat \<Rightarrow> ('v \<Rightarrow> ('s, ('v, 'r) walk_end) prog) \<Rightarrow> 'v \<Rightarrow> ('s, 'r) prog" where
  "restarting 0 p v = Spin"
| "restarting (Suc n) p v =
     call (p v) (\<lambda>e. case e of Restart v' \<Rightarrow> restarting n p v' | Finished r \<Rightarrow> Done r)"

text \<open>The key of an item, as the list's \<open>get_item_key_cb\<close> gives it, and the comparison of two keys.\<close>

definition item_key :: "'u csl_callbacks \<Rightarrow> ptr \<Rightarrow> ptr \<Rightarrow> ('q, 'u, 'a, ptr) csl_prog" where
  "item_key K l item =
     call (on_list l (rd get_item_key_cb)) (\<lambda>f.
     call (on_list l (rd get_item_key_cb_context)) (\<lambda>c.
     ask (get_item_key K f c item)))"

definition compare_keys :: "'u csl_callbacks \<Rightarrow> ptr \<Rightarrow> ptr \<Rightarrow> ptr \<Rightarrow> ('q, 'u, 'a, int) csl_prog" where
  "compare_keys K l key_1 key_2 =
     call (on_list l (rd key_compare_cb)) (\<lambda>f.
     call (on_list l (rd key_compare_cb_context)) (\<lambda>c.
     ask (key_compare K f c key_1 key_2)))"

text \<open>The sequence number of an operation (0 when the list has no counter), and the report of a skipped one.\<close>

definition next_sequence_number :: "ptr \<Rightarrow> ('q, 'u, 'a, 64 word) csl_prog" where
  "next_sequence_number l =
     call (on_list l (rd sequence_number)) (\<lambda>p. if p \<noteq> null then increment p else Done 0)"

definition report_skipped :: "'u csl_callbacks \<Rightarrow> ptr \<Rightarrow> 64 word \<Rightarrow> ('q, 'u, 'a, unit) csl_prog" where
  "report_skipped K l seq_no =
     call (on_list l (rd skipped_seq_no_cb)) (\<lambda>f.
     if f \<noteq> null then
       call (on_list l (rd skipped_seq_no_cb_context)) (\<lambda>c.
       notify (skipped_seq_no K f c seq_no))
     else Done ())"

definition take_sequence_number :: "ptr \<Rightarrow> ptr \<Rightarrow> ('q, 'u, 'a, 64 word) csl_prog" where
  "take_sequence_number l seq =
     call (on_list l (rd sequence_number)) (\<lambda>p.
     if p \<noteq> null then
       call (increment p) (\<lambda>local_seq_no.
       call (if seq \<noteq> null then store seq local_seq_no else Done ()) (\<lambda>_.
       Done local_seq_no))
     else Done 0)"

section \<open>Deleting and removing\<close>

text \<open>\<open>compare_item_by_ptr\<close> and \<open>compare_item_by_key\<close>, the two ways to look for a node.\<close>

definition compare_item_by_ptr :: "ptr \<Rightarrow> ptr \<Rightarrow> ('q, 'u, 'a, int) csl_prog" where
  "compare_item_by_ptr item item_compare_target = Done (if item = item_compare_target then 0 else 1)"

definition compare_item_by_key :: "'u csl_callbacks \<Rightarrow> ptr \<Rightarrow> ptr \<Rightarrow> ptr \<Rightarrow> ('q, 'u, 'a, int) csl_prog" where
  "compare_item_by_key K l item item_compare_target =
     call (item_key K l item) (\<lambda>key. compare_keys K l key item_compare_target)"

text \<open>
  The previous link has changed: the node's mark is taken back, the hazard pointers are released
  and the sequence number is reported as skipped, before the walk starts again.
\<close>

definition unlink_lost :: "'u csl_callbacks \<Rightarrow> nat \<Rightarrow> ptr \<Rightarrow> ptr \<Rightarrow> ptr \<Rightarrow> ptr \<Rightarrow> ptr \<Rightarrow> ptr \<Rightarrow> 64 word \<Rightarrow>
    ('q, 'u, 'a, (unit, 'r) visit) csl_prog" where
  "unlink_lost K b l t previous_hp current_item_hp current_item current_next local_seq_no =
     call (cas_link l (Next current_item) current_next (mark current_next)) (\<lambda>_.
     call (let_go b t previous_hp) (\<lambda>_.
     call (clds_hazard_pointers_release b t current_item_hp) (\<lambda>_.
     call (on_list l (rd sequence_number)) (\<lambda>p.
     call (if p \<noteq> null then report_skipped K l local_seq_no else Done ()) (\<lambda>_.
     Done (Leave (Restart ())))))))"

text \<open>The node is out of the list: its sequence number is handed out and the node is retired.\<close>

definition unlink_won :: "'q externals \<Rightarrow> 'u csl_callbacks \<Rightarrow> nat \<Rightarrow> ptr \<Rightarrow> ptr \<Rightarrow> (ptr \<Rightarrow> ('q, 'u, 'a, unit) csl_prog) \<Rightarrow> 'r \<Rightarrow> ptr \<Rightarrow>
    ptr \<Rightarrow> ptr \<Rightarrow> ptr \<Rightarrow> 64 word \<Rightarrow> ('q, 'u, 'a, (unit, 'r) visit) csl_prog" where
  "unlink_won X K b l t on_unlinked ok seq previous_hp current_item_hp current_item local_seq_no =
     call (on_unlinked current_item) (\<lambda>_.
     call (on_list l (rd sequence_number)) (\<lambda>p.
     call (if p \<noteq> null \<and> seq \<noteq> null then store seq local_seq_no else Done ()) (\<lambda>_.
     call (let_go b t previous_hp) (\<lambda>_.
     call (clds_hazard_pointers_release b t current_item_hp) (\<lambda>_.
     call (clds_hazard_pointers_reclaim X (list_reclaim K) b t current_item (reclaim_list_node_function K)) (\<lambda>_.
     Done (Leave (Finished ok))))))))"

text \<open>
  The node that was looked for: it is marked, a sequence number is taken, and the link that leads to
  it is swung to the next node. \<open>on_unlinked\<close> is what \<open>internal_remove\<close> does in addition.
\<close>

definition unlink_found :: "'q externals \<Rightarrow> 'u csl_callbacks \<Rightarrow> nat \<Rightarrow> ptr \<Rightarrow> ptr \<Rightarrow> (ptr \<Rightarrow> ('q, 'u, 'a, unit) csl_prog) \<Rightarrow> 'r \<Rightarrow> ptr \<Rightarrow>
    ptr \<Rightarrow> ptr \<Rightarrow> ptr \<Rightarrow> ptr \<Rightarrow> ('q, 'u, 'a, (unit, 'r) visit) csl_prog" where
  "unlink_found X K b l t on_unlinked ok seq previous_hp previous_item current_item_hp current_item =
     call (cas_link l (Next current_item) null null) (\<lambda>p.
     let current_next = unmark p in
     call (cas_link l (Next current_item) (mark current_next) current_next) (\<lambda>old.
     if old \<noteq> current_next then
       call (let_go b t previous_hp) (\<lambda>_.
       call (clds_hazard_pointers_release b t current_item_hp) (\<lambda>_.
       Done (Leave (Restart ()))))
     else
       call (next_sequence_number l) (\<lambda>local_seq_no.
       if previous_item = null then
         call (cas_link l Head current_next current_item) (\<lambda>old.
         if old \<noteq> current_item then
           unlink_lost K b l t null current_item_hp current_item current_next local_seq_no
         else
           unlink_won X K b l t on_unlinked ok seq null current_item_hp current_item local_seq_no)
       else
         call (cas_link l (Next previous_item) current_next current_item) (\<lambda>old.
         if old \<noteq> current_item then
           unlink_lost K b l t previous_hp current_item_hp current_item current_next local_seq_no
         else
           unlink_won X K b l t on_unlinked ok seq previous_hp current_item_hp current_item local_seq_no))))"

text \<open>The two loops of \<open>internal_delete\<close>, which \<open>internal_remove\<close> shares.\<close>

definition unlink_item :: "'q externals \<Rightarrow> 'u csl_callbacks \<Rightarrow> nat \<Rightarrow> ptr \<Rightarrow> ptr \<Rightarrow> (ptr \<Rightarrow> ('q, 'u, 'a, unit) csl_prog) \<Rightarrow> 'r \<Rightarrow> 'r \<Rightarrow> 'r \<Rightarrow>
    (ptr \<Rightarrow> ptr \<Rightarrow> ('q, 'u, 'a, int) csl_prog) \<Rightarrow> ptr \<Rightarrow> ptr \<Rightarrow> ('q, 'u, 'a, 'r) csl_prog" where
  "unlink_item X K b l t on_unlinked ok not_found err item_compare item_compare_target seq =
     restarting b (\<lambda>v. walk b l t
       (\<lambda>previous_hp previous_item. call (let_go b t previous_hp) (\<lambda>_. Done (Finished not_found)))
       (Done (Finished err))
       (\<lambda>previous_hp previous_item current_item_hp current_item.
          call (item_compare current_item item_compare_target) (\<lambda>compare_result.
          if compare_result = 0 then
            unlink_found X K b l t on_unlinked ok seq previous_hp previous_item current_item_hp current_item
          else Done Advance))
       v b null null Head) ()"

definition internal_delete :: "'q externals \<Rightarrow> 'u csl_callbacks \<Rightarrow> nat \<Rightarrow> ptr \<Rightarrow> ptr \<Rightarrow> (ptr \<Rightarrow> ptr \<Rightarrow> ('q, 'u, 'a, int) csl_prog) \<Rightarrow>
    ptr \<Rightarrow> ptr \<Rightarrow> ('q, 'u, 'a, clds_sorted_list_delete_result) csl_prog" where
  "internal_delete X K b l t item_compare item_compare_target seq =
     unlink_item X K b l t (\<lambda>_. Done ()) CLDS_SORTED_LIST_DELETE_OK CLDS_SORTED_LIST_DELETE_NOT_FOUND CLDS_SORTED_LIST_DELETE_ERROR
       item_compare item_compare_target seq"

text \<open>\<open>internal_remove\<close> gives the node to the caller, with a reference of its own.\<close>

definition internal_remove :: "'q externals \<Rightarrow> 'u csl_callbacks \<Rightarrow> nat \<Rightarrow> ptr \<Rightarrow> ptr \<Rightarrow> (ptr \<Rightarrow> ptr \<Rightarrow> ('q, 'u, 'a, int) csl_prog) \<Rightarrow>
    ptr \<Rightarrow> ptr \<Rightarrow> ptr \<Rightarrow> ('q, 'u, 'a, clds_sorted_list_remove_result) csl_prog" where
  "internal_remove X K b l t item_compare item_compare_target item seq =
     unlink_item X K b l t (\<lambda>current_item. call (store item current_item) (\<lambda>_. call (clds_sorted_list_node_inc_ref current_item) (\<lambda>_. Done ())))
       CLDS_SORTED_LIST_REMOVE_OK CLDS_SORTED_LIST_REMOVE_NOT_FOUND CLDS_SORTED_LIST_REMOVE_ERROR
       item_compare item_compare_target seq"

text \<open>The argument check that the operations share: an out parameter for a sequence number needs a counter.\<close>

definition no_counter_for :: "ptr \<Rightarrow> ptr \<Rightarrow> ('q, 'u, 'a, bool) csl_prog" where
  "no_counter_for l seq = (if seq \<noteq> null then call (on_list l (rd sequence_number)) (\<lambda>p. Done (p = null)) else Done False)"

definition clds_sorted_list_delete_item :: "'q externals \<Rightarrow> 'u csl_callbacks \<Rightarrow> nat \<Rightarrow> ptr \<Rightarrow> ptr \<Rightarrow> ptr \<Rightarrow> ptr \<Rightarrow>
    ('q, 'u, 'a, clds_sorted_list_delete_result) csl_prog" where
  "clds_sorted_list_delete_item X K b l t item seq =
     (if l = null \<or> t = null \<or> item = null then Done CLDS_SORTED_LIST_DELETE_ERROR
      else
        call (no_counter_for l seq) (\<lambda>invalid.
        if invalid then Done CLDS_SORTED_LIST_DELETE_ERROR
        else
          call (check_lock_and_begin_write_operation b (list_lock l)) (\<lambda>_.
          call (internal_delete X K b l t compare_item_by_ptr item seq) (\<lambda>result.
          call (end_write_operation (list_lock l)) (\<lambda>_.
          Done result)))))"

definition clds_sorted_list_delete_key :: "'q externals \<Rightarrow> 'u csl_callbacks \<Rightarrow> nat \<Rightarrow> ptr \<Rightarrow> ptr \<Rightarrow> ptr \<Rightarrow> ptr \<Rightarrow>
    ('q, 'u, 'a, clds_sorted_list_delete_result) csl_prog" where
  "clds_sorted_list_delete_key X K b l t key seq =
     (if l = null \<or> t = null \<or> key = null then Done CLDS_SORTED_LIST_DELETE_ERROR
      else
        call (no_counter_for l seq) (\<lambda>invalid.
        if invalid then Done CLDS_SORTED_LIST_DELETE_ERROR
        else
          call (check_lock_and_begin_write_operation b (list_lock l)) (\<lambda>_.
          call (internal_delete X K b l t (compare_item_by_key K l) key seq) (\<lambda>result.
          call (end_write_operation (list_lock l)) (\<lambda>_.
          Done result)))))"

definition clds_sorted_list_remove_key :: "'q externals \<Rightarrow> 'u csl_callbacks \<Rightarrow> nat \<Rightarrow> ptr \<Rightarrow> ptr \<Rightarrow> ptr \<Rightarrow> ptr \<Rightarrow> ptr \<Rightarrow>
    ('q, 'u, 'a, clds_sorted_list_remove_result) csl_prog" where
  "clds_sorted_list_remove_key X K b l t key item seq =
     (if l = null \<or> t = null \<or> key = null then Done CLDS_SORTED_LIST_REMOVE_ERROR
      else
        call (no_counter_for l seq) (\<lambda>invalid.
        if invalid then Done CLDS_SORTED_LIST_REMOVE_ERROR
        else
          call (check_lock_and_begin_write_operation b (list_lock l)) (\<lambda>_.
          call (internal_remove X K b l t (compare_item_by_key K l) key item seq) (\<lambda>result.
          call (end_write_operation (list_lock l)) (\<lambda>_.
          Done result)))))"

section \<open>Inserting\<close>

definition insert_at_end :: "nat \<Rightarrow> ptr \<Rightarrow> ptr \<Rightarrow> ptr \<Rightarrow> ptr \<Rightarrow> ptr \<Rightarrow> ('q, 'u, 'a, (unit, clds_sorted_list_insert_result) walk_end) csl_prog" where
  "insert_at_end b l t item previous_hp previous_item =
     call (on_node item (wr item_next_update null)) (\<lambda>_.
     if previous_item \<noteq> null then
       call (cas_link l (Next previous_item) item null) (\<lambda>old.
       if old \<noteq> null then
         call (clds_hazard_pointers_release b t previous_hp) (\<lambda>_. Done (Restart ()))
       else
         call (clds_hazard_pointers_release b t previous_hp) (\<lambda>_. Done (Finished CLDS_SORTED_LIST_INSERT_OK)))
     else
       call (cas_link l Head item null) (\<lambda>old.
       if old \<noteq> null then Done (Restart ())
       else Done (Finished CLDS_SORTED_LIST_INSERT_OK)))"

text \<open>Insertion in front of \<open>current_item\<close>, whose key is greater.\<close>

definition insert_between :: "nat \<Rightarrow> ptr \<Rightarrow> ptr \<Rightarrow> ptr \<Rightarrow> ptr \<Rightarrow> ptr \<Rightarrow> ptr \<Rightarrow> ptr \<Rightarrow>
    ('q, 'u, 'a, (unit, clds_sorted_list_insert_result) visit) csl_prog" where
  "insert_between b l t item previous_hp previous_item current_item_hp current_item =
     call (on_node item (wr item_next_update current_item)) (\<lambda>_.
     if previous_item \<noteq> null then
       call (cas_link l (Next previous_item) item current_item) (\<lambda>old.
       call (clds_hazard_pointers_release b t previous_hp) (\<lambda>_.
       call (clds_hazard_pointers_release b t current_item_hp) (\<lambda>_.
       if old \<noteq> current_item then Done (Leave (Restart ()))
       else Done (Leave (Finished CLDS_SORTED_LIST_INSERT_OK)))))
     else
       call (cas_link l Head item current_item) (\<lambda>old.
       call (clds_hazard_pointers_release b t current_item_hp) (\<lambda>_.
       if old \<noteq> current_item then Done (Leave (Restart ()))
       else Done (Leave (Finished CLDS_SORTED_LIST_INSERT_OK)))))"

definition insert_at_item :: "'u csl_callbacks \<Rightarrow> nat \<Rightarrow> ptr \<Rightarrow> ptr \<Rightarrow> ptr \<Rightarrow> ptr \<Rightarrow> 64 word \<Rightarrow> ptr \<Rightarrow> ptr \<Rightarrow> ptr \<Rightarrow> ptr \<Rightarrow>
    ('q, 'u, 'a, (unit, clds_sorted_list_insert_result) visit) csl_prog" where
  "insert_at_item K b l t item new_item_key local_seq_no previous_hp previous_item current_item_hp current_item =
     call (item_key K l current_item) (\<lambda>current_item_key.
     call (compare_keys K l new_item_key current_item_key) (\<lambda>compare_result.
     if compare_result = 0 then
       call (if previous_item \<noteq> null then clds_hazard_pointers_release b t previous_hp else Done ()) (\<lambda>_.
       call (clds_hazard_pointers_release b t current_item_hp) (\<lambda>_.
       call (report_skipped K l local_seq_no) (\<lambda>_.
       Done (Leave (Finished CLDS_SORTED_LIST_INSERT_KEY_ALREADY_EXISTS)))))
     else if compare_result < 0 then
       insert_between b l t item previous_hp previous_item current_item_hp current_item
     else Done Advance))"

definition clds_sorted_list_insert :: "'u csl_callbacks \<Rightarrow> nat \<Rightarrow> ptr \<Rightarrow> ptr \<Rightarrow> ptr \<Rightarrow> ptr \<Rightarrow>
    ('q, 'u, 'a, clds_sorted_list_insert_result) csl_prog" where
  "clds_sorted_list_insert K b l t item seq =
     (if l = null \<or> item = null \<or> t = null then Done CLDS_SORTED_LIST_INSERT_ERROR
      else
        call (no_counter_for l seq) (\<lambda>invalid.
        if invalid then Done CLDS_SORTED_LIST_INSERT_ERROR
        else
          call (check_lock_and_begin_write_operation b (list_lock l)) (\<lambda>_.
          call (item_key K l item) (\<lambda>new_item_key.
          call (take_sequence_number l seq) (\<lambda>local_seq_no.
          call (restarting b (\<lambda>v. walk b l t
                  (insert_at_end b l t item)
                  (call (report_skipped K l local_seq_no) (\<lambda>_. Done (Finished CLDS_SORTED_LIST_INSERT_ERROR)))
                  (insert_at_item K b l t item new_item_key local_seq_no)
                  v b null null Head) ()) (\<lambda>result.
          call (end_write_operation (list_lock l)) (\<lambda>_.
          Done result)))))))"

section \<open>Looking up\<close>

definition find_at_item :: "'u csl_callbacks \<Rightarrow> nat \<Rightarrow> ptr \<Rightarrow> ptr \<Rightarrow> ptr \<Rightarrow> ptr \<Rightarrow> ptr \<Rightarrow> ptr \<Rightarrow> ptr \<Rightarrow>
    ('q, 'u, 'a, (unit, ptr) visit) csl_prog" where
  "find_at_item K b l t key previous_hp previous_item current_item_hp current_item =
     call (item_key K l current_item) (\<lambda>key_of_item.
     call (compare_keys K l key key_of_item) (\<lambda>compare_result.
     if compare_result = 0 then
       call (let_go b t previous_hp) (\<lambda>_.
       call (on_node current_item (add_fetch ref_count ref_count_update 1)) (\<lambda>_.
       call (clds_hazard_pointers_release b t current_item_hp) (\<lambda>_.
       Done (Leave (Finished current_item)))))
     else Done Advance))"

definition clds_sorted_list_find_key :: "'u csl_callbacks \<Rightarrow> nat \<Rightarrow> ptr \<Rightarrow> ptr \<Rightarrow> ptr \<Rightarrow> ('q, 'u, 'a, ptr) csl_prog" where
  "clds_sorted_list_find_key K b l t key =
     (if l = null \<or> t = null \<or> key = null then Done null
      else
        restarting b (\<lambda>v. walk b l t
          (\<lambda>previous_hp previous_item. call (let_go b t previous_hp) (\<lambda>_. Done (Finished null)))
          (Done (Finished null))
          (find_at_item K b l t key)
          v b null null Head) ())"

section \<open>Replacing\<close>

text \<open>
  A walk of \<open>set_value\<close> carries the sequence number of the operation, which may change on the way;
  the result comes with the sequence number that it ended with.
\<close>

type_synonym set_value_end = "(64 word, clds_sorted_list_set_value_result \<times> 64 word) walk_end"

type_synonym set_value_visit = "(64 word, clds_sorted_list_set_value_result \<times> 64 word) visit"

definition set_value_at_end :: "nat \<Rightarrow> ptr \<Rightarrow> ptr \<Rightarrow> ptr \<Rightarrow> ptr \<Rightarrow> bool \<Rightarrow> 64 word \<Rightarrow> ptr \<Rightarrow> ptr \<Rightarrow> ('q, 'u, 'a, set_value_end) csl_prog" where
  "set_value_at_end b l t new_item old_item only_if_exists v previous_hp previous_item =
     (if only_if_exists then
        call (if previous_item \<noteq> null then clds_hazard_pointers_release b t previous_hp else Done ()) (\<lambda>_.
        Done (Finished (CLDS_SORTED_LIST_SET_VALUE_NOT_FOUND, v)))
      else
        call (on_node new_item (wr item_next_update null)) (\<lambda>_.
        if previous_item \<noteq> null then
          call (cas_link l (Next previous_item) new_item null) (\<lambda>old.
          call (clds_hazard_pointers_release b t previous_hp) (\<lambda>_.
          if old \<noteq> null then Done (Restart v)
          else call (store old_item null) (\<lambda>_. Done (Finished (CLDS_SORTED_LIST_SET_VALUE_OK, v)))))
        else
          call (cas_link l Head new_item null) (\<lambda>old.
          if old \<noteq> null then Done (Restart v)
          else call (store old_item null) (\<lambda>_. Done (Finished (CLDS_SORTED_LIST_SET_VALUE_OK, v))))))"

text \<open>The condition of the caller, if there is one; a result other than OK ends the operation.\<close>

definition check_condition :: "'u csl_callbacks \<Rightarrow> ptr \<Rightarrow> ptr \<Rightarrow> ptr \<Rightarrow> ptr \<Rightarrow> ('q, 'u, 'a, condition_check_result) csl_prog" where
  "check_condition K condition_check_func condition_check_context new_item_key current_item_key =
     (if condition_check_func \<noteq> null
      then callback (condition_check K condition_check_func condition_check_context new_item_key current_item_key)
      else Done CLDS_CONDITION_CHECK_OK)"

text \<open>
  The sequence number of the replacement has to be the newest: if the counter has moved on, the one
  taken at the start is reported as skipped and another one is taken.
\<close>

definition renew_sequence_number :: "'u csl_callbacks \<Rightarrow> ptr \<Rightarrow> ptr \<Rightarrow> 64 word \<Rightarrow> ('q, 'u, 'a, 64 word) csl_prog" where
  "renew_sequence_number K l seq v =
     call (on_list l (rd sequence_number)) (\<lambda>p.
     if p \<noteq> null then
       call (load p) (\<lambda>latest.
       if latest \<noteq> v then
         call (report_skipped K l v) (\<lambda>_.
         call (increment p) (\<lambda>v'.
         call (if seq \<noteq> null then store seq v' else Done ()) (\<lambda>_.
         Done v')))
       else Done v)
     else Done v)"

text \<open>The item is the one that is in the list already: the mark is taken back.\<close>

definition set_same_item :: "nat \<Rightarrow> ptr \<Rightarrow> ptr \<Rightarrow> ptr \<Rightarrow> 64 word \<Rightarrow> ptr \<Rightarrow> ptr \<Rightarrow> ptr \<Rightarrow> ptr \<Rightarrow> ptr \<Rightarrow> ('q, 'u, 'a, set_value_visit) csl_prog" where
  "set_same_item b l t old_item v previous_hp previous_item current_item_hp current_item current_next =
     call (cas_link l (Next current_item) current_next (mark current_next)) (\<lambda>old.
     call (if previous_item \<noteq> null then clds_hazard_pointers_release b t previous_hp else Done ()) (\<lambda>_.
     call (clds_hazard_pointers_release b t current_item_hp) (\<lambda>_.
     if old \<noteq> mark current_next then Done (Leave (Finished (CLDS_SORTED_LIST_SET_VALUE_ERROR, v)))
     else
       call (store old_item current_item) (\<lambda>_.
       Done (Leave (Finished (CLDS_SORTED_LIST_SET_VALUE_OK, v)))))))"

text \<open>The previous link has changed: the mark is taken back and the operation starts again.\<close>

definition swap_lost :: "nat \<Rightarrow> ptr \<Rightarrow> ptr \<Rightarrow> 64 word \<Rightarrow> ptr \<Rightarrow> ptr \<Rightarrow> ptr \<Rightarrow> ptr \<Rightarrow> ('q, 'u, 'a, set_value_visit) csl_prog" where
  "swap_lost b l t v previous_hp current_item_hp current_item current_next =
     call (cas_link l (Next current_item) current_next (mark current_next)) (\<lambda>old.
     call (let_go b t previous_hp) (\<lambda>_.
     call (clds_hazard_pointers_release b t current_item_hp) (\<lambda>_.
     if old \<noteq> mark current_next then Done (Leave (Finished (CLDS_SORTED_LIST_SET_VALUE_ERROR, v)))
     else Done (Leave (Restart v)))))"

text \<open>The new item is in the old one's place: the old one goes to the caller, with a reference, and is retired.\<close>

definition swap_won :: "'q externals \<Rightarrow> 'u csl_callbacks \<Rightarrow> nat \<Rightarrow> ptr \<Rightarrow> ptr \<Rightarrow> 64 word \<Rightarrow> ptr \<Rightarrow> ptr \<Rightarrow> ptr \<Rightarrow>
    ('q, 'u, 'a, set_value_visit) csl_prog" where
  "swap_won X K b t old_item v previous_hp current_item_hp current_item =
     call (let_go b t previous_hp) (\<lambda>_.
     call (clds_hazard_pointers_release b t current_item_hp) (\<lambda>_.
     call (store old_item current_item) (\<lambda>_.
     call (clds_sorted_list_node_inc_ref current_item) (\<lambda>_.
     call (clds_hazard_pointers_reclaim X (list_reclaim K) b t current_item (reclaim_list_node_function K)) (\<lambda>_.
     Done (Leave (Finished (CLDS_SORTED_LIST_SET_VALUE_OK, v))))))))"

definition set_other_item :: "'q externals \<Rightarrow> 'u csl_callbacks \<Rightarrow> nat \<Rightarrow> ptr \<Rightarrow> ptr \<Rightarrow> ptr \<Rightarrow> ptr \<Rightarrow> 64 word \<Rightarrow> ptr \<Rightarrow> ptr \<Rightarrow> ptr \<Rightarrow> ptr \<Rightarrow> ptr \<Rightarrow>
    ('q, 'u, 'a, set_value_visit) csl_prog" where
  "set_other_item X K b l t new_item old_item v previous_hp previous_item current_item_hp current_item current_next =
     call (on_node new_item (wr item_next_update current_next)) (\<lambda>_.
     if previous_item \<noteq> null then
       call (cas_link l (Next previous_item) new_item current_item) (\<lambda>old.
       if old \<noteq> current_item then swap_lost b l t v previous_hp current_item_hp current_item current_next
       else swap_won X K b t old_item v previous_hp current_item_hp current_item)
     else
       call (cas_link l Head new_item current_item) (\<lambda>old.
       if old \<noteq> current_item then swap_lost b l t v null current_item_hp current_item current_next
       else swap_won X K b t old_item v null current_item_hp current_item))"

text \<open>The item with the key was found: it is marked, and replaced.\<close>

definition set_value_replace :: "'q externals \<Rightarrow> 'u csl_callbacks \<Rightarrow> nat \<Rightarrow> ptr \<Rightarrow> ptr \<Rightarrow> ptr \<Rightarrow> ptr \<Rightarrow> ptr \<Rightarrow> 64 word \<Rightarrow> ptr \<Rightarrow> ptr \<Rightarrow> ptr \<Rightarrow> ptr \<Rightarrow>
    ('q, 'u, 'a, set_value_visit) csl_prog" where
  "set_value_replace X K b l t new_item old_item seq v previous_hp previous_item current_item_hp current_item =
     call (cas_link l (Next current_item) null null) (\<lambda>p.
     let current_next = unmark p in
     call (cas_link l (Next current_item) (mark current_next) current_next) (\<lambda>old.
     if old \<noteq> current_next then
       call (if previous_item \<noteq> null then clds_hazard_pointers_release b t previous_hp else Done ()) (\<lambda>_.
       call (clds_hazard_pointers_release b t current_item_hp) (\<lambda>_.
       Done (Leave (Restart v))))
     else
       call (renew_sequence_number K l seq v) (\<lambda>v.
       if current_item = new_item then
         set_same_item b l t old_item v previous_hp previous_item current_item_hp current_item current_next
       else
         set_other_item X K b l t new_item old_item v previous_hp previous_item current_item_hp current_item current_next)))"

text \<open>Insertion in front of \<open>current_item\<close>, whose key is greater.\<close>

definition set_value_between :: "nat \<Rightarrow> ptr \<Rightarrow> ptr \<Rightarrow> ptr \<Rightarrow> ptr \<Rightarrow> bool \<Rightarrow> 64 word \<Rightarrow> ptr \<Rightarrow> ptr \<Rightarrow> ptr \<Rightarrow> ptr \<Rightarrow>
    ('q, 'u, 'a, set_value_visit) csl_prog" where
  "set_value_between b l t new_item old_item only_if_exists v previous_hp previous_item current_item_hp current_item =
     (if only_if_exists then
        call (if previous_item \<noteq> null then clds_hazard_pointers_release b t previous_hp else Done ()) (\<lambda>_.
        call (clds_hazard_pointers_release b t current_item_hp) (\<lambda>_.
        Done (Leave (Finished (CLDS_SORTED_LIST_SET_VALUE_NOT_FOUND, v)))))
      else
        call (on_node new_item (wr item_next_update current_item)) (\<lambda>_.
        if previous_item \<noteq> null then
          call (cas_link l (Next previous_item) new_item current_item) (\<lambda>old.
          call (clds_hazard_pointers_release b t previous_hp) (\<lambda>_.
          call (clds_hazard_pointers_release b t current_item_hp) (\<lambda>_.
          if old \<noteq> current_item then Done (Leave (Restart v))
          else call (store old_item null) (\<lambda>_. Done (Leave (Finished (CLDS_SORTED_LIST_SET_VALUE_OK, v)))))))
        else
          call (cas_link l Head new_item current_item) (\<lambda>old.
          call (clds_hazard_pointers_release b t current_item_hp) (\<lambda>_.
          if old \<noteq> current_item then Done (Leave (Restart v))
          else call (store old_item null) (\<lambda>_. Done (Leave (Finished (CLDS_SORTED_LIST_SET_VALUE_OK, v))))))))"

definition set_value_at_item :: "'q externals \<Rightarrow> 'u csl_callbacks \<Rightarrow> nat \<Rightarrow> ptr \<Rightarrow> ptr \<Rightarrow> ptr \<Rightarrow> ptr \<Rightarrow> ptr \<Rightarrow> ptr \<Rightarrow> ptr \<Rightarrow> ptr \<Rightarrow> bool \<Rightarrow>
    64 word \<Rightarrow> ptr \<Rightarrow> ptr \<Rightarrow> ptr \<Rightarrow> ptr \<Rightarrow> ('q, 'u, 'a, set_value_visit) csl_prog" where
  "set_value_at_item X K b l t new_item new_item_key condition_check_func condition_check_context old_item seq only_if_exists v
       previous_hp previous_item current_item_hp current_item =
     call (item_key K l current_item) (\<lambda>current_item_key.
     call (compare_keys K l new_item_key current_item_key) (\<lambda>compare_result.
     if compare_result = 0 then
       call (check_condition K condition_check_func condition_check_context new_item_key current_item_key) (\<lambda>condition_check_result.
       if condition_check_result \<noteq> CLDS_CONDITION_CHECK_OK then
         call (let_go b t previous_hp) (\<lambda>_.
         call (clds_hazard_pointers_release b t current_item_hp) (\<lambda>_.
         Done (Leave (Finished (if condition_check_result = CLDS_CONDITION_CHECK_NOT_MET
                                then CLDS_SORTED_LIST_SET_VALUE_CONDITION_NOT_MET
                                else CLDS_SORTED_LIST_SET_VALUE_ERROR, v)))))
       else
         set_value_replace X K b l t new_item old_item seq v previous_hp previous_item current_item_hp current_item)
     else if compare_result < 0 then
       set_value_between b l t new_item old_item only_if_exists v previous_hp previous_item current_item_hp current_item
     else Done Advance))"

definition clds_sorted_list_set_value :: "'q externals \<Rightarrow> 'u csl_callbacks \<Rightarrow> nat \<Rightarrow> ptr \<Rightarrow> ptr \<Rightarrow> ptr \<Rightarrow> ptr \<Rightarrow> ptr \<Rightarrow> ptr \<Rightarrow> ptr \<Rightarrow> ptr \<Rightarrow> bool \<Rightarrow>
    ('q, 'u, 'a, clds_sorted_list_set_value_result) csl_prog" where
  "clds_sorted_list_set_value X K b l t key new_item condition_check_func condition_check_context old_item seq only_if_exists =
     (if l = null \<or> t = null \<or> key = null \<or> new_item = null \<or> old_item = null then Done CLDS_SORTED_LIST_SET_VALUE_ERROR
      else
        call (no_counter_for l seq) (\<lambda>invalid.
        if invalid then Done CLDS_SORTED_LIST_SET_VALUE_ERROR
        else
          call (check_lock_and_begin_write_operation b (list_lock l)) (\<lambda>_.
          call (item_key K l new_item) (\<lambda>new_item_key.
          call (take_sequence_number l seq) (\<lambda>insert_seq_no.
          call (restarting b (\<lambda>v. walk b l t
                  (set_value_at_end b l t new_item old_item only_if_exists v)
                  (Done (Finished (CLDS_SORTED_LIST_SET_VALUE_ERROR, v)))
                  (set_value_at_item X K b l t new_item new_item_key condition_check_func condition_check_context old_item seq only_if_exists v)
                  v b null null Head) insert_seq_no) (\<lambda>(result, insert_seq_no).
          call (end_write_operation (list_lock l)) (\<lambda>_.
          call (if result \<noteq> CLDS_SORTED_LIST_SET_VALUE_OK then report_skipped K l insert_seq_no else Done ()) (\<lambda>_.
          Done result))))))))"

section \<open>Snapshots\<close>

definition clds_sorted_list_lock_writes :: "nat \<Rightarrow> ptr \<Rightarrow> ('q, 'u, 'a, unit) csl_prog" where
  "clds_sorted_list_lock_writes b l = (if l = null then Done () else internal_lock_writes b (list_lock l))"

definition clds_sorted_list_unlock_writes :: "ptr \<Rightarrow> ('q, 'u, 'a, unit) csl_prog" where
  "clds_sorted_list_unlock_writes l = (if l = null then Done () else internal_unlock_writes (list_lock l))"

fun count_items :: "nat \<Rightarrow> ptr \<Rightarrow> 64 word \<Rightarrow> ('q, 'u, 'a, 64 word) csl_prog" where
  "count_items 0 current_item counted = Spin"
| "count_items (Suc n) current_item counted =
     (if current_item \<noteq> null then
        call (on_node current_item (cas item_next item_next_update null null)) (\<lambda>next_item.
        count_items n next_item (counted + 1))
      else Done counted)"

definition clds_sorted_list_get_count :: "nat \<Rightarrow> ptr \<Rightarrow> ptr \<Rightarrow> ptr \<Rightarrow> ('q, 'u, 'a, clds_sorted_list_get_count_result) csl_prog" where
  "clds_sorted_list_get_count b l t item_count =
     (if l = null \<or> t = null \<or> item_count = null then Done CLDS_SORTED_LIST_GET_COUNT_ERROR
      else
        call (on_list l (add_fetch locked_for_write locked_for_write_update 0)) (\<lambda>locked.
        if locked = 0 then Done CLDS_SORTED_LIST_GET_COUNT_NOT_LOCKED
        else
          call (cas_link l Head null null) (\<lambda>current_item.
          call (count_items b current_item 0) (\<lambda>counted.
          call (store item_count counted) (\<lambda>_.
          Done CLDS_SORTED_LIST_GET_COUNT_OK)))))"

text \<open>The address of \<open>items[index]\<close>, pointers being 8 bytes wide.\<close>

definition item_slot :: "ptr \<Rightarrow> 64 word \<Rightarrow> ptr" where
  "item_slot items index = items + 8 * index"

text \<open>The loop of \<open>get_all\<close>: it ends at the end of the list or when the caller's array is full.\<close>

fun copy_items :: "nat \<Rightarrow> 64 word \<Rightarrow> ptr \<Rightarrow> ptr \<Rightarrow> 64 word \<Rightarrow> ('q, 'u, 'a, ptr \<times> 64 word) csl_prog" where
  "copy_items 0 item_count items current_item current_index = Spin"
| "copy_items (Suc n) item_count items current_item current_index =
     (if current_item \<noteq> null then
        call (on_node current_item (cas item_next item_next_update null null)) (\<lambda>next_item.
        if current_index + 1 > item_count then Done (current_item, current_index)
        else
          call (clds_sorted_list_node_inc_ref current_item) (\<lambda>_.
          call (store (item_slot items current_index) current_item) (\<lambda>_.
          copy_items n item_count items next_item (current_index + 1))))
      else Done (current_item, current_index))"

fun release_items :: "'u csl_callbacks \<Rightarrow> nat \<Rightarrow> 64 word \<Rightarrow> ptr \<Rightarrow> 64 word \<Rightarrow> ('q, 'u, 'a, unit) csl_prog" where
  "release_items K 0 current_index items i = Spin"
| "release_items K (Suc n) current_index items i =
     (if i < current_index then
        call (load (item_slot items i)) (\<lambda>item.
        call (clds_sorted_list_node_release K item) (\<lambda>_.
        call (store (item_slot items i) null) (\<lambda>_.
        release_items K n current_index items (i + 1))))
      else Done ())"

definition clds_sorted_list_get_all :: "'u csl_callbacks \<Rightarrow> nat \<Rightarrow> ptr \<Rightarrow> ptr \<Rightarrow> 64 word \<Rightarrow> ptr \<Rightarrow> ptr \<Rightarrow> bool \<Rightarrow>
    ('q, 'u, 'a, clds_sorted_list_get_all_result) csl_prog" where
  "clds_sorted_list_get_all K b l t item_count items retrieved_item_count require_locked_list =
     (if l = null \<or> t = null \<or> item_count = 0 \<or> items = null \<or> retrieved_item_count = null then Done CLDS_SORTED_LIST_GET_ALL_ERROR
      else
        call (if require_locked_list then
                call (on_list l (add_fetch locked_for_write locked_for_write_update 0)) (\<lambda>locked. Done (locked = 0))
              else Done False) (\<lambda>not_locked.
        if not_locked then Done CLDS_SORTED_LIST_GET_ALL_NOT_LOCKED
        else
          call (cas_link l Head null null) (\<lambda>current_item.
          call (copy_items b item_count items current_item 0) (\<lambda>(current_item, current_index).
          if current_item \<noteq> null then
            call (release_items K b current_index items 0) (\<lambda>_.
            Done CLDS_SORTED_LIST_GET_ALL_NOT_ENOUGH_SPACE)
          else
            call (store retrieved_item_count current_index) (\<lambda>_.
            Done CLDS_SORTED_LIST_GET_ALL_OK)))))"

end
