(* ===== verification/Sorted_List_Walk.thy ===== *)
theory Sorted_List_Walk
  imports Clds_Sorted_List
begin

text \<open>
  What the operations of the sorted list share, for one thread while the others are at rest: the
  walk and the hazard pointers it holds, the promises of the caller's functions, the list with its
  reference counts, the sequence numbers, and the bracket of a write operation.
\<close>

section \<open>The list's part of the state\<close>

lemma csl_moreD:
  assumes "hp_mem.more s' = hp_mem.more s"
  shows "csl_items s' = csl_items s" "csl_lists s' = csl_lists s" "words s' = words s" "user s' = user s"
  using assms by (cases s; cases s'; simp)+

lemma csl_moreD_rest: "hp_mem.more s' = hp_mem.more s \<Longrightarrow> csl_mem.more s' = csl_mem.more s"
  by (cases s; cases s') simp

lemma hp_ok_csl [simp]:
  "hp_ok X C (csl_items_update f s) t A R M = hp_ok X C s t A R M"
  "hp_ok X C (csl_lists_update g s) t A R M = hp_ok X C s t A R M"
  "hp_ok X C (words_update h s) t A R M = hp_ok X C s t A R M"
  "hp_ok X C (user_update k s) t A R M = hp_ok X C s t A R M"
  by (auto elim!: hp_ok_client [rotated 2] simp: same_hp_def)

abbreviation itm_next :: "('q, 'u, 'a) csl_mem_scheme \<Rightarrow> ptr \<Rightarrow> ptr option" where
  "itm_next s \<equiv> \<lambda>x. map_option item_next (csl_items s x)"

definition link_of :: "('q, 'u, 'a) csl_mem_scheme \<Rightarrow> ptr \<Rightarrow> link \<Rightarrow> ptr option" where
  "link_of s l a = (case a of Head \<Rightarrow> map_option list_head (csl_lists s l) | Next p \<Rightarrow> itm_next s p)"

lemma wp_read_next: "wp (on_node p (cas item_next item_next_update null null)) Q s = (case itm_next s p of None \<Rightarrow> False | Some q \<Rightarrow> Q q s)"
  by (cases s) (auto simp: wp_access cas_def fun_upd_idem split: option.splits)

lemma wp_read_head: "wp (on_list l (cas list_head list_head_update null null)) Q s =
    (case map_option list_head (csl_lists s l) of None \<Rightarrow> False | Some q \<Rightarrow> Q q s)"
  by (cases s) (auto simp: wp_access cas_def fun_upd_idem split: option.splits)

lemma wp_read_link: "wp (cas_link l a null null) Q s = (case link_of s l a of None \<Rightarrow> False | Some q \<Rightarrow> Q q s)"
  by (cases a) (simp_all add: link_of_def wp_read_next wp_read_head)

declare cas_link.simps [simp del]

text \<open>Where a walk stands that has passed the nodes \<open>us\<close>: the link that it reads next.\<close>

definition link_after :: "ptr list \<Rightarrow> link" where
  "link_after us = (if us = [] then Head else Next (last us))"

lemma link_after_simps [simp]: "link_after [] = Head" "link_after (us @ [x]) = Next x"
  by (simp_all add: link_after_def)

definition list_at :: "('q, 'u, 'a) csl_mem_scheme \<Rightarrow> ptr \<Rightarrow> clds_sorted_list \<Rightarrow> ptr list \<Rightarrow> bool" where
  "list_at s l L xs \<longleftrightarrow> csl_lists s l = Some (L\<lparr>list_head := first_of xs\<rparr>) \<and> heap_chain (itm_next s) (first_of xs) xs \<and>
     (\<forall>x \<in> set xs. aligned x)"

lemma list_at_cong:
  "csl_lists s' l = csl_lists s l \<Longrightarrow> (\<And>x. x \<in> set xs \<Longrightarrow> itm_next s' x = itm_next s x) \<Longrightarrow> list_at s' l L xs = list_at s l L xs"
  by (simp add: list_at_def cong: heap_chain_cong)

lemma list_at_link:
  assumes "list_at s l L (us @ vs)"
  shows "link_of s l (link_after us) = Some (first_of vs)"
proof (cases us rule: rev_exhaust)
  case Nil
  then show ?thesis using assms by (simp add: list_at_def link_of_def)
next
  case (snoc ts u)
  then have "heap_chain (itm_next s) (first_of (us @ vs)) (ts @ u # vs)" using assms by (simp add: list_at_def)
  from heap_chain_suffix [OF this] obtain q where "itm_next s u = Some q" "heap_chain (itm_next s) q vs" by auto
  then show ?thesis
    using snoc heap_chain_first [of "itm_next s" q vs] by (simp add: link_of_def first_of_def)
qed

lemma list_at_node:
  assumes "list_at s l L (us @ x # vs)"
  shows "x \<noteq> null" "aligned x" "itm_next s x = Some (first_of vs)"
proof -
  have c: "heap_chain (itm_next s) (first_of (us @ x # vs)) (us @ x # vs)" using assms by (simp add: list_at_def)
  show "x \<noteq> null" "aligned x" using heap_chain_not_null [OF c] assms by (auto simp: list_at_def)
  show "itm_next s x = Some (first_of vs)"
    using list_at_link [of s l L "us @ [x]" vs] assms by (simp add: link_of_def)
qed

section \<open>The walk\<close>

lemma wp_walk_step:
  fixes s :: "('q, 'u, 'a) csl_mem_scheme"
  assumes hp: "hp_ok X C s t A' R M" and hold: "holding A us hp A'"
    and at: "list_at s l L (us @ x # vs)" and room: "Suc (card (live s)) < b"
    and no_hp: "\<And>s'. hp_ok X C s' t A R M \<Longrightarrow> hp_mem.more s' = hp_mem.more s \<Longrightarrow> card (live s') \<le> Suc (card (live s)) \<Longrightarrow>
        \<not> plenty (Suc 0) s \<Longrightarrow> wp no_hp Q s'"
    and at_item: "\<And>s' ch. hp_ok X C s' t (A'(ch \<mapsto> x)) R M \<Longrightarrow> A' ch = None \<Longrightarrow> ch \<noteq> null \<Longrightarrow> hp_mem.more s' = hp_mem.more s \<Longrightarrow>
        card (live s') \<le> Suc (card (live s)) \<Longrightarrow> (\<And>k. plenty (Suc k) s \<Longrightarrow> plenty k s') \<Longrightarrow>
        wp (at_item hp (last_of us) ch x) (\<lambda>r s''. case r of Leave w \<Rightarrow> Q w s''
          | Advance \<Rightarrow> wp (call (let_go b t hp) (\<lambda>_. walk b l t at_end no_hp at_item v n ch x (Next x))) Q s'') s'"
  shows "wp (walk b l t at_end no_hp at_item v (Suc n) hp (last_of us) (link_after us)) Q s"
proof -
  have x: "x \<noteq> null" "unmark x = x" using list_at_node [OF at] by simp_all
  have link: "link_of s' l (link_after us) = Some x" if "hp_mem.more s' = hp_mem.more s" for s' :: "('q, 'u, 'a) csl_mem_scheme"
    using list_at_link [OF at] csl_moreD [OF that] by (simp add: link_of_def split: link.splits)
  define K where "K = (\<lambda>current_item_hp.
       if current_item_hp = null then call (let_go b t hp) (\<lambda>_. no_hp)
       else
         call (cas_link l (link_after us) null null) (\<lambda>again.
         if again \<noteq> x then
           call (let_go b t hp) (\<lambda>_. call (clds_hazard_pointers_release b t current_item_hp) (\<lambda>_. Done (Restart v)))
         else
           call (at_item hp (last_of us) current_item_hp x) (\<lambda>r. case r of Leave w \<Rightarrow> Done w
           | Advance \<Rightarrow> call (let_go b t hp) (\<lambda>_. walk b l t at_end no_hp at_item v n current_item_hp x (Next x)))))"
  have "wp (call (clds_hazard_pointers_acquire b t x) K) Q s"
  proof (rule wp_seq [OF hp.acquire [OF hp]])
    show "0 < b" using room by simp
    fix ch s1
    assume a: "hp_mem.more s1 = hp_mem.more s \<and> card (live s1) \<le> Suc (card (live s)) \<and>
      (\<forall>k. plenty (Suc k) s \<longrightarrow> ch \<noteq> null \<and> plenty k s1) \<and>
      (if ch = null then hp_ok X C s1 t A' R M else A' ch = None \<and> hp_ok X C s1 t (A'(ch \<mapsto> x)) R M)"
    show "wp (K ch) Q s1"
    proof (cases "ch = null")
      case True
      then have "hp_ok X C s1 t A' R M" "card (live s1) < b" using a room by simp_all
      then have "wp (call (let_go b t hp) (\<lambda>_. no_hp)) Q s1"
        by (rule wp_seq [OF wp_let_go [OF _ hold]]) (use a True in \<open>auto intro: no_hp\<close>)
      with True show ?thesis by (simp add: K_def)
    next
      case False
      then have "wp (at_item hp (last_of us) ch x) (\<lambda>r s''. case r of Leave w \<Rightarrow> Q w s''
          | Advance \<Rightarrow> wp (call (let_go b t hp) (\<lambda>_. walk b l t at_end no_hp at_item v n ch x (Next x))) Q s'') s1"
        using a by (intro at_item) simp_all
      then have "wp (call (at_item hp (last_of us) ch x) (\<lambda>r. case r of Leave w \<Rightarrow> Done w
           | Advance \<Rightarrow> call (let_go b t hp) (\<lambda>_. walk b l t at_end no_hp at_item v n ch x (Next x)))) Q s1"
        by (rule wp_seq) (auto simp: wp_simps split: visit.splits)
      with False show ?thesis using link [of s1] a by (simp add: K_def wp_call wp_read_link)
    qed
  qed
  then show ?thesis
    using link [OF refl] x by (simp add: wp_call wp_read_link K_def Let_def cong: if_cong)
qed

text \<open>
  Run alone, a walk passes the nodes \<open>ws\<close> at which \<open>at_item\<close> says so, and ends in one of three ways:
  at the end of the list, without a hazard pointer, or at the first node where \<open>at_item\<close> leaves.
\<close>

lemma wp_walk:
  fixes s :: "('q, 'u, 'a) csl_mem_scheme"
  assumes "hp_ok X C s t A' R M" and "holding A us hp A'" and "hp_mem.more s = D"
    and at: "\<And>s'. hp_mem.more s' = D \<Longrightarrow> list_at (s' :: ('q, 'u, 'a) csl_mem_scheme) l L (us @ ws @ rs)"
    and "length ws < n" and "card (live s) + length ws < N" and "N < b"
    and "\<And>k. enough k \<Longrightarrow> plenty (k + Suc (length ws)) s"
    and advance: "\<And>s' ph pi ch x Q'. x \<in> set ws \<Longrightarrow> hp_mem.more s' = D \<Longrightarrow> Q' Advance s' \<Longrightarrow> wp (at_item ph pi ch x) Q' s'"
    and at_end: "\<And>s' ph A''. rs = [] \<Longrightarrow> hp_ok X C s' t A'' R M \<Longrightarrow> holding A (us @ ws) ph A'' \<Longrightarrow> hp_mem.more s' = D \<Longrightarrow>
        card (live s') < N \<Longrightarrow> (\<And>k. enough k \<Longrightarrow> plenty k s') \<Longrightarrow> wp (at_end ph (last_of (us @ ws))) Q s'"
    and no_hp: "\<And>s'. hp_ok X C s' t A R M \<Longrightarrow> hp_mem.more s' = D \<Longrightarrow> card (live s') \<le> N \<Longrightarrow> \<not> enough 0 \<Longrightarrow> wp no_hp Q s'"
    and at_item: "\<And>s' ph ch A'' x zs. rs = x # zs \<Longrightarrow> hp_ok X C s' t (A''(ch \<mapsto> x)) R M \<Longrightarrow> A'' ch = None \<Longrightarrow> ch \<noteq> null \<Longrightarrow>
        holding A (us @ ws) ph A'' \<Longrightarrow> hp_mem.more s' = D \<Longrightarrow> card (live s') \<le> N \<Longrightarrow> (\<And>k. enough k \<Longrightarrow> plenty k s') \<Longrightarrow>
        wp (at_item ph (last_of (us @ ws)) ch x) (\<lambda>r s''. case r of Advance \<Rightarrow> False | Leave w \<Rightarrow> Q w s'') s'"
  shows "wp (walk b l t at_end no_hp at_item v n hp (last_of us) (link_after us)) Q s"
  using assms
proof (induction ws arbitrary: us n s hp A')
  case Nil
  obtain m where n: "n = Suc m" using Nil.prems(5) by (cases n) auto
  show ?case
  proof (cases rs)
    case Nil
    have "list_at s l L us" using Nil.prems(3,4) Nil by simp
    then have "link_of s l (link_after us) = Some null" using list_at_link [of s l L us "[]"] by simp
    moreover have "plenty k s" if "enough k" for k using plenty_fewer [OF Nil.prems(8) [OF that], of k] by simp
    then have "wp (at_end hp (last_of us)) Q s" using Nil.prems(10) [OF Nil Nil.prems(1)] Nil.prems(2,3,6) by simp
    ultimately show ?thesis by (simp add: n wp_call wp_read_link Let_def unmark_def)
  next
    case (Cons x zs)
    show ?thesis
      unfolding n
    proof (rule wp_walk_step [OF Nil.prems(1,2)])
      show "list_at s l L (us @ x # zs)" using Nil.prems(3,4) Cons by simp
      show "Suc (card (live s)) < b" using Nil.prems(6,7) by simp
      show "wp no_hp Q s'" if "hp_ok X C s' t A R M" "hp_mem.more s' = hp_mem.more s" "card (live s') \<le> Suc (card (live s))" "\<not> plenty (Suc 0) s" for s'
        by (rule Nil.prems(11)) (use that Nil.prems(3,6) Nil.prems(8) [of 0] in auto)
      fix s' ch
      assume a: "hp_ok X C s' t (A'(ch \<mapsto> x)) R M" "A' ch = None" "ch \<noteq> null" "hp_mem.more s' = hp_mem.more s"
        "card (live s') \<le> Suc (card (live s))" "\<And>k. plenty (Suc k) s \<Longrightarrow> plenty k s'"
      have "plenty k s'" if "enough k" for k using a(6) Nil.prems(8) [OF that] by simp
      then have "wp (at_item hp (last_of us) ch x) (\<lambda>r s''. case r of Advance \<Rightarrow> False | Leave w \<Rightarrow> Q w s'') s'"
        using Nil.prems(12) [OF Cons a(1,2,3), of hp] a(4,5) Nil.prems(2,3,6) by simp
      then show "wp (at_item hp (last_of us) ch x) (\<lambda>r s''. case r of Leave w \<Rightarrow> Q w s''
          | Advance \<Rightarrow> wp (call (let_go b t hp) (\<lambda>_. walk b l t at_end no_hp at_item v m ch x (Next x))) Q s'') s'"
        by (rule wp_mono) (auto split: visit.splits)
    qed
  qed
next
  case (Cons w ws)
  obtain m where n: "n = Suc m" using Cons.prems(5) by (cases n) auto
  show ?case
    unfolding n
  proof (rule wp_walk_step [OF Cons.prems(1,2)])
    show "list_at s l L (us @ w # ws @ rs)" using Cons.prems(3,4) by simp
    show "Suc (card (live s)) < b" using Cons.prems(6,7) by simp
    show "wp no_hp Q s'" if "hp_ok X C s' t A R M" "hp_mem.more s' = hp_mem.more s" "card (live s') \<le> Suc (card (live s))" "\<not> plenty (Suc 0) s" for s'
      by (rule Cons.prems(11)) (use that Cons.prems(3,6) Cons.prems(8) [of 0] plenty_fewer [of _ s "Suc 0"] in auto)
    fix s' ch
    assume a: "hp_ok X C s' t (A'(ch \<mapsto> w)) R M" "A' ch = None" "ch \<noteq> null" "hp_mem.more s' = hp_mem.more s"
      "card (live s') \<le> Suc (card (live s))" "\<And>k. plenty (Suc k) s \<Longrightarrow> plenty k s'"
    have hold: "A ch = None" "holding (A(ch \<mapsto> w)) us hp (A'(ch \<mapsto> w))" using holding_more [OF Cons.prems(2) a(2)] by simp_all
    have "card (live s') < b" using a(5) Cons.prems(6,7) by simp
    then have "wp (call (let_go b t hp) (\<lambda>_. walk b l t at_end no_hp at_item v m ch w (Next w))) Q s'"
    proof (rule wp_seq [OF wp_let_go [OF a(1) hold(2)]])
      fix r s2
      assume s2: "hp_mem.more s2 = hp_mem.more s' \<and> live s2 = live s' \<and> (\<forall>k. plenty k s' \<longrightarrow> plenty k s2) \<and> hp_ok X C s2 t (A(ch \<mapsto> w)) R M"
      have "wp (walk b l t at_end no_hp at_item v m ch (last_of (us @ [w])) (link_after (us @ [w]))) Q s2"
      proof (rule Cons.IH [OF conjunct2 [OF conjunct2 [OF conjunct2 [OF s2]]]])
        show "holding A (us @ [w]) ch (A(ch \<mapsto> w))" using a(3) hold(1) by simp
        show "hp_mem.more s2 = D" using s2 a(4) Cons.prems(3) by simp
        show "length ws < m" "card (live s2) + length ws < N" using s2 a(5) Cons.prems(5,6) n by simp_all
        show "list_at s' l L ((us @ [w]) @ ws @ rs)" if "hp_mem.more s' = D" for s' :: "('q, 'u, 'a) csl_mem_scheme"
          using Cons.prems(4) [OF that] by simp
        show "wp (at_item ph pi ch x) Q' s'" if "x \<in> set ws" "hp_mem.more s' = D" "Q' Advance s'" for s' ph pi ch x Q'
          using Cons.prems(9) [of x s' Q'] that by simp
        show "wp (at_end ph (last_of ((us @ [w]) @ ws))) Q s'"
          if "rs = []" "hp_ok X C s' t A'' R M" "holding A ((us @ [w]) @ ws) ph A''" "hp_mem.more s' = D" "card (live s') < N"
            "\<And>k. enough k \<Longrightarrow> plenty k s'" for s' ph A''
          using Cons.prems(10) [OF that(1,2)] that by simp
        show "wp (at_item ph (last_of ((us @ [w]) @ ws)) ch x) (\<lambda>r s''. case r of Advance \<Rightarrow> False | Leave w \<Rightarrow> Q w s'') s'"
          if "rs = x # zs" "hp_ok X C s' t (A''(ch \<mapsto> x)) R M" "A'' ch = None" "ch \<noteq> null"
            "holding A ((us @ [w]) @ ws) ph A''" "hp_mem.more s' = D" "card (live s') \<le> N"
            "\<And>k. enough k \<Longrightarrow> plenty k s'" for s' ph ch A'' x zs
          using Cons.prems(12) [OF that(1,2,3,4)] that by simp
        show "plenty (k + Suc (length ws)) s2" if "enough k" for k using Cons.prems(8) [OF that] a(6) s2 by simp
      qed (rule Cons.prems(7), rule Cons.prems(11))
      then show "wp (walk b l t at_end no_hp at_item v m ch w (Next w)) Q s2" by simp
    qed
    then show "wp (at_item hp (last_of us) ch w) (\<lambda>r s''. case r of Leave w \<Rightarrow> Q w s''
        | Advance \<Rightarrow> wp (call (let_go b t hp) (\<lambda>_. walk b l t at_end no_hp at_item v m ch w (Next w))) Q s'') s'"
      using a(4) Cons.prems(3) by (intro Cons.prems(9)) simp_all
  qed
qed

section \<open>What the caller's functions promise\<close>

text \<open>The comparison of the keys of two items, and of a key with an item's, in a state of the caller.\<close>

definition key_of :: "'u csl_callbacks \<Rightarrow> clds_sorted_list \<Rightarrow> 'u \<Rightarrow> ptr \<Rightarrow> ptr" where
  "key_of K L u x = get_item_key K (get_item_key_cb L) (get_item_key_cb_context L) x u"

definition cmp :: "'u csl_callbacks \<Rightarrow> clds_sorted_list \<Rightarrow> 'u \<Rightarrow> ptr \<Rightarrow> ptr \<Rightarrow> int" where
  "cmp K L u k k' = key_compare K (key_compare_cb L) (key_compare_cb_context L) k k' u"

abbreviation ord :: "'u csl_callbacks \<Rightarrow> clds_sorted_list \<Rightarrow> 'u \<Rightarrow> ptr \<Rightarrow> ptr \<Rightarrow> int" where
  "ord K L u x y \<equiv> cmp K L u (key_of K L u x) (key_of K L u y)"

lemma key_of_head [simp]: "key_of K (L\<lparr>list_head := h\<rparr>) = key_of K L" "key_of K (L\<lparr>pending_write_operations := v\<rparr>) = key_of K L"
    "key_of K (L\<lparr>locked_for_write := v\<rparr>) = key_of K L"
  and cmp_head [simp]: "cmp K (L\<lparr>list_head := h\<rparr>) = cmp K L" "cmp K (L\<lparr>pending_write_operations := v\<rparr>) = cmp K L"
    "cmp K (L\<lparr>locked_for_write := v\<rparr>) = cmp K L"
  by (simp_all add: fun_eq_iff key_of_def cmp_def)

text \<open>
  The comparison orders the keys; cleaning up an item does not touch the keys of other items, and
  the report of a skipped number and the check of a condition touch no keys.
\<close>

definition callbacks_ok :: "'u csl_callbacks \<Rightarrow> bool" where
  "callbacks_ok K \<longleftrightarrow>
     (\<forall>L u k k'. sgn (cmp K L u k' k) = - sgn (cmp K L u k k')) \<and>
     (\<forall>L u k k' k''. cmp K L u k k' \<le> 0 \<longrightarrow> cmp K L u k' k'' \<le> 0 \<longrightarrow> cmp K L u k k'' \<le> 0) \<and>
     (\<forall>L u f c x y z. x \<noteq> z \<longrightarrow> y \<noteq> z \<longrightarrow> ord K L (item_cleanup K f c z u) x y = ord K L u x y) \<and>
     (\<forall>L u f c v x y. ord K L (skipped_seq_no K f c v u) x y = ord K L u x y) \<and>
     (\<forall>L u f c k k' x y. ord K L (snd (condition_check K f c k k' u)) x y = ord K L u x y)"

lemma cmp_sym: "callbacks_ok K \<Longrightarrow> sgn (cmp K L u k' k) = - sgn (cmp K L u k k')"
  by (rule callbacks_ok_def [THEN iffD1, THEN conjunct1, rule_format])

lemma cmp_trans: "callbacks_ok K \<Longrightarrow> cmp K L u k k' \<le> 0 \<Longrightarrow> cmp K L u k' k'' \<le> 0 \<Longrightarrow> cmp K L u k k'' \<le> 0"
  by (rule callbacks_ok_def [THEN iffD1, THEN conjunct2, THEN conjunct1, rule_format])

lemma ord_cleanup: "callbacks_ok K \<Longrightarrow> x \<noteq> z \<Longrightarrow> y \<noteq> z \<Longrightarrow> ord K L (item_cleanup K f c z u) x y = ord K L u x y"
  by (rule callbacks_ok_def [THEN iffD1, THEN conjunct2, THEN conjunct2, THEN conjunct1, rule_format])

lemma ord_skipped: "callbacks_ok K \<Longrightarrow> ord K L (skipped_seq_no K f c v u) x y = ord K L u x y"
  by (rule callbacks_ok_def [THEN iffD1, THEN conjunct2, THEN conjunct2, THEN conjunct2, THEN conjunct1, rule_format])

lemma ord_condition: "callbacks_ok K \<Longrightarrow> ord K L (snd (condition_check K f c k k' u)) x y = ord K L u x y"
  by (rule callbacks_ok_def [THEN iffD1, THEN conjunct2, THEN conjunct2, THEN conjunct2, THEN conjunct2, rule_format])

lemma cmp_flip:
  assumes "callbacks_ok K"
  shows "cmp K L u k k' < 0 \<longleftrightarrow> 0 < cmp K L u k' k" "cmp K L u k k' = 0 \<longleftrightarrow> cmp K L u k' k = 0"
    "cmp K L u k k' \<le> 0 \<longleftrightarrow> 0 \<le> cmp K L u k' k"
  using cmp_sym [OF assms, of L u k' k] by (auto simp: sgn_if split: if_splits)

lemma cmp_refl: "callbacks_ok K \<Longrightarrow> cmp K L u k k = 0"
  using cmp_flip(1) [of K L u k k] by (cases "cmp K L u k k" "0 :: int" rule: linorder_cases) simp_all

lemma cmp_less_trans:
  assumes "callbacks_ok K" and "cmp K L u k k' < 0" and "cmp K L u k' k'' \<le> 0"
  shows "cmp K L u k k'' < 0"
proof (rule ccontr)
  assume "\<not> cmp K L u k k'' < 0"
  then have "cmp K L u k'' k \<le> 0" using cmp_flip(3) [OF assms(1)] by auto
  then have "cmp K L u k' k \<le> 0" using cmp_trans [OF assms(1)] assms(3) by blast
  then show False using assms(2) cmp_flip(3) [OF assms(1)] by (meson not_le)
qed

section \<open>The list with its references\<close>

definition refs :: "('q, 'u, 'a) csl_mem_scheme \<Rightarrow> ptr \<Rightarrow> nat" where
  "refs s x = (case csl_items s x of None \<Rightarrow> 0 | Some I \<Rightarrow> unat (ref_count I))"

text \<open>
  A list among others: the struct \<open>L\<close> (up to its head) is at \<open>l\<close>, and the items \<open>xs\<close> are in strictly
  increasing order of their keys. What the operations on one list must leave alone is kept in a
  record: the other lists, the other objects of the client, and the rest of the memory.
\<close>

definition sorted_list_at :: "'u csl_callbacks \<Rightarrow> ptr \<Rightarrow> clds_sorted_list \<Rightarrow> ptr list \<Rightarrow> ptr set \<Rightarrow> ('q, 'u, 'a) csl_mem_scheme \<Rightarrow> bool" where
  "sorted_list_at K l L xs M s \<longleftrightarrow> list_at s l L xs \<and> l \<noteq> null \<and> l \<in> M \<and> csl_items s l = None \<and>
     sorted_wrt (\<lambda>x y. ord K L (user s) x y < 0) xs"

record 'a others =
  other_lists :: "(ptr \<times> clds_sorted_list \<times> ptr list) list"
  other_objects :: "ptr set"
  other_memory :: 'a

definition listed :: "'a others \<Rightarrow> ptr \<Rightarrow> nat" where
  "listed Os x = length (filter (\<lambda>(l, L, xs). x \<in> set xs) (other_lists Os))"

definition others_ok :: "'u csl_callbacks \<Rightarrow> 'a others \<Rightarrow> ptr \<Rightarrow> ptr list \<Rightarrow> ptr set \<Rightarrow> ('q, 'u, 'a) csl_mem_scheme \<Rightarrow> bool" where
  "others_ok K Os l xs M s \<longleftrightarrow> distinct (map fst (other_lists Os)) \<and> (\<forall>x. of_bool (x \<in> set xs) + listed Os x \<le> 1) \<and>
     (\<forall>(l', L', xs') \<in> set (other_lists Os). l' \<noteq> l \<and> sorted_list_at K l' L' xs' M s) \<and>
     (\<forall>p \<in> other_objects Os. p \<noteq> l \<and> p \<notin> fst ` set (other_lists Os) \<and> p \<in> M \<and> csl_items s p = None) \<and>
     csl_mem.more s = other_memory Os"

lemma listed_pos: "(l', L', xs') \<in> set (other_lists Os) \<Longrightarrow> x \<in> set xs' \<Longrightarrow> 0 < listed Os x"
  by (auto simp: listed_def filter_empty_conv)

lemma others_ok_kept:
  assumes ok: "others_ok K Os l xs M s" and sub: "\<And>x. x \<in> set xs' \<Longrightarrow> x \<in> set xs \<or> listed Os x = 0"
    and lists: "\<And>l'. l' \<noteq> l \<Longrightarrow> csl_lists s' l' = csl_lists s l'"
    and items: "\<And>x. 0 < listed Os x \<Longrightarrow> itm_next s' x = itm_next s x"
    and objects: "\<And>p. p \<in> M \<Longrightarrow> csl_items s p = None \<Longrightarrow> p \<in> M' \<and> csl_items s' p = None"
    and ord: "\<And>L x y. 0 < listed Os x \<Longrightarrow> 0 < listed Os y \<Longrightarrow> ord K L (user s') x y = ord K L (user s) x y"
    and more: "csl_mem.more s' = csl_mem.more s"
  shows "others_ok K Os l xs' M' s'"
proof -
  have "sorted_list_at K l' L' ys M' s'" if o: "(l', L', ys) \<in> set (other_lists Os)" for l' L' ys
  proof -
    have at: "l' \<noteq> l" "sorted_list_at K l' L' ys M s" using ok o unfolding others_ok_def by blast+
    note pos = listed_pos [OF o]
    have "list_at s' l' L' ys = list_at s l' L' ys"
      by (rule list_at_cong) (use at(1) lists items pos in simp_all)
    moreover have "sorted_wrt (\<lambda>x y. ord K L' (user s') x y < 0) ys"
      by (rule sorted_wrt_mono_rel [where P = "\<lambda>x y. ord K L' (user s) x y < 0"]) (use at ord pos in \<open>auto simp: sorted_list_at_def\<close>)
    ultimately show ?thesis using at(2) objects [of l'] by (simp add: sorted_list_at_def)
  qed
  moreover have "of_bool (x \<in> set xs') + listed Os x \<le> 1" for x
  proof -
    have "of_bool (x \<in> set xs) + listed Os x \<le> 1" using ok unfolding others_ok_def by blast
    then show ?thesis using sub [of x] by (cases "x \<in> set xs'"; cases "x \<in> set xs") simp_all
  qed
  ultimately show ?thesis using ok objects more unfolding others_ok_def by auto
qed

lemma others_ok_not_listed: "others_ok K Os l xs M s \<Longrightarrow> x \<in> set xs \<Longrightarrow> listed Os x = 0"
proof -
  assume "others_ok K Os l xs M s" and x: "x \<in> set xs"
  then have "of_bool (x \<in> set xs) + listed Os x \<le> 1" unfolding others_ok_def by blast
  with x show ?thesis by simp
qed

text \<open>
  \<open>csl_ok Os K l L xs U R M s\<close>: at \<open>l\<close> is a list with the struct \<open>L\<close> and the items \<open>xs\<close>, next to \<open>Os\<close>.
  Every item has at least the references that are accounted for: one for the list that it is in,
  one for each reclaim call owed, and \<open>U x\<close> of others.
\<close>

definition csl_ok :: "'a others \<Rightarrow> 'u csl_callbacks \<Rightarrow> ptr \<Rightarrow> clds_sorted_list \<Rightarrow> ptr list \<Rightarrow> (ptr \<Rightarrow> nat) \<Rightarrow> (ptr \<times> ptr) multiset \<Rightarrow>
    ptr set \<Rightarrow> ('q, 'u, 'a) csl_mem_scheme \<Rightarrow> bool" where
  "csl_ok Os K l L xs U R M s \<longleftrightarrow> sorted_list_at K l L xs M s \<and> others_ok K Os l xs M s \<and>
     (\<forall>x \<in> dom (csl_items s). x \<noteq> null \<and> aligned x \<and> x \<in> M \<and> 0 < refs s x) \<and>
     (\<forall>x. of_bool (x \<in> set xs) + listed Os x + count R (reclaim_list_node_function K, x) + U x \<le> refs s x) \<and>
     (\<forall>r \<in># R. fst r = reclaim_list_node_function K)"

lemma csl_okI:
  assumes "list_at s l L xs" "l \<noteq> null" "l \<in> M" "csl_items s l = None" "sorted_wrt (\<lambda>x y. ord K L (user s) x y < 0) xs"
    "others_ok K Os l xs M s" "\<And>x. x \<in> dom (csl_items s) \<Longrightarrow> x \<noteq> null \<and> aligned x \<and> x \<in> M \<and> 0 < refs s x"
    "\<And>x. of_bool (x \<in> set xs) + listed Os x + count R (reclaim_list_node_function K, x) + U x \<le> refs s x"
    "\<And>r. r \<in># R \<Longrightarrow> fst r = reclaim_list_node_function K"
  shows "csl_ok Os K l L xs U R M s"
  using assms unfolding csl_ok_def sorted_list_at_def by blast

lemma csl_okD:
  assumes "csl_ok Os K l L xs U R M s"
  shows "list_at s l L xs" "l \<noteq> null" "l \<in> M" "csl_items s l = None" "sorted_wrt (\<lambda>x y. ord K L (user s) x y < 0) xs"
    "of_bool (x \<in> set xs) + listed Os x + count R (reclaim_list_node_function K, x) + U x \<le> refs s x"
    "csl_items s x = Some I \<Longrightarrow> x \<noteq> null \<and> aligned x \<and> x \<in> M \<and> 0 < refs s x"
    "(f, n) \<in># R \<Longrightarrow> f = reclaim_list_node_function K"
    "csl_lists s l = Some (L\<lparr>list_head := first_of xs\<rparr>)"
    "others_ok K Os l xs M s" "x \<in> set xs \<Longrightarrow> listed Os x = 0"
    "r \<in># R \<Longrightarrow> fst r = reclaim_list_node_function K"
    "csl_mem.more s = other_memory Os"
proof -
  have o: "others_ok K Os l xs M s" and a: "sorted_list_at K l L xs M s" using assms by (simp_all add: csl_ok_def)
  show "others_ok K Os l xs M s" by (rule o)
  show "list_at s l L xs" "l \<noteq> null" "l \<in> M" "csl_items s l = None" "sorted_wrt (\<lambda>x y. ord K L (user s) x y < 0) xs"
    "csl_lists s l = Some (L\<lparr>list_head := first_of xs\<rparr>)"
    using a by (simp_all add: sorted_list_at_def list_at_def)
  show "x \<in> set xs \<Longrightarrow> listed Os x = 0" using o by (rule others_ok_not_listed)
  show "csl_mem.more s = other_memory Os" using o by (simp add: others_ok_def)
  show "r \<in># R \<Longrightarrow> fst r = reclaim_list_node_function K" "(f, n) \<in># R \<Longrightarrow> f = reclaim_list_node_function K"
    using assms by (auto simp: csl_ok_def)
  show "csl_items s x = Some I \<Longrightarrow> x \<noteq> null \<and> aligned x \<and> x \<in> M \<and> 0 < refs s x" using assms by (auto simp: csl_ok_def)
  show "of_bool (x \<in> set xs) + listed Os x + count R (reclaim_list_node_function K, x) + U x \<le> refs s x"
    using assms unfolding csl_ok_def by blast
qed

text \<open>The same with no list singled out.\<close>

definition lists_ok :: "'a others \<Rightarrow> 'u csl_callbacks \<Rightarrow> (ptr \<Rightarrow> nat) \<Rightarrow> (ptr \<times> ptr) multiset \<Rightarrow> ptr set \<Rightarrow>
    ('q, 'u, 'a) csl_mem_scheme \<Rightarrow> bool" where
  "lists_ok Os K U R M s \<longleftrightarrow> distinct (map fst (other_lists Os)) \<and> (\<forall>x. listed Os x \<le> 1) \<and>
     (\<forall>(l, L, xs) \<in> set (other_lists Os). sorted_list_at K l L xs M s) \<and>
     (\<forall>p \<in> other_objects Os. p \<notin> fst ` set (other_lists Os) \<and> p \<in> M \<and> csl_items s p = None) \<and> csl_mem.more s = other_memory Os \<and>
     (\<forall>x \<in> dom (csl_items s). x \<noteq> null \<and> aligned x \<and> x \<in> M \<and> 0 < refs s x) \<and>
     (\<forall>x. listed Os x + count R (reclaim_list_node_function K, x) + U x \<le> refs s x) \<and>
     (\<forall>r \<in># R. fst r = reclaim_list_node_function K)"

definition with_list :: "ptr \<times> clds_sorted_list \<times> ptr list \<Rightarrow> 'a others \<Rightarrow> 'a others" where
  "with_list t Os = Os\<lparr>other_lists := t # other_lists Os\<rparr>"

lemma listed_with_list [simp]: "listed (with_list (l, L, xs) Os) x = of_bool (x \<in> set xs) + listed Os x"
  by (simp add: with_list_def listed_def)

lemma with_list_fields [simp]:
  "other_lists (with_list t Os) = t # other_lists Os" "other_objects (with_list t Os) = other_objects Os"
  "other_memory (with_list t Os) = other_memory Os"
  by (simp_all add: with_list_def)

lemma csl_ok_lists: "csl_ok Os K l L xs U R M s \<longleftrightarrow> lists_ok (with_list (l, L, xs) Os) K U R M s"
proof
  {
    assume ok: "csl_ok Os K l L xs U R M s"
    have at: "sorted_list_at K l L xs M s" using ok by (simp only: csl_ok_def)
    have o: "others_ok K Os l xs M s" using ok by (simp only: csl_ok_def)
    have o1: "distinct (map fst (other_lists Os))" "\<And>x. of_bool (x \<in> set xs) + listed Os x \<le> 1" "csl_mem.more s = other_memory Os"
      and o2: "\<And>l' L' xs'. (l', L', xs') \<in> set (other_lists Os) \<Longrightarrow> l' \<noteq> l \<and> sorted_list_at K l' L' xs' M s"
      and o3: "\<And>p. p \<in> other_objects Os \<Longrightarrow> p \<noteq> l \<and> p \<notin> fst ` set (other_lists Os) \<and> p \<in> M \<and> csl_items s p = None"
      using o unfolding others_ok_def by blast+
    have "l \<notin> fst ` set (other_lists Os)" using o2 by force
    then show "lists_ok (with_list (l, L, xs) Os) K U R M s"
      using ok at o1 o2 o3 unfolding lists_ok_def csl_ok_def listed_with_list by (simp add: case_prod_beta)
  next
    assume ok: "lists_ok (with_list (l, L, xs) Os) K U R M s"
    have d: "l \<notin> fst ` set (other_lists Os)" "distinct (map fst (other_lists Os))" "\<And>x. of_bool (x \<in> set xs) + listed Os x \<le> 1"
      "csl_mem.more s = other_memory Os" "sorted_list_at K l L xs M s"
      using ok unfolding lists_ok_def listed_with_list by simp_all
    have "l' \<noteq> l \<and> sorted_list_at K l' L' xs' M s" if o: "(l', L', xs') \<in> set (other_lists Os)" for l' L' xs'
    proof
      have "l' \<in> fst ` set (other_lists Os)" using imageI [OF o, of fst] by simp
      then show "l' \<noteq> l" using d(1) by blast
      have "\<forall>(l', L', xs') \<in> set (other_lists (with_list (l, L, xs) Os)). sorted_list_at K l' L' xs' M s"
        using ok unfolding lists_ok_def by (elim conjE)
      from bspec [OF this, of "(l', L', xs')"] o show "sorted_list_at K l' L' xs' M s" by simp
    qed
    moreover have "p \<noteq> l \<and> p \<notin> fst ` set (other_lists Os) \<and> p \<in> M \<and> csl_items s p = None" if "p \<in> other_objects Os" for p
      using ok that unfolding lists_ok_def by simp
    ultimately have "others_ok K Os l xs M s" using d unfolding others_ok_def by blast
    then show "csl_ok Os K l L xs U R M s"
      using ok d(5) unfolding csl_ok_def lists_ok_def listed_with_list by simp
  }
qed

lemma lists_okD:
  assumes "lists_ok Os K U R M s"
  shows "(l, L, xs) \<in> set (other_lists Os) \<Longrightarrow> sorted_list_at K l L xs M s"
    "listed Os x + count R (reclaim_list_node_function K, x) + U x \<le> refs s x"
    "csl_items s x = Some I \<Longrightarrow> x \<noteq> null \<and> aligned x \<and> x \<in> M \<and> 0 < refs s x"
    "r \<in># R \<Longrightarrow> fst r = reclaim_list_node_function K"
    "p \<in> other_objects Os \<Longrightarrow> p \<notin> fst ` set (other_lists Os) \<and> p \<in> M \<and> csl_items s p = None" "csl_mem.more s = other_memory Os"
    "distinct (map fst (other_lists Os))" "listed Os x \<le> 1"
  using assms unfolding lists_ok_def by auto

text \<open>A step that leaves the links of the lists alone.\<close>

lemma lists_ok_step:
  assumes ok: "lists_ok Os K U R M s" and lists: "\<And>l. l \<in> fst ` set (other_lists Os) \<Longrightarrow> csl_lists s' l = csl_lists s l"
    and more: "csl_mem.more s' = csl_mem.more s"
    and items: "\<And>x. 0 < listed Os x \<Longrightarrow> itm_next s' x = itm_next s x"
    and objects: "\<And>p. p \<in> other_objects Os \<union> fst ` set (other_lists Os) \<Longrightarrow> p \<in> M \<Longrightarrow> csl_items s p = None \<Longrightarrow>
        p \<in> M' \<and> csl_items s' p = None"
    and ord: "\<And>L x y. 0 < listed Os x \<Longrightarrow> 0 < listed Os y \<Longrightarrow> ord K L (user s') x y = ord K L (user s) x y"
    and nodes: "\<And>x. x \<in> dom (csl_items s') \<Longrightarrow> x \<noteq> null \<and> aligned x \<and> x \<in> M' \<and> 0 < refs s' x"
    and account: "\<And>x. listed Os x + count R' (reclaim_list_node_function K, x) + U' x \<le> refs s' x"
    and owed: "\<And>r. r \<in># R' \<Longrightarrow> fst r = reclaim_list_node_function K"
  shows "lists_ok Os K U' R' M' s'"
proof -
  have at: "sorted_list_at K l L xs M' s'" if o: "(l, L, xs) \<in> set (other_lists Os)" for l L xs
  proof -
    note at = lists_okD(1) [OF ok o] and pos = listed_pos [OF o]
    have "csl_lists s' l = csl_lists s l" by (rule lists) (use o in force)
    then have "list_at s' l L xs = list_at s l L xs" by (rule list_at_cong) (use items pos in simp)
    moreover have "sorted_wrt (\<lambda>x y. ord K L (user s') x y < 0) xs"
      by (rule sorted_wrt_mono_rel [where P = "\<lambda>x y. ord K L (user s) x y < 0"]) (use at ord pos in \<open>auto simp: sorted_list_at_def\<close>)
    ultimately show ?thesis using at objects [of l] o by (force simp: sorted_list_at_def)
  qed
  have "p \<in> M' \<and> csl_items s' p = None" if "p \<in> other_objects Os" for p using lists_okD(5) [OF ok that] objects that by blast
  with at ok nodes account owed more show ?thesis unfolding lists_ok_def by auto
qed

lemma lists_ok_step_dom:
  assumes ok: "lists_ok Os K U R M s" and lists: "csl_lists s' = csl_lists s"
    and more: "csl_mem.more s' = csl_mem.more s"
    and items: "\<And>x. 0 < listed Os x \<Longrightarrow> itm_next s' x = itm_next s x"
    and dom: "dom (csl_items s') \<subseteq> dom (csl_items s)"
    and M': "\<And>p. p \<in> M \<Longrightarrow> csl_items s p = None \<or> csl_items s' p \<noteq> None \<Longrightarrow> p \<in> M'"
    and ord: "\<And>L x y. 0 < listed Os x \<Longrightarrow> 0 < listed Os y \<Longrightarrow> ord K L (user s') x y = ord K L (user s) x y"
    and pos: "\<And>x. x \<in> dom (csl_items s') \<Longrightarrow> 0 < refs s' x"
    and account: "\<And>x. listed Os x + count R' (reclaim_list_node_function K, x) + U' x \<le> refs s' x"
    and owed: "\<And>r. r \<in># R' \<Longrightarrow> fst r = reclaim_list_node_function K"
  shows "lists_ok Os K U' R' M' s'"
proof (rule lists_ok_step [OF ok])
  fix x assume x: "x \<in> dom (csl_items s')"
  then obtain I where "csl_items s x = Some I" using dom by blast
  with lists_okD(3) [OF ok this] x M' [of x] pos [of x] show "x \<noteq> null \<and> aligned x \<and> x \<in> M' \<and> 0 < refs s' x" by auto
qed (use lists more items dom M' ord account owed in auto)

lemma csl_ok_step:
  assumes ok: "csl_ok Os K l L xs U R M s" and lists: "csl_lists s' = csl_lists s" and more: "csl_mem.more s' = csl_mem.more s"
    and items: "\<And>x. 0 < of_bool (x \<in> set xs) + listed Os x \<Longrightarrow> itm_next s' x = itm_next s x"
    and dom: "dom (csl_items s') \<subseteq> dom (csl_items s)"
    and M': "\<And>p. p \<in> M \<Longrightarrow> csl_items s p = None \<or> csl_items s' p \<noteq> None \<Longrightarrow> p \<in> M'"
    and ord: "\<And>L x y. 0 < of_bool (x \<in> set xs) + listed Os x \<Longrightarrow> 0 < of_bool (y \<in> set xs) + listed Os y \<Longrightarrow>
        ord K L (user s') x y = ord K L (user s) x y"
    and pos: "\<And>x. x \<in> dom (csl_items s') \<Longrightarrow> 0 < refs s' x"
    and account: "\<And>x. of_bool (x \<in> set xs) + listed Os x + count R' (reclaim_list_node_function K, x) + U' x \<le> refs s' x"
    and owed: "\<And>r. r \<in># R' \<Longrightarrow> fst r = reclaim_list_node_function K"
  shows "csl_ok Os K l L xs U' R' M' s'"
  unfolding csl_ok_lists
proof (rule lists_ok_step_dom [OF ok [unfolded csl_ok_lists] lists more], unfold listed_with_list)
  show "of_bool (x \<in> set xs) + listed Os x + count R' (reclaim_list_node_function K, x) + U' x \<le> refs s' x" for x by (rule account)
  show "ord K L (user s') x y = ord K L (user s) x y"
    if "0 < of_bool (x \<in> set xs) + listed Os x" "0 < of_bool (y \<in> set xs) + listed Os y" for L x y by (rule ord [OF that])
qed (fact items dom M' pos owed)+

text \<open>The caller's state has changed by clean-up calls only.\<close>

definition cleanups :: "'u csl_callbacks \<Rightarrow> 'u \<Rightarrow> 'u \<Rightarrow> bool" where
  "cleanups K u u' \<longleftrightarrow> (\<exists>cs. u' = fold (\<lambda>(f, c, x). item_cleanup K f c x) cs u)"

lemma cleanups_refl [simp]: "cleanups K u u"
  unfolding cleanups_def by (rule exI [of _ "[]"]) simp

lemma cleanups_step: "cleanups K u u' \<Longrightarrow> cleanups K u (item_cleanup K f c x u')"
  unfolding cleanups_def by (elim exE) (rule_tac x = "cs @ [(f, c, x)]" in exI, simp)

lemma cleanups_trans: "cleanups K u u' \<Longrightarrow> cleanups K u' u'' \<Longrightarrow> cleanups K u u''"
  unfolding cleanups_def by (elim exE) (rule_tac x = "cs @ csa" in exI, simp)

lemma refs_cong: "csl_items s' x = csl_items s x \<Longrightarrow> refs s' x = refs s x"
  by (simp add: refs_def)

lemma csl_ok_cong:
  assumes ok: "csl_ok Os K l L xs U R M s" and same: "csl_items s' = csl_items s" "csl_lists s' = csl_lists s" "user s' = user s"
    "csl_mem.more s' = csl_mem.more s"
  shows "csl_ok Os K l L xs U R M s'"
proof -
  have "refs s' = refs s" using same(1) by (simp add: fun_eq_iff refs_def)
  moreover have "list_at s' l L xs = list_at s l L xs" using same(1,2) by (simp add: list_at_def)
  moreover have "others_ok K Os l xs M s'" by (rule others_ok_kept [OF csl_okD(10) [OF ok]]) (use same in simp_all)
  ultimately show ?thesis using ok same by (simp add: csl_ok_def sorted_list_at_def)
qed

lemma csl_ok_more: "csl_ok Os K l L xs U R M s \<Longrightarrow> hp_mem.more s' = hp_mem.more s \<Longrightarrow> csl_ok Os K l L xs U R M s'"
  by (erule csl_ok_cong; erule csl_moreD csl_moreD_rest)

lemma csl_ok_weaken:
  assumes ok: "csl_ok Os K l L xs U R M s" and "R' \<subseteq># R" and "\<And>x. U' x \<le> U x"
  shows "csl_ok Os K l L xs U' R' M s"
proof -
  have "of_bool (x \<in> set xs) + listed Os x + count R' (reclaim_list_node_function K, x) + U' x \<le> refs s x" for x
    using csl_okD(6) [OF ok, of x] mset_subset_eq_count [OF assms(2), of "(reclaim_list_node_function K, x)"] assms(3) [of x] by linarith
  moreover have "\<forall>r \<in># R'. fst r = reclaim_list_node_function K"
    using csl_okD(12) [OF ok] mset_subset_eqD [OF assms(2)] by blast
  ultimately show ?thesis using ok by (simp add: csl_ok_def)
qed

lemma csl_ok_accounted:
  assumes "csl_ok Os K l L xs U R M s" and "0 < of_bool (x \<in> set xs) + listed Os x + count R (reclaim_list_node_function K, x) + U x"
  obtains I where "csl_items s x = Some I" "x \<noteq> null" "aligned x" "x \<in> M" "refs s x = unat (ref_count I)" "0 < refs s x"
proof -
  have "0 < refs s x" using csl_okD(6) [OF assms(1), of x] assms(2) by linarith
  then obtain I where "csl_items s x = Some I" "refs s x = unat (ref_count I)" by (auto simp: refs_def split: option.splits)
  with csl_okD(7) [OF assms(1) this(1)] show ?thesis by (auto intro: that)
qed

section \<open>Giving up a reference\<close>

text \<open>The reference that is given up at \<open>x\<close> is one of those accounted for: a reclaim call or one of \<open>U\<close>.\<close>

lemma lists_ok_dropped:
  assumes ok: "lists_ok Os K U R M s" and sub: "R' \<subseteq># R" and le: "\<And>y. U' y \<le> U y"
    and slack: "count R' (reclaim_list_node_function K, x) + U' x < count R (reclaim_list_node_function K, x) + U x"
    and I: "csl_items s x = Some I" and items: "csl_items s' = (csl_items s)(x \<mapsto> I\<lparr>ref_count := ref_count I - 1\<rparr>)"
    and rest: "csl_lists s' = csl_lists s" "user s' = user s" "csl_mem.more s' = csl_mem.more s" and more: "ref_count I \<noteq> 1"
  shows "lists_ok Os K U' R' M s'" and "refs s' = (refs s)(x := refs s x - 1)"
proof -
  have pos: "1 < unat (ref_count I)"
  proof -
    have "ref_count I = 1" if "unat (ref_count I) = 1"
      using that by (metis unat_1 unsigned_word_eqI)
    then show ?thesis using lists_okD(3) [OF ok I] I more by (force simp: refs_def)
  qed
  have one: "unat (ref_count I - 1) = unat (ref_count I) - 1"
    using pos by (intro unat_minus_one) auto
  show r: "refs s' = (refs s)(x := refs s x - 1)"
    using items I one by (simp add: fun_eq_iff refs_def)
  show "lists_ok Os K U' R' M s'"
  proof (rule lists_ok_step_dom [OF ok])
    show "listed Os y + count R' (reclaim_list_node_function K, y) + U' y \<le> refs s' y" for y
      using lists_okD(2) [OF ok, of y] mset_subset_eq_count [OF sub, of "(reclaim_list_node_function K, y)"] le [of y] slack
      by (auto simp: r)
    show "0 < refs s' y" if "y \<in> dom (csl_items s')" for y
      using lists_okD(3) [OF ok, of y] that pos I items by (auto simp: r refs_def split: if_splits)
  qed (use I items rest lists_okD(4) [OF ok] mset_subset_eqD [OF sub] in auto)
qed

lemma lists_ok_freed:
  assumes ok: "lists_ok Os K U R M s" and sub: "R' \<subseteq># R" and le: "\<And>y. U' y \<le> U y"
    and slack: "count R' (reclaim_list_node_function K, x) + U' x < count R (reclaim_list_node_function K, x) + U x"
    and I: "csl_items s x = Some I" and items: "csl_items s' = (csl_items s)(x := None)"
    and rest: "csl_lists s' = csl_lists s" "csl_mem.more s' = csl_mem.more s" and last: "ref_count I = 1"
    and ord: "\<And>L y z. y \<noteq> x \<Longrightarrow> z \<noteq> x \<Longrightarrow> ord K L (user s') y z = ord K L (user s) y z"
  shows "lists_ok Os K U' R' (M - {x}) s'" and "refs s' = (refs s)(x := refs s x - 1)" and "listed Os x = 0"
proof -
  have "refs s x = 1" using I last by (simp add: refs_def)
  then have x: "listed Os x = 0" using lists_okD(2) [OF ok, of x] slack by linarith
  then show "listed Os x = 0" .
  show r: "refs s' = (refs s)(x := refs s x - 1)"
    using items I last by (simp add: fun_eq_iff refs_def)
  show "lists_ok Os K U' R' (M - {x}) s'"
  proof (rule lists_ok_step_dom [OF ok])
    show "listed Os y + count R' (reclaim_list_node_function K, y) + U' y \<le> refs s' y" for y
      using lists_okD(2) [OF ok, of y] mset_subset_eq_count [OF sub, of "(reclaim_list_node_function K, y)"] le [of y] slack
      by (auto simp: r)
    show "0 < refs s' y" if "y \<in> dom (csl_items s')" for y
      using lists_okD(3) [OF ok] that by (auto simp: r items split: if_splits)
    show "ord K L (user s') y z = ord K L (user s) y z"
      if "0 < listed Os y" "0 < listed Os z" for L y z
      by (rule ord) (use that x in \<open>auto split: if_splits\<close>)
    show "itm_next s' y = itm_next s y" if "0 < listed Os y" for y
      using that x items by auto
  qed (use I items rest lists_okD(4) [OF ok] mset_subset_eqD [OF sub] in auto)
qed

lemma wp_internal_node_destroy:
  assumes ok: "lists_ok Os K U R M s" and cb: "callbacks_ok K" and M: "M \<subseteq> live s" and sub: "R' \<subseteq># R"
    and le: "\<And>y. U' y \<le> U y"
    and slack: "count R' (reclaim_list_node_function K, x) + U' x < count R (reclaim_list_node_function K, x) + U x"
  shows "wp (internal_node_destroy K x) (\<lambda>_ s'. \<exists>M'. client_step M M' s s' \<and> lists_ok Os K U' R' M' s' \<and> words s' = words s \<and>
      cleanups K (user s) (user s') \<and> refs s' = (refs s)(x := refs s x - 1) \<and> csl_lists s' = csl_lists s \<and>
      (\<forall>y. y \<noteq> x \<longrightarrow> csl_items s' y = csl_items s y)) s"
proof -
  obtain I where I: "csl_items s x = Some I" "x \<noteq> null" "x \<in> M"
  proof -
    have "0 < refs s x" using lists_okD(2) [OF ok, of x] slack by linarith
    then obtain I where "csl_items s x = Some I" by (auto simp: refs_def split: option.splits)
    with lists_okD(3) [OF ok this] that show thesis by blast
  qed
  show ?thesis
  proof (cases "ref_count I = 1")
    case False
    define s' where "s' = s\<lparr>csl_items := (csl_items s)(x \<mapsto> I\<lparr>ref_count := ref_count I - 1\<rparr>)\<rparr>"
    have "lists_ok Os K U' R' M s'" "refs s' = (refs s)(x := refs s x - 1)"
      by (rule lists_ok_dropped [OF ok sub le slack I(1) _ _ _ _ False]; simp add: s'_def)+
    moreover have "client_step M M s s'" using M by (simp add: client_step_def same_hp_def s'_def)
    ultimately show ?thesis
      using I(1) False unfolding internal_node_destroy_def
      by (auto simp: wp_simps access_kinds s'_def intro!: exI [of _ M])
  next
    case True
    define Q where "Q = (\<lambda>s'. \<exists>M'. client_step M M' s s' \<and> lists_ok Os K U' R' M' s' \<and> words s' = words s \<and>
        cleanups K (user s) (user s') \<and> refs s' = (refs s)(x := refs s x - 1) \<and> csl_lists s' = csl_lists s \<and>
      (\<forall>y. y \<noteq> x \<longrightarrow> csl_items s' y = csl_items s y))"
    have goal: "Q s'"
      if s': "csl_items s' = (csl_items s)(x := None)" "csl_lists s' = csl_lists s" "words s' = words s" "live s' = live s - {x}"
        "same_hp s s'" "st_sets s' = st_sets s" "st_arrays s' = st_arrays s" "st_items s' = st_items s" "csl_mem.more s' = csl_mem.more s"
        and u: "user s' = user s \<or> (\<exists>f c. user s' = item_cleanup K f c x (user s))" for s'
      unfolding Q_def
    proof (intro exI [of _ "M - {x}"] conjI)
      have "ord K L (user s') y z = ord K L (user s) y z" if "y \<noteq> x" "z \<noteq> x" for L y z
        using u that by (auto simp: ord_cleanup [OF cb])
      from lists_ok_freed [OF ok sub le slack I(1) s'(1,2,9) True this]
      show "lists_ok Os K U' R' (M - {x}) s'" "refs s' = (refs s)(x := refs s x - 1)" by simp_all
      show "client_step M (M - {x}) s s'" using M I(3) s' by (auto simp: client_step_def)
      show "cleanups K (user s) (user s')" using u cleanups_step [OF cleanups_refl] by auto
      show "words s' = words s" "csl_lists s' = csl_lists s" by (rule s')+
      show "\<forall>y. y \<noteq> x \<longrightarrow> csl_items s' y = csl_items s y" using s'(1) by simp
    qed
    have "x \<in> live s" using I(3) M by blast
    then have "wp (internal_node_destroy K x) (\<lambda>_. Q) s"
      unfolding internal_node_destroy_def using I(1,2) True
      by (auto simp: wp_simps access_kinds notify_def Let_def same_hp_def intro!: goal) blast
    then show ?thesis by (simp add: Q_def)
  qed
qed

text \<open>The reclaim function keeps the list as it is and gives up the reference of the call.\<close>

definition reclaim_inv :: "'a others \<Rightarrow> 'u csl_callbacks \<Rightarrow> ptr \<Rightarrow> clds_sorted_list \<Rightarrow> ptr list \<Rightarrow> (ptr \<Rightarrow> nat) \<Rightarrow> (ptr \<Rightarrow> 64 word option) \<Rightarrow> 'u \<Rightarrow>
    (ptr \<times> ptr) multiset \<Rightarrow> ptr set \<Rightarrow> ('q, 'u, 'a) csl_mem_scheme \<Rightarrow> bool" where
  "reclaim_inv Os K l L xs U W u R M s \<longleftrightarrow> csl_ok Os K l L xs U R M s \<and> words s = W \<and> cleanups K u (user s)"

lemma wp_list_reclaim:
  fixes s :: "('q, 'u, 'a) csl_mem_scheme"
  assumes cb: "callbacks_ok K" and r: "(f, n) \<in># R" and M: "M \<subseteq> live s" and inv: "reclaim_inv Os K l L xs U W u R M s"
  shows "wp (list_reclaim K f n) (\<lambda>_ s'. \<exists>M'. client_step M M' s s' \<and> reclaim_inv Os K l L xs U W u (R - {#(f, n)#}) M' s' \<and>
      refs s' = (refs s)(n := refs s n - 1)) s"
proof -
  have ok: "csl_ok Os K l L xs U R M s" using inv by (simp add: reclaim_inv_def)
  have f: "f = reclaim_list_node_function K" by (rule csl_okD(8) [OF ok r])
  show ?thesis
    unfolding list_reclaim_def reclaim_list_node_def using f
    by (simp, intro wp_mono [OF wp_internal_node_destroy [OF ok [unfolded csl_ok_lists] cb M, of "R - {#(f, n)#}" U n]])
      (use r inv in \<open>auto simp: reclaim_inv_def csl_ok_lists intro: cleanups_trans\<close>)
qed

lemma reclaim_inv_more:
  "reclaim_inv Os K l L xs U W u R M s \<Longrightarrow> hp_mem.more s' = hp_mem.more s \<Longrightarrow> reclaim_inv Os K l L xs U W u R M s'"
  unfolding reclaim_inv_def using csl_ok_more csl_moreD(3,4) by metis

lemma list_reclaim_ok:
  assumes "callbacks_ok K"
  shows "reclaim_ok (list_reclaim K :: ptr \<Rightarrow> ptr \<Rightarrow> ('q, 'u, 'a, unit) csl_prog) (reclaim_inv Os K l L xs U W u)"
  unfolding reclaim_ok_def
  by (intro conjI allI impI; (erule reclaim_inv_more, assumption)?; rule wp_mono [OF wp_list_reclaim [OF assms]]) auto

lemma list_drop_ok: "drop_ok (reclaim_inv Os K l L xs U W u)"
  unfolding drop_ok_def reclaim_inv_def by (auto intro: csl_ok_weaken)

text \<open>
  No reference is lost and none is given up twice: of every item, the references beyond those that
  the owed reclaim calls \<open>R\<close> and the hands of the caller \<open>U\<close> account for stay as many as they were.
\<close>

definition settled :: "'u csl_callbacks \<Rightarrow> (ptr \<Rightarrow> nat) \<Rightarrow> (ptr \<times> ptr) multiset \<Rightarrow> ('q, 'u, 'a) csl_mem_scheme \<Rightarrow>
    (ptr \<Rightarrow> nat) \<Rightarrow> (ptr \<times> ptr) multiset \<Rightarrow> ('q, 'u, 'a) csl_mem_scheme \<Rightarrow> bool" where
  "settled K U R s U' R' s' \<longleftrightarrow> (\<forall>y. refs s' y + count R (reclaim_list_node_function K, y) + U y =
      refs s y + count R' (reclaim_list_node_function K, y) + U' y)"

lemma settled_lists [simp]: "settled K U R s U' R' (s'\<lparr>csl_lists := m\<rparr>) = settled K U R s U' R' s'"
  by (simp add: settled_def refs_def)

definition settled_inv :: "'a others \<Rightarrow> 'u csl_callbacks \<Rightarrow> ptr \<Rightarrow> clds_sorted_list \<Rightarrow> ptr list \<Rightarrow> (ptr \<Rightarrow> nat) \<Rightarrow> (ptr \<Rightarrow> 64 word option) \<Rightarrow> 'u \<Rightarrow>
    (ptr \<Rightarrow> nat) \<Rightarrow> (ptr \<times> ptr) multiset \<Rightarrow> ptr set \<Rightarrow> ('q, 'u, 'a) csl_mem_scheme \<Rightarrow> bool" where
  "settled_inv Os K l L xs U W u n R M s \<longleftrightarrow> reclaim_inv Os K l L xs U W u R M s \<and>
     (\<forall>y. refs s y = n y + count R (reclaim_list_node_function K, y))"

lemma list_reclaim_settled:
  assumes "callbacks_ok K"
  shows "reclaim_ok (list_reclaim K :: ptr \<Rightarrow> ptr \<Rightarrow> ('q, 'u, 'a, unit) csl_prog) (settled_inv Os K l L xs U W u n)"
  unfolding reclaim_ok_def
proof (intro conjI allI impI)
  fix R M s f x
  assume r: "(f, x) \<in># R" and M: "M \<subseteq> live s" and inv: "settled_inv Os K l L xs U W u n R M (s :: ('q, 'u, 'a) csl_mem_scheme)"
  then have i: "reclaim_inv Os K l L xs U W u R M s" and n: "refs s y = n y + count R (reclaim_list_node_function K, y)" for y
    by (simp_all add: settled_inv_def)
  have "f = reclaim_list_node_function K" using csl_okD(8) [OF conjunct1 [OF i [unfolded reclaim_inv_def]] r] .
  then have left: "((refs s)(x := refs s x - 1)) y = n y + count (R - {#(f, x)#}) (reclaim_list_node_function K, y)" for y
    using r n [of y] n [of x] by (auto simp: count_greater_zero_iff [symmetric] simp del: count_greater_zero_iff)
  show "wp (list_reclaim K f x) (\<lambda>_ s'. \<exists>M'. client_step M M' s s' \<and> settled_inv Os K l L xs U W u n (R - {#(f, x)#}) M' s') s"
  proof (rule wp_mono [OF wp_list_reclaim [OF assms r M i]], elim exE conjE)
    fix a :: unit and s' :: "('q, 'u, 'a) csl_mem_scheme" and M'
    assume r': "client_step M M' s s'" "reclaim_inv Os K l L xs U W u (R - {#(f, x)#}) M' s'" "refs s' = (refs s)(x := refs s x - 1)"
    have "refs s' y = n y + count (R - {#(f, x)#}) (reclaim_list_node_function K, y)" for y
      unfolding r'(3) by (rule left)
    then have "settled_inv Os K l L xs U W u n (R - {#(f, x)#}) M' s'"
      using r'(2) by (simp only: settled_inv_def simp_thms)
    with r'(1) show "\<exists>M'. client_step M M' s s' \<and> settled_inv Os K l L xs U W u n (R - {#(f, x)#}) M' s'" by blast
  qed
next
  fix R M and s s' :: "('q, 'u, 'a) csl_mem_scheme"
  assume a: "settled_inv Os K l L xs U W u n R M s" "hp_mem.more s' = hp_mem.more s"
  have "refs s' = refs s" using csl_moreD(1) [OF a(2)] by (simp add: refs_def fun_eq_iff)
  with a reclaim_inv_more [OF _ a(2)] show "settled_inv Os K l L xs U W u n R M s'" by (simp add: settled_inv_def)
qed

section \<open>Parts of the operations\<close>

lemma wp_item_key: "csl_lists s l = Some L \<Longrightarrow> wp (item_key K l x) Q s = Q (key_of K L (user s) x) s"
  and wp_compare_keys: "csl_lists s l = Some L \<Longrightarrow> wp (compare_keys K l k k') P s = P (cmp K L (user s) k k') s"
  by (simp_all add: item_key_def compare_keys_def ask_def wp_simps access_kinds key_of_def cmp_def)

lemma wp_restarting: "0 < n \<Longrightarrow> wp (p v) (\<lambda>e. case e of Restart v' \<Rightarrow> (\<lambda>_. False) | Finished r \<Rightarrow> Q r) s \<Longrightarrow> wp (restarting n p v) Q s"
  by (cases n) (auto simp: wp_simps elim!: wp_mono split: walk_end.splits)

text \<open>Another reference to an item.\<close>

lemma csl_ok_referenced:
  assumes ok: "csl_ok Os K l L xs U R M s" and I: "csl_items s x = Some I" and room: "Suc (refs s x) < 2 ^ 32"
    and items: "csl_items s' = (csl_items s)(x \<mapsto> I\<lparr>ref_count := ref_count I + 1\<rparr>)"
    and rest: "csl_lists s' = csl_lists s" "user s' = user s" "csl_mem.more s' = csl_mem.more s"
  shows "csl_ok Os K l L xs (U(x := Suc (U x))) R M s'" and "refs s' = (refs s)(x := Suc (refs s x))"
proof -
  have "unat (ref_count I + 1) = Suc (unat (ref_count I))"
    using room I by (simp add: refs_def unat_word_ariths)
  then show r: "refs s' = (refs s)(x := Suc (refs s x))" using items I by (simp add: fun_eq_iff refs_def)
  show "csl_ok Os K l L xs (U(x := Suc (U x))) R M s'"
  proof (rule csl_ok_step [OF ok])
    show "of_bool (y \<in> set xs) + listed Os y + count R (reclaim_list_node_function K, y) + (U(x := Suc (U x))) y \<le> refs s' y" for y
      using csl_okD(6) [OF ok, of y] by (cases "y = x") (auto simp: r)
    show "0 < refs s' y" if "y \<in> dom (csl_items s')" for y
      using csl_okD(7) [OF ok, of y] that by (auto simp: r items split: if_splits)
  qed (use I items rest csl_okD(12) [OF ok] in auto)
qed

text \<open>
  A search of the whole list: the operation's \<open>restarting\<close> loop around the walk, from the head. The
  first node at which \<open>at_item\<close> leaves is the first of \<open>rs\<close>.
\<close>

lemma wp_search:
  fixes s :: "('q, 'u, 'a) csl_mem_scheme"
  assumes hp: "hp_ok X C s t A R M" and ok: "csl_ok Os K l L (ws @ rs) U R M s"
    and room: "card (live s) + length (ws @ rs) + 1 < b"
    and advance: "\<And>s' ph pi ch x Q'. x \<in> set ws \<Longrightarrow> hp_mem.more s' = hp_mem.more s \<Longrightarrow> Q' Advance s' \<Longrightarrow> wp (at_item v ph pi ch x) Q' s'"
    and at_end: "\<And>s' ph A''. rs = [] \<Longrightarrow> hp_ok X C s' t A'' R M \<Longrightarrow> holding A ws ph A'' \<Longrightarrow> hp_mem.more s' = hp_mem.more s \<Longrightarrow>
        card (live s') \<le> card (live s) + length (ws @ rs) + 1 \<Longrightarrow> (\<And>k. plenty (k + Suc (length (ws @ rs))) s \<Longrightarrow> plenty k s') \<Longrightarrow>
        wp (at_end v ph (last_of ws)) (\<lambda>e. case e of Restart v' \<Rightarrow> (\<lambda>_. False) | Finished r \<Rightarrow> G r) s'"
    and no_hp: "\<And>s'. hp_ok X C s' t A R M \<Longrightarrow> hp_mem.more s' = hp_mem.more s \<Longrightarrow>
        card (live s') \<le> card (live s) + length (ws @ rs) + 1 \<Longrightarrow> \<not> plenty (Suc (length (ws @ rs))) s \<Longrightarrow>
        wp (no_hp v) (\<lambda>e. case e of Restart v' \<Rightarrow> (\<lambda>_. False) | Finished r \<Rightarrow> G r) s'"
    and at_item: "\<And>s' ph ch A'' x zs. rs = x # zs \<Longrightarrow> hp_ok X C s' t (A''(ch \<mapsto> x)) R M \<Longrightarrow> A'' ch = None \<Longrightarrow> ch \<noteq> null \<Longrightarrow>
        holding A ws ph A'' \<Longrightarrow> hp_mem.more s' = hp_mem.more s \<Longrightarrow> card (live s') \<le> card (live s) + length (ws @ rs) + 1 \<Longrightarrow>
        (\<And>k. plenty (k + Suc (length (ws @ rs))) s \<Longrightarrow> plenty k s') \<Longrightarrow>
        wp (at_item v ph (last_of ws) ch x) (\<lambda>r s''. case r of Leave (Finished r) \<Rightarrow> G r s'' | _ \<Rightarrow> False) s'"
  shows "wp (restarting b (\<lambda>v. walk b l t (at_end v) (no_hp v) (at_item v) v b null null Head) v) G s"
proof (rule wp_restarting)
  define N where "N = card (live s) + length (ws @ rs) + 1"
  show "0 < b" using room by simp
  have "wp (walk b l t (at_end v) (no_hp v) (at_item v) v b null (last_of []) (link_after []))
      (\<lambda>e. case e of Restart v' \<Rightarrow> (\<lambda>_. False) | Finished r \<Rightarrow> G r) s"
  proof (rule wp_walk [where A = A and us = "[]" and ws = ws and rs = rs and N = N and enough = "\<lambda>k. plenty (k + Suc (length (ws @ rs))) s", OF hp _ refl])
    show "holding A [] null A" by simp
    show "list_at s' l L ([] @ ws @ rs)" if "hp_mem.more s' = hp_mem.more s" for s' :: "('q, 'u, 'a) csl_mem_scheme"
      using csl_okD(1) [OF csl_ok_more [OF ok that]] by simp
    show "length ws < b" "card (live s) + length ws < N" "N < b" using room by (simp_all add: N_def)
    show "plenty (k + Suc (length ws)) s" if "plenty (k + Suc (length (ws @ rs))) s" for k using plenty_fewer [OF that] by simp
    show "wp (at_item v ph pi ch x) Q' s'" if "x \<in> set ws" "hp_mem.more s' = hp_mem.more s" "Q' Advance s'" for s' ph pi ch x Q'
      by (rule advance) (fact that)+
    show "wp (no_hp v) (\<lambda>e. case e of Restart v' \<Rightarrow> (\<lambda>_. False) | Finished r \<Rightarrow> G r) s'"
      if "hp_ok X C s' t A R M" "hp_mem.more s' = hp_mem.more s" "card (live s') \<le> N" "\<not> plenty (0 + Suc (length (ws @ rs))) s" for s'
      using no_hp [OF that(1,2)] that(3,4) by (simp add: N_def)
    show "wp (at_end v ph (last_of ([] @ ws))) (\<lambda>e. case e of Restart v' \<Rightarrow> (\<lambda>_. False) | Finished r \<Rightarrow> G r) s'"
      if "rs = []" "hp_ok X C s' t A'' R M" "holding A ([] @ ws) ph A''" "hp_mem.more s' = hp_mem.more s" "card (live s') < N"
        "\<And>k. plenty (k + Suc (length (ws @ rs))) s \<Longrightarrow> plenty k s'" for s' ph A''
      using at_end [OF that(1,2) _ that(4)] that(3,5,6) by (simp add: N_def)
    show "wp (at_item v ph (last_of ([] @ ws)) ch x)
        (\<lambda>r s''. case r of Advance \<Rightarrow> False | Leave w \<Rightarrow> (case w of Restart v' \<Rightarrow> (\<lambda>_. False) | Finished r \<Rightarrow> G r) s'') s'"
      if "rs = x # zs" "hp_ok X C s' t (A''(ch \<mapsto> x)) R M" "A'' ch = None" "ch \<noteq> null" "holding A ([] @ ws) ph A''"
        "hp_mem.more s' = hp_mem.more s" "card (live s') \<le> N"
          "\<And>k. plenty (k + Suc (length (ws @ rs))) s \<Longrightarrow> plenty k s'" for s' ph ch A'' x zs
      unfolding append_Nil by (rule wp_mono [OF at_item [OF that(1-4) _ that(6)]])
        (use that(5,7,8) in \<open>auto simp: N_def split: visit.splits walk_end.splits\<close>)
  qed
  then show "wp (walk b l t (at_end v) (no_hp v) (at_item v) v b null null Head)
      (\<lambda>e. case e of Restart v' \<Rightarrow> (\<lambda>_. False) | Finished r \<Rightarrow> G r) s" by simp
qed

lemma csl_ok_not_null: "csl_ok Os K l L xs U R M s \<Longrightarrow> null \<notin> set xs"
  using heap_chain_not_null [of "itm_next s" "first_of xs" xs] by (simp add: csl_ok_def sorted_list_at_def list_at_def)

section \<open>Sequence numbers\<close>

text \<open>The number an operation gets, and what taking it does to the counter and the out parameter.\<close>

definition seq_ok :: "clds_sorted_list \<Rightarrow> ptr \<Rightarrow> (ptr \<Rightarrow> 64 word option) \<Rightarrow> bool" where
  "seq_ok L seq W \<longleftrightarrow> (sequence_number L \<noteq> null \<longrightarrow> W (sequence_number L) \<noteq> None) \<and>
     (seq \<noteq> null \<longrightarrow> sequence_number L \<noteq> null \<and> W seq \<noteq> None)"

definition next_number :: "clds_sorted_list \<Rightarrow> (ptr \<Rightarrow> 64 word option) \<Rightarrow> 64 word" where
  "next_number L W = (if sequence_number L = null then 0 else the (W (sequence_number L)) + 1)"

definition counted_on :: "clds_sorted_list \<Rightarrow> (ptr \<Rightarrow> 64 word option) \<Rightarrow> ptr \<Rightarrow> 64 word option" where
  "counted_on L W = (if sequence_number L = null then W else W(sequence_number L \<mapsto> next_number L W))"

definition given_out :: "ptr \<Rightarrow> 64 word \<Rightarrow> (ptr \<Rightarrow> 64 word option) \<Rightarrow> ptr \<Rightarrow> 64 word option" where
  "given_out seq v W = (if seq = null then W else W(seq \<mapsto> v))"

text \<open>The caller's state when the number \<open>v\<close> has been reported as skipped.\<close>

definition skipped_user :: "'u csl_callbacks \<Rightarrow> clds_sorted_list \<Rightarrow> 64 word \<Rightarrow> 'u \<Rightarrow> 'u" where
  "skipped_user K L v u = (if skipped_seq_no_cb L = null then u
     else skipped_seq_no K (skipped_seq_no_cb L) (skipped_seq_no_cb_context L) v u)"

lemma numbers_head [simp]:
  "seq_ok (L\<lparr>list_head := h\<rparr>) = seq_ok L" "seq_ok (L\<lparr>pending_write_operations := n\<rparr>) = seq_ok L"
  "next_number (L\<lparr>list_head := h\<rparr>) = next_number L" "next_number (L\<lparr>pending_write_operations := n\<rparr>) = next_number L"
  "counted_on (L\<lparr>list_head := h\<rparr>) = counted_on L" "counted_on (L\<lparr>pending_write_operations := n\<rparr>) = counted_on L"
  "skipped_user K (L\<lparr>list_head := h\<rparr>) = skipped_user K L" "skipped_user K (L\<lparr>pending_write_operations := n\<rparr>) = skipped_user K L"
  by (auto simp: fun_eq_iff seq_ok_def next_number_def counted_on_def skipped_user_def)

lemma wp_take_sequence_number:
  assumes "csl_lists s l = Some L" and "seq_ok L seq (words s)"
  shows "wp (take_sequence_number l seq) Q s =
    Q (next_number L (words s)) (s\<lparr>words := given_out seq (next_number L (words s)) (counted_on L (words s))\<rparr>)"
proof (cases "sequence_number L = null")
  case True
  then show ?thesis
    using assms by (cases s) (simp add: take_sequence_number_def wp_simps access_kinds seq_ok_def next_number_def counted_on_def given_out_def)
next
  case False
  then obtain v where v: "words s (sequence_number L) = Some v" using assms(2) by (auto simp: seq_ok_def)
  have w: "\<exists>w. ((words s)(sequence_number L \<mapsto> v + 1)) seq = Some w" if "seq \<noteq> null"
    using assms(2) that by (auto simp: seq_ok_def)
  show ?thesis
  proof (cases "seq = null")
    case True
    then show ?thesis
      using False assms(1) v
      by (simp add: take_sequence_number_def increment_def wp_simps wp_funs access_kinds next_number_def counted_on_def given_out_def)
  next
    case seq: False
    then obtain w where "((words s)(sequence_number L \<mapsto> v + 1)) seq = Some w" using w by blast
    then show ?thesis
      using False seq assms(1) v
      by (simp add: take_sequence_number_def increment_def store_def wp_simps wp_funs access_kinds next_number_def counted_on_def given_out_def
          del: fun_upd_apply)
  qed
qed

lemma wp_report_skipped:
  assumes "csl_lists s l = Some L"
  shows "wp (report_skipped K l v) Q s = Q () (s\<lparr>user := skipped_user K L v (user s)\<rparr>)"
  using assms by (cases s) (auto simp: report_skipped_def notify_def wp_simps access_kinds skipped_user_def)

lemma wp_no_counter_for:
  assumes "csl_lists s l = Some L" and "seq_ok L seq W"
  shows "wp (no_counter_for l seq) Q s = Q False s"
  using assms by (auto simp: no_counter_for_def wp_simps access_kinds seq_ok_def)

lemma csl_ok_user:
  assumes ok: "csl_ok Os K l L xs U R M s" and same: "csl_items s' = csl_items s" "csl_lists s' = csl_lists s" "csl_mem.more s' = csl_mem.more s"
    and ord: "\<And>L x y. ord K L (user s') x y = ord K L (user s) x y"
  shows "csl_ok Os K l L xs U R M s'"
proof -
  have "refs s' = refs s" using same(1) by (simp add: refs_def fun_eq_iff)
  then show ?thesis
    using csl_okD(6,7,12) [OF ok] same ord by (intro csl_ok_step [OF ok]) auto
qed

lemma csl_ok_skipped:
  "callbacks_ok K \<Longrightarrow> csl_ok Os K l L xs U R M s \<Longrightarrow> csl_ok Os K l L xs U R M (s\<lparr>user := skipped_user K L' v (user s)\<rparr>)"
  by (rule csl_ok_user) (simp_all add: skipped_user_def ord_skipped)

section \<open>Write operations\<close>

text \<open>An operation between \<open>check_lock_and_begin_write_operation\<close> and \<open>end_write_operation\<close>, on a list that is not locked.\<close>

lemma csl_ok_lock:
  assumes ok: "csl_ok Os K l L xs U R M s"
  shows "csl_ok Os K l (L\<lparr>pending_write_operations := v\<rparr>) xs U R M
    (s\<lparr>csl_lists := (csl_lists s)(l \<mapsto> L\<lparr>list_head := first_of xs, pending_write_operations := v\<rparr>)\<rparr>)"
    (is "csl_ok _ _ _ _ _ _ _ _ ?s")
proof -
  have "L\<lparr>pending_write_operations := v, list_head := h\<rparr> = L\<lparr>list_head := h, pending_write_operations := v\<rparr>" for h by (cases L) simp
  moreover have "refs ?s = refs s" by (simp add: refs_def fun_eq_iff)
  moreover have "others_ok K Os l xs M ?s" by (rule others_ok_kept [OF csl_okD(10) [OF ok]]) simp_all
  ultimately show ?thesis using ok by (simp add: csl_ok_def sorted_list_at_def list_at_def)
qed

lemma wp_write_operation:
  fixes s :: "('q, 'u, 'a) csl_mem_scheme"
  assumes ok: "csl_ok Os K l L xs U R M s" and lock: "locked_for_write L = 0" and b: "0 < b"
    and body: "\<And>s1. csl_ok Os K l (L\<lparr>pending_write_operations := pending_write_operations L + 1\<rparr>) xs U R M s1 \<Longrightarrow>
        csl_items s1 = csl_items s \<Longrightarrow> words s1 = words s \<Longrightarrow> user s1 = user s \<Longrightarrow> live s1 = live s \<Longrightarrow> (\<And>n. plenty n s1 = plenty n s) \<Longrightarrow>
        (\<And>X C t A R M. hp_ok X C s1 t A R M = hp_ok X C s t A R M) \<Longrightarrow>
        wp p (\<lambda>r s2. \<exists>xs' U' R' M'. csl_ok Os K l (L\<lparr>pending_write_operations := pending_write_operations L + 1\<rparr>) xs' U' R' M' s2 \<and> P r xs' U' R' M' s2) s1"
    and stable: "\<And>r xs' U' R' M' s2 m. P r xs' U' R' M' s2 \<Longrightarrow> P r xs' U' R' M' (s2\<lparr>csl_lists := m\<rparr>)"
    and k: "\<And>r xs' U' R' M' s3. csl_ok Os K l L xs' U' R' M' s3 \<Longrightarrow> P r xs' U' R' M' s3 \<Longrightarrow> wp (k r) Q s3"
  shows "wp (call (check_lock_and_begin_write_operation b (list_lock l)) (\<lambda>_. call p (\<lambda>r. call (end_write_operation (list_lock l)) (\<lambda>_. k r)))) Q s"
proof -
  obtain m where m: "b = Suc m" using b by (cases b) auto
  define L1 where "L1 = L\<lparr>pending_write_operations := pending_write_operations L + 1\<rparr>"
  define s1 where "s1 = s\<lparr>csl_lists := (csl_lists s)(l \<mapsto> L\<lparr>list_head := first_of xs, pending_write_operations := pending_write_operations L + 1\<rparr>)\<rparr>"
  have "wp (call p (\<lambda>r. call (end_write_operation (list_lock l)) (\<lambda>_. k r))) Q s1"
  proof (rule wp_seq [OF body], goal_cases)
    case 1 show ?case unfolding s1_def by (rule csl_ok_lock [OF ok])
  next
    case (8 r s2)
    then obtain xs' U' R' M' where ok2: "csl_ok Os K l L1 xs' U' R' M' s2" and P: "P r xs' U' R' M' s2" unfolding L1_def by blast
    note l2 = csl_okD(9) [OF ok2]
    have "L1\<lparr>pending_write_operations := pending_write_operations L\<rparr> = L" by (simp add: L1_def)
    with csl_ok_lock [OF ok2, of "pending_write_operations L"]
    have "csl_ok Os K l L xs' U' R' M'
      (s2\<lparr>csl_lists := (csl_lists s2)(l \<mapsto> L1\<lparr>list_head := first_of xs', pending_write_operations := pending_write_operations L\<rparr>)\<rparr>)" by simp
    from k [OF this stable [OF P]] show ?case
      using l2 by (simp add: end_write_operation_def list_lock_def wp_simps L1_def)
  qed (simp_all add: s1_def plenty_def)
  then show ?thesis
    using csl_okD(9) [OF ok] lock
    by (simp add: m list_lock_def wp_simps s1_def)
qed

end
