(* ===== verification/Sorted_List_Operations.thy ===== *)
theory Sorted_List_Operations
  imports Sorted_List_Walk
begin

text \<open>
  What the operations of the sorted list do: look-up, insertion, deletion, removal and replacement.
\<close>

section \<open>Looking up\<close>

lemma wp_find_at_item:
  fixes s :: "('q, 'u, 'a) csl_mem_scheme"
  assumes hp: "hp_ok X C s t (A''(ch \<mapsto> x)) R M" and A: "A'' ch = None" "holding A us ph A''"
    and room: "card (live s) < b" and ok: "csl_ok Os K l L xs U R M s" and x: "x \<in> set xs" "Suc (refs s x) < 2 ^ 32"
    and eq: "cmp K L (user s) key (key_of K L (user s) x) = 0"
    and Q: "\<And>s'. hp_ok X C s' t A R M \<Longrightarrow> csl_ok Os K l L xs (U(x := Suc (U x))) R M s' \<Longrightarrow> words s' = words s \<Longrightarrow> user s' = user s \<Longrightarrow>
      live s' = live s \<Longrightarrow> (\<And>k. plenty k s \<Longrightarrow> plenty k s') \<Longrightarrow> refs s' = (refs s)(x := Suc (refs s x)) \<Longrightarrow> Q (Leave (Finished x)) s'"
  shows "wp (find_at_item K b l t key ph pi ch x) Q s"
proof -
  obtain I where I: "csl_items s x = Some I"
    by (rule csl_ok_accounted [OF ok, of x]) (use x(1) in simp_all)
  have hold: "A ch = None" "holding (A(ch \<mapsto> x)) us ph (A''(ch \<mapsto> x))" using holding_more [OF A(2,1)] by simp_all
  have "wp (call (let_go b t ph) (\<lambda>_. call (on_node x (add_fetch ref_count ref_count_update 1)) (\<lambda>_.
     call (clds_hazard_pointers_release b t ch) (\<lambda>_. Done (Leave (Finished x)))))) Q s"
  proof (rule wp_seq [OF wp_let_go [OF hp hold(2) room]])
    fix a s1
    assume s1: "hp_mem.more s1 = hp_mem.more s \<and> live s1 = live s \<and> (\<forall>k. plenty k s \<longrightarrow> plenty k s1) \<and> hp_ok X C s1 t (A(ch \<mapsto> x)) R M"
    note m1 = csl_moreD [OF conjunct1 [OF s1]]
    define s2 where "s2 = s1\<lparr>csl_items := (csl_items s1)(x \<mapsto> I\<lparr>ref_count := ref_count I + 1\<rparr>)\<rparr>"
    have ok2: "csl_ok Os K l L xs (U(x := Suc (U x))) R M s2" and refs2: "refs s2 = (refs s)(x := Suc (refs s x))"
      by (rule csl_ok_referenced [OF ok I x(2)]; simp add: s2_def m1 csl_moreD_rest [OF conjunct1 [OF s1]])+
    have "hp_ok X C s2 t (A(ch \<mapsto> x)) R M" "card (live s2) < b" using s1 room by (simp_all add: s2_def)
    from wp_hp_release [OF this(1) hold(1) this(2)]
    have "wp (clds_hazard_pointers_release b t ch) (\<lambda>_. Q (Leave (Finished x))) s2"
    proof (rule wp_mono)
      fix a s3
      assume s3: "hp_mem.more s3 = hp_mem.more s2 \<and> live s3 = live s2 \<and> (\<forall>k. plenty k s2 \<longrightarrow> plenty k s3) \<and> hp_ok X C s3 t A R M"
      note m3 = csl_moreD [OF conjunct1 [OF s3]]
      have "plenty k s2 = plenty k s1" for k by (rule plenty_cong) (simp_all add: s2_def)
      moreover have "refs s3 = refs s2" using m3(1) by (simp add: refs_def fun_eq_iff)
      ultimately show "Q (Leave (Finished x)) s3"
        by (intro Q) (use s3 s1 csl_ok_more [OF ok2 conjunct1 [OF s3]] m1 m3 refs2 in \<open>simp_all add: s2_def\<close>)
    qed
    then show "wp (call (on_node x (add_fetch ref_count ref_count_update 1)) (\<lambda>_.
     call (clds_hazard_pointers_release b t ch) (\<lambda>_. Done (Leave (Finished x))))) Q s1"
      using I m1 by (simp add: wp_simps wp_funs access_kinds s2_def)
  qed
  then show ?thesis
    using csl_okD(9) [OF ok] eq by (simp add: find_at_item_def wp_call wp_item_key wp_compare_keys)
qed

text \<open>Passing over a list of \<open>n\<close> items: nothing changes but the hazard pointers that are allocated on the way.\<close>

definition walked :: "nat \<Rightarrow> ('q, 'u, 'a) csl_mem_scheme \<Rightarrow> ('q, 'u, 'a) csl_mem_scheme \<Rightarrow> bool" where
  "walked n s s' \<longleftrightarrow> words s' = words s \<and> user s' = user s \<and> csl_items s' = csl_items s \<and>
     card (live s') \<le> card (live s) + n + 1 \<and> (\<forall>k. plenty (k + Suc n) s \<longrightarrow> plenty k s')"

lemma walkedD:
  assumes "walked n s s'"
  shows "words s' = words s" "user s' = user s" "csl_items s' = csl_items s" "card (live s') \<le> card (live s) + n + 1"
    "plenty (k + Suc n) s \<Longrightarrow> plenty k s'"
  using assms by (auto simp: walked_def)

lemma not_plenty_more: "\<not> plenty n s \<Longrightarrow> n \<le> m \<Longrightarrow> \<not> plenty m s"
  using plenty_fewer by blast

lemma wp_find_key:
  fixes s :: "('q, 'u, 'a) csl_mem_scheme"
  assumes hp: "hp_ok X C s t A R M" and ok: "csl_ok Os K l L xs U R M s" and key: "key \<noteq> null"
    and room: "card (live s) + length xs + 1 < b" and refs: "\<And>x. x \<in> set xs \<Longrightarrow> cmp K L (user s) key (key_of K L (user s) x) = 0 \<Longrightarrow> Suc (refs s x) < 2 ^ 32"
  shows "wp (clds_sorted_list_find_key K b l t key) (\<lambda>r s'. hp_ok X C s' t A R M \<and> words s' = words s \<and> user s' = user s \<and>
      card (live s') \<le> card (live s) + length xs + 1 \<and> (\<forall>k. plenty (k + Suc (length xs)) s \<longrightarrow> plenty k s') \<and>
      (case find (\<lambda>x. cmp K L (user s) key (key_of K L (user s) x) = 0) xs of
         None \<Rightarrow> r = null \<and> csl_items s' = csl_items s \<and> csl_ok Os K l L xs U R M s'
       | Some x \<Rightarrow> r = x \<and> refs s' = (refs s)(x := Suc (refs s x)) \<and> csl_ok Os K l L xs (U(x := Suc (U x))) R M s' \<or>
                  r = null \<and> \<not> plenty (Suc (length xs)) s \<and> csl_items s' = csl_items s \<and> csl_ok Os K l L xs U R M s')) s"
proof -
  define P where "P = (\<lambda>x. cmp K L (user s) key (key_of K L (user s) x) = 0)"
  define ws rs where "ws = takeWhile (Not \<circ> P) xs" and "rs = dropWhile (Not \<circ> P) xs"
  have xs: "xs = ws @ rs" by (simp add: ws_def rs_def)
  have find: "find P (ws @ rs) = (case rs of [] \<Rightarrow> None | x # _ \<Rightarrow> Some x)" by (simp add: ws_def rs_def find_dropWhile)
  have no: "\<not> P x" if "x \<in> set ws" for x using that set_takeWhileD [of x "Not \<circ> P" xs] by (simp add: ws_def)
  have yes: "P x" if "rs = x # zs" for x zs using that by (metis comp_apply dropWhile_eq_Cons_conv rs_def)
  define G where "G = (\<lambda>r (s' :: ('q, 'u, 'a) csl_mem_scheme). hp_ok X C s' t A R M \<and> words s' = words s \<and> user s' = user s \<and>
      card (live s') \<le> card (live s) + length (ws @ rs) + 1 \<and> (\<forall>k. plenty (k + Suc (length (ws @ rs))) s \<longrightarrow> plenty k s') \<and>
      (case find P (ws @ rs) of
         None \<Rightarrow> r = null \<and> csl_items s' = csl_items s \<and> csl_ok Os K l L (ws @ rs) U R M s'
       | Some x \<Rightarrow> r = x \<and> refs s' = (refs s)(x := Suc (refs s x)) \<and> csl_ok Os K l L (ws @ rs) (U(x := Suc (U x))) R M s' \<or>
                  r = null \<and> \<not> plenty (Suc (length (ws @ rs))) s \<and> csl_items s' = csl_items s \<and> csl_ok Os K l L (ws @ rs) U R M s'))"
  have null: "l \<noteq> null" "t \<noteq> null" using csl_okD(2) [OF ok] hp.client_memory [OF hp] by auto
  note ok = ok [unfolded xs] and room = room [unfolded xs]
  note same = csl_moreD csl_ok_more [OF ok]
  have "wp (restarting b (\<lambda>v. walk b l t (\<lambda>previous_hp previous_item. call (let_go b t previous_hp) (\<lambda>_. Done (Finished null)))
      (Done (Finished null)) (find_at_item K b l t key) v b null null Head) ()) G s"
  proof (rule wp_search [OF hp ok room, where at_end = "\<lambda>_. (\<lambda>ph pi. call (let_go b t ph) (\<lambda>_. Done (Finished null)))"
        and no_hp = "\<lambda>_. Done (Finished null)" and at_item = "\<lambda>_. find_at_item K b l t key"], goal_cases)
    case (1 s' ph pi ch x Q')
    then show ?case using no [OF 1(1)] csl_okD(9) [OF ok] same(1-4) [OF 1(2)]
      by (simp add: find_at_item_def wp_call wp_item_key wp_compare_keys P_def wp_simps)
  next
    case (2 s' ph A'')
    show ?case
    proof (rule wp_seq [OF wp_let_go [OF 2(2,3)]])
      show "card (live s') < b" using 2(5) room by simp
      fix a s1
      assume s1: "hp_mem.more s1 = hp_mem.more s' \<and> live s1 = live s' \<and> (\<forall>k. plenty k s' \<longrightarrow> plenty k s1) \<and> hp_ok X C s1 t A R M"
      then have "hp_mem.more s1 = hp_mem.more s" using 2(4) by simp
      from same [OF this] s1 2(1,5,6) find show "wp (Done (Finished null)) (\<lambda>e. case e of Restart v' \<Rightarrow> (\<lambda>_. False) | Finished r \<Rightarrow> G r) s1"
        by (simp add: wp_simps G_def)
    qed
  next
    case (3 s')
    have "\<not> plenty (k + Suc (length (ws @ rs))) s" for k
      using 3(4) plenty_fewer [of "k + Suc (length (ws @ rs))" s "Suc (length (ws @ rs))"] by auto
    with 3 show ?case using same [OF 3(2)] by (simp add: wp_simps G_def split: option.splits)
  next
    case (4 s' ph ch A'' x zs)
    show ?case
    proof (rule wp_find_at_item [OF 4(2,3,5) _ csl_ok_more [OF ok 4(6)]])
      note m = same(1-4) [OF 4(6)]
      show "card (live s') < b" using 4(7) room by simp
      show "x \<in> set (ws @ rs)" by (simp add: 4(1))
      then show "Suc (refs s' x) < 2 ^ 32" using refs [of x] yes [OF 4(1)] m by (simp add: refs_def xs P_def)
      show "cmp K L (user s') key (key_of K L (user s') x) = 0" using yes [OF 4(1)] m by (simp add: P_def)
    qed (use 4(1,7,8) same(1-4) [OF 4(6)] find in \<open>simp add: G_def refs_def fun_eq_iff\<close>)
  qed
  then have "wp (clds_sorted_list_find_key K b l t key) G s"
    using null key by (simp add: clds_sorted_list_find_key_def)
  then show ?thesis unfolding G_def P_def xs [symmetric] .
qed

section \<open>Changing a link\<close>

definition set_link :: "('q, 'u, 'a) csl_mem_scheme \<Rightarrow> ptr \<Rightarrow> link \<Rightarrow> ptr \<Rightarrow> ('q, 'u, 'a) csl_mem_scheme" where
  "set_link s l a v = (case a of
     Head \<Rightarrow> s\<lparr>csl_lists := (csl_lists s)(l \<mapsto> (the (csl_lists s l))\<lparr>list_head := v\<rparr>)\<rparr>
   | Next p \<Rightarrow> s\<lparr>csl_items := (csl_items s)(p \<mapsto> (the (csl_items s p))\<lparr>item_next := v\<rparr>)\<rparr>)"

lemma wp_cas_link:
  "link_of s l a = Some old \<Longrightarrow> wp (cas_link l a new expected) Q s = (if old = expected then Q old (set_link s l a new) else Q old s)"
  by (cases a) (auto simp: cas_link.simps link_of_def set_link_def wp_simps access_kinds)

lemma set_link_same [simp]:
  "words (set_link s l a v) = words s" "user (set_link s l a v) = user s" "live (set_link s l a v) = live s"
  "answers (set_link s l a v) = answers s" "csl_mem.more (set_link s l a v) = csl_mem.more s" "hp_ok X C (set_link s l a v) t A R M = hp_ok X C s t A R M"
  by (cases a; simp add: set_link_def)+

lemma set_link_items:
  assumes "link_of s l a \<noteq> None"
  shows "refs (set_link s l a v) = refs s" "dom (csl_items (set_link s l a v)) = dom (csl_items s)"
  using assms by (cases a; auto simp: set_link_def link_of_def refs_def fun_eq_iff)+

lemma list_at_relink:
  assumes at: "list_at s l L (us @ vs)" and lists: "csl_lists s' = csl_lists s" and before: "\<And>u. u \<in> set us \<Longrightarrow> itm_next s' u = itm_next s u"
    and tail: "heap_chain (itm_next s') (first_of ws) ws" and disj: "set us \<inter> set ws = {}" and al: "\<forall>x \<in> set ws. aligned x"
  shows "list_at (set_link s' l (link_after us) (first_of ws)) l L (us @ ws)" and "link_of s' l (link_after us) = Some (first_of vs)"
proof -
  show "link_of s' l (link_after us) = Some (first_of vs)"
    using list_at_link [OF at] lists before by (auto simp: link_of_def link_after_def split: if_splits)
  show "list_at (set_link s' l (link_after us) (first_of ws)) l L (us @ ws)"
  proof (cases us rule: rev_exhaust)
    case Nil
    then show ?thesis using at lists tail al by (simp add: list_at_def set_link_def)
  next
    case (snoc ts u)
    have c: "heap_chain (itm_next s) (first_of us) (ts @ u # vs)" using at snoc by (cases ts) (simp_all add: list_at_def)
    then obtain q where q: "heap_path (itm_next s) (first_of us) ts u" "u \<noteq> null" "itm_next s u = Some q"
      by (auto simp: heap_chain_append)
    have u: "u \<notin> set ts" "u \<notin> set ws" using heap_chain_distinct [OF c] disj snoc by auto
    obtain I where I: "csl_items s' u = Some I" using q(3) before [of u] snoc by auto
    have nxt: "itm_next (set_link s' l (link_after us) (first_of ws)) = (itm_next s')(u \<mapsto> first_of ws)"
      using snoc I by (auto simp: set_link_def fun_eq_iff)
    have "heap_path (itm_next s') (first_of us) ts u"
      using q(1) heap_path_cong [of ts "itm_next s'" "itm_next s"] before snoc by simp
    then have "heap_chain ((itm_next s')(u \<mapsto> first_of ws)) (first_of us) (ts @ u # ws)"
      using u tail q(2) by (auto simp: heap_chain_append)
    moreover have "first_of (us @ ws) = first_of us" "first_of (us @ vs) = first_of us" using snoc by (cases ts; simp)+
    moreover have "csl_lists (set_link s' l (link_after us) (first_of ws)) = csl_lists s" using snoc lists by (simp add: set_link_def)
    ultimately show ?thesis using at al snoc unfolding list_at_def nxt by simp blast
  qed
qed

lemma csl_ok_relink:
  assumes ok: "csl_ok Os K l L (us @ vs) U R M s" and lists: "csl_lists s' = csl_lists s" "user s' = user s"
    and more: "csl_mem.more s' = csl_mem.more s"
    and items: "dom (csl_items s') = dom (csl_items s)" "refs s' = refs s" "\<And>u. u \<in> set us \<or> 0 < listed Os u \<Longrightarrow> itm_next s' u = itm_next s u"
    and tail: "heap_chain (itm_next s') (first_of ws) ws" "set us \<inter> set ws = {}" "\<forall>x \<in> set ws. aligned x"
    and sorted: "sorted_wrt (\<lambda>x y. ord K L (user s) x y < 0) (us @ ws)"
    and new: "\<And>x. x \<in> set ws \<Longrightarrow> listed Os x = 0"
    and account: "\<And>x. of_bool (x \<in> set (us @ ws)) + listed Os x + count R' (reclaim_list_node_function K, x) + U' x \<le> refs s x"
    and owed: "\<And>r. r \<in># R' \<Longrightarrow> fst r = reclaim_list_node_function K"
  shows "csl_ok Os K l L (us @ ws) U' R' M (set_link s' l (link_after us) (first_of ws))"
    and "link_of s' l (link_after us) = Some (first_of vs)"
proof -
  let ?s = "set_link s' l (link_after us) (first_of ws)"
  have items': "itm_next s' u = itm_next s u" if "u \<in> set us" for u using items(3) that by blast
  note at = list_at_relink [OF csl_okD(1) [OF ok] lists(1) items' tail]
  show link: "link_of s' l (link_after us) = Some (first_of vs)" by (rule at(2))
  then have "link_of s' l (link_after us) \<noteq> None" by simp
  note same = set_link_items [OF this]
  have before: "listed Os u = 0" if "u \<in> set us" for u using csl_okD(11) [OF ok, of u] that by simp
  show "csl_ok Os K l L (us @ ws) U' R' M ?s"
  proof (rule csl_okI)
    show "l \<noteq> null" "l \<in> M" using csl_okD(2,3) [OF ok] .
    show "csl_items ?s l = None" using csl_okD(4) [OF ok] same(2) items(1) by blast
    show "others_ok K Os l (us @ ws) M ?s"
    proof (rule others_ok_kept [OF csl_okD(10) [OF ok]])
      show "itm_next ?s u = itm_next s u" if "0 < listed Os u" for u
        using that items(3) [of u] before link by (cases us rule: rev_exhaust) (auto simp: set_link_def link_after_def)
      show "p \<in> M \<and> csl_items ?s p = None" if "p \<in> M" "csl_items s p = None" for p using that same(2) items(1) by blast
      show "csl_lists ?s l' = csl_lists s l'" if "l' \<noteq> l" for l'
        using that lists(1) by (cases us rule: rev_exhaust) (simp_all add: set_link_def)
    qed (use new lists more in auto)
    show "x \<noteq> null \<and> aligned x \<and> x \<in> M \<and> 0 < refs ?s x" if "x \<in> dom (csl_items ?s)" for x
      using that csl_okD(7) [OF ok, of x] same items(1,2) by auto
  qed (use at(1) sorted account owed lists(2) same(1) items(2) in simp_all)
qed

section \<open>Inserting\<close>

lemma sorted_inserted:
  assumes cb: "callbacks_ok K" and s: "sorted_wrt (\<lambda>x y. ord K L u x y < 0) (us @ vs)"
    and before: "\<And>x. x \<in> set us \<Longrightarrow> 0 < cmp K L u (key_of K L u y) (key_of K L u x)"
    and after: "\<And>x zs. vs = x # zs \<Longrightarrow> cmp K L u (key_of K L u y) (key_of K L u x) < 0"
  shows "sorted_wrt (\<lambda>x y. ord K L u x y < 0) (us @ y # vs)"
proof -
  have "ord K L u x y < 0" if "x \<in> set us" for x using before [OF that] cmp_flip(1) [OF cb] by blast
  moreover have "ord K L u y x < 0" if "x \<in> set vs" for x
  proof (cases vs)
    case (Cons z zs)
    then have "ord K L u z x \<le> 0" if "x \<noteq> z" using s that \<open>x \<in> set vs\<close> by (fastforce simp: sorted_wrt_append)
    then show ?thesis using after [OF Cons] cmp_less_trans [OF cb, of L u "key_of K L u y" "key_of K L u z" "key_of K L u x"] by (cases "x = z") auto
  qed (use that in simp)
  ultimately show ?thesis using s by (auto simp: sorted_wrt_append)
qed

lemma csl_ok_inserted:
  assumes ok: "csl_ok Os K l L (us @ vs) U R M s" and I: "csl_items s item = Some I" and new: "item \<notin> set (us @ vs)" "0 < U item" "listed Os item = 0"
    and sorted: "sorted_wrt (\<lambda>x y. ord K L (user s) x y < 0) (us @ item # vs)"
    and s': "s' = s\<lparr>csl_items := (csl_items s)(item \<mapsto> I\<lparr>item_next := first_of vs\<rparr>)\<rparr>"
  shows "csl_ok Os K l L (us @ item # vs) (U(item := U item - 1)) R M (set_link s' l (link_after us) item)"
    and "link_of s' l (link_after us) = Some (first_of vs)"
proof -
  have al: "item \<noteq> null" "aligned item" using csl_okD(7) [OF ok I] by simp_all
  have nxt: "itm_next s' = (itm_next s)(item \<mapsto> first_of vs)" by (auto simp: s' fun_eq_iff)
  have at: "list_at s l L (us @ vs)" by (rule csl_okD(1) [OF ok])
  have chain: "heap_chain (itm_next s') (first_of (item # vs)) (item # vs)"
  proof -
    have "heap_chain (itm_next s) (first_of (us @ vs)) (us @ vs)" using at by (simp add: list_at_def)
    then obtain q where "heap_chain (itm_next s) q vs" by (auto simp: heap_chain_append)
    moreover from this have "q = first_of vs" by (auto dest: heap_chain_first simp: first_of_def)
    ultimately show ?thesis using new al by (simp add: nxt)
  qed
  have "heap_chain (itm_next s) (first_of (us @ vs)) (us @ vs)" using at by (simp add: list_at_def)
  from heap_chain_distinct [OF this] have disj: "set us \<inter> set (item # vs) = {}" using new by auto
  have acc: "of_bool (x \<in> set (us @ item # vs)) + listed Os x + count R (reclaim_list_node_function K, x) + (U(item := U item - 1)) x \<le> refs s x" for x
    using csl_okD(6) [OF ok, of x] new by (cases "x = item") auto
  have al': "\<forall>x \<in> set (item # vs). aligned x" using at al by (simp add: list_at_def)
  have owed: "fst r = reclaim_list_node_function K" if "r \<in># R" for r by (rule csl_okD(12) [OF ok that])
  have same: "csl_lists s' = csl_lists s" "user s' = user s" "csl_mem.more s' = csl_mem.more s"
    "dom (csl_items s') = dom (csl_items s)" "refs s' = refs s"
    using I by (auto simp: s' refs_def fun_eq_iff)
  have before: "itm_next s' u = itm_next s u" if "u \<in> set us \<or> 0 < listed Os u" for u using fun_cong [OF nxt, of u] that new by auto
  have fresh: "listed Os x = 0" if "x \<in> set (item # vs)" for x using that new(3) csl_okD(11) [OF ok, of x] by auto
  note r = csl_ok_relink [OF ok same before chain disj al' sorted fresh acc owed]
  show "csl_ok Os K l L (us @ item # vs) (U(item := U item - 1)) R M (set_link s' l (link_after us) item)" using r(1) by (simp only: first_of_simps)
  show "link_of s' l (link_after us) = Some (first_of vs)" by (rule r(2))
qed

text \<open>Linking an item in between \<open>us\<close> and \<open>vs\<close>: no other thread interferes, so the compare-exchange succeeds.\<close>

lemma wp_link_in:
  fixes s :: "('q, 'u, 'a) csl_mem_scheme"
  assumes ok: "csl_ok Os K l L (us @ vs) U R M s" and item: "csl_items s item \<noteq> None" "item \<notin> set (us @ vs)" "0 < U item" "listed Os item = 0"
    and sorted: "sorted_wrt (\<lambda>x y. ord K L (user s) x y < 0) (us @ item # vs)"
    and hp: "hp_ok X C s t A' R M"
    and k: "\<And>s2. csl_ok Os K l L (us @ item # vs) (U(item := U item - 1)) R M s2 \<Longrightarrow> hp_ok X C s2 t A' R M \<Longrightarrow>
      words s2 = words s \<Longrightarrow> user s2 = user s \<Longrightarrow> live s2 = live s \<Longrightarrow> wp (k (first_of vs)) Q s2"
  shows "wp (call (on_node item (wr item_next_update (first_of vs))) (\<lambda>_. call (cas_link l (link_after us) item (first_of vs)) k)) Q s"
proof -
  obtain I where I: "csl_items s item = Some I" using item(1) by blast
  define s1 where "s1 = s\<lparr>csl_items := (csl_items s)(item \<mapsto> I\<lparr>item_next := first_of vs\<rparr>)\<rparr>"
  note new = csl_ok_inserted [OF ok I item(2-4) sorted s1_def]
  have "wp (k (first_of vs)) Q (set_link s1 l (link_after us) item)"
    by (rule k [OF new(1)]) (use hp in \<open>simp_all add: s1_def\<close>)
  then have "wp (call (cas_link l (link_after us) item (first_of vs)) k) Q s1"
    by (simp add: wp_call wp_cas_link [OF new(2)])
  then show ?thesis using I by (simp add: wp_call wp_access access_kinds s1_def)
qed

lemma insert_at_end_eq:
  assumes "holding A us ph A''" and "null \<notin> set us"
  shows "insert_at_end b l t item ph (last_of us) =
     call (on_node item (wr item_next_update null)) (\<lambda>_. call (cas_link l (link_after us) item null) (\<lambda>old.
     call (let_go b t ph) (\<lambda>_. Done (if old \<noteq> null then Restart () else Finished CLDS_SORTED_LIST_INSERT_OK))))"
  using assms
  by (cases us rule: rev_exhaust) (auto simp: insert_at_end_def let_go_def fun_eq_iff intro!: arg_cong2 [of _ _ _ _ call])

lemma insert_between_eq:
  assumes "holding A us ph A''" and "null \<notin> set us"
  shows "insert_between b l t item ph (last_of us) ch x =
     call (on_node item (wr item_next_update x)) (\<lambda>_. call (cas_link l (link_after us) item x) (\<lambda>old.
     call (let_go b t ph) (\<lambda>_. call (clds_hazard_pointers_release b t ch) (\<lambda>_.
     if old \<noteq> x then Done (Leave (Restart ())) else Done (Leave (Finished CLDS_SORTED_LIST_INSERT_OK))))))"
  using assms
  by (cases us rule: rev_exhaust) (auto simp: insert_between_def let_go_def fun_eq_iff intro!: arg_cong2 [of _ _ _ _ call])

text \<open>The place of a new item: behind the items whose keys are smaller.\<close>

definition insert_sorted :: "'u csl_callbacks \<Rightarrow> clds_sorted_list \<Rightarrow> 'u \<Rightarrow> ptr \<Rightarrow> ptr list \<Rightarrow> ptr list" where
  "insert_sorted K L u y xs =
     takeWhile (\<lambda>x. 0 < ord K L u y x) xs @ y # dropWhile (\<lambda>x. 0 < ord K L u y x) xs"

lemma wp_insert_search:
  fixes s :: "('q, 'u, 'a) csl_mem_scheme"
  assumes hp: "hp_ok X C s t A R M" and cb: "callbacks_ok K" and ok: "csl_ok Os K l L xs U R M s"
    and item: "csl_items s item \<noteq> None" "item \<notin> set xs" "0 < U item" "listed Os item = 0" and room: "card (live s) + length xs + 1 < b"
  shows "wp (restarting b (\<lambda>v. walk b l t (insert_at_end b l t item)
        (call (report_skipped K l n) (\<lambda>_. Done (Finished CLDS_SORTED_LIST_INSERT_ERROR)))
        (insert_at_item K b l t item (key_of K L (user s) item) n) v b null null Head) ())
    (\<lambda>r s'. hp_ok X C s' t A R M \<and> words s' = words s \<and> card (live s') \<le> card (live s) + length xs + 1 \<and>
      (if r = CLDS_SORTED_LIST_INSERT_OK
       then (\<forall>x \<in> set xs. ord K L (user s) item x \<noteq> 0) \<and> user s' = user s \<and>
         csl_ok Os K l L (insert_sorted K L (user s) item xs) (U(item := U item - 1)) R M s'
       else csl_ok Os K l L xs U R M s' \<and> user s' = skipped_user K L n (user s) \<and>
         (if r = CLDS_SORTED_LIST_INSERT_KEY_ALREADY_EXISTS then \<exists>x \<in> set xs. ord K L (user s) item x = 0
          else \<not> plenty (Suc (length xs)) s))) s"
proof -
  define P where "P = (\<lambda>x. 0 < ord K L (user s) item x)"
  define ws rs where "ws = takeWhile P xs" and "rs = dropWhile P xs"
  have xs: "xs = ws @ rs" by (simp add: ws_def rs_def)
  have ins: "insert_sorted K L (user s) item xs = ws @ item # rs" by (simp add: insert_sorted_def ws_def rs_def P_def)
  have big: "0 < ord K L (user s) item x" if "x \<in> set ws" for x using that set_takeWhileD [of x P xs] by (simp add: ws_def P_def)
  have small: "\<not> 0 < ord K L (user s) item x" if "rs = x # zs" for x zs using that by (metis P_def dropWhile_eq_Cons_conv rs_def)
  note item = item [unfolded xs] and room = room [unfolded xs]
  define G where "G = (\<lambda>r (s' :: ('q, 'u, 'a) csl_mem_scheme). hp_ok X C s' t A R M \<and> words s' = words s \<and>
      card (live s') \<le> card (live s) + length (ws @ rs) + 1 \<and>
      (if r = CLDS_SORTED_LIST_INSERT_OK
       then (\<forall>x \<in> set (ws @ rs). ord K L (user s) item x \<noteq> 0) \<and> user s' = user s \<and> csl_ok Os K l L (ws @ item # rs) (U(item := U item - 1)) R M s'
       else csl_ok Os K l L (ws @ rs) U R M s' \<and> user s' = skipped_user K L n (user s) \<and>
         (if r = CLDS_SORTED_LIST_INSERT_KEY_ALREADY_EXISTS then \<exists>x \<in> set (ws @ rs). ord K L (user s) item x = 0
          else \<not> plenty (Suc (length (ws @ rs))) s)))"
  note ok = ok [unfolded xs]
  note same = csl_moreD csl_ok_more [OF ok]
  have sorted: "sorted_wrt (\<lambda>x y. ord K L (user s) x y < 0) (ws @ rs)" by (rule csl_okD(5) [OF ok])
  have ws0: "null \<notin> set ws" using csl_ok_not_null [OF ok] by simp
  have OK: "G CLDS_SORTED_LIST_INSERT_OK s3"
    if "csl_ok Os K l L (ws @ item # rs) (U(item := U item - 1)) R M s2" "words s2 = words s" "user s2 = user s"
      "card (live s2) \<le> card (live s) + length (ws @ rs) + 1" "hp_mem.more s3 = hp_mem.more s2" "live s3 = live s2" "hp_ok X C s3 t A R M" for s2 s3
  proof -
    have "sorted_wrt (\<lambda>x y. ord K L (user s) x y < 0) (ws @ item # rs)" using csl_okD(5) [OF that(1)] that(3) by simp
    then have "ord K L (user s) item x \<noteq> 0" if "x \<in> set (ws @ rs)" for x using that big by (fastforce simp: sorted_wrt_append)
    moreover have "words s3 = words s" "user s3 = user s" using csl_moreD [OF that(5)] that(2,3) by simp_all
    ultimately show ?thesis using csl_ok_more [OF that(1,5)] that(4,6,7) by (simp add: G_def)
  qed
  have sorted': "sorted_wrt (\<lambda>x y. ord K L (user s') x y < 0) (ws @ item # rs)"
    if "user s' = user s" "\<And>x zs. rs = x # zs \<Longrightarrow> ord K L (user s) item x < 0" for s' :: "('q, 'u, 'a) csl_mem_scheme"
    unfolding that(1) by (rule sorted_inserted [OF cb sorted big that(2)])
  have not_ok: "wp (call (report_skipped K l n) (\<lambda>_. Done r')) Q s'"
    if "hp_ok X C s' t A R M" "hp_mem.more s' = hp_mem.more s" "card (live s') \<le> card (live s) + length (ws @ rs) + 1"
      "r \<noteq> CLDS_SORTED_LIST_INSERT_OK" "if r = CLDS_SORTED_LIST_INSERT_KEY_ALREADY_EXISTS then \<exists>x \<in> set (ws @ rs). ord K L (user s) item x = 0
          else \<not> plenty (Suc (length (ws @ rs))) s" "\<And>s2. G r s2 \<Longrightarrow> Q r' s2" for s' r r' Q
  proof -
    note m = same [OF that(2)]
    have "csl_ok Os K l L (ws @ rs) U R M (s'\<lparr>user := skipped_user K (L\<lparr>list_head := first_of (ws @ rs)\<rparr>) n (user s')\<rparr>)"
      by (rule csl_ok_skipped [OF cb m(5)])
    then have "G r (s'\<lparr>user := skipped_user K L n (user s)\<rparr>)"
      using that(1-5) m by (simp add: G_def)
    from that(6) [OF this] show ?thesis
      using wp_report_skipped [OF csl_okD(9) [OF m(5)]] m(4) by (simp add: wp_call wp_Done)
  qed
  have "wp (restarting b (\<lambda>v. walk b l t (insert_at_end b l t item)
        (call (report_skipped K l n) (\<lambda>_. Done (Finished CLDS_SORTED_LIST_INSERT_ERROR)))
        (insert_at_item K b l t item (key_of K L (user s) item) n) v b null null Head) ()) G s"
  proof (rule wp_search [OF hp ok room, where at_end = "\<lambda>_. insert_at_end b l t item"
        and no_hp = "\<lambda>_. call (report_skipped K l n) (\<lambda>_. Done (Finished CLDS_SORTED_LIST_INSERT_ERROR))"
        and at_item = "\<lambda>_. insert_at_item K b l t item (key_of K L (user s) item) n"], goal_cases)
    case (1 s' ph pi ch x Q')
    then show ?case using big [OF 1(1)] csl_okD(9) [OF ok] same(1-4) [OF 1(2)]
      by (simp add: insert_at_item_def wp_call wp_item_key wp_compare_keys wp_simps)
  next
    case (2 s' ph A'')
    note m = same [OF 2(4)]
    have "wp (call (on_node item (wr item_next_update (first_of rs))) (\<lambda>_. call (cas_link l (link_after ws) item (first_of rs)) (\<lambda>old.
        call (let_go b t ph) (\<lambda>_. Done (if old \<noteq> null then Restart () else Finished CLDS_SORTED_LIST_INSERT_OK)))))
        (\<lambda>e. case e of Restart v' \<Rightarrow> (\<lambda>_. False) | Finished r \<Rightarrow> G r) s'"
    proof (rule wp_link_in [OF m(5)])
      fix s2 :: "('q, 'u, 'a) csl_mem_scheme"
      assume s2: "csl_ok Os K l L (ws @ item # rs) (U(item := U item - 1)) R M s2" "hp_ok X C s2 t A'' R M"
        "words s2 = words s'" "user s2 = user s'" "live s2 = live s'"
      have "card (live s2) < b" using s2(5) 2(5) room by simp
      from wp_let_go [OF s2(2) 2(3) this]
      show "wp (call (let_go b t ph) (\<lambda>_. Done (if first_of rs \<noteq> null then Restart () else Finished CLDS_SORTED_LIST_INSERT_OK)))
        (\<lambda>e. case e of Restart v' \<Rightarrow> (\<lambda>_. False) | Finished r \<Rightarrow> G r) s2"
        by (rule wp_seq) (use 2(1,5) s2 m(3,4) OK [OF s2(1)] in \<open>simp add: wp_Done\<close>)
    qed (use item m 2(1,2) sorted' [OF m(4)] in simp_all)
    then show ?case unfolding insert_at_end_eq [OF 2(3) ws0] using 2(1) by simp
  next
    case (3 s')
    show ?case by (rule not_ok [OF 3(1-3), of CLDS_SORTED_LIST_INSERT_ERROR]) (use 3(4) in simp_all)
  next
    case (4 s' ph ch A'' x zs)
    note m = same [OF 4(6)]
    have room': "card (live s') < b" using 4(7) room by simp
    consider "ord K L (user s) item x = 0" | "ord K L (user s) item x < 0" using small [OF 4(1)] by linarith
    then show ?case
    proof cases
      case 1
      have "wp (call (let_go b t ph) (\<lambda>_. call (clds_hazard_pointers_release b t ch) (\<lambda>_. call (report_skipped K l n) (\<lambda>_.
          Done (Leave (Finished CLDS_SORTED_LIST_INSERT_KEY_ALREADY_EXISTS))))))
          (\<lambda>r s''. case r of Leave (Finished r) \<Rightarrow> G r s'' | _ \<Rightarrow> False) s'"
      proof (rule wp_let_go_both [OF 4(2,3,5) room'])
        fix s2 assume s2: "hp_mem.more s2 = hp_mem.more s'" "live s2 = live s'" "hp_ok X C s2 t A R M"
        show "wp (call (report_skipped K l n) (\<lambda>_. Done (Leave (Finished CLDS_SORTED_LIST_INSERT_KEY_ALREADY_EXISTS))))
            (\<lambda>r s''. case r of Leave (Finished r) \<Rightarrow> G r s'' | _ \<Rightarrow> False) s2"
          by (rule not_ok [OF s2(3), of CLDS_SORTED_LIST_INSERT_KEY_ALREADY_EXISTS]) (use s2 4(1,6,7) 1 in simp_all)
      qed
      then show ?thesis
        unfolding insert_at_item_def let_go_item [OF 4(5) ws0]
        using 1 csl_okD(9) [OF ok] m(1-4) by (simp add: wp_call wp_item_key wp_compare_keys)
    next
      case 2
      have "wp (call (on_node item (wr item_next_update (first_of rs))) (\<lambda>_. call (cas_link l (link_after ws) item (first_of rs)) (\<lambda>old.
          call (let_go b t ph) (\<lambda>_. call (clds_hazard_pointers_release b t ch) (\<lambda>_.
          if old \<noteq> x then Done (Leave (Restart ())) else Done (Leave (Finished CLDS_SORTED_LIST_INSERT_OK)))))))
          (\<lambda>r s''. case r of Leave (Finished r) \<Rightarrow> G r s'' | _ \<Rightarrow> False) s'"
      proof (rule wp_link_in [OF m(5)])
        fix s2 :: "('q, 'u, 'a) csl_mem_scheme"
        assume s2: "csl_ok Os K l L (ws @ item # rs) (U(item := U item - 1)) R M s2" "hp_ok X C s2 t (A''(ch \<mapsto> x)) R M"
          "words s2 = words s'" "user s2 = user s'" "live s2 = live s'"
        have "card (live s2) < b" using s2(5) room' by simp
        from wp_let_go_both [OF s2(2) 4(3,5) this]
        show "wp (call (let_go b t ph) (\<lambda>_. call (clds_hazard_pointers_release b t ch) (\<lambda>_.
            if first_of rs \<noteq> x then Done (Leave (Restart ())) else Done (Leave (Finished CLDS_SORTED_LIST_INSERT_OK)))))
            (\<lambda>r s''. case r of Leave (Finished r) \<Rightarrow> G r s'' | _ \<Rightarrow> False) s2"
          by this (use 4(1,7) s2 m(3,4) OK [OF s2(1)] in \<open>simp add: wp_Done\<close>)
      qed (use item m 4(1,2) 2 sorted' [OF m(4)] in simp_all)
      then show ?thesis
        unfolding insert_at_item_def insert_between_eq [OF 4(5) ws0]
        using 2 4(1) csl_okD(9) [OF ok] m(1-4) by (simp add: wp_call wp_item_key wp_compare_keys)
    qed
  qed
  then show ?thesis unfolding G_def ins xs [symmetric] .
qed

lemma wp_insert:
  fixes s :: "('q, 'u, 'a) csl_mem_scheme"
  assumes hp: "hp_ok X C s t A R M" and cb: "callbacks_ok K" and ok: "csl_ok Os K l L xs U R M s"
    and lock: "locked_for_write L = 0" and seq: "seq_ok L seq (words s)"
    and item: "csl_items s item \<noteq> None" "item \<notin> set xs" "0 < U item" "listed Os item = 0" and room: "card (live s) + length xs + 1 < b"
  shows "wp (clds_sorted_list_insert K b l t item seq)
    (\<lambda>r s'. hp_ok X C s' t A R M \<and> words s' = given_out seq (next_number L (words s)) (counted_on L (words s)) \<and>
      card (live s') \<le> card (live s) + length xs + 1 \<and>
      (if r = CLDS_SORTED_LIST_INSERT_OK
       then (\<forall>x \<in> set xs. ord K L (user s) item x \<noteq> 0) \<and> user s' = user s \<and>
         csl_ok Os K l L (insert_sorted K L (user s) item xs) (U(item := U item - 1)) R M s'
       else csl_ok Os K l L xs U R M s' \<and> user s' = skipped_user K L (next_number L (words s)) (user s) \<and>
         (if r = CLDS_SORTED_LIST_INSERT_KEY_ALREADY_EXISTS then \<exists>x \<in> set xs. ord K L (user s) item x = 0
          else \<not> plenty (Suc (length xs)) s))) s"
proof -
  define n where "n = next_number L (words s)"
  define W where "W = given_out seq n (counted_on L (words s))"
  define body :: "('q, 'u, 'a, clds_sorted_list_insert_result) csl_prog" where "body = call (item_key K l item) (\<lambda>new_item_key. call (take_sequence_number l seq) (\<lambda>local_seq_no.
     restarting b (\<lambda>v. walk b l t (insert_at_end b l t item)
       (call (report_skipped K l local_seq_no) (\<lambda>_. Done (Finished CLDS_SORTED_LIST_INSERT_ERROR)))
       (insert_at_item K b l t item new_item_key local_seq_no) v b null null Head) ()))"
  define P where "P = (\<lambda>r xs' U' R' M' (s' :: ('q, 'u, 'a) csl_mem_scheme). hp_ok X C s' t A R M \<and> words s' = W \<and>
      card (live s') \<le> card (live s) + length xs + 1 \<and> R' = R \<and> M' = M \<and>
      (if r = CLDS_SORTED_LIST_INSERT_OK
       then (\<forall>x \<in> set xs. ord K L (user s) item x \<noteq> 0) \<and> user s' = user s \<and>
         xs' = insert_sorted K L (user s) item xs \<and> U' = U(item := U item - 1)
       else xs' = xs \<and> U' = U \<and> user s' = skipped_user K L n (user s) \<and>
         (if r = CLDS_SORTED_LIST_INSERT_KEY_ALREADY_EXISTS then \<exists>x \<in> set xs. ord K L (user s) item x = 0
          else \<not> plenty (Suc (length xs)) s)))"
  have "wp (call (check_lock_and_begin_write_operation b (list_lock l)) (\<lambda>_. call body (\<lambda>r. call (end_write_operation (list_lock l)) (\<lambda>_. Done r))))
      (\<lambda>r s'. \<exists>xs' U' R' M'. csl_ok Os K l L xs' U' R' M' s' \<and> P r xs' U' R' M' s') s"
  proof (rule wp_write_operation [OF ok lock, where P = P])
    show "0 < b" using room by simp
    fix s1 :: "('q, 'u, 'a) csl_mem_scheme"
    define L1 where "L1 = L\<lparr>pending_write_operations := pending_write_operations L + 1\<rparr>"
    assume s1: "csl_ok Os K l (L\<lparr>pending_write_operations := pending_write_operations L + 1\<rparr>) xs U R M s1"
      "csl_items s1 = csl_items s" "words s1 = words s" "user s1 = user s" "live s1 = live s" "\<And>n. plenty n s1 = plenty n s"
      "\<And>X C t A R M. hp_ok X C s1 t A R M = hp_ok X C s t A R M"
    define s2 where "s2 = s1\<lparr>words := W\<rparr>"
    have l1: "csl_lists s1 l = Some (L1\<lparr>list_head := first_of xs\<rparr>)" unfolding L1_def by (rule csl_okD(9) [OF s1(1)])
    have ok2: "csl_ok Os K l L1 xs U R M s2" unfolding L1_def by (rule csl_ok_cong [OF s1(1)]) (simp_all add: s2_def)
    have f: "csl_items s2 = csl_items s" "words s2 = W" "user s2 = user s" "live s2 = live s" "plenty n s2 = plenty n s" for n
      using s1 plenty_cong [of s2 s1] by (simp_all add: s2_def)
    have f1: "key_of K L1 = key_of K L" "cmp K L1 = cmp K L" "skipped_user K L1 = skipped_user K L" "insert_sorted K L1 = insert_sorted K L"
      by (simp_all add: L1_def insert_sorted_def fun_eq_iff)
    have "hp_ok X C s2 t A R M" using hp s1(7) by (simp add: s2_def)
    from wp_insert_search [OF this cb ok2, of item b n, unfolded f f1, OF item room]
    have "wp (restarting b (\<lambda>v. walk b l t (insert_at_end b l t item)
         (call (report_skipped K l n) (\<lambda>_. Done (Finished CLDS_SORTED_LIST_INSERT_ERROR)))
         (insert_at_item K b l t item (key_of K L (user s) item) n) v b null null Head) ())
       (\<lambda>r s2. \<exists>xs' U' R' M'. csl_ok Os K l L1 xs' U' R' M' s2 \<and> P r xs' U' R' M' s2) s2"
      by (rule wp_mono) (auto simp: P_def split: if_splits)
    then show "wp body (\<lambda>r s2. \<exists>xs' U' R' M'. csl_ok Os K l (L\<lparr>pending_write_operations := pending_write_operations L + 1\<rparr>) xs' U' R' M' s2 \<and>
        P r xs' U' R' M' s2) s1"
      unfolding body_def L1_def [symmetric]
      using seq s1(3,4) by (simp add: wp_call wp_item_key [OF l1] wp_take_sequence_number [OF l1] L1_def s2_def W_def n_def)
  next
    show "P r xs' U' R' M' (s2\<lparr>csl_lists := m\<rparr>)" if "P r xs' U' R' M' s2" for r xs' U' R' M' s2 m
      using that by (simp add: P_def)
  next
    show "wp (Done r) (\<lambda>r s'. \<exists>xs' U' R' M'. csl_ok Os K l L xs' U' R' M' s' \<and> P r xs' U' R' M' s') s3"
      if "csl_ok Os K l L xs' U' R' M' s3" "P r xs' U' R' M' s3" for r xs' U' R' M' s3
      using that by (auto simp: wp_Done)
  qed
  moreover have "l \<noteq> null" "item \<noteq> null" "t \<noteq> null"
    using csl_okD(2) [OF ok] csl_okD(7) [OF ok] item(1) hp.client_memory [OF hp] by auto
  ultimately have "wp (clds_sorted_list_insert K b l t item seq) (\<lambda>r s'. \<exists>xs' U' R' M'. csl_ok Os K l L xs' U' R' M' s' \<and> P r xs' U' R' M' s') s"
    unfolding body_def call_assoc clds_sorted_list_insert_def
    using wp_no_counter_for [OF csl_okD(9) [OF ok]] seq by (simp add: wp_call)
  then show ?thesis
    by (rule wp_mono) (auto simp: P_def W_def n_def split: if_splits)
qed

section \<open>Unlinking\<close>

lemma unlink_found_eq:
  assumes "holding A us ph A''" and "null \<notin> set us"
  shows "unlink_found X K b l t on_unlinked okr seq ph (last_of us) ch x =
     call (cas_link l (Next x) null null) (\<lambda>p.
     call (cas_link l (Next x) (mark (unmark p)) (unmark p)) (\<lambda>old.
     if old \<noteq> unmark p then
       call (let_go b t ph) (\<lambda>_. call (clds_hazard_pointers_release b t ch) (\<lambda>_. Done (Leave (Restart ()))))
     else
       call (next_sequence_number l) (\<lambda>local_seq_no.
       call (cas_link l (link_after us) (unmark p) x) (\<lambda>old.
       if old \<noteq> x then unlink_lost K b l t ph ch x (unmark p) local_seq_no
       else unlink_won X K b l t on_unlinked okr seq ph ch x local_seq_no))))"
  using assms
  by (cases us rule: rev_exhaust) (auto simp: unlink_found_def Let_def fun_eq_iff intro!: arg_cong2 [of _ _ _ _ call])

text \<open>The node is marked and the link to it swung to its successor; the list's reference becomes the one owed to the reclaim call.\<close>

lemma csl_ok_unlinked:
  assumes ok: "csl_ok Os K l L (us @ x # vs) U R M s" and s1: "s1 = set_link s l (Next x) v"
    and s2: "csl_items s2 = csl_items s1" "csl_lists s2 = csl_lists s1" "user s2 = user s1" "csl_mem.more s2 = csl_mem.more s1"
  shows "csl_ok Os K l L (us @ vs) U (add_mset (reclaim_list_node_function K, x) R) M (set_link s2 l (link_after us) (first_of vs))"
    and "link_of s2 l (link_after us) = Some x"
proof -
  have at: "list_at s l L (us @ x # vs)" by (rule csl_okD(1) [OF ok])
  have chain: "heap_chain (itm_next s) (first_of (us @ x # vs)) (us @ x # vs)" using at by (simp add: list_at_def)
  have x: "x \<notin> set us" "x \<notin> set vs" "set us \<inter> set vs = {}" using heap_chain_distinct [OF chain] by auto
  obtain I where I: "csl_items s x = Some I"
    by (rule csl_ok_accounted [OF ok, of x]) simp_all
  have nxt: "itm_next s2 = (itm_next s)(x \<mapsto> v)" using I by (auto simp: s1 s2 set_link_def fun_eq_iff)
  have "heap_chain (itm_next s) (first_of vs) vs"
  proof -
    obtain q where "heap_chain (itm_next s) q vs" using chain by (auto simp: heap_chain_append)
    moreover from this have "q = first_of vs" by (auto dest: heap_chain_first simp: first_of_def)
    ultimately show ?thesis by simp
  qed
  then have tail: "heap_chain (itm_next s2) (first_of vs) vs" using x by (simp add: nxt)
  have same: "csl_lists s2 = csl_lists s" "user s2 = user s" "csl_mem.more s2 = csl_mem.more s" "dom (csl_items s2) = dom (csl_items s)" "refs s2 = refs s"
    using I by (auto simp: s1 s2 set_link_def refs_def fun_eq_iff)
  have before: "itm_next s2 u = itm_next s u" if "u \<in> set us \<or> 0 < listed Os u" for u using fun_cong [OF nxt, of u] that x csl_okD(11) [OF ok, of x] by auto
  have sorted: "sorted_wrt (\<lambda>x y. ord K L (user s) x y < 0) (us @ vs)" using csl_okD(5) [OF ok] by (auto simp: sorted_wrt_append)
  have acc: "of_bool (y \<in> set (us @ vs)) + listed Os y + count (add_mset (reclaim_list_node_function K, x) R) (reclaim_list_node_function K, y) + U y \<le> refs s y" for y
    using csl_okD(6) [OF ok, of y] x by (cases "y = x") auto
  have owed: "fst r = reclaim_list_node_function K" if "r \<in># add_mset (reclaim_list_node_function K, x) R" for r
    using that csl_okD(12) [OF ok, of r] by auto
  have al: "\<forall>x \<in> set vs. aligned x" using at by (simp add: list_at_def)
  have fresh: "listed Os y = 0" if "y \<in> set vs" for y using that csl_okD(11) [OF ok, of y] by simp
  note r = csl_ok_relink [OF ok same before tail x(3) al sorted fresh acc owed]
  show "csl_ok Os K l L (us @ vs) U (add_mset (reclaim_list_node_function K, x) R) M (set_link s2 l (link_after us) (first_of vs))" by (rule r(1))
  show "link_of s2 l (link_after us) = Some x" using r(2) by simp
qed

lemma wp_next_sequence_number:
  assumes "csl_lists s l = Some L" and "seq_ok L seq (words s)"
  shows "wp (next_sequence_number l) Q s = Q (next_number L (words s)) (s\<lparr>words := counted_on L (words s)\<rparr>)"
  using assms
  by (cases s) (auto simp: next_sequence_number_def increment_def wp_simps access_kinds seq_ok_def next_number_def counted_on_def)

text \<open>Retiring the node, at the end of an operation.\<close>

lemma wp_retire:
  fixes s :: "('q, 'u, 'a) csl_mem_scheme"
  assumes hp: "hp_ok X C s t A R M" and cb: "callbacks_ok K"
    and ok: "csl_ok Os K l L xs U (add_mset (reclaim_list_node_function K, x) R) M s" and x: "x \<noteq> null" and room: "2 * card (live s) + 4 < b"
  shows "wp (clds_hazard_pointers_reclaim X (list_reclaim K) b t x (reclaim_list_node_function K))
    (\<lambda>_ s'. \<exists>R' M'. R' \<subseteq># add_mset (reclaim_list_node_function K, x) R \<and> M' \<subseteq> M \<and> hp_ok X C s' t A R' M' \<and>
      csl_ok Os K l L xs U R' M' s' \<and> words s' = words s \<and> cleanups K (user s) (user s') \<and> card (live s') \<le> Suc (card (live s)) \<and>
      (plenty 1 s \<longrightarrow> settled K U (add_mset (reclaim_list_node_function K, x) R) s U R' s')) s"
proof -
  define N where "N = add_mset (reclaim_list_node_function K, x) R"
  define n where "n = (\<lambda>y. refs s y - count N (reclaim_list_node_function K, y))"
  have inv: "reclaim_inv Os K l L xs U (words s) (user s) N M s"
    using ok by (simp add: reclaim_inv_def N_def)
  have n: "refs s y = n y + count N (reclaim_list_node_function K, y)" for y
    using csl_okD(6) [OF ok [folded N_def], of y] by (simp add: n_def)
  show ?thesis
    unfolding N_def [symmetric]
  proof (cases "plenty 1 s")
    case True
    have "settled_inv Os K l L xs U (words s) (user s) n N M s" using inv n by (simp add: settled_inv_def)
    from hp.reclaim [OF hp x room list_reclaim_settled [OF cb] this [unfolded N_def] disjI1, OF True]
    show "wp (clds_hazard_pointers_reclaim X (list_reclaim K) b t x (reclaim_list_node_function K))
      (\<lambda>_ s'. \<exists>R' M'. R' \<subseteq># N \<and> M' \<subseteq> M \<and> hp_ok X C s' t A R' M' \<and> csl_ok Os K l L xs U R' M' s' \<and> words s' = words s \<and>
        cleanups K (user s) (user s') \<and> card (live s') \<le> Suc (card (live s)) \<and> (plenty 1 s \<longrightarrow> settled K U N s U R' s')) s"
      by (rule wp_mono) (auto simp: settled_inv_def reclaim_inv_def settled_def n N_def)
  next
    case False
    from hp.reclaim [OF hp x room list_reclaim_ok [OF cb] inv [unfolded N_def] disjI2, OF list_drop_ok]
    show "wp (clds_hazard_pointers_reclaim X (list_reclaim K) b t x (reclaim_list_node_function K))
      (\<lambda>_ s'. \<exists>R' M'. R' \<subseteq># N \<and> M' \<subseteq> M \<and> hp_ok X C s' t A R' M' \<and> csl_ok Os K l L xs U R' M' s' \<and> words s' = words s \<and>
        cleanups K (user s) (user s') \<and> card (live s') \<le> Suc (card (live s)) \<and> (plenty 1 s \<longrightarrow> settled K U N s U R' s')) s"
      by (rule wp_mono) (use False in \<open>auto simp: reclaim_inv_def N_def\<close>)
  qed
qed

lemma wp_unlink_won:
  fixes s :: "('q, 'u, 'a) csl_mem_scheme"
  assumes hp: "hp_ok X C s t (A''(ch \<mapsto> x)) R M" and A: "A'' ch = None" "holding A us ph A''" and cb: "callbacks_ok K"
    and ok: "csl_ok Os K l L xs U (add_mset (reclaim_list_node_function K, x) R) M s" and x: "x \<noteq> null"
    and room: "2 * card (live s) + 4 < b" and seq: "seq_ok L seq (F (words s))"
    and unl: "\<And>Q. (\<And>s4. csl_ok Os K l L xs U' (add_mset (reclaim_list_node_function K, x) R) M s4 \<Longrightarrow> words s4 = F (words s) \<Longrightarrow>
        user s4 = user s \<Longrightarrow> live s4 = live s \<Longrightarrow> hp_ok X C s4 t (A''(ch \<mapsto> x)) R M \<Longrightarrow> answers s4 = answers s \<Longrightarrow>
        (\<And>y. refs s4 y + U y = refs s y + U' y) \<Longrightarrow> Q () s4) \<Longrightarrow> wp (on_unlinked x) Q s"
    and Q: "\<And>s' R' M'. R' \<subseteq># add_mset (reclaim_list_node_function K, x) R \<Longrightarrow> M' \<subseteq> M \<Longrightarrow> hp_ok X C s' t A R' M' \<Longrightarrow>
      csl_ok Os K l L xs U' R' M' s' \<Longrightarrow> words s' = given_out seq v (F (words s)) \<Longrightarrow> cleanups K (user s) (user s') \<Longrightarrow>
      (plenty 1 s \<Longrightarrow> settled K U (add_mset (reclaim_list_node_function K, x) R) s U' R' s') \<Longrightarrow> Q (Leave (Finished okr)) s'"
  shows "wp (unlink_won X K b l t on_unlinked okr seq ph ch x v) Q s"
proof -
  have rest: "wp (call (on_list l (rd sequence_number)) (\<lambda>p. call (if p \<noteq> null \<and> seq \<noteq> null then store seq v else Done ()) (\<lambda>_.
     call (let_go b t ph) (\<lambda>_. call (clds_hazard_pointers_release b t ch) (\<lambda>_.
     call (clds_hazard_pointers_reclaim X (list_reclaim K) b t x (reclaim_list_node_function K)) (\<lambda>_. Done (Leave (Finished okr)))))))) Q s4"
    if s4: "csl_ok Os K l L xs U' (add_mset (reclaim_list_node_function K, x) R) M s4" "words s4 = F (words s)"
      "user s4 = user s" "live s4 = live s" "hp_ok X C s4 t (A''(ch \<mapsto> x)) R M"
      "answers s4 = answers s" "\<And>y. refs s4 y + U y = refs s y + U' y" for s4
  proof -
    define s5 where "s5 = s4\<lparr>words := given_out seq v (words s4)\<rparr>"
    have ok5: "csl_ok Os K l L xs U' (add_mset (reclaim_list_node_function K, x) R) M s5"
      by (rule csl_ok_cong [OF s4(1)]) (simp_all add: s5_def)
    have "wp (call (let_go b t ph) (\<lambda>_. call (clds_hazard_pointers_release b t ch) (\<lambda>_.
        call (clds_hazard_pointers_reclaim X (list_reclaim K) b t x (reclaim_list_node_function K)) (\<lambda>_. Done (Leave (Finished okr)))))) Q s5"
    proof (rule wp_let_go_both [OF _ A])
      show "hp_ok X C s5 t (A''(ch \<mapsto> x)) R M" "card (live s5) < b" using s4 room by (simp_all add: s5_def)
      fix s6 assume s6: "hp_mem.more s6 = hp_mem.more s5" "live s6 = live s5" "hp_ok X C s6 t A R M" "\<And>n. plenty n s5 \<Longrightarrow> plenty n s6"
      have p6: "plenty 1 s6" if "plenty 1 s"
        by (rule s6(4)) (use that s4(4,6) plenty_cong [of s5 s 1] in \<open>simp add: s5_def\<close>)
      have r6: "refs s6 = refs s4" using csl_moreD(1) [OF s6(1)] by (simp add: refs_def s5_def fun_eq_iff)
      have "2 * card (live s6) + 4 < b" using s6(2) s4(4) room by (simp add: s5_def)
      from wp_retire [OF s6(3) cb csl_ok_more [OF ok5 s6(1)] x this]
      show "wp (call (clds_hazard_pointers_reclaim X (list_reclaim K) b t x (reclaim_list_node_function K)) (\<lambda>_. Done (Leave (Finished okr)))) Q s6"
      proof (rule wp_seq, elim exE conjE)
        fix a and s' :: "('q, 'u, 'a) csl_mem_scheme" and R' M'
        assume r: "R' \<subseteq># add_mset (reclaim_list_node_function K, x) R" "M' \<subseteq> M" "hp_ok X C s' t A R' M'" "csl_ok Os K l L xs U' R' M' s'"
          "words s' = words s6" "cleanups K (user s6) (user s')" "card (live s') \<le> Suc (card (live s6))"
          "plenty 1 s6 \<longrightarrow> settled K U' (add_mset (reclaim_list_node_function K, x) R) s6 U' R' s'"
        have st: "settled K U (add_mset (reclaim_list_node_function K, x) R) s U' R' s'" if "plenty 1 s"
          unfolding settled_def
        proof
          fix y show "refs s' y + count (add_mset (reclaim_list_node_function K, x) R) (reclaim_list_node_function K, y) + U y =
              refs s y + count R' (reclaim_list_node_function K, y) + U' y"
            using r(8) p6 [OF that] s4(7) [of y] by (simp add: settled_def r6)
        qed
        show "wp (Done (Leave (Finished okr))) Q s'"
          unfolding wp_Done by (rule Q [OF r(1-4)]) (use st r(5,6) csl_moreD(3,4) [OF s6(1)] s4(2,3) in \<open>simp_all add: s5_def\<close>)
      qed
    qed
    moreover have "wp (call (if sequence_number L \<noteq> null \<and> seq \<noteq> null then store seq v else Done ()) k) Q s4 = wp (k ()) Q s5" for k
      using seq s4(2) by (cases s4) (auto simp: s5_def given_out_def seq_ok_def store_def wp_simps)
    ultimately show ?thesis
      using csl_okD(9) [OF s4(1)] by (simp add: wp_call [of "on_list _ _"] wp_access rd_def)
  qed
  show ?thesis
    unfolding unlink_won_def by (subst wp_call, rule unl, rule rest, assumption+)
qed

text \<open>
  The loop of \<open>internal_delete\<close> and \<open>internal_remove\<close>. \<open>c x\<close> is what \<open>item_compare\<close> gives at \<open>x\<close>;
  \<open>F x\<close> and \<open>U' x\<close> are what \<open>on_unlinked\<close> makes of the caller's cells and of the references.
\<close>

lemma wp_unlink_item:
  fixes s :: "('q, 'u, 'a) csl_mem_scheme"
  assumes hp: "hp_ok X C s t A R M" and cb: "callbacks_ok K" and ok: "csl_ok Os K l L xs U R M s"
    and seq: "seq_ok L seq (words s)" and room: "2 * (card (live s) + length xs + 1) + 4 < b"
    and compare: "\<And>s' x Q. x \<in> set xs \<Longrightarrow> hp_mem.more s' = hp_mem.more s \<Longrightarrow> wp (item_compare x target) Q s' = Q (c x) s'"
    and unl: "\<And>s3 x R A Q. find (\<lambda>x. c x = 0) xs = Some x \<Longrightarrow> csl_ok Os K l L (remove1 x xs) U R M s3 \<Longrightarrow> csl_items s3 x \<noteq> None \<Longrightarrow>
        refs s3 x = refs s x \<Longrightarrow> x \<noteq> null \<Longrightarrow> words s3 = counted_on L (words s) \<Longrightarrow>
        (\<And>s4. csl_ok Os K l L (remove1 x xs) (U' x) R M s4 \<Longrightarrow> words s4 = F x (words s3) \<Longrightarrow> user s4 = user s3 \<Longrightarrow>
           live s4 = live s3 \<Longrightarrow> (\<And>X C t A R M. hp_ok X C s4 t A R M = hp_ok X C s3 t A R M) \<Longrightarrow>
           answers s4 = answers s3 \<Longrightarrow> (\<And>y. refs s4 y + U y = refs s3 y + U' x y) \<Longrightarrow> Q () s4) \<Longrightarrow> wp (on_unlinked x) Q s3"
    and F: "\<And>x W. dom W \<subseteq> dom (F x W)"
  shows "wp (unlink_item X K b l t on_unlinked okr not_found err item_compare target seq)
    (\<lambda>r s'. (\<exists>x R' M'. find (\<lambda>x. c x = 0) xs = Some x \<and> r = okr \<and> R' \<subseteq># add_mset (reclaim_list_node_function K, x) R \<and> M' \<subseteq> M \<and>
        hp_ok X C s' t A R' M' \<and> csl_ok Os K l L (remove1 x xs) (U' x) R' M' s' \<and>
        words s' = given_out seq (next_number L (words s)) (F x (counted_on L (words s))) \<and> cleanups K (user s) (user s') \<and>
        (plenty (Suc (Suc (length xs))) s \<longrightarrow> settled K U (add_mset (reclaim_list_node_function K, x) R) s (U' x) R' s')) \<or>
      hp_ok X C s' t A R M \<and> csl_ok Os K l L xs U R M s' \<and> walked (length xs) s s' \<and> (r = not_found \<and> find (\<lambda>x. c x = 0) xs = None \<or> r = err \<and> \<not> plenty (Suc (length xs)) s)) s"
proof -
  define P where "P = (\<lambda>x. c x = 0)"
  define ws rs where "ws = takeWhile (Not \<circ> P) xs" and "rs = dropWhile (Not \<circ> P) xs"
  have xs: "xs = ws @ rs" by (simp add: ws_def rs_def)
  have find: "find P (ws @ rs) = (case rs of [] \<Rightarrow> None | x # _ \<Rightarrow> Some x)" by (simp add: ws_def rs_def find_dropWhile)
  have no: "\<not> P x" if "x \<in> set ws" for x using that set_takeWhileD [of x "Not \<circ> P" xs] by (simp add: ws_def)
  have yes: "P x" if "rs = x # zs" for x zs using that by (metis comp_apply dropWhile_eq_Cons_conv rs_def)
  define G where "G = (\<lambda>r (s' :: ('q, 'u, 'a) csl_mem_scheme). (\<exists>x R' M'. find P (ws @ rs) = Some x \<and> r = okr \<and>
        R' \<subseteq># add_mset (reclaim_list_node_function K, x) R \<and> M' \<subseteq> M \<and>
        hp_ok X C s' t A R' M' \<and> csl_ok Os K l L (remove1 x (ws @ rs)) (U' x) R' M' s' \<and>
        words s' = given_out seq (next_number L (words s)) (F x (counted_on L (words s))) \<and> cleanups K (user s) (user s') \<and>
        (plenty (Suc (Suc (length (ws @ rs)))) s \<longrightarrow> settled K U (add_mset (reclaim_list_node_function K, x) R) s (U' x) R' s')) \<or>
      hp_ok X C s' t A R M \<and> csl_ok Os K l L (ws @ rs) U R M s' \<and> walked (length (ws @ rs)) s s' \<and> (r = not_found \<and> find P (ws @ rs) = None \<or> r = err \<and> \<not> plenty (Suc (length (ws @ rs))) s))"
  note ok = ok [unfolded xs] and room = room [unfolded xs] and compare = compare [unfolded xs] and unl = unl [unfolded xs, folded P_def]
  note same = csl_moreD csl_ok_more [OF ok]
  have ws0: "null \<notin> set ws" using csl_ok_not_null [OF ok] by simp
  define visit where "visit = (\<lambda>previous_hp previous_item current_item_hp current_item.
          call (item_compare current_item target) (\<lambda>compare_result.
          if compare_result = 0 then
            unlink_found X K b l t on_unlinked okr seq previous_hp previous_item current_item_hp current_item
          else Done Advance))"
  have "wp (restarting b (\<lambda>v. walk b l t (\<lambda>previous_hp previous_item. call (let_go b t previous_hp) (\<lambda>_. Done (Finished not_found)))
      (Done (Finished err)) visit v b null null Head) ()) G s"
  proof (rule wp_search [OF hp ok, where at_end = "\<lambda>_. (\<lambda>ph pi. call (let_go b t ph) (\<lambda>_. Done (Finished not_found)))"
        and no_hp = "\<lambda>_. Done (Finished err)" and at_item = "\<lambda>_. visit"], goal_cases)
    case 1
    show ?case using room by simp
  next
    case (2 s' ph pi ch x Q')
    then show ?case using no [OF 2(1)] compare [of x s'] by (simp add: visit_def P_def wp_call wp_Done)
  next
    case (3 s' ph A'')
    show ?case
    proof (rule wp_seq [OF wp_let_go [OF 3(2,3)]])
      show "card (live s') < b" using 3(5) room by simp
      fix a s1
      assume s1: "hp_mem.more s1 = hp_mem.more s' \<and> live s1 = live s' \<and> (\<forall>k. plenty k s' \<longrightarrow> plenty k s1) \<and> hp_ok X C s1 t A R M"
      then have "hp_mem.more s1 = hp_mem.more s" using 3(4) by simp
      from same [OF this] s1 3(1,5,6) find show "wp (Done (Finished not_found)) (\<lambda>e. case e of Restart v' \<Rightarrow> (\<lambda>_. False) | Finished r \<Rightarrow> G r) s1"
        by (simp add: wp_simps G_def walked_def)
    qed
  next
    case (4 s')
    have "\<not> plenty (k + Suc (length (ws @ rs))) s" for k by (rule not_plenty_more [OF 4(4)]) simp
    with 4 show ?case using same [OF 4(2)] by (simp add: wp_simps G_def walked_def)
  next
    case (5 s' ph ch A'' x zs)
    note m = same [OF 5(6)]
    note okx = m(5) [unfolded 5(1)]
    have found: "find P (ws @ rs) = Some x" using find 5(1) by simp
    have "x \<notin> set ws" using no yes [OF 5(1)] by blast
    then have rem: "remove1 x (ws @ rs) = ws @ zs" using 5(1) by (simp add: remove1_append)
    have x: "x \<noteq> null" "aligned x" "itm_next s' x = Some (first_of zs)" using list_at_node [OF csl_okD(1) [OF okx]] by simp_all
    have zs: "aligned (first_of zs)" using csl_okD(1) [OF okx] by (cases zs) (simp_all add: list_at_def)
    obtain I where I: "csl_items s' x = Some I" using x(3) by auto
    have room': "2 * card (live s') + 4 < b" using 5(7) room by simp
    define s1 where "s1 = set_link s' l (Next x) (mark (first_of zs))"
    define s2 where "s2 = s1\<lparr>words := counted_on L (words s1)\<rparr>"
    define s3 where "s3 = set_link s2 l (link_after ws) (first_of zs)"
    have link: "link_of s2 l (link_after ws) = Some x"
      and ok3: "csl_ok Os K l L (ws @ zs) U (add_mset (reclaim_list_node_function K, x) R) M s3"
      using csl_ok_unlinked [OF okx s1_def, of s2] by (simp_all add: s2_def s3_def)
    have hp3: "hp_ok X C s3 t (A''(ch \<mapsto> x)) R M" "words s3 = counted_on L (words s)" "user s3 = user s" "live s3 = live s'"
      using 5(2) m(3,4) by (simp_all add: s3_def s2_def s1_def)
    have r3: "refs s3 = refs s" "csl_items s3 x \<noteq> None"
    proof -
      have "refs s2 = refs s'" "dom (csl_items s2) = dom (csl_items s')"
        using set_link_items [of s' l "Next x" "mark (first_of zs)"] x(3) by (simp_all add: s2_def s1_def link_of_def refs_def fun_eq_iff)
      with set_link_items [of s2 l "link_after ws" "first_of zs"] link I
      show "refs s3 = refs s" "csl_items s3 x \<noteq> None" using m(1) by (auto simp: s3_def refs_def fun_eq_iff)
    qed
    have seq3: "seq_ok L seq (F x (words s3))"
      using F [of "counted_on L (words s)" x] seq by (auto simp: hp3(2) seq_ok_def counted_on_def split: if_splits)
    have won: "wp (unlink_won X K b l t on_unlinked okr seq ph ch x (next_number L (words s)))
        (\<lambda>r s''. case r of Leave (Finished r) \<Rightarrow> G r s'' | _ \<Rightarrow> False) s3"
    proof (rule wp_unlink_won [where F = "F x" and U' = "U' x", OF hp3(1) 5(3,5) cb ok3 x(1) _ seq3])
      show "2 * card (live s3) + 4 < b" using room' hp3(4) by simp
      show "wp (on_unlinked x) Q s3"
        if "\<And>s4. csl_ok Os K l L (ws @ zs) (U' x) (add_mset (reclaim_list_node_function K, x) R) M s4 \<Longrightarrow> words s4 = F x (words s3) \<Longrightarrow>
          user s4 = user s3 \<Longrightarrow> live s4 = live s3 \<Longrightarrow> hp_ok X C s4 t (A''(ch \<mapsto> x)) R M \<Longrightarrow>
          answers s4 = answers s3 \<Longrightarrow> (\<And>y. refs s4 y + U y = refs s3 y + U' x y) \<Longrightarrow> Q () s4" for Q
      proof (rule unl [OF found])
        fix s4 :: "('q, 'u, 'a) csl_mem_scheme"
        assume s4: "csl_ok Os K l L (remove1 x (ws @ rs)) (U' x) (add_mset (reclaim_list_node_function K, x) R) M s4" "words s4 = F x (words s3)"
          "user s4 = user s3" "live s4 = live s3" "\<And>X C t A R M. hp_ok X C s4 t A R M = hp_ok X C s3 t A R M"
          "answers s4 = answers s3" "\<And>y. refs s4 y + U y = refs s3 y + U' x y"
        show "Q () s4" by (rule that [OF s4(1) [unfolded rem] s4(2-4)]) (simp_all add: s4(5-7) hp3(1))
      qed (use ok3 r3 x(1) hp3 rem in simp_all)
    next
      fix s'' R' M'
      assume r: "R' \<subseteq># add_mset (reclaim_list_node_function K, x) R" "M' \<subseteq> M" "hp_ok X C s'' t A R' M'"
        "csl_ok Os K l L (ws @ zs) (U' x) R' M' s''" "words s'' = given_out seq (next_number L (words s)) (F x (words s3))"
        "cleanups K (user s3) (user s'')"
        "plenty 1 s3 \<Longrightarrow> settled K U (add_mset (reclaim_list_node_function K, x) R) s3 (U' x) R' s''"
      have st: "settled K U (add_mset (reclaim_list_node_function K, x) R) s (U' x) R' s''" if "plenty (Suc (Suc (length (ws @ rs)))) s"
      proof -
        have "plenty 1 s'" by (rule 5(8)) (use that in simp)
        then have "plenty 1 s3" using plenty_cong [of s3 s' 1] hp3(4) by (simp add: s3_def s2_def s1_def)
        from r(7) [OF this] show ?thesis by (simp add: settled_def r3(1))
      qed
      have "G okr s''"
        unfolding G_def using r(1-6) st hp3 found rem by (intro disjI1 exI [of _ x] exI [of _ R'] exI [of _ M'] conjI) simp_all
      then show "case Leave (Finished okr) of Leave (Finished r) \<Rightarrow> G r s'' | _ \<Rightarrow> False" by simp
    qed
    have "wp (call (next_sequence_number l) (\<lambda>local_seq_no. call (cas_link l (link_after ws) (first_of zs) x) (\<lambda>old.
         if old \<noteq> x then unlink_lost K b l t ph ch x (first_of zs) local_seq_no
         else unlink_won X K b l t on_unlinked okr seq ph ch x local_seq_no)))
        (\<lambda>r s''. case r of Leave (Finished r) \<Rightarrow> G r s'' | _ \<Rightarrow> False) s1"
    proof -
      have "csl_lists s1 l = Some (L\<lparr>list_head := first_of (ws @ rs)\<rparr>)" using csl_okD(9) [OF m(5)] by (simp add: s1_def set_link_def)
      from wp_next_sequence_number [OF this] won link seq m(3)
      show ?thesis by (simp add: wp_call wp_cas_link s3_def s2_def s1_def)
    qed
    then have "wp (unlink_found X K b l t on_unlinked okr seq ph (last_of ws) ch x) (\<lambda>r s''. case r of Leave (Finished r) \<Rightarrow> G r s'' | _ \<Rightarrow> False) s'"
      unfolding unlink_found_eq [OF 5(5) ws0]
      using x(3) I zs by (simp add: wp_call wp_read_link wp_cas_link link_of_def s1_def cong: if_cong)
    then show ?case
      using yes [OF 5(1)] compare [of x s'] 5(1,6) by (simp add: visit_def P_def wp_call)
  qed
  then show ?thesis unfolding unlink_item_def visit_def G_def P_def xs [symmetric] .
qed

text \<open>The same, as a write operation.\<close>

lemma wp_unlink_operation:
  fixes s :: "('q, 'u, 'a) csl_mem_scheme"
  assumes hp: "hp_ok X C s t A R M" and cb: "callbacks_ok K" and ok: "csl_ok Os K l L xs U R M s"
    and lock: "locked_for_write L = 0" and seq: "seq_ok L seq (words s)" and room: "2 * (card (live s) + length xs + 1) + 4 < b"
    and compare: "\<And>s' x Q v. x \<in> set xs \<Longrightarrow> user s' = user s \<Longrightarrow>
        csl_lists s' l = Some (L\<lparr>list_head := first_of xs, pending_write_operations := v\<rparr>) \<Longrightarrow> wp (item_compare x target) Q s' = Q (c x) s'"
    and unl: "\<And>L s3 x R A Q. find (\<lambda>x. c x = 0) xs = Some x \<Longrightarrow> csl_ok Os K l L (remove1 x xs) U R M s3 \<Longrightarrow> csl_items s3 x \<noteq> None \<Longrightarrow>
        refs s3 x = refs s x \<Longrightarrow> x \<noteq> null \<Longrightarrow> words s3 = counted_on L (words s) \<Longrightarrow>
        (\<And>s4. csl_ok Os K l L (remove1 x xs) (U' x) R M s4 \<Longrightarrow> words s4 = F x (words s3) \<Longrightarrow> user s4 = user s3 \<Longrightarrow>
           live s4 = live s3 \<Longrightarrow> (\<And>X C t A R M. hp_ok X C s4 t A R M = hp_ok X C s3 t A R M) \<Longrightarrow>
           answers s4 = answers s3 \<Longrightarrow> (\<And>y. refs s4 y + U y = refs s3 y + U' x y) \<Longrightarrow> Q () s4) \<Longrightarrow> wp (on_unlinked x) Q s3"
    and F: "\<And>x W. dom W \<subseteq> dom (F x W)"
  shows "wp (call (check_lock_and_begin_write_operation b (list_lock l)) (\<lambda>_.
      call (unlink_item X K b l t on_unlinked okr not_found err item_compare target seq) (\<lambda>r.
      call (end_write_operation (list_lock l)) (\<lambda>_. Done r))))
    (\<lambda>r s'. (\<exists>x R' M'. find (\<lambda>x. c x = 0) xs = Some x \<and> r = okr \<and> R' \<subseteq># add_mset (reclaim_list_node_function K, x) R \<and> M' \<subseteq> M \<and>
        hp_ok X C s' t A R' M' \<and> csl_ok Os K l L (remove1 x xs) (U' x) R' M' s' \<and>
        words s' = given_out seq (next_number L (words s)) (F x (counted_on L (words s))) \<and> cleanups K (user s) (user s') \<and>
        (plenty (Suc (Suc (length xs))) s \<longrightarrow> settled K U (add_mset (reclaim_list_node_function K, x) R) s (U' x) R' s')) \<or>
      hp_ok X C s' t A R M \<and> csl_ok Os K l L xs U R M s' \<and> walked (length xs) s s' \<and> (r = not_found \<and> find (\<lambda>x. c x = 0) xs = None \<or> r = err \<and> \<not> plenty (Suc (length xs)) s)) s"
proof -
  define P where "P = (\<lambda>r xs' U'' R' M' (s' :: ('q, 'u, 'a) csl_mem_scheme).
      (\<exists>x. find (\<lambda>x. c x = 0) xs = Some x \<and> r = okr \<and> R' \<subseteq># add_mset (reclaim_list_node_function K, x) R \<and> M' \<subseteq> M \<and>
        hp_ok X C s' t A R' M' \<and> xs' = remove1 x xs \<and> U'' = U' x \<and>
        words s' = given_out seq (next_number L (words s)) (F x (counted_on L (words s))) \<and> cleanups K (user s) (user s') \<and>
        (plenty (Suc (Suc (length xs))) s \<longrightarrow> settled K U (add_mset (reclaim_list_node_function K, x) R) s (U' x) R' s')) \<or>
      hp_ok X C s' t A R M \<and> xs' = xs \<and> U'' = U \<and> R' = R \<and> M' = M \<and> walked (length xs) s s' \<and> (r = not_found \<and> find (\<lambda>x. c x = 0) xs = None \<or> r = err \<and> \<not> plenty (Suc (length xs)) s))"
  define L1 where "L1 = L\<lparr>pending_write_operations := pending_write_operations L + 1\<rparr>"
  have "wp (call (check_lock_and_begin_write_operation b (list_lock l)) (\<lambda>_.
      call (unlink_item X K b l t on_unlinked okr not_found err item_compare target seq) (\<lambda>r.
      call (end_write_operation (list_lock l)) (\<lambda>_. Done r))))
      (\<lambda>r s'. \<exists>xs' U'' R' M'. csl_ok Os K l L xs' U'' R' M' s' \<and> P r xs' U'' R' M' s') s"
  proof (rule wp_write_operation [OF ok lock, where P = P, folded L1_def])
    show "0 < b" using room by simp
    fix s1 :: "('q, 'u, 'a) csl_mem_scheme"
    assume s1: "csl_ok Os K l L1 xs U R M s1" "csl_items s1 = csl_items s" "words s1 = words s" "user s1 = user s" "live s1 = live s"
      "\<And>n. plenty n s1 = plenty n s" "\<And>X C t A R M. hp_ok X C s1 t A R M = hp_ok X C s t A R M"
    have f1: "next_number L1 = next_number L" "counted_on L1 = counted_on L" "seq_ok L1 = seq_ok L" by (simp_all add: L1_def)
    have refs1: "refs s1 = refs s" using s1(2) by (simp add: refs_def fun_eq_iff)
    have settled1: "settled K U R s1 U' R' s' = settled K U R s U' R' s'" for U R U' R' and s' :: "('q, 'u, 'a) csl_mem_scheme"
      by (simp add: settled_def refs1)
    have walked1: "walked n s1 = walked n s" for n using s1(2-6) by (simp add: walked_def fun_eq_iff)
    have "wp (unlink_item X K b l t on_unlinked okr not_found err item_compare target seq)
      (\<lambda>r s'. (\<exists>x R' M'. find (\<lambda>x. c x = 0) xs = Some x \<and> r = okr \<and> R' \<subseteq># add_mset (reclaim_list_node_function K, x) R \<and> M' \<subseteq> M \<and>
          hp_ok X C s' t A R' M' \<and> csl_ok Os K l L1 (remove1 x xs) (U' x) R' M' s' \<and>
          words s' = given_out seq (next_number L1 (words s1)) (F x (counted_on L1 (words s1))) \<and> cleanups K (user s1) (user s') \<and>
          (plenty (Suc (Suc (length xs))) s1 \<longrightarrow> settled K U (add_mset (reclaim_list_node_function K, x) R) s1 (U' x) R' s')) \<or>
        hp_ok X C s' t A R M \<and> csl_ok Os K l L1 xs U R M s' \<and> walked (length xs) s1 s' \<and> (r = not_found \<and> find (\<lambda>x. c x = 0) xs = None \<or> r = err \<and> \<not> plenty (Suc (length xs)) s1)) s1"
    proof (rule wp_unlink_item [where F = F and U' = U', OF _ cb s1(1)])
      show "hp_ok X C s1 t A R M" using hp s1(7) by simp
      show "seq_ok L1 seq (words s1)" using seq s1(3) f1 by simp
      show "2 * (card (live s1) + length xs + 1) + 4 < b" using room s1(5) by simp
      show "dom W \<subseteq> dom (F x W)" for x W by (rule F)
      show "wp (item_compare x target) Q s' = Q (c x) s'" if "x \<in> set xs" "hp_mem.more s' = hp_mem.more s1" for s' x Q
      proof (rule compare [OF that(1)])
        show "user s' = user s" using csl_moreD(4) [OF that(2)] s1(4) by simp
        show "csl_lists s' l = Some (L\<lparr>list_head := first_of xs, pending_write_operations := pending_write_operations L + 1\<rparr>)"
          using csl_moreD(2) [OF that(2)] csl_okD(9) [OF s1(1)] by (simp add: L1_def)
      qed
      show "wp (on_unlinked x) Q s3"
        if "find (\<lambda>x. c x = 0) xs = Some x" "csl_ok Os K l L1 (remove1 x xs) U R M s3" "csl_items s3 x \<noteq> None"
          "refs s3 x = refs s1 x" "x \<noteq> null" "words s3 = counted_on L1 (words s1)"
          "\<And>s4. csl_ok Os K l L1 (remove1 x xs) (U' x) R M s4 \<Longrightarrow> words s4 = F x (words s3) \<Longrightarrow> user s4 = user s3 \<Longrightarrow>
           live s4 = live s3 \<Longrightarrow> (\<And>X C t A R M. hp_ok X C s4 t A R M = hp_ok X C s3 t A R M) \<Longrightarrow>
           answers s4 = answers s3 \<Longrightarrow> (\<And>y. refs s4 y + U y = refs s3 y + U' x y) \<Longrightarrow> Q () s4" for s3 x R Q
        by (rule unl [OF that(1-3)]) (use that(4-6) refs1 s1(3) f1 in \<open>simp_all add: that(7)\<close>)
    qed
    then show "wp (unlink_item X K b l t on_unlinked okr not_found err item_compare target seq)
      (\<lambda>r s2. \<exists>xs' U'' R' M'. csl_ok Os K l L1 xs' U'' R' M' s2 \<and> P r xs' U'' R' M' s2) s1"
      unfolding f1 s1(3-6) P_def walked1 settled1 by (rule wp_mono) blast
  next
    show "P r xs' U'' R' M' (s2\<lparr>csl_lists := m\<rparr>)" if "P r xs' U'' R' M' s2" for r xs' U'' R' M' s2 m
      using that by (simp add: P_def walked_def plenty_def settled_def refs_def)
  next
    show "wp (Done r) (\<lambda>r s'. \<exists>xs' U'' R' M'. csl_ok Os K l L xs' U'' R' M' s' \<and> P r xs' U'' R' M' s') s3"
      if "csl_ok Os K l L xs' U'' R' M' s3" "P r xs' U'' R' M' s3" for r xs' U'' R' M' s3
      unfolding wp_Done using that by blast
  qed
  then show ?thesis by (rule wp_mono) (unfold P_def, blast)
qed

lemma compare_item_by_key_at:
  assumes "csl_lists s' l = Some (L\<lparr>list_head := h, pending_write_operations := v\<rparr>)"
  shows "wp (compare_item_by_key K l x key) Q s' = Q (cmp K L (user s') (key_of K L (user s') x) key) s'"
  using assms by (simp add: compare_item_by_key_def wp_call wp_item_key wp_compare_keys)

lemma operation_args:
  assumes "hp_ok X C s t A R M" and "csl_ok Os K l L xs U R M s"
  shows "l \<noteq> null" "t \<noteq> null"
  using csl_okD(2) [OF assms(2)] hp.client_memory [OF assms(1)] by auto

lemma wp_delete_key:
  fixes s :: "('q, 'u, 'a) csl_mem_scheme"
  assumes hp: "hp_ok X C s t A R M" and cb: "callbacks_ok K" and ok: "csl_ok Os K l L xs U R M s"
    and lock: "locked_for_write L = 0" and seq: "seq_ok L seq (words s)" and room: "2 * (card (live s) + length xs + 1) + 4 < b"
    and key: "key \<noteq> null"
  shows "wp (clds_sorted_list_delete_key X K b l t key seq)
    (\<lambda>r s'. (\<exists>x R' M'. find (\<lambda>x. cmp K L (user s) (key_of K L (user s) x) key = 0) xs = Some x \<and> r = CLDS_SORTED_LIST_DELETE_OK \<and>
        R' \<subseteq># add_mset (reclaim_list_node_function K, x) R \<and> M' \<subseteq> M \<and> hp_ok X C s' t A R' M' \<and> csl_ok Os K l L (remove1 x xs) U R' M' s' \<and>
        words s' = given_out seq (next_number L (words s)) (counted_on L (words s)) \<and> cleanups K (user s) (user s') \<and>
        (plenty (Suc (Suc (length xs))) s \<longrightarrow> settled K U (add_mset (reclaim_list_node_function K, x) R) s U R' s')) \<or>
      hp_ok X C s' t A R M \<and> csl_ok Os K l L xs U R M s' \<and> walked (length xs) s s' \<and> (r = CLDS_SORTED_LIST_DELETE_NOT_FOUND \<and> find (\<lambda>x. cmp K L (user s) (key_of K L (user s) x) key = 0) xs = None \<or>
       r = CLDS_SORTED_LIST_DELETE_ERROR \<and> \<not> plenty (Suc (length xs)) s)) s"
proof -
  define c where "c = (\<lambda>x. cmp K L (user s) (key_of K L (user s) x) key)"
  define G where "G = (\<lambda>r (s' :: ('q, 'u, 'a) csl_mem_scheme). (\<exists>x R' M'. find (\<lambda>x. c x = 0) xs = Some x \<and> r = CLDS_SORTED_LIST_DELETE_OK \<and>
        R' \<subseteq># add_mset (reclaim_list_node_function K, x) R \<and> M' \<subseteq> M \<and> hp_ok X C s' t A R' M' \<and> csl_ok Os K l L (remove1 x xs) U R' M' s' \<and>
        words s' = given_out seq (next_number L (words s)) (counted_on L (words s)) \<and> cleanups K (user s) (user s') \<and>
        (plenty (Suc (Suc (length xs))) s \<longrightarrow> settled K U (add_mset (reclaim_list_node_function K, x) R) s U R' s')) \<or>
      hp_ok X C s' t A R M \<and> csl_ok Os K l L xs U R M s' \<and> walked (length xs) s s' \<and> (r = CLDS_SORTED_LIST_DELETE_NOT_FOUND \<and> find (\<lambda>x. c x = 0) xs = None \<or>
       r = CLDS_SORTED_LIST_DELETE_ERROR \<and> \<not> plenty (Suc (length xs)) s))"
  have "wp (call (check_lock_and_begin_write_operation b (list_lock l)) (\<lambda>_.
      call (internal_delete X K b l t (compare_item_by_key K l) key seq) (\<lambda>r. call (end_write_operation (list_lock l)) (\<lambda>_. Done r)))) G s"
    unfolding G_def internal_delete_def
    by (rule wp_unlink_operation [OF hp cb ok lock seq room, where F = "\<lambda>x W. W" and U' = "\<lambda>x. U"])
      (simp_all add: compare_item_by_key_at wp_Done c_def)
  then show ?thesis
    using operation_args [OF hp ok] key wp_no_counter_for [OF csl_okD(9) [OF ok]] seq
    by (simp add: clds_sorted_list_delete_key_def wp_call [of "no_counter_for _ _"] G_def c_def)
qed

lemma wp_delete_item:
  fixes s :: "('q, 'u, 'a) csl_mem_scheme"
  assumes hp: "hp_ok X C s t A R M" and cb: "callbacks_ok K" and ok: "csl_ok Os K l L xs U R M s"
    and lock: "locked_for_write L = 0" and seq: "seq_ok L seq (words s)" and room: "2 * (card (live s) + length xs + 1) + 4 < b"
    and item: "item \<noteq> null"
  shows "wp (clds_sorted_list_delete_item X K b l t item seq)
    (\<lambda>r s'. (\<exists>R' M'. item \<in> set xs \<and> r = CLDS_SORTED_LIST_DELETE_OK \<and>
        R' \<subseteq># add_mset (reclaim_list_node_function K, item) R \<and> M' \<subseteq> M \<and> hp_ok X C s' t A R' M' \<and> csl_ok Os K l L (remove1 item xs) U R' M' s' \<and>
        words s' = given_out seq (next_number L (words s)) (counted_on L (words s)) \<and> cleanups K (user s) (user s') \<and>
        (plenty (Suc (Suc (length xs))) s \<longrightarrow> settled K U (add_mset (reclaim_list_node_function K, item) R) s U R' s')) \<or>
      hp_ok X C s' t A R M \<and> csl_ok Os K l L xs U R M s' \<and> walked (length xs) s s' \<and> (r = CLDS_SORTED_LIST_DELETE_NOT_FOUND \<and> item \<notin> set xs \<or> r = CLDS_SORTED_LIST_DELETE_ERROR \<and> \<not> plenty (Suc (length xs)) s)) s"
proof -
  define c :: "ptr \<Rightarrow> int" where "c = (\<lambda>x. if x = item then 0 else 1)"
  have find: "find (\<lambda>x. c x = 0) xs = (if item \<in> set xs then Some item else None)"
    by (induction xs) (auto simp: c_def)
  define G where "G = (\<lambda>r (s' :: ('q, 'u, 'a) csl_mem_scheme). (\<exists>x R' M'. find (\<lambda>x. c x = 0) xs = Some x \<and> r = CLDS_SORTED_LIST_DELETE_OK \<and>
        R' \<subseteq># add_mset (reclaim_list_node_function K, x) R \<and> M' \<subseteq> M \<and> hp_ok X C s' t A R' M' \<and> csl_ok Os K l L (remove1 x xs) U R' M' s' \<and>
        words s' = given_out seq (next_number L (words s)) (counted_on L (words s)) \<and> cleanups K (user s) (user s') \<and>
        (plenty (Suc (Suc (length xs))) s \<longrightarrow> settled K U (add_mset (reclaim_list_node_function K, x) R) s U R' s')) \<or>
      hp_ok X C s' t A R M \<and> csl_ok Os K l L xs U R M s' \<and> walked (length xs) s s' \<and> (r = CLDS_SORTED_LIST_DELETE_NOT_FOUND \<and> find (\<lambda>x. c x = 0) xs = None \<or>
       r = CLDS_SORTED_LIST_DELETE_ERROR \<and> \<not> plenty (Suc (length xs)) s))"
  have "wp (call (check_lock_and_begin_write_operation b (list_lock l)) (\<lambda>_.
      call (internal_delete X K b l t compare_item_by_ptr item seq) (\<lambda>r. call (end_write_operation (list_lock l)) (\<lambda>_. Done r)))) G s"
    unfolding G_def internal_delete_def
    by (rule wp_unlink_operation [OF hp cb ok lock seq room, where F = "\<lambda>x W. W" and U' = "\<lambda>x. U"])
      (simp_all add: compare_item_by_ptr_def wp_Done c_def)
  then have "wp (clds_sorted_list_delete_item X K b l t item seq) G s"
    using operation_args [OF hp ok] item wp_no_counter_for [OF csl_okD(9) [OF ok]] seq
    by (simp add: clds_sorted_list_delete_item_def wp_call [of "no_counter_for _ _"])
  then show ?thesis
    by (rule wp_mono) (auto simp: G_def find split: if_splits)
qed

lemma wp_remove_key:
  fixes s :: "('q, 'u, 'a) csl_mem_scheme"
  assumes hp: "hp_ok X C s t A R M" and cb: "callbacks_ok K" and ok: "csl_ok Os K l L xs U R M s"
    and lock: "locked_for_write L = 0" and seq: "seq_ok L seq (words s)" and room: "2 * (card (live s) + length xs + 1) + 4 < b"
    and key: "key \<noteq> null" and item: "words s item \<noteq> None" and refs: "\<And>x. x \<in> set xs \<Longrightarrow> Suc (refs s x) < 2 ^ 32"
  shows "wp (clds_sorted_list_remove_key X K b l t key item seq)
    (\<lambda>r s'. (\<exists>x R' M'. find (\<lambda>x. cmp K L (user s) (key_of K L (user s) x) key = 0) xs = Some x \<and> r = CLDS_SORTED_LIST_REMOVE_OK \<and>
        R' \<subseteq># add_mset (reclaim_list_node_function K, x) R \<and> M' \<subseteq> M \<and> hp_ok X C s' t A R' M' \<and>
        csl_ok Os K l L (remove1 x xs) (U(x := Suc (U x))) R' M' s' \<and>
        words s' = given_out seq (next_number L (words s)) ((counted_on L (words s))(item \<mapsto> x)) \<and> cleanups K (user s) (user s') \<and>
        (plenty (Suc (Suc (length xs))) s \<longrightarrow> settled K U (add_mset (reclaim_list_node_function K, x) R) s (U(x := Suc (U x))) R' s')) \<or>
      hp_ok X C s' t A R M \<and> csl_ok Os K l L xs U R M s' \<and> walked (length xs) s s' \<and> (r = CLDS_SORTED_LIST_REMOVE_NOT_FOUND \<and> find (\<lambda>x. cmp K L (user s) (key_of K L (user s) x) key = 0) xs = None \<or>
       r = CLDS_SORTED_LIST_REMOVE_ERROR \<and> \<not> plenty (Suc (length xs)) s)) s"
proof -
  define c where "c = (\<lambda>x. cmp K L (user s) (key_of K L (user s) x) key)"
  define give where "give = (\<lambda>x :: ptr. call (store item x) (\<lambda>_. call (clds_sorted_list_node_inc_ref x) (\<lambda>_. Done ()))
    :: ('q, 'u, 'a, unit) csl_prog)"
  have "wp (call (check_lock_and_begin_write_operation b (list_lock l)) (\<lambda>_.
      call (unlink_item X K b l t give CLDS_SORTED_LIST_REMOVE_OK CLDS_SORTED_LIST_REMOVE_NOT_FOUND CLDS_SORTED_LIST_REMOVE_ERROR
        (compare_item_by_key K l) key seq) (\<lambda>r.
      call (end_write_operation (list_lock l)) (\<lambda>_. Done r))))
    (\<lambda>r s'. (\<exists>x R' M'. find (\<lambda>x. c x = 0) xs = Some x \<and> r = CLDS_SORTED_LIST_REMOVE_OK \<and> R' \<subseteq># add_mset (reclaim_list_node_function K, x) R \<and> M' \<subseteq> M \<and>
        hp_ok X C s' t A R' M' \<and> csl_ok Os K l L (remove1 x xs) (U(x := Suc (U x))) R' M' s' \<and>
        words s' = given_out seq (next_number L (words s)) ((counted_on L (words s))(item \<mapsto> x)) \<and> cleanups K (user s) (user s') \<and>
        (plenty (Suc (Suc (length xs))) s \<longrightarrow> settled K U (add_mset (reclaim_list_node_function K, x) R) s (U(x := Suc (U x))) R' s')) \<or>
      hp_ok X C s' t A R M \<and> csl_ok Os K l L xs U R M s' \<and> walked (length xs) s s' \<and> (r = CLDS_SORTED_LIST_REMOVE_NOT_FOUND \<and> find (\<lambda>x. c x = 0) xs = None \<or> r = CLDS_SORTED_LIST_REMOVE_ERROR \<and> \<not> plenty (Suc (length xs)) s)) s"
  proof (rule wp_unlink_operation [OF hp cb ok lock seq room, where F = "\<lambda>x W. W(item \<mapsto> x)" and U' = "\<lambda>x. U(x := Suc (U x))"])
    show "wp (compare_item_by_key K l x key) Q s' = Q (c x) s'"
      if "user s' = user s" "csl_lists s' l = Some (L\<lparr>list_head := first_of xs, pending_write_operations := v\<rparr>)"
      for s' :: "('q, 'u, 'a) csl_mem_scheme" and x Q v
      using compare_item_by_key_at [OF that(2)] that(1) by (simp add: c_def)
    show "dom W \<subseteq> dom (W(item \<mapsto> x))" for x and W :: "ptr \<Rightarrow> 64 word option" by auto
    fix L and s3 :: "('q, 'u, 'a) csl_mem_scheme" and x R A and Q :: "unit \<Rightarrow> ('q, 'u, 'a) csl_mem_scheme \<Rightarrow> bool"
    assume a: "find (\<lambda>x. c x = 0) xs = Some x" "csl_ok Os K l L (remove1 x xs) U R M s3" "csl_items s3 x \<noteq> None"
      "refs s3 x = refs s x" "x \<noteq> null" "words s3 = counted_on L (words s)"
      "\<And>s4. csl_ok Os K l L (remove1 x xs) (U(x := Suc (U x))) R M s4 \<Longrightarrow> words s4 = (words s3)(item \<mapsto> x) \<Longrightarrow> user s4 = user s3 \<Longrightarrow>
           live s4 = live s3 \<Longrightarrow> (\<And>X C t A R M. hp_ok X C s4 t A R M = hp_ok X C s3 t A R M) \<Longrightarrow>
           answers s4 = answers s3 \<Longrightarrow> (\<And>y. refs s4 y + U y = refs s3 y + (U(x := Suc (U x))) y) \<Longrightarrow> Q () s4"
    obtain I where I: "csl_items s3 x = Some I" using a(3) by blast
    have "x \<in> set xs" using a(1) by (auto simp: find_Some_iff)
    then have room: "Suc (refs s3 x) < 2 ^ 32" using refs a(4) by simp
    define s4 where "s4 = s3\<lparr>words := (words s3)(item \<mapsto> x), csl_items := (csl_items s3)(x \<mapsto> I\<lparr>ref_count := ref_count I + 1\<rparr>)\<rparr>"
    have r4: "csl_ok Os K l L (remove1 x xs) (U(x := Suc (U x))) R M s4" "refs s4 = (refs s3)(x := Suc (refs s3 x))"
      by (rule csl_ok_referenced [OF a(2) I room]; simp add: s4_def)+
    from r4(1) have "Q () s4" by (rule a(7)) (simp_all add: r4(2), simp_all add: s4_def)
    moreover have "words s3 item \<noteq> None" using item a(6) by (auto simp: counted_on_def)
    ultimately show "wp (give x) Q s3"
      using I a(5) by (auto simp: give_def store_def clds_sorted_list_node_inc_ref_def wp_simps wp_funs access_kinds s4_def)
  qed
  then show ?thesis
    using operation_args [OF hp ok] key wp_no_counter_for [OF csl_okD(9) [OF ok]] seq
    by (simp add: clds_sorted_list_remove_key_def internal_remove_def give_def c_def wp_call [of "no_counter_for _ _"])
qed

section \<open>Replacing\<close>

text \<open>Keys that compare equal have the same place in the order.\<close>

lemma sorted_replaced:
  assumes cb: "callbacks_ok K" and s: "sorted_wrt (\<lambda>x y. ord K L u x y < 0) (us @ x # vs)" and eq: "ord K L u y x = 0"
  shows "sorted_wrt (\<lambda>x y. ord K L u x y < 0) (us @ y # vs)"
proof -
  have "ord K L u z y < 0" if "z \<in> set us" for z
  proof (rule cmp_less_trans [OF cb])
    show "ord K L u z x < 0" using s that by (auto simp: sorted_wrt_append)
    show "ord K L u x y \<le> 0" using eq cmp_flip(2) [OF cb] by auto
  qed
  moreover have "ord K L u y z < 0" if "z \<in> set vs" for z
  proof (rule ccontr)
    assume "\<not> ord K L u y z < 0"
    then have "ord K L u z y \<le> 0" using cmp_flip(3) [OF cb] by auto
    moreover have "ord K L u x z < 0" using s that by (auto simp: sorted_wrt_append)
    ultimately have "ord K L u x y < 0" using cmp_less_trans [OF cb] by blast
    then show False using eq cmp_flip(2) [OF cb, of L u "key_of K L u y" "key_of K L u x"] by simp
  qed
  ultimately show ?thesis using s by (auto simp: sorted_wrt_append)
qed

text \<open>The old item is marked, the new one linked to its successor, and the link to the old one swung to the new one.\<close>

lemma csl_ok_replaced:
  assumes cb: "callbacks_ok K" and ok: "csl_ok Os K l L (us @ x # vs) U R M s" and eq: "ord K L (user s) y x = 0"
    and new: "y \<notin> set (us @ x # vs)" "csl_items s y = Some I" "0 < U y" "listed Os y = 0"
    and s1: "s1 = set_link s l (Next x) v" and s2: "s2 = s1\<lparr>csl_items := (csl_items s1)(y \<mapsto> I\<lparr>item_next := first_of vs\<rparr>)\<rparr>"
  shows "csl_ok Os K l L (us @ y # vs) (U(y := U y - 1)) (add_mset (reclaim_list_node_function K, x) R) M (set_link s2 l (link_after us) y)"
    and "link_of s2 l (link_after us) = Some x"
proof -
  have at: "list_at s l L (us @ x # vs)" by (rule csl_okD(1) [OF ok])
  have chain: "heap_chain (itm_next s) (first_of (us @ x # vs)) (us @ x # vs)" using at by (simp add: list_at_def)
  have x: "x \<notin> set us" "x \<notin> set vs" "set us \<inter> set (y # vs) = {}" "x \<noteq> y" using heap_chain_distinct [OF chain] new by auto
  obtain J where J: "csl_items s x = Some J"
    by (rule csl_ok_accounted [OF ok, of x]) simp_all
  have al: "y \<noteq> null" "aligned y" using csl_okD(7) [OF ok new(2)] by simp_all
  have nxt: "itm_next s2 = (itm_next s)(x \<mapsto> v, y \<mapsto> first_of vs)" using J x(4) by (auto simp: s1 s2 set_link_def fun_eq_iff)
  have "heap_chain (itm_next s) (first_of vs) vs"
  proof -
    obtain q where "heap_chain (itm_next s) q vs" using chain by (auto simp: heap_chain_append)
    moreover from this have "q = first_of vs" by (auto dest: heap_chain_first simp: first_of_def)
    ultimately show ?thesis by simp
  qed
  then have tail: "heap_chain (itm_next s2) (first_of (y # vs)) (y # vs)" using x al new by (simp add: nxt)
  have same: "csl_lists s2 = csl_lists s" "user s2 = user s" "csl_mem.more s2 = csl_mem.more s" "dom (csl_items s2) = dom (csl_items s)" "refs s2 = refs s"
    using J new(2) x(4) by (auto simp: s1 s2 set_link_def refs_def fun_eq_iff)
  have before: "itm_next s2 u = itm_next s u" if "u \<in> set us \<or> 0 < listed Os u" for u using fun_cong [OF nxt, of u] that x csl_okD(11) [OF ok, of x] new(4) by auto
  have sorted: "sorted_wrt (\<lambda>x y. ord K L (user s) x y < 0) (us @ y # vs)" by (rule sorted_replaced [OF cb csl_okD(5) [OF ok] eq])
  have acc: "of_bool (z \<in> set (us @ y # vs)) + listed Os z + count (add_mset (reclaim_list_node_function K, x) R) (reclaim_list_node_function K, z) +
      (U(y := U y - 1)) z \<le> refs s z" for z
    using csl_okD(6) [OF ok, of z] x new by (cases "z = x"; cases "z = y") auto
  have owed: "fst r = reclaim_list_node_function K" if "r \<in># add_mset (reclaim_list_node_function K, x) R" for r
    using that csl_okD(12) [OF ok, of r] by auto
  have al': "\<forall>x \<in> set (y # vs). aligned x" using at al by (simp add: list_at_def)
  have fresh: "listed Os z = 0" if "z \<in> set (y # vs)" for z using that new(4) csl_okD(11) [OF ok, of z] by auto
  note r = csl_ok_relink [OF ok same before tail x(3) al' sorted fresh acc owed]
  show "csl_ok Os K l L (us @ y # vs) (U(y := U y - 1)) (add_mset (reclaim_list_node_function K, x) R) M (set_link s2 l (link_after us) y)"
    using r(1) by (simp only: first_of_simps)
  show "link_of s2 l (link_after us) = Some x" using r(2) by simp
qed

text \<open>A mark that is set and taken back leaves the list as it was.\<close>

lemma csl_ok_unmarked:
  assumes "csl_ok Os K l L xs U R M s" and "itm_next s x = Some q"
  shows "csl_ok Os K l L xs U R M (set_link (set_link s l (Next x) v) l (Next x) q)"
    and "link_of (set_link s l (Next x) v) l (Next x) = Some v"
proof -
  obtain I where I: "csl_items s x = Some I" "item_next I = q" using assms(2) by auto
  then have "I\<lparr>item_next := q\<rparr> = I" by (cases I) simp
  with I have "csl_items (set_link (set_link s l (Next x) v) l (Next x) q) = csl_items s"
    by (auto simp: set_link_def fun_eq_iff)
  then show "csl_ok Os K l L xs U R M (set_link (set_link s l (Next x) v) l (Next x) q)"
    by (rule csl_ok_cong [OF assms(1)]) (simp_all add: set_link_def)
  show "link_of (set_link s l (Next x) v) l (Next x) = Some v" using I by (simp add: link_of_def set_link_def)
qed

lemma wp_store: "words s p \<noteq> None \<Longrightarrow> wp (store p v) Q s = Q () (s\<lparr>words := (words s)(p \<mapsto> v)\<rparr>)"
  by (auto simp: store_def wp_simps)

text \<open>The end of a replacement.\<close>

lemma wp_swap_won:
  fixes s :: "('q, 'u, 'a) csl_mem_scheme"
  assumes hp: "hp_ok X C s t (A''(ch \<mapsto> x)) R M" and A: "A'' ch = None" "holding A us ph A''" and cb: "callbacks_ok K"
    and ok: "csl_ok Os K l L xs U (add_mset (reclaim_list_node_function K, x) R) M s" and x: "Suc (refs s x) < 2 ^ 32"
    and room: "2 * card (live s) + 4 < b" and old: "words s old_item \<noteq> None"
    and Q: "\<And>s' R' M'. R' \<subseteq># add_mset (reclaim_list_node_function K, x) R \<Longrightarrow> M' \<subseteq> M \<Longrightarrow> hp_ok X C s' t A R' M' \<Longrightarrow>
      csl_ok Os K l L xs (U(x := Suc (U x))) R' M' s' \<Longrightarrow> words s' = (words s)(old_item \<mapsto> x) \<Longrightarrow> cleanups K (user s) (user s') \<Longrightarrow>
      card (live s') \<le> Suc (card (live s)) \<Longrightarrow>
      (plenty 1 s \<Longrightarrow> settled K U (add_mset (reclaim_list_node_function K, x) R) s (U(x := Suc (U x))) R' s') \<Longrightarrow>
      Q (Leave (Finished (CLDS_SORTED_LIST_SET_VALUE_OK, v))) s'"
  shows "wp (swap_won X K b t old_item v ph ch x) Q s"
  unfolding swap_won_def
proof (rule wp_let_go_both [OF hp A])
  show "card (live s) < b" using room by simp
  fix s1 assume s1: "hp_mem.more s1 = hp_mem.more s" "live s1 = live s" "hp_ok X C s1 t A R M" "\<And>n. plenty n s \<Longrightarrow> plenty n s1"
  note m = csl_moreD [OF s1(1)] csl_ok_more [OF ok s1(1)]
  obtain I where I: "csl_items s x = Some I" and nx: "x \<noteq> null"
    by (rule csl_ok_accounted [OF ok, of x]) simp_all
  define s2 where "s2 = s1\<lparr>words := (words s)(old_item \<mapsto> x), csl_items := (csl_items s)(x \<mapsto> I\<lparr>ref_count := ref_count I + 1\<rparr>)\<rparr>"
  have ok2: "csl_ok Os K l L xs (U(x := Suc (U x))) (add_mset (reclaim_list_node_function K, x) R) M s2"
    and r2: "refs s2 = (refs s)(x := Suc (refs s x))"
    by (rule csl_ok_referenced [OF ok I x]; simp add: s2_def m csl_moreD_rest [OF s1(1)])+
  have p2: "plenty 1 s2" if "plenty 1 s" using s1(4) [OF that] plenty_cong [of s2 s1 1] by (simp add: s2_def)
  have hp2: "hp_ok X C s2 t A R M" "2 * card (live s2) + 4 < b" using s1 room by (simp_all add: s2_def)
  from wp_retire [OF hp2(1) cb ok2 nx hp2(2)]
  have "wp (call (clds_hazard_pointers_reclaim X (list_reclaim K) b t x (reclaim_list_node_function K)) (\<lambda>_.
     Done (Leave (Finished (CLDS_SORTED_LIST_SET_VALUE_OK, v))))) Q s2"
  proof (rule wp_seq, elim exE conjE)
    fix a and s' :: "('q, 'u, 'a) csl_mem_scheme" and R' M'
    assume r: "R' \<subseteq># add_mset (reclaim_list_node_function K, x) R" "M' \<subseteq> M" "hp_ok X C s' t A R' M'"
      "csl_ok Os K l L xs (U(x := Suc (U x))) R' M' s'" "words s' = words s2" "cleanups K (user s2) (user s')"
      "card (live s') \<le> Suc (card (live s2))"
      "plenty 1 s2 \<longrightarrow> settled K (U(x := Suc (U x))) (add_mset (reclaim_list_node_function K, x) R) s2 (U(x := Suc (U x))) R' s'"
    have st: "settled K U (add_mset (reclaim_list_node_function K, x) R) s (U(x := Suc (U x))) R' s'" if "plenty 1 s"
      unfolding settled_def
    proof
      fix y show "refs s' y + count (add_mset (reclaim_list_node_function K, x) R) (reclaim_list_node_function K, y) + U y =
          refs s y + count R' (reclaim_list_node_function K, y) + (U(x := Suc (U x))) y"
        using spec [OF mp [OF r(8) p2 [OF that], unfolded settled_def], of y] fun_cong [OF r2, of y] by (cases "y = x") simp_all
    qed
    show "wp (Done (Leave (Finished (CLDS_SORTED_LIST_SET_VALUE_OK, v)))) Q s'"
      unfolding wp_Done by (rule Q [OF r(1-4)]) (use r(5-7) st m s1(2) in \<open>simp_all add: s2_def\<close>)
  qed
  then show "wp (call (store old_item x) (\<lambda>_. call (clds_sorted_list_node_inc_ref x) (\<lambda>_.
     call (clds_hazard_pointers_reclaim X (list_reclaim K) b t x (reclaim_list_node_function K)) (\<lambda>_.
     Done (Leave (Finished (CLDS_SORTED_LIST_SET_VALUE_OK, v))))))) Q s1"
    using old m I nx
    by (simp add: wp_call wp_store clds_sorted_list_node_inc_ref_def wp_simps wp_funs access_kinds s2_def)
qed

lemma wp_renew:
  assumes "csl_lists s l = Some L" and "sequence_number L \<noteq> null \<Longrightarrow> words s (sequence_number L) = Some v"
  shows "wp (renew_sequence_number K l seq v) Q s = Q v s"
  using assms by (cases "sequence_number L = null") (simp_all add: renew_sequence_number_def load_def wp_simps wp_funs access_kinds)

lemma set_value_at_end_eq:
  assumes "holding A us ph A''" and "null \<notin> set us"
  shows "set_value_at_end b l t new_item old_item False v ph (last_of us) =
     call (on_node new_item (wr item_next_update null)) (\<lambda>_. call (cas_link l (link_after us) new_item null) (\<lambda>old.
     call (let_go b t ph) (\<lambda>_. if old \<noteq> null then Done (Restart v)
       else call (store old_item null) (\<lambda>_. Done (Finished (CLDS_SORTED_LIST_SET_VALUE_OK, v))))))"
  using assms
  by (cases us rule: rev_exhaust) (auto simp: set_value_at_end_def let_go_def fun_eq_iff intro!: arg_cong2 [of _ _ _ _ call])

lemma set_value_between_eq:
  assumes "holding A us ph A''" and "null \<notin> set us"
  shows "set_value_between b l t new_item old_item False v ph (last_of us) ch x =
     call (on_node new_item (wr item_next_update x)) (\<lambda>_. call (cas_link l (link_after us) new_item x) (\<lambda>old.
     call (let_go b t ph) (\<lambda>_. call (clds_hazard_pointers_release b t ch) (\<lambda>_.
     if old \<noteq> x then Done (Leave (Restart v))
     else call (store old_item null) (\<lambda>_. Done (Leave (Finished (CLDS_SORTED_LIST_SET_VALUE_OK, v))))))))"
  using assms
  by (cases us rule: rev_exhaust) (auto simp: set_value_between_def let_go_def fun_eq_iff intro!: arg_cong2 [of _ _ _ _ call])

lemma set_other_item_eq:
  assumes "holding A us ph A''" and "null \<notin> set us"
  shows "set_other_item X K b l t new_item old_item v ph (last_of us) ch x nxt =
     call (on_node new_item (wr item_next_update nxt)) (\<lambda>_. call (cas_link l (link_after us) new_item x) (\<lambda>old.
     if old \<noteq> x then swap_lost b l t v ph ch x nxt else swap_won X K b t old_item v ph ch x))"
  using assms
  by (cases us rule: rev_exhaust) (auto simp: set_other_item_def let_go_def fun_eq_iff intro!: arg_cong2 [of _ _ _ _ call])

text \<open>Both ways of replacing the item that was found.\<close>

lemma wp_set_value_replace:
  fixes s :: "('q, 'u, 'a) csl_mem_scheme"
  assumes hp: "hp_ok X C s t (A''(ch \<mapsto> x)) R M" and A: "A'' ch = None" "holding A us ph A''" and cb: "callbacks_ok K"
    and ok: "csl_ok Os K l L (us @ x # vs) U R M s" and room: "2 * card (live s) + 4 < b" and old: "words s old_item \<noteq> None"
    and seq: "sequence_number L \<noteq> null \<Longrightarrow> words s (sequence_number L) = Some v"
    and new: "y \<noteq> x \<Longrightarrow> y \<notin> set (us @ x # vs) \<and> csl_items s y \<noteq> None \<and> 0 < U y \<and> listed Os y = 0" and eq: "ord K L (user s) y x = 0"
    and refs: "Suc (refs s x) < 2 ^ 32"
    and same: "\<And>s'. y = x \<Longrightarrow> hp_ok X C s' t A R M \<Longrightarrow> csl_ok Os K l L (us @ x # vs) U R M s' \<Longrightarrow> words s' = (words s)(old_item \<mapsto> x) \<Longrightarrow>
      user s' = user s \<Longrightarrow> live s' = live s \<Longrightarrow> Q (Leave (Finished (CLDS_SORTED_LIST_SET_VALUE_OK, v))) s'"
    and other: "\<And>s' R' M'. y \<noteq> x \<Longrightarrow> R' \<subseteq># add_mset (reclaim_list_node_function K, x) R \<Longrightarrow> M' \<subseteq> M \<Longrightarrow> hp_ok X C s' t A R' M' \<Longrightarrow>
      csl_ok Os K l L (us @ y # vs) (U(y := U y - 1, x := Suc (U x))) R' M' s' \<Longrightarrow> words s' = (words s)(old_item \<mapsto> x) \<Longrightarrow>
      cleanups K (user s) (user s') \<Longrightarrow> card (live s') \<le> Suc (card (live s)) \<Longrightarrow>
      (plenty 1 s \<Longrightarrow> settled K (U(y := U y - 1)) (add_mset (reclaim_list_node_function K, x) R) s (U(y := U y - 1, x := Suc (U x))) R' s') \<Longrightarrow>
      Q (Leave (Finished (CLDS_SORTED_LIST_SET_VALUE_OK, v))) s'"
  shows "wp (set_value_replace X K b l t y old_item seq v ph (last_of us) ch x) Q s"
proof -
  have us0: "null \<notin> set us" using csl_ok_not_null [OF ok] by simp
  have x: "x \<noteq> null" "aligned x" "itm_next s x = Some (first_of vs)" using list_at_node [OF csl_okD(1) [OF ok]] by simp_all
  have vs: "aligned (first_of vs)" using csl_okD(1) [OF ok] by (cases vs) (simp_all add: list_at_def)
  obtain I where I: "csl_items s x = Some I" using x(3) by auto
  define s1 where "s1 = set_link s l (Next x) (mark (first_of vs))"
  have hp1: "hp_ok X C s1 t (A''(ch \<mapsto> x)) R M" "words s1 = words s" "user s1 = user s" "live s1 = live s"
    using hp by (simp_all add: s1_def)
  have l1: "csl_lists s1 l = Some (L\<lparr>list_head := first_of (us @ x # vs)\<rparr>)" using csl_okD(9) [OF ok] by (simp add: s1_def set_link_def)
  have "wp (if x = y then set_same_item b l t old_item v ph (last_of us) ch x (first_of vs)
       else set_other_item X K b l t y old_item v ph (last_of us) ch x (first_of vs)) Q s1"
  proof (cases "x = y")
    case True
    note un = csl_ok_unmarked [OF ok x(3), of "mark (first_of vs)", folded s1_def]
    define s2 where "s2 = set_link s1 l (Next x) (first_of vs)"
    have "wp (call (let_go b t ph) (\<lambda>_. call (clds_hazard_pointers_release b t ch) (\<lambda>_.
       call (store old_item x) (\<lambda>_. Done (Leave (Finished (CLDS_SORTED_LIST_SET_VALUE_OK, v))))))) Q s2"
    proof (rule wp_let_go_both [OF _ A])
      show "hp_ok X C s2 t (A''(ch \<mapsto> x)) R M" "card (live s2) < b" using hp1 room by (simp_all add: s2_def)
      fix s3 assume s3: "hp_mem.more s3 = hp_mem.more s2" "live s3 = live s2" "hp_ok X C s3 t A R M"
      note m = csl_moreD [OF s3(1)]
      have "csl_ok Os K l L (us @ x # vs) U R M (s3\<lparr>words := (words s)(old_item \<mapsto> x)\<rparr>)"
        by (rule csl_ok_cong [OF un(1)]) (simp_all add: m s2_def csl_moreD_rest [OF s3(1)])
      then have "Q (Leave (Finished (CLDS_SORTED_LIST_SET_VALUE_OK, v))) (s3\<lparr>words := (words s)(old_item \<mapsto> x)\<rparr>)"
        by (intro same) (use True s3 m hp1 in \<open>simp_all add: s2_def\<close>)
      then show "wp (call (store old_item x) (\<lambda>_. Done (Leave (Finished (CLDS_SORTED_LIST_SET_VALUE_OK, v))))) Q s3"
        using m(3) hp1(2) old by (simp add: wp_call wp_store wp_Done s2_def)
    qed
    then have "wp (set_same_item b l t old_item v ph (last_of us) ch x (first_of vs)) Q s1"
      unfolding set_same_item_def let_go_item [OF A(2) us0]
      by (simp add: wp_call [of "cas_link _ _ _ _"] wp_cas_link [OF un(2)] s2_def)
    with True show ?thesis by simp
  next
    case False
    then obtain J where J: "y \<notin> set (us @ x # vs)" "csl_items s y = Some J" "0 < U y" "listed Os y = 0" using new by auto
    define s2 where "s2 = s1\<lparr>csl_items := (csl_items s1)(y \<mapsto> J\<lparr>item_next := first_of vs\<rparr>)\<rparr>"
    note rep = csl_ok_replaced [OF cb ok eq J s1_def s2_def]
    define s3 where "s3 = set_link s2 l (link_after us) y"
    have refs3: "refs s3 = refs s"
      using set_link_items(1) [of s2 l "link_after us" y] set_link_items(1) [of s l "Next x" "mark (first_of vs)"] rep(2) x(3) J False
      by (auto simp: s3_def s2_def s1_def refs_def link_of_def fun_eq_iff set_link_def split: link.splits)
    have "wp (swap_won X K b t old_item v ph ch x) Q s3"
    proof (rule wp_swap_won [OF _ A cb, where xs = "us @ y # vs" and U = "U(y := U y - 1)" and L = L and l = l])
      show "csl_ok Os K l L (us @ y # vs) (U(y := U y - 1)) (add_mset (reclaim_list_node_function K, x) R) M s3"
        unfolding s3_def by (rule rep(1))
      show "hp_ok X C s3 t (A''(ch \<mapsto> x)) R M" using hp1(1) by (simp add: s3_def s2_def)
      show "Suc (refs s3 x) < 2 ^ 32" "2 * card (live s3) + 4 < b" "words s3 old_item \<noteq> None"
        using refs refs3 room old hp1 by (simp_all add: s3_def s2_def)
      show "Q (Leave (Finished (CLDS_SORTED_LIST_SET_VALUE_OK, v))) s'"
        if "R' \<subseteq># add_mset (reclaim_list_node_function K, x) R" "M' \<subseteq> M" "hp_ok X C s' t A R' M'"
          "csl_ok Os K l L (us @ y # vs) ((U(y := U y - 1))(x := Suc ((U(y := U y - 1)) x))) R' M' s'"
          "words s' = (words s3)(old_item \<mapsto> x)" "cleanups K (user s3) (user s')" "card (live s') \<le> Suc (card (live s3))"
          "plenty 1 s3 \<Longrightarrow> settled K (U(y := U y - 1)) (add_mset (reclaim_list_node_function K, x) R) s3
             ((U(y := U y - 1))(x := Suc ((U(y := U y - 1)) x))) R' s'" for s' R' M'
      proof (rule other [OF _ that(1-3)])
        assume "plenty 1 s"
        then have "plenty 1 s3" using plenty_cong [of s3 s 1] by (simp add: s3_def s2_def s1_def)
        from that(8) [OF this] show "settled K (U(y := U y - 1)) (add_mset (reclaim_list_node_function K, x) R) s (U(y := U y - 1, x := Suc (U x))) R' s'"
          using False by (simp add: settled_def refs3)
      qed (use that(4-7) False hp1 in \<open>simp_all add: s3_def s2_def\<close>)
    qed
    then have "wp (call (cas_link l (link_after us) y x) (\<lambda>old. if old \<noteq> x then swap_lost b l t v ph ch x (first_of vs)
        else swap_won X K b t old_item v ph ch x)) Q s2"
      by (simp add: wp_call wp_cas_link [OF rep(2)] s3_def)
    moreover have "csl_items s1 y = Some J" using J(2) False by (simp add: s1_def set_link_def)
    ultimately have "wp (set_other_item X K b l t y old_item v ph (last_of us) ch x (first_of vs)) Q s1"
      unfolding set_other_item_eq [OF A(2) us0] by (simp add: wp_call [of "on_node _ _"] wp_access wr_def s2_def)
    with False show ?thesis by simp
  qed
  then show ?thesis
    unfolding set_value_replace_def Let_def
    using x(3) I vs wp_renew [OF l1] seq hp1(2)
    by (simp add: wp_call [of "cas_link _ _ _ _"] wp_call [of "renew_sequence_number _ _ _ _"] wp_read_link wp_cas_link link_of_def s1_def
        cong: if_cong)
qed

definition condition_result :: "'u csl_callbacks \<Rightarrow> ptr \<Rightarrow> ptr \<Rightarrow> ptr \<Rightarrow> ptr \<Rightarrow> 'u \<Rightarrow> condition_check_result \<times> 'u" where
  "condition_result K f c k k' u = (if f = null then (CLDS_CONDITION_CHECK_OK, u) else condition_check K f c k k' u)"

lemma wp_check_condition:
  "wp (check_condition K f c k k') Q s = Q (fst (condition_result K f c k k' (user s))) (s\<lparr>user := snd (condition_result K f c k k' (user s))\<rparr>)"
  by (cases s) (simp add: check_condition_def condition_result_def callback_def wp_simps split_beta Let_def)

lemma ord_condition_result: "callbacks_ok K \<Longrightarrow> ord K L (snd (condition_result K f c k k' u)) x y = ord K L u x y"
  by (simp add: condition_result_def ord_condition)

text \<open>The item with an equal key, if there is one, is the first whose key is not smaller.\<close>

lemma find_place:
  assumes cb: "callbacks_ok K" and s: "sorted_wrt (\<lambda>x y. ord K L u x y < 0) (ws @ rs)"
    and before: "\<And>x. x \<in> set ws \<Longrightarrow> 0 < ord K L u y x" and after: "\<And>x zs. rs = x # zs \<Longrightarrow> \<not> 0 < ord K L u y x"
  shows "find (\<lambda>x. ord K L u y x = 0) (ws @ rs) = (case rs of [] \<Rightarrow> None | x # _ \<Rightarrow> if ord K L u y x = 0 then Some x else None)"
proof -
  have w: "ord K L u y x \<noteq> 0" if "x \<in> set ws" for x using before [OF that] by simp
  show ?thesis
  proof (cases rs)
    case Nil
    then show ?thesis using w by (simp add: find_None_iff)
  next
    case (Cons x zs)
    have pre: "find (\<lambda>x. ord K L u y x = 0) (ws @ rs) = find (\<lambda>x. ord K L u y x = 0) rs"
      using w by (induction ws) auto
    show ?thesis
    proof (cases "ord K L u y x = 0")
      case True
      with Cons pre show ?thesis by simp
    next
      case False
      then have neg: "ord K L u y x < 0" using after [OF Cons] by simp
      have "ord K L u y z < 0" if "z \<in> set zs" for z
        by (rule cmp_less_trans [OF cb neg]) (use s Cons that in \<open>fastforce simp: sorted_wrt_append\<close>)
      then have "find (\<lambda>x. ord K L u y x = 0) zs = None" by (fastforce simp: find_None_iff)
      with Cons pre False show ?thesis by simp
    qed
  qed
qed

text \<open>What a replacement leads to, before a skipped number is reported.\<close>

definition set_value_post :: "'q externals \<Rightarrow> ('q \<Rightarrow> ptr \<Rightarrow> inactive_thread list) \<Rightarrow> 'a others \<Rightarrow> 'u csl_callbacks \<Rightarrow> ptr \<Rightarrow> ptr \<Rightarrow> (ptr \<Rightarrow> ptr option) \<Rightarrow>
    (ptr \<times> ptr) multiset \<Rightarrow> ptr set \<Rightarrow> clds_sorted_list \<Rightarrow> ptr list \<Rightarrow> (ptr \<Rightarrow> nat) \<Rightarrow> ptr \<Rightarrow> ptr \<Rightarrow> ptr \<Rightarrow> ptr \<Rightarrow> bool \<Rightarrow> ('q, 'u, 'a) csl_mem_scheme \<Rightarrow> nat \<Rightarrow>
    (ptr \<Rightarrow> 64 word option) \<Rightarrow> 'u \<Rightarrow> clds_sorted_list_set_value_result \<Rightarrow> clds_sorted_list \<Rightarrow> ('q, 'u, 'a) csl_mem_scheme \<Rightarrow> bool" where
  "set_value_post X C Os K l t A R M L xs U y f c old_item only_if_exists s N W u r L' s' \<longleftrightarrow> card (live s') \<le> N \<and>
     (case find (\<lambda>x. ord K L u y x = 0) xs of
        None \<Rightarrow> hp_ok X C s' t A R M \<and> user s' = u \<and>
          (r = CLDS_SORTED_LIST_SET_VALUE_OK \<and> \<not> only_if_exists \<and> words s' = W(old_item \<mapsto> null) \<and>
             csl_ok Os K l L' (insert_sorted K L u y xs) (U(y := U y - 1)) R M s' \<or>
           r = CLDS_SORTED_LIST_SET_VALUE_NOT_FOUND \<and> only_if_exists \<and> words s' = W \<and> csl_ok Os K l L' xs U R M s' \<or>
           r = CLDS_SORTED_LIST_SET_VALUE_ERROR \<and> \<not> plenty (Suc (length xs)) s \<and> words s' = W \<and> csl_ok Os K l L' xs U R M s')
      | Some x \<Rightarrow>
          (case condition_result K f c (key_of K L u y) (key_of K L u x) u of (check, u') \<Rightarrow>
            check = CLDS_CONDITION_CHECK_OK \<and> r = CLDS_SORTED_LIST_SET_VALUE_OK \<and> words s' = W(old_item \<mapsto> x) \<and>
              (if y = x then hp_ok X C s' t A R M \<and> user s' = u' \<and> csl_ok Os K l L' xs U R M s'
               else \<exists>R' M'. R' \<subseteq># add_mset (reclaim_list_node_function K, x) R \<and> M' \<subseteq> M \<and> hp_ok X C s' t A R' M' \<and> cleanups K u' (user s') \<and>
                 csl_ok Os K l L' (map (\<lambda>z. if z = x then y else z) xs) (U(y := U y - 1, x := Suc (U x))) R' M' s' \<and>
                 (plenty (Suc (Suc (length xs))) s \<longrightarrow> settled K (U(y := U y - 1)) (add_mset (reclaim_list_node_function K, x) R) s
                    (U(y := U y - 1, x := Suc (U x))) R' s')) \<or>
            check \<noteq> CLDS_CONDITION_CHECK_OK \<and> hp_ok X C s' t A R M \<and> words s' = W \<and> user s' = u' \<and> csl_ok Os K l L' xs U R M s' \<and>
              r = (if check = CLDS_CONDITION_CHECK_NOT_MET then CLDS_SORTED_LIST_SET_VALUE_CONDITION_NOT_MET else CLDS_SORTED_LIST_SET_VALUE_ERROR) \<or>
            \<not> plenty (Suc (length xs)) s \<and> r = CLDS_SORTED_LIST_SET_VALUE_ERROR \<and> hp_ok X C s' t A R M \<and> words s' = W \<and> user s' = u \<and> csl_ok Os K l L' xs U R M s'))"

lemma wp_set_value_search:
  fixes s :: "('q, 'u, 'a) csl_mem_scheme"
  assumes hp: "hp_ok X C s t A R M" and cb: "callbacks_ok K" and ok: "csl_ok Os K l L xs U R M s"
    and item: "csl_items s y \<noteq> None" "y \<notin> set xs \<Longrightarrow> 0 < U y" "listed Os y = 0" and room: "2 * (card (live s) + length xs + 1) + 4 < b"
    and old: "words s old_item \<noteq> None" and seq: "sequence_number L \<noteq> null \<Longrightarrow> words s (sequence_number L) = Some v"
    and refs: "\<And>x. x \<in> set xs \<Longrightarrow> Suc (refs s x) < 2 ^ 32"
  shows "wp (restarting b (\<lambda>v. walk b l t (set_value_at_end b l t y old_item only_if_exists v)
        (Done (Finished (CLDS_SORTED_LIST_SET_VALUE_ERROR, v)))
        (set_value_at_item X K b l t y (key_of K L (user s) y) f c old_item seq only_if_exists v) v b null null Head) v)
    (\<lambda>(r, v') s'. v' = v \<and> set_value_post X C Os K l t A R M L xs U y f c old_item only_if_exists s
      (card (live s) + length xs + 2) (words s) (user s) r L s') s"
proof -
  define P where "P = (\<lambda>x. 0 < ord K L (user s) y x)"
  define ws rs where "ws = takeWhile P xs" and "rs = dropWhile P xs"
  have xs: "xs = ws @ rs" by (simp add: ws_def rs_def)
  have ins: "insert_sorted K L (user s) y xs = ws @ y # rs" by (simp add: insert_sorted_def ws_def rs_def P_def)
  have big: "0 < ord K L (user s) y x" if "x \<in> set ws" for x using that set_takeWhileD [of x P xs] by (simp add: ws_def P_def)
  have small: "\<not> 0 < ord K L (user s) y x" if "rs = x # zs" for x zs using that by (metis P_def dropWhile_eq_Cons_conv rs_def)
  define G where "G = (\<lambda>(r, v') s'. v' = v \<and> set_value_post X C Os K l t A R M L xs U y f c old_item only_if_exists s
      (card (live s) + length xs + 2) (words s) (user s) r L (s' :: ('q, 'u, 'a) csl_mem_scheme))"
  note okw = ok [unfolded xs]
  note same = csl_moreD csl_ok_more [OF ok]
  have sorted: "sorted_wrt (\<lambda>x y. ord K L (user s) x y < 0) (ws @ rs)" by (rule csl_okD(5) [OF okw])
  have find: "find (\<lambda>x. ord K L (user s) y x = 0) xs = (case rs of [] \<Rightarrow> None | x # _ \<Rightarrow> if ord K L (user s) y x = 0 then Some x else None)"
    unfolding xs by (rule find_place [OF cb sorted big small])
  have ws0: "null \<notin> set ws" using csl_ok_not_null [OF okw] by simp
  have fresh: "y \<notin> set xs \<and> 0 < U y \<and> listed Os y = 0" if "find (\<lambda>x. ord K L (user s) y x = 0) xs = None"
    using that cmp_refl [OF cb] item(2,3) by (auto simp: find_None_iff)
  let ?visit = "\<lambda>v. set_value_at_item X K b l t y (key_of K L (user s) y) f c old_item seq only_if_exists v"
  let ?leave = "\<lambda>r s''. case r of Leave (Finished r) \<Rightarrow> G r s'' | _ \<Rightarrow> False"
  text \<open>The new item has been linked in.\<close>
  have linked: "wp (call (store old_item null) (\<lambda>_. Done k)) Q s3"
    if "find (\<lambda>x. ord K L (user s) y x = 0) xs = None" "\<not> only_if_exists" "csl_ok Os K l L (ws @ y # rs) (U(y := U y - 1)) R M s2"
      "words s2 = words s" "user s2 = user s" "hp_mem.more s3 = hp_mem.more s2" "hp_ok X C s3 t A R M"
      "card (live s3) \<le> card (live s) + length xs + 2" "\<And>s4. G (CLDS_SORTED_LIST_SET_VALUE_OK, v) s4 \<Longrightarrow> Q k s4" for s2 s3 :: "('q, 'u, 'a) csl_mem_scheme" and k Q
  proof -
    note m = csl_moreD [OF that(6)]
    have "csl_ok Os K l L (ws @ y # rs) (U(y := U y - 1)) R M (s3\<lparr>words := (words s)(old_item \<mapsto> null)\<rparr>)"
      by (rule csl_ok_cong [OF that(3)]) (simp_all add: m csl_moreD_rest [OF that(6)])
    then have "G (CLDS_SORTED_LIST_SET_VALUE_OK, v) (s3\<lparr>words := (words s)(old_item \<mapsto> null)\<rparr>)"
      using that(1,2,5,7,8) m(4) by (simp add: G_def set_value_post_def ins)
    then show ?thesis using old m(3) that(4) by (auto simp: wp_call wp_store wp_Done intro!: that(9))
  qed
  have not_found: "G (CLDS_SORTED_LIST_SET_VALUE_NOT_FOUND, v) s3"
    if "find (\<lambda>x. ord K L (user s) y x = 0) xs = None" "only_if_exists" "hp_mem.more s3 = hp_mem.more s" "hp_ok X C s3 t A R M"
      "card (live s3) \<le> card (live s) + length xs + 2" for s3
    using that(1,2,4,5) same [OF that(3)] by (simp add: G_def set_value_post_def)
  have "wp (restarting b (\<lambda>v. walk b l t (set_value_at_end b l t y old_item only_if_exists v)
        (Done (Finished (CLDS_SORTED_LIST_SET_VALUE_ERROR, v))) (?visit v) v b null null Head) v) G s"
  proof (rule wp_search [OF hp okw, where at_end = "\<lambda>v. set_value_at_end b l t y old_item only_if_exists v"
        and no_hp = "\<lambda>v. Done (Finished (CLDS_SORTED_LIST_SET_VALUE_ERROR, v))" and at_item = ?visit], goal_cases)
    case 1
    show ?case using room by (simp add: xs)
  next
    case (2 s' ph pi ch x Q')
    then show ?case using big [OF 2(1)] csl_okD(9) [OF ok] same(1-4) [OF 2(2)]
      by (simp add: set_value_at_item_def wp_call wp_item_key wp_compare_keys wp_simps)
  next
    case (3 s' ph A'')
    note m = same [OF 3(4)]
    have none: "find (\<lambda>x. ord K L (user s) y x = 0) xs = None" using find 3(1) by simp
    have room': "card (live s') < b" using 3(5) room by (simp add: xs)
    show ?case
    proof (cases only_if_exists)
      case True
      have "wp (call (let_go b t ph) (\<lambda>_. Done (Finished (CLDS_SORTED_LIST_SET_VALUE_NOT_FOUND, v))))
          (\<lambda>e. case e of Restart v' \<Rightarrow> (\<lambda>_. False) | Finished r \<Rightarrow> G r) s'"
        by (rule wp_seq [OF wp_let_go [OF 3(2,3) room']]) (use not_found [OF none True] 3(4,5) xs in \<open>simp add: wp_Done\<close>)
      then show ?thesis unfolding set_value_at_end_def let_go_item [OF 3(3) ws0] using True by simp
    next
      case False
      have "wp (call (on_node y (wr item_next_update (first_of rs))) (\<lambda>_. call (cas_link l (link_after ws) y (first_of rs)) (\<lambda>old.
          call (let_go b t ph) (\<lambda>_. if old \<noteq> null then Done (Restart v)
          else call (store old_item null) (\<lambda>_. Done (Finished (CLDS_SORTED_LIST_SET_VALUE_OK, v)))))))
          (\<lambda>e. case e of Restart v' \<Rightarrow> (\<lambda>_. False) | Finished r \<Rightarrow> G r) s'"
      proof (rule wp_link_in [OF m(5) [unfolded xs]])
        fix s2 :: "('q, 'u, 'a) csl_mem_scheme"
        assume s2: "csl_ok Os K l L (ws @ y # rs) (U(y := U y - 1)) R M s2" "hp_ok X C s2 t A'' R M"
          "words s2 = words s'" "user s2 = user s'" "live s2 = live s'"
        have "card (live s2) < b" using s2(5) room' by simp
        from wp_let_go [OF s2(2) 3(3) this]
        show "wp (call (let_go b t ph) (\<lambda>_. if first_of rs \<noteq> null then Done (Restart v)
          else call (store old_item null) (\<lambda>_. Done (Finished (CLDS_SORTED_LIST_SET_VALUE_OK, v)))))
          (\<lambda>e. case e of Restart v' \<Rightarrow> (\<lambda>_. False) | Finished r \<Rightarrow> G r) s2"
        proof (rule wp_seq)
          fix a and s3 :: "('q, 'u, 'a) csl_mem_scheme"
          assume s3: "hp_mem.more s3 = hp_mem.more s2 \<and> live s3 = live s2 \<and> (\<forall>k. plenty k s2 \<longrightarrow> plenty k s3) \<and> hp_ok X C s3 t A R M"
          have "wp (call (store old_item null) (\<lambda>_. Done (Finished (CLDS_SORTED_LIST_SET_VALUE_OK, v))))
              (\<lambda>e. case e of Restart v' \<Rightarrow> (\<lambda>_. False) | Finished r \<Rightarrow> G r) s3"
            by (rule linked [OF none False s2(1)]) (use s2(3-5) m(3,4) s3 3(5) xs in simp_all)
          then show "wp (if first_of rs \<noteq> null then Done (Restart v)
            else call (store old_item null) (\<lambda>_. Done (Finished (CLDS_SORTED_LIST_SET_VALUE_OK, v))))
            (\<lambda>e. case e of Restart v' \<Rightarrow> (\<lambda>_. False) | Finished r \<Rightarrow> G r) s3" using 3(1) by simp
        qed
      next
        show "sorted_wrt (\<lambda>x y. ord K L (user s') x y < 0) (ws @ y # rs)"
          unfolding m(4) by (rule sorted_inserted [OF cb sorted big]) (simp_all add: 3(1))
      qed (use item(1) m fresh [OF none] xs 3(2) in simp_all)
      then show ?thesis using False 3(1) by (simp add: set_value_at_end_eq [OF 3(3) ws0])
    qed
  next
    case (4 s')
    then show ?case using same [OF 4(2)] xs by (simp add: wp_Done G_def set_value_post_def split: option.splits prod.splits)
  next
    case (5 s' ph ch A'' x zs)
    note m = same [OF 5(6)]
    have room': "2 * card (live s') + 4 < b" "card (live s') < b" using 5(7) room by (simp_all add: xs)
    have l': "csl_lists s' l = Some (L\<lparr>list_head := first_of xs\<rparr>)" by (rule csl_okD(9) [OF m(5)])
    consider "ord K L (user s) y x < 0" | "ord K L (user s) y x = 0" using small [OF 5(1)] by linarith
    then show ?case
    proof cases
      case 1
      then have none: "find (\<lambda>x. ord K L (user s) y x = 0) xs = None" using find 5(1) by simp
      have "wp (set_value_between b l t y old_item only_if_exists v ph (last_of ws) ch x) ?leave s'"
      proof (cases only_if_exists)
        case True
        have "wp (call (let_go b t ph) (\<lambda>_. call (clds_hazard_pointers_release b t ch) (\<lambda>_.
            Done (Leave (Finished (CLDS_SORTED_LIST_SET_VALUE_NOT_FOUND, v)))))) ?leave s'"
          by (rule wp_let_go_both [OF 5(2,3,5) room'(2)]) (use not_found [OF none True] 5(6,7) xs in \<open>simp add: wp_Done\<close>)
        then show ?thesis unfolding set_value_between_def let_go_item [OF 5(5) ws0] using True by simp
      next
        case False
        have "wp (call (on_node y (wr item_next_update (first_of rs))) (\<lambda>_. call (cas_link l (link_after ws) y (first_of rs)) (\<lambda>old.
            call (let_go b t ph) (\<lambda>_. call (clds_hazard_pointers_release b t ch) (\<lambda>_.
            if old \<noteq> x then Done (Leave (Restart v))
            else call (store old_item null) (\<lambda>_. Done (Leave (Finished (CLDS_SORTED_LIST_SET_VALUE_OK, v))))))))) ?leave s'"
        proof (rule wp_link_in [OF m(5) [unfolded xs]])
          fix s2 :: "('q, 'u, 'a) csl_mem_scheme"
          assume s2: "csl_ok Os K l L (ws @ y # rs) (U(y := U y - 1)) R M s2" "hp_ok X C s2 t (A''(ch \<mapsto> x)) R M"
            "words s2 = words s'" "user s2 = user s'" "live s2 = live s'"
          have "card (live s2) < b" using s2(5) room' by simp
          then show "wp (call (let_go b t ph) (\<lambda>_. call (clds_hazard_pointers_release b t ch) (\<lambda>_.
            if first_of rs \<noteq> x then Done (Leave (Restart v))
            else call (store old_item null) (\<lambda>_. Done (Leave (Finished (CLDS_SORTED_LIST_SET_VALUE_OK, v))))))) ?leave s2"
          proof (rule wp_let_go_both [OF s2(2) 5(3,5)])
            fix s3 :: "('q, 'u, 'a) csl_mem_scheme"
            assume s3: "hp_mem.more s3 = hp_mem.more s2" "live s3 = live s2" "hp_ok X C s3 t A R M"
            have "wp (call (store old_item null) (\<lambda>_. Done (Leave (Finished (CLDS_SORTED_LIST_SET_VALUE_OK, v))))) ?leave s3"
              by (rule linked [OF none False s2(1)]) (use s2(3-5) m(3,4) s3 5(7) xs in simp_all)
            then show "wp (if first_of rs \<noteq> x then Done (Leave (Restart v))
              else call (store old_item null) (\<lambda>_. Done (Leave (Finished (CLDS_SORTED_LIST_SET_VALUE_OK, v))))) ?leave s3" using 5(1) by simp
          qed
        next
        show "sorted_wrt (\<lambda>x y. ord K L (user s') x y < 0) (ws @ y # rs)"
            unfolding m(4) by (rule sorted_inserted [OF cb sorted big]) (use 1 5(1) in simp_all)
        qed (use item(1) m fresh [OF none] xs 5(2) in simp_all)
        then show ?thesis using False 5(1) by (simp add: set_value_between_eq [OF 5(5) ws0])
      qed
      then show ?thesis
        using 1 l' m(4) by (simp add: set_value_at_item_def wp_call wp_item_key wp_compare_keys)
    next
      case 2
      then have some: "find (\<lambda>x. ord K L (user s) y x = 0) xs = Some x" using find 5(1) by simp
      obtain check u where c: "condition_result K f c (key_of K L (user s) y) (key_of K L (user s) x) (user s) = (check, u)" by fastforce
      have u: "ord K L' u z z' = ord K L' (user s) z z'" for L' z z'
        using ord_condition_result [OF cb, of L' f c "key_of K L (user s) y" "key_of K L (user s) x" "user s"] c by simp
      define s2 where "s2 = s'\<lparr>user := u\<rparr>"
      have s2: "hp_ok X C s2 t (A''(ch \<mapsto> x)) R M" "words s2 = words s" "user s2 = u" "card (live s2) < b" "2 * card (live s2) + 4 < b"
          "card (live s2) \<le> card (live s) + length xs + 1"
        using 5(2,7) m(3) room' by (simp_all add: s2_def xs)
      have ok2: "csl_ok Os K l L (ws @ x # zs) U R M s2"
        by (rule csl_ok_user [OF m(5) [unfolded xs 5(1)]]) (simp_all add: s2_def u m(4))
      have "wp (if check \<noteq> CLDS_CONDITION_CHECK_OK then
          call (let_go b t ph) (\<lambda>_. call (clds_hazard_pointers_release b t ch) (\<lambda>_.
          Done (Leave (Finished (if check = CLDS_CONDITION_CHECK_NOT_MET then CLDS_SORTED_LIST_SET_VALUE_CONDITION_NOT_MET
             else CLDS_SORTED_LIST_SET_VALUE_ERROR, v)))))
         else set_value_replace X K b l t y old_item seq v ph (last_of ws) ch x) ?leave s2"
      proof (cases "check = CLDS_CONDITION_CHECK_OK")
        case False
        have "wp (call (let_go b t ph) (\<lambda>_. call (clds_hazard_pointers_release b t ch) (\<lambda>_.
          Done (Leave (Finished (if check = CLDS_CONDITION_CHECK_NOT_MET then CLDS_SORTED_LIST_SET_VALUE_CONDITION_NOT_MET
             else CLDS_SORTED_LIST_SET_VALUE_ERROR, v)))))) ?leave s2"
        proof (rule wp_let_go_both [OF s2(1) 5(3,5) s2(4)])
          fix s3 :: "('q, 'u, 'a) csl_mem_scheme"
          assume s3: "hp_mem.more s3 = hp_mem.more s2" "live s3 = live s2" "hp_ok X C s3 t A R M"
          show "wp (Done (Leave (Finished (if check = CLDS_CONDITION_CHECK_NOT_MET then CLDS_SORTED_LIST_SET_VALUE_CONDITION_NOT_MET
             else CLDS_SORTED_LIST_SET_VALUE_ERROR, v)))) ?leave s3"
            using some c False s3(2,3) s2(6) csl_moreD(3,4) [OF s3(1)] s2(2,3) csl_ok_more [OF ok2 s3(1)]
            by (simp add: wp_Done G_def set_value_post_def xs 5(1))
        qed
        with False show ?thesis by simp
      next
        case True
        have "x \<notin> set ws" using big 2 by fastforce
        moreover have "x \<notin> set zs"
          using heap_chain_distinct [of "itm_next s'" "first_of xs" xs] csl_okD(1) [OF m(5)] by (auto simp: list_at_def xs 5(1))
        ultimately have repl: "map (\<lambda>z. if z = x then y else z) xs = ws @ y # zs" by (auto simp: xs 5(1) intro!: map_idI)
        have yx: "y = x" if "y \<in> set xs"
        proof -
          have "y \<notin> set ws" using big cmp_refl [OF cb] by fastforce
          moreover have "ord K L (user s) x y < 0" if "y \<in> set zs" using sorted that 5(1) by (auto simp: sorted_wrt_append)
          then have "y \<notin> set zs" using 2 cmp_flip(2) [OF cb] by fastforce
          ultimately show ?thesis using that by (auto simp: xs 5(1))
        qed
        have p2: "plenty 1 s2" if "plenty (Suc (Suc (length xs))) s"
        proof -
          have "plenty 1 s'" by (rule 5(8)) (use that in \<open>simp add: xs\<close>)
          then show ?thesis using plenty_cong [of s2 s' 1] by (simp add: s2_def)
        qed
        have r2: "settled K V N s2 V' N' s'' = settled K V N s V' N' s''" for V V' N N' and s'' :: "('q, 'u, 'a) csl_mem_scheme"
          using m(1) by (simp add: settled_def refs_def s2_def)
        have "wp (set_value_replace X K b l t y old_item seq v ph (last_of ws) ch x) ?leave s2"
        proof (rule wp_set_value_replace [OF s2(1) 5(3,5) cb ok2 s2(5)])
          show "words s2 old_item \<noteq> None" using old s2(2) by simp
          show "words s2 (sequence_number L) = Some v" if "sequence_number L \<noteq> null" using seq that s2(2) by simp
          show "y \<notin> set (ws @ x # zs) \<and> csl_items s2 y \<noteq> None \<and> 0 < U y \<and> listed Os y = 0" if "y \<noteq> x"
            using that yx item m(1) by (auto simp: xs 5(1) s2_def)
          show "ord K L (user s2) y x = 0" using 2 u s2(3) by simp
          show "Suc (refs s2 x) < 2 ^ 32" using refs [of x] m(1) by (simp add: xs 5(1) refs_def s2_def)
        qed (use some c True s2(2,3,6) repl p2 in \<open>auto simp: r2 G_def set_value_post_def xs 5(1)\<close>)
        with True show ?thesis by simp
      qed
      then show ?thesis
        using 2 l' m(4) c by (simp add: set_value_at_item_def wp_call [of "item_key _ _ _"] wp_call [of "compare_keys _ _ _ _"]
            wp_call [of "check_condition _ _ _ _ _"] wp_item_key wp_compare_keys wp_check_condition s2_def split del: if_split cong: if_cong)
    qed
  qed
  then show ?thesis unfolding G_def .
qed


text \<open>
  \<open>clds_sorted_list_set_value\<close>: the state \<open>s1\<close> is the one after the search; when the operation has not
  succeeded, its sequence number is reported as skipped.
\<close>

lemma wp_set_value:
  fixes s :: "('q, 'u, 'a) csl_mem_scheme"
  assumes hp: "hp_ok X C s t A R M" and cb: "callbacks_ok K" and ok: "csl_ok Os K l L xs U R M s"
    and lock: "locked_for_write L = 0" and seq: "seq_ok L seq (words s)"
    and item: "csl_items s y \<noteq> None" "y \<notin> set xs \<Longrightarrow> 0 < U y" "listed Os y = 0" and room: "2 * (card (live s) + length xs + 1) + 4 < b"
    and old: "words s old_item \<noteq> None" "old_item \<noteq> null" and key: "key \<noteq> null"
    and refs: "\<And>x. x \<in> set xs \<Longrightarrow> Suc (refs s x) < 2 ^ 32"
  shows "wp (clds_sorted_list_set_value X K b l t key y f c old_item seq only_if_exists)
    (\<lambda>r s'. \<exists>s1. set_value_post X C Os K l t A R M L xs U y f c old_item only_if_exists s
        (card (live s) + length xs + 2) (given_out seq (next_number L (words s)) (counted_on L (words s))) (user s) r L s1 \<and>
      s' = (if r = CLDS_SORTED_LIST_SET_VALUE_OK then s1 else s1\<lparr>user := skipped_user K L (next_number L (words s)) (user s1)\<rparr>)) s"
proof -
  define n where "n = next_number L (words s)"
  define W where "W = given_out seq n (counted_on L (words s))"
  define body :: "('q, 'u, 'a, clds_sorted_list_set_value_result \<times> 64 word) csl_prog" where
    "body = call (item_key K l y) (\<lambda>new_item_key. call (take_sequence_number l seq) (\<lambda>v.
       restarting b (\<lambda>v. walk b l t (set_value_at_end b l t y old_item only_if_exists v)
         (Done (Finished (CLDS_SORTED_LIST_SET_VALUE_ERROR, v)))
         (set_value_at_item X K b l t y new_item_key f c old_item seq only_if_exists v) v b null null Head) v))"
  define post where "post = (\<lambda>r L' s1. set_value_post X C Os K l t A R M L xs U y f c old_item only_if_exists s
        (card (live s) + length xs + 2) W (user s) r L' (s1 :: ('q, 'u, 'a) csl_mem_scheme))"
  define P where "P = (\<lambda>(r, v :: 64 word) xs' U' R' M' (s' :: ('q, 'u, 'a) csl_mem_scheme). v = n \<and>
      (\<forall>L' m. csl_ok Os K l L' xs' U' R' M' (s'\<lparr>csl_lists := m\<rparr>) \<longrightarrow> post r L' (s'\<lparr>csl_lists := m\<rparr>)))"
  have split: "\<exists>xs' U' R' M'. csl_ok Os K l L' xs' U' R' M' s1 \<and> P (r, n) xs' U' R' M' s1" if "post r L' s1" for r L' s1
  proof -
    obtain xs' U' R' M' where "csl_ok Os K l L' xs' U' R' M' s1"
      "\<And>L' m. csl_ok Os K l L' xs' U' R' M' (s1\<lparr>csl_lists := m\<rparr>) \<Longrightarrow> post r L' (s1\<lparr>csl_lists := m\<rparr>)"
    proof (cases "find (\<lambda>x. ord K L (user s) y x = 0) xs")
      case None
      with that \<open>post r L' s1\<close> show thesis by (auto simp: post_def set_value_post_def)
    next
      case (Some x)
      show thesis
      proof (cases "y = x \<or> \<not> (r = CLDS_SORTED_LIST_SET_VALUE_OK)")
        case True
        with Some \<open>post r L' s1\<close> show thesis by (intro that) (auto simp: post_def set_value_post_def split: prod.splits if_splits)
      next
        case False
        obtain check u' where c: "condition_result K f c (key_of K L (user s) y) (key_of K L (user s) x) (user s) = (check, u')" by fastforce
        define sw where "sw L' R' M' s1 \<longleftrightarrow> R' \<subseteq># add_mset (reclaim_list_node_function K, x) R \<and> M' \<subseteq> M \<and> hp_ok X C s1 t A R' M' \<and> cleanups K u' (user s1) \<and>
           csl_ok Os K l L' (map (\<lambda>z. if z = x then y else z) xs) (U(y := U y - 1, x := Suc (U x))) R' M' s1 \<and>
           (plenty (Suc (Suc (length xs))) s \<longrightarrow> settled K (U(y := U y - 1)) (add_mset (reclaim_list_node_function K, x) R) s
              (U(y := U y - 1, x := Suc (U x))) R' s1)" for L' R' M' and s1 :: "('q, 'u, 'a) csl_mem_scheme"
        have post: "post r L' s1 \<longleftrightarrow> card (live s1) \<le> card (live s) + length xs + 2 \<and> check = CLDS_CONDITION_CHECK_OK \<and> words s1 = W(old_item \<mapsto> x) \<and>
            (\<exists>R' M'. sw L' R' M' s1)" for L' s1
          using Some c False by (simp add: post_def set_value_post_def sw_def)
        then obtain R' M' where sw: "sw L' R' M' s1" using \<open>post r L' s1\<close> by blast
        show thesis
        proof (rule that)
          show "csl_ok Os K l L' (map (\<lambda>z. if z = x then y else z) xs) (U(y := U y - 1, x := Suc (U x))) R' M' s1"
            using sw by (simp add: sw_def)
          fix L'' m assume "csl_ok Os K l L'' (map (\<lambda>z. if z = x then y else z) xs) (U(y := U y - 1, x := Suc (U x))) R' M' (s1\<lparr>csl_lists := m\<rparr>)"
          then have "sw L'' R' M' (s1\<lparr>csl_lists := m\<rparr>)" using sw by (simp add: sw_def)
          then show "post r L'' (s1\<lparr>csl_lists := m\<rparr>)" using \<open>post r L' s1\<close> unfolding post by auto
        qed
      qed
    qed
    then show ?thesis unfolding P_def prod.case by blast
  qed
  have "wp (call (check_lock_and_begin_write_operation b (list_lock l)) (\<lambda>_. call body (\<lambda>r. call (end_write_operation (list_lock l)) (\<lambda>_.
      call (if fst r \<noteq> CLDS_SORTED_LIST_SET_VALUE_OK then report_skipped K l (snd r) else Done ()) (\<lambda>_. Done (fst r))))))
      (\<lambda>r s'. \<exists>s1. post r L s1 \<and> s' = (if r = CLDS_SORTED_LIST_SET_VALUE_OK then s1 else s1\<lparr>user := skipped_user K L n (user s1)\<rparr>)) s"
  proof (rule wp_write_operation [OF ok lock, where P = P])
    show "0 < b" using room by simp
    fix s1 :: "('q, 'u, 'a) csl_mem_scheme"
    define L1 where "L1 = L\<lparr>pending_write_operations := pending_write_operations L + 1\<rparr>"
    assume s1: "csl_ok Os K l (L\<lparr>pending_write_operations := pending_write_operations L + 1\<rparr>) xs U R M s1"
      "csl_items s1 = csl_items s" "words s1 = words s" "user s1 = user s" "live s1 = live s" "\<And>n. plenty n s1 = plenty n s"
      "\<And>X C t A R M. hp_ok X C s1 t A R M = hp_ok X C s t A R M"
    define s2 where "s2 = s1\<lparr>words := W\<rparr>"
    have l1: "csl_lists s1 l = Some (L1\<lparr>list_head := first_of xs\<rparr>)" unfolding L1_def by (rule csl_okD(9) [OF s1(1)])
    have ok2: "csl_ok Os K l L1 xs U R M s2" unfolding L1_def by (rule csl_ok_cong [OF s1(1)]) (simp_all add: s2_def)
    have f: "csl_items s2 = csl_items s" "words s2 = W" "user s2 = user s" "live s2 = live s" "plenty n s2 = plenty n s" "refs s2 x = refs s x" for n x
      using s1 plenty_cong [of s2 s1] by (simp_all add: s2_def refs_def)
    have f1: "key_of K L1 = key_of K L" "cmp K L1 = cmp K L" "insert_sorted K L1 = insert_sorted K L" "sequence_number L1 = sequence_number L"
      by (simp_all add: L1_def insert_sorted_def fun_eq_iff)
    have f2: "settled K V N s2 V' N' s' = settled K V N s V' N' s'" for V V' N N' and s' :: "('q, 'u, 'a) csl_mem_scheme"
      by (simp add: settled_def f(6))
    have hp2: "hp_ok X C s2 t A R M" using hp s1(7) by (simp add: s2_def)
    have old2: "W old_item \<noteq> None" using old(1) seq by (auto simp: W_def given_out_def counted_on_def)
    have seq2: "W (sequence_number L) = Some n" if "sequence_number L \<noteq> null"
      using that by (auto simp: W_def given_out_def counted_on_def n_def)
    have "wp (restarting b (\<lambda>v. walk b l t (set_value_at_end b l t y old_item only_if_exists v)
         (Done (Finished (CLDS_SORTED_LIST_SET_VALUE_ERROR, v)))
         (set_value_at_item X K b l t y (key_of K L (user s) y) f c old_item seq only_if_exists v) v b null null Head) n)
       (\<lambda>(r, v) s2. v = n \<and> post r L1 s2) s2"
      using wp_set_value_search [OF hp2 cb ok2, unfolded f f1, OF item room old2 seq2 refs] unfolding post_def set_value_post_def f1 f(5) f2 .
    then have "wp (restarting b (\<lambda>v. walk b l t (set_value_at_end b l t y old_item only_if_exists v)
         (Done (Finished (CLDS_SORTED_LIST_SET_VALUE_ERROR, v)))
         (set_value_at_item X K b l t y (key_of K L (user s) y) f c old_item seq only_if_exists v) v b null null Head) n)
       (\<lambda>r s2. \<exists>xs' U' R' M'. csl_ok Os K l L1 xs' U' R' M' s2 \<and> P r xs' U' R' M' s2) s2"
      by (rule wp_mono) (auto dest: split)
    then show "wp body (\<lambda>r s2. \<exists>xs' U' R' M'. csl_ok Os K l (L\<lparr>pending_write_operations := pending_write_operations L + 1\<rparr>) xs' U' R' M' s2 \<and>
        P r xs' U' R' M' s2) s1"
      unfolding body_def L1_def [symmetric]
      using seq s1(3,4) by (simp add: wp_call wp_item_key [OF l1] wp_take_sequence_number [OF l1] L1_def s2_def W_def n_def)
  next
    show "P r xs' U' R' M' (s2\<lparr>csl_lists := m\<rparr>)" if "P r xs' U' R' M' s2" for r xs' U' R' M' s2 m
      using that by (cases r) (simp add: P_def)
  next
    show "wp (call (if fst r \<noteq> CLDS_SORTED_LIST_SET_VALUE_OK then report_skipped K l (snd r) else Done ()) (\<lambda>_. Done (fst r)))
        (\<lambda>r s'. \<exists>s1. post r L s1 \<and> s' = (if r = CLDS_SORTED_LIST_SET_VALUE_OK then s1 else s1\<lparr>user := skipped_user K L n (user s1)\<rparr>)) s3"
      if ok3: "csl_ok Os K l L xs' U' R' M' s3" and P3: "P r xs' U' R' M' s3" for r xs' U' R' M' s3
    proof -
      obtain a where r: "r = (a, n)" using P3 by (cases r) (auto simp: P_def)
      have "csl_ok Os K l L xs' U' R' M' (s3\<lparr>csl_lists := csl_lists s3\<rparr>)" using ok3 by simp
      then have "post a L (s3\<lparr>csl_lists := csl_lists s3\<rparr>)" using P3 unfolding r P_def prod.case by blast
      then have "post a L s3" by simp
      then show ?thesis
        using csl_okD(9) [OF ok3] by (auto simp: r wp_call wp_Done wp_report_skipped)
    qed
  qed
  moreover have "l \<noteq> null" "y \<noteq> null" "t \<noteq> null"
    using csl_okD(2) [OF ok] csl_okD(7) [OF ok] item(1) hp.client_memory [OF hp] by auto
  ultimately have "wp (clds_sorted_list_set_value X K b l t key y f c old_item seq only_if_exists) (\<lambda>r s'. \<exists>s1. post r L s1 \<and> s' = (if r = CLDS_SORTED_LIST_SET_VALUE_OK then s1 else s1\<lparr>user := skipped_user K L n (user s1)\<rparr>)) s"
    unfolding body_def call_assoc clds_sorted_list_set_value_def case_prod_unfold
    using wp_no_counter_for [OF csl_okD(9) [OF ok]] seq old(2) key by (simp add: wp_call [of "no_counter_for _ _"])
  then show ?thesis unfolding post_def W_def n_def .
qed

end
