(* ===== verification/Sorted_List_Snapshots.thy ===== *)
theory Sorted_List_Snapshots
  imports Sorted_List_Operations
begin

text \<open>
  Nodes and lists as a whole: a node's creation and its references, the creation and destruction of
  a list, and the snapshots of a list that is locked for writes.
\<close>

section \<open>Nodes\<close>

lemma lists_ok_cong:
  assumes ok: "lists_ok Os K U R M s" and same: "csl_items s' = csl_items s" "csl_lists s' = csl_lists s" "user s' = user s"
    "csl_mem.more s' = csl_mem.more s"
  shows "lists_ok Os K U R M s'"
proof -
  have "refs s' = refs s" using same(1) by (simp add: refs_def fun_eq_iff)
  then show ?thesis
    using same lists_okD(2,3,4) [OF ok] by (intro lists_ok_step_dom [OF ok]) auto
qed

text \<open>A new node, whose only reference is the caller's.\<close>

lemma lists_ok_new_node:
  assumes ok: "lists_ok Os K U R M s" and x: "x \<notin> M" "x \<noteq> null" "aligned x"
    and items: "csl_items s' = (csl_items s)(x \<mapsto> I)" "ref_count I = 1"
    and same: "csl_lists s' = csl_lists s" "user s' = user s" "csl_mem.more s' = csl_mem.more s"
  shows "lists_ok Os K (U(x := 1)) R (insert x M) s'"
proof -
  have none: "csl_items s x = None" using lists_okD(3) [OF ok, of x] x(1) by (cases "csl_items s x") auto
  then have zero: "listed Os x = 0" "count R (reclaim_list_node_function K, x) = 0" "U x = 0"
    using lists_okD(2) [OF ok, of x] by (simp_all add: refs_def)
  have r: "refs s' = (refs s)(x := 1)" using items by (simp add: refs_def fun_eq_iff)
  show ?thesis
  proof (rule lists_ok_step [OF ok])
    show "p \<in> insert x M \<and> csl_items s' p = None" if "p \<in> M" "csl_items s p = None" for p using that x(1) items(1) by auto
    show "y \<noteq> null \<and> aligned y \<and> y \<in> insert x M \<and> 0 < refs s' y" if "y \<in> dom (csl_items s')" for y
      using that x lists_okD(3) [OF ok, of y] r items(1) by (cases "y = x") auto
    show "listed Os y + count R (reclaim_list_node_function K, y) + (U(x := 1)) y \<le> refs s' y" for y
      using lists_okD(2) [OF ok, of y] zero r by (cases "y = x") auto
    show "itm_next s' y = itm_next s y" if "0 < listed Os y" for y using that zero items(1) by auto
  qed (use same lists_okD(4) [OF ok] in auto)
qed

lemma hp_ok_client_memory:
  assumes hp: "hp_ok X C s t A R M" and same: "same_hp s s'" and live: "live s' = insert x (live s)" "x \<notin> live s"
  shows "hp_ok X C s' t A R (insert x M)"
  by (rule hp.frame [OF hp]) (use hp.client_memory [OF hp] same live in \<open>auto simp: hp_frame_def\<close>)

lemma wp_node_create:
  fixes s :: "('q, 'u, 'a) csl_mem_scheme"
  assumes hp: "hp_ok X C s t A R M" and ok: "lists_ok Os K U R M s"
  shows "wp (clds_sorted_list_node_create node_size f c) (\<lambda>x s'. words s' = words s \<and> user s' = user s \<and>
    (if x = null then hp_ok X C s' t A R M \<and> lists_ok Os K U R M s'
     else x \<notin> live s \<and> csl_items s' x = Some \<lparr>ref_count = 1, item_cleanup_callback = f, item_cleanup_callback_context = c, item_next = null\<rparr> \<and>
       hp_ok X C s' t A R (insert x M) \<and> lists_ok Os K (U(x := 1)) R (insert x M) s')) s"
    (is "wp _ ?Q s")
proof -
  define Q where "Q = ?Q"
  have fail: "Q null (s\<lparr>answers := ps\<rparr>)" for ps
    unfolding Q_def
    using hp_ok_client [OF _ _ hp, of "s\<lparr>answers := ps\<rparr>"] lists_ok_cong [OF ok, of "s\<lparr>answers := ps\<rparr>"] by (simp add: same_hp_def)
  define I where "I = \<lparr>ref_count = 1, item_cleanup_callback = f, item_cleanup_callback_context = c, item_next = null\<rparr>"
  have new: "Q x (s\<lparr>answers := ps, live := insert x (live s), csl_items := (csl_items s)(x \<mapsto> I)\<rparr>)"
    if x: "x \<noteq> null" "aligned x" "x \<notin> live s" for x ps
  proof -
    have "x \<notin> M" using hp.client_memory [OF hp] x(3) by blast
    then have "lists_ok Os K (U(x := 1)) R (insert x M) (s\<lparr>answers := ps, live := insert x (live s), csl_items := (csl_items s)(x \<mapsto> I)\<rparr>)"
      by (rule lists_ok_new_node [OF ok _ x(1,2), where I = I]) (simp_all add: I_def)
    then show ?thesis
      unfolding Q_def using x hp_ok_client_memory [OF hp] by (simp add: same_hp_def I_def)
  qed
  show ?thesis
    unfolding Q_def [symmetric] clds_sorted_list_node_create_def wp_call malloc_node_def
    by (rule wp_new_obj) (auto simp: wp_simps access_kinds intro!: fail new [unfolded I_def])
qed

lemma lists_ok_referenced:
  assumes ok: "lists_ok Os K U R M s" and I: "csl_items s x = Some I" and room: "Suc (refs s x) < 2 ^ 32"
    and items: "csl_items s' = (csl_items s)(x \<mapsto> I\<lparr>ref_count := ref_count I + 1\<rparr>)"
    and rest: "csl_lists s' = csl_lists s" "user s' = user s" "csl_mem.more s' = csl_mem.more s"
  shows "lists_ok Os K (U(x := Suc (U x))) R M s'" and "refs s' = (refs s)(x := Suc (refs s x))"
proof -
  have "unat (ref_count I + 1) = Suc (unat (ref_count I))"
    using room I by (simp add: refs_def unat_word_ariths)
  then show r: "refs s' = (refs s)(x := Suc (refs s x))" using items I by (simp add: fun_eq_iff refs_def)
  show "lists_ok Os K (U(x := Suc (U x))) R M s'"
  proof (rule lists_ok_step_dom [OF ok])
    show "listed Os y + count R (reclaim_list_node_function K, y) + (U(x := Suc (U x))) y \<le> refs s' y" for y
      using lists_okD(2) [OF ok, of y] by (cases "y = x") (auto simp: r)
    show "0 < refs s' y" if "y \<in> dom (csl_items s')" for y
      using lists_okD(3) [OF ok, of y] that by (auto simp: r items split: if_splits)
  qed (use I items rest lists_okD(4) [OF ok] in auto)
qed

lemma wp_node_inc_ref:
  fixes s :: "('q, 'u, 'a) csl_mem_scheme"
  assumes ok: "lists_ok Os K U R M s" and I: "csl_items s x = Some I" and room: "Suc (refs s x) < 2 ^ 32"
    and Q: "\<And>s'. s' = s\<lparr>csl_items := (csl_items s)(x \<mapsto> I\<lparr>ref_count := ref_count I + 1\<rparr>)\<rparr> \<Longrightarrow>
      lists_ok Os K (U(x := Suc (U x))) R M s' \<Longrightarrow> Q Result_0 s'"
  shows "wp (clds_sorted_list_node_inc_ref x) Q s"
proof -
  let ?s = "s\<lparr>csl_items := (csl_items s)(x \<mapsto> I\<lparr>ref_count := ref_count I + 1\<rparr>)\<rparr>"
  have "lists_ok Os K (U(x := Suc (U x))) R M ?s" by (rule lists_ok_referenced [OF ok I room]) simp_all
  from Q [OF refl this] show ?thesis
    using I lists_okD(3) [OF ok I] by (simp add: clds_sorted_list_node_inc_ref_def wp_simps access_kinds)
qed

text \<open>Giving one of the caller's references back: the last one frees the node.\<close>

lemma wp_node_release:
  fixes s :: "('q, 'u, 'a) csl_mem_scheme"
  assumes hp: "hp_ok X C s t A R M" and cb: "callbacks_ok K" and ok: "lists_ok Os K U R M s" and x: "0 < U x"
  shows "wp (clds_sorted_list_node_release K x) (\<lambda>_ s'. \<exists>M'. M' \<subseteq> M \<and> hp_ok X C s' t A R M' \<and>
    lists_ok Os K (U(x := U x - 1)) R M' s' \<and> words s' = words s \<and> cleanups K (user s) (user s') \<and>
    refs s' = (refs s)(x := refs s x - 1) \<and> csl_lists s' = csl_lists s \<and> (\<forall>y. y \<noteq> x \<longrightarrow> csl_items s' y = csl_items s y)) s"
proof -
  have M: "M \<subseteq> live s" "finite (live s)" using hp.client_memory [OF hp] by blast+
  have nx: "x \<noteq> null"
  proof -
    have "0 < refs s x" using lists_okD(2) [OF ok, of x] x by linarith
    then obtain I where "csl_items s x = Some I" by (auto simp: refs_def split: option.splits)
    with lists_okD(3) [OF ok this] show ?thesis by blast
  qed
  have "wp (internal_node_destroy K x) (\<lambda>_ s'. \<exists>M'. client_step M M' s s' \<and> lists_ok Os K (U(x := U x - 1)) R M' s' \<and> words s' = words s \<and>
      cleanups K (user s) (user s') \<and> refs s' = (refs s)(x := refs s x - 1) \<and> csl_lists s' = csl_lists s \<and>
      (\<forall>y. y \<noteq> x \<longrightarrow> csl_items s' y = csl_items s y)) s"
    by (rule wp_internal_node_destroy [OF ok cb M(1)]) (use x in auto)
  then have "wp (clds_sorted_list_node_release K x) (\<lambda>_ s'. \<exists>M'. client_step M M' s s' \<and> lists_ok Os K (U(x := U x - 1)) R M' s' \<and> words s' = words s \<and>
      cleanups K (user s) (user s') \<and> refs s' = (refs s)(x := refs s x - 1) \<and> csl_lists s' = csl_lists s \<and>
      (\<forall>y. y \<noteq> x \<longrightarrow> csl_items s' y = csl_items s y)) s"
    using nx by (simp add: clds_sorted_list_node_release_def)
  then show ?thesis
  proof (rule wp_mono, elim exE conjE)
    fix s' M' assume "client_step M M' s s'"
    then have "M' \<subseteq> M" "hp_ok X C s' t A R M'"
      using hp.frame [OF hp, of M' s'] M(2) finite_subset [of "live s'" "live s"] M(1) by (auto simp: client_step_def hp_frame_def)
    moreover assume "lists_ok Os K (U(x := U x - 1)) R M' s'" "words s' = words s" "cleanups K (user s) (user s')"
      "refs s' = (refs s)(x := refs s x - 1)" "csl_lists s' = csl_lists s" "\<forall>y. y \<noteq> x \<longrightarrow> csl_items s' y = csl_items s y"
    ultimately show "\<exists>M'. M' \<subseteq> M \<and> hp_ok X C s' t A R M' \<and>
        lists_ok Os K (U(x := U x - 1)) R M' s' \<and> words s' = words s \<and> cleanups K (user s) (user s') \<and>
        refs s' = (refs s)(x := refs s x - 1) \<and> csl_lists s' = csl_lists s \<and> (\<forall>y. y \<noteq> x \<longrightarrow> csl_items s' y = csl_items s y)"
      by blast
  qed
qed


section \<open>Creating and destroying a list\<close>

lemma csl_ok_Nil:
  assumes "lists_ok Os K U R M s" and "sorted_list_at K l L [] M s" and "l \<notin> fst ` set (other_lists Os)" "l \<notin> other_objects Os"
  shows "csl_ok Os K l L [] U R M s"
proof -
  have "listed (with_list (l, L, []) Os) x = listed Os x" for x by simp
  then show ?thesis
    unfolding csl_ok_lists using assms unfolding lists_ok_def by (auto simp: with_list_def)
qed

text \<open>Arguments that \<open>clds_sorted_list_create\<close> refuses: a missing function, or a report of skipped numbers without a counter.\<close>

definition create_refused :: "ptr \<Rightarrow> ptr \<Rightarrow> ptr \<Rightarrow> ptr \<Rightarrow> ptr \<Rightarrow> bool" where
  "create_refused h key_cb compare_cb start_sequence_number skipped_cb \<longleftrightarrow>
     h = null \<or> key_cb = null \<or> compare_cb = null \<or> start_sequence_number = null \<and> skipped_cb \<noteq> null"

lemma wp_list_create:
  fixes s :: "('q, 'u, 'a) csl_mem_scheme"
  assumes hp: "hp_ok X C s t A R M" and ok: "lists_ok Os K U R M s"
  shows "wp (clds_sorted_list_create h key_cb key_c compare_cb compare_c seq skipped_cb skipped_c) (\<lambda>l s'. words s' = words s \<and> user s' = user s \<and>
    (create_refused h key_cb compare_cb seq skipped_cb \<longrightarrow> l = null \<and> s' = s) \<and>
    (if l = null then hp_ok X C s' t A R M \<and> lists_ok Os K U R M s'
     else l \<notin> live s \<and> hp_ok X C s' t A R (insert l M) \<and>
       csl_ok Os K l \<lparr>locked_for_write = 0, pending_write_operations = 0, list_hazard_pointers = h, list_head = null,
         get_item_key_cb = key_cb, get_item_key_cb_context = key_c, key_compare_cb = compare_cb, key_compare_cb_context = compare_c,
         sequence_number = seq, skipped_seq_no_cb = skipped_cb, skipped_seq_no_cb_context = skipped_c\<rparr> [] U R (insert l M) s')) s"
    (is "wp _ ?Q s")
proof (cases "create_refused h key_cb compare_cb seq skipped_cb")
  case True
  then show ?thesis using hp ok by (simp add: clds_sorted_list_create_def create_refused_def wp_Done)
next
  case False
  define Q where "Q = ?Q"
  define L where "L = \<lparr>locked_for_write = 0, pending_write_operations = 0, list_hazard_pointers = h, list_head = null,
         get_item_key_cb = key_cb, get_item_key_cb_context = key_c, key_compare_cb = compare_cb, key_compare_cb_context = compare_c,
         sequence_number = seq, skipped_seq_no_cb = skipped_cb, skipped_seq_no_cb_context = skipped_c\<rparr>"
  have fail: "Q null (s\<lparr>answers := ps\<rparr>)" for ps
    unfolding Q_def using False
    using hp_ok_client [OF _ _ hp, of "s\<lparr>answers := ps\<rparr>"] lists_ok_cong [OF ok, of "s\<lparr>answers := ps\<rparr>"] by (simp add: same_hp_def)
  have new: "Q l (s\<lparr>answers := ps, live := insert l (live s), csl_lists := (csl_lists s)(l \<mapsto> L)\<rparr>)"
    if l: "l \<noteq> null" "l \<notin> live s" for l ps
  proof -
    let ?s = "s\<lparr>answers := ps, live := insert l (live s), csl_lists := (csl_lists s)(l \<mapsto> L)\<rparr>"
    have lM: "l \<notin> M" using hp.client_memory [OF hp] l(2) by blast
    have out: "l \<notin> fst ` set (other_lists Os)" "l \<notin> other_objects Os"
      using lM lists_okD(1,5) [OF ok] by (auto simp: sorted_list_at_def)
    have none: "csl_items s l = None" using lists_okD(3) [OF ok, of l] lM by (cases "csl_items s l") auto
    have "refs ?s = refs s" by (simp add: refs_def fun_eq_iff)
    then have "lists_ok Os K U R (insert l M) ?s"
      using out(1) lists_okD(2,3,4) [OF ok] by (intro lists_ok_step [OF ok]) auto
    then have "csl_ok Os K l L [] U R (insert l M) ?s"
      by (rule csl_ok_Nil [OF _ _ out]) (use l none in \<open>simp add: sorted_list_at_def list_at_def L_def\<close>)
    moreover have "hp_ok X C ?s t A R (insert l M)"
      by (rule hp_ok_client_memory [OF hp]) (simp_all add: same_hp_def l(2))
    ultimately show ?thesis using l False by (simp add: Q_def L_def)
  qed
  have "wp (clds_sorted_list_create h key_cb key_c compare_cb compare_c seq skipped_cb skipped_c) Q s"
    using False unfolding clds_sorted_list_create_def create_refused_def malloc_list_def
    by (simp add: wp_call del: de_Morgan_disj de_Morgan_conj)
      (rule wp_new_obj; auto simp: wp_simps access_kinds intro!: fail new [unfolded L_def])
  then show ?thesis unfolding Q_def .
qed

text \<open>Apart from the new list nothing changes, and with memory for one object creation succeeds.\<close>

lemma list_create_effect:
  fixes s :: "('q, 'u, 'a) csl_mem_scheme"
  shows "wlp (clds_sorted_list_create h key_cb key_c compare_cb compare_c seq skipped_cb skipped_c) (\<lambda>l s'. csl_items s' = csl_items s \<and>
    card (live s') \<le> Suc (card (live s)) \<and> (\<forall>l'. l' \<noteq> l \<longrightarrow> csl_lists s' l' = csl_lists s l') \<and>
    (\<forall>k. plenty (Suc k) s \<longrightarrow> \<not> create_refused h key_cb compare_cb seq skipped_cb \<longrightarrow> l \<noteq> null \<and> plenty k s')) s"
proof -
  obtain p s1 where m: "malloc_step s = (p, s1)" by fastforce
  have p: "p \<noteq> null \<and> plenty k s1" if "plenty (Suc k) s" for k using plenty_malloc [OF that m] by simp
  have s1: "csl_items s1 = csl_items s \<and> csl_lists s1 = csl_lists s \<and> card (live s1) \<le> Suc (card (live s))"
    using m by (cases s rule: malloc_step_cases) (auto simp: card_insert_le_m1 intro: card_live_insert)
  have "plenty k (csl_lists_update f s') = plenty k s'" for k f and s' :: "('q, 'u, 'a) csl_mem_scheme" by (rule plenty_cong) simp_all
  then show ?thesis
    using p s1 m by (auto simp: clds_sorted_list_create_def create_refused_def malloc_list_def access_kinds)
qed

lemma csl_ok_forget:
  assumes ok: "csl_ok Os K l L xs U R M s"
  shows "lists_ok Os K (\<lambda>x. U x + of_bool (x \<in> set xs)) R M s"
  unfolding lists_ok_def
proof (intro conjI)
  note o = csl_okD(10) [OF ok, unfolded others_ok_def]
  show "distinct (map fst (other_lists Os))" "\<forall>(l', L', xs') \<in> set (other_lists Os). sorted_list_at K l' L' xs' M s"
    "\<forall>p \<in> other_objects Os. p \<notin> fst ` set (other_lists Os) \<and> p \<in> M \<and> csl_items s p = None" "csl_mem.more s = other_memory Os"
    using o by blast+
  show "\<forall>x. listed Os x \<le> 1"
  proof
    fix x have "of_bool (x \<in> set xs) + listed Os x \<le> 1" using o by blast
    then show "listed Os x \<le> 1" by linarith
  qed
  show "\<forall>x \<in> dom (csl_items s). x \<noteq> null \<and> aligned x \<and> x \<in> M \<and> 0 < refs s x" using csl_okD(7) [OF ok] by blast
  show "\<forall>x. listed Os x + count R (reclaim_list_node_function K, x) + (U x + of_bool (x \<in> set xs)) \<le> refs s x"
  proof
    fix x show "listed Os x + count R (reclaim_list_node_function K, x) + (U x + of_bool (x \<in> set xs)) \<le> refs s x"
      using csl_okD(6) [OF ok, of x] by linarith
  qed
  show "\<forall>r \<in># R. fst r = reclaim_list_node_function K" using csl_okD(12) [OF ok] by blast
qed

lemma lists_ok_object:
  assumes ok: "lists_ok Os K U R M s" and p: "p \<in> M" "csl_items s p = None" "p \<notin> fst ` set (other_lists Os)"
  shows "lists_ok (Os\<lparr>other_objects := insert p (other_objects Os)\<rparr>) K U R M s"
proof -
  have "listed (Os\<lparr>other_objects := insert p (other_objects Os)\<rparr>) x = listed Os x" for x by (simp add: listed_def)
  then show ?thesis using ok p unfolding lists_ok_def by simp
qed

text \<open>The list gives up its reference to every item; \<open>l\<close> itself is freed last.\<close>

lemma wp_destroy_items:
  fixes s :: "('q, 'u, 'a) csl_mem_scheme"
  assumes "hp_ok X C s t A R M" and cb: "callbacks_ok K" and "lists_ok Os K (\<lambda>x. U x + of_bool (x \<in> set xs)) R M s"
    and "heap_chain (itm_next s) p xs" and "\<forall>x \<in> set xs. aligned x" and "length xs < n"
  shows "wp (destroy_items K n p) (\<lambda>_ s'. \<exists>M'. M' \<subseteq> M \<and> hp_ok X C s' t A R M' \<and> lists_ok Os K U R M' s' \<and>
    words s' = words s \<and> cleanups K (user s) (user s') \<and> csl_lists s' = csl_lists s \<and> (\<forall>y. refs s' y = refs s y - of_bool (y \<in> set xs))) s"
  using assms(1,3-)
proof (induction xs arbitrary: s M n p)
  case Nil
  then show ?case by (cases n) (auto simp: wp_Done)
next
  case (Cons x xs)
  obtain m where n: "n = Suc m" using Cons.prems(5) by (cases n) auto
  obtain q where q: "p = x" "x \<noteq> null" "itm_next s x = Some q" "heap_chain (itm_next s) q xs" using Cons.prems(3) by auto
  have x: "x \<notin> set xs" using heap_chain_distinct [OF Cons.prems(3)] by simp
  have "q = first_of xs" using heap_chain_first [OF q(4)] by (simp add: first_of_def)
  then have al: "unmark q = q" using Cons.prems(4) by (cases xs) simp_all
  have U: "(\<lambda>y. U y + of_bool (y \<in> set (x # xs)))(x := U x + of_bool (x \<in> set (x # xs)) - 1) = (\<lambda>y. U y + of_bool (y \<in> set xs))"
    using x by auto
  have "0 < U x + of_bool (x \<in> set (x # xs))" by simp
  from wp_node_release [OF Cons.prems(1) cb Cons.prems(2) this]
  have "wp (call (clds_sorted_list_node_release K x) (\<lambda>_. destroy_items K m q)) (\<lambda>_ s'. \<exists>M'. M' \<subseteq> M \<and> hp_ok X C s' t A R M' \<and> lists_ok Os K U R M' s' \<and>
    words s' = words s \<and> cleanups K (user s) (user s') \<and> csl_lists s' = csl_lists s \<and> (\<forall>y. refs s' y = refs s y - of_bool (y \<in> set (x # xs)))) s"
  proof (rule wp_seq, elim exE conjE)
    fix a and s1 :: "('q, 'u, 'a) csl_mem_scheme" and M1
    assume s1: "M1 \<subseteq> M" "hp_ok X C s1 t A R M1"
      "lists_ok Os K ((\<lambda>y. U y + of_bool (y \<in> set (x # xs)))(x := U x + of_bool (x \<in> set (x # xs)) - 1)) R M1 s1"
      "words s1 = words s" "cleanups K (user s) (user s1)" "refs s1 = (refs s)(x := refs s x - 1)" "csl_lists s1 = csl_lists s" "\<forall>y. y \<noteq> x \<longrightarrow> csl_items s1 y = csl_items s y"
    have "heap_chain (itm_next s1) q xs"
      using q(4) x s1(8) heap_chain_cong [of xs "itm_next s1" "itm_next s" q] by force
    from Cons.IH [OF s1(2) s1(3) [unfolded U] this] Cons.prems(4,5) n
    have "wp (destroy_items K m q) (\<lambda>_ s'. \<exists>M'. M' \<subseteq> M1 \<and> hp_ok X C s' t A R M' \<and> lists_ok Os K U R M' s' \<and>
      words s' = words s1 \<and> cleanups K (user s1) (user s') \<and> csl_lists s' = csl_lists s1 \<and> (\<forall>y. refs s' y = refs s1 y - of_bool (y \<in> set xs))) s1" by simp
    then show "wp (destroy_items K m q) (\<lambda>_ s'. \<exists>M'. M' \<subseteq> M \<and> hp_ok X C s' t A R M' \<and> lists_ok Os K U R M' s' \<and>
      words s' = words s \<and> cleanups K (user s) (user s') \<and> csl_lists s' = csl_lists s \<and> (\<forall>y. refs s' y = refs s y - of_bool (y \<in> set (x # xs)))) s1"
    proof (rule wp_mono, elim exE conjE, goal_cases)
      case (1 _ s' M')
      then show ?case using s1(1,4,5,6,7) x cleanups_trans [of K "user s" "user s1" "user s'"] by (intro exI [of _ M']) auto
    qed
  qed
  moreover have "wp (destroy_items K n p) F s = wp (call (clds_sorted_list_node_release K x) (\<lambda>_. destroy_items K m q)) F s" for F
    using q(1-3) al unfolding n by (auto simp: wp_call [of "on_node _ _"] wp_read_next clds_sorted_list_node_release_def)
  ultimately show ?case by (simp only:)
qed

lemma wp_list_destroy:
  fixes s :: "('q, 'u, 'a) csl_mem_scheme"
  assumes hp: "hp_ok X C s t A R M" and cb: "callbacks_ok K" and ok: "csl_ok Os K l L xs U R M s" and room: "length xs < b"
  shows "wp (clds_sorted_list_destroy K b l) (\<lambda>_ s'. \<exists>M'. M' \<subseteq> M - {l} \<and> hp_ok X C s' t A R M' \<and> lists_ok Os K U R M' s' \<and>
    words s' = words s \<and> cleanups K (user s) (user s') \<and> csl_lists s' = (csl_lists s)(l := None) \<and> l \<notin> live s' \<and> (\<forall>y. refs s' y = refs s y - of_bool (y \<in> set xs))) s"
proof -
  define Q where "Q = (\<lambda>s'. \<exists>M'. M' \<subseteq> M - {l} \<and> hp_ok X C s' t A R M' \<and> lists_ok Os K U R M' s' \<and>
    words s' = words s \<and> cleanups K (user s) (user s') \<and> csl_lists s' = (csl_lists s)(l := None) \<and> l \<notin> live (s' :: ('q, 'u, 'a) csl_mem_scheme) \<and> (\<forall>y. refs s' y = refs s y - of_bool (y \<in> set xs)))"
  define Os' where "Os' = Os\<lparr>other_objects := insert l (other_objects Os)\<rparr>"
  have out: "l \<notin> fst ` set (other_lists Os)" "l \<notin> other_objects Os"
    using csl_okD(10) [OF ok] by (auto simp: others_ok_def)
  have li: "listed Os' x = listed Os x" for x by (simp add: Os'_def listed_def)
  have ok1: "lists_ok Os' K (\<lambda>x. U x + of_bool (x \<in> set xs)) R M s"
    unfolding Os'_def by (rule lists_ok_object [OF csl_ok_forget [OF ok] csl_okD(3,4) [OF ok] out(1)])
  have at: "heap_chain (itm_next s) (first_of xs) xs" "\<forall>x \<in> set xs. aligned x" using csl_okD(1) [OF ok] by (simp_all add: list_at_def)
  have "wp (call (destroy_items K b (first_of xs)) (\<lambda>_. free_list l)) (\<lambda>_. Q) s"
  proof (rule wp_seq [OF wp_destroy_items [OF hp cb ok1 at room]], elim exE conjE)
    fix a and s1 :: "('q, 'u, 'a) csl_mem_scheme" and M1
    assume s1: "M1 \<subseteq> M" "hp_ok X C s1 t A R M1" "lists_ok Os' K U R M1 s1" "words s1 = words s" "cleanups K (user s) (user s1)"
      "csl_lists s1 = csl_lists s" "\<forall>y. refs s1 y = refs s y - of_bool (y \<in> set xs)"
    let ?s = "s1\<lparr>live := live s1 - {l}, csl_lists := (csl_lists s1)(l := None)\<rparr>"
    have l: "l \<in> M1" "csl_items s1 l = None" using lists_okD(5) [OF s1(3), of l] by (simp_all add: Os'_def)
    have M1: "M1 \<subseteq> live s1" "finite (live s1)" using hp.client_memory [OF s1(2)] by blast+
    have r: "refs ?s = refs s1" by (simp add: refs_def fun_eq_iff)
    have ok2: "lists_ok Os K U R M1 s1" using s1(3) unfolding lists_ok_def li by (simp add: Os'_def)
    have "lists_ok Os K U R (M1 - {l}) ?s"
    proof (rule lists_ok_step [OF ok2])
      show "csl_lists ?s l' = csl_lists s1 l'" if "l' \<in> fst ` set (other_lists Os)" for l' using that out(1) by auto
      show "p \<in> M1 - {l} \<and> csl_items ?s p = None" if "p \<in> other_objects Os \<union> fst ` set (other_lists Os)" "p \<in> M1" "csl_items s1 p = None" for p
        using that out by auto
      show "x \<noteq> null \<and> aligned x \<and> x \<in> M1 - {l} \<and> 0 < refs ?s x" if "x \<in> dom (csl_items ?s)" for x
        using that l(2) lists_okD(3) [OF ok2, of x] r by auto
      show "listed Os x + count R (reclaim_list_node_function K, x) + U x \<le> refs ?s x" for x
        unfolding r by (rule lists_okD(2) [OF ok2])
    qed (use lists_okD(4) [OF ok2] in simp_all)
    moreover have "hp_ok X C ?s t A R (M1 - {l})"
      by (rule hp.frame [OF s1(2)]) (use l(1) M1 in \<open>auto simp: hp_frame_def same_hp_def\<close>)
    ultimately have "Q ?s" unfolding Q_def using s1 r by (auto intro!: exI [of _ "M1 - {l}"])
    then show "wp (free_list l) (\<lambda>_. Q) s1"
      using l(1) M1(1) csl_okD(2) [OF ok] by (auto simp: wp_free_obj Let_def)
  qed
  then have "wp (clds_sorted_list_destroy K b l) (\<lambda>_. Q) s"
    using csl_okD(2,9) [OF ok] by (simp add: clds_sorted_list_destroy_def wp_call [of "cas_link _ _ _ _"] wp_read_link link_of_def)
  then show ?thesis by (simp add: Q_def)
qed


section \<open>Snapshots\<close>

lemma csl_ok_locked:
  assumes ok: "csl_ok Os K l L xs U R M s"
  shows "csl_ok Os K l (L\<lparr>locked_for_write := v\<rparr>) xs U R M
    (s\<lparr>csl_lists := (csl_lists s)(l \<mapsto> L\<lparr>list_head := first_of xs, locked_for_write := v\<rparr>)\<rparr>)"
    (is "csl_ok _ _ _ _ _ _ _ _ ?s")
proof -
  have "L\<lparr>locked_for_write := v, list_head := h\<rparr> = L\<lparr>list_head := h, locked_for_write := v\<rparr>" for h by (cases L) simp
  moreover have "refs ?s = refs s" by (simp add: refs_def fun_eq_iff)
  moreover have "others_ok K Os l xs M ?s" by (rule others_ok_kept [OF csl_okD(10) [OF ok]]) simp_all
  ultimately show ?thesis using ok by (simp add: csl_ok_def sorted_list_at_def list_at_def)
qed

text \<open>With no write under way, the lock is taken at once.\<close>

lemma wp_lock_writes:
  assumes ok: "csl_ok Os K l L xs U R M s" and idle: "pending_write_operations L = 0" and b: "0 < b"
  shows "wp (clds_sorted_list_lock_writes b l) Q s =
    Q () (s\<lparr>csl_lists := (csl_lists s)(l \<mapsto> L\<lparr>list_head := first_of xs, locked_for_write := locked_for_write L + 1\<rparr>)\<rparr>)"
proof -
  obtain m where "b = Suc m" using b by (cases b) auto
  then show ?thesis
    using csl_okD(2,9) [OF ok] idle
    by (simp add: clds_sorted_list_lock_writes_def internal_lock_writes_def list_lock_def wp_simps)
qed

lemma wp_unlock_writes:
  assumes ok: "csl_ok Os K l L xs U R M s"
  shows "wp (clds_sorted_list_unlock_writes l) Q s =
    Q () (s\<lparr>csl_lists := (csl_lists s)(l \<mapsto> L\<lparr>list_head := first_of xs, locked_for_write := locked_for_write L - 1\<rparr>)\<rparr>)"
  using csl_okD(2,9) [OF ok]
  by (simp add: clds_sorted_list_unlock_writes_def internal_unlock_writes_def list_lock_def wp_simps)

lemma wp_count_items:
  "heap_chain (itm_next s) p xs \<Longrightarrow> length xs < n \<Longrightarrow> wp (count_items n p c) Q s = Q (c + of_nat (length xs)) s"
proof (induction xs arbitrary: n p c)
  case Nil
  then show ?case by (cases n) (simp_all add: wp_Done)
next
  case (Cons x xs)
  then obtain m q where m: "n = Suc m" "p = x" "x \<noteq> null" "itm_next s x = Some q" "heap_chain (itm_next s) q xs" "length xs < m"
    by (cases n) auto
  from Cons.IH [OF m(5,6), of "c + 1"] m(1-4) show ?case
    by (auto simp: wp_call wp_read_next add.assoc)
qed

text \<open>The items of a list are fewer than a \<open>size_t\<close> can count.\<close>

lemma csl_ok_length: "csl_ok Os K l L xs U R M s \<Longrightarrow> length xs < 2 ^ 64"
proof -
  assume ok: "csl_ok Os K l L xs U R M s"
  have "distinct (null # xs)"
    using csl_ok_not_null [OF ok] csl_okD(1) [OF ok] by (auto simp: list_at_def dest: heap_chain_distinct)
  then have "length (null # xs) \<le> card (UNIV :: ptr set)"
    by (metis distinct_card card_mono finite subset_UNIV)
  then show ?thesis by (simp add: card_word)
qed

lemma wp_get_count:
  assumes ok: "csl_ok Os K l L xs U R M s" and t: "t \<noteq> null" and cell: "item_count \<noteq> null" "words s item_count \<noteq> None" and room: "length xs < b"
  shows "wp (clds_sorted_list_get_count b l t item_count) Q s =
    (if locked_for_write L = 0 then Q CLDS_SORTED_LIST_GET_COUNT_NOT_LOCKED s
     else Q CLDS_SORTED_LIST_GET_COUNT_OK (s\<lparr>words := (words s)(item_count \<mapsto> of_nat (length xs))\<rparr>))"
proof -
  have "heap_chain (itm_next s) (first_of xs) xs" using csl_okD(1) [OF ok] by (simp add: list_at_def)
  note c = wp_count_items [OF this room, of 0]
  have l: "csl_lists s l = Some (L\<lparr>list_head := first_of xs\<rparr>)" by (rule csl_okD(9) [OF ok])
  then have "s\<lparr>csl_lists := (csl_lists s)(l \<mapsto> L\<lparr>list_head := first_of xs\<rparr>)\<rparr> = s" by (simp add: fun_upd_idem)
  moreover have "L\<lparr>list_head := first_of xs, locked_for_write := locked_for_write L\<rparr> = L\<lparr>list_head := first_of xs\<rparr>" by (cases L) simp
  ultimately show ?thesis
    using l c t cell csl_okD(2) [OF ok]
    by (simp add: clds_sorted_list_get_count_def wp_call wp_access [of csl_lists] access_kinds wp_store wp_Done wp_read_link link_of_def)
qed

text \<open>The addresses of \<open>n\<close> slots of the caller's array, from index \<open>i\<close> on.\<close>

primrec slots :: "ptr \<Rightarrow> 64 word \<Rightarrow> nat \<Rightarrow> ptr list" where
  "slots items i 0 = []"
| "slots items i (Suc n) = item_slot items i # slots items (i + 1) n"

lemma length_slots [simp]: "length (slots items i n) = n"
  by (induction n arbitrary: i) simp_all

lemma nth_slots: "j < n \<Longrightarrow> slots items i n ! j = item_slot items (i + of_nat j)"
  by (induction n arbitrary: i j) (auto simp: nth_Cons' add.assoc split: if_splits)

lemma item_slot_inj:
  assumes "item_slot items i = item_slot items j" and "unat i < 2 ^ 61" "unat j < 2 ^ 61"
  shows "i = j"
proof -
  have "8 * i = 8 * j" using assms(1) by (simp add: item_slot_def)
  moreover have "unat (8 * i) = 8 * unat i" "unat (8 * j) = 8 * unat j" using assms(2,3) by (simp_all add: unat_mult_lem [THEN iffD1])
  ultimately show ?thesis by (metis mult_left_cancel unsigned_word_eqI zero_neq_numeral)
qed

lemma distinct_slots:
  assumes "unat i + n \<le> 2 ^ 61"
  shows "distinct (slots items i n)"
proof -
  have small: "unat (i + of_nat j) = unat i + j" if "j < n" for j
  proof -
    have "unat (of_nat j :: 64 word) = j" using that assms by (simp add: unat_of_nat)
    then show ?thesis using that assms by (subst unat_add_lem [THEN iffD1]) simp_all
  qed
  show ?thesis
    unfolding distinct_conv_nth
  proof (intro allI impI)
    fix j k assume "j < length (slots items i n)" "k < length (slots items i n)" and neq: "j \<noteq> k"
    then have j: "j < n" and k: "k < n" by simp_all
    show "slots items i n ! j \<noteq> slots items i n ! k"
    proof
      assume "slots items i n ! j = slots items i n ! k"
      then have eq: "item_slot items (i + of_nat j) = item_slot items (i + of_nat k)" unfolding nth_slots [OF j] nth_slots [OF k] .
      have "unat (i + of_nat j) < 2 ^ 61" "unat (i + of_nat k) < 2 ^ 61"
        unfolding small [OF j] small [OF k] using assms j k by linarith+
      from item_slot_inj [OF eq this] have "unat (i + of_nat j) = unat (i + of_nat k)" by (rule arg_cong)
      then show False unfolding small [OF j] small [OF k] using neq by simp
    qed
  qed
qed


lemma wp_copy_items:
  fixes s :: "('q, 'u, 'a) csl_mem_scheme"
  assumes "hp_ok X C s t A R M" and "csl_ok Os K l L xs U R M s" and "heap_chain (itm_next s) p ys" and "set ys \<subseteq> set xs"
    and "length ys < n" and "\<forall>x \<in> set ys. Suc (refs s x) < 2 ^ 32" and "k \<le> unat item_count" and count: "unat item_count < 2 ^ 61"
    and "\<forall>j. j < item_count \<longrightarrow> words s (item_slot items j) \<noteq> None"
  shows "wp (copy_items n item_count items p (of_nat k)) (\<lambda>(q, i) s'. case take (unat item_count - k) ys of zs \<Rightarrow>
      q = first_of (drop (length zs) ys) \<and> i = of_nat (k + length zs) \<and> hp_ok X C s' t A R M \<and>
      csl_ok Os K l L xs (\<lambda>x. U x + count (mset zs) x) R M s' \<and> words s' = (words s)(slots items (of_nat k) (length zs) [\<mapsto>] zs) \<and>
      user s' = user s \<and> live s' = live s \<and> refs s' = (\<lambda>y. refs s y + count (mset zs) y)) s"
  using assms(1-7,9)
proof (induction ys arbitrary: s p n k U)
  case Nil
  then show ?case by (cases n) (simp_all add: wp_Done)
next
  case (Cons x ys)
  obtain m where n: "n = Suc m" using Cons.prems(5) by (cases n) auto
  obtain q where q: "p = x" "x \<noteq> null" "itm_next s x = Some q" "heap_chain (itm_next s) q ys" using Cons.prems(3) by auto
  have x: "x \<notin> set ys" "x \<in> set xs" using heap_chain_distinct [OF Cons.prems(3)] Cons.prems(4) by simp_all
  have k: "unat (of_nat k :: 64 word) = k" "unat (of_nat k + 1 :: 64 word) = Suc k"
    using Cons.prems(7) count by (simp_all add: unat_of_nat unat_word_ariths)
  show ?case
  proof (cases "k = unat item_count")
    case True
    then have "item_count < of_nat k + 1" unfolding word_less_nat_alt k by simp
    then show ?thesis
      using q(1-3) True Cons.prems(1,2) unfolding n by (auto simp: wp_call wp_read_next wp_Done)
  next
    case False
    then have less: "k < unat item_count" using Cons.prems(7) by simp
    then have more: "\<not> item_count < of_nat k + 1" and cell: "of_nat k < item_count" by (simp_all add: word_less_nat_alt k)
    obtain I where I: "csl_items s x = Some I" using q(3) by auto
    define s1 where "s1 = s\<lparr>csl_items := (csl_items s)(x \<mapsto> I\<lparr>ref_count := ref_count I + 1\<rparr>), words := (words s)(item_slot items (of_nat k) \<mapsto> x)\<rparr>"
    have room: "Suc (refs s x) < 2 ^ 32" using Cons.prems(6) by simp
    have ok1: "csl_ok Os K l L xs (U(x := Suc (U x))) R M s1" and r1: "refs s1 = (refs s)(x := Suc (refs s x))"
      by (rule csl_ok_referenced [OF Cons.prems(2) I room]; simp add: s1_def)+
    have "wp (copy_items m item_count items q (of_nat (Suc k))) (\<lambda>(q, i) s'. case take (unat item_count - Suc k) ys of zs \<Rightarrow>
      q = first_of (drop (length zs) ys) \<and> i = of_nat (Suc k + length zs) \<and> hp_ok X C s' t A R M \<and>
      csl_ok Os K l L xs (\<lambda>y. (U(x := Suc (U x))) y + count (mset zs) y) R M s' \<and>
      words s' = (words s1)(slots items (of_nat (Suc k)) (length zs) [\<mapsto>] zs) \<and> user s' = user s1 \<and> live s' = live s1 \<and>
      refs s' = (\<lambda>y. refs s1 y + count (mset zs) y)) s1"
    proof (rule Cons.IH [OF _ ok1])
      show "hp_ok X C s1 t A R M" using Cons.prems(1) by (simp add: s1_def)
      show "heap_chain (itm_next s1) q ys"
        using q(4) x(1) heap_chain_cong [of ys "itm_next s1" "itm_next s" q] by (force simp: s1_def)
      show "\<forall>y \<in> set ys. Suc (refs s1 y) < 2 ^ 32" using Cons.prems(6) x(1) by (auto simp: r1)
      show "\<forall>j. j < item_count \<longrightarrow> words s1 (item_slot items j) \<noteq> None" using Cons.prems(8) by (simp add: s1_def)
    qed (use Cons.prems(4,5) less n in simp_all)
    then have "wp (copy_items m item_count items q (of_nat k + 1)) (\<lambda>(q, i) s'. case take (unat item_count - k) (x # ys) of zs \<Rightarrow>
      q = first_of (drop (length zs) (x # ys)) \<and> i = of_nat (k + length zs) \<and> hp_ok X C s' t A R M \<and>
      csl_ok Os K l L xs (\<lambda>y. U y + count (mset zs) y) R M s' \<and>
      words s' = (words s)(slots items (of_nat k) (length zs) [\<mapsto>] zs) \<and> user s' = user s \<and> live s' = live s \<and>
      refs s' = (\<lambda>y. refs s y + count (mset zs) y)) s1"
    proof -
      obtain d where d: "unat item_count - k = Suc d" "unat item_count - Suc k = d" using less by (metis Suc_diff_Suc)
      have "(\<lambda>y. (U(x := Suc (U x))) y + count (mset zs) y) = (\<lambda>y. U y + count (mset (x # zs)) y)" for zs by auto
      moreover have "(\<lambda>y. refs s1 y + count (mset zs) y) = (\<lambda>y. refs s y + count (mset (x # zs)) y)" for zs by (auto simp: r1)
      moreover assume "wp (copy_items m item_count items q (of_nat (Suc k))) (\<lambda>(q, i) s'. case take (unat item_count - Suc k) ys of zs \<Rightarrow>
        q = first_of (drop (length zs) ys) \<and> i = of_nat (Suc k + length zs) \<and> hp_ok X C s' t A R M \<and>
        csl_ok Os K l L xs (\<lambda>y. (U(x := Suc (U x))) y + count (mset zs) y) R M s' \<and>
        words s' = (words s1)(slots items (of_nat (Suc k)) (length zs) [\<mapsto>] zs) \<and> user s' = user s1 \<and> live s' = live s1 \<and>
      refs s' = (\<lambda>y. refs s1 y + count (mset zs) y)) s1"
      ultimately show ?thesis by (simp add: d s1_def add.commute [of 1])
    qed
    moreover have "words s (item_slot items (of_nat k)) \<noteq> None" using Cons.prems(8) cell by blast
    ultimately have "wp (call (clds_sorted_list_node_inc_ref x) (\<lambda>_. call (store (item_slot items (of_nat k)) x) (\<lambda>_.
        copy_items m item_count items q (of_nat k + 1)))) (\<lambda>(q, i) s'. case take (unat item_count - k) (x # ys) of zs \<Rightarrow>
      q = first_of (drop (length zs) (x # ys)) \<and> i = of_nat (k + length zs) \<and> hp_ok X C s' t A R M \<and>
      csl_ok Os K l L xs (\<lambda>y. U y + count (mset zs) y) R M s' \<and>
      words s' = (words s)(slots items (of_nat k) (length zs) [\<mapsto>] zs) \<and> user s' = user s \<and> live s' = live s \<and> refs s' = (\<lambda>y. refs s y + count (mset zs) y)) s"
      using q(2) I by (simp add: wp_call clds_sorted_list_node_inc_ref_def wp_access access_kinds wp_store wp_Done s1_def)
    then show ?thesis
      using q(1,2) I q(3) more unfolding n
      by (simp add: wp_call [of "on_node _ _"] wp_read_next)
  qed
qed

text \<open>Giving back a reference to an item of the list.\<close>

lemma wp_release_listed:
  fixes s :: "('q, 'u, 'a) csl_mem_scheme"
  assumes ok: "csl_ok Os K l L xs U R M s" and x: "x \<in> set xs" "0 < U x"
    and Q: "\<And>s' I. s' = s\<lparr>csl_items := (csl_items s)(x \<mapsto> I)\<rparr> \<Longrightarrow> csl_ok Os K l L xs (U(x := U x - 1)) R M s' \<Longrightarrow> Q () s'"
  shows "wp (clds_sorted_list_node_release K x) Q s"
proof -
  obtain I where I: "csl_items s x = Some I" "x \<noteq> null" "refs s x = unat (ref_count I)"
    by (rule csl_ok_accounted [OF ok, of x]) (use x in simp_all)
  have "2 \<le> refs s x" using csl_okD(6) [OF ok, of x] x by simp
  then have more: "ref_count I \<noteq> 1" using I(3) by auto
  define s' where "s' = s\<lparr>csl_items := (csl_items s)(x \<mapsto> I\<lparr>ref_count := ref_count I - 1\<rparr>)\<rparr>"
  have "csl_ok Os K l L xs (U(x := U x - 1)) R M s'"
    unfolding csl_ok_lists
    by (rule lists_ok_dropped [OF ok [unfolded csl_ok_lists] _ _ _ I(1) _ _ _ _ more]) (use x(2) in \<open>simp_all add: s'_def\<close>)
  then have "Q () s'" by (intro Q) (simp_all add: s'_def)
  then show ?thesis
    using I more by (simp add: clds_sorted_list_node_release_def internal_node_destroy_def wp_call wp_access access_kinds wp_Done s'_def)
qed

lemma wp_load: "words s p = Some v \<Longrightarrow> wp (load p) Q s = Q v s"
  by (simp add: load_def wp_simps)

lemma wp_release_items:
  fixes s :: "('q, 'u, 'a) csl_mem_scheme"
  assumes "hp_ok X C s t A R M" and "csl_ok Os K l L xs (\<lambda>x. U x + count (mset zs) x) R M s" and "set zs \<subseteq> set xs"
    and "length zs < n" and "k + length zs \<le> 2 ^ 61" and "words s = W(slots items (of_nat k) (length zs) [\<mapsto>] zs)"
  shows "wp (release_items K n (of_nat (k + length zs)) items (of_nat k)) (\<lambda>_ s'. hp_ok X C s' t A R M \<and> csl_ok Os K l L xs U R M s' \<and>
      words s' = W(slots items (of_nat k) (length zs) [\<mapsto>] replicate (length zs) null) \<and> user s' = user s \<and> live s' = live s) s"
  using assms
proof (induction zs arbitrary: s n k W)
  case Nil
  then show ?case by (cases n) (simp_all add: wp_Done)
next
  case (Cons x zs)
  obtain m where n: "n = Suc m" using Cons.prems(4) by (cases n) auto
  have k: "unat (of_nat k :: 64 word) = k" "unat (of_nat (k + length (x # zs)) :: 64 word) = k + length (x # zs)"
    using Cons.prems(5) by (simp_all add: unat_of_nat del: of_nat_add of_nat_Suc)
  have less: "(of_nat k :: 64 word) < of_nat (k + length (x # zs))" unfolding word_less_nat_alt k by simp
  define p where "p = item_slot items (of_nat k)"
  define ps where "ps = slots items (of_nat (Suc k)) (length zs)"
  have sl: "slots items (of_nat k) (length (x # zs)) = p # ps" by (simp add: p_def ps_def add.commute)
  have "distinct (slots items (of_nat k) (length (x # zs)))" by (rule distinct_slots) (use Cons.prems(5) k in simp)
  then have p: "p \<notin> set ps" unfolding sl by simp
  have w: "words s = W(p \<mapsto> x, ps [\<mapsto>] zs)" using Cons.prems(6) unfolding sl by simp
  then have cell: "words s p = Some x" using p by simp
  let ?U = "\<lambda>y. U y + count (mset (x # zs)) y"
  have U: "?U(x := ?U x - 1) = (\<lambda>y. U y + count (mset zs) y)" by auto
  have rest: "wp (call (store p null) (\<lambda>_. release_items K m (of_nat (k + length (x # zs))) items (of_nat (Suc k))))
      (\<lambda>_ s'. hp_ok X C s' t A R M \<and> csl_ok Os K l L xs U R M s' \<and>
        words s' = W(slots items (of_nat k) (length (x # zs)) [\<mapsto>] replicate (length (x # zs)) null) \<and> user s' = user s \<and> live s' = live s) s1"
    if s1: "s1 = s\<lparr>csl_items := (csl_items s)(x \<mapsto> I)\<rparr>" "csl_ok Os K l L xs (?U(x := ?U x - 1)) R M s1" for s1 I
  proof -
    define s2 where "s2 = s1\<lparr>words := (words s1)(p \<mapsto> null)\<rparr>"
    have ok2: "csl_ok Os K l L xs (\<lambda>y. U y + count (mset zs) y) R M s2"
      by (rule csl_ok_cong [OF s1(2) [unfolded U]]) (simp_all add: s2_def)
    have w2: "words s2 = (W(p \<mapsto> null))(ps [\<mapsto>] zs)" using w p by (simp add: s2_def s1(1) map_upds_twist)
    have "hp_ok X C s2 t A R M" using Cons.prems(1) by (simp add: s2_def s1(1))
    have "wp (release_items K m (of_nat (Suc k + length zs)) items (of_nat (Suc k))) (\<lambda>_ s'. hp_ok X C s' t A R M \<and> csl_ok Os K l L xs U R M s' \<and>
        words s' = (W(p \<mapsto> null))(slots items (of_nat (Suc k)) (length zs) [\<mapsto>] replicate (length zs) null) \<and> user s' = user s2 \<and> live s' = live s2) s2"
      by (rule Cons.IH [OF _ ok2 _ _ _ w2 [unfolded ps_def]]) (use \<open>hp_ok X C s2 t A R M\<close> Cons.prems(3-5) n in simp_all)
    then have "wp (release_items K m (of_nat (k + length (x # zs))) items (of_nat (Suc k))) (\<lambda>_ s'. hp_ok X C s' t A R M \<and> csl_ok Os K l L xs U R M s' \<and>
        words s' = W(slots items (of_nat k) (length (x # zs)) [\<mapsto>] replicate (length (x # zs)) null) \<and> user s' = user s \<and> live s' = live s) s2"
      unfolding sl by (simp add: s2_def s1(1) ps_def)
    then show ?thesis using cell by (simp add: wp_call wp_store s2_def s1(1))
  qed
  have "wp (call (clds_sorted_list_node_release K x) (\<lambda>_. call (store p null) (\<lambda>_.
      release_items K m (of_nat (k + length (x # zs))) items (of_nat (Suc k)))))
      (\<lambda>_ s'. hp_ok X C s' t A R M \<and> csl_ok Os K l L xs U R M s' \<and>
        words s' = W(slots items (of_nat k) (length (x # zs)) [\<mapsto>] replicate (length (x # zs)) null) \<and> user s' = user s \<and> live s' = live s) s"
    unfolding wp_call [of "clds_sorted_list_node_release _ _"]
    by (rule wp_release_listed [OF Cons.prems(2)]) (use Cons.prems(3) rest in simp_all)
  moreover have "(of_nat k :: 64 word) + 1 = of_nat (Suc k)" by simp
  ultimately show ?case
    using cell less unfolding n release_items.simps p_def
    by (simp add: wp_call [of "load _"] wp_load del: of_nat_Suc of_nat_add)
qed


text \<open>
  All items are handed out, each with a reference; or, when they do not fit, none is: the references
  taken so far are given back and the slots written so far cleared.
\<close>

lemma wp_get_all:
  fixes s :: "('q, 'u, 'a) csl_mem_scheme"
  assumes hp: "hp_ok X C s t A R M" and ok: "csl_ok Os K l L xs U R M s" and room: "length xs < b"
    and refs: "\<And>x. x \<in> set xs \<Longrightarrow> Suc (refs s x) < 2 ^ 32" and count: "unat item_count < 2 ^ 61" "0 < unat item_count"
    and args: "items \<noteq> null" "retrieved_item_count \<noteq> null" "words s retrieved_item_count \<noteq> None"
    and cells: "\<And>j. j < item_count \<Longrightarrow> words s (item_slot items j) \<noteq> None"
  shows "wp (clds_sorted_list_get_all K b l t item_count items retrieved_item_count require_locked_list) (\<lambda>r s'.
    if require_locked_list \<and> locked_for_write L = 0 then r = CLDS_SORTED_LIST_GET_ALL_NOT_LOCKED \<and> s' = s
    else hp_ok X C s' t A R M \<and> user s' = user s \<and> live s' = live s \<and>
      (if length xs \<le> unat item_count
       then r = CLDS_SORTED_LIST_GET_ALL_OK \<and> refs s' = (\<lambda>x. refs s x + of_bool (x \<in> set xs)) \<and> csl_ok Os K l L xs (\<lambda>x. U x + of_bool (x \<in> set xs)) R M s' \<and>
         words s' = ((words s)(slots items 0 (length xs) [\<mapsto>] xs))(retrieved_item_count \<mapsto> of_nat (length xs))
       else r = CLDS_SORTED_LIST_GET_ALL_NOT_ENOUGH_SPACE \<and> csl_ok Os K l L xs U R M s' \<and>
         words s' = (words s)(slots items 0 (unat item_count) [\<mapsto>] replicate (unat item_count) null))) s"
    (is "wp _ ?Q s")
proof -
  define Q where "Q = ?Q"
  define zs where "zs = take (unat item_count) xs"
  have l: "csl_lists s l = Some (L\<lparr>list_head := first_of xs\<rparr>)" by (rule csl_okD(9) [OF ok])
  have at: "heap_chain (itm_next s) (first_of xs) xs" using csl_okD(1) [OF ok] by (simp add: list_at_def)
  have null: "null \<notin> set xs" by (rule csl_ok_not_null [OF ok])
  have "\<forall>x \<in> set xs. Suc (refs s x) < 2 ^ 32" "\<forall>j. j < item_count \<longrightarrow> words s (item_slot items j) \<noteq> None" using refs cells by blast+
  note copy = wp_copy_items [where k = 0, OF hp ok at subset_refl room this(1) _ count(1) this(2), folded zs_def]
  define finish where "finish = (\<lambda>(current_item, current_index). if current_item \<noteq> null then
            call (release_items K b current_index items 0) (\<lambda>_. Done CLDS_SORTED_LIST_GET_ALL_NOT_ENOUGH_SPACE)
          else call (store retrieved_item_count current_index) (\<lambda>_. Done CLDS_SORTED_LIST_GET_ALL_OK)
      :: ('q, 'u, 'a, clds_sorted_list_get_all_result) csl_prog)"
  have fin: "wp (finish (first_of (drop (length zs) xs), of_nat (length zs))) Q s1" if lock: "\<not> (require_locked_list \<and> locked_for_write L = 0)"
    and s1: "hp_ok X C s1 t A R M" "csl_ok Os K l L xs (\<lambda>x. U x + count (mset zs) x) R M s1"
      "words s1 = (words s)(slots items 0 (length zs) [\<mapsto>] zs)" "user s1 = user s" "live s1 = live s" "refs s1 = (\<lambda>y. refs s y + count (mset zs) y)" for s1
  proof (cases "length xs \<le> unat item_count")
    case True
    then have [simp]: "zs = xs" by (simp add: zs_def)
    have "distinct xs" using at by (rule heap_chain_distinct)
    then have U: "(\<lambda>x. U x + count (mset zs) x) = (\<lambda>x. U x + of_bool (x \<in> set xs))" for U :: "ptr \<Rightarrow> nat" by (auto simp: distinct_count_atmost_1)
    let ?s = "s1\<lparr>words := (words s1)(retrieved_item_count \<mapsto> of_nat (length xs))\<rparr>"
    have "csl_ok Os K l L xs (\<lambda>x. U x + of_bool (x \<in> set xs)) R M ?s" by (rule csl_ok_cong [OF s1(2) [unfolded U]]) simp_all
    moreover have "refs ?s = refs s1" by (simp add: refs_def fun_eq_iff)
    ultimately have "Q CLDS_SORTED_LIST_GET_ALL_OK ?s" using lock True s1 U by (simp add: Q_def)
    moreover have "words s1 retrieved_item_count \<noteq> None"
    proof -
      have "dom (words s) \<subseteq> dom (words s1)" unfolding s1(3) by simp
      then show ?thesis using args(3) by blast
    qed
    ultimately show ?thesis by (simp add: finish_def wp_call wp_store wp_Done)
  next
    case False
    then have zs: "length zs = unat item_count" "drop (length zs) xs \<noteq> []" by (simp_all add: zs_def)
    then obtain y ys where y: "drop (length zs) xs = y # ys" by (cases "drop (length zs) xs") auto
    then have "y \<in> set xs" using in_set_dropD [of y "length zs" xs] by simp
    then have first: "first_of (drop (length zs) xs) \<noteq> null" using y null by auto
    have sub: "set zs \<subseteq> set xs" by (auto simp: zs_def dest: in_set_takeD)
    have "wp (release_items K b (of_nat (0 + length zs)) items (of_nat 0)) (\<lambda>_ s'. hp_ok X C s' t A R M \<and> csl_ok Os K l L xs U R M s' \<and>
      words s' = (words s)(slots items (of_nat 0) (length zs) [\<mapsto>] replicate (length zs) null) \<and> user s' = user s1 \<and> live s' = live s1) s1"
      by (rule wp_release_items [OF s1(1,2) sub]) (use room count(1) False zs s1(3) in simp_all)
    then have "wp (release_items K b (of_nat (0 + length zs)) items (of_nat 0)) (\<lambda>_. Q CLDS_SORTED_LIST_GET_ALL_NOT_ENOUGH_SPACE) s1"
      by (rule wp_mono) (use lock False zs s1(4,5) in \<open>simp add: Q_def\<close>)
    then show ?thesis using first by (simp add: finish_def wp_call wp_Done_fun)
  qed
  have main: "wp (call (cas_link l Head null null) (\<lambda>p. call (copy_items b item_count items p 0) finish)) Q s"
    if lock: "\<not> (require_locked_list \<and> locked_for_write L = 0)"
  proof -
    have "wp (call (copy_items b item_count items (first_of xs) (of_nat 0)) finish) Q s"
      by (rule wp_seq [OF copy]) (auto simp: zs_def [symmetric] intro: fin [OF lock])
    then show ?thesis using l by (simp add: wp_call [of "cas_link _ _ _ _"] wp_read_link link_of_def)
  qed
  have "s\<lparr>csl_lists := (csl_lists s)(l \<mapsto> L\<lparr>list_head := first_of xs\<rparr>)\<rparr> = s" using l by (simp add: fun_upd_idem)
  moreover have "L\<lparr>list_head := first_of xs, locked_for_write := locked_for_write L\<rparr> = L\<lparr>list_head := first_of xs\<rparr>" by (cases L) simp
  moreover have "item_count \<noteq> 0" using count(2) by auto
  moreover have "Q CLDS_SORTED_LIST_GET_ALL_NOT_LOCKED s" if "require_locked_list" "locked_for_write L = 0" using that by (simp add: Q_def)
  ultimately have "wp (clds_sorted_list_get_all K b l t item_count items retrieved_item_count require_locked_list) Q s"
    using l args main csl_okD(2) [OF ok] hp.client_memory [OF hp]
    unfolding clds_sorted_list_get_all_def finish_def [symmetric]
    by (auto simp: wp_call [of "on_list _ _"] wp_call [of "Done _"] wp_call [of "call _ _"] wp_access [of csl_lists] access_kinds wp_Done)
  then show ?thesis unfolding Q_def .
qed

end
