(* ===== verification/Sorted_List_Properties.thy ===== *)
theory Sorted_List_Properties
  imports Sorted_List_Snapshots
begin

text \<open>
  The properties of the sorted list (\<open>src/src/clds_sorted_list.c\<close>), for one thread while the others are
  at rest. A list of items in strictly increasing order of their keys is what an operation starts
  from and what it leaves; the specification of an operation is the function on lists that it
  implements: \<open>insert_sorted\<close>, \<open>find\<close>, \<open>remove1\<close>, \<open>map\<close>.

  All of them start from the same hypotheses: \<open>hp_ok X C s t A R M\<close>, the thread \<open>t\<close> is registered with
  the hazard pointers, holds those in \<open>A\<close>, the reclaim calls \<open>R\<close> are owed and the client's objects are
  \<open>M\<close>; \<open>csl_ok Os K l L xs U R M s\<close>, the list \<open>xs\<close> is at \<open>l\<close> beside the lists and objects of \<open>Os\<close>, and
  \<open>U x\<close> references to the item \<open>x\<close> are in the hands of the caller. \<open>b\<close> bounds the loops and is only
  required to be larger than the number of allocated objects.
\<close>

section \<open>An example\<close>

text \<open>
  A list at 512 with the items 272 and 288, and two more nodes, 280 and 304. The key of a node is its
  address without the last four bits, so 272 and 280 have the same one. The list counts its
  operations at 1024. The caller logs what is cleaned up and what is skipped.
\<close>

definition csl_example_callbacks :: "64 word list csl_callbacks" where
  "csl_example_callbacks = \<lparr>get_item_key = (\<lambda>f c x u. x AND NOT 15),
     key_compare = (\<lambda>f c k k' u. if k < k' then - 1 else if k = k' then 0 else 1),
     skipped_seq_no = (\<lambda>f c v u. u @ [v]), item_cleanup = (\<lambda>f c x u. u @ [x]),
     condition_check = (\<lambda>f c k k' u. (if c = 0 then CLDS_CONDITION_CHECK_OK else CLDS_CONDITION_CHECK_NOT_MET, u)),
     reclaim_list_node_function = 1\<rparr>"

lemma csl_example_callbacks_ok: "callbacks_ok csl_example_callbacks"
  unfolding callbacks_ok_def cmp_def key_of_def by (auto simp: csl_example_callbacks_def)

definition csl_example_struct :: clds_sorted_list where
  "csl_example_struct = \<lparr>locked_for_write = 0, pending_write_operations = 0, list_hazard_pointers = 16, list_head = 272,
     get_item_key_cb = 1, get_item_key_cb_context = 0, key_compare_cb = 1, key_compare_cb_context = 0,
     sequence_number = 1024, skipped_seq_no_cb = 1, skipped_seq_no_cb_context = 0\<rparr>"

definition csl_example_node :: "ptr \<Rightarrow> clds_sorted_list_item" where
  "csl_example_node p = \<lparr>ref_count = 1, item_cleanup_callback = 1, item_cleanup_callback_context = 0, item_next = p\<rparr>"

definition csl_example :: "(inactive_thread list, 64 word list) csl_mem" where
  "csl_example = \<lparr>live = {16, 32, 512, 272, 280, 288, 304}, answers = [768, 784, 800, 816, 832, 848], st_sets = Map.empty, st_arrays = Map.empty,
     st_items = Map.empty, hp_records = Map.empty, hp_entries = Map.empty,
     hp_threads = [32 \<mapsto> \<lparr>th_next = null, th_hazard_pointers = 16, free_pointers = null, pointers = null, reclaim_list = null,
        active = 1, reclaim_list_entry_count = 0\<rparr>],
     hp_structs = [16 \<mapsto> \<lparr>hp_thread_cleanup_worker = 24, reclaim_threshold = 8, hp_head = 32, epoch = 0,
        pending_reclaim_calls = 0, inactive_threads = 8, pending_reclaim_list = null\<rparr>], outer = [],
     csl_items = [272 \<mapsto> csl_example_node 288, 288 \<mapsto> csl_example_node null, 280 \<mapsto> csl_example_node null, 304 \<mapsto> csl_example_node null],
     csl_lists = [512 \<mapsto> csl_example_struct],
     words = [1024 \<mapsto> 5, 1032 \<mapsto> 0, 1040 \<mapsto> 0, 2048 \<mapsto> 0, 2056 \<mapsto> 0, 2064 \<mapsto> 0], user = []\<rparr>"

definition csl_example_others :: "unit others" where
  "csl_example_others = \<lparr>other_lists = [], other_objects = {}, other_memory = ()\<rparr>"

definition csl_example_refs :: "ptr \<Rightarrow> nat" where
  "csl_example_refs x = (if x = 280 \<or> x = 304 then 1 else 0)"

abbreviation csl_example_memory :: "ptr set" where
  "csl_example_memory \<equiv> {272, 280, 288, 304, 512}"

lemma csl_example_hp: "hp_ok list_externals list_contents csl_example 32 Map.empty {#} csl_example_memory"
proof -
  define V :: "ptr \<Rightarrow> thread_view" where "V = (\<lambda>t. \<lparr>used = [], unused = [], retired = []\<rparr>)"
  define W where "W = (\<lambda>x :: ptr. if x = 16 then Hps_Struct else if x = 32 then Part_Of 32 else Client)"
  have "hps_at list_contents csl_example 16 [32] [] V W [] csl_example_memory"
    unfolding hps_at_def thread_at_def
    by (simp add: csl_example_def V_def W_def list_contents_def insert_commute)
  then show ?thesis
    by (rule hp_okI [OF list_externals_ok])
      (simp_all add: is_active_def csl_example_def V_def held_def all_retired_def fun_eq_iff)
qed

lemma csl_example_ok:
  "csl_ok csl_example_others csl_example_callbacks 512 csl_example_struct [272, 288] csl_example_refs {#} csl_example_memory csl_example"
proof (rule csl_okI)
  show "list_at csl_example 512 csl_example_struct [272, 288]"
    by (simp add: list_at_def csl_example_def csl_example_struct_def csl_example_node_def aligned_def)
  show "sorted_wrt (\<lambda>x y. ord csl_example_callbacks csl_example_struct (user csl_example) x y < 0) [272, 288]"
    by (simp add: cmp_def key_of_def csl_example_callbacks_def)
  show "others_ok csl_example_callbacks csl_example_others 512 [272, 288] csl_example_memory csl_example"
    by (simp add: others_ok_def listed_def csl_example_others_def)
  show "x \<noteq> null \<and> aligned x \<and> x \<in> csl_example_memory \<and> 0 < refs csl_example x" if "x \<in> dom (csl_items csl_example)" for x
    using that by (auto simp: csl_example_def csl_example_node_def refs_def aligned_def split: if_splits)
  show "of_bool (x \<in> set [272, 288]) + listed csl_example_others x + count {#} (reclaim_list_node_function csl_example_callbacks, x) + csl_example_refs x
      \<le> refs csl_example x" for x
    by (simp add: listed_def csl_example_others_def csl_example_refs_def csl_example_def csl_example_node_def refs_def)
qed (simp_all add: csl_example_def)


lemma csl_example_card: "card (live csl_example) = 7"
  by (simp add: csl_example_def)

lemma csl_example_seq: "seq_ok csl_example_struct 1032 (words csl_example)" "seq_ok csl_example_struct null (words csl_example)"
  by (simp_all add: seq_ok_def csl_example_def csl_example_struct_def)

lemma csl_example_few_refs: "Suc (refs csl_example x) < 2 ^ 32"
  by (simp add: refs_def csl_example_def csl_example_node_def)

lemmas csl_example = csl_example_hp csl_example_callbacks_ok csl_example_ok

section \<open>Properties\<close>

text \<open>
  C11: insertion puts the item at its place when its key is new, and then takes over one of the
  caller's references; with a key that is there already, or without memory for a hazard pointer, the
  list is as before. Every attempt draws a sequence number, which the caller gets, and a failed
  one reports it as skipped.
\<close>

theorem sorted_list_insert:
  fixes s :: "('q, 'u, 'a) csl_mem_scheme"
  assumes "hp_ok X C s t A R M" and "callbacks_ok K" and "csl_ok Os K l L xs U R M s" and "locked_for_write L = 0"
    and "seq_ok L seq (words s)" and "csl_items s item \<noteq> None" and "item \<notin> set xs" and "0 < U item" and "listed Os item = 0"
    and "card (live s) + length xs + 1 < b"
  shows "wp (clds_sorted_list_insert K b l t item seq)
    (\<lambda>r s'. hp_ok X C s' t A R M \<and> words s' = given_out seq (next_number L (words s)) (counted_on L (words s)) \<and>
      (if r = CLDS_SORTED_LIST_INSERT_OK
       then (\<forall>x \<in> set xs. ord K L (user s) item x \<noteq> 0) \<and> user s' = user s \<and>
         csl_ok Os K l L (insert_sorted K L (user s) item xs) (U(item := U item - 1)) R M s'
       else csl_ok Os K l L xs U R M s' \<and> user s' = skipped_user K L (next_number L (words s)) (user s) \<and>
         (if r = CLDS_SORTED_LIST_INSERT_KEY_ALREADY_EXISTS then \<exists>x \<in> set xs. ord K L (user s) item x = 0
          else \<not> plenty (Suc (length xs)) s))) s"
  by (rule wp_mono [OF wp_insert [OF assms]]) (auto split: if_splits)

theorem sorted_list_insert_witness:
  "wp (clds_sorted_list_insert csl_example_callbacks 11 512 32 304 1032)
    (\<lambda>r s'. hp_ok list_externals list_contents s' 32 Map.empty {#} csl_example_memory \<and>
      words s' = given_out 1032 (next_number csl_example_struct (words csl_example)) (counted_on csl_example_struct (words csl_example)) \<and>
      (if r = CLDS_SORTED_LIST_INSERT_OK
       then (\<forall>x \<in> set [272, 288]. ord csl_example_callbacks csl_example_struct (user csl_example) 304 x \<noteq> 0) \<and> user s' = user csl_example \<and>
         csl_ok csl_example_others csl_example_callbacks 512 csl_example_struct
           (insert_sorted csl_example_callbacks csl_example_struct (user csl_example) 304 [272, 288])
           (csl_example_refs(304 := csl_example_refs 304 - 1)) {#} csl_example_memory s'
       else csl_ok csl_example_others csl_example_callbacks 512 csl_example_struct [272, 288] csl_example_refs {#} csl_example_memory s' \<and>
         user s' = skipped_user csl_example_callbacks csl_example_struct (next_number csl_example_struct (words csl_example)) (user csl_example) \<and>
         (if r = CLDS_SORTED_LIST_INSERT_KEY_ALREADY_EXISTS then \<exists>x \<in> set [272, 288]. ord csl_example_callbacks csl_example_struct (user csl_example) 304 x = 0
          else \<not> plenty (Suc (length [272, 288 :: ptr])) csl_example))) csl_example
   \<and> (case run (clds_sorted_list_insert csl_example_callbacks 11 512 32 304 1032) csl_example of
        Value r s' \<Rightarrow> r = CLDS_SORTED_LIST_INSERT_OK \<and> map_option item_next (csl_items s' 288) = Some 304 \<and> words s' 1032 = Some 6 | _ \<Rightarrow> False)"
proof
  show "case run (clds_sorted_list_insert csl_example_callbacks 11 512 32 304 1032) csl_example of
        Value r s' \<Rightarrow> r = CLDS_SORTED_LIST_INSERT_OK \<and> map_option item_next (csl_items s' 288) = Some 304 \<and> words s' 1032 = Some 6 | _ \<Rightarrow> False"
    by code_simp
qed (rule sorted_list_insert [OF csl_example _ csl_example_seq(1)],
  simp_all add: csl_example_card csl_example_refs_def csl_example_others_def listed_def, simp_all add: csl_example_def csl_example_struct_def)

text \<open>
  C16: a look-up returns the item with the key, with a reference for the caller, or NULL when there is
  none; NULL for a key that is there means that there was no memory for a hazard pointer. The list
  does not change.
\<close>

theorem sorted_list_find_key:
  fixes s :: "('q, 'u, 'a) csl_mem_scheme"
  assumes "hp_ok X C s t A R M" and "csl_ok Os K l L xs U R M s" and "key \<noteq> null"
    and "card (live s) + length xs + 1 < b" and "\<And>x. x \<in> set xs \<Longrightarrow> Suc (refs s x) < 2 ^ 32"
  shows "wp (clds_sorted_list_find_key K b l t key) (\<lambda>r s'. hp_ok X C s' t A R M \<and> words s' = words s \<and> user s' = user s \<and>
      (case find (\<lambda>x. cmp K L (user s) key (key_of K L (user s) x) = 0) xs of
         None \<Rightarrow> r = null \<and> csl_ok Os K l L xs U R M s'
       | Some x \<Rightarrow> r = x \<and> csl_ok Os K l L xs (U(x := Suc (U x))) R M s' \<or>
                  r = null \<and> \<not> plenty (Suc (length xs)) s \<and> csl_ok Os K l L xs U R M s')) s"
  by (rule wp_mono [OF wp_find_key [OF assms]]) (assumption, auto split: option.splits)

theorem sorted_list_find_key_witness:
  "wp (clds_sorted_list_find_key csl_example_callbacks 11 512 32 288) (\<lambda>r s'. hp_ok list_externals list_contents s' 32 Map.empty {#} csl_example_memory \<and>
      words s' = words csl_example \<and> user s' = user csl_example \<and>
      (case find (\<lambda>x. cmp csl_example_callbacks csl_example_struct (user csl_example) 288
              (key_of csl_example_callbacks csl_example_struct (user csl_example) x) = 0) [272, 288] of
         None \<Rightarrow> r = null \<and> csl_ok csl_example_others csl_example_callbacks 512 csl_example_struct [272, 288] csl_example_refs {#} csl_example_memory s'
       | Some x \<Rightarrow> r = x \<and> csl_ok csl_example_others csl_example_callbacks 512 csl_example_struct [272, 288]
             (csl_example_refs(x := Suc (csl_example_refs x))) {#} csl_example_memory s' \<or>
           r = null \<and> \<not> plenty (Suc (length [272, 288 :: ptr])) csl_example \<and>
           csl_ok csl_example_others csl_example_callbacks 512 csl_example_struct [272, 288] csl_example_refs {#} csl_example_memory s')) csl_example
   \<and> (case run (clds_sorted_list_find_key csl_example_callbacks 11 512 32 288) csl_example of
        Value r s' \<Rightarrow> r = 288 \<and> map_option ref_count (csl_items s' 288) = Some 2 | _ \<Rightarrow> False)"
proof
  show "case run (clds_sorted_list_find_key csl_example_callbacks 11 512 32 288) csl_example of
        Value r s' \<Rightarrow> r = 288 \<and> map_option ref_count (csl_items s' 288) = Some 2 | _ \<Rightarrow> False"
    by code_simp
qed (rule sorted_list_find_key [OF csl_example_hp csl_example_ok _ _ csl_example_few_refs], simp_all add: csl_example_card)


text \<open>
  C13: deletion by key takes the item with the key, and only it, out of the list, retires it, and draws
  a sequence number; when there is none, or no memory for a hazard pointer, nothing changes. What the
  reclaim calls did meanwhile are clean-ups. Retiring means that the reference the list had to the
  item is not lost: while there is memory for the entry of the reclaim list, a reclaim call of the
  item is owed or has been carried out and has given that reference up, and no other reference of any
  item has been given up except by its reclaim call (\<open>settled\<close>).
\<close>

theorem sorted_list_delete_key:
  fixes s :: "('q, 'u, 'a) csl_mem_scheme"
  assumes "hp_ok X C s t A R M" and "callbacks_ok K" and "csl_ok Os K l L xs U R M s" and "locked_for_write L = 0"
    and "seq_ok L seq (words s)" and "2 * (card (live s) + length xs + 1) + 4 < b" and "key \<noteq> null"
  shows "wp (clds_sorted_list_delete_key X K b l t key seq)
    (\<lambda>r s'. (\<exists>x R' M'. find (\<lambda>x. cmp K L (user s) (key_of K L (user s) x) key = 0) xs = Some x \<and> r = CLDS_SORTED_LIST_DELETE_OK \<and>
        R' \<subseteq># add_mset (reclaim_list_node_function K, x) R \<and> M' \<subseteq> M \<and> hp_ok X C s' t A R' M' \<and> csl_ok Os K l L (remove1 x xs) U R' M' s' \<and>
        words s' = given_out seq (next_number L (words s)) (counted_on L (words s)) \<and> cleanups K (user s) (user s') \<and>
        (plenty (Suc (Suc (length xs))) s \<longrightarrow> settled K U (add_mset (reclaim_list_node_function K, x) R) s U R' s')) \<or>
      hp_ok X C s' t A R M \<and> csl_ok Os K l L xs U R M s' \<and> words s' = words s \<and> user s' = user s \<and>
      (r = CLDS_SORTED_LIST_DELETE_NOT_FOUND \<and> find (\<lambda>x. cmp K L (user s) (key_of K L (user s) x) key = 0) xs = None \<or>
       r = CLDS_SORTED_LIST_DELETE_ERROR \<and> \<not> plenty (Suc (length xs)) s)) s"
  by (rule wp_mono [OF wp_delete_key [OF assms]]) (erule disj_forward, assumption, simp add: walked_def)

theorem sorted_list_delete_key_witness:
  "plenty (Suc (Suc (length [272, 288 :: ptr]))) csl_example \<and>
   wp (clds_sorted_list_delete_key list_externals csl_example_callbacks 25 512 32 272 null)
    (\<lambda>r s'. (\<exists>x R' M'. find (\<lambda>x. cmp csl_example_callbacks csl_example_struct (user csl_example) (key_of csl_example_callbacks csl_example_struct (user csl_example) x) 272 = 0) [272, 288] = Some x \<and> r = CLDS_SORTED_LIST_DELETE_OK \<and>
        R' \<subseteq># add_mset (reclaim_list_node_function csl_example_callbacks, x) {#} \<and> M' \<subseteq> csl_example_memory \<and> hp_ok list_externals list_contents s' 32 Map.empty R' M' \<and> csl_ok csl_example_others csl_example_callbacks 512 csl_example_struct (remove1 x [272, 288]) csl_example_refs R' M' s' \<and>
        words s' = given_out null (next_number csl_example_struct (words csl_example)) (counted_on csl_example_struct (words csl_example)) \<and> cleanups csl_example_callbacks (user csl_example) (user s') \<and>
        (plenty (Suc (Suc (length [272, 288 :: ptr]))) csl_example \<longrightarrow>
          settled csl_example_callbacks csl_example_refs (add_mset (reclaim_list_node_function csl_example_callbacks, x) {#}) csl_example csl_example_refs R' s')) \<or>
      hp_ok list_externals list_contents s' 32 Map.empty {#} csl_example_memory \<and> csl_ok csl_example_others csl_example_callbacks 512 csl_example_struct [272, 288] csl_example_refs {#} csl_example_memory s' \<and> words s' = words csl_example \<and> user s' = user csl_example \<and>
      (r = CLDS_SORTED_LIST_DELETE_NOT_FOUND \<and> find (\<lambda>x. cmp csl_example_callbacks csl_example_struct (user csl_example) (key_of csl_example_callbacks csl_example_struct (user csl_example) x) 272 = 0) [272, 288] = None \<or>
       r = CLDS_SORTED_LIST_DELETE_ERROR \<and> \<not> plenty (Suc (length [272, 288 :: ptr])) csl_example)) csl_example
   \<and> (case run (clds_sorted_list_delete_key list_externals csl_example_callbacks 25 512 32 272 null) csl_example of
        Value r s' \<Rightarrow> r = CLDS_SORTED_LIST_DELETE_OK \<and> map_option list_head (csl_lists s' 512) = Some 288 \<and> map_option item_next (csl_items s' 272) = Some (mark 288) | _ \<Rightarrow> False)"
proof (intro conjI)
  show "plenty (Suc (Suc (length [272, 288 :: ptr]))) csl_example"
    by (simp add: plenty_def) (simp add: csl_example_def aligned_def)
  show "case run (clds_sorted_list_delete_key list_externals csl_example_callbacks 25 512 32 272 null) csl_example of
        Value r s' \<Rightarrow> r = CLDS_SORTED_LIST_DELETE_OK \<and> map_option list_head (csl_lists s' 512) = Some 288 \<and> map_option item_next (csl_items s' 272) = Some (mark 288) | _ \<Rightarrow> False"
    by code_simp
qed (rule sorted_list_delete_key [OF csl_example _ csl_example_seq(2)],
  simp_all add: csl_example_card, simp_all add: csl_example_def csl_example_struct_def)

text \<open>
  C15: deletion of an item looks for the item itself, not for its key: an item that is not in the list is
  not found even when the list holds another one with its key. The deleted item is retired as in C13.
\<close>

theorem sorted_list_delete_item:
  fixes s :: "('q, 'u, 'a) csl_mem_scheme"
  assumes "hp_ok X C s t A R M" and "callbacks_ok K" and "csl_ok Os K l L xs U R M s" and "locked_for_write L = 0"
    and "seq_ok L seq (words s)" and "2 * (card (live s) + length xs + 1) + 4 < b" and "item \<noteq> null"
  shows "wp (clds_sorted_list_delete_item X K b l t item seq)
    (\<lambda>r s'. (\<exists>R' M'. item \<in> set xs \<and> r = CLDS_SORTED_LIST_DELETE_OK \<and>
        R' \<subseteq># add_mset (reclaim_list_node_function K, item) R \<and> M' \<subseteq> M \<and> hp_ok X C s' t A R' M' \<and> csl_ok Os K l L (remove1 item xs) U R' M' s' \<and>
        words s' = given_out seq (next_number L (words s)) (counted_on L (words s)) \<and> cleanups K (user s) (user s') \<and>
        (plenty (Suc (Suc (length xs))) s \<longrightarrow> settled K U (add_mset (reclaim_list_node_function K, item) R) s U R' s')) \<or>
      hp_ok X C s' t A R M \<and> csl_ok Os K l L xs U R M s' \<and> words s' = words s \<and> user s' = user s \<and>
      (r = CLDS_SORTED_LIST_DELETE_NOT_FOUND \<and> item \<notin> set xs \<or> r = CLDS_SORTED_LIST_DELETE_ERROR \<and> \<not> plenty (Suc (length xs)) s)) s"
  by (rule wp_mono [OF wp_delete_item [OF assms]]) (erule disj_forward, assumption, simp add: walked_def)

theorem sorted_list_delete_item_witness:
  "wp (clds_sorted_list_delete_item list_externals csl_example_callbacks 25 512 32 280 1032)
    (\<lambda>r s'. (\<exists>R' M'. (280 :: ptr) \<in> set [272, 288] \<and> r = CLDS_SORTED_LIST_DELETE_OK \<and>
        R' \<subseteq># add_mset (reclaim_list_node_function csl_example_callbacks, 280) {#} \<and> M' \<subseteq> csl_example_memory \<and> hp_ok list_externals list_contents s' 32 Map.empty R' M' \<and> csl_ok csl_example_others csl_example_callbacks 512 csl_example_struct (remove1 280 [272, 288]) csl_example_refs R' M' s' \<and>
        words s' = given_out 1032 (next_number csl_example_struct (words csl_example)) (counted_on csl_example_struct (words csl_example)) \<and> cleanups csl_example_callbacks (user csl_example) (user s') \<and>
        (plenty (Suc (Suc (length [272, 288 :: ptr]))) csl_example \<longrightarrow>
          settled csl_example_callbacks csl_example_refs (add_mset (reclaim_list_node_function csl_example_callbacks, 280) {#}) csl_example csl_example_refs R' s')) \<or>
      hp_ok list_externals list_contents s' 32 Map.empty {#} csl_example_memory \<and> csl_ok csl_example_others csl_example_callbacks 512 csl_example_struct [272, 288] csl_example_refs {#} csl_example_memory s' \<and> words s' = words csl_example \<and> user s' = user csl_example \<and>
      (r = CLDS_SORTED_LIST_DELETE_NOT_FOUND \<and> (280 :: ptr) \<notin> set [272, 288] \<or> r = CLDS_SORTED_LIST_DELETE_ERROR \<and> \<not> plenty (Suc (length [272, 288 :: ptr])) csl_example)) csl_example
   \<and> (case run (clds_sorted_list_delete_item list_externals csl_example_callbacks 25 512 32 280 1032) csl_example of
        Value r s' \<Rightarrow> r = CLDS_SORTED_LIST_DELETE_NOT_FOUND \<and> words s' 1024 = Some 5 | _ \<Rightarrow> False)"
proof
  show "case run (clds_sorted_list_delete_item list_externals csl_example_callbacks 25 512 32 280 1032) csl_example of
        Value r s' \<Rightarrow> r = CLDS_SORTED_LIST_DELETE_NOT_FOUND \<and> words s' 1024 = Some 5 | _ \<Rightarrow> False"
    by code_simp
qed (rule sorted_list_delete_item [OF csl_example _ csl_example_seq(1)],
  simp_all add: csl_example_card, simp_all add: csl_example_def csl_example_struct_def)

text \<open>
  C14: removal by key hands the item to the caller, with a reference of its own, as it takes it out of the
  list: the reclaim that follows, which settles the reference of the list as in C13, cannot free it.
\<close>

theorem sorted_list_remove_key:
  fixes s :: "('q, 'u, 'a) csl_mem_scheme"
  assumes "hp_ok X C s t A R M" and "callbacks_ok K" and "csl_ok Os K l L xs U R M s" and "locked_for_write L = 0"
    and "seq_ok L seq (words s)" and "2 * (card (live s) + length xs + 1) + 4 < b" and "key \<noteq> null"
    and "words s item \<noteq> None" and "\<And>x. x \<in> set xs \<Longrightarrow> Suc (refs s x) < 2 ^ 32"
  shows "wp (clds_sorted_list_remove_key X K b l t key item seq)
    (\<lambda>r s'. (\<exists>x R' M'. find (\<lambda>x. cmp K L (user s) (key_of K L (user s) x) key = 0) xs = Some x \<and> r = CLDS_SORTED_LIST_REMOVE_OK \<and>
        R' \<subseteq># add_mset (reclaim_list_node_function K, x) R \<and> M' \<subseteq> M \<and> hp_ok X C s' t A R' M' \<and>
        csl_ok Os K l L (remove1 x xs) (U(x := Suc (U x))) R' M' s' \<and>
        words s' = given_out seq (next_number L (words s)) ((counted_on L (words s))(item \<mapsto> x)) \<and> cleanups K (user s) (user s') \<and>
        (plenty (Suc (Suc (length xs))) s \<longrightarrow> settled K U (add_mset (reclaim_list_node_function K, x) R) s (U(x := Suc (U x))) R' s')) \<or>
      hp_ok X C s' t A R M \<and> csl_ok Os K l L xs U R M s' \<and> words s' = words s \<and> user s' = user s \<and>
      (r = CLDS_SORTED_LIST_REMOVE_NOT_FOUND \<and> find (\<lambda>x. cmp K L (user s) (key_of K L (user s) x) key = 0) xs = None \<or>
       r = CLDS_SORTED_LIST_REMOVE_ERROR \<and> \<not> plenty (Suc (length xs)) s)) s"
  by (rule wp_mono [OF wp_remove_key [OF assms]]) (assumption, erule disj_forward, assumption, simp add: walked_def)

theorem sorted_list_remove_key_witness:
  "wp (clds_sorted_list_remove_key list_externals csl_example_callbacks 25 512 32 288 1040 1032)
    (\<lambda>r s'. (\<exists>x R' M'. find (\<lambda>x. cmp csl_example_callbacks csl_example_struct (user csl_example) (key_of csl_example_callbacks csl_example_struct (user csl_example) x) 288 = 0) [272, 288] = Some x \<and> r = CLDS_SORTED_LIST_REMOVE_OK \<and>
        R' \<subseteq># add_mset (reclaim_list_node_function csl_example_callbacks, x) {#} \<and> M' \<subseteq> csl_example_memory \<and> hp_ok list_externals list_contents s' 32 Map.empty R' M' \<and>
        csl_ok csl_example_others csl_example_callbacks 512 csl_example_struct (remove1 x [272, 288]) (csl_example_refs(x := Suc (csl_example_refs x))) R' M' s' \<and>
        words s' = given_out 1032 (next_number csl_example_struct (words csl_example)) ((counted_on csl_example_struct (words csl_example))(1040 \<mapsto> x)) \<and> cleanups csl_example_callbacks (user csl_example) (user s') \<and>
        (plenty (Suc (Suc (length [272, 288 :: ptr]))) csl_example \<longrightarrow>
          settled csl_example_callbacks csl_example_refs (add_mset (reclaim_list_node_function csl_example_callbacks, x) {#}) csl_example
            (csl_example_refs(x := Suc (csl_example_refs x))) R' s')) \<or>
      hp_ok list_externals list_contents s' 32 Map.empty {#} csl_example_memory \<and> csl_ok csl_example_others csl_example_callbacks 512 csl_example_struct [272, 288] csl_example_refs {#} csl_example_memory s' \<and> words s' = words csl_example \<and> user s' = user csl_example \<and>
      (r = CLDS_SORTED_LIST_REMOVE_NOT_FOUND \<and> find (\<lambda>x. cmp csl_example_callbacks csl_example_struct (user csl_example) (key_of csl_example_callbacks csl_example_struct (user csl_example) x) 288 = 0) [272, 288] = None \<or>
       r = CLDS_SORTED_LIST_REMOVE_ERROR \<and> \<not> plenty (Suc (length [272, 288 :: ptr])) csl_example)) csl_example
   \<and> (case run (clds_sorted_list_remove_key list_externals csl_example_callbacks 25 512 32 288 1040 1032) csl_example of
        Value r s' \<Rightarrow> r = CLDS_SORTED_LIST_REMOVE_OK \<and> words s' 1040 = Some 288 \<and> map_option ref_count (csl_items s' 288) = Some 2 | _ \<Rightarrow> False)"
proof
  show "case run (clds_sorted_list_remove_key list_externals csl_example_callbacks 25 512 32 288 1040 1032) csl_example of
        Value r s' \<Rightarrow> r = CLDS_SORTED_LIST_REMOVE_OK \<and> words s' 1040 = Some 288 \<and> map_option ref_count (csl_items s' 288) = Some 2 | _ \<Rightarrow> False"
    by code_simp
qed (rule sorted_list_remove_key [OF csl_example _ csl_example_seq(1) _ _ _ csl_example_few_refs],
  simp_all add: csl_example_card, simp_all add: csl_example_def csl_example_struct_def)


text \<open>
  C12: setting a value. With no item of the key in the list, the new item is inserted and no old one given
  back, unless the caller asked for an existing one only. With one, the caller's condition is asked:
  if it holds the new item takes the place of the old one, which goes to the caller with a
  reference and is retired as in C13, and otherwise nothing changes. Every attempt draws a sequence number,
  and a failed one reports it as skipped.
\<close>

theorem sorted_list_set_value:
  fixes s :: "('q, 'u, 'a) csl_mem_scheme"
  assumes "hp_ok X C s t A R M" and "callbacks_ok K" and "csl_ok Os K l L xs U R M s" and "locked_for_write L = 0"
    and "seq_ok L seq (words s)" and "csl_items s y \<noteq> None" and "y \<notin> set xs \<Longrightarrow> 0 < U y" and "listed Os y = 0"
    and "2 * (card (live s) + length xs + 1) + 4 < b" and "words s old_item \<noteq> None" and "old_item \<noteq> null" and "key \<noteq> null"
    and "\<And>x. x \<in> set xs \<Longrightarrow> Suc (refs s x) < 2 ^ 32"
  shows "wp (clds_sorted_list_set_value X K b l t key y f c old_item seq only_if_exists)
    (\<lambda>r s'. \<exists>s1. set_value_post X C Os K l t A R M L xs U y f c old_item only_if_exists s
        (card (live s) + length xs + 2)
        (given_out seq (next_number L (words s)) (counted_on L (words s))) (user s) r L s1 \<and>
      s' = (if r = CLDS_SORTED_LIST_SET_VALUE_OK then s1 else s1\<lparr>user := skipped_user K L (next_number L (words s)) (user s1)\<rparr>)) s"
  by (rule wp_set_value [OF assms])

theorem sorted_list_set_value_witness:
  "wp (clds_sorted_list_set_value list_externals csl_example_callbacks 25 512 32 272 280 1 0 1040 1032 False)
    (\<lambda>r s'. \<exists>s1. set_value_post list_externals list_contents csl_example_others csl_example_callbacks 512 32 Map.empty {#} csl_example_memory csl_example_struct [272, 288] csl_example_refs 280 1 0 1040 False csl_example
        (card (live csl_example) + length [272, 288 :: ptr] + 2)
        (given_out 1032 (next_number csl_example_struct (words csl_example)) (counted_on csl_example_struct (words csl_example))) (user csl_example) r csl_example_struct s1 \<and>
      s' = (if r = CLDS_SORTED_LIST_SET_VALUE_OK then s1 else s1\<lparr>user := skipped_user csl_example_callbacks csl_example_struct (next_number csl_example_struct (words csl_example)) (user s1)\<rparr>)) csl_example
   \<and> (case run (clds_sorted_list_set_value list_externals csl_example_callbacks 25 512 32 272 280 1 0 1040 1032 False) csl_example of
        Value r s' \<Rightarrow> r = CLDS_SORTED_LIST_SET_VALUE_OK \<and> map_option list_head (csl_lists s' 512) = Some 280 \<and> words s' 1040 = Some 272 \<and>
          map_option item_next (csl_items s' 280) = Some 288 | _ \<Rightarrow> False)"
proof
  show "case run (clds_sorted_list_set_value list_externals csl_example_callbacks 25 512 32 272 280 1 0 1040 1032 False) csl_example of
        Value r s' \<Rightarrow> r = CLDS_SORTED_LIST_SET_VALUE_OK \<and> map_option list_head (csl_lists s' 512) = Some 280 \<and> words s' 1040 = Some 272 \<and>
          map_option item_next (csl_items s' 280) = Some 288 | _ \<Rightarrow> False"
    by code_simp
qed (rule sorted_list_set_value [OF csl_example _ csl_example_seq(1) _ _ _ _ _ _ _ csl_example_few_refs],
  simp_all add: csl_example_card csl_example_refs_def csl_example_others_def listed_def, simp_all add: csl_example_def csl_example_struct_def)





text \<open>
  C20: with the list locked, the count is the number of items, which a 64 bit counter holds; without
  the lock nothing is counted.
\<close>

theorem sorted_list_get_count:
  assumes "csl_ok Os K l L xs U R M s" and "t \<noteq> null" and "item_count \<noteq> null" and "words s item_count \<noteq> None" and "length xs < b"
  shows "length xs < 2 ^ 64 \<and> wp (clds_sorted_list_get_count b l t item_count) (\<lambda>r s'.
    if locked_for_write L = 0 then r = CLDS_SORTED_LIST_GET_COUNT_NOT_LOCKED \<and> s' = s
    else r = CLDS_SORTED_LIST_GET_COUNT_OK \<and>
      (\<exists>n. unat n = length xs \<and> s' = s\<lparr>words := (words s)(item_count \<mapsto> n)\<rparr>)) s"
  unfolding wp_get_count [OF assms]
  using csl_ok_length [OF assms(1)] by (auto simp: unat_of_nat take_bit_nat_eq_self_iff intro!: exI [of _ "of_nat (length xs)"])

theorem sorted_list_get_count_witness:
  "wp (clds_sorted_list_get_count 3 512 32 1040) (\<lambda>r s'. r = CLDS_SORTED_LIST_GET_COUNT_NOT_LOCKED \<and> s' = csl_example) csl_example"
  by (rule wp_mono [OF conjunct2 [OF sorted_list_get_count [OF csl_example_ok]]])
    (simp_all, simp_all add: csl_example_def csl_example_struct_def)

text \<open>
  C19: copying the items out gives them in order with one reference each for the caller; when the
  caller's array is too small, it is filled with null and every reference is given back; a list that
  has to be locked and is not is refused before anything is touched.
\<close>

theorem sorted_list_get_all:
  fixes s :: "('q, 'u, 'a) csl_mem_scheme"
  assumes "hp_ok X C s t A R M" and "csl_ok Os K l L xs U R M s" and "length xs < b"
    and "\<And>x. x \<in> set xs \<Longrightarrow> Suc (refs s x) < 2 ^ 32" and "unat item_count < 2 ^ 61" and "0 < unat item_count"
    and "items \<noteq> null" and "retrieved_item_count \<noteq> null" and "words s retrieved_item_count \<noteq> None"
    and "\<And>j. j < item_count \<Longrightarrow> words s (item_slot items j) \<noteq> None"
  shows "wp (clds_sorted_list_get_all K b l t item_count items retrieved_item_count require_locked_list) (\<lambda>r s'.
    if require_locked_list \<and> locked_for_write L = 0 then r = CLDS_SORTED_LIST_GET_ALL_NOT_LOCKED \<and> s' = s
    else hp_ok X C s' t A R M \<and> user s' = user s \<and> live s' = live s \<and>
      (if length xs \<le> unat item_count
       then r = CLDS_SORTED_LIST_GET_ALL_OK \<and> csl_ok Os K l L xs (\<lambda>x. U x + of_bool (x \<in> set xs)) R M s' \<and>
         words s' = ((words s)(slots items 0 (length xs) [\<mapsto>] xs))(retrieved_item_count \<mapsto> of_nat (length xs))
       else r = CLDS_SORTED_LIST_GET_ALL_NOT_ENOUGH_SPACE \<and> csl_ok Os K l L xs U R M s' \<and>
         words s' = (words s)(slots items 0 (unat item_count) [\<mapsto>] replicate (unat item_count) null))) s"
  by (rule wp_mono [OF wp_get_all [OF assms]]) (assumption | simp split: if_splits)+

lemma below_three: "j < 3 \<Longrightarrow> j = 0 \<or> j = 1 \<or> j = (2 :: 64 word)"
proof -
  assume "j < 3"
  then have "unat j < 3" by (simp add: word_less_nat_alt)
  then have "unat j = unat (0 :: 64 word) \<or> unat j = unat (1 :: 64 word) \<or> unat j = unat (2 :: 64 word)" by auto
  then show ?thesis by (simp only: word_unat_eq_iff)
qed

lemma csl_example_cells: "words csl_example (item_slot 2048 j) \<noteq> None" if "j < 3" for j
  using below_three [OF that] by (auto simp: item_slot_def csl_example_def)

theorem sorted_list_get_all_witness:
  "wp (clds_sorted_list_get_all csl_example_callbacks 3 512 32 3 2048 1040 False) (\<lambda>r s'.
    r = CLDS_SORTED_LIST_GET_ALL_OK \<and> words s' 1040 = Some 2 \<and> words s' 2048 = Some 272 \<and> words s' 2056 = Some 288 \<and>
    csl_ok csl_example_others csl_example_callbacks 512 csl_example_struct [272, 288] (\<lambda>x. csl_example_refs x + of_bool (x \<in> {272, 288}))
      {#} csl_example_memory s') csl_example"
  by (rule wp_mono [OF sorted_list_get_all [OF csl_example_hp csl_example_ok _ csl_example_few_refs _ _ _ _ _ csl_example_cells]])
    (simp_all add: item_slot_def, simp_all add: csl_example_def)

text \<open>
  C18: a snapshot under the write lock: once the lock is held the copy is the list of that moment,
  and unlocking restores the lock word, whatever it was.
\<close>

theorem sorted_list_locked_copy:
  fixes s :: "('q, 'u, 'a) csl_mem_scheme"
  assumes "hp_ok X C s t A R M" and "csl_ok Os K l L xs U R M s" and "length xs < b"
    and "\<And>x. x \<in> set xs \<Longrightarrow> Suc (refs s x) < 2 ^ 32" and "unat item_count < 2 ^ 61" and "0 < unat item_count"
    and "items \<noteq> null" and "retrieved_item_count \<noteq> null" and "words s retrieved_item_count \<noteq> None"
    and "\<And>j. j < item_count \<Longrightarrow> words s (item_slot items j) \<noteq> None"
    and "pending_write_operations L = 0" and "locked_for_write L \<noteq> - 1" and "length xs \<le> unat item_count"
  shows "wp (call (clds_sorted_list_lock_writes b l) (\<lambda>_.
      call (clds_sorted_list_get_all K b l t item_count items retrieved_item_count True) (\<lambda>r.
      call (clds_sorted_list_unlock_writes l) (\<lambda>_. Done r)))) (\<lambda>r s'.
    r = CLDS_SORTED_LIST_GET_ALL_OK \<and> hp_ok X C s' t A R M \<and> csl_ok Os K l L xs (\<lambda>x. U x + of_bool (x \<in> set xs)) R M s' \<and>
    words s' = ((words s)(slots items 0 (length xs) [\<mapsto>] xs))(retrieved_item_count \<mapsto> of_nat (length xs))) s"
proof -
  let ?L = "L\<lparr>locked_for_write := locked_for_write L + 1\<rparr>"
  let ?s = "s\<lparr>csl_lists := (csl_lists s)(l \<mapsto> L\<lparr>list_head := first_of xs, locked_for_write := locked_for_write L + 1\<rparr>)\<rparr>"
  have bound: "0 < b" using assms(3) by simp
  have locked: "locked_for_write ?L \<noteq> 0" using assms(12) by (simp add: eq_neg_iff_add_eq_0)
  have ok: "csl_ok Os K l ?L xs U R M ?s" and hp: "hp_ok X C ?s t A R M"
    using csl_ok_locked [OF assms(2)] hp_ok_client [OF _ _ assms(1), of ?s] by (simp_all add: same_hp_def)
  have refs: "Suc (refs ?s x) < 2 ^ 32" if "x \<in> set xs" for x using assms(4) [OF that] by (simp add: refs_def)
  have unlocked: "?L\<lparr>locked_for_write := locked_for_write ?L - 1\<rparr> = L" by (cases L) simp
  have "wp (clds_sorted_list_get_all K b l t item_count items retrieved_item_count True) (\<lambda>r s1.
      r = CLDS_SORTED_LIST_GET_ALL_OK \<and> hp_ok X C s1 t A R M \<and> csl_ok Os K l ?L xs (\<lambda>x. U x + of_bool (x \<in> set xs)) R M s1 \<and>
      words s1 = ((words s)(slots items 0 (length xs) [\<mapsto>] xs))(retrieved_item_count \<mapsto> of_nat (length xs))) ?s"
    by (rule wp_mono [OF wp_get_all [OF hp ok assms(3) refs assms(5-8)]]) (use locked assms(9,10,13) in simp_all)
  then show ?thesis
    unfolding wp_call wp_lock_writes [OF assms(2,11) bound]
  proof (rule wp_mono, elim conjE)
    fix r and s1 :: "('q, 'u, 'a) csl_mem_scheme"
    assume s1: "r = CLDS_SORTED_LIST_GET_ALL_OK" "hp_ok X C s1 t A R M" "csl_ok Os K l ?L xs (\<lambda>x. U x + of_bool (x \<in> set xs)) R M s1"
      "words s1 = ((words s)(slots items 0 (length xs) [\<mapsto>] xs))(retrieved_item_count \<mapsto> of_nat (length xs))"
    from csl_ok_locked [OF s1(3), of "locked_for_write ?L - 1", unfolded unlocked] s1
    show "wp (clds_sorted_list_unlock_writes l) (\<lambda>_. wp (Done r) (\<lambda>r s'.
        r = CLDS_SORTED_LIST_GET_ALL_OK \<and> hp_ok X C s' t A R M \<and> csl_ok Os K l L xs (\<lambda>x. U x + of_bool (x \<in> set xs)) R M s' \<and>
        words s' = ((words s)(slots items 0 (length xs) [\<mapsto>] xs))(retrieved_item_count \<mapsto> of_nat (length xs)))) s1"
      unfolding wp_unlock_writes [OF s1(3)] by (simp add: wp_Done)
  qed
qed

theorem sorted_list_locked_copy_witness:
  "wp (call (clds_sorted_list_lock_writes 3 512) (\<lambda>_.
      call (clds_sorted_list_get_all csl_example_callbacks 3 512 32 3 2048 1040 True) (\<lambda>r.
      call (clds_sorted_list_unlock_writes 512) (\<lambda>_. Done r)))) (\<lambda>r s'.
    r = CLDS_SORTED_LIST_GET_ALL_OK \<and> words s' 1040 = Some 2 \<and> words s' 2048 = Some 272 \<and> words s' 2056 = Some 288 \<and>
    csl_ok csl_example_others csl_example_callbacks 512 csl_example_struct [272, 288] (\<lambda>x. csl_example_refs x + of_bool (x \<in> {272, 288}))
      {#} csl_example_memory s') csl_example"
  by (rule wp_mono [OF sorted_list_locked_copy [OF csl_example_hp csl_example_ok _ csl_example_few_refs _ _ _ _ _ csl_example_cells]])
    (simp_all add: item_slot_def, simp_all add: csl_example_def csl_example_struct_def)

text \<open>
  Creating a list fails without a trace, on a null argument or without memory, or gives an empty list.
\<close>

theorem sorted_list_create:
  fixes s :: "('q, 'u, 'a) csl_mem_scheme"
  assumes "hp_ok X C s t A R M" and "lists_ok Os K U R M s"
  shows "wp (clds_sorted_list_create h key_cb key_c compare_cb compare_c seq skipped_cb skipped_c) (\<lambda>l s'. words s' = words s \<and> user s' = user s \<and>
    (create_refused h key_cb compare_cb seq skipped_cb \<longrightarrow> l = null \<and> s' = s) \<and>
    (if l = null then hp_ok X C s' t A R M \<and> lists_ok Os K U R M s'
     else l \<notin> live s \<and> hp_ok X C s' t A R (insert l M) \<and>
       csl_ok Os K l \<lparr>locked_for_write = 0, pending_write_operations = 0, list_hazard_pointers = h, list_head = null,
         get_item_key_cb = key_cb, get_item_key_cb_context = key_c, key_compare_cb = compare_cb, key_compare_cb_context = compare_c,
         sequence_number = seq, skipped_seq_no_cb = skipped_cb, skipped_seq_no_cb_context = skipped_c\<rparr> [] U R (insert l M) s')) s"
  by (rule wp_list_create [OF assms])

theorem sorted_list_create_witness:
  "wp (clds_sorted_list_create 16 0 0 1 0 1024 1 0) (\<lambda>l s'. l = null \<and> s' = csl_example) csl_example
   \<and> (case run (clds_sorted_list_create 16 1 0 1 0 1024 1 0) csl_example of Value l s' \<Rightarrow> l = 768 \<and> map_option list_head (csl_lists s' l) = Some null | _ \<Rightarrow> False)"
proof
  show "wp (clds_sorted_list_create 16 0 0 1 0 1024 1 0) (\<lambda>l s'. l = null \<and> s' = csl_example) csl_example"
    by (rule wp_mono [OF sorted_list_create [OF csl_example_hp csl_ok_forget [OF csl_example_ok]]]) (simp add: create_refused_def)
  show "case run (clds_sorted_list_create 16 1 0 1 0 1024 1 0) csl_example of Value l s' \<Rightarrow> l = 768 \<and> map_option list_head (csl_lists s' l) = Some null | _ \<Rightarrow> False"
    by code_simp
qed

text \<open>
  C21: destroying a list frees it and gives up exactly one reference of each of its items; what other
  lists and the caller hold stays.
\<close>

theorem sorted_list_destroy:
  fixes s :: "('q, 'u, 'a) csl_mem_scheme"
  assumes "hp_ok X C s t A R M" and "callbacks_ok K" and "csl_ok Os K l L xs U R M s" and "length xs < b"
  shows "wp (clds_sorted_list_destroy K b l) (\<lambda>_ s'. \<exists>M'. M' \<subseteq> M - {l} \<and> hp_ok X C s' t A R M' \<and> lists_ok Os K U R M' s' \<and>
    words s' = words s \<and> cleanups K (user s) (user s') \<and> csl_lists s' = (csl_lists s)(l := None) \<and> l \<notin> live s' \<and>
    (\<forall>y. refs s' y = refs s y - of_bool (y \<in> set xs))) s"
  by (rule wp_list_destroy [OF assms])

theorem sorted_list_destroy_witness:
  "wp (clds_sorted_list_destroy csl_example_callbacks 3 512) (\<lambda>_ s'. csl_lists s' 512 = None \<and> 512 \<notin> live s' \<and> refs s' 272 = 0 \<and> refs s' 280 = 1) csl_example
   \<and> (case run (clds_sorted_list_destroy csl_example_callbacks 3 512) csl_example of
        Value r s' \<Rightarrow> user s' = [272, 288] \<and> 272 \<notin> live s' \<and> 288 \<notin> live s' \<and> 280 \<in> live s' | _ \<Rightarrow> False)"
proof
  show "wp (clds_sorted_list_destroy csl_example_callbacks 3 512) (\<lambda>_ s'. csl_lists s' 512 = None \<and> 512 \<notin> live s' \<and> refs s' 272 = 0 \<and> refs s' 280 = 1) csl_example"
    by (rule wp_mono [OF sorted_list_destroy [OF csl_example]]) (auto simp: refs_def [of csl_example], simp_all add: csl_example_def csl_example_node_def)
  show "case run (clds_sorted_list_destroy csl_example_callbacks 3 512) csl_example of
        Value r s' \<Rightarrow> user s' = [272, 288] \<and> 272 \<notin> live s' \<and> 288 \<notin> live s' \<and> 280 \<in> live s' | _ \<Rightarrow> False"
    by code_simp
qed

text \<open>
  C22: the life of a node outside lists: it is created with one reference, which the creator holds, and a
  second one taken and given back leaves it; all other lists and references are not affected.
\<close>

theorem sorted_list_node_references:
  fixes s :: "('q, 'u, 'a) csl_mem_scheme"
  assumes hp: "hp_ok X C s t A R M" and cb: "callbacks_ok K" and ok: "lists_ok Os K U R M s"
  shows "wp (call (clds_sorted_list_node_create node_size f c) (\<lambda>x. if x = null then Done null else
      call (clds_sorted_list_node_inc_ref x) (\<lambda>_. call (clds_sorted_list_node_release K x) (\<lambda>_. Done x))))
    (\<lambda>x s'. words s' = words s \<and>
      (if x = null then hp_ok X C s' t A R M \<and> lists_ok Os K U R M s' \<and> user s' = user s
       else x \<notin> live s \<and> refs s' x = 1 \<and> (\<exists>M'. M' \<subseteq> insert x M \<and> hp_ok X C s' t A R M' \<and> lists_ok Os K (U(x := 1)) R M' s'))) s"
    (is "wp (call _ ?k) ?Q s")
proof -
  define Q where "Q = ?Q"
  have "wp (call (clds_sorted_list_node_create node_size f c) ?k) Q s"
  proof (rule wp_seq [OF wp_node_create [OF hp ok]], elim conjE)
    fix x and s1 :: "('q, 'u, 'a) csl_mem_scheme"
    let ?I = "\<lparr>ref_count = 1, item_cleanup_callback = f, item_cleanup_callback_context = c, item_next = null\<rparr>"
    assume s1: "words s1 = words s" "user s1 = user s" and x: "if x = null then hp_ok X C s1 t A R M \<and> lists_ok Os K U R M s1
      else x \<notin> live s \<and> csl_items s1 x = Some ?I \<and> hp_ok X C s1 t A R (insert x M) \<and> lists_ok Os K (U(x := 1)) R (insert x M) s1"
    show "wp (?k x) Q s1"
    proof (cases "x = null")
      case True
      then show ?thesis using s1 x by (simp add: wp_Done Q_def)
    next
      case False
      then have x1: "csl_items s1 x = Some ?I" "hp_ok X C s1 t A R (insert x M)" "lists_ok Os K (U(x := 1)) R (insert x M) s1" "x \<notin> live s"
        using x by simp_all
      let ?U = "(U(x := 1))(x := Suc ((U(x := 1)) x))"
      have U: "?U(x := ?U x - 1) = U(x := 1)" by simp
      have r: "refs s1 x = 1" using x1(1) by (simp add: refs_def)
      have "wp (clds_sorted_list_node_inc_ref x) (\<lambda>_ s2. wp (clds_sorted_list_node_release K x) (\<lambda>_ s'. Q x s') s2) s1"
      proof (rule wp_node_inc_ref [OF x1(3,1)])
        show "Suc (refs s1 x) < 2 ^ 32" using r by simp
        fix s2 :: "('q, 'u, 'a) csl_mem_scheme"
        assume s2: "s2 = s1\<lparr>csl_items := (csl_items s1)(x \<mapsto> ?I\<lparr>ref_count := ref_count ?I + 1\<rparr>)\<rparr>" "lists_ok Os K ?U R (insert x M) s2"
        have hp2: "hp_ok X C s2 t A R (insert x M)" using x1(2) s2(1) by simp
        have r2: "refs s2 x = 2" using s2(1) by (simp add: refs_def)
        have pos: "0 < ?U x" by simp
        show "wp (clds_sorted_list_node_release K x) (\<lambda>_ s'. Q x s') s2"
        proof (rule wp_mono [OF wp_node_release [OF hp2 cb s2(2) pos]], elim exE conjE, goal_cases)
          case (1 a s' M')
          then show ?case unfolding Q_def U using False s1 x1(4) s2(1) r2 by auto
        qed
      qed
      then show ?thesis using False by (simp add: wp_call_fun wp_Done_fun)
    qed
  qed
  then show ?thesis by (simp only: Q_def)
qed

theorem sorted_list_node_references_witness:
  "wp (call (clds_sorted_list_node_create 64 1 0) (\<lambda>x. if x = null then Done null else
      call (clds_sorted_list_node_inc_ref x) (\<lambda>_. call (clds_sorted_list_node_release csl_example_callbacks x) (\<lambda>_. Done x))))
    (\<lambda>x s'. words s' = words csl_example \<and> (x \<noteq> null \<longrightarrow> x \<notin> live csl_example \<and> refs s' x = 1)) csl_example"
  by (rule wp_mono [OF sorted_list_node_references [OF csl_example_hp csl_example_callbacks_ok csl_ok_forget [OF csl_example_ok]]])
    (simp split: if_splits)


end
