(* ===== verification/Clds_Hash_Table.thy ===== *)
theory Clds_Hash_Table
  imports Clds_Sorted_List
begin

text \<open>
  The hash table, \<open>src/src/clds_hash_table.c\<close>: levels of bucket arrays, the newest and largest one
  first, whose buckets are sorted lists. Insertion goes into the first level, which is doubled when
  it is full; the older levels are only searched, and drained by deletion.

  The items of the table are nodes of the sorted list with a \<open>hash_table_item\<close> behind the list's part.
  The table gives the sorted list functions of its own (\<open>list_callbacks\<close>), which use the items and
  the struct of the table: they are in the part of the state that the list leaves to its caller,
  together with the state \<open>client\<close> of the table's caller. The functions of that caller are collected
  in \<open>G\<close>. All sorted lists are buckets of hash tables. As in the sorted list, \<open>b\<close> bounds every loop.
\<close>

section \<open>Data\<close>

text \<open>The part of a node behind \<open>CLDS_SORTED_LIST_ITEM\<close>; it lives as long as the node.\<close>

record hash_table_item =
  ht_cleanup_callback :: ptr
  ht_cleanup_callback_context :: ptr
  ht_key :: ptr

record bucket_array =
  next_bucket :: ptr
  array_bucket_count :: "32 word"
  array_item_count :: "32 word"
  pending_insert_count :: "32 word"
  hash_table :: "ptr list"

record clds_hash_table = write_lock +
  table_compute_hash :: ptr
  table_key_compare_func :: ptr
  first_hash_table :: ptr
  table_hazard_pointers :: ptr
  table_sequence_number :: ptr
  table_skipped_seq_no_cb :: ptr
  table_skipped_seq_no_cb_context :: ptr

record 'v ht_user =
  ht_items :: "ptr \<Rightarrow> hash_table_item option"
  ht_tables :: "ptr \<Rightarrow> clds_hash_table option"
  client :: 'v

record ('q, 'v) ht_mem = "('q, 'v ht_user) csl_mem" +
  ht_arrays :: "ptr \<Rightarrow> bucket_array option"

text \<open>
  The caller's functions, with their function pointer first; the cancellation token's answer may
  change from one call to the next. The last four are the addresses of functions of the program.
\<close>

record 'v ht_callbacks =
  compute_hash :: "ptr \<Rightarrow> ptr \<Rightarrow> 64 word"
  compare_func :: "ptr \<Rightarrow> ptr \<Rightarrow> ptr \<Rightarrow> int"
  client_skipped :: "ptr \<Rightarrow> ptr \<Rightarrow> 64 word \<Rightarrow> 'v \<Rightarrow> 'v"
  client_cleanup :: "ptr \<Rightarrow> ptr \<Rightarrow> ptr \<Rightarrow> 'v \<Rightarrow> 'v"
  client_condition :: "ptr \<Rightarrow> ptr \<Rightarrow> ptr \<Rightarrow> ptr \<Rightarrow> 'v \<Rightarrow> condition_check_result \<times> 'v"
  token_is_canceled :: "ptr \<Rightarrow> 'v \<Rightarrow> bool \<times> 'v"
  get_item_key_function :: ptr
  key_compare_function :: ptr
  skipped_seq_no_function :: ptr
  item_cleanup_function :: ptr

datatype ht_insert_result = CLDS_HASH_TABLE_INSERT_OK | CLDS_HASH_TABLE_INSERT_ERROR
  | CLDS_HASH_TABLE_INSERT_KEY_ALREADY_EXISTS

datatype ht_delete_result = CLDS_HASH_TABLE_DELETE_OK | CLDS_HASH_TABLE_DELETE_ERROR
  | CLDS_HASH_TABLE_DELETE_NOT_FOUND

datatype ht_remove_result = CLDS_HASH_TABLE_REMOVE_OK | CLDS_HASH_TABLE_REMOVE_ERROR
  | CLDS_HASH_TABLE_REMOVE_NOT_FOUND

datatype ht_set_value_result = CLDS_HASH_TABLE_SET_VALUE_OK | CLDS_HASH_TABLE_SET_VALUE_ERROR
  | CLDS_HASH_TABLE_SET_VALUE_CONDITION_NOT_MET

datatype ht_snapshot_result = CLDS_HASH_TABLE_SNAPSHOT_OK | CLDS_HASH_TABLE_SNAPSHOT_ERROR
  | CLDS_HASH_TABLE_SNAPSHOT_ABANDONED

section \<open>The functions given to the sorted lists\<close>

definition get_item_key_cb :: "ptr \<Rightarrow> 'v ht_user \<Rightarrow> ptr" where
  "get_item_key_cb item u = (case ht_items u item of None \<Rightarrow> null | Some i \<Rightarrow> ht_key i)"

definition key_compare_cb :: "'v ht_callbacks \<Rightarrow> ptr \<Rightarrow> ptr \<Rightarrow> ptr \<Rightarrow> 'v ht_user \<Rightarrow> int" where
  "key_compare_cb G context key1 key2 u =
     (case ht_tables u context of None \<Rightarrow> 0 | Some T \<Rightarrow> compare_func G (table_key_compare_func T) key1 key2)"

definition on_sorted_list_skipped_seq_no :: "'v ht_callbacks \<Rightarrow> ptr \<Rightarrow> 64 word \<Rightarrow> 'v ht_user \<Rightarrow> 'v ht_user" where
  "on_sorted_list_skipped_seq_no G context skipped_sequence_no u =
     (if context = null then u
      else case ht_tables u context of None \<Rightarrow> u
        | Some T \<Rightarrow>
            if table_skipped_seq_no_cb T = null then u
            else u\<lparr>client := client_skipped G (table_skipped_seq_no_cb T) (table_skipped_seq_no_cb_context T) skipped_sequence_no (client u)\<rparr>)"

definition sorted_list_item_cleanup :: "'v ht_callbacks \<Rightarrow> ptr \<Rightarrow> 'v ht_user \<Rightarrow> 'v ht_user" where
  "sorted_list_item_cleanup G item u =
     (case ht_items u item of None \<Rightarrow> u
      | Some i \<Rightarrow>
          if ht_cleanup_callback i \<noteq> null
          then u\<lparr>client := client_cleanup G (ht_cleanup_callback i) (ht_cleanup_callback_context i) item (client u)\<rparr>
          else u)"

definition list_callbacks :: "'v ht_callbacks \<Rightarrow> ptr \<Rightarrow> 'v ht_user csl_callbacks" where
  "list_callbacks G reclaim_function = \<lparr>get_item_key = (\<lambda>f c item u. get_item_key_cb item u),
     key_compare = (\<lambda>f c key1 key2 u. key_compare_cb G c key1 key2 u),
     skipped_seq_no = (\<lambda>f c v u. on_sorted_list_skipped_seq_no G c v u),
     item_cleanup = (\<lambda>f c item u. sorted_list_item_cleanup G item u),
     condition_check = (\<lambda>f c key1 key2 u. let (r, v) = client_condition G f c key1 key2 (client u) in (r, u\<lparr>client := v\<rparr>)),
     reclaim_list_node_function = reclaim_function\<rparr>"

text \<open>A function of the C file that nothing calls.\<close>

definition find_by_key_value :: "'v ht_callbacks \<Rightarrow> ptr \<Rightarrow> ptr \<Rightarrow> ptr \<Rightarrow> ptr \<Rightarrow> 'v ht_user \<Rightarrow> bool" where
  "find_by_key_value G key value compare item u =
     (if item \<noteq> value \<or> compare_func G compare (get_item_key_cb item u) key \<noteq> 0 then False else True)"

section \<open>Accesses\<close>

type_synonym ('q, 'v, 'a, 'r) ht_prog = "(('q, 'v, 'a) ht_mem_scheme, 'r) prog"

abbreviation on_table :: "ptr \<Rightarrow> (clds_hash_table \<Rightarrow> 'r \<times> clds_hash_table option) \<Rightarrow> ('q, 'v ht_user, 'a, 'r) csl_prog" where
  "on_table \<equiv> access (\<lambda>s. ht_tables (user s)) (\<lambda>m. user_update (ht_tables_update (\<lambda>_. m)))"

abbreviation on_array :: "ptr \<Rightarrow> (bucket_array \<Rightarrow> 'r \<times> bucket_array option) \<Rightarrow> ('q, 'v, 'a, 'r) ht_prog" where
  "on_array \<equiv> access ht_arrays (\<lambda>m. ht_arrays_update (\<lambda>_. m))"

text \<open>A slot \<open>hash_table[i]\<close>; an index out of range faults.\<close>

definition on_slot :: "ptr \<Rightarrow> nat \<Rightarrow> (ptr \<Rightarrow> 'r \<times> ptr option) \<Rightarrow> ('q, 'v, 'a, 'r) ht_prog" where
  "on_slot a i g = atomic (\<lambda>s. case ht_arrays s a of
     None \<Rightarrow> None
   | Some A \<Rightarrow>
       if i < length (hash_table A) then
         (case g (hash_table A ! i) of
            (v, None) \<Rightarrow> Some (v, s)
          | (v, Some p) \<Rightarrow> Some (v, s\<lparr>ht_arrays := (ht_arrays s)(a \<mapsto> A\<lparr>hash_table := (hash_table A)[i := p]\<rparr>)\<rparr>))
       else None)"

abbreviation read_slot :: "ptr \<Rightarrow> nat \<Rightarrow> ('q, 'v, 'a, ptr) ht_prog" where
  "read_slot a i \<equiv> on_slot a i (\<lambda>p. (p, None))"

text \<open>The fields of the hash table's part of a node.\<close>

definition on_item :: "ptr \<Rightarrow> (hash_table_item \<Rightarrow> 'r \<times> hash_table_item option) \<Rightarrow> ('q, 'v ht_user, 'a, 'r) csl_prog" where
  "on_item x g = access (\<lambda>s. if csl_items s x = None then Map.empty else ht_items (user s)) (\<lambda>m. user_update (ht_items_update (\<lambda>_. m))) x g"

definition malloc_table :: "('q, 'v ht_user, 'a, ptr) csl_prog" where
  "malloc_table = new_obj (\<lambda>s. ht_tables (user s)) (\<lambda>m. user_update (ht_tables_update (\<lambda>_. m)))
     \<lparr>locked_for_write = 0xCDCDCDCD, pending_write_operations = 0xCDCDCDCD, table_compute_hash = junk, table_key_compare_func = junk,
      first_hash_table = junk, table_hazard_pointers = junk, table_sequence_number = junk, table_skipped_seq_no_cb = junk,
      table_skipped_seq_no_cb_context = junk\<rparr>"

abbreviation free_table :: "ptr \<Rightarrow> ('q, 'v ht_user, 'a, unit) csl_prog" where
  "free_table \<equiv> free_obj (\<lambda>s. ht_tables (user s)) (\<lambda>m. user_update (ht_tables_update (\<lambda>_. m)))"

text \<open>
  \<open>malloc_flex(sizeof(BUCKET_ARRAY), nmemb, size)\<close>, for a size of \<open>k\<close> slots: it fails when the number of
  bytes does not fit \<open>size_t\<close>. The fixed part of a bucket array is 24 bytes and a slot 8.
\<close>

definition malloc_bucket_array :: "64 word \<Rightarrow> nat \<Rightarrow> ('q, 'v, 'a, ptr) ht_prog" where
  "malloc_bucket_array nmemb k =
     (if 2 ^ 64 \<le> 24 + unat nmemb * (8 * k) then Done null
      else new_obj ht_arrays (\<lambda>m. ht_arrays_update (\<lambda>_. m))
        \<lparr>next_bucket = junk, array_bucket_count = 0xCDCDCDCD, array_item_count = 0xCDCDCDCD, pending_insert_count = 0xCDCDCDCD,
         hash_table = replicate (unat nmemb * k) junk\<rparr>)"

abbreviation free_array :: "ptr \<Rightarrow> ('q, 'v, 'a, unit) ht_prog" where
  "free_array \<equiv> free_obj ht_arrays (\<lambda>m. ht_arrays_update (\<lambda>_. m))"

text \<open>The write lock's counters of the table at \<open>h\<close>.\<close>

definition table_lock :: "ptr \<Rightarrow> ('q, 'v ht_user, 'a) csl_mem_scheme lock_access" where
  "table_lock h = \<lparr>
     add_locked = (\<lambda>d s. map_option (\<lambda>T. user_update (ht_tables_update (\<lambda>m. m(h \<mapsto> T\<lparr>locked_for_write := locked_for_write T + d\<rparr>))) s)
       (ht_tables (user s) h)),
     add_pending = (\<lambda>d s. map_option (\<lambda>T. user_update (ht_tables_update (\<lambda>m. m(h \<mapsto> T\<lparr>pending_write_operations := pending_write_operations T + d\<rparr>))) s)
       (ht_tables (user s) h)),
     read_locked = (\<lambda>s. map_option (\<lambda>T. (locked_for_write T, s)) (ht_tables (user s) h)),
     read_pending = (\<lambda>s. map_option (\<lambda>T. (pending_write_operations T, s)) (ht_tables (user s) h))\<rparr>"

section \<open>Bucket arrays\<close>

text \<open>The loop that sets \<open>hash_table[i]\<close> to \<open>NULL\<close>, with \<open>k\<close> rounds to go.\<close>

primrec clear_slots :: "nat \<Rightarrow> ptr \<Rightarrow> nat \<Rightarrow> ('q, 'v, 'a, unit) ht_prog" where
  "clear_slots 0 a i = Done ()"
| "clear_slots (Suc k) a i = call (on_slot a i (\<lambda>_. ((), Some null))) (\<lambda>_. clear_slots k a (Suc i))"

text \<open>The hash modulo the number of buckets, an \<open>int32_t\<close> that C converts to \<open>uint64_t\<close>.\<close>

definition slot_index :: "64 word \<Rightarrow> 32 word \<Rightarrow> nat" where
  "slot_index hash count_of_buckets = unat (hash mod scast count_of_buckets)"

fun grow_first_array :: "nat \<Rightarrow> ptr \<Rightarrow> ptr \<Rightarrow> 32 word \<Rightarrow> ('q, 'v, 'a, ptr) ht_prog" where
  "grow_first_array 0 h first_bucket_array count_of_buckets = Spin"
| "grow_first_array (Suc n) h first_bucket_array count_of_buckets =
     call (on_array first_bucket_array (add_fetch array_item_count array_item_count_update 0)) (\<lambda>items_in_array.
     if sint count_of_buckets \<le> sint items_in_array then
       call (malloc_bucket_array (scast count_of_buckets) 2) (\<lambda>new_bucket_array.
       if new_bucket_array = null then Done first_bucket_array
       else
         let count_of_buckets = count_of_buckets * 2 in
         call (on_array new_bucket_array (wr array_bucket_count_update count_of_buckets)) (\<lambda>_.
         call (on_array new_bucket_array (wr array_item_count_update 0)) (\<lambda>_.
         call (on_array new_bucket_array (wr pending_insert_count_update 0)) (\<lambda>_.
         call (clear_slots (nat (sint count_of_buckets)) new_bucket_array 0) (\<lambda>_.
         call (on_array new_bucket_array (wr next_bucket_update first_bucket_array)) (\<lambda>_.
         call (on_table h (cas first_hash_table first_hash_table_update new_bucket_array first_bucket_array)) (\<lambda>old.
         if old = first_bucket_array then Done new_bucket_array
         else
           call (free_array new_bucket_array) (\<lambda>_.
           call (on_table h (cas first_hash_table first_hash_table_update null null)) (\<lambda>first_bucket_array.
           call (on_array first_bucket_array (add_fetch array_bucket_count array_bucket_count_update 0)) (\<lambda>count_of_buckets.
           grow_first_array n h first_bucket_array count_of_buckets))))))))))
     else Done first_bucket_array)"

definition get_first_bucket_array :: "nat \<Rightarrow> ptr \<Rightarrow> ('q, 'v, 'a, ptr) ht_prog" where
  "get_first_bucket_array b h =
     call (on_table h (cas first_hash_table first_hash_table_update null null)) (\<lambda>first_bucket_array.
     call (on_array first_bucket_array (add_fetch array_bucket_count array_bucket_count_update 0)) (\<lambda>count_of_buckets.
     grow_first_array b h first_bucket_array count_of_buckets))"

section \<open>Creating and destroying a table\<close>

definition clds_hash_table_create :: "ptr \<Rightarrow> ptr \<Rightarrow> 64 word \<Rightarrow> ptr \<Rightarrow> ptr \<Rightarrow> ptr \<Rightarrow> ptr \<Rightarrow> ('q, 'v, 'a, ptr) ht_prog" where
  "clds_hash_table_create compute comparison initial_bucket_size hps start_sequence_number skipped_cb skipped_cb_context =
     (if compute = null \<or> comparison = null \<or> initial_bucket_size = 0 \<or> hps = null \<or>
         (start_sequence_number = null \<and> skipped_cb \<noteq> null) then Done null
      else
        call malloc_table (\<lambda>h.
        if h = null then Done null
        else
          call (malloc_bucket_array initial_bucket_size 1) (\<lambda>a.
          call (on_table h (wr first_hash_table_update a)) (\<lambda>_.
          if a = null then call (free_table h) (\<lambda>_. Done null)
          else
            call (on_table h (wr table_hazard_pointers_update hps)) (\<lambda>_.
            call (on_table h (wr table_compute_hash_update compute)) (\<lambda>_.
            call (on_table h (wr table_key_compare_func_update comparison)) (\<lambda>_.
            call (on_table h (wr table_skipped_seq_no_cb_update skipped_cb)) (\<lambda>_.
            call (on_table h (wr table_skipped_seq_no_cb_context_update skipped_cb_context)) (\<lambda>_.
            call (on_table h (wr pending_write_operations_update 0)) (\<lambda>_.
            call (on_table h (wr locked_for_write_update 0)) (\<lambda>_.
            call (on_table h (wr table_sequence_number_update start_sequence_number)) (\<lambda>_.
            call (on_array a (wr next_bucket_update null)) (\<lambda>_.
            call (on_array a (wr array_bucket_count_update (ucast initial_bucket_size))) (\<lambda>_.
            call (on_array a (wr array_item_count_update 0)) (\<lambda>_.
            call (on_array a (wr pending_insert_count_update 0)) (\<lambda>_.
            call (clear_slots (unat initial_bucket_size) a 0) (\<lambda>_.
            Done h)))))))))))))))))"

text \<open>The buckets of one array, from \<open>hash_table[i]\<close> on, and all arrays.\<close>

fun destroy_buckets :: "'v ht_user csl_callbacks \<Rightarrow> nat \<Rightarrow> nat \<Rightarrow> ptr \<Rightarrow> 32 word \<Rightarrow> ('q, 'v, 'a, unit) ht_prog" where
  "destroy_buckets K b 0 a i = Spin"
| "destroy_buckets K b (Suc n) a i =
     call (on_array a (rd array_bucket_count)) (\<lambda>count_of_buckets.
     if sint i < sint count_of_buckets then
       call (read_slot a (unat i)) (\<lambda>p.
       if p \<noteq> null then
         call (read_slot a (unat i)) (\<lambda>linked_list.
         call (if linked_list \<noteq> null then clds_sorted_list_destroy K b linked_list else Done ()) (\<lambda>_.
         destroy_buckets K b n a (i + 1)))
       else destroy_buckets K b n a (i + 1))
     else Done ())"

fun destroy_arrays :: "'v ht_user csl_callbacks \<Rightarrow> nat \<Rightarrow> nat \<Rightarrow> ptr \<Rightarrow> ('q, 'v, 'a, unit) ht_prog" where
  "destroy_arrays K b 0 bucket_array = Spin"
| "destroy_arrays K b (Suc n) bucket_array =
     (if bucket_array = null then Done ()
      else
        call (on_array bucket_array (cas next_bucket next_bucket_update null null)) (\<lambda>next_bucket_array.
        call (destroy_buckets K b b bucket_array 0) (\<lambda>_.
        call (free_array bucket_array) (\<lambda>_.
        destroy_arrays K b n next_bucket_array))))"

definition clds_hash_table_destroy :: "'v ht_user csl_callbacks \<Rightarrow> nat \<Rightarrow> ptr \<Rightarrow> ('q, 'v, 'a, unit) ht_prog" where
  "clds_hash_table_destroy K b h =
     (if h = null then Done ()
      else
        call (on_table h (cas first_hash_table first_hash_table_update null null)) (\<lambda>bucket_array.
        call (destroy_arrays K b b bucket_array) (\<lambda>_.
        free_table h)))"

section \<open>Nodes\<close>

definition malloc_table_node :: "64 word \<Rightarrow> ('q, 'v ht_user, 'a, ptr) csl_prog" where
  "malloc_table_node node_size = atomic (\<lambda>s. let (p, s') = malloc_step s in
     Some (p, if p = null then s' else s'\<lparr>csl_items := (csl_items s')(p \<mapsto> \<lparr>ref_count = 0xCDCDCDCD, item_cleanup_callback = junk,
         item_cleanup_callback_context = junk, item_next = junk\<rparr>),
       user := (user s')\<lparr>ht_items := (ht_items (user s'))(p \<mapsto> \<lparr>ht_cleanup_callback = junk, ht_cleanup_callback_context = junk, ht_key = junk\<rparr>)\<rparr>\<rparr>))"

definition clds_hash_table_node_create :: "'v ht_callbacks \<Rightarrow> 64 word \<Rightarrow> ptr \<Rightarrow> ptr \<Rightarrow> ('q, 'v ht_user, 'a, ptr) csl_prog" where
  "clds_hash_table_node_create G node_size cleanup cleanup_context =
     call (malloc_table_node node_size) (\<lambda>item.
     if item = null then Done null
     else
       call (on_item item (wr ht_cleanup_callback_update cleanup)) (\<lambda>_.
       call (on_item item (wr ht_cleanup_callback_context_update cleanup_context)) (\<lambda>_.
       call (on_node item (wr item_cleanup_callback_update (item_cleanup_function G))) (\<lambda>_.
       call (on_node item (wr item_cleanup_callback_context_update item)) (\<lambda>_.
       call (on_node item (wr ref_count_update 1)) (\<lambda>_.
       Done item))))))"

definition clds_hash_table_node_inc_ref :: "ptr \<Rightarrow> ('q, 'u, 'a, int_result) csl_prog" where
  "clds_hash_table_node_inc_ref item =
     (if item = null then Done MU_FAILURE
      else
        call (clds_sorted_list_node_inc_ref item) (\<lambda>r.
        if r \<noteq> Result_0 then Done MU_FAILURE else Done Result_0))"

definition clds_hash_table_node_release :: "'u csl_callbacks \<Rightarrow> ptr \<Rightarrow> ('q, 'u, 'a, unit) csl_prog" where
  "clds_hash_table_node_release K item =
     (if item = null then Done () else clds_sorted_list_node_release K item)"

section \<open>Looking up, deleting and removing\<close>

text \<open>The hash of a key, by the function that the table was created with.\<close>

definition hash_of_key :: "'v ht_callbacks \<Rightarrow> ptr \<Rightarrow> ptr \<Rightarrow> ('q, 'v ht_user, 'a, 64 word) csl_prog" where
  "hash_of_key G h key = call (on_table h (rd table_compute_hash)) (\<lambda>f. Done (compute_hash G f key))"

text \<open>
  The loop over the levels that looking up, deleting and removing share: the list in the bucket of
  the hash is visited in every level that is not empty, until a visit gives a result.
\<close>

fun search_arrays :: "nat \<Rightarrow> 64 word \<Rightarrow> (ptr \<Rightarrow> ptr \<Rightarrow> ('q, 'v, 'a, 'r option) ht_prog) \<Rightarrow> 'r \<Rightarrow> ptr \<Rightarrow> ('q, 'v, 'a, 'r) ht_prog" where
  "search_arrays 0 hash visit_list not_found current_bucket_array = Spin"
| "search_arrays (Suc n) hash visit_list not_found current_bucket_array =
     (if current_bucket_array = null then Done not_found
      else
        call (on_array current_bucket_array (cas next_bucket next_bucket_update null null)) (\<lambda>next_bucket_array.
        call (on_array current_bucket_array (add_fetch array_item_count array_item_count_update 0)) (\<lambda>items_in_array.
        if items_in_array \<noteq> 0 then
          call (on_array current_bucket_array (add_fetch array_bucket_count array_bucket_count_update 0)) (\<lambda>count_of_buckets.
          call (read_slot current_bucket_array (slot_index hash count_of_buckets)) (\<lambda>bucket_list.
          if bucket_list = null then search_arrays n hash visit_list not_found next_bucket_array
          else
            call (visit_list current_bucket_array bucket_list) (\<lambda>r.
            case r of None \<Rightarrow> search_arrays n hash visit_list not_found next_bucket_array | Some result \<Rightarrow> Done result)))
        else search_arrays n hash visit_list not_found next_bucket_array)))"

definition clds_hash_table_find :: "'v ht_callbacks \<Rightarrow> 'v ht_user csl_callbacks \<Rightarrow> nat \<Rightarrow> ptr \<Rightarrow> ptr \<Rightarrow> ptr \<Rightarrow> ('q, 'v, 'a, ptr) ht_prog" where
  "clds_hash_table_find G K b h t key =
     (if h = null \<or> t = null \<or> key = null then Done null
      else
        call (hash_of_key G h key) (\<lambda>hash.
        call (on_table h (cas first_hash_table first_hash_table_update null null)) (\<lambda>current_bucket_array.
        search_arrays b hash
          (\<lambda>a bucket_list.
             call (clds_sorted_list_find_key K b bucket_list t key) (\<lambda>result.
             Done (if result = null then None else Some result)))
          null current_bucket_array)))"

text \<open>The argument check: an out parameter for a sequence number needs a counter.\<close>

definition no_table_counter_for :: "ptr \<Rightarrow> ptr \<Rightarrow> ('q, 'v ht_user, 'a, bool) csl_prog" where
  "no_table_counter_for h seq =
     (if seq \<noteq> null then call (on_table h (rd table_sequence_number)) (\<lambda>p. Done (p = null)) else Done False)"

text \<open>What \<open>delete\<close> and \<open>delete_key_value\<close> do with the result of the list's deletion.\<close>

definition deleted_from :: "ptr \<Rightarrow> clds_sorted_list_delete_result \<Rightarrow> ('q, 'v, 'a, ht_delete_result option) ht_prog" where
  "deleted_from a list_delete_result =
     (if list_delete_result = CLDS_SORTED_LIST_DELETE_NOT_FOUND then Done None
      else if list_delete_result = CLDS_SORTED_LIST_DELETE_OK then
        call (on_array a (add_fetch array_item_count array_item_count_update (- 1))) (\<lambda>_.
        Done (Some CLDS_HASH_TABLE_DELETE_OK))
      else Done (Some CLDS_HASH_TABLE_DELETE_ERROR))"

definition clds_hash_table_delete :: "'q externals \<Rightarrow> 'v ht_callbacks \<Rightarrow> 'v ht_user csl_callbacks \<Rightarrow> nat \<Rightarrow> ptr \<Rightarrow> ptr \<Rightarrow> ptr \<Rightarrow> ptr \<Rightarrow>
    ('q, 'v, 'a, ht_delete_result) ht_prog" where
  "clds_hash_table_delete X G K b h t key seq =
     (if h = null \<or> t = null \<or> key = null then Done CLDS_HASH_TABLE_DELETE_ERROR
      else
        call (no_table_counter_for h seq) (\<lambda>invalid.
        if invalid then Done CLDS_HASH_TABLE_DELETE_ERROR
        else
          call (check_lock_and_begin_write_operation b (table_lock h)) (\<lambda>_.
          call (hash_of_key G h key) (\<lambda>hash.
          call (on_table h (cas first_hash_table first_hash_table_update null null)) (\<lambda>current_bucket_array.
          call (search_arrays b hash
                  (\<lambda>a bucket_list.
                     call (clds_sorted_list_delete_key X K b bucket_list t key seq) (deleted_from a))
                  CLDS_HASH_TABLE_DELETE_NOT_FOUND current_bucket_array) (\<lambda>result.
          call (end_write_operation (table_lock h)) (\<lambda>_.
          Done result)))))))"

definition clds_hash_table_delete_key_value :: "'q externals \<Rightarrow> 'v ht_callbacks \<Rightarrow> 'v ht_user csl_callbacks \<Rightarrow> nat \<Rightarrow> ptr \<Rightarrow> ptr \<Rightarrow> ptr \<Rightarrow>
    ptr \<Rightarrow> ptr \<Rightarrow> ('q, 'v, 'a, ht_delete_result) ht_prog" where
  "clds_hash_table_delete_key_value X G K b h t key value seq =
     (if h = null \<or> key = null \<or> value = null \<or> t = null then Done CLDS_HASH_TABLE_DELETE_ERROR
      else
        call (no_table_counter_for h seq) (\<lambda>invalid.
        if invalid then Done CLDS_HASH_TABLE_DELETE_ERROR
        else
          call (check_lock_and_begin_write_operation b (table_lock h)) (\<lambda>_.
          call (hash_of_key G h key) (\<lambda>hash.
          call (on_table h (cas first_hash_table first_hash_table_update null null)) (\<lambda>current_bucket_array.
          call (search_arrays b hash
                  (\<lambda>a bucket_list.
                     call (clds_sorted_list_delete_item X K b bucket_list t value seq) (deleted_from a))
                  CLDS_HASH_TABLE_DELETE_NOT_FOUND current_bucket_array) (\<lambda>result.
          call (end_write_operation (table_lock h)) (\<lambda>_.
          Done result)))))))"

definition clds_hash_table_remove :: "'q externals \<Rightarrow> 'v ht_callbacks \<Rightarrow> 'v ht_user csl_callbacks \<Rightarrow> nat \<Rightarrow> ptr \<Rightarrow> ptr \<Rightarrow> ptr \<Rightarrow> ptr \<Rightarrow> ptr \<Rightarrow>
    ('q, 'v, 'a, ht_remove_result) ht_prog" where
  "clds_hash_table_remove X G K b h t key item seq =
     (if h = null \<or> t = null \<or> key = null \<or> item = null then Done CLDS_HASH_TABLE_REMOVE_ERROR
      else
        call (no_table_counter_for h seq) (\<lambda>invalid.
        if invalid then Done CLDS_HASH_TABLE_REMOVE_ERROR
        else
          call (check_lock_and_begin_write_operation b (table_lock h)) (\<lambda>_.
          call (hash_of_key G h key) (\<lambda>hash.
          call (on_table h (cas first_hash_table first_hash_table_update null null)) (\<lambda>current_bucket_array.
          call (search_arrays b hash
                  (\<lambda>a bucket_list.
                     call (clds_sorted_list_remove_key X K b bucket_list t key item seq) (\<lambda>list_remove_result.
                     if list_remove_result = CLDS_SORTED_LIST_REMOVE_NOT_FOUND then Done None
                     else if list_remove_result = CLDS_SORTED_LIST_REMOVE_OK then
                       call (on_array a (add_fetch array_item_count array_item_count_update (- 1))) (\<lambda>_.
                       Done (Some CLDS_HASH_TABLE_REMOVE_OK))
                     else Done (Some CLDS_HASH_TABLE_REMOVE_ERROR)))
                  CLDS_HASH_TABLE_REMOVE_NOT_FOUND current_bucket_array) (\<lambda>result.
          call (end_write_operation (table_lock h)) (\<lambda>_.
          Done result)))))))"

section \<open>Inserting\<close>

text \<open>\<open>do { } while\<close> inserts are under way in the next level.\<close>

fun wait_for_inserts :: "nat \<Rightarrow> ptr \<Rightarrow> ('q, 'v, 'a, unit) ht_prog" where
  "wait_for_inserts 0 a = Spin"
| "wait_for_inserts (Suc n) a =
     call (on_array a (add_fetch pending_insert_count pending_insert_count_update 0)) (\<lambda>pending.
     if pending = 0 then Done () else wait_for_inserts n a)"

text \<open>The search for the key in the lower levels.\<close>

fun found_in_lower_levels :: "'v ht_user csl_callbacks \<Rightarrow> nat \<Rightarrow> nat \<Rightarrow> ptr \<Rightarrow> ptr \<Rightarrow> 64 word \<Rightarrow> ptr \<Rightarrow> ('q, 'v, 'a, bool) ht_prog" where
  "found_in_lower_levels K b 0 t key hash find_bucket_array = Spin"
| "found_in_lower_levels K b (Suc n) t key hash find_bucket_array =
     (if find_bucket_array = null then Done False
      else
        call (on_array find_bucket_array (cas next_bucket next_bucket_update null null)) (\<lambda>next_bucket_array.
        call (on_array find_bucket_array (add_fetch array_bucket_count array_bucket_count_update 0)) (\<lambda>count_of_buckets.
        call (read_slot find_bucket_array (slot_index hash count_of_buckets)) (\<lambda>bucket_list.
        if bucket_list \<noteq> null then
          call (clds_sorted_list_find_key K b bucket_list t key) (\<lambda>sorted_list_item.
          if sorted_list_item \<noteq> null then
            call (clds_sorted_list_node_release K sorted_list_item) (\<lambda>_. Done True)
          else found_in_lower_levels K b n t key hash next_bucket_array)
        else found_in_lower_levels K b n t key hash next_bucket_array))))"

text \<open>The list in a bucket, created when there is none; null without memory.\<close>

fun obtain_bucket_list :: "'v ht_callbacks \<Rightarrow> 'v ht_user csl_callbacks \<Rightarrow> nat \<Rightarrow> nat \<Rightarrow> ptr \<Rightarrow> ptr \<Rightarrow> nat \<Rightarrow> ('q, 'v, 'a, ptr) ht_prog" where
  "obtain_bucket_list G K b 0 h a i = Spin"
| "obtain_bucket_list G K b (Suc n) h a i =
     call (read_slot a i) (\<lambda>bucket_list.
     if bucket_list \<noteq> null then Done bucket_list
     else
       call (on_table h (rd table_hazard_pointers)) (\<lambda>hps.
       call (on_table h (rd table_sequence_number)) (\<lambda>counter.
       call (clds_sorted_list_create hps (get_item_key_function G) h (key_compare_function G) h counter
               (if counter = null then null else skipped_seq_no_function G) h) (\<lambda>bucket_list.
       if bucket_list = null then Done null
       else
         call (on_slot a i (\<lambda>p. (p, if p = null then Some bucket_list else None))) (\<lambda>old.
         if old \<noteq> null then
           call (clds_sorted_list_destroy K b bucket_list) (\<lambda>_. obtain_bucket_list G K b n h a i)
         else Done bucket_list)))))"

text \<open>The insertion into the bucket \<open>i\<close> of the first array: the item is counted before, and taken back when it fails.\<close>

definition insert_into_first :: "'v ht_callbacks \<Rightarrow> 'v ht_user csl_callbacks \<Rightarrow> nat \<Rightarrow> ptr \<Rightarrow> ptr \<Rightarrow> ptr \<Rightarrow> ptr \<Rightarrow> ptr \<Rightarrow> ptr \<Rightarrow> nat \<Rightarrow>
    ('q, 'v, 'a, ht_insert_result) ht_prog" where
  "insert_into_first G K b h t key value seq a i =
     call (on_array a (add_fetch array_item_count array_item_count_update 1)) (\<lambda>_.
     call (obtain_bucket_list G K b b h a i) (\<lambda>bucket_list.
     if bucket_list = null then
       call (on_array a (add_fetch array_item_count array_item_count_update (- 1))) (\<lambda>_.
       Done CLDS_HASH_TABLE_INSERT_ERROR)
     else
       call (on_item value (wr ht_key_update key)) (\<lambda>_.
       call (clds_sorted_list_insert K b bucket_list t value seq) (\<lambda>list_insert_result.
       if list_insert_result = CLDS_SORTED_LIST_INSERT_KEY_ALREADY_EXISTS then
         call (on_array a (add_fetch array_item_count array_item_count_update (- 1))) (\<lambda>_.
         Done CLDS_HASH_TABLE_INSERT_KEY_ALREADY_EXISTS)
       else if list_insert_result \<noteq> CLDS_SORTED_LIST_INSERT_OK then
         call (on_array a (add_fetch array_item_count array_item_count_update (- 1))) (\<lambda>_.
         Done CLDS_HASH_TABLE_INSERT_ERROR)
       else Done CLDS_HASH_TABLE_INSERT_OK))))"

definition clds_hash_table_insert :: "'v ht_callbacks \<Rightarrow> 'v ht_user csl_callbacks \<Rightarrow> nat \<Rightarrow> ptr \<Rightarrow> ptr \<Rightarrow> ptr \<Rightarrow> ptr \<Rightarrow> ptr \<Rightarrow>
    ('q, 'v, 'a, ht_insert_result) ht_prog" where
  "clds_hash_table_insert G K b h t key value seq =
     (if h = null \<or> key = null \<or> t = null then Done CLDS_HASH_TABLE_INSERT_ERROR
      else
        call (no_table_counter_for h seq) (\<lambda>invalid.
        if invalid then Done CLDS_HASH_TABLE_INSERT_ERROR
        else
          call (check_lock_and_begin_write_operation b (table_lock h)) (\<lambda>_.
          call (get_first_bucket_array b h) (\<lambda>current_bucket_array.
          call (on_array current_bucket_array (add_fetch array_bucket_count array_bucket_count_update 0)) (\<lambda>count_of_buckets.
          call (on_array current_bucket_array (add_fetch pending_insert_count pending_insert_count_update 1)) (\<lambda>_.
          call (hash_of_key G h key) (\<lambda>hash.
          call (on_array current_bucket_array (cas next_bucket next_bucket_update null null)) (\<lambda>next_bucket_array.
          call (if next_bucket_array \<noteq> null then wait_for_inserts b next_bucket_array else Done ()) (\<lambda>_.
          call (found_in_lower_levels K b b t key hash next_bucket_array) (\<lambda>found.
          call (if found then Done CLDS_HASH_TABLE_INSERT_KEY_ALREADY_EXISTS
                else insert_into_first G K b h t key value seq current_bucket_array (slot_index hash count_of_buckets)) (\<lambda>result.
          call (on_array current_bucket_array (add_fetch pending_insert_count pending_insert_count_update (- 1))) (\<lambda>_.
          call (end_write_operation (table_lock h)) (\<lambda>_.
          Done result)))))))))))))"


section \<open>Replacing\<close>

text \<open>
  The search of the lower levels: where the key is found the item is replaced there. \<open>result\<close> and
  \<open>in_top_level\<close> are the variables of the code; the search goes on after a replacement, since the
  \<open>break\<close> of the code leaves its \<open>switch\<close> only.
\<close>

fun set_in_lower_levels :: "'q externals \<Rightarrow> 'v ht_user csl_callbacks \<Rightarrow> nat \<Rightarrow> ptr \<Rightarrow> ptr \<Rightarrow> ptr \<Rightarrow> ptr \<Rightarrow> ptr \<Rightarrow> ptr \<Rightarrow> ptr \<Rightarrow> nat \<Rightarrow> 64 word \<Rightarrow>
    ptr \<Rightarrow> ht_set_value_result \<Rightarrow> bool \<Rightarrow> ('q, 'v, 'a, ht_set_value_result \<times> bool) ht_prog" where
  "set_in_lower_levels X K b t key new_item condition condition_context old_item seq 0 hash find_bucket_array result in_top_level = Spin"
| "set_in_lower_levels X K b t key new_item condition condition_context old_item seq (Suc n) hash find_bucket_array result in_top_level =
     (if find_bucket_array = null then Done (result, in_top_level)
      else
        call (on_array find_bucket_array (cas next_bucket next_bucket_update null null)) (\<lambda>next_bucket_array.
        call (on_array find_bucket_array (add_fetch array_bucket_count array_bucket_count_update 0)) (\<lambda>count_of_buckets.
        call (read_slot find_bucket_array (slot_index hash count_of_buckets)) (\<lambda>bucket_list.
        call (if bucket_list \<noteq> null then
                call (clds_sorted_list_find_key K b bucket_list t key) (\<lambda>sorted_list_item.
                if sorted_list_item \<noteq> null then
                  call (clds_sorted_list_node_release K sorted_list_item) (\<lambda>_.
                  call (on_item new_item (wr ht_key_update key)) (\<lambda>_.
                  call (clds_sorted_list_set_value X K b bucket_list t key new_item condition condition_context old_item seq True) (\<lambda>r.
                  Done (case r of
                      CLDS_SORTED_LIST_SET_VALUE_OK \<Rightarrow> (CLDS_HASH_TABLE_SET_VALUE_OK, False)
                    | CLDS_SORTED_LIST_SET_VALUE_CONDITION_NOT_MET \<Rightarrow> (CLDS_HASH_TABLE_SET_VALUE_CONDITION_NOT_MET, False)
                    | CLDS_SORTED_LIST_SET_VALUE_NOT_FOUND \<Rightarrow> (result, in_top_level)
                    | CLDS_SORTED_LIST_SET_VALUE_ERROR \<Rightarrow> (result, False)))))
                else Done (result, in_top_level))
              else Done (result, in_top_level)) (\<lambda>(result, in_top_level).
        set_in_lower_levels X K b t key new_item condition condition_context old_item seq n hash next_bucket_array result in_top_level)))))"

definition clds_hash_table_set_value :: "'q externals \<Rightarrow> 'v ht_callbacks \<Rightarrow> 'v ht_user csl_callbacks \<Rightarrow> nat \<Rightarrow> ptr \<Rightarrow> ptr \<Rightarrow> ptr \<Rightarrow> ptr \<Rightarrow> ptr \<Rightarrow> ptr \<Rightarrow>
    ptr \<Rightarrow> ptr \<Rightarrow> ('q, 'v, 'a, ht_set_value_result) ht_prog" where
  "clds_hash_table_set_value X G K b h t key new_item condition condition_context old_item seq =
     (if h = null \<or> t = null \<or> key = null \<or> new_item = null \<or> old_item = null then Done CLDS_HASH_TABLE_SET_VALUE_ERROR
      else
        call (no_table_counter_for h seq) (\<lambda>invalid.
        if invalid then Done CLDS_HASH_TABLE_SET_VALUE_ERROR
        else
          call (check_lock_and_begin_write_operation b (table_lock h)) (\<lambda>_.
          call (hash_of_key G h key) (\<lambda>hash.
          call (get_first_bucket_array b h) (\<lambda>first_bucket_array.
          call (on_array first_bucket_array (add_fetch pending_insert_count pending_insert_count_update 1)) (\<lambda>_.
          call (on_array first_bucket_array (cas next_bucket next_bucket_update null null)) (\<lambda>next_bucket_array.
          call (if next_bucket_array \<noteq> null then wait_for_inserts b next_bucket_array else Done ()) (\<lambda>_.
          call (set_in_lower_levels X K b t key new_item condition condition_context old_item seq b hash next_bucket_array
                  CLDS_HASH_TABLE_SET_VALUE_ERROR True) (\<lambda>(result, in_top_level).
          call (if in_top_level then
                  call (on_array first_bucket_array (add_fetch array_bucket_count array_bucket_count_update 0)) (\<lambda>count_of_buckets.
                  call (obtain_bucket_list G K b b h first_bucket_array (slot_index hash count_of_buckets)) (\<lambda>bucket_list.
                  if bucket_list = null then Done CLDS_HASH_TABLE_SET_VALUE_ERROR
                  else
                    call (on_item new_item (wr ht_key_update key)) (\<lambda>_.
                    call (clds_sorted_list_set_value X K b bucket_list t key new_item condition condition_context old_item seq False) (\<lambda>r.
                    if r = CLDS_SORTED_LIST_SET_VALUE_CONDITION_NOT_MET then Done CLDS_HASH_TABLE_SET_VALUE_CONDITION_NOT_MET
                    else if r \<noteq> CLDS_SORTED_LIST_SET_VALUE_OK then Done CLDS_HASH_TABLE_SET_VALUE_ERROR
                    else
                      call (load old_item) (\<lambda>old.
                      call (if old = null then
                              call (on_array first_bucket_array (add_fetch array_item_count array_item_count_update 1)) (\<lambda>_. Done ())
                            else Done ()) (\<lambda>_.
                      Done CLDS_HASH_TABLE_SET_VALUE_OK))))))
                else Done result) (\<lambda>result.
          call (on_array first_bucket_array (add_fetch pending_insert_count pending_insert_count_update (- 1))) (\<lambda>_.
          call (end_write_operation (table_lock h)) (\<lambda>_.
          Done result))))))))))))"

section \<open>Snapshots\<close>

text \<open>
  \<open>malloc_2(n, sizeof(CLDS_SORTED_LIST_ITEM*))\<close> gives \<open>n\<close> cells, or fails; it fails when the number of
  bytes does not fit \<open>size_t\<close>. \<open>free\<close> gives them back: the allocator knows how many there are.
\<close>

definition cells_of :: "ptr \<Rightarrow> nat \<Rightarrow> ptr set" where
  "cells_of p n = (\<lambda>j. item_slot p (of_nat j)) ` {..<n}"

definition malloc_cells :: "64 word \<Rightarrow> ('q, 'u, 'a, ptr) csl_prog" where
  "malloc_cells n =
     (if 2 ^ 64 \<le> unat n * 8 then Done null
      else atomic (\<lambda>s. let (p, s') = malloc_step s in
        if p = null \<or> cells_of p (unat n) \<inter> dom (words s) \<noteq> {} then Some (null, s\<lparr>answers := answers s'\<rparr>)
        else Some (p, s'\<lparr>words := \<lambda>q. if q \<in> cells_of p (unat n) then Some junk else words s' q\<rparr>)))"

definition free_cells :: "ptr \<Rightarrow> 64 word \<Rightarrow> ('q, 'u, 'a, unit) csl_prog" where
  "free_cells p n = writes (\<lambda>s. map_option (\<lambda>s'. s'\<lparr>words := (words s') |` (- cells_of p (unat n))\<rparr>) (free_step p s))"

fun sum_item_counts :: "nat \<Rightarrow> ptr \<Rightarrow> 64 word \<Rightarrow> ('q, 'v, 'a, 64 word) ht_prog" where
  "sum_item_counts 0 current_bucket_array temp_item_count = Spin"
| "sum_item_counts (Suc n) current_bucket_array temp_item_count =
     (if current_bucket_array = null then Done temp_item_count
      else
        call (on_array current_bucket_array (cas next_bucket next_bucket_update null null)) (\<lambda>next_bucket_array.
        call (on_array current_bucket_array (add_fetch array_item_count array_item_count_update 0)) (\<lambda>items_in_array.
        sum_item_counts n next_bucket_array (temp_item_count + scast items_in_array))))"

text \<open>
  The copy of one array, from the bucket \<open>i\<close> on, and of all arrays: \<open>room\<close> is what is left of the
  array of items, \<open>result_index\<close> what is used. The first component of the result says how the loop ended.
\<close>

datatype copy_end = All_Copied | Copy_Failed | Copy_Canceled

fun snapshot_buckets :: "'v ht_callbacks \<Rightarrow> 'v ht_user csl_callbacks \<Rightarrow> nat \<Rightarrow> ptr \<Rightarrow> ptr \<Rightarrow> ptr \<Rightarrow> ptr \<Rightarrow> nat \<Rightarrow> ptr \<Rightarrow> 32 word \<Rightarrow> 32 word \<Rightarrow>
    64 word \<Rightarrow> 64 word \<Rightarrow> ('q, 'v, 'a, copy_end \<times> 64 word \<times> 64 word) ht_prog" where
  "snapshot_buckets G K b t token retrieved items_to_return 0 a count_of_buckets i room result_index = Spin"
| "snapshot_buckets G K b t token retrieved items_to_return (Suc n) a count_of_buckets i room result_index =
     (if sint i < sint count_of_buckets then
        call (read_slot a (unat i)) (\<lambda>bucket_list.
        if bucket_list \<noteq> null \<and> 0 < room then
          call (if token \<noteq> null then
                  callback (\<lambda>u. let (c, v) = token_is_canceled G token (client u) in (c, u\<lparr>client := v\<rparr>))
                else Done False) (\<lambda>canceled.
          if canceled then Done (Copy_Canceled, room, result_index)
          else
            call (read_slot a (unat i)) (\<lambda>bucket_list.
            call (clds_sorted_list_get_all K b bucket_list t room (item_slot items_to_return result_index) retrieved False) (\<lambda>get_all_result.
            if get_all_result \<noteq> CLDS_SORTED_LIST_GET_ALL_OK then Done (Copy_Failed, room, result_index)
            else
              call (load retrieved) (\<lambda>retrieved_item_count.
              snapshot_buckets G K b t token retrieved items_to_return n a count_of_buckets (i + 1)
                (room - retrieved_item_count) (result_index + retrieved_item_count)))))
        else snapshot_buckets G K b t token retrieved items_to_return n a count_of_buckets (i + 1) room result_index)
      else Done (All_Copied, room, result_index))"

fun snapshot_arrays :: "'v ht_callbacks \<Rightarrow> 'v ht_user csl_callbacks \<Rightarrow> nat \<Rightarrow> ptr \<Rightarrow> ptr \<Rightarrow> ptr \<Rightarrow> ptr \<Rightarrow> nat \<Rightarrow> ptr \<Rightarrow> 64 word \<Rightarrow> 64 word \<Rightarrow>
    ('q, 'v, 'a, copy_end \<times> 64 word) ht_prog" where
  "snapshot_arrays G K b t token retrieved items_to_return 0 current_bucket_array room result_index = Spin"
| "snapshot_arrays G K b t token retrieved items_to_return (Suc n) current_bucket_array room result_index =
     (if current_bucket_array = null then Done (All_Copied, result_index)
      else
        call (on_array current_bucket_array (cas next_bucket next_bucket_update null null)) (\<lambda>next_bucket_array.
        call (on_array current_bucket_array (add_fetch array_item_count array_item_count_update 0)) (\<lambda>items_in_array.
        if items_in_array \<noteq> 0 then
          call (on_array current_bucket_array (add_fetch array_bucket_count array_bucket_count_update 0)) (\<lambda>count_of_buckets.
          call (snapshot_buckets G K b t token retrieved items_to_return b current_bucket_array count_of_buckets 0 room result_index)
            (\<lambda>(e, room, result_index).
          if e \<noteq> All_Copied then Done (e, result_index)
          else snapshot_arrays G K b t token retrieved items_to_return n next_bucket_array room result_index))
        else snapshot_arrays G K b t token retrieved items_to_return n next_bucket_array room result_index)))"

fun release_snapshot :: "'v ht_user csl_callbacks \<Rightarrow> nat \<Rightarrow> ptr \<Rightarrow> 64 word \<Rightarrow> 64 word \<Rightarrow> ('q, 'v ht_user, 'a, unit) csl_prog" where
  "release_snapshot K 0 items_to_return result_index i = Spin"
| "release_snapshot K (Suc n) items_to_return result_index i =
     (if i < result_index then
        call (load (item_slot items_to_return i)) (\<lambda>item.
        call (clds_sorted_list_node_release K item) (\<lambda>_.
        release_snapshot K n items_to_return result_index (i + 1)))
      else Done ())"

text \<open>\<open>retrieved\<close> is the address of the local variable \<open>retrieved_item_count\<close>.\<close>

definition clds_hash_table_snapshot :: "'v ht_callbacks \<Rightarrow> 'v ht_user csl_callbacks \<Rightarrow> nat \<Rightarrow> ptr \<Rightarrow> ptr \<Rightarrow> ptr \<Rightarrow> ptr \<Rightarrow> ptr \<Rightarrow> ptr \<Rightarrow>
    ('q, 'v, 'a, ht_snapshot_result) ht_prog" where
  "clds_hash_table_snapshot G K b retrieved h t items item_count token =
     (if h = null \<or> t = null \<or> items = null \<or> item_count = null then Done CLDS_HASH_TABLE_SNAPSHOT_ERROR
      else
        call (internal_lock_writes b (table_lock h)) (\<lambda>_.
        call (on_table h (cas first_hash_table first_hash_table_update null null)) (\<lambda>first_bucket_array.
        call (sum_item_counts b first_bucket_array 0) (\<lambda>temp_item_count.
        call (if temp_item_count = 0 then
                call (store items null) (\<lambda>_.
                call (store item_count 0) (\<lambda>_.
                Done CLDS_HASH_TABLE_SNAPSHOT_OK))
              else
                call (malloc_cells temp_item_count) (\<lambda>items_to_return.
                if items_to_return = null then Done CLDS_HASH_TABLE_SNAPSHOT_ERROR
                else
                  call (on_table h (cas first_hash_table first_hash_table_update null null)) (\<lambda>current_bucket_array.
                  call (snapshot_arrays G K b t token retrieved items_to_return b current_bucket_array temp_item_count 0)
                    (\<lambda>(e, result_index).
                  if e \<noteq> All_Copied then
                    call (release_snapshot K b items_to_return result_index 0) (\<lambda>_.
                    call (free_cells items_to_return temp_item_count) (\<lambda>_.
                    Done (if e = Copy_Canceled then CLDS_HASH_TABLE_SNAPSHOT_ABANDONED else CLDS_HASH_TABLE_SNAPSHOT_ERROR)))
                  else
                    call (store items items_to_return) (\<lambda>_.
                    call (store item_count result_index) (\<lambda>_.
                    Done CLDS_HASH_TABLE_SNAPSHOT_OK)))))) (\<lambda>result.
        call (internal_unlock_writes (table_lock h)) (\<lambda>_.
        Done result))))))"


end
