(* ===== verification/Hash_Table_Levels.thy ===== *)
theory Hash_Table_Levels
  imports Clds_Hash_Table Sorted_List_Snapshots
begin

text \<open>
  The invariant of a hash table: its levels, the sorted lists in their buckets, and what the
  operations of the sorted list on one bucket do to it.
\<close>

section \<open>The caller's functions\<close>

text \<open>
  What is asked of the caller: the comparison of keys is a total preorder, and the addresses of the
  functions of the program are not null.
\<close>

definition ht_callbacks_ok :: "'v ht_callbacks \<Rightarrow> bool" where
  "ht_callbacks_ok G \<longleftrightarrow> (\<forall>f k k'. sgn (compare_func G f k' k) = - sgn (compare_func G f k k')) \<and>
     (\<forall>f k k' k''. compare_func G f k k' \<le> 0 \<longrightarrow> compare_func G f k' k'' \<le> 0 \<longrightarrow> compare_func G f k k'' \<le> 0) \<and>
     get_item_key_function G \<noteq> null \<and> key_compare_function G \<noteq> null \<and> skipped_seq_no_function G \<noteq> null"

abbreviation table_cmp :: "'v ht_callbacks \<Rightarrow> clds_hash_table \<Rightarrow> ptr \<Rightarrow> ptr \<Rightarrow> int" where
  "table_cmp G T \<equiv> compare_func G (table_key_compare_func T)"

abbreviation table_hash :: "'v ht_callbacks \<Rightarrow> clds_hash_table \<Rightarrow> ptr \<Rightarrow> 64 word" where
  "table_hash G T \<equiv> compute_hash G (table_compute_hash T)"

text \<open>Keys that compare equal have the same hash.\<close>

definition hash_respects :: "'v ht_callbacks \<Rightarrow> clds_hash_table \<Rightarrow> bool" where
  "hash_respects G T \<longleftrightarrow> (\<forall>k k'. table_cmp G T k k' = 0 \<longrightarrow> table_hash G T k = table_hash G T k')"

text \<open>The functions of the caller only act on its own part of the state.\<close>

definition only_client :: "'v ht_user \<Rightarrow> 'v ht_user \<Rightarrow> bool" where
  "only_client u u' \<longleftrightarrow> ht_items u' = ht_items u \<and> ht_tables u' = ht_tables u"

lemma only_client_refl [simp]: "only_client u u"
  by (simp add: only_client_def)

lemma only_client_trans: "only_client u u' \<Longrightarrow> only_client u' u'' \<Longrightarrow> only_client u u''"
  by (simp add: only_client_def)

lemma only_client_callbacks [simp]:
  "only_client u (item_cleanup (list_callbacks G rf) f c x u)" "only_client u (skipped_seq_no (list_callbacks G rf) f c v u)"
  "only_client u (snd (condition_check (list_callbacks G rf) f c k k' u))" "only_client u (skipped_user (list_callbacks G rf) S v u)"
  by (simp_all add: only_client_def list_callbacks_def sorted_list_item_cleanup_def on_sorted_list_skipped_seq_no_def skipped_user_def
      split: option.splits prod.splits)

lemma cleanups_client:
  assumes "cleanups (list_callbacks G rf) u u'"
  shows "only_client u u'"
proof -
  have step: "only_client u (fold (\<lambda>(f, c, x). item_cleanup (list_callbacks G rf) f c x) cs u)" for cs
  proof (induction cs arbitrary: u)
    case (Cons c cs)
    show ?case by (cases c) (simp add: only_client_trans [OF only_client_callbacks(1) Cons.IH])
  qed simp
  obtain cs where cs: "u' = fold (\<lambda>(f, c, x). item_cleanup (list_callbacks G rf) f c x) cs u"
    using assms unfolding cleanups_def by (elim exE)
  show ?thesis unfolding cs by (rule step)
qed

lemma list_callbacks_fields [simp]:
  "get_item_key (list_callbacks G rf) f c x u = get_item_key_cb x u" "key_compare (list_callbacks G rf) f c k k' u = key_compare_cb G c k k' u"
  "reclaim_list_node_function (list_callbacks G rf) = rf"
  by (simp_all add: list_callbacks_def)

lemma only_client_key: "only_client u u' \<Longrightarrow> get_item_key_cb x u' = get_item_key_cb x u"
  and only_client_compare: "only_client u u' \<Longrightarrow> key_compare_cb G c k k' u' = key_compare_cb G c k k' u"
  by (simp_all add: only_client_def get_item_key_cb_def key_compare_cb_def)

lemma list_callbacks_ok:
  assumes "ht_callbacks_ok G"
  shows "callbacks_ok (list_callbacks G rf)"
proof -
  have s: "sgn (compare_func G f k' k) = - sgn (compare_func G f k k')" for f k k' using assms unfolding ht_callbacks_ok_def by blast
  have t: "compare_func G f k k'' \<le> 0" if "compare_func G f k k' \<le> 0" "compare_func G f k' k'' \<le> 0" for f k k' k''
    using assms that unfolding ht_callbacks_ok_def by blast
  show ?thesis
    unfolding callbacks_ok_def
  proof (intro conjI allI impI)
    show "sgn (cmp (list_callbacks G rf) L u k' k) = - sgn (cmp (list_callbacks G rf) L u k k')" for L u k k'
      by (auto simp: cmp_def key_compare_cb_def intro: s split: option.splits)
    show "cmp (list_callbacks G rf) L u k k'' \<le> 0" if "cmp (list_callbacks G rf) L u k k' \<le> 0" "cmp (list_callbacks G rf) L u k' k'' \<le> 0" for L u k k' k''
      using that t by (auto simp: cmp_def key_compare_cb_def split: option.splits)
  qed (simp_all add: cmp_def key_of_def only_client_callbacks [THEN only_client_key] only_client_callbacks [THEN only_client_compare])
qed

section \<open>Levels\<close>

text \<open>The struct of the bucket lists of a table, as \<open>clds_sorted_list_create\<close> fills it.\<close>

definition bucket_struct :: "'v ht_callbacks \<Rightarrow> ptr \<Rightarrow> clds_hash_table \<Rightarrow> clds_sorted_list" where
  "bucket_struct G h T = \<lparr>locked_for_write = 0, pending_write_operations = 0, list_hazard_pointers = table_hazard_pointers T, list_head = null,
     get_item_key_cb = get_item_key_function G, get_item_key_cb_context = h, key_compare_cb = key_compare_function G,
     key_compare_cb_context = h, sequence_number = table_sequence_number T,
     skipped_seq_no_cb = (if table_sequence_number T = null then null else skipped_seq_no_function G), skipped_seq_no_cb_context = h\<rparr>"

text \<open>A level: the address of a bucket array, the array, and the items in each of its buckets.\<close>

type_synonym level = "ptr \<times> bucket_array \<times> ptr list list"

definition bucket_lists :: "clds_sorted_list \<Rightarrow> bucket_array \<Rightarrow> ptr list list \<Rightarrow> (ptr \<times> clds_sorted_list \<times> ptr list) list" where
  "bucket_lists S A xss = map (\<lambda>(p, xs). (p, S, xs)) (filter (\<lambda>(p, xs). p \<noteq> null) (zip (hash_table A) xss))"

definition level_lists :: "clds_sorted_list \<Rightarrow> level list \<Rightarrow> (ptr \<times> clds_sorted_list \<times> ptr list) list" where
  "level_lists S lvs = concat (map (\<lambda>(a, A, xss). bucket_lists S A xss) lvs)"

definition level_items :: "level list \<Rightarrow> ptr list" where
  "level_items lvs = concat (map (\<lambda>(a, A, xss). concat xss) lvs)"

lemma level_items_simps [simp]:
  "level_items [] = []" "level_items ((a, A, xss) # lvs) = concat xss @ level_items lvs"
  "level_items (lvs @ lvs') = level_items lvs @ level_items lvs'"
  by (simp_all add: level_items_def)

lemma level_lists_simps [simp]:
  "level_lists S [] = []" "level_lists S ((a, A, xss) # lvs) = bucket_lists S A xss @ level_lists S lvs"
  "level_lists S (lvs @ lvs') = level_lists S lvs @ level_lists S lvs'"
  by (simp_all add: level_lists_def)

text \<open>The shape of one array: every item is in the bucket of its hash, and a bucket without a list is empty.\<close>

definition array_ok :: "'v ht_callbacks \<Rightarrow> clds_hash_table \<Rightarrow> 'v ht_user \<Rightarrow> bucket_array \<Rightarrow> ptr list list \<Rightarrow> bool" where
  "array_ok G T u A xss \<longleftrightarrow> 0 < sint (array_bucket_count A) \<and> length (hash_table A) = nat (sint (array_bucket_count A)) \<and>
     length xss = length (hash_table A) \<and> (\<forall>i < length xss. hash_table A ! i = null \<longrightarrow> xss ! i = []) \<and>
     (\<forall>i < length xss. \<forall>x \<in> set (xss ! i). slot_index (table_hash G T (get_item_key_cb x u)) (array_bucket_count A) = i)"

definition level_others :: "'v ht_callbacks \<Rightarrow> ptr \<Rightarrow> clds_hash_table \<Rightarrow> level list \<Rightarrow> ptr set \<Rightarrow> 'a \<Rightarrow> 'a others" where
  "level_others G h T lvs E m = \<lparr>other_lists = level_lists (bucket_struct G h T) lvs, other_objects = insert h (fst ` set lvs) \<union> E, other_memory = m\<rparr>"

text \<open>
  \<open>levels_ok G rf h T lvs E U R M s\<close>: the table at \<open>h\<close> has the struct \<open>T\<close> (up to the pointer to its first
  array) and the levels \<open>lvs\<close>; \<open>E\<close> are other objects of the client, \<open>U x\<close> its references to items, \<open>R\<close>
  the reclaim calls owed, \<open>M\<close> its memory. The sorted lists are exactly those in the buckets.
\<close>

definition levels_ok :: "'v ht_callbacks \<Rightarrow> ptr \<Rightarrow> ptr \<Rightarrow> clds_hash_table \<Rightarrow> level list \<Rightarrow> ptr set \<Rightarrow> (ptr \<Rightarrow> nat) \<Rightarrow> (ptr \<times> ptr) multiset \<Rightarrow> ptr set \<Rightarrow>
    ('q, 'v, 'a) ht_mem_scheme \<Rightarrow> bool" where
  "levels_ok G rf h T lvs E U R M s \<longleftrightarrow> h \<noteq> null \<and> ht_tables (user s) h = Some (T\<lparr>first_hash_table := first_of (map fst lvs)\<rparr>) \<and>
     heap_chain (\<lambda>a. map_option next_bucket (ht_arrays s a)) (first_of (map fst lvs)) (map fst lvs) \<and>
     (\<forall>(a, A, xss) \<in> set lvs. ht_arrays s a = Some A \<and> array_ok G T (user s) A xss) \<and>
     (\<forall>x \<in> set (level_items lvs). ht_items (user s) x \<noteq> None) \<and>
     lists_ok (level_others G h T lvs E (csl_mem.more s)) (list_callbacks G rf) U R M s"

text \<open>What is also true between two operations: the counts are exact, nothing is pending.\<close>

definition none_pending :: "level list \<Rightarrow> bool" where
  "none_pending lvs \<longleftrightarrow> (\<forall>(a, A, xss) \<in> set lvs. pending_insert_count A = 0)"

definition counts_ok :: "level list \<Rightarrow> bool" where
  "counts_ok lvs \<longleftrightarrow> (\<forall>(a, A, xss) \<in> set lvs. length (concat xss) < 2 ^ 31 \<and>
     array_item_count A = of_nat (length (concat xss)))"

text \<open>No key is in the table twice.\<close>

definition unique_keys :: "'v ht_callbacks \<Rightarrow> clds_hash_table \<Rightarrow> 'v ht_user \<Rightarrow> ptr list \<Rightarrow> bool" where
  "unique_keys G T u xs \<longleftrightarrow> (\<forall>x \<in> set xs. \<forall>y \<in> set xs. table_cmp G T (get_item_key_cb x u) (get_item_key_cb y u) = 0 \<longrightarrow> x = y)"

section \<open>One bucket among the others\<close>

lemma listed_perm: "mset (other_lists Os') = mset (other_lists Os) \<Longrightarrow> listed Os' x = listed Os x"
proof -
  assume m: "mset (other_lists Os') = mset (other_lists Os)"
  have "size (filter_mset (\<lambda>(l, L, xs). x \<in> set xs) (mset (other_lists Os'))) = size (filter_mset (\<lambda>(l, L, xs). x \<in> set xs) (mset (other_lists Os)))"
    by (simp only: m)
  then show "listed Os' x = listed Os x" by (simp add: listed_def flip: mset_filter)
qed

lemma lists_ok_perm:
  assumes m: "mset (other_lists Os') = mset (other_lists Os)" and same: "other_objects Os' = other_objects Os" "other_memory Os' = other_memory Os"
  shows "lists_ok Os' K U R M s = lists_ok Os K U R M s"
proof -
  have "mset (map fst (other_lists Os')) = mset (map fst (other_lists Os))" using m by simp
  then have d: "distinct (map fst (other_lists Os')) = distinct (map fst (other_lists Os))" by (rule mset_eq_imp_distinct_iff)
  have l: "listed Os' x = listed Os x" for x using m by (rule listed_perm)
  have s: "set (other_lists Os') = set (other_lists Os)" using m by (rule mset_eq_setD)
  show ?thesis unfolding lists_ok_def d l s same ..
qed

lemma lists_ok_memory:
  assumes ok: "lists_ok Os K U R M s" and same: "csl_items s' = csl_items s" "csl_lists s' = csl_lists s" "user s' = user s"
  shows "lists_ok (Os\<lparr>other_memory := csl_mem.more s'\<rparr>) K U R M s'"
proof -
  have "refs s' = refs s" using same(1) by (simp add: fun_eq_iff refs_def)
  moreover have "listed (Os\<lparr>other_memory := csl_mem.more s'\<rparr>) x = listed Os x" for x by (simp add: listed_def)
  moreover have "sorted_list_at K l L xs M s' = sorted_list_at K l L xs M s" for l L xs
    using same by (simp add: sorted_list_at_def list_at_def)
  ultimately show ?thesis using ok same unfolding lists_ok_def by simp
qed

lemma ht_arrays_cong: "csl_mem.more s' = csl_mem.more s \<Longrightarrow> ht_arrays s' = ht_arrays s"
  by (cases s; cases s') simp

lemma bucket_split:
  assumes "length xss = length (hash_table A)" and "i < length xss" and "hash_table A ! i = p" and "p \<noteq> null"
  obtains rest where "\<And>ys. mset (bucket_lists S A (xss[i := ys])) = add_mset (p, S, ys) (mset rest)"
proof -
  let ?z = "zip (hash_table A) xss" and ?f = "\<lambda>z. map (\<lambda>(p, xs). (p, S, xs)) (filter (\<lambda>(p, xs). p \<noteq> null) z)"
  have "zip (hash_table A) (xss[i := ys]) = take i ?z @ (p, ys) # drop (Suc i) ?z" for ys
  proof -
    have "(hash_table A)[i := p] = hash_table A" using assms(3) list_update_id by metis
    then have "zip (hash_table A) (xss[i := ys]) = zip ((hash_table A)[i := p]) (xss[i := ys])" by simp
    also have "\<dots> = ?z[i := (p, ys)]" by (simp add: zip_update)
    finally show ?thesis using assms by (simp add: upd_conv_take_nth_drop)
  qed
  then have "bucket_lists S A (xss[i := ys]) = ?f (take i ?z) @ (p, S, ys) # ?f (drop (Suc i) ?z)" for ys
    using assms(4) by (simp add: bucket_lists_def)
  then show ?thesis by (intro that [of "?f (take i ?z) @ ?f (drop (Suc i) ?z)"]) simp
qed

lemma level_split:
  assumes "lvs = lv1 @ (a, A, xss) # lv2" and "length xss = length (hash_table A)" and "i < length xss" and "hash_table A ! i = p" and "p \<noteq> null"
  obtains rest where "\<And>ys. mset (level_lists S (lv1 @ (a, A, xss[i := ys]) # lv2)) = add_mset (p, S, ys) (mset rest)"
proof -
  obtain r where r: "\<And>ys. mset (bucket_lists S A (xss[i := ys])) = add_mset (p, S, ys) (mset r)"
    by (rule bucket_split [OF assms(2-5), where S = S]) (rule that)
  show ?thesis by (rule that [of "level_lists S lv1 @ r @ level_lists S lv2"]) (simp add: r)
qed

lemma levels_okD:
  assumes "levels_ok G rf h T lvs E U R M s"
  shows "h \<noteq> null" "ht_tables (user s) h = Some (T\<lparr>first_hash_table := first_of (map fst lvs)\<rparr>)"
    "heap_chain (\<lambda>a. map_option next_bucket (ht_arrays s a)) (first_of (map fst lvs)) (map fst lvs)"
    "(a, A, xss) \<in> set lvs \<Longrightarrow> ht_arrays s a = Some A" "(a, A, xss) \<in> set lvs \<Longrightarrow> array_ok G T (user s) A xss"
    "x \<in> set (level_items lvs) \<Longrightarrow> ht_items (user s) x \<noteq> None"
    "lists_ok (level_others G h T lvs E (csl_mem.more s)) (list_callbacks G rf) U R M s"
  using assms unfolding levels_ok_def by auto

lemma array_okD:
  assumes "array_ok G T u A xss"
  shows "0 < sint (array_bucket_count A)" "length (hash_table A) = nat (sint (array_bucket_count A))" "length xss = length (hash_table A)"
    "i < length xss \<Longrightarrow> hash_table A ! i = null \<Longrightarrow> xss ! i = []"
    "i < length xss \<Longrightarrow> x \<in> set (xss ! i) \<Longrightarrow> slot_index (table_hash G T (get_item_key_cb x u)) (array_bucket_count A) = i"
  using assms unfolding array_ok_def by auto

lemma array_ok_client: "only_client u u' \<Longrightarrow> array_ok G T u' A xss = array_ok G T u A xss"
  by (simp add: array_ok_def only_client_key)

text \<open>The items of the levels are the items of their lists.\<close>

lemma in_bucket_lists:
  assumes "length xss = length (hash_table A)" and "\<And>i. i < length xss \<Longrightarrow> hash_table A ! i = null \<Longrightarrow> xss ! i = []"
  shows "x \<in> set (concat xss) \<longleftrightarrow> (\<exists>(l, L, xs) \<in> set (bucket_lists S A xss). x \<in> set xs)"
proof
  assume "x \<in> set (concat xss)"
  then obtain ys where ys: "ys \<in> set xss" "x \<in> set ys" by auto
  from ys(1) obtain i where "i < length xss" "xss ! i = ys" by (auto simp: in_set_conv_nth)
  with ys(2) have i: "i < length xss" "x \<in> set (xss ! i)" by simp_all
  then have "hash_table A ! i \<noteq> null" using assms(2) by force
  moreover have "(hash_table A ! i, xss ! i) \<in> set (zip (hash_table A) xss)" using i(1) assms(1) by (auto simp: set_zip)
  ultimately show "\<exists>(l, L, xs) \<in> set (bucket_lists S A xss). x \<in> set xs" using i(2) by (force simp: bucket_lists_def)
next
  assume "\<exists>(l, L, xs) \<in> set (bucket_lists S A xss). x \<in> set xs"
  then show "x \<in> set (concat xss)" by (auto simp: bucket_lists_def dest: set_zip_rightD)
qed

lemma in_level_lists:
  assumes "\<And>a A xss. (a, A, xss) \<in> set lvs \<Longrightarrow> array_ok G T u A xss"
  shows "x \<in> set (level_items lvs) \<longleftrightarrow> (\<exists>(l, L, xs) \<in> set (level_lists S lvs). x \<in> set xs)"
  using assms
proof (induction lvs)
  case (Cons v lvs)
  obtain a A xss where v: "v = (a, A, xss)" by (cases v)
  have "array_ok G T u A xss" using Cons.prems [of a A xss] v by simp
  note A = array_okD(3,4) [OF this]
  have "x \<in> set (level_items lvs) \<longleftrightarrow> (\<exists>(l, L, xs) \<in> set (level_lists S lvs). x \<in> set xs)"
    by (rule Cons.IH) (use Cons.prems in auto)
  moreover have "x \<in> set (concat xss) \<longleftrightarrow> (\<exists>(l, L, xs) \<in> set (bucket_lists S A xss). x \<in> set xs)" by (rule in_bucket_lists [OF A])
  ultimately show ?case by (simp only: v level_items_simps level_lists_simps set_append bex_Un Un_iff)
qed simp

lemma listed_levels:
  assumes ok: "levels_ok G rf h T lvs E U R M s"
  shows "listed (level_others G h T lvs E m) x = of_bool (x \<in> set (level_items lvs))"
proof -
  have "listed (level_others G h T lvs E (csl_mem.more s)) x \<le> 1" by (rule lists_okD(8) [OF levels_okD(7) [OF ok]])
  moreover have "listed (level_others G h T lvs E m) x = listed (level_others G h T lvs E (csl_mem.more s)) x" by (simp add: listed_def level_others_def)
  moreover have "0 < listed (level_others G h T lvs E m) x \<longleftrightarrow> x \<in> set (level_items lvs)"
    using in_level_lists [where lvs = lvs and G = G and T = T and u = "user s" and S = "bucket_struct G h T" and x = x, OF levels_okD(5) [OF ok]]
    by (auto simp: listed_def level_others_def filter_empty_conv)
  ultimately show ?thesis by (cases "x \<in> set (level_items lvs)") simp_all
qed

text \<open>The list in the bucket \<open>i\<close> of a level, with all others aside, and the way back.\<close>

lemma levels_bucket:
  fixes s :: "('q, 'v, 'a) ht_mem_scheme"
  assumes ok: "levels_ok G rf h T lvs E U R M s" and lvs: "lvs = lv1 @ (a, A, xss) # lv2" and i: "i < length xss"
    and p: "hash_table A ! i = p" "p \<noteq> null"
  obtains Os where "csl_ok Os (list_callbacks G rf) p (bucket_struct G h T) (xss ! i) U R M s"
    and "\<And>x. of_bool (x \<in> set (xss ! i)) + listed Os x = of_bool (x \<in> set (level_items lvs))"
    and "\<And>ys U' R' M' s'. csl_ok Os (list_callbacks G rf) p (bucket_struct G h T) ys U' R' M' (s' :: ('q, 'v, 'a) ht_mem_scheme) \<Longrightarrow>
      only_client (user s) (user s') \<Longrightarrow>
      (\<And>x. x \<in> set ys \<Longrightarrow> x \<in> set (xss ! i) \<or> ht_items (user s') x \<noteq> None \<and>
         slot_index (table_hash G T (get_item_key_cb x (user s'))) (array_bucket_count A) = i) \<Longrightarrow>
      levels_ok G rf h T (lv1 @ (a, A, xss[i := ys]) # lv2) E U' R' M' s'"
proof -
  let ?S = "bucket_struct G h T" and ?K = "list_callbacks G rf"
  have mem: "(a, A, xss) \<in> set lvs" by (simp add: lvs)
  note A = array_okD [OF levels_okD(5) [OF ok mem]]
  obtain rest where rest: "\<And>ys. mset (level_lists ?S (lv1 @ (a, A, xss[i := ys]) # lv2)) = add_mset (p, ?S, ys) (mset rest)"
    by (rule level_split [OF lvs A(3) i p, where S = ?S]) (rule that)
  define Os where "Os = \<lparr>other_lists = rest, other_objects = insert h (fst ` set lvs) \<union> E, other_memory = csl_mem.more s\<rparr>"
  have perm: "lists_ok (level_others G h T (lv1 @ (a, A, xss[i := ys]) # lv2) E (csl_mem.more s)) ?K U' R' M' s' =
      csl_ok Os ?K p ?S ys U' R' M' s'" for ys U' R' M' and s' :: "('q, 'v, 'a) ht_mem_scheme"
    unfolding csl_ok_lists by (rule lists_ok_perm) (use rest [of ys] in \<open>simp_all add: level_others_def Os_def with_list_def lvs\<close>)
  have ok1: "csl_ok Os ?K p ?S (xss ! i) U R M s"
    using perm [of "xss ! i"] levels_okD(7) [OF ok] by (simp add: lvs)
  show ?thesis
  proof (rule that [OF ok1])
    show "of_bool (x \<in> set (xss ! i)) + listed Os x = of_bool (x \<in> set (level_items lvs))" for x
    proof -
      have "mset (other_lists (with_list (p, ?S, xss ! i) Os)) = mset (other_lists (level_others G h T lvs E (csl_mem.more s)))"
        using rest [of "xss ! i"] by (simp add: level_others_def Os_def lvs)
      from listed_perm [OF this, of x] show ?thesis by (simp add: listed_levels [OF ok])
    qed
    fix ys U' R' M' and s' :: "('q, 'v, 'a) ht_mem_scheme"
    assume ok': "csl_ok Os ?K p ?S ys U' R' M' s'" and u: "only_client (user s) (user s')"
      and ys: "\<And>x. x \<in> set ys \<Longrightarrow> x \<in> set (xss ! i) \<or> ht_items (user s') x \<noteq> None \<and>
         slot_index (table_hash G T (get_item_key_cb x (user s'))) (array_bucket_count A) = i"
    have more: "csl_mem.more s' = csl_mem.more s" using csl_okD(13) [OF ok'] csl_okD(13) [OF ok1] by simp
    have arr: "ht_arrays s' = ht_arrays s" by (rule ht_arrays_cong [OF more])
    have new: "array_ok G T (user s') A (xss[i := ys])"
      using A ys p u i unfolding array_ok_def by (auto simp: nth_list_update only_client_key)
    have old: "array_ok G T (user s') A' xss'" if "(a', A', xss') \<in> set lvs" for a' A' xss'
      using levels_okD(5) [OF ok that] by (simp add: array_ok_client [OF u])
    have items: "ht_items (user s') x \<noteq> None" if "x \<in> set (level_items (lv1 @ (a, A, xss[i := ys]) # lv2))" for x
    proof -
      have "x \<in> set ys \<or> x \<in> set (level_items lvs)"
        using that set_update_subset_insert [of xss i ys] by (auto simp: lvs)
      then show ?thesis
      proof
        assume "x \<in> set ys"
        moreover have "ht_items (user s') x \<noteq> None" if "x \<in> set (xss ! i)"
          using levels_okD(6) [OF ok, of x] that nth_mem [OF i] u by (auto simp: lvs only_client_def)
        ultimately show ?thesis using ys by blast
      qed (use levels_okD(6) [OF ok, of x] u in \<open>simp add: only_client_def\<close>)
    qed
    have lists: "lists_ok (level_others G h T (lv1 @ (a, A, xss[i := ys]) # lv2) E (csl_mem.more s')) ?K U' R' M' s'"
      using ok' by (simp add: perm more)
    show "levels_ok G rf h T (lv1 @ (a, A, xss[i := ys]) # lv2) E U' R' M' s'"
      unfolding levels_ok_def
    proof (intro conjI lists)
      show "ht_tables (user s') h = Some (T\<lparr>first_hash_table := first_of (map fst (lv1 @ (a, A, xss[i := ys]) # lv2))\<rparr>)"
        using levels_okD(2) [OF ok] u by (simp add: lvs only_client_def)
      show "heap_chain (\<lambda>a. map_option next_bucket (ht_arrays s' a)) (first_of (map fst (lv1 @ (a, A, xss[i := ys]) # lv2)))
         (map fst (lv1 @ (a, A, xss[i := ys]) # lv2))"
        using levels_okD(3) [OF ok] arr by (simp add: lvs)
      show "\<forall>(a', A', xss') \<in> set (lv1 @ (a, A, xss[i := ys]) # lv2). ht_arrays s' a' = Some A' \<and> array_ok G T (user s') A' xss'"
        using levels_okD(4) [OF ok] arr new old mem by (fastforce simp: lvs)
    qed (use levels_okD(1) [OF ok] items in blast)+
  qed
qed


end
