(* ===== verification/Hash_Table_Steps.thy ===== *)
theory Hash_Table_Steps
  imports Hash_Table_Levels
begin

text \<open>
  What the accesses of the hash table itself do to its levels: the counts of a bucket array, the
  struct of the table, the key of an item, the list of a bucket and the growth of the table.
\<close>

section \<open>Frames\<close>

lemma hp_ok_arrays [simp]: "hp_ok X C (ht_arrays_update f s) t A R M = hp_ok X C s t A R M"
  by (auto elim!: hp_ok_client [rotated 2] simp: same_hp_def)

lemma plenty_same [simp]:
  "plenty k (ht_arrays_update f s) = plenty k s" "plenty k (csl_items_update f' s') = plenty k s'"
  "plenty k (csl_lists_update g s') = plenty k s'" "plenty k (words_update h s') = plenty k s'" "plenty k (user_update v s') = plenty k s'"
  by (simp_all add: plenty_def)

lemma lists_ok_user:
  assumes ok: "lists_ok Os K U R M s" and ord: "\<And>L x y. 0 < listed Os x \<Longrightarrow> 0 < listed Os y \<Longrightarrow> ord K L u x y = ord K L (user s) x y"
  shows "lists_ok Os K U R M (s\<lparr>user := u\<rparr>)"
proof -
  have "refs (s\<lparr>user := u\<rparr>) = refs s" by (simp add: refs_def fun_eq_iff)
  then show ?thesis using lists_okD(2,3,4) [OF ok] ord by (intro lists_ok_step [OF ok]) auto
qed

lemma level_others_simps [simp]:
  "other_objects (level_others G h T lvs E m) = insert h (fst ` set lvs) \<union> E" "other_memory (level_others G h T lvs E m) = m"
  "other_lists (level_others G h T lvs E m) = level_lists (bucket_struct G h T) lvs"
  "(level_others G h T lvs E m)\<lparr>other_memory := m'\<rparr> = level_others G h T lvs E m'"
  by (simp_all add: level_others_def)

lemma levels_distinct: "levels_ok G rf h T lvs E U R M s \<Longrightarrow> distinct (map fst lvs)"
  using heap_chain_distinct [OF levels_okD(3)] .

lemma levels_memory:
  assumes "levels_ok G rf h T lvs E U R M s"
  shows "h \<in> M" "a \<in> fst ` set lvs \<Longrightarrow> a \<in> M" "a \<in> E \<Longrightarrow> a \<in> M" "csl_items s h = None"
  using lists_okD(5) [OF levels_okD(7) [OF assms]] by auto

lemma levels_okI:
  assumes "h \<noteq> null" and "ht_tables (user s) h = Some (T\<lparr>first_hash_table := first_of (map fst lvs)\<rparr>)"
    and "heap_chain (\<lambda>a. map_option next_bucket (ht_arrays s a)) (first_of (map fst lvs)) (map fst lvs)"
    and "\<And>a A xss. (a, A, xss) \<in> set lvs \<Longrightarrow> ht_arrays s a = Some A \<and> array_ok G T (user s) A xss"
    and "\<And>x. x \<in> set (level_items lvs) \<Longrightarrow> ht_items (user s) x \<noteq> None"
    and "lists_ok (level_others G h T lvs E (csl_mem.more s)) (list_callbacks G rf) U R M s"
  shows "levels_ok G rf h T lvs E U R M s"
  unfolding levels_ok_def using assms by (intro conjI ballI) auto

text \<open>The arrays after a write to one of them.\<close>

lemma levels_written:
  assumes ok: "levels_ok G rf h T (lv1 @ (a, A, xss) # lv2) E U R M s" and A': "array_ok G T (user s) A' xss" "next_bucket A' = next_bucket A"
    and s': "ht_arrays s' = (ht_arrays s)(a \<mapsto> A')" "user s' = user s"
    and lists: "lists_ok (level_others G h T (lv1 @ (a, A', xss) # lv2) E (csl_mem.more s')) (list_callbacks G rf) U R M' s'"
  shows "levels_ok G rf h T (lv1 @ (a, A', xss) # lv2) E U R M' s'"
proof (rule levels_okI [OF _ _ _ _ _ lists])
  have at: "ht_arrays s a = Some A" by (rule levels_okD(4) [OF ok, where xss = xss]) simp
  have "(\<lambda>x. map_option next_bucket (ht_arrays s' x)) = (\<lambda>x. map_option next_bucket (ht_arrays s x))"
    using at A'(2) s'(1) by auto
  then show "heap_chain (\<lambda>a. map_option next_bucket (ht_arrays s' a)) (first_of (map fst (lv1 @ (a, A', xss) # lv2))) (map fst (lv1 @ (a, A', xss) # lv2))"
    using levels_okD(3) [OF ok] by simp
  have a: "a \<notin> fst ` set lv1" "a \<notin> fst ` set lv2" using levels_distinct [OF ok] by auto
  fix b B yss
  assume mem: "(b, B, yss) \<in> set (lv1 @ (a, A', xss) # lv2)"
  show "ht_arrays s' b = Some B \<and> array_ok G T (user s') B yss"
  proof (cases "b = a")
    case True
    then show ?thesis using mem a A' s' by (auto simp: image_iff)
  next
    case False
    then have "(b, B, yss) \<in> set (lv1 @ (a, A, xss) # lv2)" using mem by simp
    with levels_okD(4,5) [OF ok this] False s' show ?thesis by simp
  qed
qed (use levels_okD(1,2) [OF ok] levels_okD(6) [OF ok] s'(2) in simp_all)

section \<open>Writes\<close>

text \<open>A write to an array that keeps its shape.\<close>

lemma levels_ok_array:
  assumes ok: "levels_ok G rf h T (lv1 @ (a, A, xss) # lv2) E U R M s"
    and A': "next_bucket A' = next_bucket A" "array_bucket_count A' = array_bucket_count A" "hash_table A' = hash_table A"
  shows "levels_ok G rf h T (lv1 @ (a, A', xss) # lv2) E U R M (s\<lparr>ht_arrays := (ht_arrays s)(a \<mapsto> A')\<rparr>)"
proof (rule levels_written [OF ok _ A'(1)])
  let ?s = "s\<lparr>ht_arrays := (ht_arrays s)(a \<mapsto> A')\<rparr>"
  have "array_ok G T (user s) A xss" by (rule levels_okD(5) [OF ok, where a = a]) simp
  then show "array_ok G T (user s) A' xss" using A' by (simp add: array_ok_def)
  have lists: "level_lists (bucket_struct G h T) (lv1 @ (a, A', xss) # lv2) = level_lists (bucket_struct G h T) (lv1 @ (a, A, xss) # lv2)"
    using A'(3) by (simp add: bucket_lists_def)
  show "lists_ok (level_others G h T (lv1 @ (a, A', xss) # lv2) E (csl_mem.more ?s)) (list_callbacks G rf) U R M ?s"
    using lists_ok_memory [OF levels_okD(7) [OF ok], of ?s] unfolding level_others_def lists by simp
qed simp_all

text \<open>A write to the client's part of the state that the order of the items does not depend on.\<close>

lemma levels_ok_user:
  assumes ok: "levels_ok G rf h T lvs E U R M s"
    and T': "ht_tables u h = Some (T'\<lparr>first_hash_table := first_of (map fst lvs)\<rparr>)" "bucket_struct G h T' = bucket_struct G h T"
      "table_compute_hash T' = table_compute_hash T"
    and items: "\<And>x. x \<in> set (level_items lvs) \<Longrightarrow> ht_items u x \<noteq> None \<and> get_item_key_cb x u = get_item_key_cb x (user s)"
    and compare: "\<And>c k k'. key_compare_cb G c k k' u = key_compare_cb G c k k' (user s)"
  shows "levels_ok G rf h T' lvs E U R M (s\<lparr>user := u\<rparr>)"
proof -
  have arr: "array_ok G T' u A xss" if "(a, A, xss) \<in> set lvs" for a A xss
  proof -
    have "get_item_key_cb x u = get_item_key_cb x (user s)" if "i < length xss" "x \<in> set (xss ! i)" for i x
    proof -
      have "x \<in> set (level_items lvs)" using \<open>(a, A, xss) \<in> set lvs\<close> that nth_mem [OF that(1)] by (force simp: level_items_def)
      then show ?thesis using items by blast
    qed
    then show ?thesis using levels_okD(5) [OF ok that] T'(3) by (simp add: array_ok_def)
  qed
  have "lists_ok (level_others G h T lvs E (csl_mem.more s)) (list_callbacks G rf) U R M (s\<lparr>user := u\<rparr>)"
  proof (rule lists_ok_user [OF levels_okD(7) [OF ok]])
    fix L x y
    assume "0 < listed (level_others G h T lvs E (csl_mem.more s)) x" "0 < listed (level_others G h T lvs E (csl_mem.more s)) y"
    then have "x \<in> set (level_items lvs)" "y \<in> set (level_items lvs)" by (simp_all add: listed_levels [OF ok] split: if_splits)
    then show "ord (list_callbacks G rf) L u x y = ord (list_callbacks G rf) L (user s) x y"
      using items compare by (simp add: key_of_def cmp_def)
  qed
  then have "lists_ok (level_others G h T' lvs E (csl_mem.more s)) (list_callbacks G rf) U R M (s\<lparr>user := u\<rparr>)"
    by (simp add: level_others_def T'(2))
  then show ?thesis
    unfolding levels_ok_def using levels_okD(1,3,4) [OF ok] T'(1) arr items by auto
qed


text \<open>The table's lock, and the key of an item that is not in the table.\<close>

definition table_at :: "ptr \<Rightarrow> clds_hash_table \<Rightarrow> ('q, 'v ht_user, 'a) csl_mem_scheme \<Rightarrow> ('q, 'v ht_user, 'a) csl_mem_scheme" where
  "table_at h T s = s\<lparr>user := (user s)\<lparr>ht_tables := (ht_tables (user s))(h \<mapsto> T)\<rparr>\<rparr>"

lemma levels_ok_lock:
  assumes ok: "levels_ok G rf h T lvs E U R M s"
  shows "levels_ok G rf h (T\<lparr>locked_for_write := v, pending_write_operations := w\<rparr>) lvs E U R M
    (table_at h (T\<lparr>first_hash_table := first_of (map fst lvs), locked_for_write := v, pending_write_operations := w\<rparr>) s)"
  unfolding table_at_def
proof (rule levels_ok_user [OF ok])
  show "key_compare_cb G c k k' ((user s)\<lparr>ht_tables := (ht_tables (user s))(h \<mapsto>
      T\<lparr>first_hash_table := first_of (map fst lvs), locked_for_write := v, pending_write_operations := w\<rparr>)\<rparr>) = key_compare_cb G c k k' (user s)" for c k k'
    using levels_okD(2) [OF ok] by (simp add: key_compare_cb_def)
qed (use levels_okD(6) [OF ok] in \<open>simp_all add: bucket_struct_def get_item_key_cb_def\<close>)

definition with_key :: "ptr \<Rightarrow> ptr \<Rightarrow> ('q, 'v ht_user, 'a) csl_mem_scheme \<Rightarrow> ('q, 'v ht_user, 'a) csl_mem_scheme" where
  "with_key x k s = s\<lparr>user := (user s)\<lparr>ht_items := (ht_items (user s))(x := map_option (ht_key_update (\<lambda>_. k)) (ht_items (user s) x))\<rparr>\<rparr>"

lemma levels_ok_key:
  assumes ok: "levels_ok G rf h T lvs E U R M s" and x: "x \<notin> set (level_items lvs)"
  shows "levels_ok G rf h T lvs E U R M (with_key x k s)"
  unfolding with_key_def
proof (rule levels_ok_user [OF ok])
  fix y assume "y \<in> set (level_items lvs)"
  then show "ht_items ((user s)\<lparr>ht_items := (ht_items (user s))(x := map_option (ht_key_update (\<lambda>_. k)) (ht_items (user s) x))\<rparr>) y \<noteq> None \<and>
      get_item_key_cb y ((user s)\<lparr>ht_items := (ht_items (user s))(x := map_option (ht_key_update (\<lambda>_. k)) (ht_items (user s) x))\<rparr>) = get_item_key_cb y (user s)"
    using levels_okD(6) [OF ok, of y] x by (auto simp: get_item_key_cb_def)
qed (use levels_okD(2) [OF ok] in \<open>simp_all add: key_compare_cb_def\<close>)

lemma with_key_simps [simp]:
  "words (with_key x k s) = words s" "live (with_key x k s) = live s" "csl_items (with_key x k s) = csl_items s"
  "csl_lists (with_key x k s) = csl_lists s" "csl_mem.more (with_key x k s) = csl_mem.more s" "plenty n (with_key x k s) = plenty n s"
  "hp_ok X C (with_key x k s) t A R M = hp_ok X C s t A R M" "client (user (with_key x k s)) = client (user s)"
  "ht_tables (user (with_key x k s)) = ht_tables (user s)"
  by (simp_all add: with_key_def)

lemma key_with_key: "ht_items (user s) x \<noteq> None \<Longrightarrow> get_item_key_cb x (user (with_key x k s)) = k"
  and key_with_key_other: "y \<noteq> x \<Longrightarrow> get_item_key_cb y (user (with_key x k s)) = get_item_key_cb y (user s)"
  by (auto simp: with_key_def get_item_key_cb_def)

lemma wp_write_key:
  "csl_items s x \<noteq> None \<Longrightarrow> ht_items (user s) x \<noteq> None \<Longrightarrow> wp (on_item x (wr ht_key_update k)) Q s = Q () (with_key x k s)"
  by (cases s) (auto simp: on_item_def wp_access wr_def with_key_def)

text \<open>A list in a bucket that had none.\<close>

lemma levels_ok_slot:
  fixes s :: "('q, 'v, 'a) ht_mem_scheme"
  assumes ok: "levels_ok G rf h T (lv1 @ (a, A, xss) # lv2) E U R M s" and i: "i < length xss" "hash_table A ! i = null"
    and s1: "csl_ok (level_others G h T (lv1 @ (a, A, xss) # lv2) E (csl_mem.more s)) (list_callbacks G rf) l (bucket_struct G h T) [] U R M' s1"
    and same: "user s1 = user s"
  shows "levels_ok G rf h T (lv1 @ (a, A\<lparr>hash_table := (hash_table A)[i := l]\<rparr>, xss) # lv2) E U R M'
    (s1\<lparr>ht_arrays := (ht_arrays s1)(a \<mapsto> A\<lparr>hash_table := (hash_table A)[i := l]\<rparr>)\<rparr>)" (is "levels_ok _ _ _ _ ?lvs _ _ _ _ ?s2")
proof -
  let ?A = "A\<lparr>hash_table := (hash_table A)[i := l]\<rparr>" and ?S = "bucket_struct G h T"
  have ao: "array_ok G T (user s) A xss" by (rule levels_okD(5) [OF ok, where a = a]) simp
  have more: "csl_mem.more s1 = csl_mem.more s" using csl_okD(13) [OF s1] by simp
  have arr: "ht_arrays s1 = ht_arrays s" by (rule ht_arrays_cong [OF more])
  have l: "l \<noteq> null" by (rule csl_okD(2) [OF s1])
  have empty: "xss ! i = []" using array_okD(4) [OF ao i] .
  have len: "length xss = length (hash_table A)" by (rule array_okD(3) [OF ao])
  have "xss ! j = []" if "j < length xss" "(hash_table A)[i := l] ! j = null" for j
    using that array_okD(4) [OF ao, of j] empty l len by (cases "j = i") auto
  then have ao': "array_ok G T (user s) ?A xss" using array_okD [OF ao] unfolding array_ok_def by simp
  have "mset (bucket_lists ?S ?A xss) = add_mset (l, ?S, []) (mset (bucket_lists ?S A xss))"
  proof -
    let ?z = "zip (hash_table A) xss"
    obtain z1 z2 where z: "z1 = take i ?z" "z2 = drop (Suc i) ?z" by blast
    have "zip (hash_table ?A) xss = ?z[i := (l, xss ! i)]" using i(1) zip_update [of "hash_table A" i l xss "xss ! i"] by simp
    then have new: "zip (hash_table ?A) xss = z1 @ (l, []) # z2" using i len empty by (simp add: upd_conv_take_nth_drop z)
    have old: "?z = z1 @ (null, []) # z2" unfolding z using i len empty id_take_nth_drop [of i ?z] by simp
    show ?thesis unfolding bucket_lists_def new old using l by simp
  qed
  then have perm: "mset (other_lists (level_others G h T ?lvs E (csl_mem.more s))) =
      mset (other_lists (with_list (l, ?S, []) (level_others G h T (lv1 @ (a, A, xss) # lv2) E (csl_mem.more s))))"
    by (simp add: with_list_def)
  have "lists_ok (level_others G h T ?lvs E (csl_mem.more s)) (list_callbacks G rf) U R M' s1"
    using s1 unfolding csl_ok_lists by (subst lists_ok_perm [OF perm]) (simp_all add: with_list_def)
  from lists_ok_memory [OF this, of ?s2]
  have "lists_ok (level_others G h T ?lvs E (csl_mem.more ?s2)) (list_callbacks G rf) U R M' ?s2" by simp
  then show ?thesis by (intro levels_written [OF ok ao']) (use arr same in simp_all)
qed

section \<open>Reads\<close>

lemma ht_arrays_same [simp]: "ht_arrays s a = Some A \<Longrightarrow> s\<lparr>ht_arrays := (ht_arrays s)(a \<mapsto> A)\<rparr> = s"
  by (cases s) (simp add: fun_upd_idem)

lemma array_fields_same [simp]:
  "A\<lparr>array_item_count := array_item_count A\<rparr> = A" "A\<lparr>array_bucket_count := array_bucket_count A\<rparr> = A"
  "A\<lparr>pending_insert_count := pending_insert_count A\<rparr> = A" "A\<lparr>next_bucket := next_bucket A\<rparr> = A"
  by simp_all

lemma wp_array_reads:
  assumes "ht_arrays s a = Some A"
  shows "wp (on_array a (add_fetch array_item_count array_item_count_update 0)) Q1 s = Q1 (array_item_count A) s"
    "wp (on_array a (add_fetch array_bucket_count array_bucket_count_update 0)) Q1 s = Q1 (array_bucket_count A) s"
    "wp (on_array a (add_fetch pending_insert_count pending_insert_count_update 0)) Q1 s = Q1 (pending_insert_count A) s"
    "wp (on_array a (rd array_bucket_count)) Q1 s = Q1 (array_bucket_count A) s"
    "wp (on_array a (cas next_bucket next_bucket_update null null)) Q2 s = Q2 (next_bucket A) s"
    "i < length (hash_table A) \<Longrightarrow> wp (read_slot a i) Q2 s = Q2 (hash_table A ! i) s"
proof -
  have n: "A\<lparr>next_bucket := null\<rparr> = A" if "next_bucket A = null" using that by (cases A) simp
  show "wp (on_array a (cas next_bucket next_bucket_update null null)) Q2 s = Q2 (next_bucket A) s"
    by (simp add: assms wp_access cas_def n)
qed (simp_all add: assms wp_access access_kinds on_slot_def wp_atomic)

lemma wp_table_reads:
  assumes "ht_tables (user s) h = Some T"
  shows "wp (on_table h (cas first_hash_table first_hash_table_update null null)) Q s = Q (first_hash_table T) s"
    "wp (on_table h (rd sel)) Q' s = Q' (sel T) s"
proof -
  have n: "T\<lparr>first_hash_table := null\<rparr> = T" if "first_hash_table T = null" using that by (cases T) simp
  have same: "user_update (ht_tables_update (\<lambda>_. (ht_tables (user s))(h \<mapsto> T))) s = s"
    using assms by (cases s; cases "user s") (simp add: fun_upd_idem)
  show "wp (on_table h (cas first_hash_table first_hash_table_update null null)) Q s = Q (first_hash_table T) s"
    by (simp add: assms wp_access cas_def n same)
  show "wp (on_table h (rd sel)) Q' s = Q' (sel T) s" by (simp add: assms wp_access rd_def)
qed

text \<open>The hash of a key and the check of the arguments.\<close>

lemma wp_hash_of_key: "ht_tables (user s) h = Some T \<Longrightarrow> wp (hash_of_key G h key) Q s = Q (table_hash G T key) s"
  by (simp add: hash_of_key_def wp_call wp_table_reads wp_Done)

lemma wp_no_table_counter_for:
  "ht_tables (user s) h = Some T \<Longrightarrow> wp (no_table_counter_for h seq) Q s = Q (seq \<noteq> null \<and> table_sequence_number T = null) s"
  by (simp add: no_table_counter_for_def wp_call wp_table_reads wp_Done)

section \<open>Growing\<close>

lemma wp_write_slot:
  "ht_arrays s a = Some A \<Longrightarrow> i < length (hash_table A) \<Longrightarrow>
    wp (on_slot a i (\<lambda>_. ((), Some p))) Q s = Q () (s\<lparr>ht_arrays := (ht_arrays s)(a \<mapsto> A\<lparr>hash_table := (hash_table A)[i := p]\<rparr>)\<rparr>)"
  by (simp add: on_slot_def wp_atomic)

lemma wp_clear_slots:
  "ht_arrays s a = Some A \<Longrightarrow> i + k = length (hash_table A) \<Longrightarrow> wp (clear_slots k a i) Q s =
    Q () (s\<lparr>ht_arrays := (ht_arrays s)(a \<mapsto> A\<lparr>hash_table := take i (hash_table A) @ replicate k null\<rparr>)\<rparr>)"
proof (induction k arbitrary: i A s)
  case 0
  have "A\<lparr>hash_table := take i (hash_table A) @ replicate 0 null\<rparr> = A" using 0(2) by (cases A) simp
  then show ?case by (simp only: clear_slots.simps wp_Done ht_arrays_same [OF 0(1)])
next
  case (Suc k)
  let ?A = "A\<lparr>hash_table := (hash_table A)[i := null]\<rparr>"
  have "take (Suc i) ((hash_table A)[i := null]) = take i (hash_table A) @ [null]"
    using Suc.prems(2) by (simp add: take_Suc_conv_app_nth)
  then have slots: "?A\<lparr>hash_table := take (Suc i) (hash_table ?A) @ replicate k null\<rparr> = A\<lparr>hash_table := take i (hash_table A) @ replicate (Suc k) null\<rparr>"
    by (cases A) simp
  have upd: "s\<lparr>ht_arrays := (ht_arrays s)(a \<mapsto> B)\<rparr>\<lparr>ht_arrays := (ht_arrays (s\<lparr>ht_arrays := (ht_arrays s)(a \<mapsto> B)\<rparr>))(a \<mapsto> C)\<rparr> =
      s\<lparr>ht_arrays := (ht_arrays s)(a \<mapsto> C)\<rparr>" for B C by simp
  have "wp (clear_slots k a (Suc i)) Q (s\<lparr>ht_arrays := (ht_arrays s)(a \<mapsto> ?A)\<rparr>) =
      Q () (s\<lparr>ht_arrays := (ht_arrays s)(a \<mapsto> A\<lparr>hash_table := take i (hash_table A) @ replicate (Suc k) null\<rparr>)\<rparr>)"
    using Suc.prems(2) by (subst Suc.IH [where A = ?A]) (simp_all only: slots upd ht_mem.simps fun_upd_same, simp_all)
  then show ?case
    using Suc.prems by (simp only: clear_slots.simps wp_call wp_write_slot)
qed

text \<open>The array that doubles the one at \<open>a\<close>.\<close>

definition doubled :: "ptr \<Rightarrow> bucket_array \<Rightarrow> bucket_array" where
  "doubled a A = \<lparr>next_bucket = a, array_bucket_count = array_bucket_count A * 2, array_item_count = 0, pending_insert_count = 0,
     hash_table = replicate (2 * nat (sint (array_bucket_count A))) null\<rparr>"


definition full_array :: "bucket_array \<Rightarrow> bool" where
  "full_array A \<longleftrightarrow> sint (array_bucket_count A) \<le> sint (array_item_count A)"

text \<open>
  The first array afterwards: the same one when it has room or when there is no memory, otherwise one
  twice as large in front of it.
\<close>

definition first_array :: "level list \<Rightarrow> level list \<Rightarrow> ptr set \<Rightarrow> ptr set \<Rightarrow> bool" where
  "first_array lvs lvs' M M' \<longleftrightarrow> lvs' = lvs \<and> M' = M \<or>
     (\<exists>a A xss lv a'. lvs = (a, A, xss) # lv \<and> full_array A \<and> a' \<notin> M \<and> M' = insert a' M \<and>
        lvs' = (a', doubled a A, replicate (2 * nat (sint (array_bucket_count A))) []) # lvs)"

lemma sint_double:
  fixes n :: "32 word"
  assumes "0 < sint n" and "sint n < 2 ^ 30"
  shows "sint (n * 2) = 2 * sint n"
proof -
  have "sint (n * 2) = signed_take_bit 31 (sint n * 2)" by (simp add: sint_word_ariths)
  also have "\<dots> = sint n * 2" using assms by (intro signed_take_bit_int_eq_self) auto
  finally show ?thesis by simp
qed

lemma unat_scast_count:
  fixes n :: "32 word"
  assumes "0 < sint n"
  shows "unat (scast n :: 64 word) = nat (sint n)"
proof -
  have n: "sint n < 2 ^ 31" using sint_lt [of n] by simp
  have "uint (scast n :: 64 word) = take_bit 64 (sint n)" unfolding scast_eq by (rule uint_word_of_int_eq [where 'a = 64, simplified])
  also have "\<dots> = sint n" by (rule take_bit_int_eq_self) (use n assms in simp_all)
  finally show ?thesis by (simp add: unat_eq_nat_uint)
qed

lemma lists_ok_more_memory: "lists_ok Os K U R M s \<Longrightarrow> M \<subseteq> M' \<Longrightarrow> lists_ok Os K U R M' s"
  unfolding lists_ok_def sorted_list_at_def by (auto split: prod.splits)

lemma bucket_lists_empty: "bucket_lists S (doubled a A) xss = []"
proof -
  have "p = null" if "(p, xs) \<in> set (zip (replicate n null) xss)" for p xs n using that by (auto dest!: set_zip_leftD)
  then show ?thesis by (auto simp: bucket_lists_def doubled_def filter_empty_conv)
qed

lemma levels_ok_grown:
  fixes s s' :: "('q, 'v, 'a) ht_mem_scheme"
  assumes ok: "levels_ok G rf h T lvs E U R M s" and lvs: "lvs = (a, A, xss) # lv" and n: "sint (array_bucket_count A) < 2 ^ 30"
    and a': "a' \<notin> M" "a' \<noteq> null"
    and s': "csl_items s' = csl_items s" "csl_lists s' = csl_lists s" "ht_arrays s' = (ht_arrays s)(a' \<mapsto> doubled a A)"
      "user s' = (user s)\<lparr>ht_tables := (ht_tables (user s))(h \<mapsto> T\<lparr>first_hash_table := a'\<rparr>)\<rparr>"
  shows "levels_ok G rf h T ((a', doubled a A, replicate (2 * nat (sint (array_bucket_count A))) []) # lvs) E U R (insert a' M) s'"
    (is "levels_ok _ _ _ _ ?lvs _ _ _ _ _")
proof (rule levels_okI)
  have A: "array_ok G T (user s) A xss" by (rule levels_okD(5) [OF ok, where a = a]) (simp add: lvs)
  have out: "a' \<notin> fst ` set lvs" using levels_memory(2) [OF ok] a'(1) by blast
  show "ht_tables (user s') h = Some (T\<lparr>first_hash_table := first_of (map fst ?lvs)\<rparr>)" using s'(4) by simp
  have "heap_chain (\<lambda>a. map_option next_bucket (ht_arrays s a)) a (map fst lvs)" using levels_okD(3) [OF ok] by (simp add: lvs)
  moreover have "map_option next_bucket (ht_arrays s' x) = map_option next_bucket (ht_arrays s x)" if "x \<in> set (map fst lvs)" for x
    using s'(3) out that by auto
  ultimately have "heap_chain (\<lambda>a. map_option next_bucket (ht_arrays s' a)) a (map fst lvs)"
    using heap_chain_cong [of "map fst lvs" "\<lambda>a. map_option next_bucket (ht_arrays s' a)" "\<lambda>a. map_option next_bucket (ht_arrays s a)" a] by simp
  then show "heap_chain (\<lambda>a. map_option next_bucket (ht_arrays s' a)) (first_of (map fst ?lvs)) (map fst ?lvs)"
    using a' s'(3) by (simp add: doubled_def)
  have new: "array_ok G T (user s') (doubled a A) (replicate (2 * nat (sint (array_bucket_count A))) [])"
    using array_okD(1) [OF A] n by (simp add: array_ok_def doubled_def sint_double nat_mult_distrib)
  fix b B yss
  assume mem: "(b, B, yss) \<in> set ?lvs"
  show "ht_arrays s' b = Some B \<and> array_ok G T (user s') B yss"
  proof (cases "b = a'")
    case True
    with mem out new s'(3) show ?thesis by (force simp: image_iff)
  next
    case False
    with mem have "(b, B, yss) \<in> set lvs" by simp
    with levels_okD(4,5) [OF ok this] False s'(3,4) show ?thesis by (simp add: array_ok_def get_item_key_cb_def)
  qed
next
  show "ht_items (user s') x \<noteq> None" if "x \<in> set (level_items ?lvs)" for x
    using that levels_okD(6) [OF ok, of x] s'(4) by simp
next
  let ?Os = "level_others G h T lvs E (csl_mem.more s)" and ?K = "list_callbacks G rf"
  have none: "csl_items s a' = None" using lists_okD(3) [OF levels_okD(7) [OF ok], of a'] a'(1) by (cases "csl_items s a'") auto
  have out: "a' \<notin> fst ` set (other_lists ?Os)"
    using lists_okD(1) [OF levels_okD(7) [OF ok]] a'(1) by (auto simp: sorted_list_at_def)
  have 1: "lists_ok (?Os\<lparr>other_objects := insert a' (other_objects ?Os)\<rparr>) ?K U R (insert a' M) s"
    by (rule lists_ok_object [OF lists_ok_more_memory [OF levels_okD(7) [OF ok]]]) (use none out in auto)
  have "key_compare_cb G c k k' (user s') = key_compare_cb G c k k' (user s)" for c k k'
    using s'(4) levels_okD(2) [OF ok] by (simp add: key_compare_cb_def)
  then have 2: "lists_ok (?Os\<lparr>other_objects := insert a' (other_objects ?Os)\<rparr>) ?K U R (insert a' M) (s\<lparr>user := user s'\<rparr>)"
    using s'(4) by (intro lists_ok_user [OF 1]) (simp add: key_of_def cmp_def get_item_key_cb_def)
  have "level_others G h T ?lvs E (csl_mem.more s') = ?Os\<lparr>other_objects := insert a' (other_objects ?Os)\<rparr>\<lparr>other_memory := csl_mem.more s'\<rparr>"
    by (simp add: level_others_def bucket_lists_empty insert_commute)
  with lists_ok_memory [OF 2, of s'] s' show "lists_ok (level_others G h T ?lvs E (csl_mem.more s')) ?K U R (insert a' M) s'" by simp
qed (use levels_okD(1) [OF ok] in simp)

lemma wp_array_write:
  "ht_arrays s a = Some A \<Longrightarrow> wp (on_array a (wr upd v)) Q s = Q () (s\<lparr>ht_arrays := (ht_arrays s)(a \<mapsto> upd (\<lambda>_. v) A)\<rparr>)"
  by (simp add: wp_access wr_def)

lemma wp_malloc_bucket_array:
  fixes s :: "('q, 'v, 'a) ht_mem_scheme"
  assumes small: "24 + unat nmemb * (8 * k) < 2 ^ 64"
    and fail: "\<And>ps. \<not> plenty 1 s \<Longrightarrow> Q null (s\<lparr>answers := ps\<rparr>)"
    and new: "\<And>p ps A s'. p \<noteq> null \<Longrightarrow> aligned p \<Longrightarrow> p \<notin> live s \<Longrightarrow> length (hash_table A) = unat nmemb * k \<Longrightarrow>
      s' = s\<lparr>answers := ps, live := insert p (live s)\<rparr> \<Longrightarrow> (\<And>n. plenty (Suc n) s \<Longrightarrow> plenty n s') \<Longrightarrow> Q p (s'\<lparr>ht_arrays := (ht_arrays s)(p \<mapsto> A)\<rparr>)"
  shows "wp (malloc_bucket_array nmemb k) Q s"
proof -
  obtain p s1 where m: "malloc_step s = (p, s1)" by fastforce
  have pl: "p \<noteq> null" "plenty n s1" if "plenty (Suc n) s" for n using plenty_malloc [OF that m] by auto
  have ok: "wp (malloc_bucket_array nmemb k) Q s = Q p (if p = null then s1 else s1\<lparr>ht_arrays := (ht_arrays s1)(p \<mapsto>
      \<lparr>next_bucket = junk, array_bucket_count = 0xCDCDCDCD, array_item_count = 0xCDCDCDCD, pending_insert_count = 0xCDCDCDCD,
         hash_table = replicate (unat nmemb * k) junk\<rparr>)\<rparr>)"
    using small by (simp add: malloc_bucket_array_def new_obj_def wp_atomic m)
  show ?thesis
  proof (cases s rule: malloc_step_cases)
    case (1 ps)
    with m have "p = null" "s1 = s\<lparr>answers := ps\<rparr>" by simp_all
    with ok fail [of ps] pl(1) [of 0] show ?thesis by fastforce
  next
    case (2 q ps)
    with m have q: "p = q" "s1 = s\<lparr>answers := ps, live := insert q (live s)\<rparr>" by auto
    have "Q p (s1\<lparr>ht_arrays := (ht_arrays s)(p \<mapsto>
      \<lparr>next_bucket = junk, array_bucket_count = 0xCDCDCDCD, array_item_count = 0xCDCDCDCD, pending_insert_count = 0xCDCDCDCD,
         hash_table = replicate (unat nmemb * k) junk\<rparr>)\<rparr>)"
      by (rule new) (use 2 q pl in simp_all)
    then show ?thesis using ok 2(1) q by simp
  qed
qed

text \<open>What the operations on the table keep of the state besides its levels.\<close>

definition items_kept :: "('q, 'v ht_user, 'a) csl_mem_scheme \<Rightarrow> ('q, 'v ht_user, 'a) csl_mem_scheme \<Rightarrow> bool" where
  "items_kept s s' \<longleftrightarrow> words s' = words s \<and> csl_items s' = csl_items s \<and> ht_items (user s') = ht_items (user s) \<and> client (user s') = client (user s)"

lemma wp_get_first_bucket_array:
  fixes s :: "('q, 'v, 'a) ht_mem_scheme"
  assumes hp: "hp_ok X C s t N R M" and ok: "levels_ok G rf h T lvs E U R M s" and lvs: "lvs = (a, A, xss) # lv"
    and n: "sint (array_bucket_count A) < 2 ^ 30" and b: "0 < b"
  shows "wp (get_first_bucket_array b h) (\<lambda>r s'. \<exists>lvs' M'. levels_ok G rf h T lvs' E U R M' s' \<and> hp_ok X C s' t N R M' \<and>
      r = fst (hd lvs') \<and> first_array lvs lvs' M M' \<and> items_kept s s' \<and> card (live s') \<le> Suc (card (live s)) \<and>
      (\<forall>k. plenty (Suc k) s \<longrightarrow> plenty k s') \<and> (lvs' = lvs \<longrightarrow> \<not> full_array A \<or> \<not> plenty 1 s)) s" (is "wp _ ?Q s")
proof -
  obtain m where m: "b = Suc m" using b by (cases b) auto
  have T: "ht_tables (user s) h = Some (T\<lparr>first_hash_table := a\<rparr>)" using levels_okD(2) [OF ok] by (simp add: lvs)
  have A: "ht_arrays s a = Some A" by (rule levels_okD(4) [OF ok, where xss = xss]) (simp add: lvs)
  have "array_ok G T (user s) A xss" by (rule levels_okD(5) [OF ok, where a = a]) (simp add: lvs)
  then have pos: "0 < sint (array_bucket_count A)" by (rule array_okD)
  have weak: "plenty k s'" if "plenty (Suc k) s'" for k and s' :: "('q, 'v, 'a) ht_mem_scheme" by (rule plenty_fewer [OF that]) simp
  have same: "?Q a s" if "\<not> full_array A"
    using hp ok that weak by (intro exI [of _ lvs] exI [of _ M]) (simp add: lvs first_array_def items_kept_def)
  define Q where "Q = ?Q"
  have start: "wp (get_first_bucket_array b h) Q s = wp (grow_first_array b h a (array_bucket_count A)) Q s"
    unfolding get_first_bucket_array_def by (simp add: wp_call wp_table_reads [OF T] wp_array_reads [OF A])
  have "wp (grow_first_array b h a (array_bucket_count A)) Q s"
  proof (cases "full_array A")
    case False
    have "Q a s" unfolding Q_def by (rule same [OF False])
    then show ?thesis using False unfolding m full_array_def
      by (simp add: wp_call wp_array_reads [OF A] wp_Done)
  next
    case True
    let ?n = "array_bucket_count A"
    have size: "24 + unat (scast ?n :: 64 word) * (8 * 2) < 2 ^ 64" using unat_scast_count [OF pos] n by simp
    have "wp (malloc_bucket_array (scast ?n) 2) (\<lambda>new_bucket_array. wp (if new_bucket_array = null then Done a
       else
         let count_of_buckets = ?n * 2 in
         call (on_array new_bucket_array (wr array_bucket_count_update count_of_buckets)) (\<lambda>_.
         call (on_array new_bucket_array (wr array_item_count_update 0)) (\<lambda>_.
         call (on_array new_bucket_array (wr pending_insert_count_update 0)) (\<lambda>_.
         call (clear_slots (nat (sint count_of_buckets)) new_bucket_array 0) (\<lambda>_.
         call (on_array new_bucket_array (wr next_bucket_update a)) (\<lambda>_.
         call (on_table h (cas first_hash_table first_hash_table_update new_bucket_array a)) (\<lambda>old.
         if old = a then Done new_bucket_array
         else
           call (free_array new_bucket_array) (\<lambda>_.
           call (on_table h (cas first_hash_table first_hash_table_update null null)) (\<lambda>first_bucket_array.
           call (on_array first_bucket_array (add_fetch array_bucket_count array_bucket_count_update 0)) (\<lambda>count_of_buckets.
           grow_first_array m h first_bucket_array count_of_buckets)))))))))) Q) s"
    proof (rule wp_malloc_bucket_array [OF size], goal_cases)
      case (1 ps)
      let ?s = "s\<lparr>answers := ps\<rparr>"
      have "levels_ok G rf h T lvs E U R M ?s"
        using ok lists_ok_cong [OF levels_okD(7) [OF ok], of ?s] unfolding levels_ok_def by simp
      moreover have "hp_ok X C ?s t N R M" by (rule hp_ok_client [OF _ _ hp]) (simp_all add: same_hp_def)
      moreover have "\<not> plenty (Suc k) s" for k using 1 plenty_fewer [of "Suc k" s 1] by auto
      ultimately have "Q a ?s"
        unfolding Q_def using 1 by (intro exI [of _ lvs] exI [of _ M]) (simp add: lvs first_array_def items_kept_def)
      then show ?case by (simp add: wp_Done)
    next
      case (2 p ps B s1)
      let ?D = "doubled a A"
      have pM: "p \<notin> M" using hp.client_memory [OF hp] 2(3) by blast
      have len: "length (hash_table B) = nat (sint (?n * 2))"
        using 2(4) unat_scast_count [OF pos] sint_double [OF pos n] by (simp add: nat_mult_distrib)
      define s2 where "s2 = s1\<lparr>ht_arrays := (ht_arrays s)(p \<mapsto> ?D), user := (user s)\<lparr>ht_tables := (ht_tables (user s))(h \<mapsto> T\<lparr>first_hash_table := p\<rparr>)\<rparr>\<rparr>"
      have "levels_ok G rf h T ((p, ?D, replicate (2 * nat (sint ?n)) []) # lvs) E U R (insert p M) s2"
        by (rule levels_ok_grown [OF ok lvs n pM 2(1)]) (simp_all add: s2_def 2(5))
      moreover have "hp_ok X C s2 t N R (insert p M)"
        by (rule hp_ok_client_memory [OF hp]) (simp_all add: s2_def same_hp_def 2)
      moreover have "first_array lvs ((p, ?D, replicate (2 * nat (sint ?n)) []) # lvs) M (insert p M)"
        unfolding first_array_def using lvs True pM by blast
      moreover have "items_kept s s2" by (simp add: items_kept_def s2_def 2(5))
      moreover have "card (live s2) \<le> Suc (card (live s))" by (simp add: s2_def 2(5) card_insert_le_m1 card_live_insert)
      moreover have "plenty k s2" if "plenty (Suc k) s" for k using 2(6) [OF that] by (simp add: s2_def)
      ultimately have Q: "Q p s2" unfolding Q_def by (intro exI [of _ "(p, ?D, replicate (2 * nat (sint ?n)) []) # lvs"] exI [of _ "insert p M"]) simp
      have clear: "wp (clear_slots (nat (sint (?n * 2))) p 0) P (s1\<lparr>ht_arrays := (ht_arrays s)(p \<mapsto> B')\<rparr>) =
          P () (s1\<lparr>ht_arrays := (ht_arrays s)(p \<mapsto> B'\<lparr>hash_table := replicate (nat (sint (?n * 2))) null\<rparr>)\<rparr>)"
        if "hash_table B' = hash_table B" for P B'
        by (subst wp_clear_slots [where A = B']) (use len that in simp_all)
      have link: "wp (on_table h (cas first_hash_table first_hash_table_update p a)) P (s1\<lparr>ht_arrays := f\<rparr>) =
          P a (s1\<lparr>ht_arrays := f, user := (user s)\<lparr>ht_tables := (ht_tables (user s))(h \<mapsto> T\<lparr>first_hash_table := p\<rparr>)\<rparr>\<rparr>)" for P f
        using T 2(5) by (cases s) (simp add: wp_access cas_def)
      have D: "\<lparr>next_bucket = a, array_bucket_count = ?n * 2, array_item_count = 0, pending_insert_count = 0,
          hash_table = replicate (nat (sint (?n * 2))) null\<rparr> = ?D" using sint_double [OF pos n] by (simp add: doubled_def nat_mult_distrib)
      show ?case
        using 2(1) Q D by (cases B) (simp add: wp_call wp_array_write Let_def clear link wp_Done s2_def)
    qed
    then show ?thesis using True unfolding m full_array_def
      by (simp add: wp_call wp_array_reads [OF A])
  qed
  then show ?thesis using start unfolding Q_def by simp
qed

end
