(* ===== verification/Hash_Table_Search.thy ===== *)
theory Hash_Table_Search
  imports Hash_Table_Steps
begin

text \<open>
  Looking up, deleting and removing: the search of the levels, as the contract of what is done with
  one bucket (\<open>level_search\<close>), and the four operations that are instances of it.
\<close>

section \<open>Write operations\<close>

lemma pending_again [simp]: "T\<lparr>pending_write_operations := v, first_hash_table := p\<rparr> = T\<lparr>first_hash_table := p, pending_write_operations := v\<rparr>"
  by (cases T) simp

lemma table_lock_same [simp]: "T\<lparr>locked_for_write := locked_for_write T\<rparr> = (T :: clds_hash_table)"
  "T\<lparr>pending_write_operations := pending_write_operations T\<rparr> = (T :: clds_hash_table)"
  by simp_all

abbreviation writing :: "clds_hash_table \<Rightarrow> clds_hash_table" where
  "writing T \<equiv> T\<lparr>pending_write_operations := pending_write_operations T + 1\<rparr>"

lemma table_at_simps [simp]:
  "words (table_at h T s) = words s" "live (table_at h T s) = live s" "csl_items (table_at h T s) = csl_items s"
  "csl_lists (table_at h T s) = csl_lists s" "csl_mem.more (table_at h T s) = csl_mem.more s" "plenty n (table_at h T s) = plenty n s"
  "hp_ok X C (table_at h T s) t A R M = hp_ok X C s t A R M" "client (user (table_at h T s)) = client (user s)"
  "ht_items (user (table_at h T s)) = ht_items (user s)" "get_item_key_cb x (user (table_at h T s)) = get_item_key_cb x (user s)"
  "refs (table_at h T s) = refs s"
  by (simp_all add: table_at_def get_item_key_cb_def refs_def fun_eq_iff)

lemma update_tables: "user_update (ht_tables_update f) s = s\<lparr>user := (user s)\<lparr>ht_tables := f (ht_tables (user s))\<rparr>\<rparr>"
  by (cases s) simp

lemma wp_begin_table:
  assumes ok: "levels_ok G rf h T lvs E U R M s" and "locked_for_write T = 0" and "0 < b"
  shows "wp (check_lock_and_begin_write_operation b (table_lock h)) Q s =
      Q () (table_at h (T\<lparr>first_hash_table := first_of (map fst lvs), pending_write_operations := pending_write_operations T + 1\<rparr>) s)"
    and "levels_ok G rf h (writing T) lvs E U R M
      (table_at h (T\<lparr>first_hash_table := first_of (map fst lvs), pending_write_operations := pending_write_operations T + 1\<rparr>) s)"
proof -
  obtain m where m: "b = Suc m" using assms(3) by (cases b) auto
  show "wp (check_lock_and_begin_write_operation b (table_lock h)) Q s =
      Q () (table_at h (T\<lparr>first_hash_table := first_of (map fst lvs), pending_write_operations := pending_write_operations T + 1\<rparr>) s)"
    using levels_okD(2) [OF ok] assms(2) by (simp add: m table_lock_def wp_simps update_tables table_at_def)
  show "levels_ok G rf h (writing T) lvs E U R M
      (table_at h (T\<lparr>first_hash_table := first_of (map fst lvs), pending_write_operations := pending_write_operations T + 1\<rparr>) s)"
    using levels_ok_lock [OF ok, where v = "locked_for_write T" and w = "pending_write_operations T + 1"] by simp
qed

lemma wp_end_table:
  assumes ok: "levels_ok G rf h (writing T) lvs E U R M s"
  shows "wp (end_write_operation (table_lock h)) Q s = Q () (table_at h (T\<lparr>first_hash_table := first_of (map fst lvs)\<rparr>) s)"
    and "levels_ok G rf h T lvs E U R M (table_at h (T\<lparr>first_hash_table := first_of (map fst lvs)\<rparr>) s)"
proof -
  have T: "T\<lparr>first_hash_table := p, pending_write_operations := pending_write_operations T\<rparr> = T\<lparr>first_hash_table := p\<rparr>" for p by (cases T) simp
  show "wp (end_write_operation (table_lock h)) Q s = Q () (table_at h (T\<lparr>first_hash_table := first_of (map fst lvs)\<rparr>) s)"
    using levels_okD(2) [OF ok] by (simp add: table_lock_def end_write_operation_def wp_simps update_tables table_at_def T)
  show "levels_ok G rf h T lvs E U R M (table_at h (T\<lparr>first_hash_table := first_of (map fst lvs)\<rparr>) s)"
    using levels_ok_lock [OF ok, where v = "locked_for_write T" and w = "pending_write_operations T"] by (simp add: T)
qed

section \<open>The search of the levels\<close>

text \<open>
  The contract between the search and a visit of one bucket. \<open>Inv lvs\<close> is what holds while the levels
  \<open>lvs\<close> are still to be searched, \<open>Post r\<close> what holds when the search has the result \<open>r\<close>.
\<close>

locale level_search =
  fixes hash :: "64 word" and visit_list :: "ptr \<Rightarrow> ptr \<Rightarrow> ('q, 'v, 'a, 'r option) ht_prog" and not_found :: 'r
    and Inv :: "level list \<Rightarrow> ('q, 'v, 'a) ht_mem_scheme \<Rightarrow> bool" and Post :: "'r \<Rightarrow> ('q, 'v, 'a) ht_mem_scheme \<Rightarrow> bool"
  assumes level: "Inv ((a, A, xss) # lvs) s \<Longrightarrow> a \<noteq> null \<and> ht_arrays s a = Some A \<and> next_bucket A = first_of (map fst lvs) \<and>
      slot_index hash (array_bucket_count A) < length (hash_table A)"
    and passed: "Inv ((a, A, xss) # lvs) s \<Longrightarrow> array_item_count A = 0 \<or> hash_table A ! slot_index hash (array_bucket_count A) = null \<Longrightarrow> Inv lvs s"
    and visited: "Inv ((a, A, xss) # lvs) s \<Longrightarrow> p = hash_table A ! slot_index hash (array_bucket_count A) \<Longrightarrow> p \<noteq> null \<Longrightarrow>
      wp (visit_list a p) (\<lambda>r s'. case r of None \<Rightarrow> Inv lvs s' | Some v \<Rightarrow> Post v s') s"
    and exhausted: "Inv [] s \<Longrightarrow> Post not_found s"
begin

lemma search:
  assumes "Inv lvs s" and "length lvs < n"
  shows "wp (search_arrays n hash visit_list not_found (first_of (map fst lvs))) Post s"
  using assms
proof (induction lvs arbitrary: s n)
  case Nil
  then obtain m where "n = Suc m" by (cases n) auto
  then show ?case using exhausted [OF Nil(1)] by (simp add: wp_Done)
next
  case (Cons v lvs)
  obtain a A xss where v: "v = (a, A, xss)" by (cases v)
  obtain m where n: "n = Suc m" using Cons.prems(2) by (cases n) auto
  note inv = Cons.prems(1) [unfolded v]
  have l: "a \<noteq> null" "ht_arrays s a = Some A" "next_bucket A = first_of (map fst lvs)" "slot_index hash (array_bucket_count A) < length (hash_table A)"
    using level [OF inv] by simp_all
  define p where "p = hash_table A ! slot_index hash (array_bucket_count A)"
  have IH: "wp (search_arrays m hash visit_list not_found (first_of (map fst lvs))) Post s'" if "Inv lvs s'" for s'
    using Cons.IH [OF that] Cons.prems(2) n by simp
  have pass: "Inv lvs s" if "array_item_count A = 0 \<or> p = null" using passed [OF inv] that by (simp add: p_def)
  have visit: "wp (visit_list a p) (\<lambda>r. wp (case r of None \<Rightarrow> search_arrays m hash visit_list not_found (first_of (map fst lvs)) | Some v \<Rightarrow> Done v) Post) s"
    if "p \<noteq> null"
    by (rule wp_mono [OF visited [OF inv p_def that]]) (auto simp: wp_Done split: option.splits intro: IH)
  show ?case
    unfolding v n using l IH pass visit
    by (auto simp: wp_call wp_array_reads [OF l(2)] wp_if p_def [symmetric])
qed

end

section \<open>The state of a search\<close>

lemma bucket_struct_writing [simp]: "bucket_struct G h (writing T) = bucket_struct G h T"
  by (simp add: bucket_struct_def)

lemma bucket_compare:
  assumes "levels_ok G rf h T lvs E U R M s"
  shows "cmp (list_callbacks G rf) (bucket_struct G h T) (user s) k k' = table_cmp G T k k'"
  using levels_okD(2) [OF assms] by (simp add: cmp_def key_compare_cb_def bucket_struct_def)

lemma bucket_key [simp]: "key_of (list_callbacks G rf) L u x = get_item_key_cb x u"
  by (simp add: key_of_def)

lemma slot_in_range:
  assumes "array_ok G T u A xss"
  shows "slot_index hash (array_bucket_count A) < length (hash_table A)" "slot_index hash (array_bucket_count A) < length xss"
proof -
  have c: "unat (scast (array_bucket_count A) :: 64 word) = nat (sint (array_bucket_count A))" by (rule unat_scast_count [OF array_okD(1) [OF assms]])
  have "unat (hash mod scast (array_bucket_count A)) < unat (scast (array_bucket_count A) :: 64 word)"
    using array_okD(1) [OF assms] by (simp add: unat_mod c)
  then show "slot_index hash (array_bucket_count A) < length (hash_table A)" "slot_index hash (array_bucket_count A) < length xss"
    by (simp_all add: slot_index_def c array_okD(2,3) [OF assms])
qed

text \<open>
  What the search of the levels starts from: \<open>P\<close> picks items with the hash \<open>hash\<close>, and \<open>b\<close> is large
  enough for a write operation on any bucket.
\<close>

definition search_setup :: "'v ht_callbacks \<Rightarrow> clds_hash_table \<Rightarrow> level list \<Rightarrow> 64 word \<Rightarrow> (ptr \<Rightarrow> bool) \<Rightarrow> nat \<Rightarrow> ('q, 'v, 'a) ht_mem_scheme \<Rightarrow> bool" where
  "search_setup G T lvs hash P b s0 \<longleftrightarrow> ht_callbacks_ok G \<and> counts_ok lvs \<and>
     (\<forall>x \<in> set (level_items lvs). P x \<longrightarrow> table_hash G T (get_item_key_cb x (user s0)) = hash) \<and>
     2 * (card (live s0) + length (level_items lvs) + length lvs) + 4 < b"

definition size_of_levels :: "level list \<Rightarrow> nat" where
  "size_of_levels lvs = length (level_items lvs) + length lvs"

lemma size_of_levels_simps [simp]:
  "size_of_levels [] = 0" "size_of_levels ((a, A, xss) # lvs) = Suc (length (concat xss) + size_of_levels lvs)"
  "size_of_levels (lvs @ lvs') = size_of_levels lvs + size_of_levels lvs'"
  by (simp_all add: size_of_levels_def)

text \<open>
  The levels before \<open>rest\<close> were searched in vain and nothing has changed; \<open>weak\<close> is set when a visit
  that finds nothing does not mean that nothing is there.
\<close>

definition searching :: "'q externals \<Rightarrow> ('q \<Rightarrow> ptr \<Rightarrow> inactive_thread list) \<Rightarrow> 'v ht_callbacks \<Rightarrow> ptr \<Rightarrow> ptr \<Rightarrow> clds_hash_table \<Rightarrow> ptr \<Rightarrow>
    (ptr \<Rightarrow> ptr option) \<Rightarrow> ptr set \<Rightarrow> (ptr \<Rightarrow> nat) \<Rightarrow> (ptr \<times> ptr) multiset \<Rightarrow> ptr set \<Rightarrow> level list \<Rightarrow> 64 word \<Rightarrow> (ptr \<Rightarrow> bool) \<Rightarrow> nat \<Rightarrow>
    bool \<Rightarrow> ('q, 'v, 'a) ht_mem_scheme \<Rightarrow> level list \<Rightarrow> ('q, 'v, 'a) ht_mem_scheme \<Rightarrow> bool" where
  "searching X C G rf h T t N E U R M lvs hash P b weak s0 rest s \<longleftrightarrow> search_setup G T lvs hash P b s0 \<and>
     (\<exists>before. lvs = before @ rest \<and> ((\<forall>x \<in> set (level_items before). \<not> P x) \<or> weak) \<and>
        card (live s) \<le> card (live s0) + size_of_levels before \<and> (\<forall>k. plenty (k + size_of_levels before) s0 \<longrightarrow> plenty k s)) \<and>
     levels_ok G rf h T lvs E U R M s \<and> hp_ok X C s t N R M \<and> words s = words s0 \<and> user s = user s0 \<and> csl_items s = csl_items s0"

lemma searching_level:
  assumes "searching X C G rf h T t N E U R M lvs hash P b weak s0 ((a, A, xss) # rest) s"
  shows "a \<noteq> null \<and> ht_arrays s a = Some A \<and> next_bucket A = first_of (map fst rest) \<and>
    slot_index hash (array_bucket_count A) < length (hash_table A)"
proof -
  obtain before where lvs: "lvs = before @ (a, A, xss) # rest" and ok: "levels_ok G rf h T lvs E U R M s"
    using assms unfolding searching_def by auto
  have mem: "(a, A, xss) \<in> set lvs" by (simp add: lvs)
  have "heap_chain (\<lambda>a. map_option next_bucket (ht_arrays s a)) (first_of (map fst lvs)) (map fst before @ a # map fst rest)"
    using levels_okD(3) [OF ok] by (simp add: lvs)
  then have "heap_chain (\<lambda>a. map_option next_bucket (ht_arrays s a)) a (a # map fst rest)" by (rule heap_chain_suffix)
  then have "a \<noteq> null" "heap_chain (\<lambda>a. map_option next_bucket (ht_arrays s a)) (next_bucket A) (map fst rest)"
    using levels_okD(4) [OF ok mem] by auto
  moreover from this(2) have "next_bucket A = first_of (map fst rest)" by (cases rest) (auto dest: heap_chain_first)
  ultimately show ?thesis
    using levels_okD(4) [OF ok mem] slot_in_range(1) [OF levels_okD(5) [OF ok mem]] by simp
qed

text \<open>The bucket of the hash holds all the items of its level that are searched for.\<close>

lemma only_in_slot:
  assumes "array_ok G T u A xss" and "x \<in> set (concat xss)" and "table_hash G T (get_item_key_cb x u) = hash"
  shows "x \<in> set (xss ! slot_index hash (array_bucket_count A))"
proof -
  obtain ys where ys: "ys \<in> set xss" "x \<in> set ys" using assms(2) by auto
  obtain j where j: "j < length xss" "xss ! j = ys" using ys(1) by (auto simp: in_set_conv_nth)
  then have "slot_index (table_hash G T (get_item_key_cb x u)) (array_bucket_count A) = j" using array_okD(5) [OF assms(1) j(1)] ys(2) by simp
  then show ?thesis using j ys(2) assms(3) by simp
qed

lemma searching_on:
  assumes s: "searching X C G rf h T t N E U R M lvs hash P b weak s0 ((a, A, xss) # rest) s"
    and ok: "levels_ok G rf h T lvs E U R M s'" "hp_ok X C s' t N R M" "words s' = words s" "user s' = user s" "csl_items s' = csl_items s"
    and none: "(\<forall>x \<in> set (concat xss). \<not> P x) \<or> weak"
    and n: "n \<le> length (concat xss)" and walked: "card (live s') \<le> card (live s) + n + 1" "\<And>k. plenty (k + Suc n) s \<Longrightarrow> plenty k s'"
  shows "searching X C G rf h T t N E U R M lvs hash P b weak s0 rest s'"
proof -
  obtain before where lvs: "lvs = before @ (a, A, xss) # rest" and no: "(\<forall>x \<in> set (level_items before). \<not> P x) \<or> weak"
    and card: "card (live s) \<le> card (live s0) + size_of_levels before" and pl: "\<And>k. plenty (k + size_of_levels before) s0 \<Longrightarrow> plenty k s"
    using s unfolding searching_def by auto
  have "plenty k s'" if "plenty (k + size_of_levels (before @ [(a, A, xss)])) s0" for k
  proof (rule walked(2), rule pl)
    show "plenty (k + Suc n + size_of_levels before) s0" by (rule plenty_fewer [OF that]) (use n in simp)
  qed
  moreover have "card (live s') \<le> card (live s0) + size_of_levels (before @ [(a, A, xss)])" using walked(1) card n by simp
  moreover have "(\<forall>x \<in> set (level_items (before @ [(a, A, xss)])). \<not> P x) \<or> weak" using no none by auto
  moreover have "lvs = (before @ [(a, A, xss)]) @ rest" using lvs by simp
  ultimately show ?thesis using s ok unfolding searching_def by auto
qed

lemma searching_passed:
  assumes s: "searching X C G rf h T t N E U R M lvs hash P b weak s0 ((a, A, xss) # rest) s"
    and "array_item_count A = 0 \<or> hash_table A ! slot_index hash (array_bucket_count A) = null"
  shows "searching X C G rf h T t N E U R M lvs hash P b weak s0 rest s"
proof -
  obtain before where lvs: "lvs = before @ (a, A, xss) # rest" and ok: "levels_ok G rf h T lvs E U R M s" and u: "user s = user s0"
    and start: "search_setup G T lvs hash P b s0"
    using s unfolding searching_def by auto
  have mem: "(a, A, xss) \<in> set lvs" by (simp add: lvs)
  note A = levels_okD(5) [OF ok mem]
  have "\<not> P x" if x: "x \<in> set (concat xss)" for x
  proof
    assume "P x"
    have "table_hash G T (get_item_key_cb x (user s)) = hash" using \<open>P x\<close> x start lvs u by (auto simp: search_setup_def)
    from only_in_slot [OF A x this] have "hash_table A ! slot_index hash (array_bucket_count A) \<noteq> null"
      using array_okD(4) [OF A slot_in_range(2) [OF A, of hash]] by auto
    moreover have "array_item_count A \<noteq> 0"
    proof -
      have "array_item_count A = of_nat (length (concat xss))" "length (concat xss) < 2 ^ 31"
        using start mem unfolding search_setup_def counts_ok_def by auto
      moreover have "0 < length (concat xss)" using x by (cases "concat xss") auto
      ultimately have "unat (array_item_count A) = length (concat xss)" by (simp add: unat_of_nat)
      then show ?thesis using \<open>0 < length (concat xss)\<close> by auto
    qed
    ultimately show False using assms(2) by blast
  qed
  moreover have "plenty k s" if "plenty (k + Suc 0) s" for k by (rule plenty_fewer [OF that]) simp
  ultimately show ?thesis
    using s by (intro searching_on [OF s, where n = 0]) (auto simp: searching_def)
qed


section \<open>A bucket on the way\<close>

lemma find_append: "find P (xs @ ys) = (case find P xs of None \<Rightarrow> find P ys | Some x \<Rightarrow> Some x)"
  by (induction xs) auto

lemma find_concat:
  assumes "i < length xss" and "\<And>x. x \<in> set (concat xss) \<Longrightarrow> P x \<Longrightarrow> x \<in> set (xss ! i)"
    and "\<And>j x. j < length xss \<Longrightarrow> x \<in> set (xss ! j) \<Longrightarrow> P x \<Longrightarrow> j = i"
  shows "find P (concat xss) = find P (xss ! i)"
proof -
  have split: "concat xss = concat (take i xss) @ xss ! i @ concat (drop (Suc i) xss)"
    using id_take_nth_drop [OF assms(1)] by (metis concat.simps(2) concat_append)
  have "find P (concat (take i xss)) = None"
    using assms(3) by (fastforce simp: find_None_iff in_set_conv_nth)
  moreover have "find P (concat (drop (Suc i) xss)) = None"
  proof -
    have "\<not> P x" if ys: "ys \<in> set (drop (Suc i) xss)" "x \<in> set ys" for ys x
    proof
      assume "P x"
      obtain j where j: "j < length (drop (Suc i) xss)" "drop (Suc i) xss ! j = ys" using ys(1) unfolding in_set_conv_nth by blast
      then have "Suc i + j < length xss" "x \<in> set (xss ! (Suc i + j))" using ys(2) by auto
      from assms(3) [OF this \<open>P x\<close>] show False by simp
    qed
    then show ?thesis by (auto simp: find_None_iff)
  qed
  ultimately show ?thesis by (simp add: split find_append split: option.splits)
qed

lemma concat_remove1:
  assumes "i < length xss" and "x \<in> set (xss ! i)" and "\<And>j. j < length xss \<Longrightarrow> x \<in> set (xss ! j) \<Longrightarrow> j = i"
  shows "concat (xss[i := remove1 x (xss ! i)]) = remove1 x (concat xss)"
proof -
  have split: "concat xss = concat (take i xss) @ xss ! i @ concat (drop (Suc i) xss)"
    using id_take_nth_drop [OF assms(1)] by (metis concat.simps(2) concat_append)
  have "x \<notin> set (concat (take i xss))"
    using assms(3) by (fastforce simp: in_set_conv_nth)
  then show ?thesis
    using assms(1,2) unfolding split by (simp add: upd_conv_take_nth_drop remove1_append)
qed

text \<open>The count of an array goes down by one.\<close>

definition one_less :: "ptr \<Rightarrow> bucket_array \<Rightarrow> ('q, 'v, 'a) ht_mem_scheme \<Rightarrow> ('q, 'v, 'a) ht_mem_scheme" where
  "one_less a A s = s\<lparr>ht_arrays := (ht_arrays s)(a \<mapsto> A\<lparr>array_item_count := array_item_count A - 1\<rparr>)\<rparr>"

lemma one_less_simps [simp]:
  "words (one_less a A s) = words s" "user (one_less a A s) = user s" "hp_ok X C (one_less a A s) t N R M = hp_ok X C s t N R M"
  "live (one_less a A s) = live s" "csl_items (one_less a A s) = csl_items s"
  by (simp_all add: one_less_def)

lemma settled_arrays [simp]: "settled K U R s U' R' (one_less a A s') = settled K U R s U' R' s'"
  by (simp add: settled_def refs_def)

lemma settled_tables [simp]:
  "settled K U R (table_at h T s) U' R' s' = settled K U R s U' R' s'" "settled K U R s U' R' (table_at h T s') = settled K U R s U' R' s'"
  by (simp_all add: settled_def refs_def table_at_def)

lemma wp_one_less:
  "ht_arrays s a = Some A \<Longrightarrow> wp (on_array a (add_fetch array_item_count array_item_count_update (- 1))) Q s = Q (array_item_count A - 1) (one_less a A s)"
  by (simp add: wp_access add_fetch_def one_less_def)

lemma searching_bucket:
  fixes s :: "('q, 'v, 'a) ht_mem_scheme"
  assumes s: "searching X C G rf h T t N E U R M lvs hash P b weak s0 ((a, A, xss) # rest) s"
    and i: "i = slot_index hash (array_bucket_count A)" and p: "p = hash_table A ! i" "p \<noteq> null"
  obtains Os where "csl_ok Os (list_callbacks G rf) p (bucket_struct G h T) (xss ! i) U R M s"
    and "2 * (card (live s) + length (xss ! i) + 1) + 4 < b"
    and "\<not> plenty (Suc (length (xss ! i))) s \<Longrightarrow> \<not> plenty (size_of_levels lvs) s0"
    and "\<And>s' :: ('q, 'v, 'a) ht_mem_scheme. csl_ok Os (list_callbacks G rf) p (bucket_struct G h T) (xss ! i) U R M s' \<Longrightarrow> hp_ok X C s' t N R M \<Longrightarrow>
      walked (length (xss ! i)) s s' \<Longrightarrow> find P (xss ! i) = None \<or> weak \<Longrightarrow> searching X C G rf h T t N E U R M lvs hash P b weak s0 rest s'"
    and "\<And>U' R' M' s' :: ('q, 'v, 'a) ht_mem_scheme. csl_ok Os (list_callbacks G rf) p (bucket_struct G h T) (xss ! i) U' R' M' s' \<Longrightarrow>
      only_client (user s) (user s') \<Longrightarrow> levels_ok G rf h T lvs E U' R' M' s'"
    and "\<And>x. find P (xss ! i) = Some x \<Longrightarrow> \<not> weak \<Longrightarrow> find P (level_items lvs) = Some x"
    and "\<And>x. x \<in> set (xss ! i) \<Longrightarrow> x \<in> set (level_items lvs)"
    and "\<And>x U' R' M' s' :: ('q, 'v, 'a) ht_mem_scheme. find P (xss ! i) = Some x \<Longrightarrow> \<not> weak \<Longrightarrow>
      csl_ok Os (list_callbacks G rf) p (bucket_struct G h T) (remove1 x (xss ! i)) U' R' M' s' \<Longrightarrow> only_client (user s) (user s') \<Longrightarrow>
      ht_arrays s' a = Some A \<and> (\<exists>lvs'. level_items lvs' = remove1 x (level_items lvs) \<and> map fst lvs' = map fst lvs \<and> counts_ok lvs' \<and> (none_pending lvs \<longrightarrow> none_pending lvs') \<and>
        levels_ok G rf h T lvs' E U' R' M' (one_less a A s'))"
    and "plenty (Suc (size_of_levels lvs)) s0 \<Longrightarrow> plenty (Suc (Suc (length (xss ! i)))) s"
proof -
  obtain lv1 where lvs: "lvs = lv1 @ (a, A, xss) # rest" and ok: "levels_ok G rf h T lvs E U R M s" and u: "user s = user s0"
    and no: "(\<forall>x \<in> set (level_items lv1). \<not> P x) \<or> weak"
    and card: "card (live s) \<le> card (live s0) + size_of_levels lv1" and pl: "\<And>k. plenty (k + size_of_levels lv1) s0 \<Longrightarrow> plenty k s"
    and start: "search_setup G T lvs hash P b s0"
    using s unfolding searching_def by auto
  have mem: "(a, A, xss) \<in> set lvs" by (simp add: lvs)
  note A = levels_okD(5) [OF ok mem]
  have len: "i < length xss" using slot_in_range(2) [OF A] i by simp
  let ?K = "list_callbacks G rf" and ?S = "bucket_struct G h T"
  obtain Os where ok1: "csl_ok Os ?K p ?S (xss ! i) U R M s"
    and "\<And>x. of_bool (x \<in> set (xss ! i)) + listed Os x = of_bool (x \<in> set (level_items lvs))"
    and return: "\<And>ys U' R' M' s'. csl_ok Os ?K p ?S ys U' R' M' (s' :: ('q, 'v, 'a) ht_mem_scheme) \<Longrightarrow> only_client (user s) (user s') \<Longrightarrow>
      (\<And>x. x \<in> set ys \<Longrightarrow> x \<in> set (xss ! i) \<or> ht_items (user s') x \<noteq> None \<and>
         slot_index (table_hash G T (get_item_key_cb x (user s'))) (array_bucket_count A) = i) \<Longrightarrow>
      levels_ok G rf h T (lv1 @ (a, A, xss[i := ys]) # rest) E U' R' M' s'"
    apply (rule levels_bucket [OF ok lvs len p(1) [symmetric] p(2)])
    subgoal premises prems for Os by (rule prems(1) [OF prems(2-)])
    done
  have sub: "length (xss ! i) \<le> length (concat xss)"
    using len by (metis length_concat elem_le_sum_list length_map nth_map)
  have total: "size_of_levels lvs = size_of_levels lv1 + Suc (length (concat xss) + size_of_levels rest)" by (simp add: lvs)
  have P: "x \<in> set (xss ! i)" if "x \<in> set (concat xss)" "P x" for x
    using only_in_slot [OF A that(1)] that start u i by (auto simp: search_setup_def lvs)
  have only: "j = i" if "j < length xss" "x \<in> set (xss ! j)" "P x" for j x
  proof -
    have "x \<in> set (concat xss)" using that(1,2) by auto
    then have "table_hash G T (get_item_key_cb x (user s)) = hash" using that(3) start u by (auto simp: search_setup_def lvs)
    then show ?thesis using array_okD(5) [OF A that(1,2)] i by simp
  qed
  have find: "find P (concat xss) = find P (xss ! i)" by (rule find_concat [OF len P only])
  have none: "\<forall>x \<in> set (concat xss). \<not> P x" if "find P (xss ! i) = None"
    using that unfolding find [symmetric] find_None_iff by blast
  have same: "levels_ok G rf h T lvs E U' R' M' s'" if "csl_ok Os ?K p ?S (xss ! i) U' R' M' s'" "only_client (user s) (user s')"
    for U' R' M' and s' :: "('q, 'v, 'a) ht_mem_scheme"
    using return [OF that] by (simp add: lvs)
  have first: "find P (level_items lvs) = Some x" if "find P (xss ! i) = Some x" "\<not> weak" for x
  proof -
    have "find P (level_items lv1) = None" using no that(2) by (auto simp: find_None_iff)
    then show ?thesis using that(1) find by (simp add: lvs find_append)
  qed
  show ?thesis
  proof (rule that [OF ok1])
    show "plenty (Suc (Suc (length (xss ! i)))) s" if "plenty (Suc (size_of_levels lvs)) s0"
      by (rule pl, rule plenty_fewer [OF that]) (use total sub in simp)
    show "2 * (card (live s) + length (xss ! i) + 1) + 4 < b"
    proof -
      have "2 * (card (live s0) + size_of_levels lvs) + 4 < b" using start by (simp add: search_setup_def size_of_levels_def)
      moreover have "card (live s) + length (xss ! i) + 1 \<le> card (live s0) + size_of_levels lvs" using card sub unfolding total by simp
      ultimately show ?thesis by auto
    qed
    show "\<not> plenty (size_of_levels lvs) s0" if "\<not> plenty (Suc (length (xss ! i))) s"
    proof
      assume "plenty (size_of_levels lvs) s0"
      then have "plenty (Suc (length (xss ! i)) + size_of_levels lv1) s0" by (rule plenty_fewer) (use total sub in simp)
      from pl [OF this] that show False by blast
    qed
    show "searching X C G rf h T t N E U R M lvs hash P b weak s0 rest s'"
      if s': "csl_ok Os ?K p ?S (xss ! i) U R M s'" "hp_ok X C s' t N R M" "walked (length (xss ! i)) s s'" "find P (xss ! i) = None \<or> weak"
      for s' :: "('q, 'v, 'a) ht_mem_scheme"
    proof (rule searching_on [OF s same [OF s'(1)] s'(2) _ _ _ _ sub])
      show "(\<forall>x \<in> set (concat xss). \<not> P x) \<or> weak" using s'(4) none by blast
    qed (use s'(3) in \<open>simp_all add: walked_def\<close>)
    show "levels_ok G rf h T lvs E U' R' M' s'" if "csl_ok Os ?K p ?S (xss ! i) U' R' M' s'" "only_client (user s) (user s')"
      for U' R' M' and s' :: "('q, 'v, 'a) ht_mem_scheme" by (rule same [OF that])
    show "find P (level_items lvs) = Some x" if "find P (xss ! i) = Some x" "\<not> weak" for x by (rule first [OF that])
    show "x \<in> set (level_items lvs)" if "x \<in> set (xss ! i)" for x using that nth_mem [OF len] by (auto simp: lvs)
    fix x U' R' M' and s' :: "('q, 'v, 'a) ht_mem_scheme"
    assume x: "find P (xss ! i) = Some x" "\<not> weak" and ok': "csl_ok Os ?K p ?S (remove1 x (xss ! i)) U' R' M' s'"
      and client: "only_client (user s) (user s')"
    have Px: "P x" "x \<in> set (xss ! i)" using x(1) by (auto simp: find_Some_iff)
    let ?xss = "xss[i := remove1 x (xss ! i)]" and ?A = "A\<lparr>array_item_count := array_item_count A - 1\<rparr>"
    have lv: "levels_ok G rf h T (lv1 @ (a, A, ?xss) # rest) E U' R' M' s'"
      by (rule return [OF ok' client]) (auto dest: notin_set_remove1)
    have ok2: "levels_ok G rf h T (lv1 @ (a, ?A, ?xss) # rest) E U' R' M' (one_less a A s')"
      unfolding one_less_def by (rule levels_ok_array [OF lv]) simp_all
    have con: "concat ?xss = remove1 x (concat xss)" by (rule concat_remove1 [OF len Px(2) only [OF _ _ Px(1)]])
    have xin: "x \<in> set (concat xss)" using Px(2) nth_mem [OF len] by auto
    have "x \<notin> set (level_items lv1)" using no x(2) Px(1) by blast
    then have items: "level_items (lv1 @ (a, ?A, ?xss) # rest) = remove1 x (level_items lvs)"
      using con xin by (simp add: lvs remove1_append del: set_concat)
    have "counts_ok (lv1 @ (a, ?A, ?xss) # rest)"
    proof -
      have c: "counts_ok lvs" using start by (simp add: search_setup_def)
      have "length (concat ?xss) = length (concat xss) - 1" "0 < length (concat xss)"
        unfolding con using xin length_pos_if_in_set [OF xin] by (simp_all only: length_remove1 if_True)
      moreover from this(2) have "of_nat (length (concat xss) - 1) = (of_nat (length (concat xss)) - 1 :: 32 word)"
        by (simp only: of_nat_diff Suc_leI One_nat_def of_nat_1 flip: One_nat_def)
      ultimately show ?thesis using c by (auto simp: counts_ok_def lvs)
    qed
    then show "ht_arrays s' a = Some A \<and> (\<exists>lvs'. level_items lvs' = remove1 x (level_items lvs) \<and> map fst lvs' = map fst lvs \<and> counts_ok lvs' \<and> (none_pending lvs \<longrightarrow> none_pending lvs') \<and>
        levels_ok G rf h T lvs' E U' R' M' (one_less a A s'))"
      using items ok2 levels_okD(4) [OF lv, of a A ?xss]
      by (intro conjI exI [of _ "lv1 @ (a, ?A, ?xss) # rest"]) (simp_all add: lvs none_pending_def)
  qed
qed

section \<open>Taking an item out\<close>

text \<open>
  The result of an operation that takes out the first item with \<open>P\<close>, of all levels together: either it
  is gone, and one retirement more is owed or has been carried out, or nothing has changed.
\<close>

definition taken_out :: "'q externals \<Rightarrow> ('q \<Rightarrow> ptr \<Rightarrow> inactive_thread list) \<Rightarrow> 'v ht_callbacks \<Rightarrow> ptr \<Rightarrow> ptr \<Rightarrow> clds_hash_table \<Rightarrow> ptr \<Rightarrow>
    (ptr \<Rightarrow> ptr option) \<Rightarrow> ptr set \<Rightarrow> (ptr \<Rightarrow> nat) \<Rightarrow> (ptr \<times> ptr) multiset \<Rightarrow> ptr set \<Rightarrow> level list \<Rightarrow> (ptr \<Rightarrow> bool) \<Rightarrow>
    (ptr \<Rightarrow> ptr \<Rightarrow> nat) \<Rightarrow> (ptr \<Rightarrow> ptr \<Rightarrow> 64 word option) \<Rightarrow> 'r \<Rightarrow> 'r \<Rightarrow> 'r \<Rightarrow> ('q, 'v, 'a) ht_mem_scheme \<Rightarrow> 'r \<Rightarrow> ('q, 'v, 'a) ht_mem_scheme \<Rightarrow> bool" where
  "taken_out X C G rf h T t N E U R M lvs P U' W okr not_found err s0 r s' \<longleftrightarrow>
     (\<exists>x lvs' R' M'. find P (level_items lvs) = Some x \<and> r = okr \<and> R' \<subseteq># add_mset (rf, x) R \<and> M' \<subseteq> M \<and> hp_ok X C s' t N R' M' \<and>
        levels_ok G rf h T lvs' E (U' x) R' M' s' \<and> level_items lvs' = remove1 x (level_items lvs) \<and> map fst lvs' = map fst lvs \<and> counts_ok lvs' \<and> (none_pending lvs \<longrightarrow> none_pending lvs') \<and>
        words s' = W x \<and> cleanups (list_callbacks G rf) (user s0) (user s') \<and>
        (plenty (Suc (size_of_levels lvs)) s0 \<longrightarrow> settled (list_callbacks G rf) U (add_mset (rf, x) R) s0 (U' x) R' s')) \<or>
     hp_ok X C s' t N R M \<and> levels_ok G rf h T lvs E U R M s' \<and> words s' = words s0 \<and> user s' = user s0 \<and>
       (r = not_found \<and> find P (level_items lvs) = None \<or> r = err \<and> \<not> plenty (size_of_levels lvs) s0)"

lemma wp_visit_unlink:
  fixes s s0 :: "('q, 'v, 'a) ht_mem_scheme"
  assumes s: "searching X C G rf h T t N E U R M lvs hash P b False s0 ((a, A, xss) # rest) s"
    and p: "p = hash_table A ! slot_index hash (array_bucket_count A)" "p \<noteq> null"
    and unlink: "\<And>Os xs. csl_ok Os (list_callbacks G rf) p (bucket_struct G h T) xs U R M s \<Longrightarrow> hp_ok X C s t N R M \<Longrightarrow>
      2 * (card (live s) + length xs + 1) + 4 < b \<Longrightarrow> set xs \<subseteq> set (level_items lvs) \<Longrightarrow> wp unlink (\<lambda>r s'.
        (\<exists>x R' M'. find P xs = Some x \<and> r = ok_list \<and> R' \<subseteq># add_mset (rf, x) R \<and> M' \<subseteq> M \<and> hp_ok X C s' t N R' M' \<and>
          csl_ok Os (list_callbacks G rf) p (bucket_struct G h T) (remove1 x xs) (U' x) R' M' s' \<and> words s' = W x \<and>
          cleanups (list_callbacks G rf) (user s0) (user s') \<and>
          (plenty (Suc (Suc (length xs))) s \<longrightarrow> settled (list_callbacks G rf) U (add_mset (rf, x) R) s (U' x) R' s')) \<or>
        hp_ok X C s' t N R M \<and> csl_ok Os (list_callbacks G rf) p (bucket_struct G h T) xs U R M s' \<and> walked (length xs) s s' \<and>
          (r = not_found_list \<and> find P xs = None \<or> r = err_list \<and> \<not> plenty (Suc (length xs)) s)) s"
    and k: "k ok_list = call (on_array a (add_fetch array_item_count array_item_count_update (- 1))) (\<lambda>_. Done (Some okr))"
      "k not_found_list = Done None" "k err_list = Done (Some err)"
  shows "wp (call unlink k) (\<lambda>r s'. case r of None \<Rightarrow> searching X C G rf h T t N E U R M lvs hash P b False s0 rest s'
    | Some v \<Rightarrow> taken_out X C G rf h T t N E U R M lvs P U' W okr not_found err s0 v s') s"
proof -
  let ?i = "slot_index hash (array_bucket_count A)" and ?K = "list_callbacks G rf" and ?S = "bucket_struct G h T"
  have hp: "hp_ok X C s t N R M" and u: "user s = user s0" "words s = words s0" using s by (simp_all add: searching_def)
  obtain Os where ok1: "csl_ok Os ?K p ?S (xss ! ?i) U R M s" and room: "2 * (card (live s) + length (xss ! ?i) + 1) + 4 < b"
    and pl: "\<not> plenty (Suc (length (xss ! ?i))) s \<Longrightarrow> \<not> plenty (size_of_levels lvs) s0"
    and on: "\<And>s' :: ('q, 'v, 'a) ht_mem_scheme. csl_ok Os ?K p ?S (xss ! ?i) U R M s' \<Longrightarrow> hp_ok X C s' t N R M \<Longrightarrow>
      walked (length (xss ! ?i)) s s' \<Longrightarrow> find P (xss ! ?i) = None \<or> False \<Longrightarrow> searching X C G rf h T t N E U R M lvs hash P b False s0 rest s'"
    and same: "\<And>U' R' M' s' :: ('q, 'v, 'a) ht_mem_scheme. csl_ok Os ?K p ?S (xss ! ?i) U' R' M' s' \<Longrightarrow>
      only_client (user s) (user s') \<Longrightarrow> levels_ok G rf h T lvs E U' R' M' s'"
    and first: "\<And>x. find P (xss ! ?i) = Some x \<Longrightarrow> \<not> False \<Longrightarrow> find P (level_items lvs) = Some x"
    and sub: "\<And>x. x \<in> set (xss ! ?i) \<Longrightarrow> x \<in> set (level_items lvs)"
    and gone: "\<And>x U' R' M' s' :: ('q, 'v, 'a) ht_mem_scheme. find P (xss ! ?i) = Some x \<Longrightarrow> \<not> False \<Longrightarrow>
      csl_ok Os ?K p ?S (remove1 x (xss ! ?i)) U' R' M' s' \<Longrightarrow> only_client (user s) (user s') \<Longrightarrow>
      ht_arrays s' a = Some A \<and> (\<exists>lvs'. level_items lvs' = remove1 x (level_items lvs) \<and> map fst lvs' = map fst lvs \<and> counts_ok lvs' \<and> (none_pending lvs \<longrightarrow> none_pending lvs') \<and>
        levels_ok G rf h T lvs' E U' R' M' (one_less a A s'))"
    and more: "plenty (Suc (size_of_levels lvs)) s0 \<Longrightarrow> plenty (Suc (Suc (length (xss ! ?i)))) s"
    apply (rule searching_bucket [OF s refl p])
    subgoal premises prems for Os by (rule prems(1) [OF prems(2-)])
    done
  have subset: "set (xss ! ?i) \<subseteq> set (level_items lvs)" using sub by blast
  have since: "settled ?K V B s V' B' s' = settled ?K V B s0 V' B' s'" for V B V' B' and s' :: "('q, 'v, 'a) ht_mem_scheme"
    using s by (simp add: searching_def settled_def refs_def)
  show ?thesis
  proof (rule wp_seq [OF unlink [OF ok1 hp room subset]], elim disjE exE conjE, goal_cases)
    case (1 r s' x R' M')
    have client: "only_client (user s) (user s')" using cleanups_client [OF 1(8)] u by simp
    from gone [OF 1(1) _ 1(6) client] obtain lvs' where arr: "ht_arrays s' a = Some A"
      and lvs': "level_items lvs' = remove1 x (level_items lvs)" "map fst lvs' = map fst lvs" "counts_ok lvs'" "none_pending lvs \<Longrightarrow> none_pending lvs'"
        "levels_ok G rf h T lvs' E (U' x) R' M' (one_less a A s')" by blast
    have "taken_out X C G rf h T t N E U R M lvs P U' W okr not_found err s0 okr (one_less a A s')"
      unfolding taken_out_def using 1 lvs' first [OF 1(1)] more since
      by (intro disjI1 exI [of _ x] exI [of _ lvs'] exI [of _ R'] exI [of _ M'] conjI) simp_all
    then show ?case by (simp add: 1(2) k wp_call wp_one_less [OF arr] wp_Done)
  next
    case (2 r s')
    have "searching X C G rf h T t N E U R M lvs hash P b False s0 rest s'" by (rule on [OF 2(2,1,3)]) (simp add: 2)
    then show ?case by (simp add: 2(4) k wp_Done)
  next
    case (3 r s')
    have "levels_ok G rf h T lvs E U R M s'" by (rule same [OF 3(2)]) (simp add: walkedD [OF 3(3)])
    then have "taken_out X C G rf h T t N E U R M lvs P U' W okr not_found err s0 err s'"
      unfolding taken_out_def using 3 pl walkedD(1,2) [OF 3(3)] u by auto
    then show ?case by (simp add: 3(4) k wp_Done)
  qed
qed

text \<open>The end of the search.\<close>

lemma searching_nothing:
  assumes "searching X C G rf h T t N E U R M lvs hash P b False s0 [] s"
  shows "taken_out X C G rf h T t N E U R M lvs P U' W okr not_found err s0 not_found s"
  using assms unfolding searching_def taken_out_def by (auto simp: find_None_iff)

section \<open>Deleting and removing\<close>

definition key_is :: "'v ht_callbacks \<Rightarrow> clds_hash_table \<Rightarrow> 'v ht_user \<Rightarrow> ptr \<Rightarrow> ptr \<Rightarrow> bool" where
  "key_is G T u key x \<longleftrightarrow> table_cmp G T (get_item_key_cb x u) key = 0"

text \<open>The sequence numbers of an operation on the table: the buckets count on the table's counter.\<close>

definition table_seq_ok :: "clds_hash_table \<Rightarrow> ptr \<Rightarrow> (ptr \<Rightarrow> 64 word option) \<Rightarrow> bool" where
  "table_seq_ok T seq W \<longleftrightarrow> (table_sequence_number T \<noteq> null \<longrightarrow> W (table_sequence_number T) \<noteq> None) \<and>
     (seq \<noteq> null \<longrightarrow> table_sequence_number T \<noteq> null \<and> W seq \<noteq> None)"

definition table_number :: "clds_hash_table \<Rightarrow> (ptr \<Rightarrow> 64 word option) \<Rightarrow> 64 word" where
  "table_number T W = (if table_sequence_number T = null then 0 else the (W (table_sequence_number T)) + 1)"

definition table_counted :: "clds_hash_table \<Rightarrow> (ptr \<Rightarrow> 64 word option) \<Rightarrow> ptr \<Rightarrow> 64 word option" where
  "table_counted T W = (if table_sequence_number T = null then W else W(table_sequence_number T \<mapsto> table_number T W))"

lemma bucket_numbers [simp]:
  "seq_ok (bucket_struct G h T) seq W = table_seq_ok T seq W" "next_number (bucket_struct G h T) W = table_number T W"
  "counted_on (bucket_struct G h T) W = table_counted T W" "locked_for_write (bucket_struct G h T) = 0"
  by (auto simp: seq_ok_def table_seq_ok_def next_number_def table_number_def counted_on_def table_counted_def bucket_struct_def)

lemma writing_numbers [simp]:
  "table_seq_ok (writing T) = table_seq_ok T" "table_number (writing T) = table_number T" "table_counted (writing T) = table_counted T"
  "key_is G (writing T) = key_is G T"
  by (simp_all add: fun_eq_iff table_seq_ok_def table_number_def table_counted_def key_is_def)

text \<open>The invariant of a search, with what its visits need besides.\<close>

definition search_inv where
  "search_inv X C G rf h T t N E U R M lvs hash P b weak needs s0 rest s \<longleftrightarrow>
     searching X C G rf h T t N E U R M lvs hash P b weak s0 rest s \<and> needs"

lemma search_inv_level:
  assumes "search_inv X C G rf h T t N E U R M lvs hash P b weak needs s0 ((a, A, xss) # rest) s"
  shows "a \<noteq> null \<and> ht_arrays s a = Some A \<and> next_bucket A = first_of (map fst rest) \<and>
    slot_index hash (array_bucket_count A) < length (hash_table A)"
  by (rule searching_level [OF conjunct1 [OF assms [unfolded search_inv_def]]])

lemma search_inv_passed:
  assumes "search_inv X C G rf h T t N E U R M lvs hash P b weak needs s0 ((a, A, xss) # rest) s"
    and "array_item_count A = 0 \<or> hash_table A ! slot_index hash (array_bucket_count A) = null"
  shows "search_inv X C G rf h T t N E U R M lvs hash P b weak needs s0 rest s"
  using searching_passed [OF conjunct1 [OF assms(1) [unfolded search_inv_def]] assms(2)] assms(1) by (simp add: search_inv_def)

lemma searchingD:
  assumes "searching X C G rf h T t N E U R M lvs hash P b weak s0 rest s"
  shows "levels_ok G rf h T lvs E U R M s" "hp_ok X C s t N R M" "words s = words s0" "user s = user s0" "csl_items s = csl_items s0"
    "refs s = refs s0" "callbacks_ok (list_callbacks G rf)"
  using assms list_callbacks_ok [of G rf] unfolding searching_def search_setup_def by (auto simp: refs_def fun_eq_iff)

lemma bucket_match:
  assumes "searching X C G rf h T t N E U R M lvs hash P b weak s0 rest s"
  shows "(\<lambda>x. cmp (list_callbacks G rf) (bucket_struct G h T) (user s) (key_of (list_callbacks G rf) (bucket_struct G h T) (user s) x) key = 0) =
    key_is G T (user s0) key"
  using bucket_compare [OF searchingD(1) [OF assms]] searchingD(4) [OF assms] by (simp add: key_is_def fun_eq_iff)

interpretation delete_search: level_search hash "\<lambda>a l. call (clds_sorted_list_delete_key X (list_callbacks G rf) b l t key seq) (deleted_from a)"
  CLDS_HASH_TABLE_DELETE_NOT_FOUND
  "search_inv X C G rf h T t N E U R M lvs hash (key_is G T (user s0) key) b False (key \<noteq> null \<and> table_seq_ok T seq (words s0)) s0"
  "taken_out X C G rf h T t N E U R M lvs (key_is G T (user s0) key) (\<lambda>x. U) (\<lambda>x. given_out seq (table_number T (words s0)) (table_counted T (words s0)))
     CLDS_HASH_TABLE_DELETE_OK CLDS_HASH_TABLE_DELETE_NOT_FOUND CLDS_HASH_TABLE_DELETE_ERROR s0"
  for X C G rf h T t N E U R M lvs hash key seq b and s0 :: "('q, 'v, 'a) ht_mem_scheme"
proof (unfold_locales, goal_cases)
  case 1
  then show ?case by (rule search_inv_level)
next
  case 2
  then show ?case by (rule search_inv_passed)
next
  case (3 a A xss rest s p)
  then have s: "searching X C G rf h T t N E U R M lvs hash (key_is G T (user s0) key) b False s0 ((a, A, xss) # rest) s" and key: "key \<noteq> null"
    and seq: "table_seq_ok T seq (words s0)" unfolding search_inv_def by blast+
  note d = searchingD [OF s] and P = bucket_match [OF s]
  show ?case
  proof (rule wp_mono [OF wp_visit_unlink [OF s 3(2,3), where ok_list = CLDS_SORTED_LIST_DELETE_OK and not_found_list = CLDS_SORTED_LIST_DELETE_NOT_FOUND
        and err_list = CLDS_SORTED_LIST_DELETE_ERROR and okr = CLDS_HASH_TABLE_DELETE_OK and err = CLDS_HASH_TABLE_DELETE_ERROR
        and U' = "\<lambda>x. U" and W = "\<lambda>x. given_out seq (table_number T (words s0)) (table_counted T (words s0))"
        and k = "deleted_from a"]], goal_cases)
    case (1 Os xs)
    have "seq_ok (bucket_struct G h T) seq (words s)" using seq d(3) by simp
    from wp_delete_key [OF d(2,7) 1(1) _ this 1(3) key, unfolded P] show ?case by (rule wp_mono) (auto simp: d(3,4))
  qed (use seq key in \<open>auto simp: deleted_from_def search_inv_def split: option.splits\<close>)
next
  case 4
  then show ?case unfolding search_inv_def by (intro searching_nothing) (erule conjunct1)
qed

interpretation delete_key_value_search: level_search hash
  "\<lambda>a l. call (clds_sorted_list_delete_item X (list_callbacks G rf) b l t v seq) (deleted_from a)" CLDS_HASH_TABLE_DELETE_NOT_FOUND
  "search_inv X C G rf h T t N E U R M lvs hash (\<lambda>x. x = v) b False (v \<noteq> null \<and> table_seq_ok T seq (words s0)) s0"
  "taken_out X C G rf h T t N E U R M lvs (\<lambda>x. x = v) (\<lambda>x. U) (\<lambda>x. given_out seq (table_number T (words s0)) (table_counted T (words s0)))
     CLDS_HASH_TABLE_DELETE_OK CLDS_HASH_TABLE_DELETE_NOT_FOUND CLDS_HASH_TABLE_DELETE_ERROR s0"
  for X C G rf h T t N E U R M lvs hash v seq b and s0 :: "('q, 'v, 'a) ht_mem_scheme"
proof (unfold_locales, goal_cases)
  case 1
  then show ?case by (rule search_inv_level)
next
  case 2
  then show ?case by (rule search_inv_passed)
next
  case (3 a A xss rest s p)
  then have s: "searching X C G rf h T t N E U R M lvs hash (\<lambda>x. x = v) b False s0 ((a, A, xss) # rest) s" and v: "v \<noteq> null"
    and seq: "table_seq_ok T seq (words s0)" unfolding search_inv_def by blast+
  note d = searchingD [OF s]
  have P: "find (\<lambda>x. x = v) xs = (if v \<in> set xs then Some v else None)" for xs by (induction xs) auto
  show ?case
  proof (rule wp_mono [OF wp_visit_unlink [OF s 3(2,3), where ok_list = CLDS_SORTED_LIST_DELETE_OK and not_found_list = CLDS_SORTED_LIST_DELETE_NOT_FOUND
        and err_list = CLDS_SORTED_LIST_DELETE_ERROR and okr = CLDS_HASH_TABLE_DELETE_OK and err = CLDS_HASH_TABLE_DELETE_ERROR
        and U' = "\<lambda>x. U" and W = "\<lambda>x. given_out seq (table_number T (words s0)) (table_counted T (words s0))"
        and k = "deleted_from a"]], goal_cases)
    case (1 Os xs)
    have "seq_ok (bucket_struct G h T) seq (words s)" using seq d(3) by simp
    from wp_delete_item [OF d(2,7) 1(1) _ this 1(3) v] show ?case by (rule wp_mono) (auto simp: d(3,4) P)
  qed (use seq v in \<open>auto simp: deleted_from_def search_inv_def split: option.splits\<close>)
next
  case 4
  then show ?case unfolding search_inv_def by (intro searching_nothing) (erule conjunct1)
qed

interpretation remove_search: level_search hash
  "\<lambda>a l. call (clds_sorted_list_remove_key X (list_callbacks G rf) b l t key item seq) (\<lambda>list_remove_result.
       if list_remove_result = CLDS_SORTED_LIST_REMOVE_NOT_FOUND then Done None
       else if list_remove_result = CLDS_SORTED_LIST_REMOVE_OK then
         call (on_array a (add_fetch array_item_count array_item_count_update (- 1))) (\<lambda>_.
         Done (Some CLDS_HASH_TABLE_REMOVE_OK))
       else Done (Some CLDS_HASH_TABLE_REMOVE_ERROR))" CLDS_HASH_TABLE_REMOVE_NOT_FOUND
  "search_inv X C G rf h T t N E U R M lvs hash (key_is G T (user s0) key) b False (key \<noteq> null \<and> table_seq_ok T seq (words s0) \<and>
     words s0 item \<noteq> None \<and> (\<forall>x \<in> set (level_items lvs). Suc (refs s0 x) < 2 ^ 32)) s0"
  "taken_out X C G rf h T t N E U R M lvs (key_is G T (user s0) key) (\<lambda>x. U(x := Suc (U x)))
     (\<lambda>x. given_out seq (table_number T (words s0)) ((table_counted T (words s0))(item \<mapsto> x)))
     CLDS_HASH_TABLE_REMOVE_OK CLDS_HASH_TABLE_REMOVE_NOT_FOUND CLDS_HASH_TABLE_REMOVE_ERROR s0"
  for X C G rf h T t N E U R M lvs hash key item seq b and s0 :: "('q, 'v, 'a) ht_mem_scheme"
proof (unfold_locales, goal_cases)
  case 1
  then show ?case by (rule search_inv_level)
next
  case 2
  then show ?case by (rule search_inv_passed)
next
  case (3 a A xss rest s p)
  then have s: "searching X C G rf h T t N E U R M lvs hash (key_is G T (user s0) key) b False s0 ((a, A, xss) # rest) s" and key: "key \<noteq> null"
    and seq: "table_seq_ok T seq (words s0)" and item: "words s0 item \<noteq> None" and refs: "\<forall>x \<in> set (level_items lvs). Suc (refs s0 x) < 2 ^ 32"
    unfolding search_inv_def by blast+
  note d = searchingD [OF s] and P = bucket_match [OF s]
  show ?case
  proof (rule wp_mono [OF wp_visit_unlink [OF s 3(2,3), where ok_list = CLDS_SORTED_LIST_REMOVE_OK and not_found_list = CLDS_SORTED_LIST_REMOVE_NOT_FOUND
        and err_list = CLDS_SORTED_LIST_REMOVE_ERROR and okr = CLDS_HASH_TABLE_REMOVE_OK and err = CLDS_HASH_TABLE_REMOVE_ERROR
        and U' = "\<lambda>x. U(x := Suc (U x))" and W = "\<lambda>x. given_out seq (table_number T (words s0)) ((table_counted T (words s0))(item \<mapsto> x))"
        and k = "\<lambda>list_remove_result. if list_remove_result = CLDS_SORTED_LIST_REMOVE_NOT_FOUND then Done None
          else if list_remove_result = CLDS_SORTED_LIST_REMOVE_OK then
            call (on_array a (add_fetch array_item_count array_item_count_update (- 1))) (\<lambda>_. Done (Some CLDS_HASH_TABLE_REMOVE_OK))
          else Done (Some CLDS_HASH_TABLE_REMOVE_ERROR)"]], goal_cases)
    case (1 Os xs)
    have "seq_ok (bucket_struct G h T) seq (words s)" using seq d(3) by simp
    from wp_remove_key [OF d(2,7) 1(1) _ this 1(3) key, of item, unfolded P] show ?case
      by (rule wp_mono) (use refs item 1(4) in \<open>auto simp: d(3,4,6)\<close>)
  qed (use seq key item refs in \<open>auto simp: search_inv_def split: option.splits\<close>)
next
  case 4
  then show ?case unfolding search_inv_def by (intro searching_nothing) (erule conjunct1)
qed

section \<open>Looking up\<close>

lemma same_key:
  assumes "ht_callbacks_ok G"
  shows "table_cmp G T key (get_item_key_cb x u) = 0 \<longleftrightarrow> key_is G T u key x"
    and "key_is G T u key x \<Longrightarrow> key_is G T u key y \<Longrightarrow> table_cmp G T (get_item_key_cb x u) (get_item_key_cb y u) = 0"
proof -
  have sym: "sgn (table_cmp G T k' k) = - sgn (table_cmp G T k k')" for k k' using assms unfolding ht_callbacks_ok_def by blast
  have tr: "table_cmp G T k k'' \<le> 0" if "table_cmp G T k k' \<le> 0" "table_cmp G T k' k'' \<le> 0" for k k' k''
    using assms that unfolding ht_callbacks_ok_def by blast
  have zero: "table_cmp G T k k' = 0 \<longleftrightarrow> table_cmp G T k' k = 0" for k k' using sym [of k k'] by (metis neg_0_equal_iff_equal sgn_0_0)
  have le: "table_cmp G T k' k \<le> 0 \<longleftrightarrow> 0 \<le> table_cmp G T k k'" for k k'
    using sym [of k k'] by (cases "table_cmp G T k k'" "0 :: int" rule: linorder_cases; cases "table_cmp G T k' k" "0 :: int" rule: linorder_cases) auto
  show "table_cmp G T key (get_item_key_cb x u) = 0 \<longleftrightarrow> key_is G T u key x" unfolding key_is_def by (rule zero)
  assume "key_is G T u key x" "key_is G T u key y"
  then have "table_cmp G T (get_item_key_cb x u) key = 0" "table_cmp G T key (get_item_key_cb y u) = 0"
    "table_cmp G T (get_item_key_cb y u) key = 0" "table_cmp G T key (get_item_key_cb x u) = 0" unfolding key_is_def using zero by blast+
  then have "table_cmp G T (get_item_key_cb x u) (get_item_key_cb y u) \<le> 0" "table_cmp G T (get_item_key_cb y u) (get_item_key_cb x u) \<le> 0"
    using tr by (metis order_refl)+
  then show "table_cmp G T (get_item_key_cb x u) (get_item_key_cb y u) = 0" using le by (metis order_antisym)
qed

definition found_in :: "'q externals \<Rightarrow> ('q \<Rightarrow> ptr \<Rightarrow> inactive_thread list) \<Rightarrow> 'v ht_callbacks \<Rightarrow> ptr \<Rightarrow> ptr \<Rightarrow> clds_hash_table \<Rightarrow> ptr \<Rightarrow>
    (ptr \<Rightarrow> ptr option) \<Rightarrow> ptr set \<Rightarrow> (ptr \<Rightarrow> nat) \<Rightarrow> (ptr \<times> ptr) multiset \<Rightarrow> ptr set \<Rightarrow> level list \<Rightarrow> (ptr \<Rightarrow> bool) \<Rightarrow>
    ('q, 'v, 'a) ht_mem_scheme \<Rightarrow> ptr \<Rightarrow> ('q, 'v, 'a) ht_mem_scheme \<Rightarrow> bool" where
  "found_in X C G rf h T t N E U R M lvs P s0 r s' \<longleftrightarrow> hp_ok X C s' t N R M \<and> words s' = words s0 \<and> user s' = user s0 \<and>
     (case find P (level_items lvs) of
        None \<Rightarrow> r = null \<and> levels_ok G rf h T lvs E U R M s'
      | Some x \<Rightarrow> r = x \<and> levels_ok G rf h T lvs E (U(x := Suc (U x))) R M s' \<or>
                 r = null \<and> \<not> plenty (size_of_levels lvs) s0 \<and> levels_ok G rf h T lvs E U R M s')"

interpretation find_search: level_search hash
  "\<lambda>a l. call (clds_sorted_list_find_key (list_callbacks G rf) b l t key) (\<lambda>result. Done (if result = null then None else Some result))" null
  "search_inv X C G rf h T t N E U R M lvs hash (key_is G T (user s0) key) b (\<not> plenty (size_of_levels lvs) s0) (key \<noteq> null \<and>
     (\<forall>x \<in> set (level_items lvs). Suc (refs s0 x) < 2 ^ 32) \<and> unique_keys G T (user s0) (level_items lvs)) s0"
  "found_in X C G rf h T t N E U R M lvs (key_is G T (user s0) key) s0"
  for X C G rf h T t N E U R M lvs hash key b and s0 :: "('q, 'v, 'a) ht_mem_scheme"
proof (unfold_locales, goal_cases)
  case 1
  then show ?case by (rule search_inv_level)
next
  case 2
  then show ?case by (rule search_inv_passed)
next
  case (3 a A xss rest s p)
  let ?i = "slot_index hash (array_bucket_count A)" and ?K = "list_callbacks G rf" and ?S = "bucket_struct G h T" and ?P = "key_is G T (user s0) key"
  let ?w = "\<not> plenty (size_of_levels lvs) s0"
  from 3 have s: "searching X C G rf h T t N E U R M lvs hash ?P b ?w s0 ((a, A, xss) # rest) s" and key: "key \<noteq> null"
    and refs: "\<forall>x \<in> set (level_items lvs). Suc (refs s0 x) < 2 ^ 32" and unique: "unique_keys G T (user s0) (level_items lvs)"
    unfolding search_inv_def by blast+
  note d = searchingD [OF s]
  have cb: "ht_callbacks_ok G" using s by (simp add: searching_def search_setup_def)
  obtain Os where ok1: "csl_ok Os ?K p ?S (xss ! ?i) U R M s" and room: "2 * (card (live s) + length (xss ! ?i) + 1) + 4 < b"
    and pl: "\<not> plenty (Suc (length (xss ! ?i))) s \<Longrightarrow> \<not> plenty (size_of_levels lvs) s0"
    and on: "\<And>s' :: ('q, 'v, 'a) ht_mem_scheme. csl_ok Os ?K p ?S (xss ! ?i) U R M s' \<Longrightarrow> hp_ok X C s' t N R M \<Longrightarrow>
      walked (length (xss ! ?i)) s s' \<Longrightarrow> find ?P (xss ! ?i) = None \<or> ?w \<Longrightarrow> searching X C G rf h T t N E U R M lvs hash ?P b ?w s0 rest s'"
    and same: "\<And>U' R' M' s' :: ('q, 'v, 'a) ht_mem_scheme. csl_ok Os ?K p ?S (xss ! ?i) U' R' M' s' \<Longrightarrow>
      only_client (user s) (user s') \<Longrightarrow> levels_ok G rf h T lvs E U' R' M' s'"
    and sub: "\<And>x. x \<in> set (xss ! ?i) \<Longrightarrow> x \<in> set (level_items lvs)"
    apply (rule searching_bucket [OF s refl 3(2,3)])
    subgoal premises prems for Os by (rule prems(1) [OF prems(2-6,8)])
    done
  have room1: "card (live s) + length (xss ! ?i) + 1 < b" using room by simp
  have P: "(\<lambda>x. cmp ?K ?S (user s) key (key_of ?K ?S (user s) x) = 0) = ?P"
    using same_key(1) [OF cb, of T key _ "user s0"] by (simp add: bucket_compare [OF d(1), unfolded d(4)] d(4) fun_eq_iff)
  have refs1: "Suc (refs s x) < 2 ^ 32" if "x \<in> set (xss ! ?i)" for x using refs sub [OF that] by (simp add: d(6))
  have one: "find ?P (level_items lvs) = Some x" if "find ?P (xss ! ?i) = Some x" for x
  proof -
    have x: "?P x" "x \<in> set (level_items lvs)" using that sub by (auto simp: find_Some_iff)
    then obtain y where y: "find ?P (level_items lvs) = Some y" by (cases "find ?P (level_items lvs)") (auto simp: find_None_iff)
    then have "?P y" "y \<in> set (level_items lvs)" by (auto simp: find_Some_iff)
    with unique x same_key(2) [OF cb, of T "user s0" key x y] have "x = y" by (simp add: unique_keys_def)
    with y show ?thesis by simp
  qed
  have "wp (clds_sorted_list_find_key ?K b p t key) (\<lambda>r s'. if r = null
      then searching X C G rf h T t N E U R M lvs hash ?P b ?w s0 rest s' else found_in X C G rf h T t N E U R M lvs ?P s0 r s') s"
  proof (rule wp_mono [OF wp_find_key [OF d(2) ok1 key room1 refs1, unfolded P]], assumption, elim conjE, goal_cases)
    case (1 r s')
    show ?case
    proof (cases "r = null")
      case True
      have "x \<noteq> null" if "find ?P (xss ! ?i) = Some x" for x
        using that csl_ok_not_null [OF ok1] nth_mem by (force simp: find_Some_iff)
      then have "find ?P (xss ! ?i) = None \<or> ?w" and ok': "csl_ok Os ?K p ?S (xss ! ?i) U R M s'" "csl_items s' = csl_items s"
        using 1(6) True pl by (auto split: option.splits)
      moreover have "walked (length (xss ! ?i)) s s'" using 1 ok'(2) by (simp add: walked_def)
      ultimately have "searching X C G rf h T t N E U R M lvs hash ?P b ?w s0 rest s'" using on [OF ok'(1) 1(1)] by blast
      then show ?thesis using True by simp
    next
      case False
      then obtain x where x: "find ?P (xss ! ?i) = Some x" "r = x" "csl_ok Os ?K p ?S (xss ! ?i) (U(x := Suc (U x))) R M s'"
        using 1(6) by (auto split: option.splits)
      have "levels_ok G rf h T lvs E (U(x := Suc (U x))) R M s'" by (rule same [OF x(3)]) (simp add: 1(3))
      then have "found_in X C G rf h T t N E U R M lvs ?P s0 r s'"
        unfolding found_in_def using 1(1-3) x(2) one [OF x(1)] d(3,4) by simp
      then show ?thesis using False by simp
    qed
  qed
  then show ?case
    unfolding wp_call by (rule wp_mono) (use key refs unique in \<open>auto simp: wp_Done search_inv_def\<close>)
next
  case (4 s)
  then have "searching X C G rf h T t N E U R M lvs hash (key_is G T (user s0) key) b (\<not> plenty (size_of_levels lvs) s0) s0 [] s"
    unfolding search_inv_def by (rule conjunct1)
  then show ?case unfolding searching_def found_in_def by (auto split: option.splits simp: find_Some_iff)
qed

section \<open>The operations\<close>

text \<open>What holds between two operations on a table.\<close>

definition table_ok :: "'v ht_callbacks \<Rightarrow> ptr \<Rightarrow> ptr \<Rightarrow> clds_hash_table \<Rightarrow> level list \<Rightarrow> ptr set \<Rightarrow> (ptr \<Rightarrow> nat) \<Rightarrow> (ptr \<times> ptr) multiset \<Rightarrow> ptr set \<Rightarrow>
    ('q, 'v, 'a) ht_mem_scheme \<Rightarrow> bool" where
  "table_ok G rf h T lvs E U R M s \<longleftrightarrow> levels_ok G rf h T lvs E U R M s \<and> counts_ok lvs \<and> none_pending lvs \<and> unique_keys G T (user s) (level_items lvs) \<and>
     hash_respects G T \<and> ht_callbacks_ok G \<and> locked_for_write T = 0 \<and> table_hazard_pointers T \<noteq> null"

lemma table_okD:
  assumes "table_ok G rf h T lvs E U R M s"
  shows "levels_ok G rf h T lvs E U R M s" "counts_ok lvs" "unique_keys G T (user s) (level_items lvs)" "hash_respects G T" "ht_callbacks_ok G"
    "locked_for_write T = 0" "table_hazard_pointers T \<noteq> null" "none_pending lvs"
  using assms unfolding table_ok_def by auto

lemma searching_start:
  assumes "levels_ok G rf h T lvs E U R M s" and "hp_ok X C s t N R M" and "search_setup G T lvs hash P b s"
  shows "searching X C G rf h T t N E U R M lvs hash P b weak s lvs s"
  using assms unfolding searching_def by (auto intro!: exI [of _ "[]"])

lemma setup_key:
  assumes "ht_callbacks_ok G" "counts_ok lvs" "hash_respects G T" and "2 * (card (live s) + size_of_levels lvs) + 4 < b"
  shows "search_setup G T lvs (table_hash G T key) (key_is G T (user s) key) b s"
  using assms unfolding search_setup_def hash_respects_def key_is_def size_of_levels_def by auto

lemma table_args:
  assumes "hp_ok X C s t N R M" and "levels_ok G rf h T lvs E U R M s"
  shows "h \<noteq> null" "t \<noteq> null"
  using levels_okD(1) [OF assms(2)] hp.client_memory [OF assms(1)] by auto

lemma wp_table_find:
  fixes s :: "('q, 'v, 'a) ht_mem_scheme"
  assumes hp: "hp_ok X C s t N R M" and ok: "table_ok G rf h T lvs E U R M s" and key: "key \<noteq> null"
    and room: "2 * (card (live s) + size_of_levels lvs) + 4 < b" and refs: "\<forall>x \<in> set (level_items lvs). Suc (refs s x) < 2 ^ 32"
  shows "wp (clds_hash_table_find G (list_callbacks G rf) b h t key) (found_in X C G rf h T t N E U R M lvs (key_is G T (user s) key) s) s"
proof -
  note k = table_okD [OF ok]
  have T: "ht_tables (user s) h = Some (T\<lparr>first_hash_table := first_of (map fst lvs)\<rparr>)" by (rule levels_okD(2) [OF k(1)])
  have "search_inv X C G rf h T t N E U R M lvs (table_hash G T key) (key_is G T (user s) key) b (\<not> plenty (size_of_levels lvs) s) (key \<noteq> null \<and>
     (\<forall>x \<in> set (level_items lvs). Suc (refs s x) < 2 ^ 32) \<and> unique_keys G T (user s) (level_items lvs)) s lvs s"
    unfolding search_inv_def using searching_start [OF k(1) hp setup_key [OF k(5,2,4) room]] key refs k(3) by simp
  from find_search.search [OF this, where n = b]
  show ?thesis
    using room table_args [OF hp k(1)] key
    by (simp add: clds_hash_table_find_def wp_call [of "hash_of_key _ _ _"] wp_hash_of_key [OF T] wp_call [of "on_table _ _"] wp_table_reads [OF T] size_of_levels_def)
qed

text \<open>The state at the end of a write operation, when the table is as it was.\<close>

lemma cleanups_tables:
  assumes "cleanups (list_callbacks G rf) u u'"
  shows "cleanups (list_callbacks G rf) (u\<lparr>ht_tables := m\<rparr>) (u'\<lparr>ht_tables := m\<rparr>)"
proof -
  have one: "(item_cleanup (list_callbacks G rf) f c x u)\<lparr>ht_tables := m\<rparr> = item_cleanup (list_callbacks G rf) f c x (u\<lparr>ht_tables := m\<rparr>)" for f c x u
    by (cases u) (simp add: list_callbacks_def sorted_list_item_cleanup_def split: option.splits)
  have all: "(fold (\<lambda>(f, c, x). item_cleanup (list_callbacks G rf) f c x) cs u)\<lparr>ht_tables := m\<rparr> =
      fold (\<lambda>(f, c, x). item_cleanup (list_callbacks G rf) f c x) cs (u\<lparr>ht_tables := m\<rparr>)" for cs
    by (induction cs arbitrary: u) (auto simp: one)
  then show ?thesis using assms unfolding cleanups_def by blast
qed

lemma user_restored:
  assumes "ht_tables (user s) h = Some T" and "only_client (user (table_at h T' s)) u"
  shows "u\<lparr>ht_tables := (ht_tables u)(h \<mapsto> T)\<rparr> = u\<lparr>ht_tables := ht_tables (user s)\<rparr>" "(user (table_at h T' s))\<lparr>ht_tables := ht_tables (user s)\<rparr> = user s"
proof -
  have "(ht_tables u)(h \<mapsto> T) = ht_tables (user s)" using assms by (simp add: only_client_def table_at_def fun_upd_idem)
  then show "u\<lparr>ht_tables := (ht_tables u)(h \<mapsto> T)\<rparr> = u\<lparr>ht_tables := ht_tables (user s)\<rparr>" by simp
  show "(user (table_at h T' s))\<lparr>ht_tables := ht_tables (user s)\<rparr> = user s" by (cases "user s") (simp add: table_at_def)
qed

lemma taken_out_ends:
  fixes s s2 :: "('q, 'v, 'a) ht_mem_scheme"
  assumes ok: "levels_ok G rf h T lvs E U R M s"
    and post: "taken_out X C G rf h (writing T) t N E U R M lvs P U' W okr not_found err (table_at h T' s) r s2"
  shows "wp (end_write_operation (table_lock h)) (\<lambda>_. taken_out X C G rf h T t N E U R M lvs P U' W okr not_found err s r) s2"
  using post unfolding taken_out_def
proof (elim disjE exE conjE, goal_cases)
  case (1 x lvs' R' M')
  let ?T = "T\<lparr>first_hash_table := first_of (map fst lvs')\<rparr>"
  have T: "ht_tables (user s) h = Some ?T" using levels_okD(2) [OF ok] 1(8) by simp
  have c: "only_client (user (table_at h T' s)) (user s2)" by (rule cleanups_client [OF 1(12)])
  have "cleanups (list_callbacks G rf) ((user (table_at h T' s))\<lparr>ht_tables := ht_tables (user s)\<rparr>) ((user s2)\<lparr>ht_tables := ht_tables (user s)\<rparr>)"
    by (rule cleanups_tables [OF 1(12)])
  then have "cleanups (list_callbacks G rf) (user s) (user (table_at h ?T s2))"
    using user_restored [OF T c] by (simp add: table_at_def)
  then show ?case unfolding wp_end_table(1) [OF 1(6)] using 1 wp_end_table(2) [OF 1(6)] by fastforce
next
  case 2
  let ?T = "T\<lparr>first_hash_table := first_of (map fst lvs)\<rparr>"
  have T: "ht_tables (user s) h = Some ?T" by (rule levels_okD(2) [OF ok])
  have "user (table_at h ?T s2) = user s"
    using user_restored [OF T, of T' "user s2"] 2(4) by (simp add: table_at_def)
  then show ?case unfolding wp_end_table(1) [OF 2(2)] using 2 wp_end_table(2) [OF 2(2)] by auto
next
  case 3
  let ?T = "T\<lparr>first_hash_table := first_of (map fst lvs)\<rparr>"
  have T: "ht_tables (user s) h = Some ?T" by (rule levels_okD(2) [OF ok])
  have "user (table_at h ?T s2) = user s"
    using user_restored [OF T, of T' "user s2"] 3(4) by (simp add: table_at_def)
  then show ?case unfolding wp_end_table(1) [OF 3(2)] using 3 wp_end_table(2) [OF 3(2)] by auto
qed

text \<open>The search within a write operation; \<open>mid\<close> is the state it starts from.\<close>

lemma write_search_start:
  fixes s :: "('q, 'v, 'a) ht_mem_scheme"
  assumes hp: "hp_ok X C s t N R M" and ok: "table_ok G rf h T lvs E U R M s" and room: "2 * (card (live s) + size_of_levels lvs) + 4 < b"
    and P: "\<forall>x \<in> set (level_items lvs). P x \<longrightarrow> table_hash G T (get_item_key_cb x (user s)) = hash"
    and mid: "mid = table_at h (T\<lparr>first_hash_table := first_of (map fst lvs), pending_write_operations := pending_write_operations T + 1\<rparr>) s"
  shows "wp (check_lock_and_begin_write_operation b (table_lock h)) Q s = Q () mid"
    and "searching X C G rf h (writing T) t N E U R M lvs hash P b weak mid lvs mid"
    and "ht_tables (user mid) h = Some ((writing T)\<lparr>first_hash_table := first_of (map fst lvs)\<rparr>)" and "length lvs < b"
    and "get_item_key_cb x (user mid) = get_item_key_cb x (user s)"
proof -
  note k = table_okD [OF ok]
  have b: "0 < b" using room by simp
  show "wp (check_lock_and_begin_write_operation b (table_lock h)) Q s = Q () mid" unfolding mid by (rule wp_begin_table(1) [OF k(1,6) b])
  have ok1: "levels_ok G rf h (writing T) lvs E U R M mid" unfolding mid by (rule wp_begin_table(2) [OF k(1,6) b])
  have "search_setup G (writing T) lvs hash P b mid"
    unfolding search_setup_def using k(2,5) room P by (simp add: mid size_of_levels_def)
  then show "searching X C G rf h (writing T) t N E U R M lvs hash P b weak mid lvs mid"
    by (intro searching_start [OF ok1]) (use hp in \<open>simp_all add: mid\<close>)
  show "ht_tables (user mid) h = Some ((writing T)\<lparr>first_hash_table := first_of (map fst lvs)\<rparr>)" by (rule levels_okD(2) [OF ok1])
  show "length lvs < b" using room by (simp add: size_of_levels_def)
  show "get_item_key_cb x (user mid) = get_item_key_cb x (user s)" by (simp add: mid)
qed

lemma key_is_cong: "(\<And>x. get_item_key_cb x u = get_item_key_cb x u') \<Longrightarrow> key_is G T u = key_is G T u'"
  by (simp add: key_is_def fun_eq_iff)

lemma taken_out_after:
  fixes s :: "('q, 'v, 'a) ht_mem_scheme"
  assumes ok: "levels_ok G rf h T lvs E U R M s"
    and found: "wp p (taken_out X C G rf h (writing T) t N E U R M lvs P U' W okr not_found err (table_at h T' s)) (table_at h T' s)"
  shows "wp (call p (\<lambda>r. call (end_write_operation (table_lock h)) (\<lambda>_. Done r)))
    (taken_out X C G rf h T t N E U R M lvs P U' W okr not_found err s) (table_at h T' s)"
  by (rule wp_seq [OF found]) (simp add: wp_call wp_Done_fun taken_out_ends [OF ok])

lemma writing_first [simp]: "first_hash_table (T\<lparr>first_hash_table := p, pending_write_operations := w\<rparr>) = p"
  "first_hash_table (T\<lparr>pending_write_operations := w, first_hash_table := p\<rparr>) = p"
  by simp_all

lemma counter_given: "table_seq_ok T seq W \<Longrightarrow> (seq \<noteq> null \<and> table_sequence_number T = null) = False"
  by (auto simp: table_seq_ok_def)

lemmas wp_table_calls = wp_call [of "no_table_counter_for _ _"] wp_call [of "check_lock_and_begin_write_operation _ _"] wp_call [of "hash_of_key _ _ _"]
  wp_call [of "on_table _ _"]

lemma wp_table_delete:
  fixes s :: "('q, 'v, 'a) ht_mem_scheme"
  assumes hp: "hp_ok X C s t N R M" and ok: "table_ok G rf h T lvs E U R M s" and key: "key \<noteq> null" and seq: "table_seq_ok T seq (words s)"
    and room: "2 * (card (live s) + size_of_levels lvs) + 4 < b"
  shows "wp (clds_hash_table_delete X G (list_callbacks G rf) b h t key seq)
    (taken_out X C G rf h T t N E U R M lvs (key_is G T (user s) key) (\<lambda>x. U) (\<lambda>x. given_out seq (table_number T (words s)) (table_counted T (words s)))
       CLDS_HASH_TABLE_DELETE_OK CLDS_HASH_TABLE_DELETE_NOT_FOUND CLDS_HASH_TABLE_DELETE_ERROR s) s"
proof -
  note k = table_okD [OF ok]
  define mid where "mid = table_at h (T\<lparr>first_hash_table := first_of (map fst lvs), pending_write_operations := pending_write_operations T + 1\<rparr>) s"
  have P: "\<forall>x \<in> set (level_items lvs). key_is G T (user s) key x \<longrightarrow> table_hash G T (get_item_key_cb x (user s)) = table_hash G T key"
    using k(4) by (auto simp: hash_respects_def key_is_def)
  note m = write_search_start [OF hp ok room P mid_def]
  have mid: "key_is G T (user mid) = key_is G T (user s)" "words mid = words s" by (rule key_is_cong [OF m(5)]) (simp_all add: mid_def)
  have inv: "search_inv X C G rf h (writing T) t N E U R M lvs (table_hash G T key) (key_is G (writing T) (user mid) key) b False
     (key \<noteq> null \<and> table_seq_ok (writing T) seq (words mid)) mid lvs mid"
    unfolding search_inv_def using m(2) key seq by (simp add: mid)
  have T: "ht_tables (user s) h = Some (T\<lparr>first_hash_table := first_of (map fst lvs)\<rparr>)" by (rule levels_okD(2) [OF k(1)])
  note found = taken_out_after [OF k(1) delete_search.search [OF inv m(4), unfolded writing_numbers mid, unfolded mid_def], folded mid_def]
  show ?thesis
    using table_args [OF hp k(1)] key found
    by (simp add: clds_hash_table_delete_def counter_given [OF seq] wp_table_calls wp_no_table_counter_for [OF T] m(1) wp_hash_of_key [OF m(3)] wp_table_reads [OF m(3)])
qed

lemma wp_table_delete_key_value:
  fixes s :: "('q, 'v, 'a) ht_mem_scheme"
  assumes hp: "hp_ok X C s t N R M" and ok: "table_ok G rf h T lvs E U R M s" and key: "key \<noteq> null" and v: "v \<noteq> null"
    and its: "v \<in> set (level_items lvs) \<Longrightarrow> table_hash G T (get_item_key_cb v (user s)) = table_hash G T key"
    and seq: "table_seq_ok T seq (words s)" and room: "2 * (card (live s) + size_of_levels lvs) + 4 < b"
  shows "wp (clds_hash_table_delete_key_value X G (list_callbacks G rf) b h t key v seq)
    (taken_out X C G rf h T t N E U R M lvs (\<lambda>x. x = v) (\<lambda>x. U) (\<lambda>x. given_out seq (table_number T (words s)) (table_counted T (words s)))
       CLDS_HASH_TABLE_DELETE_OK CLDS_HASH_TABLE_DELETE_NOT_FOUND CLDS_HASH_TABLE_DELETE_ERROR s) s"
proof -
  note k = table_okD [OF ok]
  define mid where "mid = table_at h (T\<lparr>first_hash_table := first_of (map fst lvs), pending_write_operations := pending_write_operations T + 1\<rparr>) s"
  have P: "\<forall>x \<in> set (level_items lvs). x = v \<longrightarrow> table_hash G T (get_item_key_cb x (user s)) = table_hash G T key" using its by blast
  note m = write_search_start [OF hp ok room P mid_def]
  have mid: "words mid = words s" by (simp add: mid_def)
  have inv: "search_inv X C G rf h (writing T) t N E U R M lvs (table_hash G T key) (\<lambda>x. x = v) b False
     (v \<noteq> null \<and> table_seq_ok (writing T) seq (words mid)) mid lvs mid"
    unfolding search_inv_def using m(2) v seq by (simp add: mid)
  have T: "ht_tables (user s) h = Some (T\<lparr>first_hash_table := first_of (map fst lvs)\<rparr>)" by (rule levels_okD(2) [OF k(1)])
  note found = taken_out_after [OF k(1) delete_key_value_search.search [OF inv m(4), unfolded writing_numbers mid, unfolded mid_def], folded mid_def]
  show ?thesis
    using table_args [OF hp k(1)] key v found
    by (simp add: clds_hash_table_delete_key_value_def counter_given [OF seq] wp_table_calls wp_no_table_counter_for [OF T] m(1)
        wp_hash_of_key [OF m(3)] wp_table_reads [OF m(3)])
qed

lemma wp_table_remove:
  fixes s :: "('q, 'v, 'a) ht_mem_scheme"
  assumes hp: "hp_ok X C s t N R M" and ok: "table_ok G rf h T lvs E U R M s" and key: "key \<noteq> null"
    and item: "item \<noteq> null" "words s item \<noteq> None" and refs: "\<forall>x \<in> set (level_items lvs). Suc (refs s x) < 2 ^ 32"
    and seq: "table_seq_ok T seq (words s)" and room: "2 * (card (live s) + size_of_levels lvs) + 4 < b"
  shows "wp (clds_hash_table_remove X G (list_callbacks G rf) b h t key item seq)
    (taken_out X C G rf h T t N E U R M lvs (key_is G T (user s) key) (\<lambda>x. U(x := Suc (U x)))
       (\<lambda>x. given_out seq (table_number T (words s)) ((table_counted T (words s))(item \<mapsto> x)))
       CLDS_HASH_TABLE_REMOVE_OK CLDS_HASH_TABLE_REMOVE_NOT_FOUND CLDS_HASH_TABLE_REMOVE_ERROR s) s"
proof -
  note k = table_okD [OF ok]
  define mid where "mid = table_at h (T\<lparr>first_hash_table := first_of (map fst lvs), pending_write_operations := pending_write_operations T + 1\<rparr>) s"
  have P: "\<forall>x \<in> set (level_items lvs). key_is G T (user s) key x \<longrightarrow> table_hash G T (get_item_key_cb x (user s)) = table_hash G T key"
    using k(4) by (auto simp: hash_respects_def key_is_def)
  note m = write_search_start [OF hp ok room P mid_def]
  have mid: "key_is G T (user mid) = key_is G T (user s)" "words mid = words s" by (rule key_is_cong [OF m(5)]) (simp_all add: mid_def)
  have inv: "search_inv X C G rf h (writing T) t N E U R M lvs (table_hash G T key) (key_is G (writing T) (user mid) key) b False
     (key \<noteq> null \<and> table_seq_ok (writing T) seq (words mid) \<and> words mid item \<noteq> None \<and> (\<forall>x \<in> set (level_items lvs). Suc (refs mid x) < 2 ^ 32)) mid lvs mid"
    unfolding search_inv_def using m(2) key seq item(2) refs by (simp add: mid) (simp add: mid_def)
  have T: "ht_tables (user s) h = Some (T\<lparr>first_hash_table := first_of (map fst lvs)\<rparr>)" by (rule levels_okD(2) [OF k(1)])
  note found = taken_out_after [OF k(1) remove_search.search [OF inv m(4), unfolded writing_numbers mid, unfolded mid_def], folded mid_def]
  show ?thesis
    using table_args [OF hp k(1)] key item(1) found
    by (simp add: clds_hash_table_remove_def counter_given [OF seq] wp_table_calls wp_no_table_counter_for [OF T] m(1)
        wp_hash_of_key [OF m(3)] wp_table_reads [OF m(3)])
qed

end
