(* ===== verification/Hash_Table_Insert.thy ===== *)
theory Hash_Table_Insert
  imports Hash_Table_Search
begin

text \<open>
  Inserting into a hash table: the search of the lower levels, the list of the bucket in the first
  level, and the whole operation.
\<close>

section \<open>The lower levels\<close>

lemma wp_wait_for_inserts:
  "ht_arrays s a = Some A \<Longrightarrow> pending_insert_count A = 0 \<Longrightarrow> 0 < n \<Longrightarrow> wp (wait_for_inserts n a) Q s = Q () s"
  by (cases n) (simp_all add: wp_call wp_array_reads wp_Done)

lemma wp_found_in_lower_levels:
  fixes s s0 :: "('q, 'v, 'a) ht_mem_scheme"
  assumes "searching X C G rf h T t N E U R M lvs hash (\<lambda>x. key_is G T (user s0) key x \<and> x \<notin> upper) b (\<not> plenty (size_of_levels lvs) s0) s0 rest s"
    and key: "key \<noteq> null" and refs: "\<forall>x \<in> set (level_items lvs). Suc (refs s0 x) < 2 ^ 32" and "length rest < n"
  shows "wp (found_in_lower_levels (list_callbacks G rf) b n t key hash (first_of (map fst rest))) (\<lambda>r s'. if r
      then (\<exists>x \<in> set (level_items lvs). key_is G T (user s0) key x) \<and> levels_ok G rf h T lvs E U R M s' \<and> hp_ok X C s' t N R M \<and>
        words s' = words s0 \<and> user s' = user s0
      else searching X C G rf h T t N E U R M lvs hash (\<lambda>x. key_is G T (user s0) key x \<and> x \<notin> upper) b (\<not> plenty (size_of_levels lvs) s0) s0 [] s') s"
    (is "wp _ ?Q _")
  using assms(1,4)
proof (induction rest arbitrary: s n)
  case Nil
  then obtain m where "n = Suc m" by (cases n) auto
  then show ?case using Nil(1) by (simp add: wp_Done)
next
  case (Cons v rest)
  obtain a A xss where v: "v = (a, A, xss)" by (cases v)
  obtain m where n: "n = Suc m" using Cons.prems(2) by (cases n) auto
  let ?P = "\<lambda>x. key_is G T (user s0) key x \<and> x \<notin> upper"
  let ?i = "slot_index hash (array_bucket_count A)" and ?K = "list_callbacks G rf" and ?S = "bucket_struct G h T"
  let ?w = "\<not> plenty (size_of_levels lvs) s0"
  define p where "p = hash_table A ! ?i"
  define Q where "Q = ?Q"
  note s = Cons.prems(1) [unfolded v]
  note d = searchingD [OF s] and l = searching_level [OF s]
  have cb: "ht_callbacks_ok G" using s by (simp add: searching_def search_setup_def)
  have IH: "wp (found_in_lower_levels ?K b m t key hash (first_of (map fst rest))) Q s'"
    if "searching X C G rf h T t N E U R M lvs hash ?P b ?w s0 rest s'" for s'
    unfolding Q_def by (rule Cons.IH [OF that]) (use Cons.prems(2) n in simp)
  have empty: "wp (found_in_lower_levels ?K b m t key hash (first_of (map fst rest))) Q s" if "p = null"
    by (rule IH [OF searching_passed [OF s]]) (use that p_def in simp)
  have visit: "wp (clds_sorted_list_find_key ?K b p t key) (\<lambda>r. wp (if r \<noteq> null then call (clds_sorted_list_node_release ?K r) (\<lambda>_. Done True)
      else found_in_lower_levels ?K b m t key hash (first_of (map fst rest))) Q) s" if p: "p \<noteq> null"
  proof -
    obtain Os where ok1: "csl_ok Os ?K p ?S (xss ! ?i) U R M s" and room: "2 * (card (live s) + length (xss ! ?i) + 1) + 4 < b"
      and pl: "\<not> plenty (Suc (length (xss ! ?i))) s \<Longrightarrow> \<not> plenty (size_of_levels lvs) s0"
      and on: "\<And>s' :: ('q, 'v, 'a) ht_mem_scheme. csl_ok Os ?K p ?S (xss ! ?i) U R M s' \<Longrightarrow> hp_ok X C s' t N R M \<Longrightarrow>
        walked (length (xss ! ?i)) s s' \<Longrightarrow> find ?P (xss ! ?i) = None \<or> ?w \<Longrightarrow> searching X C G rf h T t N E U R M lvs hash ?P b ?w s0 rest s'"
      and same: "\<And>U' R' M' s' :: ('q, 'v, 'a) ht_mem_scheme. csl_ok Os ?K p ?S (xss ! ?i) U' R' M' s' \<Longrightarrow>
        only_client (user s) (user s') \<Longrightarrow> levels_ok G rf h T lvs E U' R' M' s'"
      and sub: "\<And>x. x \<in> set (xss ! ?i) \<Longrightarrow> x \<in> set (level_items lvs)"
      apply (rule searching_bucket [OF s refl p_def p])
      subgoal premises prems for Os by (rule prems(1) [OF prems(2-6,8)])
      done
    have room1: "card (live s) + length (xss ! ?i) + 1 < b" using room by simp
    have P: "(\<lambda>x. cmp ?K ?S (user s) key (key_of ?K ?S (user s) x) = 0) = key_is G T (user s0) key"
      using same_key(1) [OF cb, of T key _ "user s0"] by (simp add: bucket_compare [OF d(1), unfolded d(4)] d(4) fun_eq_iff)
    have refs1: "Suc (refs s x) < 2 ^ 32" if "x \<in> set (xss ! ?i)" for x using refs sub [OF that] by (simp add: d(6))
    show ?thesis
    proof (rule wp_mono [OF wp_find_key [OF d(2) ok1 key room1 refs1, unfolded P]], assumption, elim conjE, goal_cases)
      case (1 r s')
      show ?case
      proof (cases "r = null")
        case True
        have "x \<noteq> null" if "find (key_is G T (user s0) key) (xss ! ?i) = Some x" for x
          using that csl_ok_not_null [OF ok1] nth_mem by (force simp: find_Some_iff)
        then have "find (key_is G T (user s0) key) (xss ! ?i) = None \<or> ?w" and ok': "csl_ok Os ?K p ?S (xss ! ?i) U R M s'" "csl_items s' = csl_items s"
          using 1(6) True pl by (auto split: option.splits)
        then have "find ?P (xss ! ?i) = None \<or> ?w" by (auto simp: find_None_iff)
        moreover have "walked (length (xss ! ?i)) s s'" using 1 ok'(2) by (simp add: walked_def)
        ultimately have "searching X C G rf h T t N E U R M lvs hash ?P b ?w s0 rest s'" using on [OF ok'(1) 1(1)] by blast
        then show ?thesis using True IH by simp
      next
        case False
        then obtain x where x: "find (key_is G T (user s0) key) (xss ! ?i) = Some x" "r = x" "csl_ok Os ?K p ?S (xss ! ?i) (U(x := Suc (U x))) R M s'"
          using 1(6) by (auto split: option.splits)
        have xin: "key_is G T (user s0) key x" "x \<in> set (xss ! ?i)" using x(1) by (auto simp: find_Some_iff)
        have "wp (clds_sorted_list_node_release ?K x) (\<lambda>_. Q True) s'"
        proof (rule wp_release_listed [OF x(3) xin(2)], simp)
          fix s2 I
          assume s2: "s2 = s'\<lparr>csl_items := (csl_items s')(x \<mapsto> I)\<rparr>"
            and "csl_ok Os ?K p ?S (xss ! ?i) ((U(x := Suc (U x)))(x := (U(x := Suc (U x))) x - 1)) R M s2"
          then have "csl_ok Os ?K p ?S (xss ! ?i) U R M s2" by simp
          then have "levels_ok G rf h T lvs E U R M s2" by (rule same) (simp add: s2 1(3))
          then show "Q True s2" unfolding Q_def using xin(1) sub [OF xin(2)] 1(1-3) d(3,4) by (auto simp: s2)
        qed
        then show ?thesis using False x(2) by (simp add: wp_call wp_Done_fun)
      qed
    qed
  qed
  have "wp (found_in_lower_levels ?K b n t key hash a) Q s"
    using l empty visit unfolding n
    by (auto simp: wp_call [of "on_array _ _"] wp_call [of "read_slot _ _"] wp_call [of "clds_sorted_list_find_key _ _ _ _ _"] wp_array_reads p_def [symmetric] cong: if_cong)
  then show ?case by (simp add: v Q_def)
qed

section \<open>The list of a bucket\<close>

lemma levels_ok_cong:
  fixes s s' :: "('q, 'v, 'a) ht_mem_scheme"
  assumes ok: "levels_ok G rf h T lvs E U R M s" and lists: "lists_ok (level_others G h T lvs E (csl_mem.more s)) (list_callbacks G rf) U' R' M' s'"
    and user: "user s' = user s"
  shows "levels_ok G rf h T lvs E U' R' M' s'"
proof -
  have more: "csl_mem.more s' = csl_mem.more s" using lists_okD(6) [OF lists] by simp
  have "ht_arrays s' = ht_arrays s" by (rule ht_arrays_cong [OF more])
  then show ?thesis using levels_okD(1-3) [OF ok] levels_okD(4-6) [OF ok] lists user more by (intro levels_okI) simp_all
qed

lemma wp_obtain_bucket_list:
  fixes s :: "('q, 'v, 'a) ht_mem_scheme"
  assumes ok: "levels_ok G rf h T (lv1 @ (a, A, xss) # lv2) E U R M s" and hp: "hp_ok X C s t N R M" and cb: "ht_callbacks_ok G"
    and hps: "table_hazard_pointers T \<noteq> null" and i: "i < length xss" and n: "0 < n"
  shows "wp (obtain_bucket_list G (list_callbacks G rf) b n h a i) (\<lambda>r s'. csl_items s' = csl_items s \<and> words s' = words s \<and> user s' = user s \<and>
      card (live s') \<le> Suc (card (live s)) \<and> (\<forall>k. plenty (Suc k) s \<longrightarrow> plenty k s') \<and>
      (if r = null then \<not> plenty 1 s \<and> levels_ok G rf h T (lv1 @ (a, A, xss) # lv2) E U R M s' \<and> hp_ok X C s' t N R M
       else \<exists>M'. M \<subseteq> M' \<and> hp_ok X C s' t N R M' \<and>
         levels_ok G rf h T (lv1 @ (a, A\<lparr>hash_table := (hash_table A)[i := r]\<rparr>, xss) # lv2) E U R M' s')) s"
    (is "wp _ ?Q s")
proof -
  obtain m where m: "n = Suc m" using n by (cases n) auto
  define Q where "Q = ?Q"
  let ?K = "list_callbacks G rf" and ?S = "bucket_struct G h T" and ?Os = "level_others G h T (lv1 @ (a, A, xss) # lv2) E (csl_mem.more s)"
  have A: "ht_arrays s a = Some A" by (rule levels_okD(4) [OF ok, where xss = xss]) simp
  have ao: "array_ok G T (user s) A xss" by (rule levels_okD(5) [OF ok, where a = a]) simp
  have len: "i < length (hash_table A)" using array_okD(3) [OF ao] i by simp
  have T: "ht_tables (user s) h = Some (T\<lparr>first_hash_table := first_of (map fst (lv1 @ (a, A, xss) # lv2))\<rparr>)" by (rule levels_okD(2) [OF ok])
  have weak: "plenty k s'" if "plenty (Suc k) s'" for k and s' :: "('q, 'v, 'a) ht_mem_scheme" by (rule plenty_fewer [OF that]) simp
  show ?thesis
  proof (cases "hash_table A ! i = null")
    case False
    have "A\<lparr>hash_table := (hash_table A)[i := hash_table A ! i]\<rparr> = A" by (cases A) simp
    then have "Q (hash_table A ! i) s" unfolding Q_def using False ok hp weak by (auto intro!: exI [of _ M])
    then show ?thesis using False len by (simp add: m wp_call wp_array_reads [OF A] wp_Done Q_def)
  next
    case True
    let ?skip = "if table_sequence_number T = null then null else skipped_seq_no_function G"
    have refused: "\<not> create_refused (table_hazard_pointers T) (get_item_key_function G) (key_compare_function G) (table_sequence_number T) ?skip"
      using cb hps by (simp add: create_refused_def ht_callbacks_ok_def)
    have create: "wp (clds_sorted_list_create (table_hazard_pointers T) (get_item_key_function G) h (key_compare_function G) h (table_sequence_number T) ?skip h)
      (\<lambda>l s'. (words s' = words s \<and> user s' = user s \<and> (create_refused (table_hazard_pointers T) (get_item_key_function G) (key_compare_function G)
          (table_sequence_number T) ?skip \<longrightarrow> l = null \<and> s' = s) \<and>
        (if l = null then hp_ok X C s' t N R M \<and> lists_ok ?Os ?K U R M s'
         else l \<notin> live s \<and> hp_ok X C s' t N R (insert l M) \<and> csl_ok ?Os ?K l ?S [] U R (insert l M) s')) \<and>
       (csl_items s' = csl_items s \<and> card (live s') \<le> Suc (card (live s)) \<and> (\<forall>l'. l' \<noteq> l \<longrightarrow> csl_lists s' l' = csl_lists s l') \<and>
        (\<forall>k. plenty (Suc k) s \<longrightarrow> \<not> create_refused (table_hazard_pointers T) (get_item_key_function G) (key_compare_function G)
          (table_sequence_number T) ?skip \<longrightarrow> l \<noteq> null \<and> plenty k s'))) s"
      unfolding bucket_struct_def by (rule wp_wlp [OF wp_list_create [OF hp levels_okD(7) [OF ok]] list_create_effect])
    have "wp (clds_sorted_list_create (table_hazard_pointers T) (get_item_key_function G) h (key_compare_function G) h (table_sequence_number T) ?skip h)
      (\<lambda>bucket_list. wp (if bucket_list = null then Done null
       else call (on_slot a i (\<lambda>p. (p, if p = null then Some bucket_list else None))) (\<lambda>old.
         if old \<noteq> null then call (clds_sorted_list_destroy ?K b bucket_list) (\<lambda>_. obtain_bucket_list G ?K b m h a i)
         else Done bucket_list)) Q) s"
    proof (rule wp_mono [OF create], goal_cases)
      case (1 l s')
      note new = conjunct1 [OF 1] and effect = conjunct2 [OF 1]
      have same: "words s' = words s" "user s' = user s" "csl_items s' = csl_items s" "card (live s') \<le> Suc (card (live s))"
        using new effect by blast+
      have ok': "if l = null then hp_ok X C s' t N R M \<and> lists_ok ?Os ?K U R M s'
         else l \<notin> live s \<and> hp_ok X C s' t N R (insert l M) \<and> csl_ok ?Os ?K l ?S [] U R (insert l M) s'" using new by blast
      have pl: "l \<noteq> null \<and> plenty k s'" if "plenty (Suc k) s" for k using effect refused that by blast
      have arr: "ht_arrays s' a = Some A"
      proof (cases "l = null")
        case True
        then have "csl_mem.more s' = csl_mem.more s" using ok' lists_okD(6) [of ?Os ?K U R M s'] by simp
        then show ?thesis using ht_arrays_cong [of s' s] A by simp
      next
        case False
        then have "csl_mem.more s' = csl_mem.more s" using ok' csl_okD(13) [of ?Os ?K l ?S "[]" U R "insert l M" s'] by simp
        then show ?thesis using ht_arrays_cong [of s' s] A by simp
      qed
      show ?case
      proof (cases "l = null")
        case True
        then have "\<not> plenty (Suc k) s" for k using pl by blast
        moreover have "levels_ok G rf h T (lv1 @ (a, A, xss) # lv2) E U R M s'" by (rule levels_ok_cong [OF ok _ same(2)]) (use ok' True in simp)
        ultimately have "Q null s'" unfolding Q_def using same ok' True by simp
        then show ?thesis using True by (simp add: wp_Done)
      next
        case False
        let ?A = "A\<lparr>hash_table := (hash_table A)[i := l]\<rparr>"
        define s2 where "s2 = s'\<lparr>ht_arrays := (ht_arrays s')(a \<mapsto> ?A)\<rparr>"
        have "levels_ok G rf h T (lv1 @ (a, ?A, xss) # lv2) E U R (insert l M) s2"
          unfolding s2_def by (rule levels_ok_slot [OF ok i True _ same(2)]) (use ok' False in simp)
        then have "Q l s2" unfolding Q_def using same ok' pl False by (auto simp: s2_def intro!: exI [of _ "insert l M"])
        then show ?thesis using False True len by (simp add: wp_call on_slot_def wp_atomic arr wp_Done s2_def)
      qed
    qed
    then show ?thesis
      using True len by (simp add: m wp_call [of "read_slot _ _"] wp_call [of "on_table _ _"] wp_array_reads [OF A] wp_table_reads [OF T] wp_call [of "clds_sorted_list_create _ _ _ _ _ _ _ _"] Q_def)
  qed
qed

section \<open>Inserting into the first level\<close>

lemma wp_count_changes:
  assumes "ht_arrays s a = Some A"
  shows "wp (on_array a (add_fetch array_item_count array_item_count_update d)) Q s =
      Q (array_item_count A + d) (s\<lparr>ht_arrays := (ht_arrays s)(a \<mapsto> A\<lparr>array_item_count := array_item_count A + d\<rparr>)\<rparr>)"
    "wp (on_array a (add_fetch pending_insert_count pending_insert_count_update d)) Q s =
      Q (pending_insert_count A + d) (s\<lparr>ht_arrays := (ht_arrays s)(a \<mapsto> A\<lparr>pending_insert_count := pending_insert_count A + d\<rparr>)\<rparr>)"
  using assms by (simp_all add: wp_access add_fetch_def)

lemma mset_insert_sorted: "mset (insert_sorted K L u y xs) = add_mset y (mset xs)"
  unfolding insert_sorted_def by (metis mset_append mset.simps(2) takeWhile_dropWhile_id union_mset_add_mset_right)

lemma mset_concat_update: "i < length xss \<Longrightarrow> mset (concat (xss[i := ys])) + mset (xss ! i) = mset (concat xss) + mset ys"
proof -
  assume i: "i < length xss"
  have "concat xss = concat (take i xss) @ xss ! i @ concat (drop (Suc i) xss)"
    using id_take_nth_drop [OF i] by (metis concat.simps(2) concat_append)
  then show ?thesis using i by (simp add: upd_conv_take_nth_drop)
qed

text \<open>The report of a number that is skipped, as the client sees it.\<close>

definition client_skips :: "'v ht_callbacks \<Rightarrow> clds_hash_table \<Rightarrow> 64 word \<Rightarrow> 'v \<Rightarrow> 'v" where
  "client_skips G T n v = (if table_sequence_number T = null \<or> table_skipped_seq_no_cb T = null then v
     else client_skipped G (table_skipped_seq_no_cb T) (table_skipped_seq_no_cb_context T) n v)"

lemma skipped_user_bucket:
  assumes "levels_ok G rf h T lvs E U R M s" and "only_client (user s) u" and "ht_callbacks_ok G"
  shows "skipped_user (list_callbacks G rf) (bucket_struct G h T) n u = u\<lparr>client := client_skips G T n (client u)\<rparr>"
proof -
  have "ht_tables u h = Some (T\<lparr>first_hash_table := first_of (map fst lvs)\<rparr>)" using levels_okD(2) [OF assms(1)] assms(2) by (simp add: only_client_def)
  then show ?thesis
    using levels_okD(1) [OF assms(1)] assms(3)
    by (simp add: skipped_user_def bucket_struct_def list_callbacks_def on_sorted_list_skipped_seq_no_def client_skips_def ht_callbacks_ok_def)
qed

definition into_first_post :: "'q externals \<Rightarrow> ('q \<Rightarrow> ptr \<Rightarrow> inactive_thread list) \<Rightarrow> 'v ht_callbacks \<Rightarrow> ptr \<Rightarrow> ptr \<Rightarrow> clds_hash_table \<Rightarrow> ptr \<Rightarrow>
    (ptr \<Rightarrow> ptr option) \<Rightarrow> ptr set \<Rightarrow> (ptr \<Rightarrow> nat) \<Rightarrow> (ptr \<times> ptr) multiset \<Rightarrow> ptr set \<Rightarrow> ptr \<Rightarrow> bucket_array \<Rightarrow> ptr list list \<Rightarrow> level list \<Rightarrow>
    ptr \<Rightarrow> ptr \<Rightarrow> ptr \<Rightarrow> nat \<Rightarrow> ('q, 'v, 'a) ht_mem_scheme \<Rightarrow> ht_insert_result \<Rightarrow> ('q, 'v, 'a) ht_mem_scheme \<Rightarrow> bool" where
  "into_first_post X C G rf h T t N E U R M a A xss lv key value seq i s r s' \<longleftrightarrow>
     (\<exists>A' xss' M'. M \<subseteq> M' \<and> hp_ok X C s' t N R M' \<and> next_bucket A' = next_bucket A \<and> array_bucket_count A' = array_bucket_count A \<and>
       pending_insert_count A' = pending_insert_count A \<and> (\<forall>x. x \<noteq> value \<longrightarrow> get_item_key_cb x (user s') = get_item_key_cb x (user s)) \<and>
       (if r = CLDS_HASH_TABLE_INSERT_OK
        then levels_ok G rf h T ((a, A', xss') # lv) E (U(value := U value - 1)) R M' s' \<and> array_item_count A' = array_item_count A + 1 \<and>
          mset (concat xss') = add_mset value (mset (concat xss)) \<and> get_item_key_cb value (user s') = key \<and>
          (\<forall>x \<in> set (concat xss). \<not> key_is G T (user s) key x) \<and> client (user s') = client (user s) \<and>
          words s' = given_out seq (table_number T (words s)) (table_counted T (words s))
        else levels_ok G rf h T ((a, A', xss) # lv) E U R M' s' \<and> array_item_count A' = array_item_count A \<and>
          (r = CLDS_HASH_TABLE_INSERT_KEY_ALREADY_EXISTS \<and> (\<exists>x \<in> set (concat xss). key_is G T (user s) key x) \<or>
           r = CLDS_HASH_TABLE_INSERT_ERROR \<and> \<not> plenty (Suc (Suc (length (xss ! i)))) s) \<and>
          (words s' = words s \<and> client (user s') = client (user s) \<or>
           words s' = given_out seq (table_number T (words s)) (table_counted T (words s)) \<and>
           client (user s') = client_skips G T (table_number T (words s)) (client (user s)))))"

lemma wp_insert_into_first:
  fixes s :: "('q, 'v, 'a) ht_mem_scheme"
  assumes ok: "levels_ok G rf h T ((a, A, xss) # lv) E U R M s" and hp: "hp_ok X C s t N R M" and cb: "ht_callbacks_ok G"
    and hash: "hash_respects G T" and hps: "table_hazard_pointers T \<noteq> null" and seq: "table_seq_ok T seq (words s)"
    and fresh: "value \<notin> set (level_items ((a, A, xss) # lv))" "0 < U value" "csl_items s value \<noteq> None" "ht_items (user s) value \<noteq> None"
    and i: "i = slot_index (table_hash G T key) (array_bucket_count A)" and room: "card (live s) + length (xss ! i) + 2 < b"
  shows "wp (insert_into_first G (list_callbacks G rf) b h t key value seq a i) (into_first_post X C G rf h T t N E U R M a A xss lv key value seq i s) s"
proof -
  let ?K = "list_callbacks G rf" and ?S = "bucket_struct G h T"
  define Q where "Q = into_first_post X C G rf h T t N E U R M a A xss lv key value seq i s"
  have A: "ht_arrays s a = Some A" by (rule levels_okD(4) [OF ok, where xss = xss]) simp
  have ao: "array_ok G T (user s) A xss" by (rule levels_okD(5) [OF ok, where a = a]) simp
  have len: "i < length xss" "i < length (hash_table A)" using slot_in_range [OF ao] by (simp_all add: i)
  define A1 where "A1 = A\<lparr>array_item_count := array_item_count A + 1\<rparr>"
  define s1 where "s1 = s\<lparr>ht_arrays := (ht_arrays s)(a \<mapsto> A1)\<rparr>"
  have ok1: "levels_ok G rf h T ([] @ (a, A1, xss) # lv) E U R M s1"
    unfolding s1_def by (rule levels_ok_array [where A = A]) (use ok in \<open>simp_all add: A1_def\<close>)
  have hp1: "hp_ok X C s1 t N R M" using hp by (simp add: s1_def)
  have "0 < b" using room by simp
  note obtain_list = wp_obtain_bucket_list [OF ok1 hp1 cb hps len(1) this, of b]
  have less: "wp (on_array a (add_fetch array_item_count array_item_count_update (- 1))) (\<lambda>_. Q r) s'"
    if s': "levels_ok G rf h T ((a, B, xss) # lv) E U R M' s'" "hp_ok X C s' t N R M'" "M \<subseteq> M'"
      and B: "next_bucket B = next_bucket A" "array_bucket_count B = array_bucket_count A" "pending_insert_count B = pending_insert_count A"
        "array_item_count B = array_item_count A + 1" and keys: "\<And>x. x \<noteq> value \<Longrightarrow> get_item_key_cb x (user s') = get_item_key_cb x (user s)"
      and r: "r = CLDS_HASH_TABLE_INSERT_KEY_ALREADY_EXISTS \<and> (\<exists>x \<in> set (concat xss). key_is G T (user s) key x) \<or>
           r = CLDS_HASH_TABLE_INSERT_ERROR \<and> \<not> plenty (Suc (Suc (length (xss ! i)))) s"
      and w: "words s' = words s \<and> client (user s') = client (user s) \<or>
           words s' = given_out seq (table_number T (words s)) (table_counted T (words s)) \<and>
           client (user s') = client_skips G T (table_number T (words s)) (client (user s))"
    for r B M' s'
  proof -
    let ?B = "B\<lparr>array_item_count := array_item_count B + - 1\<rparr>"
    have at: "ht_arrays s' a = Some B" by (rule levels_okD(4) [OF s'(1), where xss = xss]) simp
    have "levels_ok G rf h T ([] @ (a, ?B, xss) # lv) E U R M' (s'\<lparr>ht_arrays := (ht_arrays s')(a \<mapsto> ?B)\<rparr>)"
      by (rule levels_ok_array [where A = B]) (use s'(1) in simp_all)
    then have "Q r (s'\<lparr>ht_arrays := (ht_arrays s')(a \<mapsto> ?B)\<rparr>)"
      unfolding Q_def into_first_post_def using s'(2,3) B keys r w
      by (intro exI [of _ ?B] exI [of _ xss] exI [of _ M']) auto
    then show ?thesis by (simp add: wp_count_changes [OF at])
  qed
  have insert: "wp (call (on_item value (wr ht_key_update key)) (\<lambda>_.
       call (clds_sorted_list_insert ?K b l t value seq) (\<lambda>list_insert_result.
       if list_insert_result = CLDS_SORTED_LIST_INSERT_KEY_ALREADY_EXISTS then
         call (on_array a (add_fetch array_item_count array_item_count_update (- 1))) (\<lambda>_.
         Done CLDS_HASH_TABLE_INSERT_KEY_ALREADY_EXISTS)
       else if list_insert_result \<noteq> CLDS_SORTED_LIST_INSERT_OK then
         call (on_array a (add_fetch array_item_count array_item_count_update (- 1))) (\<lambda>_.
         Done CLDS_HASH_TABLE_INSERT_ERROR)
       else Done CLDS_HASH_TABLE_INSERT_OK))) Q s2"
    if l: "l \<noteq> null" and s2: "csl_items s2 = csl_items s1" "words s2 = words s1" "user s2 = user s1" "card (live s2) \<le> Suc (card (live s1))"
        "\<forall>k. plenty (Suc k) s1 \<longrightarrow> plenty k s2"
      and M2: "M \<subseteq> M2" "hp_ok X C s2 t N R M2"
      and ok2: "levels_ok G rf h T ([] @ (a, A1\<lparr>hash_table := (hash_table A1)[i := l]\<rparr>, xss) # lv) E U R M2 s2"
    for l s2 M2
  proof -
    define A2 where "A2 = A1\<lparr>hash_table := (hash_table A1)[i := l]\<rparr>"
    note ok2 = ok2 [folded A2_def]
    have A2: "hash_table A2 ! i = l" "array_bucket_count A2 = array_bucket_count A" "next_bucket A2 = next_bucket A"
      "pending_insert_count A2 = pending_insert_count A" "array_item_count A2 = array_item_count A + 1"
      using len by (simp_all add: A2_def A1_def)
    define s3 where "s3 = with_key value key s2"
    have ok3: "levels_ok G rf h T ([] @ (a, A2, xss) # lv) E U R M2 s3"
      unfolding s3_def by (rule levels_ok_key [OF ok2]) (use fresh(1) in simp)
    have u2: "user s2 = user s" "words s2 = words s" "csl_items s2 = csl_items s" using s2 by (simp_all add: s1_def)
    have keys3: "get_item_key_cb value (user s3) = key" "\<And>x. x \<noteq> value \<Longrightarrow> get_item_key_cb x (user s3) = get_item_key_cb x (user s)"
      unfolding s3_def using key_with_key [of s2 "value" key] key_with_key_other [of _ "value" key s2] fresh(4) u2(1) by simp_all
    have hp3: "hp_ok X C s3 t N R M2" using M2(2) by (simp add: s3_def)
    obtain Os where ok4: "csl_ok Os ?K l ?S (xss ! i) U R M2 s3"
      and listed: "\<And>x. of_bool (x \<in> set (xss ! i)) + listed Os x = of_bool (x \<in> set (level_items ([] @ (a, A2, xss) # lv)))"
      and new: "\<And>ys U' R' M' s'. csl_ok Os ?K l ?S ys U' R' M' (s' :: ('q, 'v, 'a) ht_mem_scheme) \<Longrightarrow> only_client (user s3) (user s') \<Longrightarrow>
        (\<And>x. x \<in> set ys \<Longrightarrow> x \<in> set (xss ! i) \<or> ht_items (user s') x \<noteq> None \<and>
          slot_index (table_hash G T (get_item_key_cb x (user s'))) (array_bucket_count A2) = i) \<Longrightarrow>
        levels_ok G rf h T ([] @ (a, A2, xss[i := ys]) # lv) E U' R' M' s'"
      apply (rule levels_bucket [OF ok3 refl len(1) A2(1) l])
      subgoal premises prems for Os by (rule prems(1) [OF prems(2-)])
      done
    have sub: "x \<in> set (level_items ((a, A, xss) # lv))" if "x \<in> set (xss ! i)" for x using that nth_mem [OF len(1)] by auto
    have out: "value \<notin> set (xss ! i)" "listed Os value = 0" using listed [of "value"] fresh(1) sub by auto
    have room4: "card (live s3) + length (xss ! i) + 1 < b" using room s2(4) by (simp add: s3_def s1_def)
    have there: "csl_items s3 value \<noteq> None" using fresh(3) u2(3) by (simp add: s3_def)
    have seq4: "seq_ok ?S seq (words s3)" using seq u2(2) by (simp add: s3_def)
    have w3: "words s3 = words s" "client (user s3) = client (user s)" using u2 by (simp_all add: s3_def)
    have ordk: "ord ?K ?S (user s3) value x = 0 \<longleftrightarrow> key_is G T (user s) key x" if "x \<in> set (xss ! i)" for x
    proof -
      have "x \<noteq> value" using that out(1) by blast
      then show ?thesis using same_key(1) [OF cb, of T key x "user s"] keys3 by (simp add: bucket_compare [OF ok3])
    qed
    have only: "x \<in> set (xss ! i)" if x: "x \<in> set (concat xss)" "key_is G T (user s) key x" for x
    proof -
      obtain ys where ys: "ys \<in> set xss" "x \<in> set ys" using x(1) by auto
      then obtain j where j: "j < length xss" "xss ! j = ys" by (auto simp: in_set_conv_nth)
      with ys have j: "j < length xss" "x \<in> set (xss ! j)" by simp_all
      have "table_hash G T (get_item_key_cb x (user s)) = table_hash G T key" using hash x(2) by (auto simp: hash_respects_def key_is_def)
      then have "j = i" using array_okD(5) [OF ao j] i by simp
      then show ?thesis using j(2) by simp
    qed
    have "wp (clds_sorted_list_insert ?K b l t value seq) (\<lambda>r. wp
       (if r = CLDS_SORTED_LIST_INSERT_KEY_ALREADY_EXISTS then
         call (on_array a (add_fetch array_item_count array_item_count_update (- 1))) (\<lambda>_.
         Done CLDS_HASH_TABLE_INSERT_KEY_ALREADY_EXISTS)
       else if r \<noteq> CLDS_SORTED_LIST_INSERT_OK then
         call (on_array a (add_fetch array_item_count array_item_count_update (- 1))) (\<lambda>_.
         Done CLDS_HASH_TABLE_INSERT_ERROR)
       else Done CLDS_HASH_TABLE_INSERT_OK) Q) s3"
    proof (rule wp_mono [OF wp_insert [OF hp3 list_callbacks_ok [OF cb] ok4 _ seq4 there out(1) fresh(2) out(2) room4]], goal_cases)
      case (2 r s')
      then have r: "hp_ok X C s' t N R M2" "words s' = given_out seq (table_number T (words s)) (table_counted T (words s))"
        by (simp_all add: w3)
      show ?case
      proof (cases "r = CLDS_SORTED_LIST_INSERT_OK")
        case True
        with 2 have r2: "\<forall>x \<in> set (xss ! i). ord ?K ?S (user s3) value x \<noteq> 0" "user s' = user s3"
          "csl_ok Os ?K l ?S (insert_sorted ?K ?S (user s3) value (xss ! i)) (U(value := U value - 1)) R M2 s'" by simp_all
        let ?ys = "insert_sorted ?K ?S (user s3) value (xss ! i)"
        have ht: "ht_items (user s3) value \<noteq> None" using fresh(4) u2(1) by (simp add: s3_def with_key_def)
        have "levels_ok G rf h T ([] @ (a, A2, xss[i := ?ys]) # lv) E (U(value := U value - 1)) R M2 s'"
        proof (rule new [OF r2(3)])
          fix x assume "x \<in> set ?ys"
          then have "x \<in># mset ?ys" by simp
          then have "x = value \<or> x \<in> set (xss ! i)" by (simp add: mset_insert_sorted)
          then show "x \<in> set (xss ! i) \<or> ht_items (user s') x \<noteq> None \<and>
              slot_index (table_hash G T (get_item_key_cb x (user s'))) (array_bucket_count A2) = i"
            using ht keys3(1) i A2(2) r2(2) by auto
        qed (simp add: r2(2))
        moreover have "mset (concat (xss[i := ?ys])) = add_mset value (mset (concat xss))"
          using mset_concat_update [OF len(1), of ?ys] by (simp add: mset_insert_sorted)
        moreover have "\<forall>x \<in> set (concat xss). \<not> key_is G T (user s) key x" using only r2(1) ordk by blast
        ultimately have "Q CLDS_HASH_TABLE_INSERT_OK s'"
          unfolding Q_def into_first_post_def using r M2(1) A2 keys3 r2(2) w3
          by (intro exI [of _ A2] exI [of _ "xss[i := ?ys]"] exI [of _ M2]) auto
        then show ?thesis using True by (simp add: wp_Done)
      next
        case False
        with 2 have r2: "csl_ok Os ?K l ?S (xss ! i) U R M2 s'" "user s' = skipped_user ?K ?S (table_number T (words s)) (user s3)"
          "if r = CLDS_SORTED_LIST_INSERT_KEY_ALREADY_EXISTS then \<exists>x \<in> set (xss ! i). ord ?K ?S (user s3) value x = 0
           else \<not> plenty (Suc (length (xss ! i))) s3" unfolding w3(1) bucket_numbers by auto
        have cl: "only_client (user s3) (user s')" unfolding r2(2) by simp
        have "levels_ok G rf h T ([] @ (a, A2, xss[i := xss ! i]) # lv) E U R M2 s'" by (rule new [OF r2(1) cl]) simp
        then have ok': "levels_ok G rf h T ((a, A2, xss) # lv) E U R M2 s'" by simp
        have keys': "get_item_key_cb x (user s') = get_item_key_cb x (user s)" if "x \<noteq> value" for x
          using keys3(2) [OF that] only_client_key [OF cl] by simp
        have cl': "client (user s') = client_skips G T (table_number T (words s)) (client (user s))"
          unfolding r2(2) by (simp add: skipped_user_bucket [OF ok3 _ cb] w3)
        have ex: "\<exists>x \<in> set (concat xss). key_is G T (user s) key x" if same: "r = CLDS_SORTED_LIST_INSERT_KEY_ALREADY_EXISTS"
        proof -
          obtain x where "x \<in> set (xss ! i)" "ord ?K ?S (user s3) value x = 0" using r2(3) same by auto
          then show ?thesis using ordk nth_mem [OF len(1)] by (auto intro!: bexI [of _ x])
        qed
        have np: "\<not> plenty (Suc (Suc (length (xss ! i)))) s" if "r \<noteq> CLDS_SORTED_LIST_INSERT_KEY_ALREADY_EXISTS"
          using r2(3) that s2(5) by (auto simp: s3_def s1_def)
        show ?thesis
          using False less [OF ok' r(1) M2(1) A2(3,2,4,5) keys'] ex np r(2) cl'
          by (auto simp: wp_call wp_Done_fun)
      qed
    qed simp
    then show ?thesis
      using there fresh(4) u2 by (simp add: wp_call [of "on_item _ _"] wp_call [of "clds_sorted_list_insert _ _ _ _ _ _"] wp_write_key s3_def)
  qed
  have "wp (obtain_bucket_list G ?K b b h a i) (\<lambda>bucket_list. wp (if bucket_list = null then
       call (on_array a (add_fetch array_item_count array_item_count_update (- 1))) (\<lambda>_.
       Done CLDS_HASH_TABLE_INSERT_ERROR)
     else
       call (on_item value (wr ht_key_update key)) (\<lambda>_.
       call (clds_sorted_list_insert ?K b bucket_list t value seq) (\<lambda>list_insert_result.
       if list_insert_result = CLDS_SORTED_LIST_INSERT_KEY_ALREADY_EXISTS then
         call (on_array a (add_fetch array_item_count array_item_count_update (- 1))) (\<lambda>_.
         Done CLDS_HASH_TABLE_INSERT_KEY_ALREADY_EXISTS)
       else if list_insert_result \<noteq> CLDS_SORTED_LIST_INSERT_OK then
         call (on_array a (add_fetch array_item_count array_item_count_update (- 1))) (\<lambda>_.
         Done CLDS_HASH_TABLE_INSERT_ERROR)
       else Done CLDS_HASH_TABLE_INSERT_OK))) Q) s1"
  proof (rule wp_mono [OF obtain_list], goal_cases)
    case (1 r s2)
    show ?case
    proof (cases "r = null")
      case True
      with 1 have s2: "levels_ok G rf h T ((a, A1, xss) # lv) E U R M s2" "hp_ok X C s2 t N R M" "\<not> plenty 1 s1" "user s2 = user s" "words s2 = words s"
        by (simp_all add: s1_def)
      have "\<not> plenty (Suc (Suc (length (xss ! i)))) s" using s2(3) plenty_fewer [of "Suc (Suc (length (xss ! i)))" s 1] by (auto simp: s1_def)
      then show ?thesis
        using True less [OF s2(1,2) subset_refl, of CLDS_HASH_TABLE_INSERT_ERROR] s2(4,5) by (simp add: wp_call wp_Done_fun A1_def)
    next
      case False
      then show ?thesis using 1 insert [of r s2] by auto
    qed
  qed
  then show ?thesis
    unfolding Q_def [symmetric] insert_into_first_def
    by (simp add: wp_call [of "on_array a _"] wp_call [of "obtain_bucket_list _ _ _ _ _ _ _"] wp_count_changes [OF A] A1_def s1_def)
qed

section \<open>Inserting into a table\<close>

lemma first_array_facts:
  assumes "first_array lvs lvs' M M'" and "counts_ok lvs" and "none_pending lvs"
  shows "level_items lvs' = level_items lvs" "counts_ok lvs'" "none_pending lvs'" "size_of_levels lvs' \<le> Suc (size_of_levels lvs)" "M \<subseteq> M'"
    "lvs' = [] \<Longrightarrow> lvs = []"
proof -
  have empty: "concat (replicate n []) = ([] :: 'x list)" for n by (induction n) auto
  show "level_items lvs' = level_items lvs" "size_of_levels lvs' \<le> Suc (size_of_levels lvs)" "M \<subseteq> M'" "lvs' = [] \<Longrightarrow> lvs = []"
    using assms(1) by (auto simp: first_array_def size_of_levels_def empty)
  show "counts_ok lvs'" "none_pending lvs'"
    using assms by (auto simp: first_array_def counts_ok_def none_pending_def doubled_def empty)
qed

text \<open>
  How the levels grow: when the first array has as many items as buckets, and only then, an array with
  twice the number of buckets is put in front of it, unless there is no memory for it. The levels
  behind the first one are never changed.
\<close>

definition table_grown :: "bool \<Rightarrow> level list \<Rightarrow> level list \<Rightarrow> bool" where
  "table_grown memory lvs lvs' \<longleftrightarrow> (\<exists>a A xss lv. lvs = (a, A, xss) # lv \<and>
     ((\<exists>B yss. lvs' = (a, B, yss) # lv \<and> array_bucket_count B = array_bucket_count A \<and>
         (int (length (concat xss)) < sint (array_bucket_count A) \<or> \<not> memory)) \<or>
      (\<exists>c B yss. lvs' = (c, B, yss) # lvs \<and> sint (array_bucket_count B) = 2 * sint (array_bucket_count A) \<and>
         sint (array_bucket_count A) \<le> int (length (concat xss)))))"

lemma first_array_grown:
  assumes first: "first_array lvs ((c, B, yss) # lv') M M'" and lvs: "lvs = (a, A, xss) # lv" and counts: "counts_ok lvs"
    and A: "0 < sint (array_bucket_count A)" "sint (array_bucket_count A) < 2 ^ 30"
    and same: "(c, B, yss) # lv' = lvs \<longrightarrow> \<not> full_array A \<or> \<not> memory"
    and B: "array_bucket_count B' = array_bucket_count B"
  shows "table_grown memory lvs ((c, B', yss') # lv')"
proof -
  have "length (concat xss) < 2 ^ 31" "array_item_count A = of_nat (length (concat xss))"
    using counts by (simp_all add: lvs counts_ok_def)
  then have "sint (array_item_count A) = int (length (concat xss))"
    by (simp add: signed_of_nat signed_take_bit_int_eq_self)
  then have full: "full_array A \<longleftrightarrow> sint (array_bucket_count A) \<le> int (length (concat xss))" by (simp add: full_array_def)
  show ?thesis
  proof (cases "(c, B, yss) # lv' = lvs")
    case True
    then show ?thesis using same full B by (auto simp: table_grown_def lvs)
  next
    case False
    with first have "full_array A" "lv' = lvs" "B = doubled a A" by (auto simp: first_array_def lvs)
    then show ?thesis using full B sint_double [OF A] by (auto simp: table_grown_def lvs doubled_def)
  qed
qed

lemma table_grown_size: "table_grown memory lvs lvs' \<Longrightarrow> length lvs' \<le> Suc (length lvs)"
  by (auto simp: table_grown_def)

text \<open>The last two steps: the insert is no longer pending, the write operation ends.\<close>

lemma wp_insert_end:
  fixes s :: "('q, 'v, 'a) ht_mem_scheme"
  assumes ok: "levels_ok G rf h (writing T) ((a, A, xss) # lv) E U R M s" and hp: "hp_ok X C s t N R M"
    and Q: "\<And>s'. levels_ok G rf h T ((a, A\<lparr>pending_insert_count := pending_insert_count A - 1\<rparr>, xss) # lv) E U R M s' \<Longrightarrow> hp_ok X C s' t N R M \<Longrightarrow>
      words s' = words s \<Longrightarrow> client (user s') = client (user s) \<Longrightarrow> (\<And>x. get_item_key_cb x (user s') = get_item_key_cb x (user s)) \<Longrightarrow> Q r s'"
  shows "wp (call (on_array a (add_fetch pending_insert_count pending_insert_count_update (- 1))) (\<lambda>_.
     call (end_write_operation (table_lock h)) (\<lambda>_. Done r))) Q s"
proof -
  let ?A = "A\<lparr>pending_insert_count := pending_insert_count A - 1\<rparr>"
  let ?s = "s\<lparr>ht_arrays := (ht_arrays s)(a \<mapsto> ?A)\<rparr>"
  have at: "ht_arrays s a = Some A" by (rule levels_okD(4) [OF ok, where xss = xss]) simp
  have "levels_ok G rf h (writing T) ([] @ (a, ?A, xss) # lv) E U R M ?s"
    by (rule levels_ok_array [where A = A]) (use ok in simp_all)
  then have ok1: "levels_ok G rf h (writing T) ((a, ?A, xss) # lv) E U R M ?s" by simp
  show ?thesis
    by (simp add: wp_call wp_count_changes [OF at] wp_end_table(1) [OF ok1] wp_Done) (rule Q, use wp_end_table(2) [OF ok1] hp in simp_all)
qed

lemma client_skips_writing [simp]: "client_skips G (writing T) = client_skips G T"
  by (simp add: client_skips_def fun_eq_iff)

text \<open>
  What insertion does: the item is added, with its key, unless the key is there or memory is short;
  the levels have grown by one when the first array was full. A key that is there is only overlooked when memory is
  short.
\<close>

definition inserted :: "'q externals \<Rightarrow> ('q \<Rightarrow> ptr \<Rightarrow> inactive_thread list) \<Rightarrow> 'v ht_callbacks \<Rightarrow> ptr \<Rightarrow> ptr \<Rightarrow> clds_hash_table \<Rightarrow> ptr \<Rightarrow>
    (ptr \<Rightarrow> ptr option) \<Rightarrow> ptr set \<Rightarrow> (ptr \<Rightarrow> nat) \<Rightarrow> (ptr \<times> ptr) multiset \<Rightarrow> ptr set \<Rightarrow> level list \<Rightarrow>
    ptr \<Rightarrow> ptr \<Rightarrow> ptr \<Rightarrow> ('q, 'v, 'a) ht_mem_scheme \<Rightarrow> ht_insert_result \<Rightarrow> ('q, 'v, 'a) ht_mem_scheme \<Rightarrow> bool" where
  "inserted X C G rf h T t N E U R M lvs key value seq s r s' \<longleftrightarrow>
     (\<exists>lvs' M'. M \<subseteq> M' \<and> hp_ok X C s' t N R M' \<and> counts_ok lvs' \<and> none_pending lvs' \<and>
       table_grown (plenty 1 s) lvs lvs' \<and> (\<forall>x. x \<noteq> value \<longrightarrow> get_item_key_cb x (user s') = get_item_key_cb x (user s)) \<and>
       (if r = CLDS_HASH_TABLE_INSERT_OK
        then levels_ok G rf h T lvs' E (U(value := U value - 1)) R M' s' \<and> mset (level_items lvs') = add_mset value (mset (level_items lvs)) \<and>
          get_item_key_cb value (user s') = key \<and> client (user s') = client (user s) \<and>
          words s' = given_out seq (table_number T (words s)) (table_counted T (words s)) \<and>
          ((\<forall>x \<in> set (level_items lvs). \<not> key_is G T (user s) key x) \<or> \<not> plenty (2 * size_of_levels lvs + 4) s)
        else levels_ok G rf h T lvs' E U R M' s' \<and> level_items lvs' = level_items lvs \<and>
          (r = CLDS_HASH_TABLE_INSERT_KEY_ALREADY_EXISTS \<and> (\<exists>x \<in> set (level_items lvs). key_is G T (user s) key x) \<or>
           r = CLDS_HASH_TABLE_INSERT_ERROR \<and> \<not> plenty (2 * size_of_levels lvs + 4) s) \<and>
          (words s' = words s \<and> client (user s') = client (user s) \<or>
           words s' = given_out seq (table_number T (words s)) (table_counted T (words s)) \<and>
           client (user s') = client_skips G T (table_number T (words s)) (client (user s)))))"

lemma wp_table_insert:
  fixes s :: "('q, 'v, 'a) ht_mem_scheme"
  assumes hp: "hp_ok X C s t N R M" and ok: "table_ok G rf h T lvs E U R M s" and key: "key \<noteq> null" and lvs: "lvs = (a, A, xss) # lv"
    and size: "sint (array_bucket_count A) < 2 ^ 30" "Suc (length (level_items lvs)) < 2 ^ 31" and seq: "table_seq_ok T seq (words s)"
    and fresh: "value \<notin> set (level_items lvs)" "0 < U value" "csl_items s value \<noteq> None" "ht_items (user s) value \<noteq> None"
    and refs: "\<forall>x \<in> set (level_items lvs). Suc (refs s x) < 2 ^ 32" and room: "2 * (card (live s) + size_of_levels lvs) + 8 < b"
  shows "wp (clds_hash_table_insert G (list_callbacks G rf) b h t key value seq) (inserted X C G rf h T t N E U R M lvs key value seq s) s"
proof -
  note k = table_okD [OF ok]
  let ?K = "list_callbacks G rf" and ?T = "writing T" and ?hash = "table_hash G T key"
  define Q where "Q = inserted X C G rf h T t N E U R M lvs key value seq s"
  have b: "0 < b" using room by simp
  define mid where "mid = table_at h (T\<lparr>first_hash_table := first_of (map fst lvs), pending_write_operations := pending_write_operations T + 1\<rparr>) s"
  have start: "wp (check_lock_and_begin_write_operation b (table_lock h)) P s = P () mid" for P
    unfolding mid_def by (rule wp_begin_table(1) [OF k(1,6) b])
  have mid: "levels_ok G rf h ?T lvs E U R M mid" "hp_ok X C mid t N R M"
    unfolding mid_def by (rule wp_begin_table(2) [OF k(1,6) b]) (use hp in simp)
  have rest: "wp (call (on_array c (add_fetch array_bucket_count array_bucket_count_update 0)) (\<lambda>count_of_buckets.
      call (on_array c (add_fetch pending_insert_count pending_insert_count_update 1)) (\<lambda>_.
      call (hash_of_key G h key) (\<lambda>hash.
      call (on_array c (cas next_bucket next_bucket_update null null)) (\<lambda>next_bucket_array.
      call (if next_bucket_array \<noteq> null then wait_for_inserts b next_bucket_array else Done ()) (\<lambda>_.
      call (found_in_lower_levels ?K b b t key hash next_bucket_array) (\<lambda>found.
      call (if found then Done CLDS_HASH_TABLE_INSERT_KEY_ALREADY_EXISTS
            else insert_into_first G ?K b h t key value seq c (slot_index hash count_of_buckets)) (\<lambda>result.
      call (on_array c (add_fetch pending_insert_count pending_insert_count_update (- 1))) (\<lambda>_.
      call (end_write_operation (table_lock h)) (\<lambda>_.
      Done result)))))))))) Q s1"
    if ok1: "levels_ok G rf h ?T ((c, B, yss) # lv') E U R M1 s1" and hp1: "hp_ok X C s1 t N R M1" and M1: "M \<subseteq> M1"
      and lv': "first_array lvs ((c, B, yss) # lv') M M1"
      and unless: "(c, B, yss) # lv' = lvs \<longrightarrow> \<not> full_array A \<or> \<not> plenty 1 s"
      and kept: "items_kept mid s1" and card1: "card (live s1) \<le> Suc (card (live s))" and pl1: "\<And>k. plenty (Suc k) s \<Longrightarrow> plenty k s1"
    for c B yss lv' M1 s1
  proof -
    note f = first_array_facts [OF lv' k(2,8)]
    let ?B = "B\<lparr>pending_insert_count := pending_insert_count B + 1\<rparr>"
    let ?l1 = "(c, ?B, yss) # lv'"
    define s2 where "s2 = s1\<lparr>ht_arrays := (ht_arrays s1)(c \<mapsto> ?B)\<rparr>"
    have at: "ht_arrays s1 c = Some B" by (rule levels_okD(4) [OF ok1, where xss = yss]) simp
    have "levels_ok G rf h ?T ([] @ (c, ?B, yss) # lv') E U R M1 s2"
      unfolding s2_def by (rule levels_ok_array [where A = B]) (use ok1 in simp_all)
    then have ok2: "levels_ok G rf h ?T ?l1 E U R M1 s2" by simp
    have hp2: "hp_ok X C s2 t N R M1" using hp1 by (simp add: s2_def)
    have same: "words s2 = words s" "csl_items s2 = csl_items s" "client (user s2) = client (user s)"
      "ht_items (user s2) = ht_items (user s)" "get_item_key_cb x (user s2) = get_item_key_cb x (user s)" "refs s2 x = refs s x" for x
      using kept by (simp_all add: s2_def items_kept_def mid_def get_item_key_cb_def refs_def)
    have keyeq: "key_is G T (user s2) = key_is G T (user s)" by (rule key_is_cong) (rule same(5))
    have sizes: "size_of_levels ?l1 \<le> Suc (size_of_levels lvs)" "level_items ?l1 = level_items lvs" using f(1,4) by simp_all
    have all: "mset (concat yss) + mset (level_items lv') = mset (level_items lvs)" using f(1) [symmetric] by simp
    have counts: "counts_ok ?l1" using f(2) by (simp add: counts_ok_def)
    have pl2: "plenty k s2" if "plenty (Suc k) s" for k using pl1 [OF that] by (simp add: s2_def)
    let ?P = "\<lambda>x. key_is G ?T (user s2) key x \<and> x \<notin> set (concat yss)"
    let ?w = "\<not> plenty (size_of_levels ?l1) s2"
    have num: "length lv' \<le> length lvs" using lv' by (auto simp: first_array_def)
    have "2 * (card (live s2) + length (level_items ?l1) + length ?l1) + 4 < b"
      unfolding sizes(2) using room card1 num by (simp add: size_of_levels_def s2_def)
    then have begun: "search_setup G ?T ?l1 ?hash ?P b s2"
      unfolding search_setup_def using k(4,5) counts by (auto simp: hash_respects_def key_is_def)
    have pls: "plenty n s2" if "plenty (n + size_of_levels [(c, ?B, yss)]) s2" for n by (rule plenty_fewer [OF that]) simp
    have from_here: "searching X C G rf h ?T t N E U R M1 ?l1 ?hash ?P b ?w s2 lv' s2"
      unfolding searching_def using begun ok2 hp2 pls by (intro conjI exI [of _ "[(c, ?B, yss)]"]) auto
    have refs2: "\<forall>x \<in> set (level_items ?l1). Suc (refs s2 x) < 2 ^ 32" using refs unfolding sizes(2) same(6) .
    have len: "length lv' < b" using room sizes(1) by (simp add: size_of_levels_def)
    have enough: "\<not> plenty (2 * size_of_levels lvs + 4) s" if "\<not> plenty n s2" "n \<le> 2 * size_of_levels lvs + 3" for n
    proof
      assume "plenty (2 * size_of_levels lvs + 4) s"
      then have "plenty (Suc n) s" by (rule plenty_fewer) (use that(2) in simp)
      from pl2 [OF this] that(1) show False by simp
    qed
    have pend: "pending_insert_count B = 0" using f(3) by (simp add: none_pending_def)
    have "array_ok G T (user s) A xss" by (rule levels_okD(5) [OF k(1), where a = a]) (simp add: lvs)
    then have pos: "0 < sint (array_bucket_count A)" by (rule array_okD)
    note growth = first_array_grown [OF lv' lvs k(2) pos size(1) unless]
    have finish: "wp (call (on_array c (add_fetch pending_insert_count pending_insert_count_update (- 1))) (\<lambda>_.
        call (end_write_operation (table_lock h)) (\<lambda>_. Done r))) Q s'"
      if ok': "levels_ok G rf h ?T ((c, B', yss') # lv') E U' R M' s'" "hp_ok X C s' t N R M'" "M1 \<subseteq> M'" "pending_insert_count B' = 1"
        and buckets: "array_bucket_count B' = array_bucket_count B"
        and other: "\<And>x. x \<noteq> value \<Longrightarrow> get_item_key_cb x (user s') = get_item_key_cb x (user s)"
        and count: "array_item_count B' = of_nat (length (concat yss'))" "length (concat yss') < 2 ^ 31"
        and r: "if r = CLDS_HASH_TABLE_INSERT_OK
          then U' = U(value := U value - 1) \<and> mset (concat yss') = add_mset value (mset (concat yss)) \<and>
            get_item_key_cb value (user s') = key \<and> client (user s') = client (user s) \<and>
            words s' = given_out seq (table_number T (words s)) (table_counted T (words s)) \<and>
            ((\<forall>x \<in> set (level_items lvs). \<not> key_is G T (user s) key x) \<or> \<not> plenty (2 * size_of_levels lvs + 4) s)
          else U' = U \<and> yss' = yss \<and>
            (r = CLDS_HASH_TABLE_INSERT_KEY_ALREADY_EXISTS \<and> (\<exists>x \<in> set (level_items lvs). key_is G T (user s) key x) \<or>
             r = CLDS_HASH_TABLE_INSERT_ERROR \<and> \<not> plenty (2 * size_of_levels lvs + 4) s) \<and>
            (words s' = words s \<and> client (user s') = client (user s) \<or>
             words s' = given_out seq (table_number T (words s)) (table_counted T (words s)) \<and>
             client (user s') = client_skips G T (table_number T (words s)) (client (user s)))"
      for r B' yss' U' M' and s' :: "('q, 'v, 'a) ht_mem_scheme"
    proof (rule wp_insert_end [OF ok'(1,2)])
      fix s3 :: "('q, 'v, 'a) ht_mem_scheme"
      let ?B' = "B'\<lparr>pending_insert_count := pending_insert_count B' - 1\<rparr>"
      assume s3: "levels_ok G rf h T ((c, ?B', yss') # lv') E U' R M' s3" "hp_ok X C s3 t N R M'" "words s3 = words s'"
        "client (user s3) = client (user s')" "\<And>x. get_item_key_cb x (user s3) = get_item_key_cb x (user s')"
      have "counts_ok ((c, ?B', yss') # lv')" "none_pending ((c, ?B', yss') # lv')"
        using f(2,3) count ok'(4) by (simp_all add: counts_ok_def none_pending_def)
      moreover have "M \<subseteq> M'" using M1 ok'(3) by blast
      moreover have "table_grown (plenty 1 s) lvs ((c, ?B', yss') # lv')" by (rule growth) (simp add: buckets)
      ultimately show "Q r s3" unfolding Q_def inserted_def
        using s3 other r sizes(2) all by (intro exI [of _ "(c, ?B', yss') # lv'"] exI [of _ M']) (auto split: if_splits)
    qed
    let ?i = "slot_index ?hash (array_bucket_count B)"
    let ?fin = "\<lambda>result. call (on_array c (add_fetch pending_insert_count pending_insert_count_update (- 1))) (\<lambda>_.
        call (end_write_operation (table_lock h)) (\<lambda>_. Done result))"
    have itemsB: "array_item_count B = of_nat (length (concat yss))" "length (concat yss) < 2 ^ 31" using f(2) by (simp_all add: counts_ok_def)
    have short: "length (concat yss) \<le> length (level_items lvs)" using arg_cong [OF f(1), of length] by simp
    have pendB: "pending_insert_count ?B = 1" using pend by simp
    have insert: "wp (insert_into_first G ?K b h t key value seq c ?i) (\<lambda>r. wp (?fin r) Q) s4"
      if "searching X C G rf h ?T t N E U R M1 ?l1 ?hash ?P b ?w s2 [] s4" for s4
    proof -
      from that have none: "(\<forall>x \<in> set (level_items ?l1). \<not> ?P x) \<or> ?w" and card4: "card (live s4) \<le> card (live s2) + size_of_levels ?l1"
        and pl4: "\<And>n. plenty (n + size_of_levels ?l1) s2 \<Longrightarrow> plenty n s4" and s4: "levels_ok G rf h ?T ?l1 E U R M1 s4" "hp_ok X C s4 t N R M1"
        "words s4 = words s" "user s4 = user s2" "csl_items s4 = csl_items s2" using same(1) by (auto simp: searching_def)
      have "array_ok G ?T (user s4) ?B yss" by (rule levels_okD(5) [OF s4(1), where a = c]) simp
      then have i: "?i < length yss" using slot_in_range(2) [where xss = yss and A = ?B] by simp
      have slot: "length (yss ! ?i) \<le> length (concat yss)"
        using member_le_sum_list [of "length (yss ! ?i)" "map length yss"] nth_mem [OF i] by (simp add: length_concat)
      have room4: "card (live s4) + length (yss ! ?i) + 2 < b"
      proof -
        have "card (live s2) = card (live s1)" by (simp add: s2_def)
        then have "card (live s4) + length (yss ! ?i) + 2 \<le> card (live s) + 1 + Suc (size_of_levels lvs) + length (level_items lvs) + 2"
          using card4 card1 sizes(1) slot short by linarith
        also have "\<dots> < b" using room by (simp add: size_of_levels_def)
        finally show ?thesis .
      qed
      have ready: "value \<notin> set (level_items ?l1)" "csl_items s4 value \<noteq> None" "ht_items (user s4) value \<noteq> None" "table_seq_ok ?T seq (words s4)"
        "hash_respects G ?T" "table_hazard_pointers ?T \<noteq> null" "?i = slot_index (table_hash G ?T key) (array_bucket_count ?B)"
        using fresh seq k(4,7) sizes(2) s4 same by (simp_all add: hash_respects_def)
      have keys4: "get_item_key_cb x (user s4) = get_item_key_cb x (user s)" for x using same(5) s4(4) by simp
      have keyeq4: "key_is G T (user s4) = key_is G T (user s)" using keyeq s4(4) by simp
      have client4: "client (user s4) = client (user s)" using same(3) s4(4) by simp
      have dup: "\<not> plenty (2 * size_of_levels lvs + 4) s" if "\<not> plenty (size_of_levels ?l1) s2" by (rule enough [OF that]) (use sizes(1) in simp)
      show ?thesis
      proof (rule wp_mono [OF wp_insert_into_first [OF s4(1,2) k(5) ready(5,6,4,1) fresh(2) ready(2,3,7) room4]], goal_cases)
        case (1 r s')
        then show ?case
          unfolding into_first_post_def keys4 client4 s4(3) writing_numbers client_skips_writing keyeq4
        proof (elim exE conjE, goal_cases)
          case (1 A' xss' M')
          have pend': "pending_insert_count A' = 1" using 1(5) pendB by simp
          have buckets': "array_bucket_count A' = array_bucket_count B" using 1(4) by simp
          have other: "get_item_key_cb x (user s') = get_item_key_cb x (user s)" if "x \<noteq> value" for x using 1(6) that by blast
          have setB: "set (concat yss) \<subseteq> set (level_items lvs)" using f(1) [symmetric] by auto
          show ?case
          proof (cases "r = CLDS_HASH_TABLE_INSERT_OK")
            case True
            with 1(7) have r: "levels_ok G rf h ?T ((c, A', xss') # lv') E (U(value := U value - 1)) R M' s'" "array_item_count A' = array_item_count B + 1"
              "mset (concat xss') = add_mset value (mset (concat yss))" "get_item_key_cb value (user s') = key"
              "\<forall>x \<in> set (concat yss). \<not> key_is G T (user s) key x" "client (user s') = client (user s)"
              "words s' = given_out seq (table_number T (words s)) (table_counted T (words s))" by simp_all
            have len': "length (concat xss') = Suc (length (concat yss))" using arg_cong [OF r(3), of size] by simp
            have "(\<forall>x \<in> set (level_items lvs). \<not> key_is G T (user s) key x) \<or> \<not> plenty (2 * size_of_levels lvs + 4) s"
              using none dup r(5) unfolding sizes(2) writing_numbers keyeq by blast
            then show ?thesis
              using True r len' itemsB short size(2) by (intro finish [OF r(1) 1(2,1) pend' buckets' other]) simp_all
          next
            case False
            with 1(7) have r: "levels_ok G rf h ?T ((c, A', yss) # lv') E U R M' s'" "array_item_count A' = array_item_count B"
              "r = CLDS_HASH_TABLE_INSERT_KEY_ALREADY_EXISTS \<and> (\<exists>x \<in> set (concat yss). key_is G T (user s) key x) \<or>
               r = CLDS_HASH_TABLE_INSERT_ERROR \<and> \<not> plenty (Suc (Suc (length (yss ! ?i)))) s4"
              "words s' = words s \<and> client (user s') = client (user s) \<or>
               words s' = given_out seq (table_number T (words s)) (table_counted T (words s)) \<and>
               client (user s') = client_skips G T (table_number T (words s)) (client (user s))" by simp_all
            have "\<not> plenty (2 * size_of_levels lvs + 4) s" if "\<not> plenty (Suc (Suc (length (yss ! ?i)))) s4"
            proof (rule enough)
              show "\<not> plenty (Suc (Suc (length (yss ! ?i))) + size_of_levels ?l1) s2" using pl4 that by blast
              show "Suc (Suc (length (yss ! ?i))) + size_of_levels ?l1 \<le> 2 * size_of_levels lvs + 3"
                using slot short sizes(1) by (simp add: size_of_levels_def)
            qed
            then have "r = CLDS_HASH_TABLE_INSERT_KEY_ALREADY_EXISTS \<and> (\<exists>x \<in> set (level_items lvs). key_is G T (user s) key x) \<or>
               r = CLDS_HASH_TABLE_INSERT_ERROR \<and> \<not> plenty (2 * size_of_levels lvs + 4) s" using r(3) setB by blast
            then show ?thesis
              using False r(2,4) itemsB by (intro finish [OF r(1) 1(2,1) pend' buckets' other]) simp_all
          qed
        qed
      qed
    qed
    have key2: "\<forall>x \<in> set (level_items ?l1). Suc (refs s2 x) < 2 ^ 32" by (rule refs2)
    have lower: "wp (found_in_lower_levels ?K b b t key ?hash (first_of (map fst lv'))) (\<lambda>found. wp
        (call (if found then Done CLDS_HASH_TABLE_INSERT_KEY_ALREADY_EXISTS
            else insert_into_first G ?K b h t key value seq c ?i) ?fin) Q) s2"
    proof (rule wp_mono [OF wp_found_in_lower_levels [OF from_here key key2 len]], goal_cases)
      case (1 found s')
      show ?case
      proof (cases found)
        case True
        with 1 obtain x where x: "x \<in> set (level_items ?l1)" "key_is G ?T (user s2) key x"
          and s': "levels_ok G rf h ?T ?l1 E U R M1 s'" "hp_ok X C s' t N R M1" "words s' = words s2" "user s' = user s2" by auto
        have "\<exists>x \<in> set (level_items lvs). key_is G T (user s) key x" using x unfolding sizes(2) writing_numbers keyeq by blast
        then have "wp (?fin CLDS_HASH_TABLE_INSERT_KEY_ALREADY_EXISTS) Q s'"
          using s'(3,4) same itemsB by (intro finish [OF s'(1,2) subset_refl pendB]) simp_all
        then show ?thesis using True by (simp add: wp_call wp_Done_fun)
      next
        case False
        then have "searching X C G rf h ?T t N E U R M1 ?l1 ?hash ?P b ?w s2 [] s'" using 1 by simp
        from insert [OF this] show ?thesis using False by (simp add: wp_call)
      qed
    qed
    have at2: "ht_arrays s2 c = Some ?B" by (simp add: s2_def)
    have next_array: "next_bucket B = first_of (map fst lv')"
    proof -
      have "heap_chain (\<lambda>a. map_option next_bucket (ht_arrays s1 a)) c (c # map fst lv')" using levels_okD(3) [OF ok1] by simp
      then show ?thesis using at by (cases lv') (auto dest: heap_chain_first)
    qed
    have T2: "ht_tables (user s2) h = Some (?T\<lparr>first_hash_table := first_of (map fst ?l1)\<rparr>)" by (rule levels_okD(2) [OF ok2])
    have wait: "wp (if first_of (map fst lv') \<noteq> null then wait_for_inserts b (first_of (map fst lv')) else Done ()) P s2 = P () s2" for P
    proof (cases lv')
      case (Cons v lv2)
      obtain d D zss where v: "v = (d, D, zss)" by (cases v)
      have "ht_arrays s2 d = Some D" by (rule levels_okD(4) [OF ok2, where xss = zss]) (simp add: Cons v)
      moreover have "pending_insert_count D = 0" using f(3) Cons v by (auto simp: none_pending_def)
      ultimately show ?thesis using b by (simp add: Cons v wp_Done wp_wait_for_inserts)
    qed (simp add: wp_Done)
    have next2: "wp (on_array c (cas next_bucket next_bucket_update null null)) P s2 = P (first_of (map fst lv')) s2" for P
      by (simp add: wp_array_reads [OF at2] next_array)
    have hash2: "wp (hash_of_key G h key) P s2 = P ?hash s2" for P by (simp add: wp_hash_of_key [OF T2])
    have pend2: "wp (on_array c (add_fetch pending_insert_count pending_insert_count_update 1)) P s1 = P (pending_insert_count B + 1) s2" for P
      by (simp add: wp_count_changes [OF at] s2_def)
    have "wp (call (if first_of (map fst lv') \<noteq> null then wait_for_inserts b (first_of (map fst lv')) else Done ()) k) Q s2 = wp (k ()) Q s2" for k
      unfolding wp_call by (rule wait)
    then show ?thesis
      using lower by (simp only: wp_call [of "on_array _ _"] wp_call [of "hash_of_key _ _ _"] wp_call [of "found_in_lower_levels _ _ _ _ _ _ _"]
          wp_array_reads [OF at] pend2 hash2 next2 simp_thms if_True if_False)
  qed
  have T: "ht_tables (user s) h = Some (T\<lparr>first_hash_table := first_of (map fst lvs)\<rparr>)" by (rule levels_okD(2) [OF k(1)])
  have grown: "wp (get_first_bucket_array b h) (\<lambda>c. wp (call (on_array c (add_fetch array_bucket_count array_bucket_count_update 0)) (\<lambda>count_of_buckets.
      call (on_array c (add_fetch pending_insert_count pending_insert_count_update 1)) (\<lambda>_.
      call (hash_of_key G h key) (\<lambda>hash.
      call (on_array c (cas next_bucket next_bucket_update null null)) (\<lambda>next_bucket_array.
      call (if next_bucket_array \<noteq> null then wait_for_inserts b next_bucket_array else Done ()) (\<lambda>_.
      call (found_in_lower_levels ?K b b t key hash next_bucket_array) (\<lambda>found.
      call (if found then Done CLDS_HASH_TABLE_INSERT_KEY_ALREADY_EXISTS
            else insert_into_first G ?K b h t key value seq c (slot_index hash count_of_buckets)) (\<lambda>result.
      call (on_array c (add_fetch pending_insert_count pending_insert_count_update (- 1))) (\<lambda>_.
      call (end_write_operation (table_lock h)) (\<lambda>_.
      Done result)))))))))) Q) mid"
  proof (rule wp_mono [OF wp_get_first_bucket_array [OF mid(2,1) lvs size(1) b]], elim exE conjE, goal_cases)
    case (1 c s1 lvs' M')
    have "lvs' \<noteq> []" using first_array_facts(6) [OF 1(4) k(2,8)] lvs by blast
    then obtain B yss lv' where l: "lvs' = (c, B, yss) # lv'" using 1(3) by (cases lvs') auto
    have "plenty n s1" if "plenty (Suc n) s" for n using 1(7) that by (simp add: mid_def)
    moreover have "card (live s1) \<le> Suc (card (live s))" using 1(6) by (simp add: mid_def)
    moreover have "lvs' = lvs \<longrightarrow> \<not> full_array A \<or> \<not> plenty 1 s" using 1(8) by (simp add: mid_def)
    ultimately show ?case using rest [OF 1(1) [unfolded l] 1(2) first_array_facts(5) [OF 1(4) k(2,8)] 1(4) [unfolded l] _ 1(5)] unfolding l by blast
  qed
  show ?thesis
    unfolding Q_def [symmetric]
    using table_args [OF hp k(1)] key grown
    by (simp add: clds_hash_table_insert_def counter_given [OF seq] wp_table_calls wp_no_table_counter_for [OF T] start wp_call [of "get_first_bucket_array _ _"])
qed

end
