(* ===== verification/Hash_Table_Properties.thy ===== *)
theory Hash_Table_Properties
  imports Hash_Table_Insert
begin

text \<open>
  The properties of the hash table (\<open>src/src/clds_hash_table.c\<close>), for one thread while the others are
  at rest. A table holds the items \<open>level_items lvs\<close> of all its levels, no two with equal keys; the
  specification of an operation is what it does to them: \<open>find\<close>, \<open>remove1\<close>, \<open>add_mset\<close>.

  All of them start from \<open>hp_ok X C s t N R M\<close>, as for the sorted list, and from \<open>table_ok G rf h T lvs E U R M s\<close>:
  the table with the struct \<open>T\<close> is at \<open>h\<close> with the levels \<open>lvs\<close>, each item is in the bucket of its
  hash, the buckets are sorted lists, the counts of items are exact and no insert is under way.
\<close>

section \<open>The table between two operations\<close>

lemma unique_keys_same: "(\<And>x. get_item_key_cb x u' = get_item_key_cb x u) \<Longrightarrow> unique_keys G T u' xs = unique_keys G T u xs"
  by (simp add: unique_keys_def)

lemma unique_keys_fewer: "unique_keys G T u xs \<Longrightarrow> set ys \<subseteq> set xs \<Longrightarrow> unique_keys G T u ys"
  unfolding unique_keys_def by blast

lemma table_ok_after:
  fixes s s' :: "('q, 'v, 'a) ht_mem_scheme"
  assumes "table_ok G rf h T lvs E U R M s" and "levels_ok G rf h T lvs' E U' R' M' s'" and "counts_ok lvs'" and "none_pending lvs'"
    and "unique_keys G T (user s') (level_items lvs')"
  shows "table_ok G rf h T lvs' E U' R' M' s'"
  using assms unfolding table_ok_def by blast

lemma taken_out_table:
  fixes s s' :: "('q, 'v, 'a) ht_mem_scheme"
  assumes ok: "table_ok G rf h T lvs E U R M s" and post: "taken_out X C G rf h T t N E U R M lvs P U' W okr not_found err s r s'"
  shows "(\<exists>x lvs' R' M'. find P (level_items lvs) = Some x \<and> r = okr \<and> R' \<subseteq># add_mset (rf, x) R \<and> M' \<subseteq> M \<and> hp_ok X C s' t N R' M' \<and>
      table_ok G rf h T lvs' E (U' x) R' M' s' \<and> level_items lvs' = remove1 x (level_items lvs) \<and> words s' = W x \<and>
      cleanups (list_callbacks G rf) (user s) (user s') \<and>
      (plenty (Suc (size_of_levels lvs)) s \<longrightarrow> settled (list_callbacks G rf) U (add_mset (rf, x) R) s (U' x) R' s')) \<or>
    hp_ok X C s' t N R M \<and> table_ok G rf h T lvs E U R M s' \<and> words s' = words s \<and> user s' = user s \<and>
      (r = not_found \<and> find P (level_items lvs) = None \<or> r = err \<and> \<not> plenty (size_of_levels lvs) s)"
proof -
  note k = table_okD [OF ok]
  have same: "table_ok G rf h T lvs E U R M s'" if "levels_ok G rf h T lvs E U R M s'" "user s' = user s"
    by (rule table_ok_after [OF ok that(1) k(2,8)]) (simp add: that(2) k(3))
  have less: "table_ok G rf h T lvs' E V R' M' s'" if "levels_ok G rf h T lvs' E V R' M' s'" "counts_ok lvs'" "none_pending lvs \<longrightarrow> none_pending lvs'"
    "level_items lvs' = remove1 x (level_items lvs)" "cleanups (list_callbacks G rf) (user s) (user s')" for V R' M' lvs' x
  proof (rule table_ok_after [OF ok that(1,2)])
    have "unique_keys G T (user s') (level_items lvs)"
      using k(3) unique_keys_same [of "user s'" "user s"] only_client_key [OF cleanups_client [OF that(5)]] by blast
    then show "unique_keys G T (user s') (level_items lvs')" by (rule unique_keys_fewer) (simp add: that(4) set_remove1_subset)
  qed (use that(3) k(8) in blast)
  show ?thesis using post same less unfolding taken_out_def by blast
qed

lemma inserted_table:
  fixes s s' :: "('q, 'v, 'a) ht_mem_scheme"
  assumes ok: "table_ok G rf h T lvs E U R M s" and new: "value \<notin> set (level_items lvs)"
    and post: "inserted X C G rf h T t N E U R M lvs key value seq s r s'"
  shows "\<exists>lvs' M'. M \<subseteq> M' \<and> hp_ok X C s' t N R M' \<and> table_grown (plenty 1 s) lvs lvs' \<and>
       (if r = CLDS_HASH_TABLE_INSERT_OK
        then mset (level_items lvs') = add_mset value (mset (level_items lvs)) \<and> get_item_key_cb value (user s') = key \<and>
          client (user s') = client (user s) \<and> words s' = given_out seq (table_number T (words s)) (table_counted T (words s)) \<and>
          ((\<forall>x \<in> set (level_items lvs). \<not> key_is G T (user s) key x) \<and> table_ok G rf h T lvs' E (U(value := U value - 1)) R M' s' \<or>
           \<not> plenty (2 * size_of_levels lvs + 4) s \<and> levels_ok G rf h T lvs' E (U(value := U value - 1)) R M' s')
        else table_ok G rf h T lvs' E U R M' s' \<and> level_items lvs' = level_items lvs \<and>
          (r = CLDS_HASH_TABLE_INSERT_KEY_ALREADY_EXISTS \<and> (\<exists>x \<in> set (level_items lvs). key_is G T (user s) key x) \<or>
           r = CLDS_HASH_TABLE_INSERT_ERROR \<and> \<not> plenty (2 * size_of_levels lvs + 4) s) \<and>
          (words s' = words s \<and> client (user s') = client (user s) \<or>
           words s' = given_out seq (table_number T (words s)) (table_counted T (words s)) \<and>
           client (user s') = client_skips G T (table_number T (words s)) (client (user s))))"
proof -
  note k = table_okD [OF ok]
  obtain lvs' M' where l: "M \<subseteq> M'" "hp_ok X C s' t N R M'" "counts_ok lvs'" "none_pending lvs'"
    and grown: "table_grown (plenty 1 s) lvs lvs'" and other: "\<And>x. x \<noteq> value \<Longrightarrow> get_item_key_cb x (user s') = get_item_key_cb x (user s)"
    and r: "if r = CLDS_HASH_TABLE_INSERT_OK
        then levels_ok G rf h T lvs' E (U(value := U value - 1)) R M' s' \<and> mset (level_items lvs') = add_mset value (mset (level_items lvs)) \<and>
          get_item_key_cb value (user s') = key \<and> client (user s') = client (user s) \<and>
          words s' = given_out seq (table_number T (words s)) (table_counted T (words s)) \<and>
          ((\<forall>x \<in> set (level_items lvs). \<not> key_is G T (user s) key x) \<or> \<not> plenty (2 * size_of_levels lvs + 4) s)
        else levels_ok G rf h T lvs' E U R M' s' \<and> level_items lvs' = level_items lvs \<and>
          (r = CLDS_HASH_TABLE_INSERT_KEY_ALREADY_EXISTS \<and> (\<exists>x \<in> set (level_items lvs). key_is G T (user s) key x) \<or>
           r = CLDS_HASH_TABLE_INSERT_ERROR \<and> \<not> plenty (2 * size_of_levels lvs + 4) s) \<and>
          (words s' = words s \<and> client (user s') = client (user s) \<or>
           words s' = given_out seq (table_number T (words s)) (table_counted T (words s)) \<and>
           client (user s') = client_skips G T (table_number T (words s)) (client (user s)))"
    using post unfolding inserted_def by (elim exE conjE) (rule that, assumption+, blast, assumption)
  have keys: "get_item_key_cb x (user s') = get_item_key_cb x (user s)" if "x \<in> set (level_items lvs)" for x
    using other new that by metis
  have old: "unique_keys G T (user s') (level_items lvs)" using k(3) keys by (simp add: unique_keys_def)
  show ?thesis
  proof (cases "r = CLDS_HASH_TABLE_INSERT_OK")
    case True
    with r have ok': "levels_ok G rf h T lvs' E (U(value := U value - 1)) R M' s'" "mset (level_items lvs') = add_mset value (mset (level_items lvs))"
      "get_item_key_cb value (user s') = key" by simp_all
    have items: "set (level_items lvs') = insert value (set (level_items lvs))" using arg_cong [OF ok'(2), of set_mset] by simp
    have "table_ok G rf h T lvs' E (U(value := U value - 1)) R M' s'" if none: "\<forall>x \<in> set (level_items lvs). \<not> key_is G T (user s) key x"
    proof (rule table_ok_after [OF ok ok'(1) l(3,4)])
      have "table_cmp G T (get_item_key_cb x (user s')) key \<noteq> 0" "table_cmp G T key (get_item_key_cb x (user s')) \<noteq> 0" if "x \<in> set (level_items lvs)" for x
        using none that keys [OF that] same_key(1) [OF k(5), of T key x "user s"] by (auto simp: key_is_def)
      then show "unique_keys G T (user s') (level_items lvs')"
        using old ok'(3) unfolding unique_keys_def items by auto
    qed
    then show ?thesis using True r l(1,2) grown by auto
  next
    case False
    with r have ok': "levels_ok G rf h T lvs' E U R M' s'" "level_items lvs' = level_items lvs" by simp_all
    have "table_ok G rf h T lvs' E U R M' s'" by (rule table_ok_after [OF ok ok'(1) l(3,4)]) (simp add: ok'(2) old)
    then show ?thesis using False r l(1,2) grown by auto
  qed
qed

section \<open>An example\<close>

text \<open>
  A table at 512 with two levels: an array at 528 with two buckets, of which the second one holds a
  list at 560 with the item 272, and an older array at 544 with one bucket, a list at 576 with the
  item 288. The keys are 3 and 2, the hash of a key is the key. A node at 304 is in the hands of the
  caller, who logs what is cleaned up and what is skipped; the operations are counted at 1024.
\<close>

definition ht_example_callbacks :: "64 word list ht_callbacks" where
  "ht_example_callbacks = \<lparr>compute_hash = (\<lambda>f k. k), compare_func = (\<lambda>f k k'. if k < k' then - 1 else if k = k' then 0 else 1),
     client_skipped = (\<lambda>f c v u. u @ [v]), client_cleanup = (\<lambda>f c x u. u @ [x]),
     client_condition = (\<lambda>f c k k' u. (CLDS_CONDITION_CHECK_OK, u)), token_is_canceled = (\<lambda>c u. (False, u)),
     get_item_key_function = 1, key_compare_function = 1, skipped_seq_no_function = 1, item_cleanup_function = 1\<rparr>"

lemma ht_example_callbacks_ok: "ht_callbacks_ok ht_example_callbacks"
  unfolding ht_callbacks_ok_def by (auto simp: ht_example_callbacks_def)

definition ht_example_table :: clds_hash_table where
  "ht_example_table = \<lparr>locked_for_write = 0, pending_write_operations = 0, table_compute_hash = 1, table_key_compare_func = 1,
     first_hash_table = 528, table_hazard_pointers = 16, table_sequence_number = 1024, table_skipped_seq_no_cb = 1, table_skipped_seq_no_cb_context = 0\<rparr>"

definition ht_example_list :: "ptr \<Rightarrow> clds_sorted_list" where
  "ht_example_list p = \<lparr>locked_for_write = 0, pending_write_operations = 0, list_hazard_pointers = 16, list_head = p,
     get_item_key_cb = 1, get_item_key_cb_context = 512, key_compare_cb = 1, key_compare_cb_context = 512,
     sequence_number = 1024, skipped_seq_no_cb = 1, skipped_seq_no_cb_context = 512\<rparr>"

definition ht_example_levels :: "level list" where
  "ht_example_levels =
     [(528, \<lparr>next_bucket = 544, array_bucket_count = 2, array_item_count = 1, pending_insert_count = 0, hash_table = [null, 560]\<rparr>, [[], [272]]),
      (544, \<lparr>next_bucket = null, array_bucket_count = 1, array_item_count = 1, pending_insert_count = 0, hash_table = [576]\<rparr>, [[288]])]"

definition ht_example_node :: "ptr \<Rightarrow> clds_sorted_list_item" where
  "ht_example_node x = \<lparr>ref_count = 1, item_cleanup_callback = 1, item_cleanup_callback_context = x, item_next = null\<rparr>"

definition ht_example :: "(inactive_thread list, 64 word list) ht_mem" where
  "ht_example = \<lparr>live = {16, 32, 272, 288, 304, 512, 528, 544, 560, 576}, answers = [768, 784, 800, 816, 832, 848, 864, 880, 896, 912, 928, 944], st_sets = Map.empty,
     st_arrays = Map.empty, st_items = Map.empty, hp_records = Map.empty, hp_entries = Map.empty,
     hp_threads = [32 \<mapsto> \<lparr>th_next = null, th_hazard_pointers = 16, free_pointers = null, pointers = null, reclaim_list = null,
        active = 1, reclaim_list_entry_count = 0\<rparr>],
     hp_structs = [16 \<mapsto> \<lparr>hp_thread_cleanup_worker = 24, reclaim_threshold = 8, hp_head = 32, epoch = 0,
        pending_reclaim_calls = 0, inactive_threads = 8, pending_reclaim_list = null\<rparr>], outer = [],
     csl_items = [272 \<mapsto> ht_example_node 272, 288 \<mapsto> ht_example_node 288, 304 \<mapsto> ht_example_node 304],
     csl_lists = [560 \<mapsto> ht_example_list 272, 576 \<mapsto> ht_example_list 288],
     words = [1024 \<mapsto> 5, 1032 \<mapsto> 0, 1040 \<mapsto> 0],
     user = \<lparr>ht_items = [272 \<mapsto> \<lparr>ht_cleanup_callback = 1, ht_cleanup_callback_context = 0, ht_key = 3\<rparr>,
         288 \<mapsto> \<lparr>ht_cleanup_callback = 1, ht_cleanup_callback_context = 0, ht_key = 2\<rparr>,
         304 \<mapsto> \<lparr>ht_cleanup_callback = 1, ht_cleanup_callback_context = 0, ht_key = junk\<rparr>],
       ht_tables = [512 \<mapsto> ht_example_table], client = []\<rparr>,
     ht_arrays = [528 \<mapsto> fst (snd (ht_example_levels ! 0)), 544 \<mapsto> fst (snd (ht_example_levels ! 1))]\<rparr>"

text \<open>The size of an array is computed with integers.\<close>

lemma malloc_bucket_array_code [code]:
  "malloc_bucket_array nmemb k =
     (if (2 ^ 64 :: int) \<le> 24 + uint nmemb * (8 * int k) then Done null
      else new_obj ht_arrays (\<lambda>m. ht_arrays_update (\<lambda>_. m))
        \<lparr>next_bucket = junk, array_bucket_count = 0xCDCDCDCD, array_item_count = 0xCDCDCDCD, pending_insert_count = 0xCDCDCDCD,
         hash_table = replicate (unat nmemb * k) junk\<rparr>)"
proof -
  have "(2 ^ 64 :: int) \<le> 24 + uint nmemb * (8 * int k) \<longleftrightarrow> int (2 ^ 64) \<le> int (24 + unat nmemb * (8 * k))" by simp
  also have "\<dots> \<longleftrightarrow> (2 ^ 64 :: nat) \<le> 24 + unat nmemb * (8 * k)" by (rule of_nat_le_iff)
  finally show ?thesis unfolding malloc_bucket_array_def by simp
qed

text \<open>The same without the larger array: the one that is left, with one bucket and one item, is full.\<close>

definition ht_example_full :: "(inactive_thread list, 64 word list) ht_mem" where
  "ht_example_full = ht_example\<lparr>user := (user ht_example)\<lparr>ht_tables := [512 \<mapsto> ht_example_table\<lparr>first_hash_table := 544\<rparr>]\<rparr>\<rparr>"

definition ht_example_refs :: "ptr \<Rightarrow> nat" where
  "ht_example_refs x = (if x = 304 then 1 else 0)"

abbreviation ht_example_memory :: "ptr set" where
  "ht_example_memory \<equiv> {272, 288, 304, 512, 528, 544, 560, 576}"

lemma ht_example_hp: "hp_ok list_externals list_contents ht_example 32 Map.empty {#} ht_example_memory"
proof -
  define V :: "ptr \<Rightarrow> thread_view" where "V = (\<lambda>t. \<lparr>used = [], unused = [], retired = []\<rparr>)"
  define W where "W = (\<lambda>x :: ptr. if x = 16 then Hps_Struct else if x = 32 then Part_Of 32 else Client)"
  have "hps_at list_contents ht_example 16 [32] [] V W [] ht_example_memory"
    unfolding hps_at_def thread_at_def
    by (simp add: ht_example_def V_def W_def list_contents_def insert_commute)
  then show ?thesis
    by (rule hp_okI [OF list_externals_ok])
      (simp_all add: is_active_def ht_example_def V_def held_def all_retired_def fun_eq_iff)
qed

lemma ht_example_bucket: "bucket_struct ht_example_callbacks 512 ht_example_table = ht_example_list null"
  by (simp add: bucket_struct_def ht_example_callbacks_def ht_example_table_def ht_example_list_def)

lemma ht_example_lists: "level_lists (ht_example_list null) ht_example_levels = [(560, ht_example_list null, [272]), (576, ht_example_list null, [288])]"
  by (simp add: ht_example_levels_def bucket_lists_def)

lemma ht_example_array:
  "(a, A, xss) \<in> set ht_example_levels \<Longrightarrow> ht_arrays ht_example a = Some A \<and> array_ok ht_example_callbacks ht_example_table (user ht_example) A xss"
proof -
  have one: "array_ok ht_example_callbacks ht_example_table (user ht_example)
      \<lparr>next_bucket = 544, array_bucket_count = 2, array_item_count = 1, pending_insert_count = 0, hash_table = [null, 560]\<rparr> [[], [272]]"
    by code_simp
  have two: "array_ok ht_example_callbacks ht_example_table (user ht_example)
      \<lparr>next_bucket = null, array_bucket_count = 1, array_item_count = 1, pending_insert_count = 0, hash_table = [576]\<rparr> [[288]]"
    by code_simp
  show "(a, A, xss) \<in> set ht_example_levels \<Longrightarrow> ht_arrays ht_example a = Some A \<and> array_ok ht_example_callbacks ht_example_table (user ht_example) A xss"
    using one two by (auto simp: ht_example_levels_def) (simp_all add: ht_example_def ht_example_levels_def)
qed

lemma ht_example_levels_ok:
  "levels_ok ht_example_callbacks 1 512 ht_example_table ht_example_levels {} ht_example_refs {#} ht_example_memory ht_example"
proof (rule levels_okI)
  show "lists_ok (level_others ht_example_callbacks 512 ht_example_table ht_example_levels {} (csl_mem.more ht_example))
      (list_callbacks ht_example_callbacks 1) ht_example_refs {#} ht_example_memory ht_example"
    unfolding lists_ok_def level_others_simps ht_example_bucket ht_example_lists
  proof (intro conjI)
    let ?Os = "level_others ht_example_callbacks 512 ht_example_table ht_example_levels {} (csl_mem.more ht_example)"
    have listed: "listed ?Os x = of_bool (x = 272) + of_bool (x = 288)" for x
      by (simp add: listed_def level_others_def ht_example_bucket ht_example_lists)
    show "\<forall>x. listed ?Os x \<le> 1" unfolding listed by simp
    show "\<forall>x. listed ?Os x + count {#} (reclaim_list_node_function (list_callbacks ht_example_callbacks 1), x) + ht_example_refs x \<le> refs ht_example x"
      unfolding listed by (simp add: ht_example_refs_def ht_example_def ht_example_node_def refs_def)
    show "\<forall>x \<in> dom (csl_items ht_example). x \<noteq> null \<and> aligned x \<and> x \<in> ht_example_memory \<and> 0 < refs ht_example x"
      by (auto simp: ht_example_def ht_example_node_def refs_def aligned_def split: if_splits)
    show "\<forall>(l, L, xs) \<in> set [(560, ht_example_list null, [272]), (576, ht_example_list null, [288])].
        sorted_list_at (list_callbacks ht_example_callbacks 1) l L xs ht_example_memory ht_example"
      by (simp add: sorted_list_at_def list_at_def ht_example_def ht_example_list_def ht_example_node_def aligned_def)
    show "\<forall>p \<in> insert 512 (fst ` set ht_example_levels) \<union> {}. p \<notin> fst ` set [(560, ht_example_list null, [272]), (576, ht_example_list null, [288])] \<and>
        p \<in> ht_example_memory \<and> csl_items ht_example p = None"
      by (simp add: ht_example_levels_def) (simp add: ht_example_def)
  qed simp_all
qed (use ht_example_array in \<open>simp_all add: ht_example_levels_def ht_example_table_def\<close>, simp_all add: ht_example_def ht_example_levels_def ht_example_table_def, auto)

lemma ht_example_ok:
  "table_ok ht_example_callbacks 1 512 ht_example_table ht_example_levels {} ht_example_refs {#} ht_example_memory ht_example"
  unfolding table_ok_def
proof (intro conjI ht_example_levels_ok ht_example_callbacks_ok)
  show "unique_keys ht_example_callbacks ht_example_table (user ht_example) (level_items ht_example_levels)"
    by (simp add: unique_keys_def ht_example_levels_def ht_example_callbacks_def get_item_key_cb_def) (simp add: ht_example_def)
qed (simp_all add: counts_ok_def none_pending_def hash_respects_def ht_example_levels_def ht_example_table_def ht_example_callbacks_def)

lemma ht_example_sizes: "card (live ht_example) = 10" "size_of_levels ht_example_levels = 4" "level_items ht_example_levels = [272, 288]"
  by (simp_all add: ht_example_levels_def) (simp add: ht_example_def)

lemma ht_example_seq: "table_seq_ok ht_example_table 1032 (words ht_example)" "table_seq_ok ht_example_table null (words ht_example)"
  by (simp_all add: table_seq_ok_def ht_example_def ht_example_table_def)

lemma ht_example_few_refs: "\<forall>x \<in> set (level_items ht_example_levels). Suc (refs ht_example x) < 2 ^ 32"
  by (simp add: ht_example_sizes refs_def) (simp add: ht_example_def ht_example_node_def)

section \<open>Properties\<close>

text \<open>
  C23: insertion adds the item, under the key, to the items of the table and takes over one of the
  caller's references. The table grows exactly when the first array has as many items as buckets and
  there is memory: an array with twice the number of buckets is put in front of it; otherwise the
  first array stays, and in both cases the levels behind the first one are as before, so that the new
  item is in the first level (\<open>table_grown\<close>). When the key
  is there already nothing is added; a key that is there can be overlooked, and then be in the table
  twice, but only when memory is short. What an attempt that fails has drawn is reported as skipped.
\<close>

theorem hash_table_insert:
  fixes s :: "('q, 'v, 'a) ht_mem_scheme"
  assumes "hp_ok X C s t N R M" and "table_ok G rf h T lvs E U R M s" and "key \<noteq> null" and "lvs = (a, A, xss) # lv"
    and "sint (array_bucket_count A) < 2 ^ 30" and "Suc (length (level_items lvs)) < 2 ^ 31" and "table_seq_ok T seq (words s)"
    and "value \<notin> set (level_items lvs)" and "0 < U value" and "csl_items s value \<noteq> None" and "ht_items (user s) value \<noteq> None"
    and "\<forall>x \<in> set (level_items lvs). Suc (refs s x) < 2 ^ 32" and "2 * (card (live s) + size_of_levels lvs) + 8 < b"
  shows "wp (clds_hash_table_insert G (list_callbacks G rf) b h t key value seq) (\<lambda>r s'. \<exists>lvs' M'. M \<subseteq> M' \<and> hp_ok X C s' t N R M' \<and> table_grown (plenty 1 s) lvs lvs' \<and>
       (if r = CLDS_HASH_TABLE_INSERT_OK
        then mset (level_items lvs') = add_mset value (mset (level_items lvs)) \<and> get_item_key_cb value (user s') = key \<and>
          client (user s') = client (user s) \<and> words s' = given_out seq (table_number T (words s)) (table_counted T (words s)) \<and>
          ((\<forall>x \<in> set (level_items lvs). \<not> key_is G T (user s) key x) \<and> table_ok G rf h T lvs' E (U(value := U value - 1)) R M' s' \<or>
           \<not> plenty (2 * size_of_levels lvs + 4) s \<and> levels_ok G rf h T lvs' E (U(value := U value - 1)) R M' s')
        else table_ok G rf h T lvs' E U R M' s' \<and> level_items lvs' = level_items lvs \<and>
          (r = CLDS_HASH_TABLE_INSERT_KEY_ALREADY_EXISTS \<and> (\<exists>x \<in> set (level_items lvs). key_is G T (user s) key x) \<or>
           r = CLDS_HASH_TABLE_INSERT_ERROR \<and> \<not> plenty (2 * size_of_levels lvs + 4) s) \<and>
          (words s' = words s \<and> client (user s') = client (user s) \<or>
           words s' = given_out seq (table_number T (words s)) (table_counted T (words s)) \<and>
           client (user s') = client_skips G T (table_number T (words s)) (client (user s))))) s"
  by (rule wp_mono [OF wp_table_insert [OF assms]]) (rule inserted_table [OF assms(2,8)])

theorem hash_table_insert_witness:
  "wp (clds_hash_table_insert ht_example_callbacks (list_callbacks ht_example_callbacks 1) 37 512 32 4 304 1032)
     (\<lambda>r s'. r = CLDS_HASH_TABLE_INSERT_OK \<longrightarrow> get_item_key_cb 304 (user s') = 4 \<and> words s' 1032 = Some 6) ht_example
   \<and> (case run (clds_hash_table_insert ht_example_callbacks (list_callbacks ht_example_callbacks 1) 37 512 32 4 304 1032) ht_example of
        Value r s' \<Rightarrow> r = CLDS_HASH_TABLE_INSERT_OK \<and> map_option hash_table (ht_arrays s' 528) \<noteq> Some [null, 560] | _ \<Rightarrow> False)
   \<and> (case run (clds_hash_table_insert ht_example_callbacks (list_callbacks ht_example_callbacks 1) 37 512 32 4 304 1032) ht_example_full of
        Value r s' \<Rightarrow> r = CLDS_HASH_TABLE_INSERT_OK \<and> (case ht_tables (user s') 512 of None \<Rightarrow> False
          | Some T \<Rightarrow> map_option (\<lambda>A. (next_bucket A, array_bucket_count A)) (ht_arrays s' (first_hash_table T)) = Some (544, 2)) | _ \<Rightarrow> False)"
proof (intro conjI)
  show "case run (clds_hash_table_insert ht_example_callbacks (list_callbacks ht_example_callbacks 1) 37 512 32 4 304 1032) ht_example_full of
        Value r s' \<Rightarrow> r = CLDS_HASH_TABLE_INSERT_OK \<and> (case ht_tables (user s') 512 of None \<Rightarrow> False
          | Some T \<Rightarrow> map_option (\<lambda>A. (next_bucket A, array_bucket_count A)) (ht_arrays s' (first_hash_table T)) = Some (544, 2)) | _ \<Rightarrow> False"
    by code_simp
  show "case run (clds_hash_table_insert ht_example_callbacks (list_callbacks ht_example_callbacks 1) 37 512 32 4 304 1032) ht_example of
        Value r s' \<Rightarrow> r = CLDS_HASH_TABLE_INSERT_OK \<and> map_option hash_table (ht_arrays s' 528) \<noteq> Some [null, 560] | _ \<Rightarrow> False"
    by code_simp
  have "given_out 1032 (table_number ht_example_table (words ht_example)) (table_counted ht_example_table (words ht_example)) 1032 = Some 6"
    by (simp add: given_out_def table_number_def ht_example_def ht_example_table_def)
  then show "wp (clds_hash_table_insert ht_example_callbacks (list_callbacks ht_example_callbacks 1) 37 512 32 4 304 1032)
     (\<lambda>r s'. r = CLDS_HASH_TABLE_INSERT_OK \<longrightarrow> get_item_key_cb 304 (user s') = 4 \<and> words s' 1032 = Some 6) ht_example"
    by (intro wp_mono [OF hash_table_insert [OF ht_example_hp ht_example_ok _ ht_example_levels_def _ _ ht_example_seq(1) _ _ _ _ ht_example_few_refs]])
      (simp_all add: ht_example_sizes ht_example_refs_def split: if_splits, simp_all add: ht_example_def)
qed

text \<open>
  C24: a look-up returns the item of the table with the key, in whatever level it is, with a reference
  for the caller, and NULL when there is none; NULL for a key that is there means that there was no
  memory for a hazard pointer. The table does not change.
\<close>

theorem hash_table_find:
  fixes s :: "('q, 'v, 'a) ht_mem_scheme"
  assumes "hp_ok X C s t N R M" and "table_ok G rf h T lvs E U R M s" and "key \<noteq> null"
    and "2 * (card (live s) + size_of_levels lvs) + 4 < b" and "\<forall>x \<in> set (level_items lvs). Suc (refs s x) < 2 ^ 32"
  shows "wp (clds_hash_table_find G (list_callbacks G rf) b h t key) (\<lambda>r s'. hp_ok X C s' t N R M \<and> words s' = words s \<and> user s' = user s \<and>
     (case find (key_is G T (user s) key) (level_items lvs) of
        None \<Rightarrow> r = null \<and> table_ok G rf h T lvs E U R M s'
      | Some x \<Rightarrow> r = x \<and> table_ok G rf h T lvs E (U(x := Suc (U x))) R M s' \<or>
                 r = null \<and> \<not> plenty (size_of_levels lvs) s \<and> table_ok G rf h T lvs E U R M s')) s"
  by (rule wp_mono [OF wp_table_find [OF assms]])
    (use assms(2) in \<open>auto simp: found_in_def table_ok_def split: option.splits\<close>)

theorem hash_table_find_witness:
  "wp (clds_hash_table_find ht_example_callbacks (list_callbacks ht_example_callbacks 1) 33 512 32 2)
     (\<lambda>r s'. (r = 288 \<or> r = null) \<and> words s' = words ht_example) ht_example
   \<and> (case run (clds_hash_table_find ht_example_callbacks (list_callbacks ht_example_callbacks 1) 33 512 32 2) ht_example of
        Value r s' \<Rightarrow> r = 288 \<and> map_option ref_count (csl_items s' 288) = Some 2 | _ \<Rightarrow> False)"
proof
  show "case run (clds_hash_table_find ht_example_callbacks (list_callbacks ht_example_callbacks 1) 33 512 32 2) ht_example of
        Value r s' \<Rightarrow> r = 288 \<and> map_option ref_count (csl_items s' 288) = Some 2 | _ \<Rightarrow> False"
    by code_simp
  have "find (key_is ht_example_callbacks ht_example_table (user ht_example) 2) (level_items ht_example_levels) = Some 288" by code_simp
  then show "wp (clds_hash_table_find ht_example_callbacks (list_callbacks ht_example_callbacks 1) 33 512 32 2)
     (\<lambda>r s'. (r = 288 \<or> r = null) \<and> words s' = words ht_example) ht_example"
    by (intro wp_mono [OF hash_table_find [OF ht_example_hp ht_example_ok _ _ ht_example_few_refs]]) (auto simp: ht_example_sizes)
qed

text \<open>
  C25: deletion by key takes the item with the key, and only it, out of the table, in whatever level it
  is, retires it and draws a sequence number; when there is none, or no memory for a hazard pointer,
  nothing changes. Retiring is meant as for the sorted list: while there is memory for the entry of the
  reclaim list, the reference that the table had is owed to a reclaim call of the item or has been
  given up by it, and no other reference is touched (\<open>settled\<close>).
\<close>

theorem hash_table_delete:
  fixes s :: "('q, 'v, 'a) ht_mem_scheme"
  assumes "hp_ok X C s t N R M" and "table_ok G rf h T lvs E U R M s" and "key \<noteq> null" and "table_seq_ok T seq (words s)"
    and "2 * (card (live s) + size_of_levels lvs) + 4 < b"
  shows "wp (clds_hash_table_delete X G (list_callbacks G rf) b h t key seq) (\<lambda>r s'.
      (\<exists>x lvs' R' M'. find (key_is G T (user s) key) (level_items lvs) = Some x \<and> r = CLDS_HASH_TABLE_DELETE_OK \<and>
        R' \<subseteq># add_mset (rf, x) R \<and> M' \<subseteq> M \<and> hp_ok X C s' t N R' M' \<and> table_ok G rf h T lvs' E U R' M' s' \<and>
        level_items lvs' = remove1 x (level_items lvs) \<and> words s' = given_out seq (table_number T (words s)) (table_counted T (words s)) \<and>
        cleanups (list_callbacks G rf) (user s) (user s') \<and>
        (plenty (Suc (size_of_levels lvs)) s \<longrightarrow> settled (list_callbacks G rf) U (add_mset (rf, x) R) s U R' s')) \<or>
      hp_ok X C s' t N R M \<and> table_ok G rf h T lvs E U R M s' \<and> words s' = words s \<and> user s' = user s \<and>
        (r = CLDS_HASH_TABLE_DELETE_NOT_FOUND \<and> find (key_is G T (user s) key) (level_items lvs) = None \<or>
         r = CLDS_HASH_TABLE_DELETE_ERROR \<and> \<not> plenty (size_of_levels lvs) s)) s"
  by (rule wp_mono [OF wp_table_delete [OF assms]]) (rule taken_out_table [OF assms(2)])

theorem hash_table_delete_witness:
  "wp (clds_hash_table_delete list_externals ht_example_callbacks (list_callbacks ht_example_callbacks 1) 33 512 32 2 null)
     (\<lambda>r s'. r \<noteq> CLDS_HASH_TABLE_DELETE_NOT_FOUND) ht_example
   \<and> plenty (Suc (size_of_levels ht_example_levels)) ht_example
   \<and> (case run (clds_hash_table_delete list_externals ht_example_callbacks (list_callbacks ht_example_callbacks 1) 33 512 32 2 null) ht_example of
        Value r s' \<Rightarrow> r = CLDS_HASH_TABLE_DELETE_OK \<and> map_option array_item_count (ht_arrays s' 544) = Some 0 | _ \<Rightarrow> False)"
proof (intro conjI)
  show "plenty (Suc (size_of_levels ht_example_levels)) ht_example"
    by (simp add: ht_example_sizes plenty_def) (simp add: ht_example_def aligned_def)
  show "case run (clds_hash_table_delete list_externals ht_example_callbacks (list_callbacks ht_example_callbacks 1) 33 512 32 2 null) ht_example of
        Value r s' \<Rightarrow> r = CLDS_HASH_TABLE_DELETE_OK \<and> map_option array_item_count (ht_arrays s' 544) = Some 0 | _ \<Rightarrow> False"
    by code_simp
  have "find (key_is ht_example_callbacks ht_example_table (user ht_example) 2) (level_items ht_example_levels) = Some 288" by code_simp
  then show "wp (clds_hash_table_delete list_externals ht_example_callbacks (list_callbacks ht_example_callbacks 1) 33 512 32 2 null)
     (\<lambda>r s'. r \<noteq> CLDS_HASH_TABLE_DELETE_NOT_FOUND) ht_example"
    by (intro wp_mono [OF hash_table_delete [OF ht_example_hp ht_example_ok _ ht_example_seq(2)]]) (auto simp: ht_example_sizes)
qed

text \<open>
  C26: removal by key also hands the item over, with a reference for the caller, through the out parameter,
  while the reference of the table is retired as in C25.
\<close>

theorem hash_table_remove:
  fixes s :: "('q, 'v, 'a) ht_mem_scheme"
  assumes "hp_ok X C s t N R M" and "table_ok G rf h T lvs E U R M s" and "key \<noteq> null"
    and "item \<noteq> null" and "words s item \<noteq> None" and "\<forall>x \<in> set (level_items lvs). Suc (refs s x) < 2 ^ 32"
    and "table_seq_ok T seq (words s)" and "2 * (card (live s) + size_of_levels lvs) + 4 < b"
  shows "wp (clds_hash_table_remove X G (list_callbacks G rf) b h t key item seq) (\<lambda>r s'.
      (\<exists>x lvs' R' M'. find (key_is G T (user s) key) (level_items lvs) = Some x \<and> r = CLDS_HASH_TABLE_REMOVE_OK \<and>
        R' \<subseteq># add_mset (rf, x) R \<and> M' \<subseteq> M \<and> hp_ok X C s' t N R' M' \<and> table_ok G rf h T lvs' E (U(x := Suc (U x))) R' M' s' \<and>
        level_items lvs' = remove1 x (level_items lvs) \<and>
        words s' = given_out seq (table_number T (words s)) ((table_counted T (words s))(item \<mapsto> x)) \<and>
        cleanups (list_callbacks G rf) (user s) (user s') \<and>
        (plenty (Suc (size_of_levels lvs)) s \<longrightarrow> settled (list_callbacks G rf) U (add_mset (rf, x) R) s (U(x := Suc (U x))) R' s')) \<or>
      hp_ok X C s' t N R M \<and> table_ok G rf h T lvs E U R M s' \<and> words s' = words s \<and> user s' = user s \<and>
        (r = CLDS_HASH_TABLE_REMOVE_NOT_FOUND \<and> find (key_is G T (user s) key) (level_items lvs) = None \<or>
         r = CLDS_HASH_TABLE_REMOVE_ERROR \<and> \<not> plenty (size_of_levels lvs) s)) s"
  by (rule wp_mono [OF wp_table_remove [OF assms]]) (rule taken_out_table [OF assms(2)])

theorem hash_table_remove_witness:
  "wp (clds_hash_table_remove list_externals ht_example_callbacks (list_callbacks ht_example_callbacks 1) 33 512 32 3 1040 1032)
     (\<lambda>r s'. r \<noteq> CLDS_HASH_TABLE_REMOVE_NOT_FOUND) ht_example
   \<and> (case run (clds_hash_table_remove list_externals ht_example_callbacks (list_callbacks ht_example_callbacks 1) 33 512 32 3 1040 1032) ht_example of
        Value r s' \<Rightarrow> r = CLDS_HASH_TABLE_REMOVE_OK \<and> words s' 1040 = Some 272 \<and> words s' 1032 = Some 6 | _ \<Rightarrow> False)"
proof
  show "case run (clds_hash_table_remove list_externals ht_example_callbacks (list_callbacks ht_example_callbacks 1) 33 512 32 3 1040 1032) ht_example of
        Value r s' \<Rightarrow> r = CLDS_HASH_TABLE_REMOVE_OK \<and> words s' 1040 = Some 272 \<and> words s' 1032 = Some 6 | _ \<Rightarrow> False"
    by code_simp
  have "find (key_is ht_example_callbacks ht_example_table (user ht_example) 3) (level_items ht_example_levels) = Some 272" by code_simp
  then show "wp (clds_hash_table_remove list_externals ht_example_callbacks (list_callbacks ht_example_callbacks 1) 33 512 32 3 1040 1032)
     (\<lambda>r s'. r \<noteq> CLDS_HASH_TABLE_REMOVE_NOT_FOUND) ht_example"
    by (intro wp_mono [OF hash_table_remove [OF ht_example_hp ht_example_ok _ _ _ ht_example_few_refs ht_example_seq(1)]])
      (auto simp: ht_example_sizes, auto simp: ht_example_def)
qed

text \<open>
  C27: what has been inserted under a key can be looked up under it: with enough memory for the insertion,
  a look-up afterwards gives the item. It can give NULL only if fewer allocations succeed then than
  there were items and levels, and two more; \<open>b'\<close> only has to be larger than what the loops need.
\<close>

theorem hash_table_insert_find:
  fixes s :: "('q, 'v, 'a) ht_mem_scheme"
  assumes hp: "hp_ok X C s t N R M" and ok: "table_ok G rf h T lvs E U R M s" and key: "key \<noteq> null" and lvs: "lvs = (a, A, xss) # lv"
    and size: "sint (array_bucket_count A) < 2 ^ 30" "Suc (length (level_items lvs)) < 2 ^ 31" and seq: "table_seq_ok T seq (words s)"
    and fresh: "value \<notin> set (level_items lvs)" "0 < U value" "csl_items s value \<noteq> None" "ht_items (user s) value \<noteq> None"
    and refs: "\<forall>x \<in> set (level_items lvs). Suc (refs s x) < 2 ^ 32" and room: "2 * (card (live s) + size_of_levels lvs) + 8 < b"
    and memory: "plenty (2 * size_of_levels lvs + 4) s"
  shows "wp (clds_hash_table_insert G (list_callbacks G rf) b h t key value seq) (\<lambda>r s'. r = CLDS_HASH_TABLE_INSERT_OK \<longrightarrow>
      (\<forall>x. Suc (refs s' x) < 2 ^ 32) \<longrightarrow>
      (\<forall>b' > 2 * (card (live s') + size_of_levels lvs) + 8.
         wp (clds_hash_table_find G (list_callbacks G rf) b' h t key) (\<lambda>x s''. x = value \<or> x = null \<and> \<not> plenty (size_of_levels lvs + 2) s') s')) s"
proof (rule wp_mono [OF wp_table_insert [OF hp ok key lvs size seq fresh refs room]], intro impI, goal_cases)
  case (1 r s')
  note k = table_okD [OF ok]
  from inserted_table [OF ok fresh(1) 1(1)] 1(2) memory obtain lvs' M' where hp': "hp_ok X C s' t N R M'"
    and ok': "table_ok G rf h T lvs' E (U(value := U value - 1)) R M' s'" and items: "mset (level_items lvs') = add_mset value (mset (level_items lvs))"
    and its: "get_item_key_cb value (user s') = key" and grown: "table_grown (plenty 1 s) lvs lvs'" by auto
  have small: "size_of_levels lvs' \<le> size_of_levels lvs + 2"
    using arg_cong [OF items, of size] table_grown_size [OF grown] by (simp add: size_of_levels_def)
  have zero: "table_cmp G T key' key' = 0" for key'
  proof -
    have "sgn (table_cmp G T key' key') = - sgn (table_cmp G T key' key')" using k(5) unfolding ht_callbacks_ok_def by blast
    then show ?thesis by (simp add: sgn_if split: if_splits)
  qed
  have v: "value \<in> set (level_items lvs')" "key_is G T (user s') key value"
    using arg_cong [OF items, of set_mset] its zero by (simp_all add: key_is_def)
  then obtain y where y: "find (key_is G T (user s') key) (level_items lvs') = Some y" by (cases "find (key_is G T (user s') key) (level_items lvs')") (auto simp: find_None_iff)
  then have "key_is G T (user s') key y" "y \<in> set (level_items lvs')" by (auto simp: find_Some_iff)
  with v same_key(2) [OF k(5), of T "user s'" key y "value"] table_okD(3) [OF ok'] have "y = value" unfolding unique_keys_def by blast
  then have found: "find (key_is G T (user s') key) (level_items lvs') = Some value" using y by simp
  have "wp (clds_hash_table_find G (list_callbacks G rf) b' h t key) (\<lambda>x s''. x = value \<or> x = null \<and> \<not> plenty (size_of_levels lvs + 2) s') s'"
    if "2 * (card (live s') + size_of_levels lvs) + 8 < b'" for b'
  proof (rule wp_mono [OF wp_table_find [OF hp' ok' key]])
    show "2 * (card (live s') + size_of_levels lvs') + 4 < b'" using that small by simp
    show "\<forall>x \<in> set (level_items lvs'). Suc (refs s' x) < 2 ^ 32" using 1(3) by blast
    show "x = value \<or> x = null \<and> \<not> plenty (size_of_levels lvs + 2) s'"
      if "found_in X C G rf h T t N E (U(value := U value - 1)) R M' lvs' (key_is G T (user s') key) s' x s''" for x s''
    proof -
      have "\<not> plenty (size_of_levels lvs + 2) s'" if "\<not> plenty (size_of_levels lvs') s'"
        using that plenty_fewer [OF _ small, of s'] by blast
      then show ?thesis using that unfolding found_in_def found by auto
    qed
  qed
  then show ?case by blast
qed

theorem hash_table_insert_find_witness:
  "wp (clds_hash_table_insert ht_example_callbacks (list_callbacks ht_example_callbacks 1) 37 512 32 4 304 1032) (\<lambda>r s'. r = CLDS_HASH_TABLE_INSERT_OK \<longrightarrow>
      (\<forall>x. Suc (refs s' x) < 2 ^ 32) \<longrightarrow> (\<forall>b' > 2 * (card (live s') + size_of_levels ht_example_levels) + 8.
        wp (clds_hash_table_find ht_example_callbacks (list_callbacks ht_example_callbacks 1) b' 512 32 4)
          (\<lambda>x s''. x = 304 \<or> x = null \<and> \<not> plenty (size_of_levels ht_example_levels + 2) s') s')) ht_example
   \<and> (case run (call (clds_hash_table_insert ht_example_callbacks (list_callbacks ht_example_callbacks 1) 37 512 32 4 304 1032)
          (\<lambda>r. clds_hash_table_find ht_example_callbacks (list_callbacks ht_example_callbacks 1) 37 512 32 4)) ht_example of
        Value x s' \<Rightarrow> x = 304 | _ \<Rightarrow> False)"
proof
  show "case run (call (clds_hash_table_insert ht_example_callbacks (list_callbacks ht_example_callbacks 1) 37 512 32 4 304 1032)
          (\<lambda>r. clds_hash_table_find ht_example_callbacks (list_callbacks ht_example_callbacks 1) 37 512 32 4)) ht_example of
        Value x s' \<Rightarrow> x = 304 | _ \<Rightarrow> False"
    by code_simp
  show "wp (clds_hash_table_insert ht_example_callbacks (list_callbacks ht_example_callbacks 1) 37 512 32 4 304 1032) (\<lambda>r s'. r = CLDS_HASH_TABLE_INSERT_OK \<longrightarrow>
      (\<forall>x. Suc (refs s' x) < 2 ^ 32) \<longrightarrow> (\<forall>b' > 2 * (card (live s') + size_of_levels ht_example_levels) + 8.
        wp (clds_hash_table_find ht_example_callbacks (list_callbacks ht_example_callbacks 1) b' 512 32 4)
          (\<lambda>x s''. x = 304 \<or> x = null \<and> \<not> plenty (size_of_levels ht_example_levels + 2) s') s')) ht_example"
  proof (rule hash_table_insert_find [OF ht_example_hp ht_example_ok _ ht_example_levels_def _ _ ht_example_seq(1) _ _ _ _ ht_example_few_refs])
    show "plenty (2 * size_of_levels ht_example_levels + 4) ht_example"
      by (simp add: ht_example_sizes plenty_def) (simp add: ht_example_def aligned_def)
  qed (simp_all add: ht_example_sizes ht_example_refs_def, simp_all add: ht_example_def)
qed

text \<open>
  The overlooked key, on the example: the allocation of a hazard pointer fails once, while the older
  level is searched. The key 2 of the item 288 is then inserted a second time, with another item.
\<close>

lemma hash_table_insert_overlooks:
  "case run (clds_hash_table_insert ht_example_callbacks (list_callbacks ht_example_callbacks 1) 37 512 32 2 304 null)
       (ht_example\<lparr>answers := null # answers ht_example\<rparr>) of
     Value r s' \<Rightarrow> r = CLDS_HASH_TABLE_INSERT_OK \<and> get_item_key_cb 304 (user s') = 2 \<and> get_item_key_cb 288 (user s') = 2 \<and>
       map_option list_head (csl_lists s' 576) = Some 288 \<and>
       (case ht_arrays s' 528 of None \<Rightarrow> False | Some A \<Rightarrow> map_option list_head (csl_lists s' (hash_table A ! 0)) = Some 304)
   | _ \<Rightarrow> False"
  by code_simp

end
