(* ===== verification/Lock_Free_Set.thy ===== *)
theory Lock_Free_Set
  imports Interleaving "HOL-Library.Multiset"
begin

text \<open>
  The lock free set of \<open>src/src/lock_free_set.c\<close>: a doubly linked list of items that the caller owns.
  An item is inserted at the head. A thread that removes an item first marks its two links (bit 0),
  which keeps other threads from changing them, and gives up, with the marks taken back, when a
  neighbour is being changed. The set \<open>h\<close> is the address of its struct, which is only the head; the
  loops are bounded by \<open>n\<close>.

  First the functions, then what they do when one thread runs them: the items are a list with all its
  links right. The contract \<open>item_set\<close> is what a client relies on.
\<close>

section \<open>Data and accesses\<close>

record lock_free_set_item =
  item_previous :: ptr
  item_next :: ptr

record lfs_mem = mem +
  lfs_heads :: "ptr \<Rightarrow> ptr option"
  lfs_items :: "ptr \<Rightarrow> lock_free_set_item option"

abbreviation on_head :: "ptr \<Rightarrow> (ptr \<Rightarrow> 'r \<times> ptr option) \<Rightarrow> ('a lfs_mem_scheme, 'r) prog" where
  "on_head \<equiv> access lfs_heads (\<lambda>m. lfs_heads_update (\<lambda>_. m))"

abbreviation on_set_item :: "ptr \<Rightarrow> (lock_free_set_item \<Rightarrow> 'r \<times> lock_free_set_item option) \<Rightarrow> ('a lfs_mem_scheme, 'r) prog" where
  "on_set_item \<equiv> access lfs_items (\<lambda>m. lfs_items_update (\<lambda>_. m))"

text \<open>The head is the only field of its struct.\<close>

abbreviation cas_head :: "ptr \<Rightarrow> ptr \<Rightarrow> ptr \<Rightarrow> ('a lfs_mem_scheme, ptr) prog" where
  "cas_head h new expected \<equiv> on_head h (cas id id new expected)"

abbreviation cas_previous :: "ptr \<Rightarrow> ptr \<Rightarrow> ptr \<Rightarrow> ('a lfs_mem_scheme, ptr) prog" where
  "cas_previous x new expected \<equiv> on_set_item x (cas item_previous item_previous_update new expected)"

abbreviation cas_next :: "ptr \<Rightarrow> ptr \<Rightarrow> ptr \<Rightarrow> ('a lfs_mem_scheme, ptr) prog" where
  "cas_next x new expected \<equiv> on_set_item x (cas item_next item_next_update new expected)"

section \<open>Creating, purging and destroying\<close>

text \<open>
  \<open>F f c x\<close> is what the caller's function at the address \<open>f\<close> does to the state when it is called with
  the context \<open>c\<close> and the item \<open>x\<close>; it may free the item.
\<close>

type_synonym 'a cleanup_funcs = "ptr \<Rightarrow> ptr \<Rightarrow> ptr \<Rightarrow> 'a lfs_mem_scheme \<Rightarrow> 'a lfs_mem_scheme"

fun purge_items :: "'a cleanup_funcs \<Rightarrow> nat \<Rightarrow> ptr \<Rightarrow> ptr \<Rightarrow> ptr \<Rightarrow> ('a lfs_mem_scheme, unit) prog" where
  "purge_items F 0 node_cleanup_callback context current_item = Spin"
| "purge_items F (Suc n) node_cleanup_callback context current_item =
     (if current_item = null then Done ()
      else
        call (on_set_item current_item (rd item_next)) (\<lambda>next_item.
        call (writes (\<lambda>s. Some (F node_cleanup_callback context current_item s))) (\<lambda>_.
        purge_items F n node_cleanup_callback context next_item)))"

definition internal_purge_not_thread_safe :: "'a cleanup_funcs \<Rightarrow> nat \<Rightarrow> ptr \<Rightarrow> ptr \<Rightarrow> ptr \<Rightarrow> ('a lfs_mem_scheme, unit) prog" where
  "internal_purge_not_thread_safe F n h node_cleanup_callback context =
     call (if node_cleanup_callback \<noteq> null then
             call (cas_head h null null) (\<lambda>current_item.
             purge_items F n node_cleanup_callback context current_item)
           else Done ()) (\<lambda>_.
     call (on_head h (exchange id id null)) (\<lambda>_.
     Done ()))"

definition lock_free_set_create :: "('a lfs_mem_scheme, ptr) prog" where
  "lock_free_set_create =
     call (new_obj lfs_heads (\<lambda>m. lfs_heads_update (\<lambda>_. m)) junk) (\<lambda>h.
     if h = null then Done h
     else
       call (on_head h (exchange id id null)) (\<lambda>_.
       Done h))"

definition lock_free_set_destroy :: "'a cleanup_funcs \<Rightarrow> nat \<Rightarrow> ptr \<Rightarrow> ptr \<Rightarrow> ptr \<Rightarrow> ('a lfs_mem_scheme, unit) prog" where
  "lock_free_set_destroy F n h node_cleanup_callback context =
     (if h = null then Done ()
      else
        call (internal_purge_not_thread_safe F n h node_cleanup_callback context) (\<lambda>_.
        free_obj lfs_heads (\<lambda>m. lfs_heads_update (\<lambda>_. m)) h))"

definition lock_free_set_purge_not_thread_safe :: "'a cleanup_funcs \<Rightarrow> nat \<Rightarrow> ptr \<Rightarrow> ptr \<Rightarrow> ptr \<Rightarrow> ('a lfs_mem_scheme, int_result) prog" where
  "lock_free_set_purge_not_thread_safe F n h node_cleanup_callback context =
     (if h = null then Done MU_FAILURE
      else
        call (internal_purge_not_thread_safe F n h node_cleanup_callback context) (\<lambda>_.
        Done Result_0))"

section \<open>Inserting\<close>

text \<open>The wait until no remove is under way at the old head.\<close>

fun insert_link :: "nat \<Rightarrow> ptr \<Rightarrow> ptr \<Rightarrow> ('a lfs_mem_scheme, int_result) prog" where
  "insert_link 0 current_head item = Spin"
| "insert_link (Suc n) current_head item =
     call (cas_previous current_head item null) (\<lambda>old.
     if old \<noteq> null then insert_link n current_head item else Done Result_0)"

fun insert_attempts :: "nat \<Rightarrow> nat \<Rightarrow> ptr \<Rightarrow> ptr \<Rightarrow> ('a lfs_mem_scheme, int_result) prog" where
  "insert_attempts b 0 h item = Spin"
| "insert_attempts b (Suc n) h item =
     call (cas_head h null null) (\<lambda>current_head.
     call (on_set_item item (exchange item_previous item_previous_update null)) (\<lambda>_.
     call (on_set_item item (exchange item_next item_next_update current_head)) (\<lambda>_.
     call (cas_head h item current_head) (\<lambda>old.
     if old \<noteq> current_head then insert_attempts b n h item
     else if current_head = null then Done Result_0
     else insert_link b current_head item))))"

definition lock_free_set_insert :: "nat \<Rightarrow> ptr \<Rightarrow> ptr \<Rightarrow> ('a lfs_mem_scheme, int_result) prog" where
  "lock_free_set_insert n h item =
     (if h = null \<or> item = null then Done MU_FAILURE
      else insert_attempts n n h item)"

section \<open>Removing\<close>

text \<open>
  One round of the loop gives \<open>None\<close> when it has to be restarted and \<open>Some r\<close> when it ends with the
  result \<open>r\<close>. The marks are taken back by the functions that follow; a mark that is not there any more
  is an error.
\<close>

definition unlock_previous :: "ptr \<Rightarrow> ptr \<Rightarrow> ('a lfs_mem_scheme, int_result option) prog" where
  "unlock_previous item p =
     call (cas_previous item p (mark p)) (\<lambda>old.
     if old \<noteq> mark p then Done (Some MU_FAILURE) else Done None)"

definition unlock_next :: "ptr \<Rightarrow> ptr \<Rightarrow> ('a lfs_mem_scheme, int_result option) prog" where
  "unlock_next item q =
     call (cas_next item q (mark q)) (\<lambda>old.
     if old \<noteq> mark q then Done (Some MU_FAILURE) else Done None)"

definition unlock_both :: "ptr \<Rightarrow> ptr \<Rightarrow> ptr \<Rightarrow> ('a lfs_mem_scheme, int_result option) prog" where
  "unlock_both item p q =
     call (unlock_previous item p) (\<lambda>r.
     case r of Some e \<Rightarrow> Done (Some e) | None \<Rightarrow> unlock_next item q)"

text \<open>The head, when it is the only item.\<close>

definition remove_only :: "ptr \<Rightarrow> ptr \<Rightarrow> ('a lfs_mem_scheme, int_result option) prog" where
  "remove_only h item =
     call (cas_previous item null null) (\<lambda>p.
     if p \<noteq> null then Done None
     else
       call (cas_previous item (mark p) p) (\<lambda>old.
       if old \<noteq> p then Done None
       else
         call (cas_head h null item) (\<lambda>old.
         if old \<noteq> item then unlock_previous item p
         else Done (Some Result_0))))"

text \<open>The head, when another item follows: the loop waits until that item's link is free.\<close>

fun clear_previous :: "nat \<Rightarrow> ptr \<Rightarrow> ptr \<Rightarrow> ('a lfs_mem_scheme, int_result option) prog" where
  "clear_previous 0 item q = Spin"
| "clear_previous (Suc n) item q =
     call (cas_previous q null item) (\<lambda>old.
     if old \<noteq> item then clear_previous n item q else Done (Some Result_0))"

definition remove_head :: "nat \<Rightarrow> ptr \<Rightarrow> ptr \<Rightarrow> ptr \<Rightarrow> ('a lfs_mem_scheme, int_result option) prog" where
  "remove_head n h item q =
     call (cas_previous item null null) (\<lambda>p.
     if p \<noteq> null then Done None
     else
       call (cas_previous item (mark p) p) (\<lambda>old.
       if old \<noteq> p then Done None
       else
         call (cas_next item (mark q) q) (\<lambda>old.
         if old \<noteq> q then unlock_previous item p
         else
           call (cas_head h q item) (\<lambda>old.
           if old \<noteq> item then
             call (unlock_next item q) (\<lambda>r.
             case r of Some e \<Rightarrow> Done (Some e) | None \<Rightarrow> unlock_previous item p)
           else clear_previous n item q))))"

text \<open>The last item.\<close>

definition remove_last :: "ptr \<Rightarrow> ptr \<Rightarrow> ptr \<Rightarrow> ('a lfs_mem_scheme, int_result option) prog" where
  "remove_last h item p =
     call (cas_head h item item) (\<lambda>old.
     if old = item then unlock_previous item p
     else
       call (cas_next p null item) (\<lambda>old.
       if old \<noteq> item then unlock_previous item p
       else
         call (on_set_item item (rd item_next)) (\<lambda>q.
         if unmark q = null then call (on_set_item item (rd item_previous)) (\<lambda>_. Done (Some Result_0))
         else Done (Some Result_0))))"

text \<open>An item between two others; the last step waits for the item that follows.\<close>

fun relink_previous :: "nat \<Rightarrow> ptr \<Rightarrow> ptr \<Rightarrow> ptr \<Rightarrow> ('a lfs_mem_scheme, int_result option) prog" where
  "relink_previous 0 item p q = Spin"
| "relink_previous (Suc n) item p q =
     call (cas_previous q null null) (\<lambda>item_next_previous.
     if item_next_previous AND 1 \<noteq> 0 then relink_previous n item p q
     else if item_next_previous \<noteq> item then
       if item_next_previous \<noteq> null then relink_previous n item p q else Done (Some Result_0)
     else
       call (cas_previous q p item_next_previous) (\<lambda>old.
       if old \<noteq> item_next_previous then relink_previous n item p q else Done (Some Result_0)))"

definition remove_between :: "nat \<Rightarrow> ptr \<Rightarrow> ptr \<Rightarrow> ptr \<Rightarrow> ptr \<Rightarrow> ('a lfs_mem_scheme, int_result option) prog" where
  "remove_between n h item p q =
     call (cas_next item (mark q) q) (\<lambda>old.
     if old \<noteq> q then unlock_previous item p
     else
       call (cas_head h item item) (\<lambda>old.
       if old = item then unlock_both item p q
       else
         call (cas_next p null null) (\<lambda>item_previous_next.
         if item_previous_next AND 1 \<noteq> 0 then unlock_both item p q
         else if item_previous_next \<noteq> item then unlock_both item p q
         else
           call (cas_next p q item) (\<lambda>old.
           if old \<noteq> item then unlock_both item p q
           else relink_previous n item p q))))"

definition remove_inner :: "nat \<Rightarrow> ptr \<Rightarrow> ptr \<Rightarrow> ('a lfs_mem_scheme, int_result option) prog" where
  "remove_inner n h item =
     call (cas_previous item null null) (\<lambda>p.
     if p = null then Done None
     else
       call (cas_previous item (mark p) p) (\<lambda>old.
       if old \<noteq> p then Done None
       else
         call (cas_next item null null) (\<lambda>q.
         if q = null then remove_last h item p else remove_between n h item p q)))"

definition remove_attempt :: "nat \<Rightarrow> ptr \<Rightarrow> ptr \<Rightarrow> ('a lfs_mem_scheme, int_result option) prog" where
  "remove_attempt n h item =
     call (cas_head h null null) (\<lambda>current_head.
     if current_head = item then
       call (cas_next item null null) (\<lambda>q.
       if q = null then remove_only h item else remove_head n h item q)
     else remove_inner n h item)"

fun remove_attempts :: "nat \<Rightarrow> nat \<Rightarrow> ptr \<Rightarrow> ptr \<Rightarrow> ('a lfs_mem_scheme, int_result) prog" where
  "remove_attempts b 0 h item = Spin"
| "remove_attempts b (Suc n) h item =
     call (remove_attempt b h item) (\<lambda>r.
     case r of None \<Rightarrow> remove_attempts b n h item | Some result \<Rightarrow> Done result)"

definition lock_free_set_remove :: "nat \<Rightarrow> ptr \<Rightarrow> ptr \<Rightarrow> ('a lfs_mem_scheme, int_result) prog" where
  "lock_free_set_remove n h item =
     (if h = null \<or> item = null then Done MU_FAILURE
      else remove_attempts n n h item)"

section \<open>The list of the items\<close>

text \<open>
  \<open>links m p xs q\<close>: the items \<open>xs\<close> are linked in both directions, with \<open>p\<close> before the first and \<open>q\<close>
  behind the last of them.
\<close>

primrec links :: "(ptr \<Rightarrow> lock_free_set_item option) \<Rightarrow> ptr \<Rightarrow> ptr list \<Rightarrow> ptr \<Rightarrow> bool" where
  "links m p [] q \<longleftrightarrow> True"
| "links m p (x # xs) q \<longleftrightarrow> x \<noteq> null \<and> aligned x \<and> m x = Some \<lparr>item_previous = p, item_next = hd (xs @ [q])\<rparr> \<and> links m x xs q"

lemma links_append: "links m p (us @ vs) q \<longleftrightarrow> links m p us (hd (vs @ [q])) \<and> links m (last (p # us)) vs q"
proof (induction us arbitrary: p)
  case (Cons u us)
  have "hd (us @ vs @ [q]) = hd (us @ [hd (vs @ [q])])" by (cases us) simp_all
  then show ?case using Cons [of u] by auto
qed simp

lemma links_frame [simp]: "x \<notin> set xs \<Longrightarrow> links (m(x := v)) p xs q = links m p xs q"
  by (induction xs arbitrary: p) auto

lemma links_item: "links m p xs q \<Longrightarrow> x \<in> set xs \<Longrightarrow> x \<noteq> null \<and> aligned x \<and> m x \<noteq> None"
  by (induction xs arbitrary: p) auto

lemma links_new_previous: "links m p (b # vs) q \<Longrightarrow> b \<notin> set vs \<Longrightarrow> m b = Some I \<Longrightarrow> links (m(b \<mapsto> I\<lparr>item_previous := p'\<rparr>)) p' (b # vs) q"
  by simp

lemma links_new_next:
  assumes "links m p (us @ [a]) q" and "a \<notin> set us" and "m a = Some I"
  shows "links (m(a \<mapsto> I\<lparr>item_next := q'\<rparr>)) p (us @ [a]) q'"
  using assms by (auto simp: links_append)

definition lfs_ok :: "ptr \<Rightarrow> 'a lfs_mem_scheme \<Rightarrow> ptr list \<Rightarrow> bool" where
  "lfs_ok h s xs \<longleftrightarrow> h \<noteq> null \<and> lfs_heads s h = Some (hd (xs @ [null])) \<and> distinct xs \<and> links (lfs_items s) null xs null"

text \<open>What the operations leave alone: other sets, other items, the allocator.\<close>

definition lfs_same :: "ptr \<Rightarrow> ptr set \<Rightarrow> 'a lfs_mem_scheme \<Rightarrow> 'a lfs_mem_scheme \<Rightarrow> bool" where
  "lfs_same h ys s s' \<longleftrightarrow> (\<forall>y. y \<notin> ys \<longrightarrow> lfs_items s' y = lfs_items s y) \<and> (\<forall>k. k \<noteq> h \<longrightarrow> lfs_heads s' k = lfs_heads s k) \<and>
     dom (lfs_items s') = dom (lfs_items s) \<and> live s' = live s \<and> answers s' = answers s \<and> lfs_mem.more s' = lfs_mem.more s"

lemma null_not_marked [simp]: "null AND 1 = null"
  by simp

lemma lock_free_set_insert_ok:
  assumes ok: "lfs_ok h s xs" and x: "x \<noteq> null" "aligned x" "lfs_items s x \<noteq> None" "x \<notin> set xs"
  shows "wp (lock_free_set_insert (Suc n) h x) (\<lambda>r s'. r = Result_0 \<and> lfs_ok h s' (x # xs) \<and> lfs_same h (insert x (set xs)) s s') s"
proof -
  obtain I where I: "lfs_items s x = Some I" using x(3) by blast
  have h: "h \<noteq> null" "lfs_heads s h = Some (hd (xs @ [null]))" "distinct xs" "links (lfs_items s) null xs null" using ok by (auto simp: lfs_ok_def)
  show ?thesis
  proof (cases xs)
    case Nil
    then show ?thesis
      using h x I by (auto simp: lock_free_set_insert_def wp_call wp_access access_kinds wp_Done lfs_ok_def lfs_same_def)
  next
    case (Cons y ys)
    then have y: "y \<noteq> null" "aligned y" "lfs_items s y = Some \<lparr>item_previous = null, item_next = hd (ys @ [null])\<rparr>" "y \<notin> set ys" "y \<noteq> x" "x \<notin> set ys"
      "links (lfs_items s) y ys null" using h x by auto
    then show ?thesis
      using h x I Cons by (auto simp: lock_free_set_insert_def wp_call wp_access access_kinds wp_Done lfs_ok_def lfs_same_def)
  qed
qed

lemma aligned_and_1 [simp]: "aligned p \<Longrightarrow> p AND 1 = 0"
  by (simp add: aligned_def)

lemmas lfs_wp = wp_call wp_access access_kinds wp_Done wp_if

text \<open>One round of the removal of a member succeeds, wherever it is.\<close>

lemma remove_attempt_ok:
  assumes ok: "lfs_ok h s (us @ x # vs)"
  shows "wp (remove_attempt (Suc n) h x) (\<lambda>r s'. r = Some Result_0 \<and> lfs_ok h s' (us @ vs) \<and> lfs_same h (set (us @ x # vs)) s s') s"
proof -
  have h: "h \<noteq> null" "lfs_heads s h = Some (hd ((us @ x # vs) @ [null]))" "distinct (us @ x # vs)"
    and l: "links (lfs_items s) null us x" "links (lfs_items s) (last (null # us)) (x # vs) null"
    using ok by (auto simp: lfs_ok_def links_append)
  then have x: "x \<noteq> null" "aligned x" "lfs_items s x = Some \<lparr>item_previous = last (null # us), item_next = hd (vs @ [null])\<rparr>"
    "links (lfs_items s) x vs null" by auto
  show ?thesis
  proof (cases us rule: rev_cases)
    case us: Nil
    show ?thesis
    proof (cases vs)
      case Nil
      then show ?thesis
        using h x us by (auto simp: remove_attempt_def remove_only_def unlock_previous_def lfs_wp lfs_ok_def lfs_same_def)
    next
      case (Cons v vs')
      then have v: "v \<noteq> null" "aligned v" "lfs_items s v = Some \<lparr>item_previous = x, item_next = hd (vs' @ [null])\<rparr>" "v \<notin> set vs'" "v \<noteq> x" "x \<notin> set vs'"
        "links (lfs_items s) v vs' null" using h x by auto
      then show ?thesis
        using h x us Cons by (auto simp: remove_attempt_def remove_head_def unlock_previous_def unlock_next_def lfs_wp lfs_ok_def lfs_same_def)
    qed
  next
    case us: (snoc us' a)
    obtain w where hd: "\<And>zs. hd (us' @ a # zs) = w" "w \<noteq> x" "w \<noteq> null"
    proof (rule that)
      show "hd (us' @ a # zs) = (case us' of [] \<Rightarrow> a | u # _ \<Rightarrow> u)" for zs by (cases us') simp_all
      show "(case us' of [] \<Rightarrow> a | u # _ \<Rightarrow> u) \<noteq> x" using h(3) us by (cases us') auto
      show "(case us' of [] \<Rightarrow> a | u # _ \<Rightarrow> u) \<noteq> null" using l(1) us by (cases us') auto
    qed
    have a: "a \<noteq> null" "aligned a" "a \<noteq> x" "a \<notin> set us'" "a \<notin> set vs" "x \<notin> set us'" "x \<notin> set vs" using l(1) h(3) us by (auto simp: links_append)
    define b where "b = last (null # us')"
    have ia: "lfs_items s a = Some \<lparr>item_previous = b, item_next = x\<rparr>" using l(1) us by (simp add: links_append b_def)
    show ?thesis
    proof (cases vs)
      case Nil
      let ?m = "(lfs_items s)(x \<mapsto> \<lparr>item_previous = mark a, item_next = null\<rparr>, a \<mapsto> \<lparr>item_previous = b, item_next = null\<rparr>)"
      have "links ((lfs_items s)(a \<mapsto> \<lparr>item_previous = b, item_next = x\<rparr>\<lparr>item_next := null\<rparr>)) null (us' @ [a]) null"
        by (rule links_new_next) (use l(1) us a ia in simp_all)
      then have "links ?m null (us' @ [a]) null" using a by (simp add: fun_upd_twist)
      then have "lfs_ok h (s\<lparr>lfs_items := ?m\<rparr>) (us @ vs)" using h us Nil by (simp add: lfs_ok_def hd)
      then show ?thesis
        using h x us Nil a ia hd(2,3)
        by (auto simp: hd(1) remove_attempt_def remove_inner_def remove_last_def unlock_previous_def lfs_wp lfs_same_def fun_upd_twist)
    next
      case (Cons v vs')
      then have v: "v \<noteq> null" "aligned v" "lfs_items s v = Some \<lparr>item_previous = x, item_next = hd (vs' @ [null])\<rparr>" "v \<notin> set vs'" "v \<noteq> x" "x \<notin> set vs'"
        "links (lfs_items s) v vs' null" "v \<noteq> a" "v \<notin> set us'" "a \<notin> set vs'" using h x us a by auto
      let ?m = "(lfs_items s)(x \<mapsto> \<lparr>item_previous = mark a, item_next = mark v\<rparr>, a \<mapsto> \<lparr>item_previous = b, item_next = v\<rparr>,
          v \<mapsto> \<lparr>item_previous = a, item_next = hd (vs' @ [null])\<rparr>)"
      have "links ((lfs_items s)(a \<mapsto> \<lparr>item_previous = b, item_next = x\<rparr>\<lparr>item_next := v\<rparr>)) null (us' @ [a]) v"
        by (rule links_new_next) (use l(1) us a ia in simp_all)
      then have "links ?m null (us' @ [a]) v" using a v by (simp add: fun_upd_twist)
      moreover have "links ?m a (v # vs') null" using v a by simp
      ultimately have "links ?m null ((us' @ [a]) @ v # vs') null" unfolding links_append by simp
      then have "lfs_ok h (s\<lparr>lfs_items := ?m\<rparr>) (us @ vs)" using h us Cons by (simp add: lfs_ok_def hd)
      then show ?thesis
        using h x us Cons a v ia hd(2,3)
        by (auto simp: hd(1) remove_attempt_def remove_inner_def remove_between_def unlock_previous_def lfs_wp lfs_same_def fun_upd_twist)
    qed
  qed
qed

lemma lock_free_set_remove_ok:
  assumes ok: "lfs_ok h s xs" and x: "x \<in> set xs"
  shows "wp (lock_free_set_remove (Suc n) h x) (\<lambda>r s'. r = Result_0 \<and> lfs_ok h s' (remove1 x xs) \<and> lfs_same h (set xs) s s') s"
proof -
  obtain us vs where xs: "xs = us @ x # vs" using split_list [OF x] by blast
  have "distinct xs" "x \<noteq> null" "h \<noteq> null" using ok x links_item [of "lfs_items s" null xs null x] by (auto simp: lfs_ok_def)
  then have r: "remove1 x xs = us @ vs" by (simp add: xs remove1_append)
  have "wp (remove_attempts (Suc n) (Suc n) h x) (\<lambda>r s'. r = Result_0 \<and> lfs_ok h s' (us @ vs) \<and> lfs_same h (set xs) s s') s"
    unfolding remove_attempts.simps
    by (rule wp_seq [OF remove_attempt_ok [OF ok [unfolded xs]]]) (simp add: wp_Done xs)
  then show ?thesis using \<open>x \<noteq> null\<close> \<open>h \<noteq> null\<close> by (simp add: lock_free_set_remove_def r)
qed

section \<open>A client of a set\<close>

text \<open>A list of items is put in, or taken out, one after the other.\<close>

primrec do_all :: "(ptr \<Rightarrow> ('s, int_result) prog) \<Rightarrow> ptr list \<Rightarrow> ('s, int_result list) prog" where
  "do_all f [] = Done []"
| "do_all f (x # xs) = call (f x) (\<lambda>r. call (do_all f xs) (\<lambda>rs. Done (r # rs)))"

text \<open>
  The contract of a set that one thread uses: \<open>holds s xs\<close> says that the items \<open>xs\<close> are in it, the
  last one put in first; \<open>item_ok s x\<close> that \<open>x\<close> is an item that may be put in.
\<close>

locale item_set =
  fixes holds :: "'s \<Rightarrow> ptr list \<Rightarrow> bool" and item_ok :: "'s \<Rightarrow> ptr \<Rightarrow> bool"
    and ins :: "ptr \<Rightarrow> ('s, int_result) prog" and rem :: "ptr \<Rightarrow> ('s, int_result) prog"
  assumes different: "holds s xs \<Longrightarrow> distinct xs"
    and ins: "holds s xs \<Longrightarrow> item_ok s x \<Longrightarrow> x \<notin> set xs \<Longrightarrow> wp (ins x) (\<lambda>r s'. r = Result_0 \<and> holds s' (x # xs) \<and> item_ok s' = item_ok s) s"
    and rem: "holds s xs \<Longrightarrow> x \<in> set xs \<Longrightarrow> wp (rem x) (\<lambda>r s'. r = Result_0 \<and> holds s' (remove1 x xs) \<and> item_ok s' = item_ok s) s"
begin

lemma put_in:
  assumes "holds s xs" and "distinct ys" and "set ys \<inter> set xs = {}" and "\<forall>y \<in> set ys. item_ok s y"
  shows "wp (do_all ins ys) (\<lambda>rs s'. rs = map (\<lambda>_. Result_0) ys \<and> holds s' (rev ys @ xs)) s"
  using assms
proof (induction ys arbitrary: s xs)
  case Nil
  then show ?case by (simp add: wp_Done)
next
  case (Cons y ys)
  have first: "wp (ins y) (\<lambda>r s'. r = Result_0 \<and> holds s' (y # xs) \<and> item_ok s' = item_ok s) s" using Cons.prems by (intro ins) auto
  show ?case
    unfolding do_all.simps
  proof (rule wp_seq [OF first])
    fix r s1
    assume s1: "r = Result_0 \<and> holds s1 (y # xs) \<and> item_ok s1 = item_ok s"
    have "wp (do_all ins ys) (\<lambda>rs s'. rs = map (\<lambda>_. Result_0) ys \<and> holds s' (rev ys @ y # xs)) s1"
      by (rule Cons.IH) (use s1 Cons.prems in auto)
    then show "wp (call (do_all ins ys) (\<lambda>rs. Done (r # rs))) (\<lambda>rs s'. rs = map (\<lambda>_. Result_0) (y # ys) \<and> holds s' (rev (y # ys) @ xs)) s1"
      by (rule wp_seq) (use s1 in \<open>simp add: wp_Done\<close>)
  qed
qed

lemma take_out:
  assumes "holds s xs" and "distinct zs" and "set zs \<subseteq> set xs"
  shows "wp (do_all rem zs) (\<lambda>rs s'. rs = map (\<lambda>_. Result_0) zs \<and> holds s' (filter (\<lambda>x. x \<notin> set zs) xs)) s"
  using assms
proof (induction zs arbitrary: s xs)
  case Nil
  then show ?case by (simp add: wp_Done)
next
  case (Cons z zs)
  have less: "filter (\<lambda>x. x \<notin> set zs) (remove1 z xs) = filter (\<lambda>x. x \<notin> set (z # zs)) xs"
    using different [OF Cons.prems(1)] by (auto simp: distinct_remove1_removeAll removeAll_filter_not_eq intro!: filter_cong)
  have first: "wp (rem z) (\<lambda>r s'. r = Result_0 \<and> holds s' (remove1 z xs) \<and> item_ok s' = item_ok s) s" using Cons.prems by (intro rem) auto
  show ?case
    unfolding do_all.simps
  proof (rule wp_seq [OF first])
    fix r s1
    assume s1: "r = Result_0 \<and> holds s1 (remove1 z xs) \<and> item_ok s1 = item_ok s"
    have "set zs \<subseteq> set (remove1 z xs)" using Cons.prems(2,3) set_remove1_eq [OF different [OF Cons.prems(1)]] by auto
    then have "wp (do_all rem zs) (\<lambda>rs s'. rs = map (\<lambda>_. Result_0) zs \<and> holds s' (filter (\<lambda>x. x \<notin> set zs) (remove1 z xs))) s1"
      by (intro Cons.IH) (use s1 Cons.prems in auto)
    then show "wp (call (do_all rem zs) (\<lambda>rs. Done (r # rs))) (\<lambda>rs s'. rs = map (\<lambda>_. Result_0) (z # zs) \<and> holds s' (filter (\<lambda>x. x \<notin> set (z # zs)) xs)) s1"
      unfolding less by (rule wp_seq) (use s1 in \<open>simp add: wp_Done\<close>)
  qed
qed

text \<open>What was put in can be taken out in any order, which leaves the set as it was.\<close>

lemma in_and_out:
  assumes "holds s xs" and "distinct ys" and "set ys \<inter> set xs = {}" and "\<forall>y \<in> set ys. item_ok s y" and "mset zs = mset ys"
  shows "wp (call (do_all ins ys) (\<lambda>rs. call (do_all rem zs) (\<lambda>rs'. Done (rs @ rs'))))
    (\<lambda>rs s'. rs = map (\<lambda>_. Result_0) (ys @ zs) \<and> holds s' xs) s"
proof (rule wp_seq [OF put_in [OF assms(1-4)]], elim conjE)
  fix rs s1
  assume s1: "rs = map (\<lambda>_. Result_0) ys" "holds s1 (rev ys @ xs)"
  have zs: "distinct zs" "set zs = set ys" using assms(2,5) mset_eq_imp_distinct_iff mset_eq_setD by blast+
  have "filter (\<lambda>x. x \<notin> set zs) (rev ys @ xs) = xs"
    using assms(3) zs(2) by (auto simp: filter_empty_conv filter_id_conv)
  moreover have "wp (do_all rem zs) (\<lambda>rs s'. rs = map (\<lambda>_. Result_0) zs \<and> holds s' (filter (\<lambda>x. x \<notin> set zs) (rev ys @ xs))) s1"
    by (rule take_out [OF s1(2) zs(1)]) (simp add: zs(2))
  ultimately have "wp (do_all rem zs) (\<lambda>rs s'. rs = map (\<lambda>_. Result_0) zs \<and> holds s' xs) s1" by simp
  then show "wp (call (do_all rem zs) (\<lambda>rs'. Done (rs @ rs'))) (\<lambda>rs s'. rs = map (\<lambda>_. Result_0) (ys @ zs) \<and> holds s' xs) s1"
    by (rule wp_seq) (simp add: wp_Done s1(1))
qed

end

definition lfs_item_ok :: "'a lfs_mem_scheme \<Rightarrow> ptr \<Rightarrow> bool" where
  "lfs_item_ok s x \<longleftrightarrow> x \<noteq> null \<and> aligned x \<and> lfs_items s x \<noteq> None"

lemma lfs_same_items: "lfs_same h ys s s' \<Longrightarrow> lfs_item_ok s' = lfs_item_ok s"
  unfolding lfs_same_def lfs_item_ok_def by (auto simp: fun_eq_iff domIff)

interpretation lfs: item_set "lfs_ok h" lfs_item_ok "lock_free_set_insert (Suc n) h" "lock_free_set_remove (Suc n) h" for h n
proof (unfold_locales, goal_cases)
  case (2 s xs x)
  then have "wp (lock_free_set_insert (Suc n) h x) (\<lambda>r s'. r = Result_0 \<and> lfs_ok h s' (x # xs) \<and> lfs_same h (insert x (set xs)) s s') s"
    by (intro lock_free_set_insert_ok) (auto simp: lfs_item_ok_def)
  then show ?case by (rule wp_mono) (auto dest: lfs_same_items)
next
  case (3 s xs x)
  then show ?case by (intro wp_mono [OF lock_free_set_remove_ok]) (auto dest: lfs_same_items)
qed (simp add: lfs_ok_def)

section \<open>Purging, creating and destroying\<close>

text \<open>
  What is asked of the caller's function: with an item it leaves the other items and the sets alone.
\<close>

definition cleanup_local :: "('a lfs_mem_scheme \<Rightarrow> 'a lfs_mem_scheme) \<Rightarrow> ptr \<Rightarrow> bool" where
  "cleanup_local g x \<longleftrightarrow> (\<forall>s. lfs_heads (g s) = lfs_heads s \<and> (\<forall>y. y \<noteq> x \<longrightarrow> lfs_items (g s) y = lfs_items s y \<and> (y \<in> live s \<longrightarrow> y \<in> live (g s))))"

lemma wp_purge_items:
  assumes "links (lfs_items s) p xs null" and "distinct xs" and "\<forall>x. cleanup_local (F f c x) x" and "length xs < n"
  shows "wp (purge_items F n f c (hd (xs @ [null]))) (\<lambda>_ s'. s' = fold (F f c) xs s \<and> lfs_heads s' = lfs_heads s \<and>
    (\<forall>y. y \<notin> set xs \<longrightarrow> y \<in> live s \<longrightarrow> y \<in> live s')) s"
  using assms
proof (induction xs arbitrary: s n p)
  case Nil
  then obtain m where "n = Suc m" by (cases n) auto
  then show ?case by (simp add: wp_Done)
next
  case (Cons x xs)
  obtain m where n: "n = Suc m" using Cons.prems(4) by (cases n) auto
  have x: "x \<noteq> null" "lfs_items s x = Some \<lparr>item_previous = p, item_next = hd (xs @ [null])\<rparr>" "links (lfs_items s) x xs null" "x \<notin> set xs"
    using Cons.prems(1,2) by auto
  let ?s = "F f c x s"
  have g: "lfs_heads ?s = lfs_heads s" "\<And>y. y \<noteq> x \<Longrightarrow> lfs_items ?s y = lfs_items s y \<and> (y \<in> live s \<longrightarrow> y \<in> live ?s)"
    using Cons.prems(3) by (auto simp: cleanup_local_def)
  have same: "links m' p' zs q" if "links m'' p' zs q" "\<And>z. z \<in> set zs \<Longrightarrow> m' z = m'' z" for m' m'' p' zs q
    using that by (induction zs arbitrary: p') auto
  have "links (lfs_items ?s) x xs null" by (rule same [OF x(3)]) (use g(2) x(4) in metis)
  from Cons.IH [where n = m, OF this _ Cons.prems(3)] Cons.prems(2,4) n
  have "wp (purge_items F m f c (hd (xs @ [null]))) (\<lambda>_ s'. s' = fold (F f c) xs ?s \<and> lfs_heads s' = lfs_heads ?s \<and>
    (\<forall>y. y \<notin> set xs \<longrightarrow> y \<in> live ?s \<longrightarrow> y \<in> live s')) ?s" by simp
  then have "wp (purge_items F m f c (hd (xs @ [null]))) (\<lambda>_ s'. s' = fold (F f c) (x # xs) s \<and> lfs_heads s' = lfs_heads s \<and>
    (\<forall>y. y \<notin> set (x # xs) \<longrightarrow> y \<in> live s \<longrightarrow> y \<in> live s')) ?s"
    by (rule wp_mono) (use g in auto)
  then show ?case using x(1,2) n by (simp add: wp_call wp_access rd_def wp_writes)
qed

lemma wp_internal_purge:
  assumes ok: "lfs_ok h s xs" and "\<forall>x. cleanup_local (F f c x) x" and "length xs < n"
  shows "wp (internal_purge_not_thread_safe F n h f c) (\<lambda>_ s'.
    (let s1 = if f \<noteq> null then fold (F f c) xs s else s in s' = s1\<lparr>lfs_heads := (lfs_heads s)(h \<mapsto> null)\<rparr> \<and> lfs_heads s1 = lfs_heads s \<and>
      (\<forall>y. y \<notin> set xs \<longrightarrow> y \<in> live s \<longrightarrow> y \<in> live s1))) s"
proof -
  have h: "lfs_heads s h = Some (hd (xs @ [null]))" "distinct xs" "links (lfs_items s) null xs null" using ok by (auto simp: lfs_ok_def)
  have read: "wp (cas_head h null null) Q s = Q (hd (xs @ [null])) s" for Q
    using h(1) by (cases "hd (xs @ [null]) = null") (auto simp: wp_access cas_def fun_upd_idem)
  show ?thesis
  proof (cases "f = null")
    case True
    then show ?thesis using h(1) by (simp add: internal_purge_not_thread_safe_def wp_call wp_Done wp_access exchange_def)
  next
    case False
    have "wp (purge_items F n f c (hd (xs @ [null]))) (\<lambda>_ s'. wp (on_head h (exchange id id null)) (\<lambda>_ s'.
        s' = (fold (F f c) xs s)\<lparr>lfs_heads := (lfs_heads s)(h \<mapsto> null)\<rparr> \<and> lfs_heads (fold (F f c) xs s) = lfs_heads s \<and>
        (\<forall>y. y \<notin> set xs \<longrightarrow> y \<in> live s \<longrightarrow> y \<in> live (fold (F f c) xs s))) s') s"
      by (rule wp_mono [OF wp_purge_items [where F = F and f = f and c = c, OF h(3,2) assms(2,3)]]) (use h(1) in \<open>auto simp: wp_access exchange_def\<close>)
    then show ?thesis using False by (simp add: internal_purge_not_thread_safe_def wp_call wp_call_fun wp_Done_fun read Let_def)
  qed
qed

section \<open>Properties\<close>

text \<open>An example: the set at 512 holds 16, 32 and 48; 64 and 80 are free items.\<close>

definition lfs_example :: lfs_mem where
  "lfs_example = \<lparr>live = {16, 32, 48, 64, 80, 512}, answers = [], lfs_heads = [512 \<mapsto> 16],
     lfs_items = [16 \<mapsto> \<lparr>item_previous = 0, item_next = 32\<rparr>, 32 \<mapsto> \<lparr>item_previous = 16, item_next = 48\<rparr>,
       48 \<mapsto> \<lparr>item_previous = 32, item_next = 0\<rparr>, 64 \<mapsto> \<lparr>item_previous = junk, item_next = junk\<rparr>, 80 \<mapsto> \<lparr>item_previous = junk, item_next = junk\<rparr>]\<rparr>"

lemma lfs_example_ok: "lfs_ok 512 lfs_example [16, 32, 48]"
  by (simp add: lfs_ok_def lfs_example_def aligned_def)

text \<open>
  C28: a member is removed wherever it stands, alone, first, last or between two others: the links of
  its neighbours are joined in both directions, and nothing else is changed, in particular no other
  set and no item outside the set.
\<close>

theorem lock_free_set_removes:
  assumes "lfs_ok h s xs" and "x \<in> set xs"
  shows "wp (lock_free_set_remove (Suc n) h x) (\<lambda>r s'. r = Result_0 \<and> lfs_ok h s' (remove1 x xs) \<and> lfs_same h (set xs) s s') s"
  by (rule lock_free_set_remove_ok [OF assms])

theorem lock_free_set_removes_witness:
  "wp (lock_free_set_remove (Suc 0) 512 32) (\<lambda>r s'. r = Result_0 \<and> lfs_ok 512 s' [16, 48] \<and> lfs_same 512 {16, 32, 48} lfs_example s') lfs_example
   \<and> (case run (lock_free_set_remove 1 512 32) lfs_example of Value r s' \<Rightarrow> map_option item_next (lfs_items s' 16) = Some 48 | _ \<Rightarrow> False)"
proof
  show "case run (lock_free_set_remove 1 512 32) lfs_example of Value r s' \<Rightarrow> map_option item_next (lfs_items s' 16) = Some 48 | _ \<Rightarrow> False"
    by code_simp
qed (use lock_free_set_removes [OF lfs_example_ok, of 32 0] in simp)

text \<open>
  C29: items that are put in and taken out again, in whatever order, leave the set as it was; every
  one of the calls reports success.
\<close>

theorem lock_free_set_in_and_out:
  assumes "lfs_ok h s xs" and "distinct ys" and "set ys \<inter> set xs = {}" and "\<forall>y \<in> set ys. lfs_item_ok s y" and "mset zs = mset ys"
  shows "wp (call (do_all (lock_free_set_insert (Suc n) h) ys) (\<lambda>rs. call (do_all (lock_free_set_remove (Suc n) h) zs) (\<lambda>rs'. Done (rs @ rs'))))
    (\<lambda>rs s'. rs = map (\<lambda>_. Result_0) (ys @ zs) \<and> lfs_ok h s' xs) s"
  by (rule lfs.in_and_out [OF assms])

theorem lock_free_set_in_and_out_witness:
  "wp (call (do_all (lock_free_set_insert (Suc 0) 512) [64, 80]) (\<lambda>rs. call (do_all (lock_free_set_remove (Suc 0) 512) [64, 80]) (\<lambda>rs'. Done (rs @ rs'))))
    (\<lambda>rs s'. rs = map (\<lambda>_. Result_0) ([64, 80] @ [64, 80 :: ptr]) \<and> lfs_ok 512 s' [16, 32, 48]) lfs_example"
  by (rule lock_free_set_in_and_out [OF lfs_example_ok]) (simp_all add: lfs_item_ok_def lfs_example_def aligned_def)

text \<open>
  C30: purging hands every item to the caller's function exactly once, the last one put in first, and
  leaves an empty set; the caller's function may free the item it is given. Without a function only
  the set is emptied.
\<close>

theorem lock_free_set_purges:
  assumes "lfs_ok h s xs" and "\<forall>x. cleanup_local (F f c x) x" and "length xs < n"
  shows "wp (lock_free_set_purge_not_thread_safe F n h f c) (\<lambda>r s'. r = Result_0 \<and> lfs_ok h s' [] \<and>
    s' = (if f \<noteq> null then fold (F f c) xs s else s)\<lparr>lfs_heads := (lfs_heads s)(h \<mapsto> null)\<rparr>) s"
proof -
  have "h \<noteq> null" using assms(1) by (simp add: lfs_ok_def)
  then show ?thesis
    unfolding lock_free_set_purge_not_thread_safe_def
    by (simp only: if_False) (rule wp_seq [OF wp_internal_purge [where F = F and f = f and c = c, OF assms]], auto simp: Let_def wp_Done lfs_ok_def split: if_splits)
qed

theorem lock_free_set_purges_witness:
  "wp (lock_free_set_purge_not_thread_safe (\<lambda>f c x s. s\<lparr>lfs_items := (lfs_items s)(x := None), live := live s - {x}\<rparr>) 4 512 1 0)
    (\<lambda>r s'. r = Result_0 \<and> lfs_ok 512 s' [] \<and> live s' = {64, 80, 512}) lfs_example"
  by (rule wp_mono [OF lock_free_set_purges [OF lfs_example_ok]]) (auto simp: cleanup_local_def, auto simp: lfs_example_def)

end
