(* ===== verification/Clds_Singly_Linked_List.thy ===== *)
theory Clds_Singly_Linked_List
  imports Hazard_Pointer_Client Interleaving
begin

text \<open>
  The singly linked list, \<open>src/src/clds_singly_linked_list.c\<close>: items are inserted at the head, and
  deleted by marking their link and swinging the link that leads to them; a deleted item is retired to
  the hazard pointers. A walk protects the item it stands on and the one before it.

  The functions of the caller (compare, clean-up) are parameters, collected in \<open>K\<close>; they act on a part
  of the state of their own. \<open>X\<close> and the bound \<open>b\<close> are those of the hazard pointers; \<open>b\<close> also bounds
  every loop here. First the functions, then what they do when one thread runs them while the others
  are at rest, and last an interleaving in which an insertion goes wrong.
\<close>

section \<open>Data and accesses\<close>

record singly_linked_list_item =
  sll_ref_count :: "32 word"
  sll_cleanup_callback :: ptr
  sll_cleanup_callback_context :: ptr
  sll_next :: ptr

record singly_linked_list =
  sll_hazard_pointers :: ptr
  sll_head :: ptr

record ('q, 'u) sll_mem = "'q hp_mem" +
  sll_items :: "ptr \<Rightarrow> singly_linked_list_item option"
  sll_lists :: "ptr \<Rightarrow> singly_linked_list option"
  sll_user :: 'u

text \<open>
  The caller's functions. The first argument is the function pointer, the second its context. The last
  field is the address of \<open>reclaim_list_node\<close>.
\<close>

record 'u sll_callbacks =
  sll_item_compare :: "ptr \<Rightarrow> ptr \<Rightarrow> ptr \<Rightarrow> 'u \<Rightarrow> bool"
  sll_item_cleanup :: "ptr \<Rightarrow> ptr \<Rightarrow> ptr \<Rightarrow> 'u \<Rightarrow> 'u"
  sll_reclaim_function :: ptr

text \<open>\<open>internal_delete\<close> may also return \<open>MU_FAILURE\<close>, which is none of the values of the enum.\<close>

datatype sll_delete_result = CLDS_SINGLY_LINKED_LIST_DELETE_OK | CLDS_SINGLY_LINKED_LIST_DELETE_ERROR
  | CLDS_SINGLY_LINKED_LIST_DELETE_NOT_FOUND | DELETE_MU_FAILURE

type_synonym ('q, 'u, 'a, 'r) sll_prog = "(('q, 'u, 'a) sll_mem_scheme, 'r) prog"

abbreviation on_sll_item :: "ptr \<Rightarrow> (singly_linked_list_item \<Rightarrow> 'v \<times> singly_linked_list_item option) \<Rightarrow> ('q, 'u, 'a, 'v) sll_prog" where
  "on_sll_item \<equiv> access sll_items (\<lambda>m. sll_items_update (\<lambda>_. m))"

abbreviation on_sll :: "ptr \<Rightarrow> (singly_linked_list \<Rightarrow> 'v \<times> singly_linked_list option) \<Rightarrow> ('q, 'u, 'a, 'v) sll_prog" where
  "on_sll \<equiv> access sll_lists (\<lambda>m. sll_lists_update (\<lambda>_. m))"

text \<open>The address of a link, \<open>&clds_singly_linked_list->head\<close> or \<open>&item->next\<close>, and the compare-exchange on it.\<close>

datatype sll_link = List_Head | Next_Of ptr

definition cas_sll :: "ptr \<Rightarrow> sll_link \<Rightarrow> ptr \<Rightarrow> ptr \<Rightarrow> ('q, 'u, 'a, ptr) sll_prog" where
  "cas_sll l a new_value expected = (case a of
     List_Head \<Rightarrow> on_sll l (cas sll_head sll_head_update new_value expected)
   | Next_Of p \<Rightarrow> on_sll_item p (cas sll_next sll_next_update new_value expected))"

section \<open>Items\<close>

definition sll_node_destroy :: "'u sll_callbacks \<Rightarrow> ptr \<Rightarrow> ('q, 'u, 'a, unit) sll_prog" where
  "sll_node_destroy K item =
     call (on_sll_item item (add_fetch sll_ref_count sll_ref_count_update (- 1))) (\<lambda>count.
     if count = 0 then
       call (on_sll_item item (rd sll_cleanup_callback)) (\<lambda>f.
       call (if f \<noteq> null then
               call (on_sll_item item (rd sll_cleanup_callback_context)) (\<lambda>c.
               writes (\<lambda>s. Some (s\<lparr>sll_user := sll_item_cleanup K f c item (sll_user s)\<rparr>)))
             else Done ()) (\<lambda>_.
       free_obj sll_items (\<lambda>m. sll_items_update (\<lambda>_. m)) item))
     else Done ())"

definition sll_reclaim_node :: "'u sll_callbacks \<Rightarrow> ptr \<Rightarrow> ('q, 'u, 'a, unit) sll_prog" where
  "sll_reclaim_node K node = sll_node_destroy K node"

text \<open>The only reclaim function that the hazard pointers may be asked to call.\<close>

definition sll_reclaim :: "'u sll_callbacks \<Rightarrow> ptr \<Rightarrow> ptr \<Rightarrow> ('q, 'u, 'a, unit) sll_prog" where
  "sll_reclaim K f node = (if f = sll_reclaim_function K then sll_reclaim_node K node else Fault)"

definition clds_singly_linked_list_node_create :: "64 word \<Rightarrow> ptr \<Rightarrow> ptr \<Rightarrow> ('q, 'u, 'a, ptr) sll_prog" where
  "clds_singly_linked_list_node_create node_size item_cleanup_callback item_cleanup_callback_context =
     call (new_obj sll_items (\<lambda>m. sll_items_update (\<lambda>_. m))
       \<lparr>sll_ref_count = 0xCDCDCDCD, sll_cleanup_callback = junk, sll_cleanup_callback_context = junk, sll_next = junk\<rparr>) (\<lambda>item.
     if item = null then Done null
     else
       call (on_sll_item item (wr sll_cleanup_callback_update item_cleanup_callback)) (\<lambda>_.
       call (on_sll_item item (wr sll_cleanup_callback_context_update item_cleanup_callback_context)) (\<lambda>_.
       call (on_sll_item item (wr sll_ref_count_update 1)) (\<lambda>_.
       call (on_sll_item item (wr sll_next_update null)) (\<lambda>_.
       Done item)))))"

definition clds_singly_linked_list_node_inc_ref :: "ptr \<Rightarrow> ('q, 'u, 'a, int_result) sll_prog" where
  "clds_singly_linked_list_node_inc_ref item =
     (if item = null then Done MU_FAILURE
      else call (on_sll_item item (add_fetch sll_ref_count sll_ref_count_update 1)) (\<lambda>_. Done Result_0))"

definition clds_singly_linked_list_node_release :: "'u sll_callbacks \<Rightarrow> ptr \<Rightarrow> ('q, 'u, 'a, unit) sll_prog" where
  "clds_singly_linked_list_node_release K item =
     (if item = null then Done () else sll_node_destroy K item)"

section \<open>Creating and destroying a list\<close>

definition clds_singly_linked_list_create :: "ptr \<Rightarrow> ('q, 'u, 'a, ptr) sll_prog" where
  "clds_singly_linked_list_create h =
     (if h = null then Done null
      else
        call (new_obj sll_lists (\<lambda>m. sll_lists_update (\<lambda>_. m)) \<lparr>sll_hazard_pointers = junk, sll_head = junk\<rparr>) (\<lambda>l.
        if l = null then Done null
        else
          call (on_sll l (wr sll_hazard_pointers_update h)) (\<lambda>_.
          call (on_sll l (wr sll_head_update null)) (\<lambda>_.
          Done l))))"

fun sll_destroy_items :: "'u sll_callbacks \<Rightarrow> nat \<Rightarrow> ptr \<Rightarrow> ('q, 'u, 'a, unit) sll_prog" where
  "sll_destroy_items K 0 current_item = Spin"
| "sll_destroy_items K (Suc n) current_item =
     (if current_item = null then Done ()
      else
        call (on_sll_item current_item (cas sll_next sll_next_update null null)) (\<lambda>next_item.
        call (sll_node_destroy K current_item) (\<lambda>_.
        sll_destroy_items K n next_item)))"

definition clds_singly_linked_list_destroy :: "'u sll_callbacks \<Rightarrow> nat \<Rightarrow> ptr \<Rightarrow> ('q, 'u, 'a, unit) sll_prog" where
  "clds_singly_linked_list_destroy K b l =
     (if l = null then Done ()
      else
        call (cas_sll l List_Head null null) (\<lambda>current_item.
        call (sll_destroy_items K b current_item) (\<lambda>_.
        free_obj sll_lists (\<lambda>m. sll_lists_update (\<lambda>_. m)) l)))"

section \<open>Inserting\<close>

text \<open>
  The item's link is read again both for the compare-exchange and for the comparison with its result;
  of the operands of that comparison, whose order C leaves open, the left one is taken first.
\<close>

fun sll_insert_attempts :: "nat \<Rightarrow> ptr \<Rightarrow> ptr \<Rightarrow> ('q, 'u, 'a, int_result) sll_prog" where
  "sll_insert_attempts 0 l item = Spin"
| "sll_insert_attempts (Suc n) l item =
     call (cas_sll l List_Head null null) (\<lambda>p.
     call (on_sll_item item (wr sll_next_update p)) (\<lambda>_.
     call (on_sll_item item (rd sll_next)) (\<lambda>expected.
     call (cas_sll l List_Head item expected) (\<lambda>old.
     call (on_sll_item item (rd sll_next)) (\<lambda>p.
     if old \<noteq> p then sll_insert_attempts n l item else Done Result_0)))))"

definition clds_singly_linked_list_insert :: "nat \<Rightarrow> ptr \<Rightarrow> ptr \<Rightarrow> ptr \<Rightarrow> ('q, 'u, 'a, int_result) sll_prog" where
  "clds_singly_linked_list_insert b l t item =
     (if l = null \<or> item = null \<or> t = null then Done MU_FAILURE
      else sll_insert_attempts b l item)"

section \<open>Walking the list\<close>

text \<open>How the inner loop is left: the operation starts again, or it is finished.\<close>

datatype 'r sll_end = Sll_Restart | Sll_Finish 'r

text \<open>
  The inner loop of \<open>internal_delete\<close> and of \<open>clds_singly_linked_list_find\<close>. They differ in the results
  for the end of the list and for a failed acquisition of a hazard pointer, in what is done with the
  item that matches (\<open>on_match\<close> gets the hazard pointer of the previous item, the previous item, the
  item's hazard pointer and the item), and in \<open>clear\<close>, what is made of the link before it is used:
  deletion removes the mark, find leaves it.
\<close>

fun sll_walk :: "nat \<Rightarrow> ptr \<Rightarrow> ptr \<Rightarrow> (ptr \<Rightarrow> ptr) \<Rightarrow> (ptr \<Rightarrow> ('q, 'u, 'a, bool) sll_prog) \<Rightarrow> 'r \<Rightarrow> 'r \<Rightarrow>
    (ptr \<Rightarrow> ptr \<Rightarrow> ptr \<Rightarrow> ptr \<Rightarrow> ('q, 'u, 'a, 'r sll_end) sll_prog) \<Rightarrow> nat \<Rightarrow> ptr \<Rightarrow> ptr \<Rightarrow> sll_link \<Rightarrow> ('q, 'u, 'a, 'r sll_end) sll_prog" where
  "sll_walk b l t clear compare not_found no_hp on_match 0 previous_hp previous_item current_item_address = Spin"
| "sll_walk b l t clear compare not_found no_hp on_match (Suc n) previous_hp previous_item current_item_address =
     call (cas_sll l current_item_address null null) (\<lambda>current.
     if clear current = null then
       call (let_go b t previous_hp) (\<lambda>_. Done (Sll_Finish not_found))
     else
       call (clds_hazard_pointers_acquire b t (unmark current)) (\<lambda>current_item_hp.
       if current_item_hp = null then
         call (let_go b t previous_hp) (\<lambda>_. Done (Sll_Finish no_hp))
       else
         call (cas_sll l current_item_address current current) (\<lambda>again.
         if again \<noteq> unmark current then
           call (let_go b t previous_hp) (\<lambda>_.
           call (clds_hazard_pointers_release b t current_item_hp) (\<lambda>_.
           Done Sll_Restart))
         else
           let current_item = clear current in
           call (compare current_item) (\<lambda>matches.
           if matches then on_match previous_hp previous_item current_item_hp current_item
           else
             call (let_go b t previous_hp) (\<lambda>_.
             sll_walk b l t clear compare not_found no_hp on_match n current_item_hp current_item (Next_Of current_item))))))"

fun sll_restarting :: "nat \<Rightarrow> ('s, 'r sll_end) prog \<Rightarrow> ('s, 'r) prog" where
  "sll_restarting 0 p = Spin"
| "sll_restarting (Suc n) p =
     call p (\<lambda>e. case e of Sll_Restart \<Rightarrow> sll_restarting n p | Sll_Finish r \<Rightarrow> Done r)"

text \<open>The two ways to look for an item; the address is used as the context of the comparison.\<close>

definition sll_compare_item_by_ptr :: "ptr \<Rightarrow> ptr \<Rightarrow> ('q, 'u, 'a, bool) sll_prog" where
  "sll_compare_item_by_ptr item_compare_context item = Done (item = item_compare_context)"

definition sll_ask :: "'u sll_callbacks \<Rightarrow> ptr \<Rightarrow> ptr \<Rightarrow> ptr \<Rightarrow> ('q, 'u, 'a, bool) sll_prog" where
  "sll_ask K f c item = reads (\<lambda>s. Some (sll_item_compare K f c item (sll_user s)))"

section \<open>Deleting\<close>

text \<open>The previous link has changed: the item's mark is taken back and the hazard pointers are released.\<close>

definition sll_delete_lost :: "nat \<Rightarrow> ptr \<Rightarrow> ptr \<Rightarrow> ptr \<Rightarrow> ptr \<Rightarrow> ptr \<Rightarrow> ptr \<Rightarrow> ('q, 'u, 'a, sll_delete_result sll_end) sll_prog" where
  "sll_delete_lost b l t previous_hp current_item_hp current_item current_next =
     call (cas_sll l (Next_Of current_item) current_next (mark current_next)) (\<lambda>_.
     call (let_go b t previous_hp) (\<lambda>_.
     call (clds_hazard_pointers_release b t current_item_hp) (\<lambda>_.
     Done Sll_Restart)))"

text \<open>The item is out of the list: it is retired.\<close>

definition sll_delete_won :: "'q externals \<Rightarrow> 'u sll_callbacks \<Rightarrow> nat \<Rightarrow> ptr \<Rightarrow> ptr \<Rightarrow> ptr \<Rightarrow> ptr \<Rightarrow> ('q, 'u, 'a, sll_delete_result sll_end) sll_prog" where
  "sll_delete_won X K b t previous_hp current_item_hp current_item =
     call (let_go b t previous_hp) (\<lambda>_.
     call (clds_hazard_pointers_release b t current_item_hp) (\<lambda>_.
     call (clds_hazard_pointers_reclaim X (sll_reclaim K) b t current_item (sll_reclaim_function K)) (\<lambda>_.
     Done (Sll_Finish CLDS_SINGLY_LINKED_LIST_DELETE_OK))))"

definition sll_delete_found :: "'q externals \<Rightarrow> 'u sll_callbacks \<Rightarrow> nat \<Rightarrow> ptr \<Rightarrow> ptr \<Rightarrow> ptr \<Rightarrow> ptr \<Rightarrow> ptr \<Rightarrow> ptr \<Rightarrow>
    ('q, 'u, 'a, sll_delete_result sll_end) sll_prog" where
  "sll_delete_found X K b l t previous_hp previous_item current_item_hp current_item =
     call (cas_sll l (Next_Of current_item) null null) (\<lambda>p.
     call (cas_sll l (Next_Of current_item) (mark p) (unmark p)) (\<lambda>old.
     if old \<noteq> unmark p then
       call (let_go b t previous_hp) (\<lambda>_.
       call (clds_hazard_pointers_release b t current_item_hp) (\<lambda>_.
       Done Sll_Restart))
     else
       let current_next = unmark p in
       if previous_item = null then
         call (cas_sll l List_Head current_next current_item) (\<lambda>old.
         if old \<noteq> current_item then sll_delete_lost b l t null current_item_hp current_item current_next
         else sll_delete_won X K b t null current_item_hp current_item)
       else
         call (cas_sll l (Next_Of previous_item) current_next current_item) (\<lambda>old.
         if old \<noteq> current_item then sll_delete_lost b l t previous_hp current_item_hp current_item current_next
         else sll_delete_won X K b t previous_hp current_item_hp current_item)))"

definition sll_internal_delete :: "'q externals \<Rightarrow> 'u sll_callbacks \<Rightarrow> nat \<Rightarrow> ptr \<Rightarrow> ptr \<Rightarrow> (ptr \<Rightarrow> ('q, 'u, 'a, bool) sll_prog) \<Rightarrow>
    ('q, 'u, 'a, sll_delete_result) sll_prog" where
  "sll_internal_delete X K b l t compare =
     sll_restarting b (sll_walk b l t unmark compare CLDS_SINGLY_LINKED_LIST_DELETE_NOT_FOUND DELETE_MU_FAILURE
       (sll_delete_found X K b l t) b null null List_Head)"

definition clds_singly_linked_list_delete :: "'q externals \<Rightarrow> 'u sll_callbacks \<Rightarrow> nat \<Rightarrow> ptr \<Rightarrow> ptr \<Rightarrow> ptr \<Rightarrow>
    ('q, 'u, 'a, sll_delete_result) sll_prog" where
  "clds_singly_linked_list_delete X K b l t item =
     (if l = null \<or> t = null \<or> item = null then Done CLDS_SINGLY_LINKED_LIST_DELETE_ERROR
      else sll_internal_delete X K b l t (sll_compare_item_by_ptr item))"

definition clds_singly_linked_list_delete_if :: "'q externals \<Rightarrow> 'u sll_callbacks \<Rightarrow> nat \<Rightarrow> ptr \<Rightarrow> ptr \<Rightarrow> ptr \<Rightarrow> ptr \<Rightarrow>
    ('q, 'u, 'a, sll_delete_result) sll_prog" where
  "clds_singly_linked_list_delete_if X K b l t item_compare_callback item_compare_callback_context =
     (if l = null \<or> t = null \<or> item_compare_callback = null then Done CLDS_SINGLY_LINKED_LIST_DELETE_ERROR
      else sll_internal_delete X K b l t (sll_ask K item_compare_callback item_compare_callback_context))"

section \<open>Looking up\<close>

definition sll_found :: "nat \<Rightarrow> ptr \<Rightarrow> ptr \<Rightarrow> ptr \<Rightarrow> ptr \<Rightarrow> ptr \<Rightarrow> ('q, 'u, 'a, ptr sll_end) sll_prog" where
  "sll_found b t previous_hp previous_item current_item_hp current_item =
     call (let_go b t previous_hp) (\<lambda>_.
     call (on_sll_item current_item (add_fetch sll_ref_count sll_ref_count_update 1)) (\<lambda>_.
     call (clds_hazard_pointers_release b t current_item_hp) (\<lambda>_.
     Done (Sll_Finish current_item))))"

definition clds_singly_linked_list_find :: "'u sll_callbacks \<Rightarrow> nat \<Rightarrow> ptr \<Rightarrow> ptr \<Rightarrow> ptr \<Rightarrow> ptr \<Rightarrow> ('q, 'u, 'a, ptr) sll_prog" where
  "clds_singly_linked_list_find K b l t item_compare_callback item_compare_callback_context =
     (if l = null \<or> t = null \<or> item_compare_callback = null then Done null
      else
        sll_restarting b (sll_walk b l t id (sll_ask K item_compare_callback item_compare_callback_context) null null
          (sll_found b t) b null null List_Head))"

section \<open>The list and its references\<close>

lemma sll_moreD:
  assumes "hp_mem.more s' = hp_mem.more s"
  shows "sll_items s' = sll_items s" "sll_lists s' = sll_lists s" "sll_user s' = sll_user s" "sll_mem.more s' = sll_mem.more s"
  using assms by (cases s; cases s'; simp)+

lemma hp_ok_sll [simp]:
  "hp_ok X C (sll_items_update f s) t A R M = hp_ok X C s t A R M"
  "hp_ok X C (sll_lists_update g s) t A R M = hp_ok X C s t A R M"
  "hp_ok X C (sll_user_update k s) t A R M = hp_ok X C s t A R M"
  by (auto elim!: hp_ok_client [rotated 2] simp: same_hp_def)

abbreviation nx :: "('q, 'u, 'a) sll_mem_scheme \<Rightarrow> ptr \<Rightarrow> ptr option" where
  "nx s \<equiv> \<lambda>x. map_option sll_next (sll_items s x)"

definition sll_refs :: "('q, 'u, 'a) sll_mem_scheme \<Rightarrow> ptr \<Rightarrow> nat" where
  "sll_refs s x = (case sll_items s x of None \<Rightarrow> 0 | Some I \<Rightarrow> unat (sll_ref_count I))"

definition sll_at :: "('q, 'u, 'a) sll_mem_scheme \<Rightarrow> ptr \<Rightarrow> ptr list \<Rightarrow> bool" where
  "sll_at s l xs \<longleftrightarrow> map_option sll_head (sll_lists s l) = Some (first_of xs) \<and> heap_chain (nx s) (first_of xs) xs \<and> (\<forall>x \<in> set xs. aligned x)"

text \<open>
  \<open>sll_ok K l xs U R M s\<close>: the list at \<open>l\<close> has the items \<open>xs\<close>. Every item has at least the references that
  are accounted for: one for the list that it is in, one for each reclaim call owed, and \<open>U x\<close> of others.
\<close>

definition sll_ok :: "'u sll_callbacks \<Rightarrow> ptr \<Rightarrow> ptr list \<Rightarrow> (ptr \<Rightarrow> nat) \<Rightarrow> (ptr \<times> ptr) multiset \<Rightarrow> ptr set \<Rightarrow> ('q, 'u, 'a) sll_mem_scheme \<Rightarrow> bool" where
  "sll_ok K l xs U R M s \<longleftrightarrow> sll_at s l xs \<and> l \<noteq> null \<and> l \<in> M \<and> sll_items s l = None \<and>
     (\<forall>x \<in> dom (sll_items s). x \<noteq> null \<and> aligned x \<and> x \<in> M \<and> 0 < sll_refs s x) \<and>
     (\<forall>x. of_bool (x \<in> set xs) + count R (sll_reclaim_function K, x) + U x \<le> sll_refs s x) \<and>
     (\<forall>r \<in># R. fst r = sll_reclaim_function K)"

lemma sll_okD:
  assumes "sll_ok K l xs U R M s"
  shows "sll_at s l xs" "l \<noteq> null" "l \<in> M" "sll_items s l = None"
    "sll_items s x = Some I \<Longrightarrow> x \<noteq> null \<and> aligned x \<and> x \<in> M \<and> 0 < sll_refs s x"
    "of_bool (x \<in> set xs) + count R (sll_reclaim_function K, x) + U x \<le> sll_refs s x"
    "r \<in># R \<Longrightarrow> fst r = sll_reclaim_function K"
  using assms unfolding sll_ok_def by auto

lemma sll_okI:
  assumes "sll_at s l xs" "l \<noteq> null" "l \<in> M" "sll_items s l = None"
    "\<And>x I. sll_items s x = Some I \<Longrightarrow> x \<noteq> null \<and> aligned x \<and> x \<in> M \<and> 0 < sll_refs s x"
    "\<And>x. of_bool (x \<in> set xs) + count R (sll_reclaim_function K, x) + U x \<le> sll_refs s x"
    "\<And>r. r \<in># R \<Longrightarrow> fst r = sll_reclaim_function K"
  shows "sll_ok K l xs U R M s"
  using assms unfolding sll_ok_def by blast

lemma sll_at_cong:
  "map_option sll_head (sll_lists s' l) = map_option sll_head (sll_lists s l) \<Longrightarrow> (\<And>x. x \<in> set xs \<Longrightarrow> nx s' x = nx s x) \<Longrightarrow> sll_at s' l xs = sll_at s l xs"
  by (simp add: sll_at_def cong: heap_chain_cong)

lemma sll_ok_cong:
  assumes ok: "sll_ok K l xs U R M s" and same: "sll_items s' = sll_items s" "map_option sll_head (sll_lists s' l) = map_option sll_head (sll_lists s l)"
  shows "sll_ok K l xs U R M s'"
proof -
  have "sll_refs s' = sll_refs s" using same(1) by (simp add: sll_refs_def fun_eq_iff)
  then show ?thesis using ok same by (simp add: sll_ok_def sll_at_def)
qed

lemma sll_ok_more: "sll_ok K l xs U R M s \<Longrightarrow> hp_mem.more s' = hp_mem.more s \<Longrightarrow> sll_ok K l xs U R M s'"
  by (erule sll_ok_cong; drule sll_moreD(1,2); simp)

lemma sll_ok_fewer:
  assumes ok: "sll_ok K l xs U R M s" and sub: "R' \<subseteq># R"
  shows "sll_ok K l xs U R' M s"
proof (rule sll_okI)
  show "of_bool (x \<in> set xs) + count R' (sll_reclaim_function K, x) + U x \<le> sll_refs s x" for x
    using sll_okD(6) [OF ok, of x] mset_subset_eq_count [OF sub, of "(sll_reclaim_function K, x)"] by linarith
  show "fst r = sll_reclaim_function K" if "r \<in># R'" for r using sll_okD(7) [OF ok] mset_subset_eqD [OF sub that] by blast
qed (use sll_okD [OF ok] in simp_all)

text \<open>The link of a place in the list.\<close>

definition sll_link_of :: "('q, 'u, 'a) sll_mem_scheme \<Rightarrow> ptr \<Rightarrow> sll_link \<Rightarrow> ptr option" where
  "sll_link_of s l a = (case a of List_Head \<Rightarrow> map_option sll_head (sll_lists s l) | Next_Of p \<Rightarrow> nx s p)"

definition sll_after :: "ptr list \<Rightarrow> sll_link" where
  "sll_after us = (if us = [] then List_Head else Next_Of (last us))"

lemma sll_after_simps [simp]: "sll_after [] = List_Head" "sll_after (us @ [x]) = Next_Of x"
  by (simp_all add: sll_after_def)

text \<open>A compare-exchange with the value itself, or of null with null, only reads.\<close>

lemma wp_cas_sll_read: "wp (cas_sll l a p p) Q s = (case sll_link_of s l a of None \<Rightarrow> False | Some q \<Rightarrow> Q q s)"
  by (cases s) (auto simp: cas_sll_def sll_link_of_def wp_access cas_def fun_upd_idem split: option.splits sll_link.splits)

lemma sll_at_link:
  assumes "sll_at s l (us @ vs)"
  shows "sll_link_of s l (sll_after us) = Some (first_of vs)"
proof (cases us rule: rev_exhaust)
  case Nil
  then show ?thesis using assms by (simp add: sll_at_def sll_link_of_def)
next
  case (snoc ts u)
  then have "heap_chain (nx s) (first_of (us @ vs)) (ts @ u # vs)" using assms by (simp add: sll_at_def)
  from heap_chain_suffix [OF this] obtain q where "nx s u = Some q" "heap_chain (nx s) q vs" by auto
  then show ?thesis
    using snoc heap_chain_first [of "nx s" q vs] by (simp add: sll_link_of_def first_of_def)
qed

lemma sll_at_node:
  assumes "sll_at s l (us @ x # vs)"
  shows "x \<noteq> null" "aligned x" "nx s x = Some (first_of vs)" "null \<notin> set us" "x \<notin> set us" "x \<notin> set vs" "distinct us"
proof -
  have c: "heap_chain (nx s) (first_of (us @ x # vs)) (us @ x # vs)" using assms by (simp add: sll_at_def)
  show "x \<noteq> null" "aligned x" "null \<notin> set us" using heap_chain_not_null [OF c] assms by (auto simp: sll_at_def)
  show "nx s x = Some (first_of vs)"
    using sll_at_link [of s l "us @ [x]" vs] assms by (simp add: sll_link_of_def)
  show "x \<notin> set us" "x \<notin> set vs" "distinct us" using heap_chain_distinct [OF c] by auto
qed

section \<open>Giving up a reference\<close>

text \<open>The caller's state has changed by clean-up calls only.\<close>

definition sll_cleaned :: "'u sll_callbacks \<Rightarrow> 'u \<Rightarrow> 'u \<Rightarrow> bool" where
  "sll_cleaned K u u' \<longleftrightarrow> (\<exists>cs. u' = fold (\<lambda>(f, c, x). sll_item_cleanup K f c x) cs u)"

lemma sll_cleaned_refl [simp]: "sll_cleaned K u u"
  unfolding sll_cleaned_def by (rule exI [of _ "[]"]) simp

lemma sll_cleaned_step: "sll_cleaned K u u' \<Longrightarrow> sll_cleaned K u (sll_item_cleanup K f c x u')"
  unfolding sll_cleaned_def by (elim exE) (rule_tac x = "cs @ [(f, c, x)]" in exI, simp)

lemma wp_sll_node_destroy:
  fixes s :: "('q, 'u, 'a) sll_mem_scheme"
  assumes ok: "sll_ok K l xs U R M s" and M: "M \<subseteq> live s" and sub: "R' \<subseteq># R" and le: "\<And>y. U' y \<le> U y"
    and slack: "count R' (sll_reclaim_function K, x) + U' x < count R (sll_reclaim_function K, x) + U x"
  shows "wp (sll_node_destroy K x) (\<lambda>_ s'. \<exists>M'. client_step M M' s s' \<and> sll_ok K l xs U' R' M' s' \<and>
      (\<forall>u. sll_cleaned K u (sll_user s) \<longrightarrow> sll_cleaned K u (sll_user s')) \<and> sll_lists s' = sll_lists s \<and>
      (\<forall>y. sll_refs s' y = (if y = x then sll_refs s y - 1 else sll_refs s y))) s"
proof -
  have "0 < sll_refs s x" using sll_okD(6) [OF ok, of x] slack by linarith
  then obtain I where I: "sll_items s x = Some I" "sll_refs s x = unat (sll_ref_count I)" by (auto simp: sll_refs_def split: option.splits)
  note x = sll_okD(5) [OF ok I(1)] and node = sll_okD(5) [OF ok] and r = sll_okD(7) [OF ok]
  have lx: "l \<noteq> x" using sll_okD(4) [OF ok] I(1) by auto
  have acc: "of_bool (y \<in> set xs) + count R' (sll_reclaim_function K, y) + U' y \<le> (if y = x then sll_refs s y - 1 else sll_refs s y)" for y
    using sll_okD(6) [OF ok, of y] mset_subset_eq_count [OF sub, of "(sll_reclaim_function K, y)"] le [of y] slack by auto
  show ?thesis
  proof (cases "sll_ref_count I = 1")
    case False
    let ?s = "s\<lparr>sll_items := (sll_items s)(x \<mapsto> I\<lparr>sll_ref_count := sll_ref_count I - 1\<rparr>)\<rparr>"
    have "unat (sll_ref_count I) \<noteq> 1" using False by (metis unat_1 unsigned_word_eqI)
    then have pos: "1 < unat (sll_ref_count I)" using x I(2) by linarith
    then have one: "unat (sll_ref_count I - 1) = unat (sll_ref_count I) - 1" by (intro unat_minus_one) auto
    have refs: "sll_refs ?s y = (if y = x then sll_refs s y - 1 else sll_refs s y)" for y
      using I one by (simp add: sll_refs_def)
    have "sll_ok K l xs U' R' M ?s"
    proof (rule sll_okI)
      have "sll_at ?s l xs = sll_at s l xs" by (rule sll_at_cong) (use I(1) in simp_all)
      then show "sll_at ?s l xs" using sll_okD(1) [OF ok] by simp
      show "y \<noteq> null \<and> aligned y \<and> y \<in> M \<and> 0 < sll_refs ?s y" if "sll_items ?s y = Some J" for y J
        unfolding refs using node [of y] x pos I(2) that by (auto split: if_splits)
      show "of_bool (y \<in> set xs) + count R' (sll_reclaim_function K, y) + U' y \<le> sll_refs ?s y" for y unfolding refs by (rule acc)
      show "fst q = sll_reclaim_function K" if "q \<in># R'" for q using r mset_subset_eqD [OF sub that] by blast
    qed (use sll_okD(2-4) [OF ok] lx in simp_all)
    moreover have "client_step M M s ?s" using M by (simp add: client_step_def same_hp_def)
    ultimately show ?thesis
      using I(1) False refs unfolding sll_node_destroy_def by (auto simp: wp_simps access_kinds intro!: exI [of _ M])
  next
    case True
    have out: "x \<notin> set xs" using sll_okD(6) [OF ok, of x] slack True I(2) by auto
    define Q where "Q = (\<lambda>s'. \<exists>M'. client_step M M' s s' \<and> sll_ok K l xs U' R' M' s' \<and>
        (\<forall>u. sll_cleaned K u (sll_user s) \<longrightarrow> sll_cleaned K u (sll_user s')) \<and> sll_lists s' = sll_lists s \<and>
        (\<forall>y. sll_refs s' y = (if y = x then sll_refs s y - 1 else sll_refs s y)))"
    have goal: "Q s'" if s': "sll_items s' = (sll_items s)(x := None)" "sll_lists s' = sll_lists s" "live s' = live s - {x}"
        "same_hp s s'" "st_sets s' = st_sets s" "st_arrays s' = st_arrays s" "st_items s' = st_items s"
        and u: "sll_user s' = sll_user s \<or> (\<exists>f c. sll_user s' = sll_item_cleanup K f c x (sll_user s))" for s' :: "('q, 'u, 'a) sll_mem_scheme"
      unfolding Q_def
    proof (intro exI [of _ "M - {x}"] conjI allI impI)
      have refs: "sll_refs s' y = (if y = x then sll_refs s y - 1 else sll_refs s y)" for y
        using I True by (simp add: sll_refs_def s'(1))
      show "sll_ok K l xs U' R' (M - {x}) s'"
      proof (rule sll_okI)
        have "sll_at s' l xs = sll_at s l xs" by (rule sll_at_cong) (use out s' in auto)
        then show "sll_at s' l xs" using sll_okD(1) [OF ok] by simp
        show "y \<noteq> null \<and> aligned y \<and> y \<in> M - {x} \<and> 0 < sll_refs s' y" if "sll_items s' y = Some J" for y J
          unfolding refs using node [of y] that by (auto simp: s'(1) split: if_splits)
        show "of_bool (y \<in> set xs) + count R' (sll_reclaim_function K, y) + U' y \<le> sll_refs s' y" for y unfolding refs by (rule acc)
        show "fst q = sll_reclaim_function K" if "q \<in># R'" for q using r mset_subset_eqD [OF sub that] by blast
      qed (use sll_okD(2-4) [OF ok] lx s'(1) in simp_all)
      show "client_step M (M - {x}) s s'" using M x s' by (auto simp: client_step_def)
      show "sll_cleaned K v (sll_user s')" if "sll_cleaned K v (sll_user s)" for v using u that sll_cleaned_step by auto
      show "sll_lists s' = sll_lists s" by (rule s')
      show "sll_refs s' y = (if y = x then sll_refs s y - 1 else sll_refs s y)" for y by (rule refs)
    qed
    have "x \<in> live s" using x M by blast
    then have "wp (sll_node_destroy K x) (\<lambda>_. Q) s"
      unfolding sll_node_destroy_def using I(1) x True
      by (auto simp: wp_simps access_kinds Let_def same_hp_def intro!: goal) blast
    then show ?thesis by (simp add: Q_def)
  qed
qed

text \<open>The reclaim function keeps the list as it is and gives up the reference of the call.\<close>

definition sll_reclaim_inv :: "'u sll_callbacks \<Rightarrow> ptr \<Rightarrow> ptr list \<Rightarrow> (ptr \<Rightarrow> nat) \<Rightarrow> (ptr \<Rightarrow> singly_linked_list option) \<Rightarrow> 'u \<Rightarrow>
    (ptr \<times> ptr) multiset \<Rightarrow> ptr set \<Rightarrow> ('q, 'u, 'a) sll_mem_scheme \<Rightarrow> bool" where
  "sll_reclaim_inv K l xs U Ls u R M s \<longleftrightarrow> sll_ok K l xs U R M s \<and> sll_lists s = Ls \<and> sll_cleaned K u (sll_user s)"

lemma wp_sll_reclaim_call:
  fixes s :: "('q, 'u, 'a) sll_mem_scheme"
  assumes r: "(f, n) \<in># R" and M: "M \<subseteq> live s" and inv: "sll_reclaim_inv K l xs U Ls u R M s"
  shows "wp (sll_reclaim K f n) (\<lambda>_ s'. \<exists>M'. client_step M M' s s' \<and> sll_reclaim_inv K l xs U Ls u (R - {#(f, n)#}) M' s' \<and>
      (\<forall>y. sll_refs s' y = (if y = n then sll_refs s y - 1 else sll_refs s y))) s"
proof -
  have ok: "sll_ok K l xs U R M s" using inv by (simp add: sll_reclaim_inv_def)
  have f: "f = sll_reclaim_function K" using sll_okD(7) [OF ok r] by simp
  show ?thesis
    unfolding sll_reclaim_def sll_reclaim_node_def using f
    by (simp, intro wp_mono [OF wp_sll_node_destroy [OF ok M, of "R - {#(f, n)#}" U n]])
      (use r inv in \<open>auto simp: sll_reclaim_inv_def\<close>)
qed

lemma sll_reclaim_inv_more:
  "sll_reclaim_inv K l xs U Ls u R M s \<Longrightarrow> hp_mem.more s' = hp_mem.more s \<Longrightarrow> sll_reclaim_inv K l xs U Ls u R M s'"
  unfolding sll_reclaim_inv_def using sll_ok_more sll_moreD(2,3) by metis

lemma sll_reclaim_ok: "reclaim_ok (sll_reclaim K :: ptr \<Rightarrow> ptr \<Rightarrow> ('q, 'u, 'a, unit) sll_prog) (sll_reclaim_inv K l xs U Ls u)"
  unfolding reclaim_ok_def
  by (intro conjI allI impI; (erule sll_reclaim_inv_more, assumption)?; rule wp_mono [OF wp_sll_reclaim_call]) auto

lemma sll_drop_ok: "drop_ok (sll_reclaim_inv K l xs U Ls u)"
  unfolding drop_ok_def sll_reclaim_inv_def using sll_ok_fewer by metis

text \<open>
  No reference is lost and none is given up twice: of every item, the references beyond those that
  the owed reclaim calls account for stay as many as they were.
\<close>

definition sll_settled :: "'u sll_callbacks \<Rightarrow> (ptr \<times> ptr) multiset \<Rightarrow> ('q, 'u, 'a) sll_mem_scheme \<Rightarrow>
    (ptr \<times> ptr) multiset \<Rightarrow> ('q, 'u, 'a) sll_mem_scheme \<Rightarrow> bool" where
  "sll_settled K R s R' s' \<longleftrightarrow>
     (\<forall>y. sll_refs s' y + count R (sll_reclaim_function K, y) = sll_refs s y + count R' (sll_reclaim_function K, y))"

definition sll_settled_inv :: "'u sll_callbacks \<Rightarrow> ptr \<Rightarrow> ptr list \<Rightarrow> (ptr \<Rightarrow> nat) \<Rightarrow> (ptr \<Rightarrow> singly_linked_list option) \<Rightarrow> 'u \<Rightarrow>
    (ptr \<Rightarrow> nat) \<Rightarrow> (ptr \<times> ptr) multiset \<Rightarrow> ptr set \<Rightarrow> ('q, 'u, 'a) sll_mem_scheme \<Rightarrow> bool" where
  "sll_settled_inv K l xs U Ls u n R M s \<longleftrightarrow> sll_reclaim_inv K l xs U Ls u R M s \<and>
     (\<forall>y. sll_refs s y = n y + count R (sll_reclaim_function K, y))"

lemma sll_reclaim_settled: "reclaim_ok (sll_reclaim K :: ptr \<Rightarrow> ptr \<Rightarrow> ('q, 'u, 'a, unit) sll_prog) (sll_settled_inv K l xs U Ls u n)"
  unfolding reclaim_ok_def
proof (intro conjI allI impI)
  fix R M s f x
  assume r: "(f, x) \<in># R" and M: "M \<subseteq> live s" and inv: "sll_settled_inv K l xs U Ls u n R M (s :: ('q, 'u, 'a) sll_mem_scheme)"
  then have i: "sll_reclaim_inv K l xs U Ls u R M s" and n: "sll_refs s y = n y + count R (sll_reclaim_function K, y)" for y
    by (simp_all add: sll_settled_inv_def)
  have "f = sll_reclaim_function K" using sll_okD(7) [OF conjunct1 [OF i [unfolded sll_reclaim_inv_def]] r] by simp
  then have left: "(if y = x then sll_refs s y - 1 else sll_refs s y) = n y + count (R - {#(f, x)#}) (sll_reclaim_function K, y)" for y
    using r n [of y] n [of x] by (auto simp: count_greater_zero_iff [symmetric] simp del: count_greater_zero_iff)
  show "wp (sll_reclaim K f x) (\<lambda>_ s'. \<exists>M'. client_step M M' s s' \<and> sll_settled_inv K l xs U Ls u n (R - {#(f, x)#}) M' s') s"
  proof (rule wp_mono [OF wp_sll_reclaim_call [OF r M i]], elim exE conjE)
    fix a :: unit and s' :: "('q, 'u, 'a) sll_mem_scheme" and M'
    assume r': "client_step M M' s s'" "sll_reclaim_inv K l xs U Ls u (R - {#(f, x)#}) M' s'"
      "\<forall>y. sll_refs s' y = (if y = x then sll_refs s y - 1 else sll_refs s y)"
    have "sll_refs s' y = n y + count (R - {#(f, x)#}) (sll_reclaim_function K, y)" for y
      using r'(3) left by simp
    then have "sll_settled_inv K l xs U Ls u n (R - {#(f, x)#}) M' s'"
      using r'(2) by (simp only: sll_settled_inv_def simp_thms)
    with r'(1) show "\<exists>M'. client_step M M' s s' \<and> sll_settled_inv K l xs U Ls u n (R - {#(f, x)#}) M' s'" by blast
  qed
next
  fix R M and s s' :: "('q, 'u, 'a) sll_mem_scheme"
  assume a: "sll_settled_inv K l xs U Ls u n R M s" "hp_mem.more s' = hp_mem.more s"
  have "sll_refs s' = sll_refs s" using sll_moreD(1) [OF a(2)] by (simp add: sll_refs_def fun_eq_iff)
  with a sll_reclaim_inv_more [OF _ a(2)] show "sll_settled_inv K l xs U Ls u n R M s'" by (simp add: sll_settled_inv_def)
qed

lemma wp_sll_retire:
  fixes s :: "('q, 'u, 'a) sll_mem_scheme"
  assumes hp: "hp_ok X C s t A R M" and ok: "sll_ok K l xs U (add_mset (sll_reclaim_function K, x) R) M s"
    and x: "x \<noteq> null" and room: "2 * card (live s) + 4 < b"
  shows "wp (clds_hazard_pointers_reclaim X (sll_reclaim K) b t x (sll_reclaim_function K))
    (\<lambda>_ s'. \<exists>R' M'. R' \<subseteq># add_mset (sll_reclaim_function K, x) R \<and> M' \<subseteq> M \<and> hp_ok X C s' t A R' M' \<and>
      sll_ok K l xs U R' M' s' \<and> sll_lists s' = sll_lists s \<and> sll_cleaned K (sll_user s) (sll_user s') \<and>
      (plenty 1 s \<longrightarrow> sll_settled K (add_mset (sll_reclaim_function K, x) R) s R' s')) s" (is "wp _ (\<lambda>_. ?G) s")
proof -
  define N where "N = add_mset (sll_reclaim_function K, x) R"
  define n where "n = (\<lambda>y. sll_refs s y - count N (sll_reclaim_function K, y))"
  have inv: "sll_reclaim_inv K l xs U (sll_lists s) (sll_user s) N M s"
    using ok by (simp add: sll_reclaim_inv_def N_def)
  have n: "sll_refs s y = n y + count N (sll_reclaim_function K, y)" for y
    using sll_okD(6) [OF ok [folded N_def], of y] by (simp add: n_def)
  show ?thesis
  proof (cases "plenty 1 s")
    case True
    have "sll_settled_inv K l xs U (sll_lists s) (sll_user s) n N M s" using inv n by (simp add: sll_settled_inv_def)
    from hp.reclaim [OF hp x room sll_reclaim_settled this [unfolded N_def] disjI1, OF True]
    show ?thesis
      unfolding N_def [symmetric] by (rule wp_mono) (auto simp: sll_settled_inv_def sll_reclaim_inv_def sll_settled_def n)
  next
    case False
    from hp.reclaim [OF hp x room sll_reclaim_ok inv [unfolded N_def] disjI2, OF sll_drop_ok]
    show ?thesis
      by (rule wp_mono) (use False in \<open>auto simp: sll_reclaim_inv_def\<close>)
  qed
qed

section \<open>The walk\<close>

text \<open>
  Run alone, a walk ends at the end of the list, without a hazard pointer, or at the first item that
  matches, which it holds together with the item before it.
\<close>

lemma wp_sll_walk:
  fixes s :: "('q, 'u, 'a) sll_mem_scheme"
  assumes "hp_ok X C s t A' R M" and "holding A us hp A'" and "hp_mem.more s = D" and "sll_at s l (us @ vs)"
    and "length vs < n" and "card (live s) + length vs < N" and "N < b" and "\<And>k. enough k \<Longrightarrow> plenty (k + Suc (length vs)) s"
    and clear: "\<And>x. aligned x \<Longrightarrow> clear x = x"
    and "\<And>s' x Q. x \<in> set vs \<Longrightarrow> hp_mem.more s' = D \<Longrightarrow> wp (compare x) Q s' = Q (c x) s'"
    and "\<And>s'. find c vs = None \<Longrightarrow> hp_ok X C s' t A R M \<Longrightarrow> hp_mem.more s' = D \<Longrightarrow> Q (Sll_Finish not_found) s'"
    and "\<And>s'. \<not> enough 0 \<Longrightarrow> hp_ok X C s' t A R M \<Longrightarrow> hp_mem.more s' = D \<Longrightarrow> Q (Sll_Finish no_hp) s'"
    and "\<And>s' ph A'' ch ws x zs. vs = ws @ x # zs \<Longrightarrow> find c vs = Some x \<Longrightarrow> hp_ok X C s' t (A''(ch \<mapsto> x)) R M \<Longrightarrow> A'' ch = None \<Longrightarrow>
        ch \<noteq> null \<Longrightarrow> holding A (us @ ws) ph A'' \<Longrightarrow> hp_mem.more s' = D \<Longrightarrow> card (live s') \<le> N \<Longrightarrow>
        (\<And>k. enough k \<Longrightarrow> plenty k s') \<Longrightarrow> wp (on_match ph (last_of (us @ ws)) ch x) Q s'"
  shows "wp (sll_walk b l t clear compare not_found no_hp on_match n hp (last_of us) (sll_after us)) Q s"
  using assms
proof (induction vs arbitrary: us n s hp A')
  case Nil
  obtain m where n: "n = Suc m" using Nil.prems(5) by (cases n) auto
  have "card (live s) < b" using Nil.prems(6,7) by simp
  then have "wp (call (let_go b t hp) (\<lambda>_. Done (Sll_Finish not_found))) Q s"
    by (intro wp_seq [OF wp_let_go [OF Nil.prems(1,2)]]) (use Nil.prems(3,11) in \<open>simp_all add: wp_Done\<close>)
  then show ?case using sll_at_link [OF Nil.prems(4)] by (simp add: n wp_call [of "cas_sll _ _ _ _"] wp_cas_sll_read clear)
next
  case (Cons x vs)
  obtain m where n: "n = Suc m" using Cons.prems(5) by (cases n) auto
  note x = sll_at_node [OF Cons.prems(4)]
  have link: "sll_link_of s' l (sll_after us) = Some x" if "hp_mem.more s' = D" for s' :: "('q, 'u, 'a) sll_mem_scheme"
    using sll_at_link [OF Cons.prems(4)] sll_moreD [OF trans [OF that Cons.prems(3) [symmetric]]] by (simp add: sll_link_of_def split: sll_link.splits)
  define F where "F = (\<lambda>ch. if ch = null then call (let_go b t hp) (\<lambda>_. Done (Sll_Finish no_hp))
       else call (cas_sll l (sll_after us) x x) (\<lambda>again. if again \<noteq> x then call (let_go b t hp) (\<lambda>_. call (clds_hazard_pointers_release b t ch) (\<lambda>_. Done Sll_Restart))
         else call (compare x) (\<lambda>matches. if matches then on_match hp (last_of us) ch x
             else call (let_go b t hp) (\<lambda>_. sll_walk b l t clear compare not_found no_hp on_match m ch x (Next_Of x)))))"
  have "wp (call (clds_hazard_pointers_acquire b t x) F) Q s"
  proof (rule wp_seq [OF hp.acquire [OF Cons.prems(1)]])
    show "0 < b" using Cons.prems(7) by simp
    fix ch s1
    assume a: "hp_mem.more s1 = hp_mem.more s \<and> card (live s1) \<le> Suc (card (live s)) \<and> (\<forall>k. plenty (Suc k) s \<longrightarrow> ch \<noteq> null \<and> plenty k s1) \<and>
      (if ch = null then hp_ok X C s1 t A' R M else A' ch = None \<and> hp_ok X C s1 t (A'(ch \<mapsto> x)) R M)"
    then have D: "hp_mem.more s1 = D" and b: "card (live s1) < b" using Cons.prems(3,6,7) by simp_all
    have p1: "plenty (k + Suc (length vs)) s1" if "enough k" for k using Cons.prems(8) [OF that] a by simp
    show "wp (F ch) Q s1"
    proof (cases "ch = null")
      case True
      then have "hp_ok X C s1 t A' R M" "\<not> enough 0" using a Cons.prems(8) [of 0] by auto
      then have "wp (call (let_go b t hp) (\<lambda>_. Done (Sll_Finish no_hp))) Q s1"
        by (intro wp_seq [OF wp_let_go [OF _ Cons.prems(2) b]]) (use D Cons.prems(12) in \<open>auto simp: wp_Done\<close>)
      with True show ?thesis by (simp add: F_def)
    next
      case ch: False
      then have s1: "A' ch = None" "hp_ok X C s1 t (A'(ch \<mapsto> x)) R M" using a by simp_all
      have "wp (if c x then on_match hp (last_of us) ch x
             else call (let_go b t hp) (\<lambda>_. sll_walk b l t clear compare not_found no_hp on_match m ch x (Next_Of x))) Q s1"
      proof (cases "c x")
        case True
        then have "wp (on_match hp (last_of (us @ [])) ch x) Q s1"
          by (intro Cons.prems(13) [OF _ _ s1(2,1) ch]) (use a D Cons.prems(2,6) in \<open>auto intro: plenty_fewer [OF p1]\<close>)
        with True show ?thesis by simp
      next
        case False
        have hold: "A ch = None" "holding (A(ch \<mapsto> x)) us hp (A'(ch \<mapsto> x))" using holding_more [OF Cons.prems(2) s1(1)] by simp_all
        have "wp (call (let_go b t hp) (\<lambda>_. sll_walk b l t clear compare not_found no_hp on_match m ch x (Next_Of x))) Q s1"
        proof (rule wp_seq [OF wp_let_go [OF s1(2) hold(2) b]])
          fix r s2
          assume s2: "hp_mem.more s2 = hp_mem.more s1 \<and> live s2 = live s1 \<and> (\<forall>k. plenty k s1 \<longrightarrow> plenty k s2) \<and> hp_ok X C s2 t (A(ch \<mapsto> x)) R M"
          have "wp (sll_walk b l t clear compare not_found no_hp on_match m ch (last_of (us @ [x])) (sll_after (us @ [x]))) Q s2"
          proof (rule Cons.IH [OF conjunct2 [OF conjunct2 [OF conjunct2 [OF s2]]]])
            show "holding A (us @ [x]) ch (A(ch \<mapsto> x))" using ch hold(1) by simp
            show more: "hp_mem.more s2 = D" using s2 D by simp
            show "length vs < m" "card (live s2) + length vs < N" using s2 a Cons.prems(5,6) n by simp_all
            show "plenty (k + Suc (length vs)) s2" if "enough k" for k using p1 [OF that] s2 by blast
            show "sll_at s2 l ((us @ [x]) @ vs)"
              using Cons.prems(4) sll_moreD(1,2) [OF trans [OF more Cons.prems(3) [symmetric]]] by (simp add: sll_at_def)
            show "wp (compare y) Q' s' = Q' (c y) s'" if "y \<in> set vs" "hp_mem.more s' = D" for s' y Q'
              using Cons.prems(10) [of y s' Q'] that by simp
            show "Q (Sll_Finish not_found) s'" if "find c vs = None" "hp_ok X C s' t A R M" "hp_mem.more s' = D" for s'
              using Cons.prems(11) [OF _ that(2,3)] that(1) False by simp
            show "wp (on_match ph (last_of ((us @ [x]) @ ws)) ch' y) Q s'"
              if "vs = ws @ y # zs" "find c vs = Some y" "hp_ok X C s' t (A''(ch' \<mapsto> y)) R M" "A'' ch' = None" "ch' \<noteq> null"
                "holding A ((us @ [x]) @ ws) ph A''" "hp_mem.more s' = D" "card (live s') \<le> N" "\<And>k. enough k \<Longrightarrow> plenty k s'" for s' ph A'' ch' ws y zs
              using Cons.prems(13) [of "x # ws" y zs s' A'' ch' ph, OF _ _ that(3-5)] that False by simp
          qed (fact Cons.prems(7) clear Cons.prems(12))+
          then show "wp (sll_walk b l t clear compare not_found no_hp on_match m ch x (Next_Of x)) Q s2" by simp
        qed
        with False show ?thesis by simp
      qed
      moreover have "wp (compare x) Q' s1 = Q' (c x) s1" for Q' by (rule Cons.prems(10)) (use D in simp_all)
      ultimately show ?thesis using ch link [OF D] by (simp add: F_def wp_call [of "cas_sll _ _ _ _"] wp_call [of "compare _"] wp_cas_sll_read)
    qed
  qed
  then show ?case
    using link [OF Cons.prems(3)] x(1,2) by (simp add: n wp_call [of "cas_sll _ _ _ _"] wp_cas_sll_read F_def clear Let_def cong: if_cong)
qed

section \<open>Deleting an item\<close>

text \<open>The list without the item \<open>x\<close>: its link is marked, and the link that led to it leads past it.\<close>

lemma sll_ok_unlinked:
  fixes s s2 :: "('q, 'u, 'a) sll_mem_scheme"
  assumes ok: "sll_ok K l (us @ x # vs) U R M s" and I: "sll_items s x = Some I"
    and items: "sll_items s2 = (if us = [] then sll_items s else (sll_items s)(last us \<mapsto> J\<lparr>sll_next := first_of vs\<rparr>))(x \<mapsto> I\<lparr>sll_next := w\<rparr>)"
    and head: "map_option sll_head (sll_lists s2 l) = Some (first_of (us @ vs))"
    and J: "us \<noteq> [] \<Longrightarrow> sll_items s (last us) = Some J"
  shows "sll_ok K l (us @ vs) U (add_mset (sll_reclaim_function K, x) R) M s2"
proof (rule sll_okI)
  note x = sll_at_node [OF sll_okD(1) [OF ok]]
  have c: "heap_chain (nx s) (first_of (us @ x # vs)) (us @ x # vs)" and al: "\<forall>y \<in> set (us @ x # vs). aligned y"
    using sll_okD(1) [OF ok] by (simp_all add: sll_at_def)
  have "last us \<noteq> x" if "us \<noteq> []" using x(5) last_in_set [OF that] by auto
  then have refs: "sll_refs s2 y = sll_refs s y" for y using I J by (auto simp: sll_refs_def items)
  have "heap_chain (nx s2) (first_of (us @ vs)) (us @ vs)"
  proof (cases us rule: rev_exhaust)
    case Nil
    have "heap_chain (nx s) (first_of vs) vs" using c x(3) Nil by auto
    moreover have "heap_chain (nx s2) (first_of vs) vs = heap_chain (nx s) (first_of vs) vs"
      by (rule heap_chain_cong) (use Nil items x(6) in auto)
    ultimately show ?thesis using Nil by simp
  next
    case (snoc ts a)
    have "heap_chain (nx s) (first_of (us @ x # vs)) (ts @ a # x # vs)" using c snoc by simp
    from heap_chain_unlink [OF this x(3)]
    have "heap_chain ((nx s)(a \<mapsto> first_of vs)) (first_of (us @ x # vs)) (us @ vs)" using snoc by simp
    moreover have "heap_chain (nx s2) p (us @ vs) = heap_chain ((nx s)(a \<mapsto> first_of vs)) p (us @ vs)" for p
      by (rule heap_chain_cong) (use snoc items x(5,6) in auto)
    moreover have "first_of (us @ x # vs) = first_of (us @ vs)" using snoc by (cases ts) simp_all
    ultimately show ?thesis by simp
  qed
  then show "sll_at s2 l (us @ vs)" using head al by (simp add: sll_at_def)
  show "l \<noteq> null" "l \<in> M" using sll_okD(2,3) [OF ok] .
  show "sll_items s2 l = None" using sll_okD(4) [OF ok] I J by (cases "us = []") (auto simp: items)
  show "y \<noteq> null \<and> aligned y \<and> y \<in> M \<and> 0 < sll_refs s2 y" if "sll_items s2 y = Some Y" for y Y
  proof -
    obtain Z where "sll_items s y = Some Z" using \<open>sll_items s2 y = Some Y\<close> I J by (auto simp: items split: if_splits)
    from sll_okD(5) [OF ok this] show ?thesis by (simp add: refs)
  qed
  show "of_bool (y \<in> set (us @ vs)) + count (add_mset (sll_reclaim_function K, x) R) (sll_reclaim_function K, y) + U y \<le> sll_refs s2 y" for y
    using sll_okD(6) [OF ok, of y] x(5,6) by (auto simp: refs)
  show "fst r = sll_reclaim_function K" if "r \<in># add_mset (sll_reclaim_function K, x) R" for r
    using sll_okD(7) [OF ok, of r] that by auto
qed

text \<open>What is left of the state and of the reclaim calls owed when the item \<open>x\<close> has been deleted.\<close>

definition sll_deleted :: "bool \<Rightarrow> 'q externals \<Rightarrow> ('q \<Rightarrow> ptr \<Rightarrow> inactive_thread list) \<Rightarrow> 'u sll_callbacks \<Rightarrow> ptr \<Rightarrow> ptr \<Rightarrow> ptr list \<Rightarrow> ptr \<Rightarrow> (ptr \<Rightarrow> nat) \<Rightarrow>
    (ptr \<Rightarrow> ptr option) \<Rightarrow> (ptr \<times> ptr) multiset \<Rightarrow> ptr set \<Rightarrow> ('q, 'u, 'a) sll_mem_scheme \<Rightarrow> ('q, 'u, 'a) sll_mem_scheme \<Rightarrow> bool" where
  "sll_deleted E X C K l t xs x U A R M s s' \<longleftrightarrow> (\<exists>R' M'. R' \<subseteq># add_mset (sll_reclaim_function K, x) R \<and> M' \<subseteq> M \<and>
     hp_ok X C s' t A R' M' \<and> sll_ok K l (remove1 x xs) U R' M' s' \<and> sll_cleaned K (sll_user s) (sll_user s') \<and>
     (\<forall>k. k \<noteq> l \<longrightarrow> sll_lists s' k = sll_lists s k) \<and>
     (E \<longrightarrow> sll_settled K (add_mset (sll_reclaim_function K, x) R) s R' s'))"

lemma sll_settled_from: "sll_settled K R s1 R' s' \<Longrightarrow> (\<And>y. sll_refs s1 y = sll_refs s y) \<Longrightarrow> sll_settled K R s R' s'"
  by (simp add: sll_settled_def)

lemma sll_deleted_from: "sll_deleted E X C K l t xs x U A R M s1 s' \<Longrightarrow> sll_user s1 = sll_user s \<Longrightarrow> sll_lists s1 = sll_lists s \<Longrightarrow>
    sll_items s1 = sll_items s \<Longrightarrow> sll_deleted E X C K l t xs x U A R M s s'"
  by (simp add: sll_deleted_def sll_settled_def sll_refs_def)

lemma wp_sll_delete_won:
  fixes s s0 :: "('q, 'u, 'a) sll_mem_scheme"
  assumes hp: "hp_ok X C s t (A''(ch \<mapsto> x)) R M" and A: "A'' ch = None" "holding A us ph A''" and x: "x \<noteq> null"
    and ok: "sll_ok K l (remove1 x xs) U (add_mset (sll_reclaim_function K, x) R) M s" and room: "2 * card (live s) + 4 < b"
    and s0: "sll_user s = sll_user s0" "\<forall>k. k \<noteq> l \<longrightarrow> sll_lists s k = sll_lists s0 k"
      "\<And>y. sll_refs s y = sll_refs s0 y" and E: "E \<Longrightarrow> plenty 1 s"
  shows "wp (sll_delete_won X K b t ph ch x) (\<lambda>r s'. r = Sll_Finish CLDS_SINGLY_LINKED_LIST_DELETE_OK \<and> sll_deleted E X C K l t xs x U A R M s0 s') s"
  unfolding sll_delete_won_def
proof (rule wp_let_go_both [OF hp A])
  show "card (live s) < b" using room by simp
  fix s1 :: "('q, 'u, 'a) sll_mem_scheme"
  assume s1: "hp_mem.more s1 = hp_mem.more s" "live s1 = live s" "hp_ok X C s1 t A R M" "\<And>n. plenty n s \<Longrightarrow> plenty n s1"
  have "2 * card (live s1) + 4 < b" using s1(2) room by simp
  from wp_sll_retire [OF s1(3) sll_ok_more [OF ok s1(1)] x this]
  show "wp (call (clds_hazard_pointers_reclaim X (sll_reclaim K) b t x (sll_reclaim_function K)) (\<lambda>_. Done (Sll_Finish CLDS_SINGLY_LINKED_LIST_DELETE_OK)))
      (\<lambda>r s'. r = Sll_Finish CLDS_SINGLY_LINKED_LIST_DELETE_OK \<and> sll_deleted E X C K l t xs x U A R M s0 s') s1"
  proof (rule wp_seq, elim exE conjE)
    fix a :: unit and s' :: "('q, 'u, 'a) sll_mem_scheme" and R' M'
    assume r: "R' \<subseteq># add_mset (sll_reclaim_function K, x) R" "M' \<subseteq> M" "hp_ok X C s' t A R' M'" "sll_ok K l (remove1 x xs) U R' M' s'"
      "sll_lists s' = sll_lists s1" "sll_cleaned K (sll_user s1) (sll_user s')"
      "plenty 1 s1 \<longrightarrow> sll_settled K (add_mset (sll_reclaim_function K, x) R) s1 R' s'"
    have "sll_settled K (add_mset (sll_reclaim_function K, x) R) s0 R' s'" if E
      by (rule sll_settled_from [of K _ s1]) (use r(7) s1(4) E [OF that] s0(3) sll_moreD(1) [OF s1(1)] in \<open>simp_all add: sll_refs_def\<close>)
    then show "wp (Done (Sll_Finish CLDS_SINGLY_LINKED_LIST_DELETE_OK))
        (\<lambda>r s'. r = Sll_Finish CLDS_SINGLY_LINKED_LIST_DELETE_OK \<and> sll_deleted E X C K l t xs x U A R M s0 s') s'"
      unfolding wp_Done sll_deleted_def
      using r(1-6) s0 sll_moreD(2,3) [OF s1(1)] by (intro conjI refl exI [of _ R'] exI [of _ M']) simp_all
  qed
qed

lemma wp_sll_delete_found:
  fixes s :: "('q, 'u, 'a) sll_mem_scheme"
  assumes hp: "hp_ok X C s t (A''(ch \<mapsto> x)) R M" and A: "A'' ch = None" "holding A us ph A''"
    and ok: "sll_ok K l (us @ x # vs) U R M s" and room: "2 * card (live s) + 4 < b" and E: "E \<Longrightarrow> plenty 1 s"
  shows "wp (sll_delete_found X K b l t ph (last_of us) ch x)
    (\<lambda>r s'. r = Sll_Finish CLDS_SINGLY_LINKED_LIST_DELETE_OK \<and> sll_deleted E X C K l t (us @ x # vs) x U A R M s s') s"
proof -
  note x = sll_at_node [OF sll_okD(1) [OF ok]]
  obtain L where L: "sll_lists s l = Some L" "sll_head L = first_of (us @ x # vs)" using sll_okD(1) [OF ok] by (auto simp: sll_at_def)
  have q: "aligned (first_of vs)" using sll_okD(1) [OF ok] by (cases vs) (simp_all add: sll_at_def)
  obtain I where I: "sll_items s x = Some I" "sll_next I = first_of vs" using x(3) by auto
  have r: "remove1 x (us @ x # vs) = us @ vs" using x(5) by (simp add: remove1_append)
  show ?thesis
  proof (cases us rule: rev_exhaust)
    case Nil
    define s2 where "s2 = s\<lparr>sll_items := (sll_items s)(x \<mapsto> I\<lparr>sll_next := mark (first_of vs)\<rparr>), sll_lists := (sll_lists s)(l \<mapsto> L\<lparr>sll_head := first_of vs\<rparr>)\<rparr>"
    have "sll_ok K l (us @ vs) U (add_mset (sll_reclaim_function K, x) R) M s2"
      by (rule sll_ok_unlinked [OF ok I(1), where w = "mark (first_of vs)" and J = undefined]) (use Nil in \<open>simp_all add: s2_def\<close>)
    moreover have "sll_refs s2 y = sll_refs s y" for y using I by (simp add: s2_def sll_refs_def)
    moreover have "plenty 1 s2" if E using E [OF that] plenty_cong [of s2 s 1] by (simp add: s2_def)
    ultimately have "wp (sll_delete_won X K b t null ch x)
        (\<lambda>r s'. r = Sll_Finish CLDS_SINGLY_LINKED_LIST_DELETE_OK \<and> sll_deleted E X C K l t (us @ x # vs) x U A R M s s') s2"
      by (intro wp_sll_delete_won [where A'' = A'' and us = us]) (use hp A room x(1) r Nil in \<open>simp_all add: s2_def\<close>)
    then show ?thesis
      using Nil I L q x(1,2) A by (cases "first_of vs = null") (simp_all add: sll_delete_found_def cas_sll_def wp_call wp_access cas_def s2_def Let_def)
  next
    case (snoc ts a)
    then have "sll_at s l (ts @ a # x # vs)" using sll_okD(1) [OF ok] by simp
    note a = sll_at_node [OF this]
    obtain J where J: "sll_items s a = Some J" "sll_next J = x" using a(3) by auto
    define s2 where "s2 = s\<lparr>sll_items := (sll_items s)(x \<mapsto> I\<lparr>sll_next := mark (first_of vs)\<rparr>, a \<mapsto> J\<lparr>sll_next := first_of vs\<rparr>)\<rparr>"
    have ax: "a \<noteq> x" using a(6) by auto
    have "sll_ok K l (us @ vs) U (add_mset (sll_reclaim_function K, x) R) M s2"
      by (rule sll_ok_unlinked [OF ok I(1), where w = "mark (first_of vs)" and J = J])
        (use snoc J ax L in \<open>cases ts; simp add: s2_def fun_upd_twist\<close>)+
    moreover have "sll_refs s2 y = sll_refs s y" for y using I J by (simp add: s2_def sll_refs_def)
    moreover have "plenty 1 s2" if E using E [OF that] plenty_cong [of s2 s 1] by (simp add: s2_def)
    ultimately have "wp (sll_delete_won X K b t ph ch x)
        (\<lambda>r s'. r = Sll_Finish CLDS_SINGLY_LINKED_LIST_DELETE_OK \<and> sll_deleted E X C K l t (us @ x # vs) x U A R M s s') s2"
      by (intro wp_sll_delete_won [where A'' = A'' and us = us]) (use hp A room x(1) r in \<open>simp_all add: s2_def\<close>)
    then show ?thesis
      using snoc I J q x(1,2) a(1) ax by (cases "first_of vs = null") (simp_all add: sll_delete_found_def cas_sll_def wp_call wp_access cas_def s2_def Let_def)
  qed
qed

lemma wp_sll_restarting:
  assumes "wp p (\<lambda>e s'. case e of Sll_Restart \<Rightarrow> False | Sll_Finish r \<Rightarrow> Q r s') s" and "0 < b"
  shows "wp (sll_restarting b p) Q s"
proof -
  obtain n where "b = Suc n" using assms(2) by (cases b) auto
  then show ?thesis by (simp, intro wp_seq [OF assms(1)]) (auto simp: wp_Done split: sll_end.splits)
qed

text \<open>Deletion takes out the first item that matches; \<open>c\<close> is what the comparison gives.\<close>

lemma wp_sll_internal_delete:
  fixes s :: "('q, 'u, 'a) sll_mem_scheme"
  assumes hp: "hp_ok X C s t A R M" and ok: "sll_ok K l xs U R M s" and room: "2 * (card (live s) + length xs + 1) + 4 < b"
    and compare: "\<And>s' x Q. x \<in> set xs \<Longrightarrow> hp_mem.more s' = hp_mem.more s \<Longrightarrow> wp (compare x) Q s' = Q (c x) s'"
  shows "wp (sll_internal_delete X K b l t compare) (\<lambda>r s'. case r of
       CLDS_SINGLY_LINKED_LIST_DELETE_OK \<Rightarrow> \<exists>x. find c xs = Some x \<and> sll_deleted (plenty (Suc (Suc (length xs))) s) X C K l t xs x U A R M s s'
     | CLDS_SINGLY_LINKED_LIST_DELETE_NOT_FOUND \<Rightarrow> find c xs = None \<and> hp_ok X C s' t A R M \<and> hp_mem.more s' = hp_mem.more s
     | DELETE_MU_FAILURE \<Rightarrow> \<not> plenty (Suc (length xs)) s \<and> hp_ok X C s' t A R M \<and> hp_mem.more s' = hp_mem.more s
     | CLDS_SINGLY_LINKED_LIST_DELETE_ERROR \<Rightarrow> False) s" (is "wp _ ?G s")
  unfolding sll_internal_delete_def
proof (rule wp_sll_restarting)
  let ?Q = "\<lambda>e s'. case e of Sll_Restart \<Rightarrow> False | Sll_Finish r \<Rightarrow> ?G r s'"
  have "wp (sll_walk b l t unmark compare CLDS_SINGLY_LINKED_LIST_DELETE_NOT_FOUND DELETE_MU_FAILURE (sll_delete_found X K b l t) b null
      (last_of []) (sll_after [])) ?Q s"
  proof (rule wp_sll_walk [where us = "[]" and vs = xs and A = A and c = c and N = "card (live s) + length xs + 1" and enough = "\<lambda>k. plenty (k + Suc (length xs)) s",
      OF hp _ refl])
    fix s' ph A'' ch ws x zs
    assume a: "xs = ws @ x # zs" "find c xs = Some x" "hp_ok X C s' t (A''(ch \<mapsto> x)) R M" "A'' ch = None" "ch \<noteq> null"
      "holding A ([] @ ws) ph A''" "hp_mem.more s' = hp_mem.more s" "card (live s') \<le> card (live s) + length xs + 1"
      "\<And>k. plenty (k + Suc (length xs)) s \<Longrightarrow> plenty k s'"
    have "holding A ws ph A''" "sll_ok K l (ws @ x # zs) U R M s'" "2 * card (live s') + 4 < b"
      using a(1,6-8) sll_ok_more [OF ok, of s'] room by simp_all
    from wp_sll_delete_found [OF a(3,4) this, where E = "plenty (Suc (Suc (length xs))) s"] a(9) [of 1]
    show "wp (sll_delete_found X K b l t ph (last_of ([] @ ws)) ch x) ?Q s'"
      unfolding append_Nil
      by (simp, elim wp_mono) (use a(1,2) sll_moreD [OF a(7)] in \<open>auto elim!: sll_deleted_from\<close>)
  qed (use sll_okD(1) [OF ok] room compare in simp_all)
  then show "wp (sll_walk b l t unmark compare CLDS_SINGLY_LINKED_LIST_DELETE_NOT_FOUND DELETE_MU_FAILURE (sll_delete_found X K b l t) b null
      null List_Head) ?Q s" by simp
  show "0 < b" using room by simp
qed

section \<open>Looking up and inserting\<close>

lemma sll_ok_relinked:
  assumes ok: "sll_ok K l xs U R M s" and at: "sll_at s' l xs'" and l: "sll_items s' l = None"
    and items: "\<And>y. (sll_items s' y = None) = (sll_items s y = None)" "\<And>y. y \<noteq> x \<Longrightarrow> sll_refs s' y = sll_refs s y"
    and x: "of_bool (x \<in> set xs') + count R (sll_reclaim_function K, x) + U' x \<le> sll_refs s' x" "sll_items s x \<noteq> None \<Longrightarrow> 0 < sll_refs s' x"
    and rest: "\<And>y. y \<noteq> x \<Longrightarrow> U' y = U y \<and> (y \<in> set xs') = (y \<in> set xs)"
  shows "sll_ok K l xs' U' R M s'"
proof (rule sll_okI)
  show "y \<noteq> null \<and> aligned y \<and> y \<in> M \<and> 0 < sll_refs s' y" if "sll_items s' y = Some Y" for y Y
  proof -
    obtain Z where Z: "sll_items s y = Some Z" using items(1) [of y] \<open>sll_items s' y = Some Y\<close> by fastforce
    from sll_okD(5) [OF ok this] show ?thesis using items(2) [of y] x(2) Z by (cases "y = x") simp_all
  qed
  show "of_bool (y \<in> set xs') + count R (sll_reclaim_function K, y) + U' y \<le> sll_refs s' y" for y
    using x(1) sll_okD(6) [OF ok, of y] items(2) [of y] rest [of y] by (cases "y = x") simp_all
qed (use at l sll_okD [OF ok] in simp_all)

lemma wp_sll_found:
  fixes s :: "('q, 'u, 'a) sll_mem_scheme"
  assumes hp: "hp_ok X C s t (A''(ch \<mapsto> x)) R M" and A: "A'' ch = None" "holding A us ph A''"
    and ok: "sll_ok K l xs U R M s" and x: "x \<in> set xs" and max: "sll_refs s x + 1 < 2 ^ 32" and room: "card (live s) < b"
  shows "wp (sll_found b t ph pi ch x) (\<lambda>r s'. r = Sll_Finish x \<and> hp_ok X C s' t A R M \<and>
    sll_ok K l xs (U(x := Suc (U x))) R M s' \<and> sll_lists s' = sll_lists s \<and> sll_user s' = sll_user s) s"
proof -
  have "0 < sll_refs s x" using sll_okD(6) [OF ok, of x] x by simp
  then obtain I where I: "sll_items s x = Some I" "sll_refs s x = unat (sll_ref_count I)" by (auto simp: sll_refs_def split: option.splits)
  have hold: "A ch = None" "holding (A(ch \<mapsto> x)) us ph (A''(ch \<mapsto> x))" using holding_more [OF A(2,1)] by simp_all
  show ?thesis
    unfolding sll_found_def
  proof (rule wp_seq [OF wp_let_go [OF hp hold(2) room]], elim conjE)
    fix a and s1 :: "('q, 'u, 'a) sll_mem_scheme"
    assume s1: "hp_mem.more s1 = hp_mem.more s" "live s1 = live s" "hp_ok X C s1 t (A(ch \<mapsto> x)) R M"
    define s2 where "s2 = s1\<lparr>sll_items := (sll_items s)(x \<mapsto> I\<lparr>sll_ref_count := sll_ref_count I + 1\<rparr>)\<rparr>"
    note m = sll_moreD [OF s1(1)]
    have "unat (sll_ref_count I + 1) = Suc (unat (sll_ref_count I))"
      using max I(2) by (simp add: unat_word_ariths)
    then have refs: "sll_refs s2 y = (if y = x then Suc (sll_refs s x) else sll_refs s y)" for y
      using I by (simp add: sll_refs_def s2_def)
    have "sll_ok K l xs (U(x := Suc (U x))) R M s2"
    proof (rule sll_ok_relinked [OF ok, where x = x])
      have "sll_at s2 l xs = sll_at s l xs" by (rule sll_at_cong) (use I m in \<open>simp_all add: s2_def\<close>)
      then show "sll_at s2 l xs" using sll_okD(1) [OF ok] by simp
      show "sll_items s2 l = None" using sll_okD(4) [OF ok] I by (auto simp: s2_def)
      show "(sll_items s2 y = None) = (sll_items s y = None)" for y using I by (simp add: s2_def)
      show "of_bool (x \<in> set xs) + count R (sll_reclaim_function K, x) + (U(x := Suc (U x))) x \<le> sll_refs s2 x"
        using sll_okD(6) [OF ok, of x] by (simp add: refs)
    qed (simp_all add: refs)
    moreover have "hp_ok X C s2 t (A(ch \<mapsto> x)) R M" "card (live s2) < b" using s1 room by (simp_all add: s2_def)
    ultimately have "wp (call (clds_hazard_pointers_release b t ch) (\<lambda>_. Done (Sll_Finish x))) (\<lambda>r s'. r = Sll_Finish x \<and> hp_ok X C s' t A R M \<and>
        sll_ok K l xs (U(x := Suc (U x))) R M s' \<and> sll_lists s' = sll_lists s \<and> sll_user s' = sll_user s) s2"
      by (intro wp_seq [OF wp_hp_release [where A = A and r = ch and x = x, OF _ hold(1)]])
        (use m in \<open>auto simp: wp_Done s2_def dest: sll_moreD(2,3) elim: sll_ok_more\<close>)
    then show "wp (call (on_sll_item x (add_fetch sll_ref_count sll_ref_count_update 1)) (\<lambda>_. call (clds_hazard_pointers_release b t ch)
        (\<lambda>_. Done (Sll_Finish x)))) (\<lambda>r s'. r = Sll_Finish x \<and> hp_ok X C s' t A R M \<and>
        sll_ok K l xs (U(x := Suc (U x))) R M s' \<and> sll_lists s' = sll_lists s \<and> sll_user s' = sll_user s) s1"
      using I(1) m(1) by (simp add: wp_call [of "on_sll_item _ _"] wp_access add_fetch_def s2_def)
  qed
qed

lemma wp_sll_insert:
  assumes ok: "sll_ok K l xs U R M s" and I: "sll_items s x = Some I" and x: "x \<notin> set xs" "0 < U x" and L: "sll_lists s l = Some L"
    and t: "t \<noteq> null" and b: "0 < b"
  shows "wp (clds_singly_linked_list_insert b l t x) (\<lambda>r s'. r = Result_0 \<and> sll_ok K l (x # xs) (U(x := U x - 1)) R M s' \<and>
    s' = s\<lparr>sll_items := (sll_items s)(x \<mapsto> I\<lparr>sll_next := first_of xs\<rparr>), sll_lists := (sll_lists s)(l \<mapsto> L\<lparr>sll_head := x\<rparr>)\<rparr>) s"
proof -
  obtain n where n: "b = Suc n" using b by (cases b) auto
  have h: "sll_head L = first_of xs" "heap_chain (nx s) (first_of xs) xs" "\<forall>y \<in> set xs. aligned y" using sll_okD(1) [OF ok] L by (simp_all add: sll_at_def)
  note nx = sll_okD(5) [OF ok I]
  let ?s = "s\<lparr>sll_items := (sll_items s)(x \<mapsto> I\<lparr>sll_next := first_of xs\<rparr>), sll_lists := (sll_lists s)(l \<mapsto> L\<lparr>sll_head := x\<rparr>)\<rparr>"
  have refs: "sll_refs ?s y = sll_refs s y" for y using I by (simp add: sll_refs_def)
  have "sll_ok K l (x # xs) (U(x := U x - 1)) R M ?s"
  proof (rule sll_ok_relinked [OF ok, where x = x])
    show "sll_at ?s l (x # xs)" using h nx x(1) by (auto simp: sll_at_def)
    show "sll_items ?s l = None" using sll_okD(4) [OF ok] I by auto
    show "of_bool (x \<in> set (x # xs)) + count R (sll_reclaim_function K, x) + (U(x := U x - 1)) x \<le> sll_refs ?s x"
      unfolding refs using sll_okD(6) [OF ok, of x] x by simp
  qed (use I nx refs in simp_all)
  then show ?thesis
    using I L h(1) nx t sll_okD(2) [OF ok] n
    by (cases "first_of xs = null") (simp_all add: clds_singly_linked_list_insert_def cas_sll_def wp_call wp_access access_kinds wp_Done)
qed

section \<open>An example\<close>

text \<open>The list at 512 holds 272 and 288; 304 is an item that is not in the list yet.\<close>

definition sll_example_callbacks :: "64 word list sll_callbacks" where
  "sll_example_callbacks = \<lparr>sll_item_compare = (\<lambda>f c x u. x = c), sll_item_cleanup = (\<lambda>f c x u. u @ [x]), sll_reclaim_function = 1\<rparr>"

definition sll_example_item :: "ptr \<Rightarrow> singly_linked_list_item" where
  "sll_example_item p = \<lparr>sll_ref_count = 1, sll_cleanup_callback = 1, sll_cleanup_callback_context = 0, sll_next = p\<rparr>"

definition sll_example :: "(inactive_thread list, 64 word list) sll_mem" where
  "sll_example = \<lparr>live = {16, 32, 512, 272, 288, 304}, answers = [768, 784, 800, 816, 832, 848], st_sets = Map.empty, st_arrays = Map.empty,
     st_items = Map.empty, hp_records = Map.empty, hp_entries = Map.empty,
     hp_threads = [32 \<mapsto> \<lparr>th_next = null, th_hazard_pointers = 16, free_pointers = null, pointers = null, reclaim_list = null,
        active = 1, reclaim_list_entry_count = 0\<rparr>],
     hp_structs = [16 \<mapsto> \<lparr>hp_thread_cleanup_worker = 24, reclaim_threshold = 1, hp_head = 32, epoch = 0,
        pending_reclaim_calls = 0, inactive_threads = 8, pending_reclaim_list = null\<rparr>], outer = [],
     sll_items = [272 \<mapsto> sll_example_item 288, 288 \<mapsto> sll_example_item null, 304 \<mapsto> sll_example_item null],
     sll_lists = [512 \<mapsto> \<lparr>sll_hazard_pointers = 16, sll_head = 272\<rparr>], sll_user = []\<rparr>"

definition sll_example_refs :: "ptr \<Rightarrow> nat" where
  "sll_example_refs x = (if x = 304 then 1 else 0)"

abbreviation sll_example_memory :: "ptr set" where
  "sll_example_memory \<equiv> {272, 288, 304, 512}"

lemma sll_example_hp: "hp_ok list_externals list_contents sll_example 32 Map.empty {#} sll_example_memory"
proof -
  define V :: "ptr \<Rightarrow> thread_view" where "V = (\<lambda>t. \<lparr>used = [], unused = [], retired = []\<rparr>)"
  define W where "W = (\<lambda>x :: ptr. if x = 16 then Hps_Struct else if x = 32 then Part_Of 32 else Client)"
  have "hps_at list_contents sll_example 16 [32] [] V W [] sll_example_memory"
    unfolding hps_at_def thread_at_def
    by (simp add: sll_example_def V_def W_def list_contents_def insert_commute)
  then show ?thesis
    by (rule hp_okI [OF list_externals_ok])
      (simp_all add: is_active_def sll_example_def V_def held_def all_retired_def fun_eq_iff)
qed

lemma sll_example_ok: "sll_ok sll_example_callbacks 512 [272, 288] sll_example_refs {#} sll_example_memory sll_example"
  by (rule sll_okI)
    (auto simp: sll_at_def sll_example_def sll_example_item_def sll_refs_def sll_example_refs_def aligned_def split: if_splits)

text \<open>
  An insertion that goes wrong. Thread 0 inserts 304 and makes it the head; before it looks at the
  item's link again, thread 1 deletes the item behind it, 272, which changes that link. Thread 0 takes
  the change for a failure and inserts the item a second time: the item is then linked to itself, the
  item 288 is lost, and a search for it does not end.
\<close>

lemma sll_insert_race:
  "case run_schedule [0, 0, 0, 0]
      (sll_example, [call (clds_singly_linked_list_insert 30 512 32 304) (\<lambda>_. Done ()),
        call (clds_singly_linked_list_delete list_externals sll_example_callbacks 30 512 32 272) (\<lambda>_. Done ())]) of (s, ps) \<Rightarrow>
     (case run (ps ! 1) s of Value _ s \<Rightarrow>
        (case run (ps ! 0) s of Value _ s \<Rightarrow> map_option sll_head (sll_lists s 512) = Some 304 \<and> nx s 304 = Some 304 | _ \<Rightarrow> False)
      | _ \<Rightarrow> False)"
  by code_simp

section \<open>Properties\<close>

text \<open>
  C34: deletion takes out the first item that the caller's function accepts: the links lead past it, and
  it is handed to the hazard pointers with the list's reference. While there is memory for the entry
  of the reclaim list, that reference is not lost: a reclaim call of the item is owed, or has been
  carried out and has given the reference up, and no other reference of any item has been given up
  except by its reclaim call (\<open>sll_settled\<close>). Nothing is done when no item is accepted. The deletion
  fails only when there is no memory for a hazard pointer, and then the list is unchanged.
\<close>

theorem singly_linked_list_delete_if:
  fixes s :: "('q, 'u, 'a) sll_mem_scheme"
  assumes hp: "hp_ok X C s t A R M" and ok: "sll_ok K l xs U R M s" and f: "f \<noteq> null" and room: "2 * (card (live s) + length xs + 1) + 4 < b"
  shows "wp (clds_singly_linked_list_delete_if X K b l t f c) (\<lambda>r s'. case r of
       CLDS_SINGLY_LINKED_LIST_DELETE_OK \<Rightarrow> \<exists>x. find (\<lambda>x. sll_item_compare K f c x (sll_user s)) xs = Some x \<and> sll_deleted (plenty (Suc (Suc (length xs))) s) X C K l t xs x U A R M s s'
     | CLDS_SINGLY_LINKED_LIST_DELETE_NOT_FOUND \<Rightarrow> find (\<lambda>x. sll_item_compare K f c x (sll_user s)) xs = None \<and>
         hp_ok X C s' t A R M \<and> hp_mem.more s' = hp_mem.more s
     | DELETE_MU_FAILURE \<Rightarrow> \<not> plenty (Suc (length xs)) s \<and> hp_ok X C s' t A R M \<and> hp_mem.more s' = hp_mem.more s
     | CLDS_SINGLY_LINKED_LIST_DELETE_ERROR \<Rightarrow> False) s"
proof -
  have "wp (sll_ask K f c x) Q s' = Q (sll_item_compare K f c x (sll_user s)) s'" if "hp_mem.more s' = hp_mem.more s"
    for x Q and s' :: "('q, 'u, 'a) sll_mem_scheme"
    using sll_moreD(3) [OF that] by (simp add: sll_ask_def wp_reads)
  from wp_sll_internal_delete [OF hp ok room this] show ?thesis
    using f sll_okD(2) [OF ok] hp.client_memory [OF hp] by (simp add: clds_singly_linked_list_delete_if_def)
qed

theorem singly_linked_list_delete_if_witness:
  "wp (clds_singly_linked_list_delete_if list_externals sll_example_callbacks 30 512 32 1 288)
    (\<lambda>r s'. r = CLDS_SINGLY_LINKED_LIST_DELETE_OK \<and> (\<exists>R' M'. sll_ok sll_example_callbacks 512 [272] sll_example_refs R' M' s' \<and>
       sll_settled sll_example_callbacks {#(sll_reclaim_function sll_example_callbacks, 288)#} sll_example R' s')) sll_example"
proof (rule wp_mono [OF singly_linked_list_delete_if [OF sll_example_hp sll_example_ok]])
  have p: "plenty (Suc (Suc (length [272, 288 :: ptr]))) sll_example" by (simp add: plenty_def sll_example_def aligned_def)
  then have p3: "plenty (Suc (length [272, 288 :: ptr])) sll_example" by (rule plenty_fewer) simp
  have c: "sll_item_compare sll_example_callbacks 1 288 = (\<lambda>x u. x = 288)" by (simp add: sll_example_callbacks_def)
  show "r = CLDS_SINGLY_LINKED_LIST_DELETE_OK \<and> (\<exists>R' M'. sll_ok sll_example_callbacks 512 [272] sll_example_refs R' M' s' \<and>
       sll_settled sll_example_callbacks {#(sll_reclaim_function sll_example_callbacks, 288)#} sll_example R' s')"
    if "case r of
       CLDS_SINGLY_LINKED_LIST_DELETE_OK \<Rightarrow> \<exists>x. find (\<lambda>x. sll_item_compare sll_example_callbacks 1 288 x (sll_user sll_example)) [272, 288] = Some x \<and>
         sll_deleted (plenty (Suc (Suc (length [272, 288 :: ptr]))) sll_example) list_externals list_contents sll_example_callbacks 512 32 [272, 288] x sll_example_refs Map.empty {#} sll_example_memory sll_example s'
     | CLDS_SINGLY_LINKED_LIST_DELETE_NOT_FOUND \<Rightarrow> find (\<lambda>x. sll_item_compare sll_example_callbacks 1 288 x (sll_user sll_example)) [272, 288] = None \<and>
         hp_ok list_externals list_contents s' 32 Map.empty {#} sll_example_memory \<and> hp_mem.more s' = hp_mem.more sll_example
     | DELETE_MU_FAILURE \<Rightarrow> \<not> plenty (Suc (length [272, 288 :: ptr])) sll_example \<and>
         hp_ok list_externals list_contents s' 32 Map.empty {#} sll_example_memory \<and> hp_mem.more s' = hp_mem.more sll_example
     | CLDS_SINGLY_LINKED_LIST_DELETE_ERROR \<Rightarrow> False" for r s'
    using that p p3 unfolding c by (cases r) (auto simp: sll_deleted_def)
qed (simp_all add: sll_example_def)

text \<open>
  C35: the look-up gives the first item that the caller's function accepts, the one that a linear search
  of the list gives, with a reference of its own; the list is not changed. Null means that no item is
  accepted, or that there is no memory for a hazard pointer.
\<close>

theorem singly_linked_list_find:
  fixes s :: "('q, 'u, 'a) sll_mem_scheme"
  assumes hp: "hp_ok X C s t A R M" and ok: "sll_ok K l xs U R M s" and f: "f \<noteq> null" and room: "card (live s) + length xs + 1 < b"
    and max: "\<forall>x \<in> set xs. sll_refs s x + 1 < 2 ^ 32"
  shows "wp (clds_singly_linked_list_find K b l t f c) (\<lambda>r s'. hp_ok X C s' t A R M \<and> sll_lists s' = sll_lists s \<and> sll_user s' = sll_user s \<and>
     (if r = null then hp_mem.more s' = hp_mem.more s \<and>
        (plenty (Suc (length xs)) s \<longrightarrow> find (\<lambda>x. sll_item_compare K f c x (sll_user s)) xs = None)
      else find (\<lambda>x. sll_item_compare K f c x (sll_user s)) xs = Some r \<and> sll_ok K l xs (U(r := Suc (U r))) R M s')) s"
    (is "wp _ ?G s")
proof -
  let ?c = "\<lambda>x. sll_item_compare K f c x (sll_user s)"
  have ask: "wp (sll_ask K f c x) Q s' = Q (?c x) s'" if "hp_mem.more s' = hp_mem.more s" for x Q and s' :: "('q, 'u, 'a) sll_mem_scheme"
    using sll_moreD(3) [OF that] by (simp add: sll_ask_def wp_reads)
  let ?Q = "\<lambda>e s'. case e of Sll_Restart \<Rightarrow> False | Sll_Finish r \<Rightarrow> ?G r s'"
  have "wp (sll_walk b l t id (sll_ask K f c) null null (sll_found b t) b null (last_of []) (sll_after [])) ?Q s"
  proof (rule wp_sll_walk [where us = "[]" and vs = xs and A = A and c = ?c and N = "card (live s) + length xs + 1" and enough = "\<lambda>k. plenty (k + Suc (length xs)) s",
      OF hp _ refl])
    fix s' ph A'' ch ws x zs
    assume a: "xs = ws @ x # zs" "find ?c xs = Some x" "hp_ok X C s' t (A''(ch \<mapsto> x)) R M" "A'' ch = None" "ch \<noteq> null"
      "holding A ([] @ ws) ph A''" "hp_mem.more s' = hp_mem.more s" "card (live s') \<le> card (live s) + length xs + 1"
    note m = sll_moreD [OF a(7)]
    have x: "x \<in> set xs" "x \<noteq> null" using a(1) sll_at_node(1) [of s l ws x zs] sll_okD(1) [OF ok] by simp_all
    have "sll_refs s' = sll_refs s" using m(1) by (simp add: fun_eq_iff sll_refs_def)
    then have "sll_refs s' x + 1 < 2 ^ 32" using max x(1) by simp
    moreover have "holding A ws ph A''" "card (live s') < b" using a(6,8) room by simp_all
    ultimately show "wp (sll_found b t ph (last_of ([] @ ws)) ch x) ?Q s'"
      by (intro wp_mono [OF wp_sll_found [OF a(3,4) _ sll_ok_more [OF ok a(7)] x(1)]]) (use x(2) a(2) m(2,3) in auto)
  next
    show "?Q (Sll_Finish null) s'" if "find ?c xs = None" "hp_ok X C s' t A R M" "hp_mem.more s' = hp_mem.more s" for s'
      using that sll_moreD(2,3) [OF that(3)] by simp
    show "?Q (Sll_Finish null) s'" if "\<not> plenty (0 + Suc (length xs)) s" "hp_ok X C s' t A R M" "hp_mem.more s' = hp_mem.more s" for s'
      using that sll_moreD(2,3) [OF that(3)] by simp
  qed (use sll_okD(1) [OF ok] room ask in simp_all)
  then have "wp (sll_walk b l t id (sll_ask K f c) null null (sll_found b t) b null null List_Head) ?Q s" by simp
  then have "wp (sll_restarting b (sll_walk b l t id (sll_ask K f c) null null (sll_found b t) b null null List_Head)) ?G s"
    by (rule wp_sll_restarting) (use room in simp)
  then show ?thesis using f sll_okD(2) [OF ok] hp.client_memory [OF hp] by (simp add: clds_singly_linked_list_find_def)
qed

theorem singly_linked_list_find_witness:
  "wp (clds_singly_linked_list_find sll_example_callbacks 30 512 32 1 288) (\<lambda>r s'. r = 288 \<and>
     sll_ok sll_example_callbacks 512 [272, 288] (sll_example_refs(288 := Suc (sll_example_refs 288))) {#} sll_example_memory s') sll_example"
proof (rule wp_mono [OF singly_linked_list_find [OF sll_example_hp sll_example_ok]])
  have p: "plenty (Suc (length [272, 288 :: ptr])) sll_example" by (simp add: plenty_def sll_example_def aligned_def)
  have c: "sll_item_compare sll_example_callbacks 1 288 = (\<lambda>x u. x = 288)" by (simp add: sll_example_callbacks_def)
  fix r and s' :: "(inactive_thread list, 64 word list) sll_mem"
  assume "hp_ok list_externals list_contents s' 32 Map.empty {#} sll_example_memory \<and> sll_lists s' = sll_lists sll_example \<and> sll_user s' = sll_user sll_example \<and>
     (if r = null then hp_mem.more s' = hp_mem.more sll_example \<and> (plenty (Suc (length [272, 288 :: ptr])) sll_example \<longrightarrow>
         find (\<lambda>x. sll_item_compare sll_example_callbacks 1 288 x (sll_user sll_example)) [272, 288] = None)
      else find (\<lambda>x. sll_item_compare sll_example_callbacks 1 288 x (sll_user sll_example)) [272, 288] = Some r \<and>
        sll_ok sll_example_callbacks 512 [272, 288] (sll_example_refs(r := Suc (sll_example_refs r))) {#} sll_example_memory s')"
  then show "r = 288 \<and> sll_ok sll_example_callbacks 512 [272, 288] (sll_example_refs(288 := Suc (sll_example_refs 288))) {#} sll_example_memory s'"
    using p unfolding c by (cases "r = null") (auto simp del: fun_upd_apply)
qed (simp_all add: sll_example_def sll_refs_def sll_example_item_def)

text \<open>
  C36: an item that is inserted and then deleted by its address leaves the list as it was; both calls
  report success when there is memory for the hazard pointers.
\<close>

theorem singly_linked_list_insert_delete:
  fixes s :: "('q, 'u, 'a) sll_mem_scheme"
  assumes hp: "hp_ok X C s t A R M" and ok: "sll_ok K l xs U R M s" and x: "sll_items s x \<noteq> None" "x \<notin> set xs" "0 < U x"
    and room: "2 * (card (live s) + length xs + 2) + 4 < b" and mem: "plenty (length xs + 2) s"
  shows "wp (call (clds_singly_linked_list_insert b l t x) (\<lambda>r. call (clds_singly_linked_list_delete X K b l t x) (\<lambda>r'. Done (r, r'))))
    (\<lambda>r s'. r = (Result_0, CLDS_SINGLY_LINKED_LIST_DELETE_OK) \<and>
      (\<exists>R' M'. R' \<subseteq># add_mset (sll_reclaim_function K, x) R \<and> hp_ok X C s' t A R' M' \<and> sll_ok K l xs (U(x := U x - 1)) R' M' s')) s"
proof -
  obtain I where I: "sll_items s x = Some I" using x(1) by blast
  obtain L where L: "sll_lists s l = Some L" using sll_okD(1) [OF ok] by (auto simp: sll_at_def)
  have t: "t \<noteq> null" "0 < b" using hp.client_memory [OF hp] room by simp_all
  note nx = sll_okD(5) [OF ok I]
  show ?thesis
  proof (rule wp_seq [OF wp_sll_insert [OF ok I x(2,3) L t]], elim conjE)
    fix r and s1 :: "('q, 'u, 'a) sll_mem_scheme"
    assume r: "r = Result_0" and ok1: "sll_ok K l (x # xs) (U(x := U x - 1)) R M s1"
      and s1: "s1 = s\<lparr>sll_items := (sll_items s)(x \<mapsto> I\<lparr>sll_next := first_of xs\<rparr>), sll_lists := (sll_lists s)(l \<mapsto> L\<lparr>sll_head := x\<rparr>)\<rparr>"
    have hp1: "hp_ok X C s1 t A R M" and room1: "2 * (card (live s1) + length (x # xs) + 1) + 4 < b" and mem1: "plenty (Suc (length (x # xs))) s1"
      using hp room mem by (simp_all add: s1 plenty_def)
    have cmp: "wp (sll_compare_item_by_ptr x y) Q s' = Q (y = x) s'" for y Q and s' :: "('q, 'u, 'a) sll_mem_scheme"
      by (simp add: sll_compare_item_by_ptr_def wp_Done)
    have "wp (sll_internal_delete X K b l t (sll_compare_item_by_ptr x)) (\<lambda>r s'. r = CLDS_SINGLY_LINKED_LIST_DELETE_OK \<and>
        (\<exists>R' M'. R' \<subseteq># add_mset (sll_reclaim_function K, x) R \<and> hp_ok X C s' t A R' M' \<and> sll_ok K l xs (U(x := U x - 1)) R' M' s')) s1"
      by (rule wp_mono [OF wp_sll_internal_delete [where c = "\<lambda>y. y = x", OF hp1 ok1 room1 cmp]])
        (use mem1 in \<open>auto simp: sll_deleted_def simp del: fun_upd_apply split: sll_delete_result.splits\<close>)
    then have "wp (clds_singly_linked_list_delete X K b l t x) (\<lambda>r s'. r = CLDS_SINGLY_LINKED_LIST_DELETE_OK \<and>
        (\<exists>R' M'. R' \<subseteq># add_mset (sll_reclaim_function K, x) R \<and> hp_ok X C s' t A R' M' \<and> sll_ok K l xs (U(x := U x - 1)) R' M' s')) s1"
      unfolding clds_singly_linked_list_delete_def using t nx sll_okD(2) [OF ok]
      by simp
    then show "wp (call (clds_singly_linked_list_delete X K b l t x) (\<lambda>r'. Done (r, r')))
      (\<lambda>r s'. r = (Result_0, CLDS_SINGLY_LINKED_LIST_DELETE_OK) \<and>
        (\<exists>R' M'. R' \<subseteq># add_mset (sll_reclaim_function K, x) R \<and> hp_ok X C s' t A R' M' \<and> sll_ok K l xs (U(x := U x - 1)) R' M' s')) s1"
      by (rule wp_seq) (simp add: wp_Done r)
  qed
qed

theorem singly_linked_list_insert_delete_witness:
  "wp (call (clds_singly_linked_list_insert 30 512 32 304)
      (\<lambda>r. call (clds_singly_linked_list_delete list_externals sll_example_callbacks 30 512 32 304) (\<lambda>r'. Done (r, r'))))
    (\<lambda>r s'. r = (Result_0, CLDS_SINGLY_LINKED_LIST_DELETE_OK) \<and> (\<exists>R' M'. R' \<subseteq># {#(1, 304)#} \<and>
      hp_ok list_externals list_contents s' 32 Map.empty R' M' \<and> sll_ok sll_example_callbacks 512 [272, 288] (\<lambda>_. 0) R' M' s')) sll_example"
proof -
  have u: "sll_example_refs(304 := sll_example_refs 304 - 1) = (\<lambda>_. 0)" by (simp add: fun_eq_iff sll_example_refs_def)
  have k: "sll_reclaim_function sll_example_callbacks = 1" by (simp add: sll_example_callbacks_def)
  show ?thesis
    using singly_linked_list_insert_delete [OF sll_example_hp sll_example_ok, of 304 30] unfolding u k
    by (simp add: sll_example_def sll_example_refs_def plenty_def aligned_def)
qed

end
