(* ===== verification/Clds_Hazard_Pointers_Thread_Helper.thy ===== *)
theory Clds_Hazard_Pointers_Thread_Helper
  imports Hazard_Pointer_Client
begin

text \<open>
  The thread helper, \<open>src/src/clds_hazard_pointers_thread_helper.c\<close>: it registers each thread that asks
  for a hazard pointer handle once, keeps the handle in a slot of the thread-local storage, and
  unregisters the thread when the operating system reports that it ends.

  The thread-local storage of Windows and the dispatcher of c-util that reports the end of a thread are
  parameters, \<open>W\<close>; the record \<open>W\<close> is that of the thread that runs the function, since a slot has a value
  for each thread. \<open>X\<close> and \<open>b\<close> are those of the hazard pointers.
\<close>

section \<open>Data\<close>

record thread_helper =
  helper_hazard_pointers :: ptr
  helper_tls_slot :: "32 word"
  thread_notification_target_handle :: ptr
  helper_call_dispatcher :: ptr

text \<open>The part of the state where the structs of the helpers are, which the user of the helper chooses.\<close>

record 's helper_part =
  get_helpers :: "'s \<Rightarrow> ptr \<Rightarrow> thread_helper option"
  put_helpers :: "(ptr \<Rightarrow> thread_helper option) \<Rightarrow> 's \<Rightarrow> 's"

record 'q thread_services =
  TlsAlloc :: "'q \<Rightarrow> 32 word \<times> 'q"
  TlsFree :: "32 word \<Rightarrow> 'q \<Rightarrow> bool \<times> 'q"
  TlsGetValue :: "32 word \<Rightarrow> 'q \<Rightarrow> ptr \<times> 'q"
  TlsSetValue :: "32 word \<Rightarrow> ptr \<Rightarrow> 'q \<Rightarrow> bool \<times> 'q"
  get_call_dispatcher :: "'q \<Rightarrow> ptr \<times> 'q"
  register_target :: "ptr \<Rightarrow> ptr \<Rightarrow> 'q \<Rightarrow> ptr \<times> 'q"
  unregister_target :: "ptr \<Rightarrow> ptr \<Rightarrow> 'q \<Rightarrow> unit \<times> 'q"
  release_call_dispatcher :: "ptr \<Rightarrow> 'q \<Rightarrow> unit \<times> 'q"

abbreviation TLS_OUT_OF_INDEXES :: "32 word" where
  "TLS_OUT_OF_INDEXES \<equiv> 0xFFFFFFFF"

text \<open>The reasons of \<open>THREAD_NOTIFICATIONS_LACKEY_DLL_REASON\<close> that are told apart.\<close>

datatype lackey_reason = THREAD_NOTIFICATIONS_LACKEY_DLL_REASON_THREAD_ATTACH
  | THREAD_NOTIFICATIONS_LACKEY_DLL_REASON_THREAD_DETACH | Other_Reason

definition on_helper :: "'s helper_part \<Rightarrow> ptr \<Rightarrow> (thread_helper \<Rightarrow> 'v \<times> thread_helper option) \<Rightarrow> ('s, 'v) prog" where
  "on_helper H = access (get_helpers H) (put_helpers H)"

definition malloc_helper :: "('q, 'a) hp_mem_scheme helper_part \<Rightarrow> (('q, 'a) hp_mem_scheme, ptr) prog" where
  "malloc_helper H = new_obj (get_helpers H) (put_helpers H) \<lparr>helper_hazard_pointers = junk, helper_tls_slot = 0xCDCDCDCD,
     thread_notification_target_handle = junk, helper_call_dispatcher = junk\<rparr>"

definition free_helper :: "('q, 'a) hp_mem_scheme helper_part \<Rightarrow> ptr \<Rightarrow> (('q, 'a) hp_mem_scheme, unit) prog" where
  "free_helper H = free_obj (get_helpers H) (put_helpers H)"

section \<open>The functions\<close>

text \<open>\<open>LogCriticalAndTerminate\<close> ends the process; nothing follows it, which \<open>Fault\<close> stands for here.\<close>

definition clds_hazard_pointers_thread_helper_thread_notification :: "('q, 'a) hp_mem_scheme helper_part \<Rightarrow> 'q externals \<Rightarrow> 'q thread_services \<Rightarrow> nat \<Rightarrow>
    ptr \<Rightarrow> lackey_reason \<Rightarrow> (('q, 'a) hp_mem_scheme, unit) prog" where
  "clds_hazard_pointers_thread_helper_thread_notification H X W b context reason =
     (if context = null then Fault
      else case reason of
        Other_Reason \<Rightarrow> Done ()
      | THREAD_NOTIFICATIONS_LACKEY_DLL_REASON_THREAD_ATTACH \<Rightarrow> Done ()
      | THREAD_NOTIFICATIONS_LACKEY_DLL_REASON_THREAD_DETACH \<Rightarrow>
          call (on_helper H context (rd helper_tls_slot)) (\<lambda>tls_slot.
          call (external (TlsGetValue W tls_slot)) (\<lambda>hp_thread_handle.
          if hp_thread_handle \<noteq> null then
            call (on_helper H context (rd helper_tls_slot)) (\<lambda>tls_slot.
            call (external (TlsSetValue W tls_slot null)) (\<lambda>_.
            clds_hazard_pointers_unregister_thread X b hp_thread_handle))
          else Done ())))"

definition clds_hazard_pointers_thread_helper_create :: "('q, 'a) hp_mem_scheme helper_part \<Rightarrow> 'q thread_services \<Rightarrow> ptr \<Rightarrow>
    (('q, 'a) hp_mem_scheme, ptr) prog" where
  "clds_hazard_pointers_thread_helper_create H W hps =
     (if hps = null then Done null
      else
        call (malloc_helper H) (\<lambda>helper.
        if helper = null then Done null
        else
          let give_up = call (free_helper H helper) (\<lambda>_. Done null);
              give_up_slot = call (on_helper H helper (rd helper_tls_slot)) (\<lambda>slot. call (external (TlsFree W slot)) (\<lambda>_. give_up)) in
          call (external (TlsAlloc W)) (\<lambda>slot.
          call (on_helper H helper (wr helper_tls_slot_update slot)) (\<lambda>_.
          call (on_helper H helper (rd helper_tls_slot)) (\<lambda>slot.
          if slot = TLS_OUT_OF_INDEXES then give_up
          else
            call (external (get_call_dispatcher W)) (\<lambda>dispatcher.
            if dispatcher = null then give_up_slot
            else
              call (on_helper H helper (wr helper_call_dispatcher_update dispatcher)) (\<lambda>_.
              call (on_helper H helper (rd helper_call_dispatcher)) (\<lambda>dispatcher.
              call (external (register_target W dispatcher helper)) (\<lambda>target.
              call (on_helper H helper (wr thread_notification_target_handle_update target)) (\<lambda>_.
              call (on_helper H helper (rd thread_notification_target_handle)) (\<lambda>target.
              if target = null then
                call (on_helper H helper (exchange helper_call_dispatcher helper_call_dispatcher_update null)) (\<lambda>dispatcher.
                call (external (release_call_dispatcher W dispatcher)) (\<lambda>_.
                give_up_slot))
              else
                call (on_helper H helper (wr helper_hazard_pointers_update hps)) (\<lambda>_.
                Done helper))))))))))))"

definition clds_hazard_pointers_thread_helper_destroy :: "('q, 'a) hp_mem_scheme helper_part \<Rightarrow> 'q thread_services \<Rightarrow> ptr \<Rightarrow>
    (('q, 'a) hp_mem_scheme, unit) prog" where
  "clds_hazard_pointers_thread_helper_destroy H W helper =
     (if helper = null then Done ()
      else
        call (on_helper H helper (rd helper_call_dispatcher)) (\<lambda>dispatcher.
        call (on_helper H helper (rd thread_notification_target_handle)) (\<lambda>target.
        call (external (unregister_target W dispatcher target)) (\<lambda>_.
        call (on_helper H helper (exchange helper_call_dispatcher helper_call_dispatcher_update null)) (\<lambda>dispatcher.
        call (external (release_call_dispatcher W dispatcher)) (\<lambda>_.
        call (on_helper H helper (rd helper_tls_slot)) (\<lambda>slot.
        call (external (TlsFree W slot)) (\<lambda>_.
        free_helper H helper))))))))"

definition clds_hazard_pointers_thread_helper_get_thread :: "('q, 'a) hp_mem_scheme helper_part \<Rightarrow> 'q externals \<Rightarrow> 'q thread_services \<Rightarrow> nat \<Rightarrow>
    ptr \<Rightarrow> (('q, 'a) hp_mem_scheme, ptr) prog" where
  "clds_hazard_pointers_thread_helper_get_thread H X W b helper =
     (if helper = null then Done null
      else
        call (on_helper H helper (rd helper_tls_slot)) (\<lambda>tls_slot.
        call (external (TlsGetValue W tls_slot)) (\<lambda>result.
        if result = null then
          call (on_helper H helper (rd helper_hazard_pointers)) (\<lambda>hps.
          call (clds_hazard_pointers_register_thread b hps) (\<lambda>result.
          if result = null then Done null
          else
            call (on_helper H helper (rd helper_tls_slot)) (\<lambda>tls_slot.
            call (external (TlsSetValue W tls_slot result)) (\<lambda>stored.
            if \<not> stored then
              call (clds_hazard_pointers_unregister_thread X b result) (\<lambda>_. Done null)
            else Done result))))
        else Done result)))"

section \<open>The services\<close>

text \<open>
  What is relied on. A slot holds what was stored last, reading it changes nothing, and a store that is
  refused changes nothing. The slots and the queues and worker threads of the hazard pointers do not
  affect each other.
\<close>

definition slots_ok :: "'q thread_services \<Rightarrow> 'q externals \<Rightarrow> ('q \<Rightarrow> ptr \<Rightarrow> inactive_thread list) \<Rightarrow> bool" where
  "slots_ok W X C \<longleftrightarrow> (\<forall>slot q. snd (TlsGetValue W slot q) = q) \<and>
     (\<forall>slot v q. if fst (TlsSetValue W slot v q) then fst (TlsGetValue W slot (snd (TlsSetValue W slot v q))) = v else snd (TlsSetValue W slot v q) = q) \<and>
     (\<forall>slot v q. C (snd (TlsSetValue W slot v q)) = C q) \<and>
     (\<forall>slot w q. fst (TlsGetValue W slot (snd (worker_thread_schedule_process X w q))) = fst (TlsGetValue W slot q))"

lemma slots_okD:
  assumes "slots_ok W X C"
  shows "snd (TlsGetValue W slot q) = q" "fst (TlsSetValue W slot v q) \<Longrightarrow> fst (TlsGetValue W slot (snd (TlsSetValue W slot v q))) = v"
    "\<not> fst (TlsSetValue W slot v q) \<Longrightarrow> snd (TlsSetValue W slot v q) = q" "C (snd (TlsSetValue W slot v q)) = C q"
    "fst (TlsGetValue W slot (snd (worker_thread_schedule_process X w q))) = fst (TlsGetValue W slot q)"
  using assms unfolding slots_ok_def by (auto split: if_splits)

lemma hps_at_any_outer: "C q = C (outer s) \<Longrightarrow> hps_at C (s\<lparr>outer := q\<rparr>) h ts ins V W pend M = hps_at C s h ts ins V W pend M"
  by (simp add: hps_at_def thread_at_def)

lemma held_outer [simp]: "held (s\<lparr>outer := q\<rparr>) = held s"
  by (simp add: held_def fun_eq_iff)

lemma all_retired_outer [simp]: "all_retired (s\<lparr>outer := q\<rparr>) = all_retired s"
  by (simp add: all_retired_def is_active_def fun_eq_iff)

lemma hp_ok_outer: "C q = C (outer s) \<Longrightarrow> hp_ok X C (s\<lparr>outer := q\<rparr>) t A R M = hp_ok X C s t A R M"
  by (simp add: hp_ok_def hps_at_any_outer is_active_def)

definition helper_part_ok :: "('q, 'a) hp_mem_scheme helper_part \<Rightarrow> bool" where
  "helper_part_ok H \<longleftrightarrow> (\<forall>s s'. hp_mem.more s' = hp_mem.more s \<longrightarrow> get_helpers H s' = get_helpers H s) \<and>
     (\<forall>m s. get_helpers H (put_helpers H m s) = m \<and> live (put_helpers H m s) = live s \<and> outer (put_helpers H m s) = outer s)"

lemma helper_partD:
  assumes "helper_part_ok H"
  shows "hp_mem.more s' = hp_mem.more s \<Longrightarrow> get_helpers H s' = get_helpers H s"
    and "get_helpers H (put_helpers H m s) = m" "live (put_helpers H m s) = live s" "outer (put_helpers H m s) = outer s"
  using assms unfolding helper_part_ok_def by blast+

lemma helper_part_kept:
  assumes "helper_part_ok H"
  shows "get_helpers H (outer_update f s) = get_helpers H s" "get_helpers H (live_update l s) = get_helpers H s"
    "get_helpers H (answers_update a s) = get_helpers H s"
  by (rule helper_partD(1) [OF assms]; simp)+

lemma wp_on_helper_rd: "get_helpers H s k = Some T \<Longrightarrow> wp (on_helper H k (rd f)) Q s = Q (f T) s"
  by (simp add: on_helper_def wp_access rd_def)

text \<open>Registering and unregistering a thread leave the slots alone.\<close>

lemma register_loop_outer: "wlp (register_loop n h t) (\<lambda>_ s'. outer s' = q) s" if "outer s = q"
  using that by (induction n h t arbitrary: s rule: register_loop.induct) (auto simp: access_kinds split: option.splits)

lemma register_outer: "wlp (clds_hazard_pointers_register_thread b h) (\<lambda>_ s'. outer s' = outer s) s"
  by (cases s rule: malloc_step_cases; auto simp: clds_hazard_pointers_register_thread_def malloc_thread_def access_kinds
      split: option.splits intro!: wlp_mono [OF register_loop_outer [OF refl]])

lemma last_reclaim_entry_outer: "wlp (last_reclaim_entry n e) (\<lambda>_ s'. outer s' = outer s) s"
  by (induction n e arbitrary: s rule: last_reclaim_entry.induct) (auto simp: access_kinds split: option.splits)

lemma push_pending_outer: "wlp (push_pending n h e f) (\<lambda>_ s'. outer s' = q) s" if "outer s = q"
  using that by (induction n h e f arbitrary: s rule: push_pending.induct) (auto simp: access_kinds split: option.splits)

lemma wlp_external [simp]: "wlp (external f) Q s = Q (fst (f (outer s))) (s\<lparr>outer := snd (f (outer s))\<rparr>)"
  by (simp add: external_def Let_def split: prod.splits)

lemma unregister_slots:
  assumes W: "slots_ok W X C"
  shows "wlp (clds_hazard_pointers_unregister_thread X b t) (\<lambda>_ s'. fst (TlsGetValue W slot (outer s')) = fst (TlsGetValue W slot (outer s))) s"
  unfolding clds_hazard_pointers_unregister_thread_def
  by (auto simp: access_kinds slots_okD(5) [OF W] split: option.splits
      intro!: wlp_mono [OF last_reclaim_entry_outer] wlp_mono [OF push_pending_outer [OF refl]])

section \<open>Getting the handle of a thread\<close>

lemma wp_get_thread_known:
  assumes W: "slots_ok W X C" and H: "get_helpers H s k = Some T" "k \<noteq> null" and t: "fst (TlsGetValue W (helper_tls_slot T) (outer s)) = t" "t \<noteq> null"
  shows "wp (clds_hazard_pointers_thread_helper_get_thread H X W b k) Q s = Q t s"
  using H t slots_okD(1) [OF W]
  by (simp add: clds_hazard_pointers_thread_helper_get_thread_def wp_call wp_on_helper_rd wp_external wp_Done)

lemma wp_get_thread_new:
  assumes W: "slots_ok W X C" and X: "tqueue_ok X C" and P: "helper_part_ok H" and H: "get_helpers H s k = Some T" "k \<noteq> null"
    and at: "hps_at C s (helper_hazard_pointers T) ts ins V K pend M" and new: "fst (TlsGetValue W (helper_tls_slot T) (outer s)) = null"
    and b: "Suc (card (live s)) < b"
  shows "wp (clds_hazard_pointers_thread_helper_get_thread H X W b k) (\<lambda>t s'. hp_mem.more s' = hp_mem.more s \<and>
     (if t = null then fst (TlsGetValue W (helper_tls_slot T) (outer s')) = null \<and>
        (live s' = live s \<or> (\<exists>t'. live s' = insert t' (live s) \<and> t' \<notin> live s \<and> \<not> is_active s' t'))
      else t \<notin> live s \<and> hp_ok X C s' t Map.empty (all_retired s ts V pend) M \<and> fst (TlsGetValue W (helper_tls_slot T) (outer s')) = t)) s"
proof -
  let ?h = "helper_hazard_pointers T" and ?slot = "helper_tls_slot T"
  define Q where "Q = (\<lambda>t s'. hp_mem.more s' = hp_mem.more s \<and>
     (if t = null then fst (TlsGetValue W ?slot (outer s')) = null \<and>
        (live s' = live s \<or> (\<exists>t'. live s' = insert t' (live s) \<and> t' \<notin> live s \<and> \<not> is_active s' t'))
      else t \<notin> live s \<and> hp_ok X C s' t Map.empty (all_retired s ts V pend) M \<and> fst (TlsGetValue W ?slot (outer s')) = t))"
  have kept: "get_helpers H s' k = Some T" if "hp_mem.more s' = hp_mem.more s" for s' using H(1) helper_partD(1) [OF P that] by simp
  have "wp (call (clds_hazard_pointers_register_thread b ?h) (\<lambda>result. if result = null then Done null
      else call (on_helper H k (rd helper_tls_slot)) (\<lambda>tls_slot. call (external (TlsSetValue W tls_slot result)) (\<lambda>stored.
        if \<not> stored then call (clds_hazard_pointers_unregister_thread X b result) (\<lambda>_. Done null) else Done result)))) Q s"
  proof (rule wp_seq [OF wp_wlp [OF wp_register [OF X at] register_outer]])
    show "0 < b" using b by simp
    fix t s1
    assume s1: "(hp_mem.more s1 = hp_mem.more s \<and> (if t = null then live s1 = live s \<and> hps_at C s1 ?h ts ins V K pend M
       else t \<notin> live s \<and> live s1 = insert t (live s) \<and> hp_ok X C s1 t Map.empty (all_retired s ts V pend) M)) \<and> outer s1 = outer s"
    show "wp (if t = null then Done null else call (on_helper H k (rd helper_tls_slot)) (\<lambda>tls_slot. call (external (TlsSetValue W tls_slot t)) (\<lambda>stored.
        if \<not> stored then call (clds_hazard_pointers_unregister_thread X b t) (\<lambda>_. Done null) else Done t))) Q s1"
    proof (cases "t = null")
      case True
      then show ?thesis using s1 new by (simp add: wp_Done Q_def)
    next
      case False
      let ?s = "s1\<lparr>outer := snd (TlsSetValue W ?slot t (outer s1))\<rparr>"
      have t: "hp_ok X C ?s t Map.empty (all_retired s ts V pend) M" "t \<notin> live s" "live s1 = insert t (live s)"
        using s1 False slots_okD(4) [OF W] by (simp_all add: hp_ok_outer)
      have more: "hp_mem.more ?s = hp_mem.more s" using s1 by simp
      obtain h' ts' ins' V' K' pend' where at': "hps_at C ?s h' ts' ins' V' K' pend' M" "t \<in> set ts'" by (rule hp_okE [OF t(1)])
      have "card (live ?s) < b" using t(3) b card_insert_le_m1 [of "Suc (card (live s))" "live s" t] by (simp add: card_insert_if)
      then have "wp (call (clds_hazard_pointers_unregister_thread X b t) (\<lambda>_. Done null)) Q ?s" if "\<not> fst (TlsSetValue W ?slot t (outer s1))"
        by (intro wp_seq [OF wp_wlp [OF wp_unregister [OF X at'] unregister_slots [OF W, where slot = ?slot]]])
          (use more t s1 new slots_okD(3) [OF W that] in \<open>auto simp: wp_Done Q_def\<close>)
      moreover have "Q t ?s" if "fst (TlsSetValue W ?slot t (outer s1))" using False t more slots_okD(2) [OF W that] by (simp add: Q_def)
      ultimately show ?thesis using False kept [of s1] s1 by (simp add: wp_call wp_on_helper_rd [of H s1 k T] wp_external wp_Done wp_Done_fun)
    qed
  qed
  then show ?thesis
    using H new slots_okD(1) [OF W]
    by (simp add: clds_hazard_pointers_thread_helper_get_thread_def wp_call [of "on_helper _ _ _"] wp_call [of "external _"] wp_on_helper_rd wp_external Q_def)
qed

section \<open>Creating and destroying a helper\<close>

text \<open>What is taken of the operating system and of the dispatcher, and how the services change it.\<close>

record service_use =
  slots_taken :: "32 word set"
  dispatcher_references :: int
  targets_registered :: "ptr set"

definition services_ok :: "'q thread_services \<Rightarrow> ('q \<Rightarrow> service_use) \<Rightarrow> bool" where
  "services_ok W U \<longleftrightarrow>
     (\<forall>q. let (slot, q') = TlsAlloc W q in
        if slot = TLS_OUT_OF_INDEXES then U q' = U q
        else slot \<notin> slots_taken (U q) \<and> U q' = (U q)\<lparr>slots_taken := insert slot (slots_taken (U q))\<rparr>) \<and>
     (\<forall>slot q. U (snd (TlsFree W slot q)) = (U q)\<lparr>slots_taken := slots_taken (U q) - {slot}\<rparr>) \<and>
     (\<forall>q. let (d, q') = get_call_dispatcher W q in
        if d = null then U q' = U q else U q' = (U q)\<lparr>dispatcher_references := dispatcher_references (U q) + 1\<rparr>) \<and>
     (\<forall>d q. d \<noteq> null \<longrightarrow>
        U (snd (release_call_dispatcher W d q)) = (U q)\<lparr>dispatcher_references := dispatcher_references (U q) - 1\<rparr>) \<and>
     (\<forall>d x q. let (h, q') = register_target W d x q in
        if h = null then U q' = U q
        else h \<notin> targets_registered (U q) \<and> U q' = (U q)\<lparr>targets_registered := insert h (targets_registered (U q))\<rparr>) \<and>
     (\<forall>d h q. U (snd (unregister_target W d h q)) = (U q)\<lparr>targets_registered := targets_registered (U q) - {h}\<rparr>)"

lemma services_okD:
  assumes "services_ok W U"
  shows "fst (TlsAlloc W q) = TLS_OUT_OF_INDEXES \<Longrightarrow> U (snd (TlsAlloc W q)) = U q"
    and "fst (TlsAlloc W q) \<noteq> TLS_OUT_OF_INDEXES \<Longrightarrow> fst (TlsAlloc W q) \<notin> slots_taken (U q) \<and>
      U (snd (TlsAlloc W q)) = (U q)\<lparr>slots_taken := insert (fst (TlsAlloc W q)) (slots_taken (U q))\<rparr>"
    and "U (snd (TlsFree W slot q)) = (U q)\<lparr>slots_taken := slots_taken (U q) - {slot}\<rparr>"
    and "fst (get_call_dispatcher W q) = null \<Longrightarrow> U (snd (get_call_dispatcher W q)) = U q"
    and "fst (get_call_dispatcher W q) \<noteq> null \<Longrightarrow>
      U (snd (get_call_dispatcher W q)) = (U q)\<lparr>dispatcher_references := dispatcher_references (U q) + 1\<rparr>"
    and "d \<noteq> null \<Longrightarrow> U (snd (release_call_dispatcher W d q)) = (U q)\<lparr>dispatcher_references := dispatcher_references (U q) - 1\<rparr>"
    and "fst (register_target W d x q) = null \<Longrightarrow> U (snd (register_target W d x q)) = U q"
    and "fst (register_target W d x q) \<noteq> null \<Longrightarrow> fst (register_target W d x q) \<notin> targets_registered (U q) \<and>
      U (snd (register_target W d x q)) = (U q)\<lparr>targets_registered := insert (fst (register_target W d x q)) (targets_registered (U q))\<rparr>"
    and "U (snd (unregister_target W d h q)) = (U q)\<lparr>targets_registered := targets_registered (U q) - {h}\<rparr>"
  using assms unfolding services_ok_def by (simp_all add: split_beta Let_def)

lemma wp_helper_create:
  assumes S: "services_ok W U" and P: "helper_part_ok H" and h: "hps \<noteq> null"
  shows "wp (clds_hazard_pointers_thread_helper_create H W hps) (\<lambda>k s'.
     if k = null then live s' = live s \<and> U (outer s') = U (outer s)
     else k \<notin> live s \<and> live s' = insert k (live s) \<and> (\<exists>T. get_helpers H s' k = Some T \<and> helper_hazard_pointers T = hps \<and>
       helper_call_dispatcher T \<noteq> null \<and> helper_tls_slot T \<notin> slots_taken (U (outer s)) \<and>
       thread_notification_target_handle T \<notin> targets_registered (U (outer s)) \<and>
       U (outer s') = (U (outer s))\<lparr>slots_taken := insert (helper_tls_slot T) (slots_taken (U (outer s))),
         dispatcher_references := dispatcher_references (U (outer s)) + 1,
         targets_registered := insert (thread_notification_target_handle T) (targets_registered (U (outer s)))\<rparr>)) s"
proof -
  note laws = services_okD [OF S]
  show ?thesis
    unfolding clds_hazard_pointers_thread_helper_create_def malloc_helper_def free_helper_def on_helper_def Let_def using h
    by (auto simp: wp_call wp_access wp_free_obj wp_external wp_Done access_kinds wp_if laws helper_partD(2-4) [OF P] helper_part_kept [OF P] intro!: wp_new_obj)
      (frule laws(8) [THEN conjunct1], simp add: laws helper_partD(2-4) [OF P] helper_part_kept [OF P])
qed

lemma wp_helper_destroy:
  assumes S: "services_ok W U" and P: "helper_part_ok H" and T: "get_helpers H s k = Some T" "helper_call_dispatcher T \<noteq> null" and k: "k \<noteq> null" "k \<in> live s"
  shows "wp (clds_hazard_pointers_thread_helper_destroy H W k) (\<lambda>_ s'. live s' = live s - {k} \<and> U (outer s') = (U (outer s))
     \<lparr>slots_taken := slots_taken (U (outer s)) - {helper_tls_slot T}, dispatcher_references := dispatcher_references (U (outer s)) - 1,
       targets_registered := targets_registered (U (outer s)) - {thread_notification_target_handle T}\<rparr>) s"
  unfolding clds_hazard_pointers_thread_helper_destroy_def free_helper_def on_helper_def
  using T k by (simp add: wp_call wp_access wp_free_obj wp_external wp_Done access_kinds services_okD [OF S] helper_partD(2-4) [OF P] helper_part_kept [OF P])

section \<open>Properties\<close>

text \<open>
  C31: the second call of a thread gives the handle that the first one has registered, and nothing else
  is registered; when memory or the slot fails the result is NULL and nothing is left but, at most,
  the memory of a thread that is not active.
\<close>

theorem thread_helper_one_registration:
  assumes "slots_ok W X C" and "tqueue_ok X C" and "helper_part_ok H" and "get_helpers H s k = Some T" and "k \<noteq> null"
    and "hps_at C s (helper_hazard_pointers T) ts ins V K pend M" and "fst (TlsGetValue W (helper_tls_slot T) (outer s)) = null"
    and "Suc (card (live s)) < b"
  shows "wp (clds_hazard_pointers_thread_helper_get_thread H X W b k) (\<lambda>t s1.
      if t = null then fst (TlsGetValue W (helper_tls_slot T) (outer s1)) = null \<and>
        (live s1 = live s \<or> (\<exists>t'. live s1 = insert t' (live s) \<and> t' \<notin> live s \<and> \<not> is_active s1 t'))
      else t \<notin> live s \<and> hp_ok X C s1 t Map.empty (all_retired s ts V pend) M \<and>
      wp (clds_hazard_pointers_thread_helper_get_thread H X W b k) (\<lambda>t' s2. t' = t \<and> s2 = s1) s1) s"
proof (rule wp_mono [OF wp_get_thread_new [OF assms]], goal_cases)
  case (1 t s1)
  then have "get_helpers H s1 k = Some T" using assms(4) helper_partD(1) [OF assms(3), of s1 s] by simp
  then show ?case using 1 by (simp add: wp_get_thread_known [OF assms(1) _ assms(5)] split: if_splits)
qed

text \<open>
  C32: when a thread ends, its slot is emptied (when the operating system allows it) and the thread is
  unregistered: it is not active any more and what it has retired is pending.
\<close>

theorem thread_helper_detach:
  assumes W: "slots_ok W X C" and X: "tqueue_ok X C" and P: "helper_part_ok H" and H: "get_helpers H s k = Some T" "k \<noteq> null"
    and at: "hps_at C s h ts ins V K pend M" and t: "t \<in> set ts" "t \<noteq> null" "fst (TlsGetValue W (helper_tls_slot T) (outer s)) = t" and b: "card (live s) < b"
  shows "wp (clds_hazard_pointers_thread_helper_thread_notification H X W b k THREAD_NOTIFICATIONS_LACKEY_DLL_REASON_THREAD_DETACH) (\<lambda>_ s'. \<exists>K'.
      hps_at C s' h ts ins (V(t := (V t)\<lparr>retired := []\<rparr>)) K' (retired (V t) @ pend) M \<and> \<not> is_active s' t \<and> live s' = live s \<and>
      hp_mem.more s' = hp_mem.more s \<and>
      fst (TlsGetValue W (helper_tls_slot T) (outer s')) = (if fst (TlsSetValue W (helper_tls_slot T) null (outer s)) then null else t)) s"
proof -
  let ?s = "s\<lparr>outer := snd (TlsSetValue W (helper_tls_slot T) null (outer s))\<rparr>"
  have at': "hps_at C ?s h ts ins V K pend M" using at slots_okD(4) [OF W] by (simp add: hps_at_any_outer)
  have "wp (clds_hazard_pointers_unregister_thread X b t) (\<lambda>_ s'. \<exists>K'.
      hps_at C s' h ts ins (V(t := (V t)\<lparr>retired := []\<rparr>)) K' (retired (V t) @ pend) M \<and> \<not> is_active s' t \<and> live s' = live s \<and>
      hp_mem.more s' = hp_mem.more s \<and>
      fst (TlsGetValue W (helper_tls_slot T) (outer s')) = (if fst (TlsSetValue W (helper_tls_slot T) null (outer s)) then null else t)) ?s"
    by (rule wp_mono [OF wp_wlp [OF wp_unregister [OF X at' t(1)] unregister_slots [OF W, where slot = "helper_tls_slot T"]]])
      (use b t(3) slots_okD(2,3) [OF W, of "helper_tls_slot T"] in auto)
  then show ?thesis
    using H t(2,3) slots_okD(1) [OF W] by (simp add: clds_hazard_pointers_thread_helper_thread_notification_def wp_call wp_on_helper_rd wp_external)
qed

text \<open>
  C33: creating a helper either fails, and then the memory, the slot and the reference to the dispatcher
  that were taken on the way have been given back, or gives a helper of the instance; destroying it
  gives back everything that creating it has taken.
\<close>

theorem thread_helper_create_destroy:
  assumes S: "services_ok W U" and P: "helper_part_ok H" and h: "hps \<noteq> null"
  shows "wp (clds_hazard_pointers_thread_helper_create H W hps) (\<lambda>k s1.
     if k = null then live s1 = live s \<and> U (outer s1) = U (outer s)
     else k \<notin> live s \<and> (\<exists>T. get_helpers H s1 k = Some T \<and> helper_hazard_pointers T = hps \<and> helper_tls_slot T \<notin> slots_taken (U (outer s))) \<and>
       wp (clds_hazard_pointers_thread_helper_destroy H W k) (\<lambda>_ s2. live s2 = live s \<and> U (outer s2) = U (outer s)) s1) s"
proof (rule wp_mono [OF wp_helper_create [OF assms]], goal_cases)
  case (1 k s1)
  show ?case
  proof (cases "k = null")
    case False
    with 1 obtain T where T: "get_helpers H s1 k = Some T" "helper_call_dispatcher T \<noteq> null" "k \<in> live s1"
      and rest: "k \<notin> live s" "live s1 = insert k (live s)" "helper_hazard_pointers T = hps" "helper_tls_slot T \<notin> slots_taken (U (outer s))"
        "thread_notification_target_handle T \<notin> targets_registered (U (outer s))"
        "U (outer s1) = (U (outer s))\<lparr>slots_taken := insert (helper_tls_slot T) (slots_taken (U (outer s))),
           dispatcher_references := dispatcher_references (U (outer s)) + 1,
           targets_registered := insert (thread_notification_target_handle T) (targets_registered (U (outer s)))\<rparr>" by auto
    have "wp (clds_hazard_pointers_thread_helper_destroy H W k) (\<lambda>_ s2. live s2 = live s \<and> U (outer s2) = U (outer s)) s1"
      by (rule wp_mono [OF wp_helper_destroy [OF S P T(1,2) False T(3)]]) (use rest in simp)
    then show ?thesis using False T(1) rest by simp
  qed (use 1 in simp)
qed

section \<open>Witnesses\<close>

text \<open>Queue, slots and what is taken of the services, all ones of one thread.\<close>

type_synonym os_example = "inactive_thread list \<times> (32 word \<Rightarrow> ptr) \<times> service_use"

definition on_queue :: "(inactive_thread list \<Rightarrow> 'v \<times> inactive_thread list) \<Rightarrow> os_example \<Rightarrow> 'v \<times> os_example" where
  "on_queue f q = (fst (f (fst q)), snd (f (fst q)), snd q)"

definition os_externals :: "os_example externals" where
  "os_externals = \<lparr>tqueue_create = on_queue (tqueue_create list_externals), tqueue_push = (\<lambda>q x. on_queue (tqueue_push list_externals q x)),
     tqueue_pop = (\<lambda>q P. on_queue (tqueue_pop list_externals q P)), tqueue_release = (\<lambda>q. on_queue (tqueue_release list_externals q)),
     worker_thread_create = (\<lambda>p. on_queue (worker_thread_create list_externals p)),
     worker_thread_open = (\<lambda>w. on_queue (worker_thread_open list_externals w)),
     worker_thread_close = (\<lambda>w. on_queue (worker_thread_close list_externals w)),
     worker_thread_destroy = (\<lambda>w. on_queue (worker_thread_destroy list_externals w)),
     worker_thread_schedule_process = (\<lambda>w. on_queue (worker_thread_schedule_process list_externals w))\<rparr>"

definition os_contents :: "os_example \<Rightarrow> ptr \<Rightarrow> inactive_thread list" where
  "os_contents q = list_contents (fst q)"

definition os_use :: "os_example \<Rightarrow> service_use" where
  "os_use q = snd (snd q)"

definition with_use :: "(service_use \<Rightarrow> service_use) \<Rightarrow> os_example \<Rightarrow> os_example" where
  "with_use f q = (fst q, fst (snd q), f (snd (snd q)))"

text \<open>There is one slot, 5, and one registration, at 8; the reference to the dispatcher is 24.\<close>

definition os_services :: "os_example thread_services" where
  "os_services = \<lparr>
     TlsAlloc = (\<lambda>q. if 5 \<in> slots_taken (os_use q) then (TLS_OUT_OF_INDEXES, q) else (5, with_use (slots_taken_update (insert 5)) q)),
     TlsFree = (\<lambda>slot q. (True, with_use (slots_taken_update (\<lambda>A. A - {slot})) q)),
     TlsGetValue = (\<lambda>slot q. (fst (snd q) slot, q)),
     TlsSetValue = (\<lambda>slot v q. (True, fst q, (fst (snd q))(slot := v), snd (snd q))),
     get_call_dispatcher = (\<lambda>q. (24, with_use (dispatcher_references_update (\<lambda>n. n + 1)) q)),
     register_target = (\<lambda>d x q. if 8 \<in> targets_registered (os_use q) then (null, q) else (8, with_use (targets_registered_update (insert 8)) q)),
     unregister_target = (\<lambda>d h q. ((), with_use (targets_registered_update (\<lambda>A. A - {h})) q)),
     release_call_dispatcher = (\<lambda>d q. ((), with_use (dispatcher_references_update (\<lambda>n. n - 1)) q))\<rparr>"

lemma os_externals_ok: "tqueue_ok os_externals os_contents"
  by (auto simp: tqueue_ok_def os_externals_def on_queue_def list_externals_def os_contents_def list_contents_def split: list.splits)

lemma os_slots_ok: "slots_ok os_services os_externals os_contents"
  by (auto simp: slots_ok_def os_services_def os_externals_def on_queue_def list_externals_def os_contents_def list_contents_def)

lemma os_services_ok: "services_ok os_services os_use"
  unfolding services_ok_def by (auto simp: os_services_def os_use_def with_use_def)

text \<open>A helper at 96, in the slot 5 of the thread that runs the value \<open>v\<close>; the thread at 32 has retired a node.\<close>

record 'q helper_mem = "'q hp_mem" +
  helpers :: "ptr \<Rightarrow> thread_helper option"

definition its_helpers :: "('q, 'a) helper_mem_scheme helper_part" where
  "its_helpers = \<lparr>get_helpers = helpers, put_helpers = (\<lambda>m. helpers_update (\<lambda>_. m))\<rparr>"

lemma its_helpers_ok: "helper_part_ok its_helpers"
  unfolding helper_part_ok_def its_helpers_def
proof (intro conjI allI impI, goal_cases)
  case (1 s s')
  then show ?case by (cases s; cases s') simp
qed simp_all

definition helper_96 :: thread_helper where
  "helper_96 = \<lparr>helper_hazard_pointers = 16, helper_tls_slot = 5, thread_notification_target_handle = 8, helper_call_dispatcher = 24\<rparr>"

definition helper_example :: "ptr \<Rightarrow> os_example helper_mem" where
  "helper_example v = \<lparr>live = {16, 32, 48, 64, 80, 96, 112, 128}, answers = [144, 160, 176, 192], st_sets = Map.empty, st_arrays = Map.empty,
     st_items = Map.empty, hp_records = hp_records hp_example, hp_entries = hp_entries hp_example,
     hp_threads = hp_threads hp_example, hp_structs = hp_structs hp_example,
     outer = ([], (\<lambda>_. null)(5 := v), \<lparr>slots_taken = {5}, dispatcher_references = 1, targets_registered = {8}\<rparr>),
     helpers = [96 \<mapsto> helper_96]\<rparr>"

definition helper_example_slot :: "ptr \<Rightarrow> slot" where
  "helper_example_slot = hp_example_slot(96 := Client)"

lemma helper_example_at: "hps_at os_contents (helper_example v) 16 [32] [] hp_example_view helper_example_slot [] {96, 112, 128}"
  unfolding hps_at_def thread_at_def own_def
  by (simp add: helper_example_def hp_example_def hp_example_view_def helper_example_slot_def hp_example_slot_def os_contents_def list_contents_def insert_commute)

lemma helper_96_simps [simp]: "helper_hazard_pointers helper_96 = 16" "helper_tls_slot helper_96 = 5"
  by (simp_all add: helper_96_def)

lemma helper_example_simps:
  "get_helpers its_helpers (helper_example v) 96 = Some helper_96"
  "card (live (helper_example v)) = 8" "fst (TlsGetValue os_services 5 (outer (helper_example v))) = v"
  "fst (TlsSetValue os_services slot x q)"
  by (simp_all add: helper_example_def os_services_def its_helpers_def)

theorem thread_helper_one_registration_witness:
  "wp (clds_hazard_pointers_thread_helper_get_thread its_helpers os_externals os_services 10 96) (\<lambda>t s1.
      if t = null then fst (TlsGetValue os_services 5 (outer s1)) = null \<and> (live s1 = live (helper_example null) \<or>
        (\<exists>t'. live s1 = insert t' (live (helper_example null)) \<and> t' \<notin> live (helper_example null) \<and> \<not> is_active s1 t'))
      else t \<notin> live (helper_example null) \<and> hp_ok os_externals os_contents s1 t Map.empty (all_retired (helper_example null) [32] hp_example_view []) {96, 112, 128} \<and>
      wp (clds_hazard_pointers_thread_helper_get_thread its_helpers os_externals os_services 10 96) (\<lambda>t' s2. t' = t \<and> s2 = s1) s1) (helper_example null) \<and>
   (case run (clds_hazard_pointers_thread_helper_get_thread its_helpers os_externals os_services 10 96) (helper_example null) of
      Value t s' \<Rightarrow> t = 144 \<and> fst (snd (outer s')) 5 = 144 | _ \<Rightarrow> False)"
proof
  show "case run (clds_hazard_pointers_thread_helper_get_thread its_helpers os_externals os_services 10 96) (helper_example null) of
      Value t s' \<Rightarrow> t = 144 \<and> fst (snd (outer s')) 5 = 144 | _ \<Rightarrow> False"
    by code_simp
qed (rule wp_mono [OF thread_helper_one_registration [OF os_slots_ok os_externals_ok its_helpers_ok helper_example_simps(1),
    unfolded helper_96_simps, OF _ helper_example_at]]; simp add: helper_example_simps)

theorem thread_helper_detach_witness:
  "wp (clds_hazard_pointers_thread_helper_thread_notification its_helpers os_externals os_services 9 96 THREAD_NOTIFICATIONS_LACKEY_DLL_REASON_THREAD_DETACH)
     (\<lambda>_ s'. \<exists>K'. hps_at os_contents s' 16 [32] [] (hp_example_view(32 := (hp_example_view 32)\<lparr>retired := []\<rparr>)) K'
        (retired (hp_example_view 32) @ []) {96, 112, 128} \<and> \<not> is_active s' 32 \<and> live s' = live (helper_example 32) \<and>
        hp_mem.more s' = hp_mem.more (helper_example 32) \<and>
        fst (TlsGetValue os_services 5 (outer s')) = null) (helper_example 32)"
  by (rule wp_mono [OF thread_helper_detach [OF os_slots_ok os_externals_ok its_helpers_ok helper_example_simps(1) _ helper_example_at]])
    (simp_all add: helper_example_simps)

text \<open>The same memory before the helper has taken anything.\<close>

definition helper_fresh :: "os_example helper_mem" where
  "helper_fresh = (helper_example null)\<lparr>helpers := Map.empty,
     outer := ([], \<lambda>_. null, \<lparr>slots_taken = {}, dispatcher_references = 0, targets_registered = {}\<rparr>)\<rparr>"

theorem thread_helper_create_destroy_witness:
  "wp (clds_hazard_pointers_thread_helper_create its_helpers os_services 16) (\<lambda>k s1.
     if k = null then live s1 = live helper_fresh \<and> os_use (outer s1) = os_use (outer helper_fresh)
     else k \<notin> live helper_fresh \<and> (\<exists>T. get_helpers its_helpers s1 k = Some T \<and> helper_hazard_pointers T = 16 \<and>
         helper_tls_slot T \<notin> slots_taken (os_use (outer helper_fresh))) \<and>
       wp (clds_hazard_pointers_thread_helper_destroy its_helpers os_services k)
         (\<lambda>_ s2. live s2 = live helper_fresh \<and> os_use (outer s2) = os_use (outer helper_fresh)) s1) helper_fresh \<and>
   (case run (clds_hazard_pointers_thread_helper_create its_helpers os_services 16) helper_fresh of
      Value k s1 \<Rightarrow> k = 144 \<and> slots_taken (os_use (outer s1)) = {5} | _ \<Rightarrow> False)"
proof
  show "case run (clds_hazard_pointers_thread_helper_create its_helpers os_services 16) helper_fresh of
      Value k s1 \<Rightarrow> k = 144 \<and> slots_taken (os_use (outer s1)) = {5} | _ \<Rightarrow> False"
    by code_simp
qed (rule thread_helper_create_destroy [OF os_services_ok its_helpers_ok], simp)

end
