(* ===== verification/Spec2Isabelle.thy ===== *)
theory Spec2Isabelle
  imports Mpsc_Concurrent Write_Lock Clds_St_Hash_Set Sorted_List_Properties Hash_Table_Properties Lock_Free_Set
    Clds_Singly_Linked_List Clds_Hazard_Pointers_Thread_Helper
begin

text \<open>
  A model of Azure's clds (Concurrent and Lock-free Data Structures in C), in \<open>src/src/\<close> and
  \<open>src/inc/clds/\<close>.

  \<^bold>\<open>The program.\<close> Hazard pointers (\<open>clds_hazard_pointers.c\<close>) are the base: a thread publishes the
  nodes it uses, and retired nodes are reclaimed by a cycle that scans what is published, with
  \<open>clds_st_hash_set.c\<close> as its scratch set. The sorted list (\<open>clds_sorted_list.c\<close>) is a Harris-style
  linked list whose deleted nodes are marked in the low bit of their next pointer and retired to the
  hazard pointers; it and the hash table have a write lock for snapshots. The multi producer single
  consumer queue (\<open>mpsc_lock_free_queue.c\<close>) is an intrusive stack that the consumer reverses. The
  lock free set (\<open>lock_free_set.c\<close>) is a doubly linked list that marks the links of an item while it is
  taken out. The singly linked list (\<open>clds_singly_linked_list.c\<close>) is unordered, with insertion at the
  head and deletion as in the sorted list. The hash table (\<open>clds_hash_table.c\<close>) is a chain of arrays of buckets, each bucket a sorted
  list; it grows by a new first array, and the older arrays are searched as well.

  \<^bold>\<open>How programs are modelled\<close> (\<open>Prelude\<close>). A C function is a \<open>prog\<close>: a tree of accesses to a
  shared state, one node for each read, write or interlocked operation of memory that others may
  see, so that a function can be run alone (\<open>run\<close>, \<open>wp\<close>) or interleaved with others
  (\<open>Interleaving\<close>). An access of an address that is not allocated is \<open>Fault\<close>; the answers of
  \<open>malloc\<close> come from a tape, and an answer that is null or in use is a failed allocation. Pointers are \<open>64 word\<close>s and the
  delete mark is bit 0. Structs are records, and each struct type has its own map from addresses.
  Loops of the code have a bound and end in \<open>Spin\<close> when it is used up; \<open>wp\<close> excludes both \<open>Fault\<close>
  and \<open>Spin\<close>, so what is proved with \<open>wp\<close> says that the code returns. The bounds asked for are the
  length of the lists that are walked.

  \<^bold>\<open>Theories.\<close>
  \<^item> \<open>Prelude\<close>: pointers and marks, programs, weakest preconditions, the heap, chains of addresses.
  \<^item> \<open>Interleaving\<close>: a pool of programs over one state, schedules, and rely/guarantee reasoning.
  \<^item> \<open>Mpsc_Lock_Free_Queue\<close>: every function of \<open>mpsc_lock_free_queue.c\<close>; the locale \<open>fifo_queue\<close> of
    a queue used by one thread, interpreted on the code.
  \<^item> \<open>Mpsc_Concurrent\<close>: any number of producers and one consumer, all interleavings: no fault, the
    two chains of the queue hold what is in it, FIFO order, every producer's order.
  \<^item> \<open>Write_Lock\<close>: the write lock of the sorted list and the hash table, and its mutual exclusion in
    all interleavings: the flags \<open>writing\<close> and \<open>locking\<close> belong to clients, which set them after
    the code's functions have returned and clear them before the operation or the lock is given up.
  \<^item> \<open>Clds_St_Hash_Set\<close>: every function of \<open>clds_st_hash_set.c\<close>; the locale \<open>pointer_set\<close>.
  \<^item> \<open>Clds_Hazard_Pointers\<close>: every function of \<open>clds_hazard_pointers.c\<close>, the invariant \<open>hps_at\<close> of
    an instance and its threads, and what each loop does.
  \<^item> \<open>Hazard_Pointer_Contract\<close>: the contract \<open>hazard_pointers\<close> that a data structure using hazard
    pointers relies on, interpreted on the code, and the life of instances and threads. A retired node
    is owed a reclaim call until the call is made (\<open>reclaim_ok\<close>, \<open>drop_ok\<close>); a cycle that keeps every
    node has failed to allocate. \<open>worker_use\<close> counts what creation takes from the parameters.
  \<^item> \<open>Hazard_Pointer_Client\<close>: what the lists share that walk under the protection of hazard pointers.
  \<^item> \<open>Clds_Sorted_List\<close>: every function of \<open>clds_sorted_list.c\<close>, over the functions of the hazard
    pointers. \<open>Sorted_List_Walk\<close>: the walk that the operations share, and the invariant \<open>csl_ok\<close> of a
    list with its reference counts; \<open>settled\<close> says that a retired node's reference is owed or has been
    given up by its reclaim call, and no other. \<open>Sorted_List_Operations\<close>: insertion, deletion, replacement and
    look-up. \<open>Sorted_List_Snapshots\<close>: locking, counting, copying, creating and destroying.
    \<open>Sorted_List_Properties\<close>: the properties, as refinements of functions on lists.
  \<^item> \<open>Clds_Hash_Table\<close>: every function of \<open>clds_hash_table.c\<close>, over those of the sorted list.
    \<open>Hash_Table_Levels\<close>: the arrays and their buckets, the invariant \<open>table_ok\<close>. \<open>Hash_Table_Steps\<close>:
    what an operation on the list of one bucket does to the table. \<open>Hash_Table_Search\<close>: the search
    through the levels; \<open>Hash_Table_Insert\<close>: growing (\<open>table_grown\<close>: when, and by how much) and
    inserting. \<open>Hash_Table_Properties\<close>: the
    properties.
  \<^item> \<open>Lock_Free_Set\<close>: every function of \<open>lock_free_set.c\<close>, and the contract \<open>item_set\<close> of a set that one
    thread uses, interpreted on the code.
  \<^item> \<open>Clds_Singly_Linked_List\<close>: every function of \<open>clds_singly_linked_list.c\<close>, the invariant \<open>sll_ok\<close> of a
    list with its reference counts, and an interleaving in which the insertion goes wrong.
  \<^item> \<open>Clds_Hazard_Pointers_Thread_Helper\<close>: every function of \<open>clds_hazard_pointers_thread_helper.c\<close>: one
    registration for each thread, found again through thread-local storage.

  \<^bold>\<open>Not modelled.\<close> Third-party code is a parameter: c-util's TQUEUE and worker thread (\<open>externals\<close>),
  thread-local storage and the dispatcher of thread notifications (\<open>thread_services\<close>),
  the functions given by the caller (hash, compare, reclaim, clean-up callbacks). Logging has no effect on
  the state. \<open>wait_on_address\<close> may return at any time and \<open>wake_by_address\<close> changes no memory, so
  neither is a step. \<open>inactive_hp_thread_queue.c\<close> is one instantiation of a third-party macro. The LRU cache
  is not modelled. The properties of the lists, the hash table and the lock free set are about one
  thread while the others are at rest.
\<close>

end
